(* ===== verification/Prelude.thy ===== *)
theory Prelude
  imports Main "HOL-Library.Monad_Syntax"
begin

text \<open>
  Shared vocabulary of the CellRune development: Rust's \<open>u32\<close> arithmetic written out on
  natural numbers, fallible results, the ASCII predicates of \<open>core::char\<close>, decimal printing
  (\<open>write!("{}", n)\<close>), and the round-trip interface \<open>codec\<close> that the textual and
  numeric encodings of the components implement.
\<close>

section \<open>Collections of rewrite rules\<close>

named_theorems u32_simps \<open>exactness of 32-bit arithmetic below the wrap-around\<close>
named_theorems ascii_simps \<open>evaluation of ASCII predicates on digits and letters\<close>

section \<open>32-bit unsigned integers\<close>

text \<open>
  A \<open>u32\<close> is a natural number below \<open>2 ^ 32\<close>. Plain \<open>+\<close>, \<open>-\<close> and \<open>*\<close> of the
  release profile wrap around; the development profile panics instead. Every component proves
  that its operations stay below the bound, where both profiles and the natural numbers agree.
\<close>

type_synonym u32 = nat

abbreviation u32_bound :: nat where
  "u32_bound \<equiv> 4294967296"

definition u32_add :: "u32 \<Rightarrow> u32 \<Rightarrow> u32" where
  "u32_add a b = (a + b) mod u32_bound"

definition u32_mul :: "u32 \<Rightarrow> u32 \<Rightarrow> u32" where
  "u32_mul a b = (a * b) mod u32_bound"

definition u32_sub :: "u32 \<Rightarrow> u32 \<Rightarrow> u32" where
  "u32_sub a b = (a + u32_bound - b) mod u32_bound"

definition checked_add :: "u32 \<Rightarrow> u32 \<Rightarrow> u32 option" where
  "checked_add a b = (if a + b < u32_bound then Some (a + b) else None)"

lemma u32_add_exact [u32_simps]: "a + b < u32_bound \<Longrightarrow> u32_add a b = a + b"
  by (simp add: u32_add_def)

lemma u32_mul_exact [u32_simps]: "a * b < u32_bound \<Longrightarrow> u32_mul a b = a * b"
  by (simp add: u32_mul_def)

lemma u32_sub_exact [u32_simps]:
  assumes "b \<le> a" and "a < u32_bound"
  shows "u32_sub a b = a - b"
proof -
  have "a + u32_bound - b = (a - b) + u32_bound" using assms(1) by simp
  then have "u32_sub a b = (a - b) mod u32_bound"
    unfolding u32_sub_def by (simp only: mod_add_self2)
  then show ?thesis using assms(2) by simp
qed

lemma u32_mul_add_exact: "v * k + d < u32_bound \<Longrightarrow> u32_add (u32_mul v k) d = v * k + d"
  by (simp add: u32_add_def u32_mul_def)

lemma checked_add_exact [u32_simps]: "a + b < u32_bound \<Longrightarrow> checked_add a b = Some (a + b)"
  by (simp add: checked_add_def)

lemma checked_add_Some: "checked_add a b = Some c \<longleftrightarrow> c = a + b \<and> a + b < u32_bound"
  by (auto simp: checked_add_def)

section \<open>Fallible results\<close>

text \<open>\<open>Result<T, E>\<close> is \<open>'e + 'a\<close>; \<open>?\<close> is \<open>res_bind\<close> and \<open>.ok()\<close> is \<open>ok\<close>.\<close>

fun res_bind :: "'e + 'a \<Rightarrow> ('a \<Rightarrow> 'e + 'b) \<Rightarrow> 'e + 'b" where
  "res_bind (Inl e) f = Inl e"
| "res_bind (Inr a) f = f a"

fun ok :: "'e + 'a \<Rightarrow> 'a option" where
  "ok (Inl e) = None"
| "ok (Inr a) = Some a"

definition then_some :: "bool \<Rightarrow> 'a \<Rightarrow> 'a option" where
  "then_some b a = (if b then Some a else None)"

lemma res_bind_eq_Inr: "res_bind r f = Inr b \<longleftrightarrow> (\<exists>a. r = Inr a \<and> f a = Inr b)"
  by (cases r) auto

lemma ok_eq_Some [simp]: "ok r = Some a \<longleftrightarrow> r = Inr a"
  by (cases r) auto

lemma then_some_eq_Some [simp]: "then_some b a = Some c \<longleftrightarrow> b \<and> c = a"
  by (auto simp: then_some_def)

section \<open>ASCII\<close>

abbreviation byte :: "char \<Rightarrow> nat" where
  "byte c \<equiv> of_char c"

definition is_ascii_digit :: "char \<Rightarrow> bool" where
  "is_ascii_digit c \<longleftrightarrow> 48 \<le> byte c \<and> byte c \<le> 57"

definition is_ascii_uppercase :: "char \<Rightarrow> bool" where
  "is_ascii_uppercase c \<longleftrightarrow> 65 \<le> byte c \<and> byte c \<le> 90"

definition is_ascii_lowercase :: "char \<Rightarrow> bool" where
  "is_ascii_lowercase c \<longleftrightarrow> 97 \<le> byte c \<and> byte c \<le> 122"

definition is_ascii_alphabetic :: "char \<Rightarrow> bool" where
  "is_ascii_alphabetic c \<longleftrightarrow> is_ascii_uppercase c \<or> is_ascii_lowercase c"

definition to_ascii_uppercase :: "char \<Rightarrow> char" where
  "to_ascii_uppercase c = (if is_ascii_lowercase c then char_of (byte c - 32) else c)"

definition digit_char :: "nat \<Rightarrow> char" where
  "digit_char d = char_of (48 + d)"

lemma byte_char_of [simp]: "n < 256 \<Longrightarrow> byte (char_of n) = n"
  by simp

lemma byte_digit_char [ascii_simps]: "d < 10 \<Longrightarrow> byte (digit_char d) = 48 + d"
  by (simp add: digit_char_def)

lemma is_ascii_digit_digit_char [ascii_simps]: "d < 10 \<Longrightarrow> is_ascii_digit (digit_char d)"
  by (simp add: is_ascii_digit_def byte_digit_char)

lemma alphabetic_not_digit [ascii_simps]: "is_ascii_alphabetic c \<Longrightarrow> \<not> is_ascii_digit c"
  by (auto simp: is_ascii_alphabetic_def is_ascii_digit_def is_ascii_uppercase_def
      is_ascii_lowercase_def)

lemma to_ascii_uppercase_of_uppercase [ascii_simps]:
  "is_ascii_uppercase c \<Longrightarrow> to_ascii_uppercase c = c"
  by (auto simp: to_ascii_uppercase_def is_ascii_uppercase_def is_ascii_lowercase_def)

lemma to_ascii_uppercase_range:
  assumes "is_ascii_alphabetic c"
  shows "is_ascii_uppercase (to_ascii_uppercase c)"
  using assms
  by (auto simp: to_ascii_uppercase_def is_ascii_alphabetic_def is_ascii_uppercase_def
      is_ascii_lowercase_def)

section \<open>Decimal printing\<close>

text \<open>The digits \<open>write!("{}", n)\<close> produces for an unsigned integer.\<close>

fun show_nat :: "nat \<Rightarrow> string" where
  "show_nat n = (if n < 10 then [digit_char n] else show_nat (n div 10) @ [digit_char (n mod 10)])"

declare show_nat.simps [simp del]

text \<open>Reading digits left to right: the value a base-ten accumulator reaches.\<close>

definition digits_value :: "string \<Rightarrow> nat" where
  "digits_value s = foldl (\<lambda>v c. v * 10 + (byte c - 48)) 0 s"

lemma show_nat_nonempty [simp]: "show_nat n \<noteq> []"
  by (subst show_nat.simps) simp

lemma show_nat_digits: "list_all is_ascii_digit (show_nat n)"
proof (induction n rule: show_nat.induct)
  case (1 n)
  then show ?case
    by (subst show_nat.simps) (simp add: ascii_simps)
qed

lemma digits_value_show_nat [simp]: "digits_value (show_nat n) = n"
proof (induction n rule: show_nat.induct)
  case (1 n)
  show ?case
  proof (cases "n < 10")
    case True
    then show ?thesis
      by (subst show_nat.simps) (simp add: digits_value_def byte_digit_char)
  next
    case False
    with "1" have "digits_value (show_nat (n div 10)) = n div 10" by simp
    with False show ?thesis
      by (subst show_nat.simps) (simp add: digits_value_def byte_digit_char)
  qed
qed

section \<open>Lists\<close>

lemma takeWhile_split:
  assumes "list_all P xs" and "ys \<noteq> [] \<Longrightarrow> \<not> P (hd ys)"
  shows "takeWhile P (xs @ ys) = xs" and "dropWhile P (xs @ ys) = ys"
proof -
  have all: "\<And>x. x \<in> set xs \<Longrightarrow> P x" using assms(1) by (simp add: list_all_iff)
  have "takeWhile P ys = []" using assms(2) by (cases ys) auto
  then show "takeWhile P (xs @ ys) = xs" using all by (simp add: takeWhile_append2)
  have "dropWhile P ys = ys" using assms(2) by (cases ys) auto
  then show "dropWhile P (xs @ ys) = ys" using all by (simp add: dropWhile_append2)
qed

section \<open>The round-trip interface\<close>

text \<open>
  A \<open>codec\<close> writes values of a valid domain and reads them back. The clients of an encoding
  rely on nothing else: two different valid values never share an encoding, and a sequence of
  encodings is read back element by element.
\<close>

locale codec =
  fixes encode :: "'a \<Rightarrow> 'b" and decode :: "'b \<Rightarrow> 'a option" and valid :: "'a \<Rightarrow> bool"
  assumes decode_encode: "valid x \<Longrightarrow> decode (encode x) = Some x"
begin

lemma encode_inj: "valid x \<Longrightarrow> valid y \<Longrightarrow> encode x = encode y \<Longrightarrow> x = y"
  by (metis decode_encode option.inject)

lemma encode_inj_on: "inj_on encode {x. valid x}"
  by (rule inj_onI) (blast intro: encode_inj)

lemma encode_image_distinct:
  "list_all valid xs \<Longrightarrow> distinct xs \<Longrightarrow> distinct (map encode xs)"
  using inj_on_subset [OF encode_inj_on, of "set xs"]
  by (auto simp: distinct_map list_all_iff)

lemma decode_all: "list_all valid xs \<Longrightarrow> those (map (decode \<circ> encode) xs) = Some xs"
  by (induction xs) (auto simp: decode_encode)

end

section \<open>Reversible transformations\<close>

text \<open>\<open>Iterator::try_fold\<close> over \<open>Option\<close>.\<close>

fun try_fold :: "('s \<Rightarrow> 'a \<Rightarrow> 's option) \<Rightarrow> 's \<Rightarrow> 'a list \<Rightarrow> 's option" where
  "try_fold f s [] = Some s"
| "try_fold f s (x # xs) = do { s' \<leftarrow> f s x; try_fold f s' xs }"

lemma try_fold_append:
  "try_fold f s (xs @ ys) = do { s' \<leftarrow> try_fold f s xs; try_fold f s' ys }"
  by (induction xs arbitrary: s) (auto split: bind_splits)

text \<open>
  A family of partial maps of a domain, each undone by a second family: what a structural edit
  promises its clients. Running a history of edits forwards and then backwards, last edit first,
  returns to the start, and nothing else maps there.
\<close>

locale reversible =
  fixes fwd :: "'e \<Rightarrow> 'a \<Rightarrow> 'a option" and bwd :: "'e \<Rightarrow> 'a \<Rightarrow> 'a option"
    and wf :: "'e \<Rightarrow> bool" and domain :: "'a \<Rightarrow> bool"
  assumes fwd_domain: "wf e \<Longrightarrow> domain x \<Longrightarrow> fwd e x = Some y \<Longrightarrow> domain y"
    and bwd_domain: "wf e \<Longrightarrow> domain y \<Longrightarrow> bwd e y = Some x \<Longrightarrow> domain x"
    and fwd_bwd: "wf e \<Longrightarrow> domain x \<Longrightarrow> domain y \<Longrightarrow> fwd e x = Some y \<longleftrightarrow> bwd e y = Some x"
begin

lemma fwd_inj:
  "wf e \<Longrightarrow> domain x \<Longrightarrow> domain x' \<Longrightarrow> fwd e x = Some y \<Longrightarrow> fwd e x' = Some y \<Longrightarrow> x = x'"
  by (metis fwd_bwd fwd_domain option.inject)

lemma fwd_then_bwd: "wf e \<Longrightarrow> domain x \<Longrightarrow> fwd e x = Some y \<Longrightarrow> bwd e y = Some x"
  by (metis fwd_bwd fwd_domain)

lemma run_domain:
  "list_all wf es \<Longrightarrow> domain x \<Longrightarrow> try_fold (\<lambda>a e. fwd e a) x es = Some y \<Longrightarrow> domain y"
  by (induction es arbitrary: x) (auto simp: bind_eq_Some_conv intro: fwd_domain)

lemma history_domain:
  assumes "list_all wf es" "domain y" "try_fold (\<lambda>a e. bwd e a) y (rev es) = Some x"
  shows "domain x"
proof -
  have "domain x" if "list_all wf es" "domain y" "try_fold (\<lambda>a e. bwd e a) y es = Some x" for es
    using that by (induction es arbitrary: y) (auto simp: bind_eq_Some_conv intro: bwd_domain)
  then show ?thesis using assms by (metis list_all_rev)
qed

lemma history_inverse:
  assumes "list_all wf es" and "domain x" and "domain y"
  shows "try_fold (\<lambda>a e. fwd e a) x es = Some y
    \<longleftrightarrow> try_fold (\<lambda>a e. bwd e a) y (rev es) = Some x"
  using assms
proof (induction es arbitrary: y rule: rev_induct)
  case Nil
  then show ?case by auto
next
  case (snoc e es)
  have "try_fold (\<lambda>a e. fwd e a) x (es @ [e]) = Some y
      \<longleftrightarrow> (\<exists>z. try_fold (\<lambda>a e. fwd e a) x es = Some z \<and> fwd e z = Some y)"
    by (simp add: try_fold_append bind_eq_Some_conv)
  also have "\<dots> \<longleftrightarrow> (\<exists>z. bwd e y = Some z \<and> try_fold (\<lambda>a e. bwd e a) z (rev es) = Some x)"
  proof (rule ex_cong1)
    fix z
    have wf: "wf e" "list_all wf es" using snoc.prems by auto
    show "(try_fold (\<lambda>a e. fwd e a) x es = Some z \<and> fwd e z = Some y)
        = (bwd e y = Some z \<and> try_fold (\<lambda>a e. bwd e a) z (rev es) = Some x)"
    proof (cases "domain z")
      case True
      with snoc.IH [OF wf(2) snoc.prems(2)] fwd_bwd [OF wf(1) _ snoc.prems(3)]
      show ?thesis by blast
    next
      case False
      with run_domain [OF wf(2) snoc.prems(2)] bwd_domain [OF wf(1) snoc.prems(3)]
      show ?thesis by blast
    qed
  qed
  finally show ?case by (simp add: bind_eq_Some_conv)
qed

end

section \<open>Partial maps over lists\<close>

text \<open>Mapping a fallible function over a list, failing with the first failure.\<close>

fun map_all :: "('a \<Rightarrow> 'b option) \<Rightarrow> 'a list \<Rightarrow> 'b list option" where
  "map_all f [] = Some []"
| "map_all f (x # xs) = Option.bind (f x) (\<lambda>y. map_option ((#) y) (map_all f xs))"

lemma map_all_Some:
  "\<forall>x\<in>set xs. f x = Some (h x) \<Longrightarrow> map_all f xs = Some (map h xs)"
  by (induction xs) auto

lemma map_all_cong [fundef_cong]:
  "xs = ys \<Longrightarrow> (\<And>x. x \<in> set ys \<Longrightarrow> f x = g x) \<Longrightarrow> map_all f xs = map_all g ys"
  by (induction ys arbitrary: xs) auto

lemma set_map_filter: "set (List.map_filter f xs) = {y. \<exists>x\<in>set xs. f x = Some y}"
  by (induction xs) (auto simp: List.map_filter_simps split: option.splits)

end
