(* ===== verification/Errors.thy ===== *)
theory Errors
  imports Prelude
begin

text \<open>The validation errors of the library (\<open>error.rs\<close>): \<open>ValidationError\<close> with its fields in the order
of the source, the codes \<open>ValidationErrorCode\<close>, the code of an error and the stable text of a code.

A \<open>char\<close> of the source is a Unicode scalar value, and a \<open>String\<close> the list of its scalar values.\<close>

type_synonym uchar = nat

type_synonym ustring = "uchar list"

section \<open>Errors and codes\<close>

datatype (plugins only: ) validation_error =
    RowOutOfRange u32
  | ColumnOutOfRange u32
  | CellAddressInvalid
  | RangeStartAfterEnd
  | SheetIdZero
  | SheetNameEmpty
  | SheetNameTooLong nat
  | SheetNameInvalidCharacter uchar
  | SheetNameApostropheBoundary
  | DuplicateSheetId u32
  | DuplicateSheetName ustring
  | DuplicateCell u32 u32
  | DefinedNameEmpty
  | DefinedNameTooLong nat
  | DefinedNameControlCharacter uchar
  | DefinedNameUnknownSheet u32
  | DuplicateDefinedName ustring
  | NonFiniteNumber
  | FormulaEmpty
  | XlsxFormulaHasLeadingEquals
  | UserFormulaMissingLeadingEquals
  | SourceIdEmpty
  | DiagnosticCodeInvalid
  | ProviderNameEmpty
  | ProviderVersionEmpty
  | DiagnosticMessageEmpty
  | UnknownSheetId u32
  | CellNotFound u32 u32 u32
  | SheetIdExhausted
  | LastVisibleSheet
  | SemanticRevisionExhausted
  | PresentationRevisionExhausted
  | PhoneticRangeEmpty u32 u32
  | PhoneticRangeOutOfBounds u32 u32
  | PhoneticRangeSplitsSurrogate u32
  | PhoneticRunsOutOfOrder
  | PhoneticTextEmpty
  | PhoneticTextInvalidCharacter uchar
  | PhoneticsRequireTextCell u32 u32 u32
  | PhoneticFontIdUnsupported u32
  | AnnotatedTextReplacementRequired u32 u32 u32
  | ArrayFormulaPartEdit u32 u32 u32
  | FrozenRowsOutOfRange u32
  | FrozenColumnsOutOfRange u32
  | FontNameInvalid
  | FormatValueOutOfRange ustring ustring
  | BuiltInNumberFormatId u32
  | CustomNumberFormatId u32
  | NumberFormatCodeEmpty
  | TableIdZero
  | TableColumnIdZero
  | TableNameEmpty
  | TableNameTooLong nat
  | TableNameInvalidCharacter uchar
  | TableNameReferenceConflict
  | DuplicateTableDisplayName ustring
  | DuplicateTableId u32
  | DuplicateTableProgrammaticName ustring
  | TableDisplayNameConflictsWithDefinedName ustring
  | TableColumnsEmpty
  | TableColumnCountMismatch nat u32
  | TableColumnNameEmpty
  | TableHeaderRequiresText u32 u32 u32
  | TableColumnNameTooLong nat
  | TableColumnNameInvalidCharacter uchar
  | TableColumnNameSpaceBoundary
  | DuplicateTableColumnName ustring
  | DuplicateTableColumnId u32
  | OverlappingTables u32 u32 u32
  | TableRowCountsExceedRange u32 u32 u32
  | InvalidTableTotalsMetadata
  | UnknownTableId u32
  | UnknownTableColumnId u32 u32
  | TableDataRowsReversed u32 u32
  | TableResizeHeaderUnderflow u32 u32 u32
  | TableMaterializationCollision u32 u32 u32 u32
  | UnsupportedTableAuthoringMetadata u32
  | TableTotalsCellOccupied u32 u32 u32
  | SheetAutoFilterNotFound u32
  | SheetAutoFilterOverlapsTable u32 u32
  | ColumnWideningRangeInvalid
  | ColumnWideningOverlap u32 u32 u32
  | FormulaRewriteParseFailed ustring nat nat "ustring option"
  | TableRangeOverlap u32 u32 u32
  | TableRangeInvalid
  | DefinedNameRenameShadowed ustring
  | UnknownDefinedName ustring
  | SheetPositionOutOfRange nat nat
  | StructuralEditEmpty
  | ContentShiftedOffSheet u32
  | MergedRangeSplit u32 u32 u32
  | TableHeaderShift u32
  | TableDataRowsDeleted u32
  | TableSplit u32
  | CopyDestinationShape
  | CopyUnsupportedFormula u32 u32 u32
  | SheetImportUnsupported ustring

datatype (plugins only: ) validation_error_code =
    CodeRowOutOfRange
  | CodeColumnOutOfRange
  | CodeCellAddressInvalid
  | CodeRangeStartAfterEnd
  | CodeSheetIdZero
  | CodeSheetNameEmpty
  | CodeSheetNameTooLong
  | CodeSheetNameInvalidCharacter
  | CodeSheetNameApostropheBoundary
  | CodeDuplicateSheetId
  | CodeDuplicateSheetName
  | CodeDuplicateCell
  | CodeDefinedNameEmpty
  | CodeDefinedNameTooLong
  | CodeDefinedNameControlCharacter
  | CodeDefinedNameUnknownSheet
  | CodeDuplicateDefinedName
  | CodeNonFiniteNumber
  | CodeFormulaEmpty
  | CodeXlsxFormulaHasLeadingEquals
  | CodeUserFormulaMissingLeadingEquals
  | CodeSourceIdEmpty
  | CodeDiagnosticCodeInvalid
  | CodeProviderNameEmpty
  | CodeProviderVersionEmpty
  | CodeDiagnosticMessageEmpty
  | CodeUnknownSheetId
  | CodeCellNotFound
  | CodeSheetIdExhausted
  | CodeLastVisibleSheet
  | CodeSemanticRevisionExhausted
  | CodePresentationRevisionExhausted
  | CodePhoneticRangeEmpty
  | CodePhoneticRangeOutOfBounds
  | CodePhoneticRangeSplitsSurrogate
  | CodePhoneticRunsOutOfOrder
  | CodePhoneticTextEmpty
  | CodePhoneticTextInvalidCharacter
  | CodePhoneticsRequireTextCell
  | CodePhoneticFontIdUnsupported
  | CodeAnnotatedTextReplacementRequired
  | CodeArrayFormulaPartEdit
  | CodeFrozenRowsOutOfRange
  | CodeFrozenColumnsOutOfRange
  | CodeFontNameInvalid
  | CodeFormatValueOutOfRange
  | CodeBuiltInNumberFormatId
  | CodeCustomNumberFormatId
  | CodeNumberFormatCodeEmpty
  | CodeTableIdZero
  | CodeTableColumnIdZero
  | CodeTableNameEmpty
  | CodeTableNameTooLong
  | CodeTableNameInvalidCharacter
  | CodeTableNameReferenceConflict
  | CodeDuplicateTableDisplayName
  | CodeDuplicateTableId
  | CodeDuplicateTableProgrammaticName
  | CodeTableDisplayNameConflictsWithDefinedName
  | CodeTableColumnsEmpty
  | CodeTableColumnCountMismatch
  | CodeTableColumnNameEmpty
  | CodeTableHeaderRequiresText
  | CodeTableColumnNameTooLong
  | CodeTableColumnNameInvalidCharacter
  | CodeTableColumnNameSpaceBoundary
  | CodeDuplicateTableColumnName
  | CodeDuplicateTableColumnId
  | CodeOverlappingTables
  | CodeTableRowCountsExceedRange
  | CodeInvalidTableTotalsMetadata
  | CodeUnknownTableId
  | CodeUnknownTableColumnId
  | CodeTableDataRowsReversed
  | CodeTableResizeHeaderUnderflow
  | CodeTableMaterializationCollision
  | CodeUnsupportedTableAuthoringMetadata
  | CodeTableTotalsCellOccupied
  | CodeSheetAutoFilterNotFound
  | CodeSheetAutoFilterOverlapsTable
  | CodeColumnWideningRangeInvalid
  | CodeColumnWideningOverlap
  | CodeFormulaRewriteParseFailed
  | CodeTableRangeOverlap
  | CodeTableRangeInvalid
  | CodeDefinedNameRenameShadowed
  | CodeUnknownDefinedName
  | CodeSheetPositionOutOfRange
  | CodeStructuralEditEmpty
  | CodeContentShiftedOffSheet
  | CodeMergedRangeSplit
  | CodeTableHeaderShift
  | CodeTableDataRowsDeleted
  | CodeTableSplit
  | CodeCopyDestinationShape
  | CodeCopyUnsupportedFormula
  | CodeSheetImportUnsupported

primrec error_code :: "validation_error \<Rightarrow> validation_error_code" where
  "error_code (RowOutOfRange _) = CodeRowOutOfRange"
| "error_code (ColumnOutOfRange _) = CodeColumnOutOfRange"
| "error_code CellAddressInvalid = CodeCellAddressInvalid"
| "error_code RangeStartAfterEnd = CodeRangeStartAfterEnd"
| "error_code SheetIdZero = CodeSheetIdZero"
| "error_code SheetNameEmpty = CodeSheetNameEmpty"
| "error_code (SheetNameTooLong _) = CodeSheetNameTooLong"
| "error_code (SheetNameInvalidCharacter _) = CodeSheetNameInvalidCharacter"
| "error_code SheetNameApostropheBoundary = CodeSheetNameApostropheBoundary"
| "error_code (DuplicateSheetId _) = CodeDuplicateSheetId"
| "error_code (DuplicateSheetName _) = CodeDuplicateSheetName"
| "error_code (DuplicateCell _ _) = CodeDuplicateCell"
| "error_code DefinedNameEmpty = CodeDefinedNameEmpty"
| "error_code (DefinedNameTooLong _) = CodeDefinedNameTooLong"
| "error_code (DefinedNameControlCharacter _) = CodeDefinedNameControlCharacter"
| "error_code (DefinedNameUnknownSheet _) = CodeDefinedNameUnknownSheet"
| "error_code (DuplicateDefinedName _) = CodeDuplicateDefinedName"
| "error_code NonFiniteNumber = CodeNonFiniteNumber"
| "error_code FormulaEmpty = CodeFormulaEmpty"
| "error_code XlsxFormulaHasLeadingEquals = CodeXlsxFormulaHasLeadingEquals"
| "error_code UserFormulaMissingLeadingEquals = CodeUserFormulaMissingLeadingEquals"
| "error_code SourceIdEmpty = CodeSourceIdEmpty"
| "error_code DiagnosticCodeInvalid = CodeDiagnosticCodeInvalid"
| "error_code ProviderNameEmpty = CodeProviderNameEmpty"
| "error_code ProviderVersionEmpty = CodeProviderVersionEmpty"
| "error_code DiagnosticMessageEmpty = CodeDiagnosticMessageEmpty"
| "error_code (UnknownSheetId _) = CodeUnknownSheetId"
| "error_code (CellNotFound _ _ _) = CodeCellNotFound"
| "error_code SheetIdExhausted = CodeSheetIdExhausted"
| "error_code LastVisibleSheet = CodeLastVisibleSheet"
| "error_code SemanticRevisionExhausted = CodeSemanticRevisionExhausted"
| "error_code PresentationRevisionExhausted = CodePresentationRevisionExhausted"
| "error_code (PhoneticRangeEmpty _ _) = CodePhoneticRangeEmpty"
| "error_code (PhoneticRangeOutOfBounds _ _) = CodePhoneticRangeOutOfBounds"
| "error_code (PhoneticRangeSplitsSurrogate _) = CodePhoneticRangeSplitsSurrogate"
| "error_code PhoneticRunsOutOfOrder = CodePhoneticRunsOutOfOrder"
| "error_code PhoneticTextEmpty = CodePhoneticTextEmpty"
| "error_code (PhoneticTextInvalidCharacter _) = CodePhoneticTextInvalidCharacter"
| "error_code (PhoneticsRequireTextCell _ _ _) = CodePhoneticsRequireTextCell"
| "error_code (PhoneticFontIdUnsupported _) = CodePhoneticFontIdUnsupported"
| "error_code (AnnotatedTextReplacementRequired _ _ _) = CodeAnnotatedTextReplacementRequired"
| "error_code (ArrayFormulaPartEdit _ _ _) = CodeArrayFormulaPartEdit"
| "error_code (FrozenRowsOutOfRange _) = CodeFrozenRowsOutOfRange"
| "error_code (FrozenColumnsOutOfRange _) = CodeFrozenColumnsOutOfRange"
| "error_code FontNameInvalid = CodeFontNameInvalid"
| "error_code (FormatValueOutOfRange _ _) = CodeFormatValueOutOfRange"
| "error_code (BuiltInNumberFormatId _) = CodeBuiltInNumberFormatId"
| "error_code (CustomNumberFormatId _) = CodeCustomNumberFormatId"
| "error_code NumberFormatCodeEmpty = CodeNumberFormatCodeEmpty"
| "error_code TableIdZero = CodeTableIdZero"
| "error_code TableColumnIdZero = CodeTableColumnIdZero"
| "error_code TableNameEmpty = CodeTableNameEmpty"
| "error_code (TableNameTooLong _) = CodeTableNameTooLong"
| "error_code (TableNameInvalidCharacter _) = CodeTableNameInvalidCharacter"
| "error_code TableNameReferenceConflict = CodeTableNameReferenceConflict"
| "error_code (DuplicateTableDisplayName _) = CodeDuplicateTableDisplayName"
| "error_code (DuplicateTableId _) = CodeDuplicateTableId"
| "error_code (DuplicateTableProgrammaticName _) = CodeDuplicateTableProgrammaticName"
| "error_code (TableDisplayNameConflictsWithDefinedName _) = CodeTableDisplayNameConflictsWithDefinedName"
| "error_code TableColumnsEmpty = CodeTableColumnsEmpty"
| "error_code (TableColumnCountMismatch _ _) = CodeTableColumnCountMismatch"
| "error_code TableColumnNameEmpty = CodeTableColumnNameEmpty"
| "error_code (TableHeaderRequiresText _ _ _) = CodeTableHeaderRequiresText"
| "error_code (TableColumnNameTooLong _) = CodeTableColumnNameTooLong"
| "error_code (TableColumnNameInvalidCharacter _) = CodeTableColumnNameInvalidCharacter"
| "error_code TableColumnNameSpaceBoundary = CodeTableColumnNameSpaceBoundary"
| "error_code (DuplicateTableColumnName _) = CodeDuplicateTableColumnName"
| "error_code (DuplicateTableColumnId _) = CodeDuplicateTableColumnId"
| "error_code (OverlappingTables _ _ _) = CodeOverlappingTables"
| "error_code (TableRowCountsExceedRange _ _ _) = CodeTableRowCountsExceedRange"
| "error_code InvalidTableTotalsMetadata = CodeInvalidTableTotalsMetadata"
| "error_code (UnknownTableId _) = CodeUnknownTableId"
| "error_code (UnknownTableColumnId _ _) = CodeUnknownTableColumnId"
| "error_code (TableDataRowsReversed _ _) = CodeTableDataRowsReversed"
| "error_code (TableResizeHeaderUnderflow _ _ _) = CodeTableResizeHeaderUnderflow"
| "error_code (TableMaterializationCollision _ _ _ _) = CodeTableMaterializationCollision"
| "error_code (UnsupportedTableAuthoringMetadata _) = CodeUnsupportedTableAuthoringMetadata"
| "error_code (TableTotalsCellOccupied _ _ _) = CodeTableTotalsCellOccupied"
| "error_code (SheetAutoFilterNotFound _) = CodeSheetAutoFilterNotFound"
| "error_code (SheetAutoFilterOverlapsTable _ _) = CodeSheetAutoFilterOverlapsTable"
| "error_code ColumnWideningRangeInvalid = CodeColumnWideningRangeInvalid"
| "error_code (ColumnWideningOverlap _ _ _) = CodeColumnWideningOverlap"
| "error_code (FormulaRewriteParseFailed _ _ _ _) = CodeFormulaRewriteParseFailed"
| "error_code (TableRangeOverlap _ _ _) = CodeTableRangeOverlap"
| "error_code TableRangeInvalid = CodeTableRangeInvalid"
| "error_code (DefinedNameRenameShadowed _) = CodeDefinedNameRenameShadowed"
| "error_code (UnknownDefinedName _) = CodeUnknownDefinedName"
| "error_code (SheetPositionOutOfRange _ _) = CodeSheetPositionOutOfRange"
| "error_code StructuralEditEmpty = CodeStructuralEditEmpty"
| "error_code (ContentShiftedOffSheet _) = CodeContentShiftedOffSheet"
| "error_code (MergedRangeSplit _ _ _) = CodeMergedRangeSplit"
| "error_code (TableHeaderShift _) = CodeTableHeaderShift"
| "error_code (TableDataRowsDeleted _) = CodeTableDataRowsDeleted"
| "error_code (TableSplit _) = CodeTableSplit"
| "error_code CopyDestinationShape = CodeCopyDestinationShape"
| "error_code (CopyUnsupportedFormula _ _ _) = CodeCopyUnsupportedFormula"
| "error_code (SheetImportUnsupported _) = CodeSheetImportUnsupported"

primrec code_as_str :: "validation_error_code \<Rightarrow> string" where
  "code_as_str CodeRowOutOfRange = ''validation.row_out_of_range''"
| "code_as_str CodeColumnOutOfRange = ''validation.column_out_of_range''"
| "code_as_str CodeCellAddressInvalid = ''validation.cell_address_invalid''"
| "code_as_str CodeRangeStartAfterEnd = ''validation.range_start_after_end''"
| "code_as_str CodeSheetIdZero = ''validation.sheet_id_zero''"
| "code_as_str CodeSheetNameEmpty = ''validation.sheet_name_empty''"
| "code_as_str CodeSheetNameTooLong = ''validation.sheet_name_too_long''"
| "code_as_str CodeSheetNameInvalidCharacter = ''validation.sheet_name_invalid_character''"
| "code_as_str CodeSheetNameApostropheBoundary = ''validation.sheet_name_apostrophe_boundary''"
| "code_as_str CodeDuplicateSheetId = ''validation.duplicate_sheet_id''"
| "code_as_str CodeDuplicateSheetName = ''validation.duplicate_sheet_name''"
| "code_as_str CodeDuplicateCell = ''validation.duplicate_cell''"
| "code_as_str CodeDefinedNameEmpty = ''validation.defined_name_empty''"
| "code_as_str CodeDefinedNameTooLong = ''validation.defined_name_too_long''"
| "code_as_str CodeDefinedNameControlCharacter = ''validation.defined_name_control_character''"
| "code_as_str CodeDefinedNameUnknownSheet = ''validation.defined_name_unknown_sheet''"
| "code_as_str CodeDuplicateDefinedName = ''validation.duplicate_defined_name''"
| "code_as_str CodeNonFiniteNumber = ''validation.non_finite_number''"
| "code_as_str CodeFormulaEmpty = ''validation.formula_empty''"
| "code_as_str CodeXlsxFormulaHasLeadingEquals = ''validation.xlsx_formula_has_leading_equals''"
| "code_as_str CodeUserFormulaMissingLeadingEquals = ''validation.user_formula_missing_leading_equals''"
| "code_as_str CodeSourceIdEmpty = ''validation.source_id_empty''"
| "code_as_str CodeDiagnosticCodeInvalid = ''validation.diagnostic_code_invalid''"
| "code_as_str CodeProviderNameEmpty = ''validation.provider_name_empty''"
| "code_as_str CodeProviderVersionEmpty = ''validation.provider_version_empty''"
| "code_as_str CodeDiagnosticMessageEmpty = ''validation.diagnostic_message_empty''"
| "code_as_str CodeUnknownSheetId = ''validation.unknown_sheet_id''"
| "code_as_str CodeCellNotFound = ''validation.cell_not_found''"
| "code_as_str CodeSheetIdExhausted = ''validation.sheet_id_exhausted''"
| "code_as_str CodeLastVisibleSheet = ''validation.last_visible_sheet''"
| "code_as_str CodeSemanticRevisionExhausted = ''validation.semantic_revision_exhausted''"
| "code_as_str CodePresentationRevisionExhausted = ''validation.presentation_revision_exhausted''"
| "code_as_str CodePhoneticRangeEmpty = ''validation.phonetic_range_empty''"
| "code_as_str CodePhoneticRangeOutOfBounds = ''validation.phonetic_range_out_of_bounds''"
| "code_as_str CodePhoneticRangeSplitsSurrogate = ''validation.phonetic_range_splits_surrogate''"
| "code_as_str CodePhoneticRunsOutOfOrder = ''validation.phonetic_runs_out_of_order''"
| "code_as_str CodePhoneticTextEmpty = ''validation.phonetic_text_empty''"
| "code_as_str CodePhoneticTextInvalidCharacter = ''validation.phonetic_text_invalid_character''"
| "code_as_str CodePhoneticsRequireTextCell = ''validation.phonetics_require_text_cell''"
| "code_as_str CodePhoneticFontIdUnsupported = ''validation.phonetic_font_id_unsupported''"
| "code_as_str CodeAnnotatedTextReplacementRequired = ''validation.annotated_text_replacement_required''"
| "code_as_str CodeArrayFormulaPartEdit = ''validation.array_formula_part_edit''"
| "code_as_str CodeFrozenRowsOutOfRange = ''validation.frozen_rows_out_of_range''"
| "code_as_str CodeFrozenColumnsOutOfRange = ''validation.frozen_columns_out_of_range''"
| "code_as_str CodeFontNameInvalid = ''validation.font_name_invalid''"
| "code_as_str CodeFormatValueOutOfRange = ''validation.format_value_out_of_range''"
| "code_as_str CodeBuiltInNumberFormatId = ''validation.built_in_number_format_id''"
| "code_as_str CodeCustomNumberFormatId = ''validation.custom_number_format_id''"
| "code_as_str CodeNumberFormatCodeEmpty = ''validation.number_format_code_empty''"
| "code_as_str CodeTableIdZero = ''validation.table_id_zero''"
| "code_as_str CodeTableColumnIdZero = ''validation.table_column_id_zero''"
| "code_as_str CodeTableNameEmpty = ''validation.table_name_empty''"
| "code_as_str CodeTableNameTooLong = ''validation.table_name_too_long''"
| "code_as_str CodeTableNameInvalidCharacter = ''validation.table_name_invalid_character''"
| "code_as_str CodeTableNameReferenceConflict = ''validation.table_name_reference_conflict''"
| "code_as_str CodeDuplicateTableDisplayName = ''validation.duplicate_table_display_name''"
| "code_as_str CodeDuplicateTableId = ''validation.duplicate_table_id''"
| "code_as_str CodeDuplicateTableProgrammaticName = ''validation.duplicate_table_programmatic_name''"
| "code_as_str CodeTableDisplayNameConflictsWithDefinedName = ''validation.table_display_name_conflicts_with_defined_name''"
| "code_as_str CodeTableColumnsEmpty = ''validation.table_columns_empty''"
| "code_as_str CodeTableColumnCountMismatch = ''validation.table_column_count_mismatch''"
| "code_as_str CodeTableColumnNameEmpty = ''validation.table_column_name_empty''"
| "code_as_str CodeTableHeaderRequiresText = ''validation.table_header_requires_text''"
| "code_as_str CodeTableColumnNameTooLong = ''validation.table_column_name_too_long''"
| "code_as_str CodeTableColumnNameInvalidCharacter = ''validation.table_column_name_invalid_character''"
| "code_as_str CodeTableColumnNameSpaceBoundary = ''validation.table_column_name_space_boundary''"
| "code_as_str CodeDuplicateTableColumnName = ''validation.duplicate_table_column_name''"
| "code_as_str CodeDuplicateTableColumnId = ''validation.duplicate_table_column_id''"
| "code_as_str CodeOverlappingTables = ''validation.overlapping_tables''"
| "code_as_str CodeTableRowCountsExceedRange = ''validation.table_row_counts_exceed_range''"
| "code_as_str CodeInvalidTableTotalsMetadata = ''validation.invalid_table_totals_metadata''"
| "code_as_str CodeUnknownTableId = ''validation.unknown_table_id''"
| "code_as_str CodeUnknownTableColumnId = ''validation.unknown_table_column_id''"
| "code_as_str CodeTableDataRowsReversed = ''validation.table_data_rows_reversed''"
| "code_as_str CodeTableResizeHeaderUnderflow = ''validation.table_resize_header_underflow''"
| "code_as_str CodeTableMaterializationCollision = ''validation.table_materialization_collision''"
| "code_as_str CodeUnsupportedTableAuthoringMetadata = ''validation.unsupported_table_authoring_metadata''"
| "code_as_str CodeTableTotalsCellOccupied = ''validation.table_totals_cell_occupied''"
| "code_as_str CodeSheetAutoFilterNotFound = ''validation.sheet_auto_filter_not_found''"
| "code_as_str CodeSheetAutoFilterOverlapsTable = ''validation.sheet_auto_filter_overlaps_table''"
| "code_as_str CodeColumnWideningRangeInvalid = ''validation.column_widening_range_invalid''"
| "code_as_str CodeColumnWideningOverlap = ''validation.column_widening_overlap''"
| "code_as_str CodeFormulaRewriteParseFailed = ''validation.formula_rewrite_parse_failed''"
| "code_as_str CodeTableRangeOverlap = ''validation.table_range_overlap''"
| "code_as_str CodeTableRangeInvalid = ''validation.table_range_invalid''"
| "code_as_str CodeDefinedNameRenameShadowed = ''validation.defined_name_rename_shadowed''"
| "code_as_str CodeUnknownDefinedName = ''validation.unknown_defined_name''"
| "code_as_str CodeSheetPositionOutOfRange = ''validation.sheet_position_out_of_range''"
| "code_as_str CodeStructuralEditEmpty = ''validation.structural_edit_empty''"
| "code_as_str CodeContentShiftedOffSheet = ''validation.content_shifted_off_sheet''"
| "code_as_str CodeMergedRangeSplit = ''validation.merged_range_split''"
| "code_as_str CodeTableHeaderShift = ''validation.table_header_shift''"
| "code_as_str CodeTableDataRowsDeleted = ''validation.table_data_rows_deleted''"
| "code_as_str CodeTableSplit = ''validation.table_split''"
| "code_as_str CodeCopyDestinationShape = ''validation.copy_destination_shape''"
| "code_as_str CodeCopyUnsupportedFormula = ''validation.copy_unsupported_formula''"
| "code_as_str CodeSheetImportUnsupported = ''validation.sheet_import_unsupported''"

definition all_codes :: "validation_error_code list" where
  "all_codes =
    [CodeRowOutOfRange,
     CodeColumnOutOfRange,
     CodeCellAddressInvalid,
     CodeRangeStartAfterEnd,
     CodeSheetIdZero,
     CodeSheetNameEmpty,
     CodeSheetNameTooLong,
     CodeSheetNameInvalidCharacter,
     CodeSheetNameApostropheBoundary,
     CodeDuplicateSheetId,
     CodeDuplicateSheetName,
     CodeDuplicateCell,
     CodeDefinedNameEmpty,
     CodeDefinedNameTooLong,
     CodeDefinedNameControlCharacter,
     CodeDefinedNameUnknownSheet,
     CodeDuplicateDefinedName,
     CodeNonFiniteNumber,
     CodeFormulaEmpty,
     CodeXlsxFormulaHasLeadingEquals,
     CodeUserFormulaMissingLeadingEquals,
     CodeSourceIdEmpty,
     CodeDiagnosticCodeInvalid,
     CodeProviderNameEmpty,
     CodeProviderVersionEmpty,
     CodeDiagnosticMessageEmpty,
     CodeUnknownSheetId,
     CodeCellNotFound,
     CodeSheetIdExhausted,
     CodeLastVisibleSheet,
     CodeSemanticRevisionExhausted,
     CodePresentationRevisionExhausted,
     CodePhoneticRangeEmpty,
     CodePhoneticRangeOutOfBounds,
     CodePhoneticRangeSplitsSurrogate,
     CodePhoneticRunsOutOfOrder,
     CodePhoneticTextEmpty,
     CodePhoneticTextInvalidCharacter,
     CodePhoneticsRequireTextCell,
     CodePhoneticFontIdUnsupported,
     CodeAnnotatedTextReplacementRequired,
     CodeArrayFormulaPartEdit,
     CodeFrozenRowsOutOfRange,
     CodeFrozenColumnsOutOfRange,
     CodeFontNameInvalid,
     CodeFormatValueOutOfRange,
     CodeBuiltInNumberFormatId,
     CodeCustomNumberFormatId,
     CodeNumberFormatCodeEmpty,
     CodeTableIdZero,
     CodeTableColumnIdZero,
     CodeTableNameEmpty,
     CodeTableNameTooLong,
     CodeTableNameInvalidCharacter,
     CodeTableNameReferenceConflict,
     CodeDuplicateTableDisplayName,
     CodeDuplicateTableId,
     CodeDuplicateTableProgrammaticName,
     CodeTableDisplayNameConflictsWithDefinedName,
     CodeTableColumnsEmpty,
     CodeTableColumnCountMismatch,
     CodeTableColumnNameEmpty,
     CodeTableHeaderRequiresText,
     CodeTableColumnNameTooLong,
     CodeTableColumnNameInvalidCharacter,
     CodeTableColumnNameSpaceBoundary,
     CodeDuplicateTableColumnName,
     CodeDuplicateTableColumnId,
     CodeOverlappingTables,
     CodeTableRowCountsExceedRange,
     CodeInvalidTableTotalsMetadata,
     CodeUnknownTableId,
     CodeUnknownTableColumnId,
     CodeTableDataRowsReversed,
     CodeTableResizeHeaderUnderflow,
     CodeTableMaterializationCollision,
     CodeUnsupportedTableAuthoringMetadata,
     CodeTableTotalsCellOccupied,
     CodeSheetAutoFilterNotFound,
     CodeSheetAutoFilterOverlapsTable,
     CodeColumnWideningRangeInvalid,
     CodeColumnWideningOverlap,
     CodeFormulaRewriteParseFailed,
     CodeTableRangeOverlap,
     CodeTableRangeInvalid,
     CodeDefinedNameRenameShadowed,
     CodeUnknownDefinedName,
     CodeSheetPositionOutOfRange,
     CodeStructuralEditEmpty,
     CodeContentShiftedOffSheet,
     CodeMergedRangeSplit,
     CodeTableHeaderShift,
     CodeTableDataRowsDeleted,
     CodeTableSplit,
     CodeCopyDestinationShape,
     CodeCopyUnsupportedFormula,
     CodeSheetImportUnsupported]"

lemma all_codes_complete: "c \<in> set all_codes"
  by (cases c) (simp_all add: all_codes_def)

lemma code_texts_distinct: "distinct (map code_as_str all_codes)"
  by (simp add: all_codes_def)

section \<open>Properties\<close>

text \<open>The texts of the validation error codes are unique: two errors report the same text exactly when
they have the same code, so a client can tell every kind of error from its text.\<close>

theorem error_texts_unique:
  "code_as_str (error_code e) = code_as_str (error_code e') \<longleftrightarrow> error_code e = error_code e'"
  using code_texts_distinct all_codes_complete by (auto simp: distinct_map inj_on_def)

end
