(* ===== verification/Address.thy ===== *)
theory Address
  imports Errors
begin

text \<open>
  Cell addresses and ranges, from \<open>crates/cellrune/src/address.rs\<close>. The newtypes \<open>Row\<close> and
  \<open>Column\<close> are the raw one-based coordinates; the check their constructors make is \<open>row_new\<close>
  and \<open>column_new\<close>, and \<open>valid_address\<close> is the invariant every constructed address has.
  Strings are the bytes of the Rust \<open>str\<close>, as \<open>from_a1\<close> reads them.
\<close>

section \<open>Addresses\<close>

definition EXCEL_MAX_ROWS :: u32 where
  "EXCEL_MAX_ROWS = 1048576"

definition EXCEL_MAX_COLUMNS :: u32 where
  "EXCEL_MAX_COLUMNS = 16384"

lemmas excel_max = EXCEL_MAX_ROWS_def EXCEL_MAX_COLUMNS_def

definition row_new :: "u32 \<Rightarrow> validation_error + u32" where
  "row_new value = (if \<not> (1 \<le> value \<and> value \<le> EXCEL_MAX_ROWS) then Inl (RowOutOfRange value)
     else Inr value)"

definition column_new :: "u32 \<Rightarrow> validation_error + u32" where
  "column_new value = (if \<not> (1 \<le> value \<and> value \<le> EXCEL_MAX_COLUMNS)
     then Inl (ColumnOutOfRange value) else Inr value)"

datatype cell_address = CellAddress (addr_row: u32) (addr_column: u32)

text \<open>The derived order compares rows first: addresses are ordered row by row.\<close>

instantiation cell_address :: linorder
begin

definition less_eq_cell_address :: "cell_address \<Rightarrow> cell_address \<Rightarrow> bool" where
  "a \<le> b \<longleftrightarrow> addr_row a < addr_row b \<or>
     addr_row a = addr_row b \<and> addr_column a \<le> addr_column b"

definition less_cell_address :: "cell_address \<Rightarrow> cell_address \<Rightarrow> bool" where
  "a < b \<longleftrightarrow> addr_row a < addr_row b \<or>
     addr_row a = addr_row b \<and> addr_column a < addr_column b"

instance
  by standard (auto simp: less_eq_cell_address_def less_cell_address_def cell_address.expand)

end

definition from_indices :: "u32 \<Rightarrow> u32 \<Rightarrow> validation_error + cell_address" where
  "from_indices row column =
     res_bind (row_new row) (\<lambda>row. res_bind (column_new column) (\<lambda>column.
       Inr (CellAddress row column)))"

fun a1_column :: "u32 \<Rightarrow> string \<Rightarrow> validation_error + u32" where
  "a1_column column [] = Inr column"
| "a1_column column (b # rest) =
     (let column = u32_add (u32_mul column 26) (byte (to_ascii_uppercase b) - 65 + 1)
      in if column > EXCEL_MAX_COLUMNS then Inl (ColumnOutOfRange column)
         else a1_column column rest)"

fun a1_row :: "u32 \<Rightarrow> string \<Rightarrow> validation_error + u32" where
  "a1_row row [] = Inr row"
| "a1_row row (b # rest) =
     (let row = u32_add (u32_mul row 10) (byte b - 48)
      in if row > EXCEL_MAX_ROWS then Inl (RowOutOfRange row) else a1_row row rest)"

definition from_a1 :: "string \<Rightarrow> validation_error + cell_address" where
  "from_a1 s =
     (let letters = takeWhile (\<lambda>b. \<not> is_ascii_digit b) s;
          digits = dropWhile (\<lambda>b. \<not> is_ascii_digit b) s
      in if digits = [] then Inl CellAddressInvalid
         else if letters = [] \<or> \<not> list_all is_ascii_alphabetic letters
              \<or> \<not> list_all is_ascii_digit digits
         then Inl CellAddressInvalid
         else res_bind (a1_column 0 letters) (\<lambda>column. res_bind (a1_row 0 digits) (\<lambda>row.
                from_indices row column)))"

fun column_label_rev :: "u32 \<Rightarrow> string" where
  "column_label_rev column =
     (if column > 0
      then char_of (65 + (column - 1) mod 26) # column_label_rev ((column - 1) div 26) else [])"

declare column_label_rev.simps [simp del]

definition column_label :: "u32 \<Rightarrow> string" where
  "column_label column = rev (column_label_rev column)"

definition display_address :: "cell_address \<Rightarrow> string" where
  "display_address a = column_label (addr_column a) @ show_nat (addr_row a)"

section \<open>Ranges\<close>

record cell_range =
  rng_start :: cell_address
  rng_end :: cell_address

definition range_new :: "cell_address \<Rightarrow> cell_address \<Rightarrow> validation_error + cell_range" where
  "range_new s e = (if addr_row s > addr_row e \<or> addr_column s > addr_column e
     then Inl RangeStartAfterEnd else Inr \<lparr>rng_start = s, rng_end = e\<rparr>)"

definition from_ordered :: "cell_address \<Rightarrow> cell_address \<Rightarrow> cell_range" where
  "from_ordered s e = \<lparr>rng_start = s, rng_end = e\<rparr>"

text \<open>\<open>str::split_once\<close> at the first occurrence of a byte.\<close>

definition split_once :: "char \<Rightarrow> string \<Rightarrow> (string \<times> string) option" where
  "split_once c s = (case dropWhile (\<lambda>b. b \<noteq> c) s of [] \<Rightarrow> None
     | _ # rest \<Rightarrow> Some (takeWhile (\<lambda>b. b \<noteq> c) s, rest))"

text \<open>The two ends a cleaned item names, and the range between them in either order.\<close>

definition sqref_ends :: "string \<Rightarrow> string \<Rightarrow> (cell_address \<times> cell_address) option" where
  "sqref_ends s t =
     (if list_all is_ascii_alphabetic s then do {
        a \<leftarrow> ok (from_a1 (s @ ''1''));
        b \<leftarrow> ok (from_a1 (t @ show_nat EXCEL_MAX_ROWS));
        Some (a, b) }
      else if list_all is_ascii_digit s then do {
        a \<leftarrow> ok (from_a1 (''A'' @ s));
        b \<leftarrow> ok (from_a1 (column_label EXCEL_MAX_COLUMNS @ t));
        Some (a, b) }
      else do {
        a \<leftarrow> ok (from_a1 s);
        b \<leftarrow> ok (from_a1 t);
        Some (a, b) })"

definition ordered_ends :: "cell_address \<times> cell_address \<Rightarrow> cell_range" where
  "ordered_ends p = (case p of (a, b) \<Rightarrow> from_ordered
     (CellAddress (min (addr_row a) (addr_row b)) (min (addr_column a) (addr_column b)))
     (CellAddress (max (addr_row a) (addr_row b)) (max (addr_column a) (addr_column b))))"

definition from_sqref_item :: "string \<Rightarrow> cell_range option" where
  "from_sqref_item text0 =
     (let text = filter (\<lambda>b. b \<noteq> CHR ''$'') text0;
          (first, last) = (case split_once (CHR '':'') text of None \<Rightarrow> (text, text) | Some p \<Rightarrow> p)
      in map_option ordered_ends (sqref_ends first last))"

definition sqref_item_text :: "cell_range \<Rightarrow> string" where
  "sqref_item_text r =
     (let s = rng_start r; e = rng_end r;
          whole_rows = (addr_row s = 1 \<and> addr_row e = EXCEL_MAX_ROWS);
          whole_columns = (addr_column s = 1 \<and> addr_column e = EXCEL_MAX_COLUMNS)
      in if whole_rows \<and> \<not> whole_columns
         then column_label (addr_column s) @ '':'' @ column_label (addr_column e)
         else if whole_columns \<and> \<not> whole_rows
         then show_nat (addr_row s) @ '':'' @ show_nat (addr_row e)
         else if s = e then display_address s
         else display_address s @ '':'' @ display_address e)"

definition range_height :: "cell_range \<Rightarrow> u32" where
  "range_height r = u32_add (u32_sub (addr_row (rng_end r)) (addr_row (rng_start r))) 1"

definition range_width :: "cell_range \<Rightarrow> u32" where
  "range_width r = u32_add (u32_sub (addr_column (rng_end r)) (addr_column (rng_start r))) 1"

definition contains :: "cell_range \<Rightarrow> cell_address \<Rightarrow> bool" where
  "contains r a \<longleftrightarrow> addr_row a \<ge> addr_row (rng_start r) \<and> addr_row a \<le> addr_row (rng_end r)
     \<and> addr_column a \<ge> addr_column (rng_start r) \<and> addr_column a \<le> addr_column (rng_end r)"

section \<open>Invariants\<close>

definition valid_address :: "cell_address \<Rightarrow> bool" where
  "valid_address a \<longleftrightarrow> 1 \<le> addr_row a \<and> addr_row a \<le> EXCEL_MAX_ROWS
     \<and> 1 \<le> addr_column a \<and> addr_column a \<le> EXCEL_MAX_COLUMNS"

definition valid_range :: "cell_range \<Rightarrow> bool" where
  "valid_range r \<longleftrightarrow> valid_address (rng_start r) \<and> valid_address (rng_end r)
     \<and> addr_row (rng_start r) \<le> addr_row (rng_end r)
     \<and> addr_column (rng_start r) \<le> addr_column (rng_end r)"

lemma from_indices_Inr:
  "from_indices r c = Inr a \<longleftrightarrow> a = CellAddress r c \<and> valid_address (CellAddress r c)"
  by (auto simp: from_indices_def row_new_def column_new_def valid_address_def
      res_bind_eq_Inr)

lemma range_new_Inr:
  "range_new s e = Inr r \<longleftrightarrow> r = from_ordered s e \<and> addr_row s \<le> addr_row e
     \<and> addr_column s \<le> addr_column e"
  by (auto simp: range_new_def from_ordered_def)

section \<open>Reading A1 text\<close>

text \<open>
  The mathematical value of a run of letters in base 26 with digits \<open>A = 1\<close> to \<open>Z = 26\<close>.
  The parsing loop reaches exactly this value or reports the first prefix past the limit; it
  never wraps around, since every accumulator it multiplies is within the limit.
\<close>

definition letters_value_from :: "nat \<Rightarrow> string \<Rightarrow> nat" where
  "letters_value_from v s = foldl (\<lambda>v b. v * 26 + (byte (to_ascii_uppercase b) - 64)) v s"

abbreviation letters_value :: "string \<Rightarrow> nat" where
  "letters_value s \<equiv> letters_value_from 0 s"

lemma letters_value_from_simps [simp]:
  "letters_value_from v [] = v"
  "letters_value_from v (b # s) =
     letters_value_from (v * 26 + (byte (to_ascii_uppercase b) - 64)) s"
  by (simp_all add: letters_value_from_def)

lemma letters_value_from_snoc [simp]:
  "letters_value_from v (s @ [b]) =
     letters_value_from v s * 26 + (byte (to_ascii_uppercase b) - 64)"
  by (simp add: letters_value_from_def)

lemma letters_value_from_mono: "v \<le> letters_value_from v s"
proof (induction s arbitrary: v)
  case Nil
  then show ?case by simp
next
  case (Cons b s)
  have "v \<le> v * 26 + (byte (to_ascii_uppercase b) - 64)" by simp
  also have "\<dots> \<le> letters_value_from v (b # s)"
    using Cons.IH [of "v * 26 + (byte (to_ascii_uppercase b) - 64)"] by simp
  finally show ?case .
qed

lemma upper_step:
  assumes "is_ascii_alphabetic b" and "v \<le> EXCEL_MAX_COLUMNS"
  shows "u32_add (u32_mul v 26) (byte (to_ascii_uppercase b) - 65 + 1)
    = v * 26 + (byte (to_ascii_uppercase b) - 64)"
proof -
  have "65 \<le> byte (to_ascii_uppercase b)" and "byte (to_ascii_uppercase b) \<le> 90"
    using to_ascii_uppercase_range [OF assms(1)] by (simp_all add: is_ascii_uppercase_def)
  then show ?thesis
    using assms(2) u32_mul_add_exact [of v 26 "byte (to_ascii_uppercase b) - 65 + 1"]
    by (simp add: EXCEL_MAX_COLUMNS_def)
qed

lemma a1_column_exact:
  assumes "list_all is_ascii_alphabetic s" and "v \<le> EXCEL_MAX_COLUMNS"
  shows "if letters_value_from v s \<le> EXCEL_MAX_COLUMNS
         then a1_column v s = Inr (letters_value_from v s)
         else \<exists>w. a1_column v s = Inl (ColumnOutOfRange w)
           \<and> EXCEL_MAX_COLUMNS < w \<and> w \<le> letters_value_from v s"
  using assms
proof (induction s arbitrary: v)
  case Nil
  then show ?case by simp
next
  case (Cons b s)
  let ?w = "v * 26 + (byte (to_ascii_uppercase b) - 64)"
  have step: "a1_column v (b # s) = (if ?w > EXCEL_MAX_COLUMNS then Inl (ColumnOutOfRange ?w)
      else a1_column ?w s)"
    using Cons.prems upper_step by (simp add: Let_def)
  show ?case
  proof (cases "?w > EXCEL_MAX_COLUMNS")
    case True
    then show ?thesis using step letters_value_from_mono [of ?w s] by auto
  next
    case False
    then show ?thesis using step Cons by simp
  qed
qed

definition digits_value_from :: "nat \<Rightarrow> string \<Rightarrow> nat" where
  "digits_value_from v s = foldl (\<lambda>v c. v * 10 + (byte c - 48)) v s"

lemma digits_value_from_simps [simp]:
  "digits_value_from v [] = v"
  "digits_value_from v (b # s) = digits_value_from (v * 10 + (byte b - 48)) s"
  by (simp_all add: digits_value_from_def)

lemma digits_value_from_0: "digits_value_from 0 s = digits_value s"
  by (simp add: digits_value_from_def digits_value_def)

lemma digits_value_from_mono: "v \<le> digits_value_from v s"
proof (induction s arbitrary: v)
  case Nil
  then show ?case by simp
next
  case (Cons b s)
  have "v \<le> v * 10 + (byte b - 48)" by simp
  also have "\<dots> \<le> digits_value_from v (b # s)"
    using Cons.IH [of "v * 10 + (byte b - 48)"] by simp
  finally show ?case .
qed

lemma a1_row_exact:
  assumes "list_all is_ascii_digit s" and "v \<le> EXCEL_MAX_ROWS"
  shows "if digits_value_from v s \<le> EXCEL_MAX_ROWS
         then a1_row v s = Inr (digits_value_from v s)
         else \<exists>w. a1_row v s = Inl (RowOutOfRange w)
           \<and> EXCEL_MAX_ROWS < w \<and> w \<le> digits_value_from v s"
  using assms
proof (induction s arbitrary: v)
  case Nil
  then show ?case by simp
next
  case (Cons b s)
  let ?w = "v * 10 + (byte b - 48)"
  have "u32_add (u32_mul v 10) (byte b - 48) = ?w"
    using Cons.prems
    by (intro u32_mul_add_exact) (auto simp: is_ascii_digit_def EXCEL_MAX_ROWS_def)
  then have step: "a1_row v (b # s) = (if ?w > EXCEL_MAX_ROWS then Inl (RowOutOfRange ?w)
      else a1_row ?w s)"
    by (simp add: Let_def)
  show ?case
  proof (cases "?w > EXCEL_MAX_ROWS")
    case True
    then show ?thesis using step digits_value_from_mono [of ?w s] by auto
  next
    case False
    then show ?thesis using step Cons by simp
  qed
qed

text \<open>The texts \<open>from_a1\<close> accepts as a grammar, and the address each denotes.\<close>

definition a1_text :: "string \<Rightarrow> string \<Rightarrow> bool" where
  "a1_text letters digits \<longleftrightarrow> letters \<noteq> [] \<and> digits \<noteq> []
     \<and> list_all is_ascii_alphabetic letters \<and> list_all is_ascii_digit digits"

lemma a1_text_split:
  assumes "a1_text ls ds"
  shows "takeWhile (\<lambda>b. \<not> is_ascii_digit b) (ls @ ds) = ls"
    and "dropWhile (\<lambda>b. \<not> is_ascii_digit b) (ls @ ds) = ds"
proof -
  have "list_all (\<lambda>b. \<not> is_ascii_digit b) ls"
    using assms by (auto simp: a1_text_def list_all_iff ascii_simps)
  moreover have "ds \<noteq> [] \<Longrightarrow> \<not> \<not> is_ascii_digit (hd ds)"
    using assms by (cases ds) (auto simp: a1_text_def)
  ultimately show "takeWhile (\<lambda>b. \<not> is_ascii_digit b) (ls @ ds) = ls"
    and "dropWhile (\<lambda>b. \<not> is_ascii_digit b) (ls @ ds) = ds"
    by (auto intro!: takeWhile_split)
qed

lemma from_a1_letters_digits:
  assumes "a1_text ls ds"
  shows "from_a1 (ls @ ds) = res_bind (a1_column 0 ls) (\<lambda>c. res_bind (a1_row 0 ds) (\<lambda>r.
           from_indices r c))"
  using assms a1_text_split [OF assms] by (simp add: from_a1_def a1_text_def)

lemma a1_column_Inr:
  assumes "list_all is_ascii_alphabetic s"
  shows "a1_column 0 s = Inr c \<longleftrightarrow> c = letters_value s \<and> c \<le> EXCEL_MAX_COLUMNS"
  using a1_column_exact [OF assms, of 0] by (auto split: if_splits)

lemma a1_row_Inr:
  assumes "list_all is_ascii_digit s"
  shows "a1_row 0 s = Inr r \<longleftrightarrow> r = digits_value s \<and> r \<le> EXCEL_MAX_ROWS"
  using a1_row_exact [OF assms, of 0] by (auto simp: digits_value_from_0 split: if_splits)

lemma from_a1_denotes:
  assumes "a1_text ls ds"
  shows "from_a1 (ls @ ds) = Inr a \<longleftrightarrow>
    a = CellAddress (digits_value ds) (letters_value ls) \<and> valid_address a"
proof -
  have "list_all is_ascii_alphabetic ls" and "list_all is_ascii_digit ds"
    using assms by (auto simp: a1_text_def)
  note parts = a1_column_Inr [OF this(1)] a1_row_Inr [OF this(2)]
  show ?thesis
    unfolding from_a1_letters_digits [OF assms] res_bind_eq_Inr from_indices_Inr parts
    by (auto simp: valid_address_def)
qed

lemma from_a1_Inr_text:
  assumes "from_a1 s = Inr a"
  obtains ls ds where "s = ls @ ds" and "a1_text ls ds"
proof -
  let ?ls = "takeWhile (\<lambda>b. \<not> is_ascii_digit b) s"
  let ?ds = "dropWhile (\<lambda>b. \<not> is_ascii_digit b) s"
  have "s = ?ls @ ?ds" by simp
  moreover have "a1_text ?ls ?ds"
    using assms by (auto simp: from_a1_def a1_text_def Let_def split: if_splits)
  ultimately show thesis by (rule that)
qed

lemma from_a1_valid: "from_a1 s = Inr a \<Longrightarrow> valid_address a"
  by (metis from_a1_Inr_text from_a1_denotes)

section \<open>Column labels\<close>

lemma column_label_rev_step:
  "0 < c \<Longrightarrow> column_label_rev c =
     char_of (65 + (c - 1) mod 26) # column_label_rev ((c - 1) div 26)"
  by (subst column_label_rev.simps) simp

lemma column_label_0 [simp]: "column_label 0 = []"
  by (simp add: column_label_def column_label_rev.simps)

lemma column_label_step:
  "0 < c \<Longrightarrow> column_label c = column_label ((c - 1) div 26) @ [char_of (65 + (c - 1) mod 26)]"
  by (simp add: column_label_def column_label_rev_step)

lemma label_byte [simp]:
  "is_ascii_uppercase (char_of (65 + (m::nat) mod 26))" "byte (char_of (65 + (m::nat) mod 26)) = 65 + m mod 26"
proof -
  have "m mod 26 < 26" by simp
  then have "65 + m mod 26 < 256" by linarith
  then show "byte (char_of (65 + (m::nat) mod 26)) = 65 + m mod 26" by simp
  then show "is_ascii_uppercase (char_of (65 + (m::nat) mod 26))"
    using \<open>m mod 26 < 26\<close> unfolding is_ascii_uppercase_def by linarith
qed

lemma column_label_uppercase: "list_all is_ascii_uppercase (column_label c)"
proof (induction c rule: less_induct)
  case (less c)
  show ?case
  proof (cases "c = 0")
    case False
    then have "(c - 1) div 26 < c" by (simp add: div_less_dividend less_imp_diff_less)
    from less [OF this] False show ?thesis by (simp add: column_label_step)
  qed simp
qed

lemma letters_value_column_label: "letters_value (column_label c) = c"
proof (induction c rule: less_induct)
  case (less c)
  show ?case
  proof (cases "c = 0")
    case False
    then have "(c - 1) div 26 < c" by (simp add: div_less_dividend less_imp_diff_less)
    from less [OF this] False show ?thesis
      by (simp add: column_label_step to_ascii_uppercase_of_uppercase)
  qed simp
qed

lemma column_label_alphabetic: "list_all is_ascii_alphabetic (column_label c)"
  using column_label_uppercase [of c] by (auto simp: list_all_iff is_ascii_alphabetic_def)

lemma column_label_nonempty: "0 < c \<Longrightarrow> column_label c \<noteq> []"
  by (simp add: column_label_step)

lemma a1_text_display: "0 < c \<Longrightarrow> a1_text (column_label c) (show_nat r)"
  by (simp add: a1_text_def column_label_nonempty column_label_alphabetic show_nat_digits)

lemma from_a1_label_number:
  assumes "valid_address (CellAddress r c)"
  shows "from_a1 (column_label c @ show_nat r) = Inr (CellAddress r c)"
  using assms from_a1_denotes [OF a1_text_display, of c r]
  by (simp add: valid_address_def letters_value_column_label)

lemma from_a1_display: "valid_address a \<Longrightarrow> from_a1 (display_address a) = Inr a"
  by (cases a) (simp add: display_address_def from_a1_label_number)

interpretation a1: codec display_address "\<lambda>s. ok (from_a1 s)" valid_address
  by unfold_locales (simp add: from_a1_display)

section \<open>Reading and writing \<open>sqref\<close> items\<close>

definition sqref_char :: "char \<Rightarrow> bool" where
  "sqref_char c \<longleftrightarrow> is_ascii_alphabetic c \<or> is_ascii_digit c"

lemma sqref_char_not_mark: "sqref_char c \<Longrightarrow> c \<noteq> CHR ''$'' \<and> c \<noteq> CHR '':''"
  by (auto simp: sqref_char_def is_ascii_alphabetic_def is_ascii_uppercase_def
      is_ascii_lowercase_def is_ascii_digit_def)

lemma column_label_sqref_chars: "list_all sqref_char (column_label c)"
  using column_label_alphabetic [of c] by (auto simp: list_all_iff sqref_char_def)

lemma show_nat_sqref_chars: "list_all sqref_char (show_nat n)"
  using show_nat_digits [of n] by (auto simp: list_all_iff sqref_char_def)

lemma display_sqref_chars: "list_all sqref_char (display_address a)"
  using column_label_sqref_chars show_nat_sqref_chars
  by (simp add: display_address_def)

lemma filter_sqref_chars: "list_all sqref_char s \<Longrightarrow> filter (\<lambda>b. b \<noteq> CHR ''$'') s = s"
  by (auto simp: filter_id_conv list_all_iff sqref_char_not_mark)

lemma split_once_pair:
  assumes "list_all sqref_char s"
  shows "split_once (CHR '':'') (s @ '':'' @ t) = Some (s, t)"
proof -
  have "list_all (\<lambda>b. b \<noteq> CHR '':'') s"
    using assms by (auto simp: list_all_iff sqref_char_not_mark)
  from takeWhile_split [OF this, of "'':'' @ t"] show ?thesis
    by (simp add: split_once_def)
qed

lemma split_once_single:
  assumes "list_all sqref_char s"
  shows "split_once (CHR '':'') s = None"
proof -
  have "list_all (\<lambda>b. b \<noteq> CHR '':'') s"
    using assms by (auto simp: list_all_iff sqref_char_not_mark)
  then have "dropWhile (\<lambda>b. b \<noteq> CHR '':'') s = []"
    by (simp add: dropWhile_eq_Nil_conv list_all_iff)
  then show ?thesis by (simp only: split_once_def list.case)
qed

lemma from_sqref_item_pair:
  assumes "list_all sqref_char s" and "list_all sqref_char t"
  shows "from_sqref_item (s @ '':'' @ t) = map_option ordered_ends (sqref_ends s t)"
proof -
  have "filter (\<lambda>b. b \<noteq> CHR ''$'') (s @ '':'' @ t) = s @ '':'' @ t"
    using assms by (simp add: filter_sqref_chars)
  then show ?thesis
    by (simp only: from_sqref_item_def Let_def split_once_pair [OF assms(1)] option.case
        prod.case)
qed

lemma from_sqref_item_single:
  assumes "list_all sqref_char s"
  shows "from_sqref_item s = map_option ordered_ends (sqref_ends s s)"
  by (simp only: from_sqref_item_def Let_def filter_sqref_chars [OF assms]
      split_once_single [OF assms] option.case prod.case)

lemma ordered_ends_of_valid:
  "valid_range r \<Longrightarrow> ordered_ends (rng_start r, rng_end r) = r"
  by (cases "rng_start r"; cases "rng_end r")
    (simp add: valid_range_def ordered_ends_def from_ordered_def min_def max_def)

lemma ordered_ends_valid:
  "valid_address a \<Longrightarrow> valid_address b \<Longrightarrow> valid_range (ordered_ends (a, b))"
  by (auto simp: valid_range_def valid_address_def ordered_ends_def from_ordered_def)

lemma mixed_text:
  assumes "a1_text ls ds"
  shows "\<not> list_all is_ascii_alphabetic (ls @ ds)" and "\<not> list_all is_ascii_digit (ls @ ds)"
  using assms by (cases ls; cases ds; auto simp: a1_text_def ascii_simps)+

lemma sqref_ends_display:
  assumes "valid_address a" and "valid_address b"
  shows "sqref_ends (display_address a) (display_address b) = Some (a, b)"
proof -
  have "a1_text (column_label (addr_column a)) (show_nat (addr_row a))"
    using assms(1) by (simp add: valid_address_def a1_text_display)
  from mixed_text [OF this] show ?thesis
    by (simp add: sqref_ends_def display_address_def from_a1_label_number assms
        del: list_all_append)
qed

lemma show_nat_1: "show_nat (Suc 0) = ''1''"
  by code_simp

lemma column_label_1: "column_label (Suc 0) = ''A''"
  by code_simp

lemma sqref_ends_columns:
  assumes "1 \<le> c" "c \<le> EXCEL_MAX_COLUMNS" "1 \<le> d" "d \<le> EXCEL_MAX_COLUMNS"
  shows "sqref_ends (column_label c) (column_label d)
    = Some (CellAddress 1 c, CellAddress EXCEL_MAX_ROWS d)"
proof -
  have "valid_address (CellAddress 1 c)" and "valid_address (CellAddress EXCEL_MAX_ROWS d)"
    using assms by (simp_all add: valid_address_def excel_max)
  note reads = this [THEN from_a1_label_number]
  show ?thesis
    using reads(1) by (simp add: sqref_ends_def column_label_alphabetic reads(2) show_nat_1)
qed

lemma sqref_ends_rows:
  assumes "1 \<le> r" "r \<le> EXCEL_MAX_ROWS" "1 \<le> q" "q \<le> EXCEL_MAX_ROWS"
  shows "sqref_ends (show_nat r) (show_nat q)
    = Some (CellAddress r 1, CellAddress q EXCEL_MAX_COLUMNS)"
proof -
  have "valid_address (CellAddress r 1)" and "valid_address (CellAddress q EXCEL_MAX_COLUMNS)"
    using assms by (simp_all add: valid_address_def excel_max)
  note reads = this [THEN from_a1_label_number]
  have "\<not> list_all is_ascii_alphabetic (show_nat r)"
    using show_nat_digits [of r] show_nat_nonempty [of r]
    by (cases "show_nat r") (auto simp: alphabetic_not_digit)
  then show ?thesis
    using reads(1) by (simp add: sqref_ends_def show_nat_digits reads(2) column_label_1)
qed

lemma sqref_roundtrip:
  assumes "valid_range r"
  shows "from_sqref_item (sqref_item_text r) = Some r"
proof -
  let ?s = "rng_start r" and ?e = "rng_end r"
  have s: "valid_address ?s" and e: "valid_address ?e"
    using assms by (simp_all add: valid_range_def)
  note ordered = ordered_ends_of_valid [OF assms]
  let ?rows = "addr_row ?s = 1 \<and> addr_row ?e = EXCEL_MAX_ROWS"
  let ?columns = "addr_column ?s = 1 \<and> addr_column ?e = EXCEL_MAX_COLUMNS"
  consider (columns) "?rows" "\<not> ?columns" | (rows) "?columns" "\<not> ?rows"
    | (single) "?rows = ?columns" "?s = ?e" | (pair) "?rows = ?columns" "?s \<noteq> ?e"
    by blast
  then show ?thesis
  proof cases
    case columns
    then have "sqref_item_text r = column_label (addr_column ?s) @ '':'' @ column_label (addr_column ?e)"
      unfolding sqref_item_text_def Let_def by (simp only: if_True simp_thms)
    moreover have "CellAddress 1 (addr_column ?s) = ?s"
      and "CellAddress EXCEL_MAX_ROWS (addr_column ?e) = ?e"
      using columns by (simp_all add: cell_address.expand)
    ultimately show ?thesis
      using s e ordered sqref_ends_columns [of "addr_column ?s" "addr_column ?e"]
      by (simp add: from_sqref_item_pair [simplified] column_label_sqref_chars valid_address_def)
  next
    case rows
    then have "sqref_item_text r = show_nat (addr_row ?s) @ '':'' @ show_nat (addr_row ?e)"
      unfolding sqref_item_text_def Let_def by (simp only: if_True if_False simp_thms)
    moreover have "CellAddress (addr_row ?s) 1 = ?s"
      and "CellAddress (addr_row ?e) EXCEL_MAX_COLUMNS = ?e"
      using rows by (simp_all add: cell_address.expand)
    ultimately show ?thesis
      using s e ordered sqref_ends_rows [of "addr_row ?s" "addr_row ?e"]
      by (simp add: from_sqref_item_pair [simplified] show_nat_sqref_chars valid_address_def)
  next
    case single
    then have "sqref_item_text r = display_address ?s"
      unfolding sqref_item_text_def Let_def by (simp only: if_True if_False simp_thms)
    then show ?thesis
      using single s e ordered
      by (simp add: from_sqref_item_single display_sqref_chars sqref_ends_display)
  next
    case pair
    then have "sqref_item_text r = display_address ?s @ '':'' @ display_address ?e"
      unfolding sqref_item_text_def Let_def by (simp only: if_True if_False simp_thms)
    then show ?thesis
      using s e ordered
      by (simp add: from_sqref_item_pair [simplified] display_sqref_chars sqref_ends_display)
  qed
qed

interpretation sqref: codec sqref_item_text from_sqref_item valid_range
  by unfold_locales (rule sqref_roundtrip)

section \<open>Cells of a range\<close>

definition cells_of :: "cell_range \<Rightarrow> cell_address set" where
  "cells_of r = {a. contains r a}"

lemma mem_cells_of [simp]: "a \<in> cells_of r \<longleftrightarrow> contains r a"
  by (simp add: cells_of_def)

lemma range_height_exact:
  "valid_range r \<Longrightarrow> range_height r = addr_row (rng_end r) - addr_row (rng_start r) + 1"
  by (auto simp: range_height_def valid_range_def valid_address_def excel_max u32_simps)

lemma range_width_exact:
  "valid_range r \<Longrightarrow> range_width r = addr_column (rng_end r) - addr_column (rng_start r) + 1"
  by (auto simp: range_width_def valid_range_def valid_address_def excel_max u32_simps)

lemma contains_valid: "valid_range r \<Longrightarrow> contains r a \<Longrightarrow> valid_address a"
  by (auto simp: valid_range_def valid_address_def contains_def)

lemma cells_of_product:
  "cells_of r = (\<lambda>(i, j). CellAddress i j) `
     ({addr_row (rng_start r)..addr_row (rng_end r)}
      \<times> {addr_column (rng_start r)..addr_column (rng_end r)})"
proof (rule set_eqI)
  fix a :: cell_address
  show "a \<in> cells_of r \<longleftrightarrow> a \<in> (\<lambda>(i, j). CellAddress i j) `
      ({addr_row (rng_start r)..addr_row (rng_end r)}
       \<times> {addr_column (rng_start r)..addr_column (rng_end r)})"
    by (cases a) (auto simp: contains_def image_iff)
qed

lemma card_cells_of:
  assumes "valid_range r"
  shows "card (cells_of r) = range_height r * range_width r"
proof -
  have "inj_on (\<lambda>(i, j). CellAddress i j) A" for A
    by (auto simp: inj_on_def)
  then show ?thesis
    using assms unfolding cells_of_product range_height_exact [OF assms]
      range_width_exact [OF assms]
    by (simp add: card_image card_cartesian_product valid_range_def Suc_diff_le)
qed

section \<open>Properties\<close>

text \<open>C24: A1 parsing is exact: \<open>from_a1\<close> returns an address for precisely the texts that are one or
more ASCII letters followed by one or more digits whose values are a column and a row of the sheet,
and the address is those values; every other text is an error.  In particular the 32-bit arithmetic
of the two loops never wraps, however long the text is.\<close>

theorem a1_parse_exact:
  "from_a1 s = Inr a \<longleftrightarrow>
    (\<exists>ls ds. s = ls @ ds \<and> a1_text ls ds \<and> a = CellAddress (digits_value ds) (letters_value ls) \<and> valid_address a)"
proof
  assume a: "from_a1 s = Inr a"
  then obtain ls ds where s: "s = ls @ ds" "a1_text ls ds" by (rule from_a1_Inr_text)
  then show "\<exists>ls ds. s = ls @ ds \<and> a1_text ls ds \<and> a = CellAddress (digits_value ds) (letters_value ls) \<and> valid_address a"
    using a from_a1_denotes by blast
qed (auto simp: from_a1_denotes)

text \<open>The A1 text of an address parses back to it, and no two addresses share a text.\<close>

theorem a1_roundtrip:
  assumes "valid_address a"
  shows "from_a1 (display_address a) = Inr a \<and>
    (\<forall>b. valid_address b \<and> display_address b = display_address a \<longrightarrow> b = a)"
  using from_a1_display [OF assms] from_a1_display by (metis sum.inject(2))

theorem a1_roundtrip_witness:
  "valid_address (CellAddress 1048576 16384) \<and>
   from_a1 (display_address (CellAddress 1048576 16384)) = Inr (CellAddress 1048576 16384)"
  using a1_roundtrip [of "CellAddress 1048576 16384"]
  by (simp add: valid_address_def excel_max)

text \<open>The \<open>sqref\<close> text of a range, which abbreviates whole rows, whole columns and single cells,
parses back to the range; and every range \<open>from_sqref_item\<close> returns for any text lies on the sheet
with its corners in order.\<close>

theorem sqref_item_roundtrip:
  "(valid_range r \<longrightarrow> from_sqref_item (sqref_item_text r) = Some r) \<and>
   (from_sqref_item s = Some q \<longrightarrow> valid_range q)"
proof -
  have "valid_address a \<and> valid_address b" if "sqref_ends s t = Some (a, b)" for s t a b
    using that by (auto simp: sqref_ends_def bind_eq_Some_conv dest: from_a1_valid split: if_splits)
  then have "valid_range q" if "from_sqref_item s = Some q"
    using that ordered_ends_valid by (auto simp: from_sqref_item_def Let_def split: option.splits prod.splits)
  then show ?thesis using sqref_roundtrip by blast
qed

theorem sqref_item_roundtrip_witness:
  "from_sqref_item (sqref_item_text (from_ordered (CellAddress 1 3) (CellAddress 1048576 5))) =
    Some (from_ordered (CellAddress 1 3) (CellAddress 1048576 5))"
  using sqref_item_roundtrip [of "from_ordered (CellAddress 1 3) (CellAddress 1048576 5)" "[]"]
  by (simp add: valid_range_def valid_address_def from_ordered_def excel_max)

text \<open>A range holds \<open>height\<close> times \<open>width\<close> cells, both computed without wrap-around, and fewer
than 2 to the 35.\<close>

theorem range_cell_count:
  assumes "valid_range r"
  shows "card (cells_of r) = range_height r * range_width r \<and> card (cells_of r) < 2 ^ 35"
proof -
  have "range_height r \<le> EXCEL_MAX_ROWS" "range_width r \<le> EXCEL_MAX_COLUMNS"
    using assms by (auto simp: range_height_exact range_width_exact valid_range_def valid_address_def)
  then have "range_height r * range_width r \<le> EXCEL_MAX_ROWS * EXCEL_MAX_COLUMNS" by (rule mult_le_mono)
  then show ?thesis using card_cells_of [OF assms] by (simp add: excel_max)
qed

theorem range_cell_count_witness:
  "card (cells_of (from_ordered (CellAddress 2 3) (CellAddress 4 7))) = 15"
  using range_cell_count [of "from_ordered (CellAddress 2 3) (CellAddress 4 7)"]
  by (simp add: valid_range_def valid_address_def from_ordered_def excel_max range_height_def range_width_def u32_add_def u32_sub_def)

end
