(* ===== verification/Grid.thy ===== *)
theory Grid
  imports Address
begin

text \<open>
  Structural edits of a worksheet grid, from \<open>crates/cellrune/src/grid.rs\<close>: inserting,
  deleting and moving whole lines, cutting and pasting a rectangle, and how each edit moves
  lines, cells, intervals and ranges. The second part of the theory shows that every edit the
  batch executor accepts is a partial bijection of the grid whose reverse direction is
  \<open>unmap_address\<close>, and what the range operations do to sets of cells.
\<close>

section \<open>Axes\<close>

datatype grid_axis = Rows | Columns

fun axis_max :: "grid_axis \<Rightarrow> u32" where
  "axis_max Rows = EXCEL_MAX_ROWS"
| "axis_max Columns = EXCEL_MAX_COLUMNS"

fun axis_of :: "grid_axis \<Rightarrow> cell_address \<Rightarrow> u32" where
  "axis_of Rows a = addr_row a"
| "axis_of Columns a = addr_column a"

fun axis_with :: "grid_axis \<Rightarrow> cell_address \<Rightarrow> u32 \<Rightarrow> cell_address option" where
  "axis_with Rows a value = do { r \<leftarrow> ok (row_new value); Some (CellAddress r (addr_column a)) }"
| "axis_with Columns a value = do { c \<leftarrow> ok (column_new value); Some (CellAddress (addr_row a) c) }"

datatype range_rule = Reference | Format

section \<open>Operations on ranges\<close>

definition intersect :: "cell_range \<Rightarrow> cell_range \<Rightarrow> cell_range option" where
  "intersect left right = do {
     s \<leftarrow> ok (from_indices
       (max (addr_row (rng_start left)) (addr_row (rng_start right)))
       (max (addr_column (rng_start left)) (addr_column (rng_start right))));
     e \<leftarrow> ok (from_indices
       (min (addr_row (rng_end left)) (addr_row (rng_end right)))
       (min (addr_column (rng_end left)) (addr_column (rng_end right))));
     ok (range_new s e) }"

definition piece :: "u32 \<Rightarrow> u32 \<Rightarrow> u32 \<Rightarrow> u32 \<Rightarrow> cell_range option" where
  "piece first_row last_row first_column last_column = do {
     s \<leftarrow> ok (from_indices first_row first_column);
     e \<leftarrow> ok (from_indices last_row last_column);
     ok (range_new s e) }"

text \<open>\<open>bool::then\<close> followed by the two \<open>flatten\<close>s: the pieces whose guard holds and that exist.\<close>

definition piece_if :: "bool \<Rightarrow> cell_range option \<Rightarrow> cell_range list" where
  "piece_if guard p = (if guard then (case p of None \<Rightarrow> [] | Some r \<Rightarrow> [r]) else [])"

definition subtract :: "cell_range \<Rightarrow> cell_range \<Rightarrow> cell_range list" where
  "subtract rng removed =
     (case intersect rng removed of None \<Rightarrow> [rng]
      | Some overlap \<Rightarrow>
         (let top = addr_row (rng_start rng); bottom = addr_row (rng_end rng);
              left = addr_column (rng_start rng); right = addr_column (rng_end rng);
              overlap_top = addr_row (rng_start overlap); overlap_bottom = addr_row (rng_end overlap);
              overlap_left = addr_column (rng_start overlap);
              overlap_right = addr_column (rng_end overlap)
          in piece_if (top < overlap_top) (piece top (u32_sub overlap_top 1) left right)
           @ piece_if (left < overlap_left)
               (piece overlap_top overlap_bottom left (u32_sub overlap_left 1))
           @ piece_if (overlap_right < right)
               (piece overlap_top overlap_bottom (u32_add overlap_right 1) right)
           @ piece_if (overlap_bottom < bottom) (piece (u32_add overlap_bottom 1) bottom left right)))"

definition range_contains :: "cell_range \<Rightarrow> cell_range \<Rightarrow> bool" where
  "range_contains outer inner \<longleftrightarrow> contains outer (rng_start inner) \<and> contains outer (rng_end inner)"

definition partially_overlaps :: "cell_range \<Rightarrow> cell_range \<Rightarrow> bool" where
  "partially_overlaps rng other \<longleftrightarrow> intersect rng other \<noteq> None \<and> \<not> range_contains other rng"

text \<open>\<open>u32::try_from\<close> of an \<open>i64\<close>.\<close>

definition u32_try_from :: "int \<Rightarrow> u32 option" where
  "u32_try_from i = (if 0 \<le> i \<and> i < int u32_bound then Some (nat i) else None)"

definition offset_address :: "cell_address \<Rightarrow> int \<times> int \<Rightarrow> cell_address option" where
  "offset_address a d = do {
     row \<leftarrow> u32_try_from (int (addr_row a) + fst d);
     column \<leftarrow> u32_try_from (int (addr_column a) + snd d);
     ok (from_indices row column) }"

definition offset_range :: "cell_range \<Rightarrow> int \<times> int \<Rightarrow> cell_range option" where
  "offset_range r d = do {
     s \<leftarrow> offset_address (rng_start r) d;
     e \<leftarrow> offset_address (rng_end r) d;
     Some (from_ordered s e) }"

section \<open>Edits\<close>

datatype grid_edit =
    Insert grid_axis u32 u32
  | Delete grid_axis u32 u32
  | Move grid_axis u32 u32 u32
  | MoveRange cell_range cell_address

fun line_axis :: "grid_edit \<Rightarrow> grid_axis option" where
  "line_axis (Insert axis at count) = Some axis"
| "line_axis (Delete axis first lst) = Some axis"
| "line_axis (Move axis first lst destination) = Some axis"
| "line_axis (MoveRange source destination) = None"

fun destination_range :: "grid_edit \<Rightarrow> cell_range option" where
  "destination_range (MoveRange source destination) = do {
     e \<leftarrow> ok (from_indices
       (u32_sub (u32_add (addr_row destination) (range_height source)) 1)
       (u32_sub (u32_add (addr_column destination) (range_width source)) 1));
     Some (from_ordered destination e) }"
| "destination_range _ = None"

text \<open>\<open>None\<close> is the panic of the \<open>expect\<close> on a range move that does not fit the sheet.\<close>

fun inverse_edit :: "grid_edit \<Rightarrow> grid_edit option" where
  "inverse_edit (Insert axis at count) = Some (Delete axis at (u32_sub (u32_add at count) 1))"
| "inverse_edit (Delete axis first lst) =
     Some (Insert axis first (u32_add (u32_sub lst first) 1))"
| "inverse_edit (Move axis first lst destination) =
     Some (Move axis destination (u32_add destination (u32_sub lst first)) first)"
| "inverse_edit (MoveRange source destination) =
     (case destination_range (MoveRange source destination) of None \<Rightarrow> None
      | Some d \<Rightarrow> Some (MoveRange d (rng_start source)))"

fun map_line :: "grid_edit \<Rightarrow> u32 \<Rightarrow> u32 option" where
  "map_line (Insert axis at count) value =
     (if value < at then Some value
      else do { moved \<leftarrow> checked_add value count; then_some (moved \<le> axis_max axis) moved })"
| "map_line (Delete axis first lst) value =
     (if value < first then Some value
      else if value \<le> lst then None
      else Some (u32_sub value (u32_add (u32_sub lst first) 1)))"
| "map_line (Move axis first lst destination) value =
     (let count = u32_add (u32_sub lst first) 1
      in Some (if first \<le> value \<and> value \<le> lst then u32_add destination (u32_sub value first)
         else if destination < first \<and> destination \<le> value \<and> value < first
         then u32_add value count
         else if destination > first \<and> u32_add lst 1 \<le> value \<and> value < u32_add destination count
         then u32_sub value count
         else value))"
| "map_line (MoveRange source destination) value = Some value"

fun unmap_line :: "grid_edit \<Rightarrow> u32 \<Rightarrow> u32 option" where
  "unmap_line (Insert axis at count) value =
     (if value < at then Some value
      else if value < u32_add at count then None
      else Some (u32_sub value count))"
| "unmap_line (Delete axis first lst) value =
     (if value < first then Some value
      else do { source \<leftarrow> checked_add value (u32_add (u32_sub lst first) 1);
                then_some (source \<le> axis_max axis) source })"
| "unmap_line (Move axis first lst destination) value =
     do { e \<leftarrow> inverse_edit (Move axis first lst destination); map_line e value }"
| "unmap_line (MoveRange source destination) value =
     do { e \<leftarrow> inverse_edit (MoveRange source destination); map_line e value }"

fun range_offset :: "grid_edit \<Rightarrow> int \<times> int" where
  "range_offset (MoveRange source destination) =
     (int (addr_row destination) - int (addr_row (rng_start source)),
      int (addr_column destination) - int (addr_column (rng_start source)))"
| "range_offset _ = (0, 0)"

definition map_on_axis :: "grid_axis \<Rightarrow> cell_address \<Rightarrow> u32 option \<Rightarrow> cell_address option" where
  "map_on_axis axis a v = do { w \<leftarrow> v; axis_with axis a w }"

definition map_address :: "grid_edit \<Rightarrow> cell_address \<Rightarrow> cell_address option" where
  "map_address edit a =
     (case edit of
        MoveRange source _ \<Rightarrow> do {
          destination \<leftarrow> destination_range edit;
          if contains source a then offset_address a (range_offset edit)
          else if contains destination a then None
          else Some a }
      | Insert axis _ _ \<Rightarrow> map_on_axis axis a (map_line edit (axis_of axis a))
      | Delete axis _ _ \<Rightarrow> map_on_axis axis a (map_line edit (axis_of axis a))
      | Move axis _ _ _ \<Rightarrow> map_on_axis axis a (map_line edit (axis_of axis a)))"

definition unmap_address :: "grid_edit \<Rightarrow> cell_address \<Rightarrow> cell_address option" where
  "unmap_address edit a =
     (case edit of
        MoveRange source _ \<Rightarrow> do {
          destination \<leftarrow> destination_range edit;
          if contains destination a
          then offset_address a (- fst (range_offset edit), - snd (range_offset edit))
          else if contains source a then None
          else Some a }
      | Insert axis _ _ \<Rightarrow> map_on_axis axis a (unmap_line edit (axis_of axis a))
      | Delete axis _ _ \<Rightarrow> map_on_axis axis a (unmap_line edit (axis_of axis a))
      | Move axis _ _ _ \<Rightarrow> map_on_axis axis a (unmap_line edit (axis_of axis a)))"

text \<open>
  \<open>map_interval\<close>: the line edits only call it on a \<open>Delete\<close> and an \<open>Insert\<close>, so the
  recursion of the \<open>Move\<close> case is one level deep.
\<close>

function map_interval :: "grid_edit \<Rightarrow> u32 \<Rightarrow> u32 \<Rightarrow> range_rule \<Rightarrow> (u32 \<times> u32) option" where
  "map_interval (Insert axis at count) s e rule =
     (if s = 1 \<and> e = axis_max axis then Some (s, e)
      else (let grows = (e \<ge> at \<or> rule = Format \<and> u32_add e 1 = at);
                s' = (if s \<ge> at then u32_add s count else s)
            in if s' > axis_max axis then None
               else (let e' = (if grows then u32_add e count else e)
                     in Some (s', min e' (axis_max axis)))))"
| "map_interval (Delete axis first lst) s e rule =
     (if s = 1 \<and> e = axis_max axis then Some (s, e)
      else if s \<ge> first \<and> e \<le> lst then None
      else (let count = u32_add (u32_sub lst first) 1;
                s' = (if s < first then s else if s \<le> lst then first else u32_sub s count);
                e' = (if e < first then e else if e \<le> lst then u32_sub first 1 else u32_sub e count)
            in Some (s', e')))"
| "map_interval (Move axis first lst destination) s e rule =
     (if s = 1 \<and> e = axis_max axis then Some (s, e)
      else do {
        mapped_start \<leftarrow> map_line (Move axis first lst destination) s;
        mapped_end \<leftarrow> map_line (Move axis first lst destination) e;
        if mapped_start \<le> mapped_end then Some (mapped_start, mapped_end)
        else do {
          (s', e') \<leftarrow> map_interval (Delete axis first lst) s e rule;
          map_interval (Insert axis destination (u32_add (u32_sub lst first) 1)) s' e' Reference } })"
| "map_interval (MoveRange source destination) s e rule = Some (s, e)"
  by pat_completeness auto
termination
  by (relation "measure (\<lambda>(edit, _). case edit of Move _ _ _ _ \<Rightarrow> 1 | _ \<Rightarrow> 0)") auto

declare map_interval.simps [simp del]

definition map_range_on_axis :: "grid_edit \<Rightarrow> grid_axis \<Rightarrow> cell_range \<Rightarrow> range_rule \<Rightarrow> cell_range option" where
  "map_range_on_axis edit axis rng rule = do {
     (s, e) \<leftarrow> map_interval edit (axis_of axis (rng_start rng)) (axis_of axis (rng_end rng)) rule;
     start \<leftarrow> axis_with axis (rng_start rng) s;
     stop \<leftarrow> axis_with axis (rng_end rng) e;
     Some (from_ordered start stop) }"

definition map_range :: "grid_edit \<Rightarrow> cell_range \<Rightarrow> range_rule \<Rightarrow> cell_range option" where
  "map_range edit rng rule =
     (case edit of
        MoveRange source _ \<Rightarrow>
          (if range_contains source rng then offset_range rng (range_offset edit)
           else Some rng)
      | Insert axis _ _ \<Rightarrow> map_range_on_axis edit axis rng rule
      | Delete axis _ _ \<Rightarrow> map_range_on_axis edit axis rng rule
      | Move axis _ _ _ \<Rightarrow> map_range_on_axis edit axis rng rule)"

definition moved_part :: "grid_edit \<Rightarrow> cell_range \<Rightarrow> cell_range \<Rightarrow> cell_range list" where
  "moved_part edit source rng =
     (case intersect rng source of None \<Rightarrow> []
      | Some inside \<Rightarrow> (case offset_range inside (range_offset edit) of None \<Rightarrow> []
         | Some shifted \<Rightarrow> [shifted]))"

definition map_ranges :: "grid_edit \<Rightarrow> cell_range list \<Rightarrow> range_rule \<Rightarrow> cell_range list" where
  "map_ranges edit ranges rule =
     (case edit of
        MoveRange source _ \<Rightarrow>
          (case destination_range edit of None \<Rightarrow> ranges
           | Some destination \<Rightarrow>
              concat (map (\<lambda>rng. concat (map (\<lambda>part. subtract part destination)
                (subtract rng source))) ranges)
              @ concat (map (moved_part edit source) ranges))
      | _ \<Rightarrow> List.map_filter (\<lambda>rng. map_range edit rng rule) ranges)"

fun splits :: "grid_edit \<Rightarrow> cell_range \<Rightarrow> bool" where
  "splits (MoveRange source destination) rng =
     (let d = (case destination_range (MoveRange source destination) of None \<Rightarrow> source | Some d \<Rightarrow> d)
      in partially_overlaps rng source
         \<or> (\<not> range_contains source rng \<and> partially_overlaps rng d))"
| "splits (Insert axis at count) rng =
     (let s = axis_of axis (rng_start rng); e = axis_of axis (rng_end rng) in s < at \<and> at \<le> e)"
| "splits (Delete axis first lst) rng =
     (let s = axis_of axis (rng_start rng); e = axis_of axis (rng_end rng)
      in s \<le> lst \<and> first \<le> e \<and> \<not> (first \<le> s \<and> e \<le> lst))"
| "splits (Move axis first lst destination) rng =
     (let s = axis_of axis (rng_start rng); e = axis_of axis (rng_end rng);
          block_overlaps = (s \<le> lst \<and> first \<le> e);
          block_contains = (first \<le> s \<and> e \<le> lst);
          insertion = (if destination > first
            then u32_add destination (u32_add (u32_sub lst first) 1) else destination)
      in (block_overlaps \<and> \<not> block_contains)
         \<or> (\<not> block_contains \<and> s < insertion \<and> insertion \<le> e))"

fun overwritten :: "grid_edit \<Rightarrow> cell_range list" where
  "overwritten (MoveRange source destination) =
     (case destination_range (MoveRange source destination) of None \<Rightarrow> []
      | Some d \<Rightarrow> subtract d source)"
| "overwritten _ = []"

fun overwrites :: "grid_edit \<Rightarrow> cell_range \<Rightarrow> bool" where
  "overwrites (MoveRange source destination) rng =
     (case destination_range (MoveRange source destination) of None \<Rightarrow> False
      | Some d \<Rightarrow> (case intersect rng d of None \<Rightarrow> False
         | Some overlap \<Rightarrow> subtract overlap source \<noteq> []))"
| "overwrites _ rng = False"

section \<open>History\<close>

record grid_history =
  edits :: "grid_edit list"

definition history_push :: "grid_history \<Rightarrow> grid_edit \<Rightarrow> grid_history" where
  "history_push h edit = h\<lparr>edits := edits h @ [edit]\<rparr>"

definition to_source :: "grid_history \<Rightarrow> cell_address \<Rightarrow> cell_address option" where
  "to_source h a = try_fold (\<lambda>a edit. unmap_address edit a) a (rev (edits h))"

section \<open>Well-formed edits\<close>

text \<open>
  What the batch executor validates before an edit: the lines of the
  edit lie on the sheet and the result does too. Under it no \<open>u32\<close> operation above wraps.
\<close>

definition line_ok :: "grid_axis \<Rightarrow> u32 \<Rightarrow> bool" where
  "line_ok axis v \<longleftrightarrow> 1 \<le> v \<and> v \<le> axis_max axis"

fun wf_edit :: "grid_edit \<Rightarrow> bool" where
  "wf_edit (Insert axis at count) \<longleftrightarrow> 1 \<le> at \<and> 1 \<le> count \<and> at + count - 1 \<le> axis_max axis"
| "wf_edit (Delete axis first lst) \<longleftrightarrow> 1 \<le> first \<and> first \<le> lst \<and> lst \<le> axis_max axis"
| "wf_edit (Move axis first lst destination) \<longleftrightarrow>
     1 \<le> first \<and> first \<le> lst \<and> lst \<le> axis_max axis
     \<and> 1 \<le> destination \<and> destination + (lst - first) \<le> axis_max axis"
| "wf_edit (MoveRange source destination) \<longleftrightarrow>
     valid_range source \<and> valid_address destination
     \<and> addr_row destination + (range_height source - 1) \<le> EXCEL_MAX_ROWS
     \<and> addr_column destination + (range_width source - 1) \<le> EXCEL_MAX_COLUMNS"

definition wf_line_edit :: "grid_axis \<Rightarrow> grid_edit \<Rightarrow> bool" where
  "wf_line_edit axis e \<longleftrightarrow> wf_edit e \<and> line_axis e = Some axis"

lemma axis_max_bound: "axis_max axis \<le> 1048576"
  by (cases axis) (simp_all add: excel_max)

lemma wf_line_edit_cases:
  assumes "wf_line_edit axis e"
  obtains (Insert) at count where "e = Insert axis at count"
      "1 \<le> at" "1 \<le> count" "at + count \<le> Suc (axis_max axis)"
  | (Delete) first lst where "e = Delete axis first lst" "1 \<le> first" "first \<le> lst" "lst \<le> axis_max axis"
  | (Move) first lst destination where "e = Move axis first lst destination"
      "1 \<le> first" "first \<le> lst" "lst \<le> axis_max axis" "1 \<le> destination"
      "destination + (lst - first) \<le> axis_max axis"
  using assms by (cases e) (auto simp: wf_line_edit_def)

lemma map_line_ok:
  assumes "wf_line_edit axis e" "line_ok axis v" "map_line e v = Some w"
  shows "line_ok axis w"
  using assms(1) axis_max_bound [of axis]
proof (cases rule: wf_line_edit_cases)
  case Insert
  then show ?thesis using assms(2,3)
    by (auto simp: line_ok_def bind_eq_Some_conv checked_add_Some split: if_splits)
next
  case Delete
  then show ?thesis using assms(2,3) axis_max_bound [of axis]
    by (auto simp: line_ok_def u32_simps split: if_splits)
next
  case Move
  then show ?thesis using assms(2,3) axis_max_bound [of axis]
    by (auto simp: line_ok_def u32_simps split: if_splits)
qed

lemma unmap_line_ok:
  assumes "wf_line_edit axis e" "line_ok axis w" "unmap_line e w = Some v"
  shows "line_ok axis v"
  using assms(1) axis_max_bound [of axis]
proof (cases rule: wf_line_edit_cases)
  case Insert
  then show ?thesis using assms(2,3) axis_max_bound [of axis]
    by (auto simp: line_ok_def u32_simps split: if_splits)
next
  case Delete
  then show ?thesis using assms(2,3) axis_max_bound [of axis]
    by (auto simp: line_ok_def bind_eq_Some_conv checked_add_Some split: if_splits)
next
  case Move
  then show ?thesis using assms(2,3) axis_max_bound [of axis]
    by (auto simp: line_ok_def u32_simps split: if_splits)
qed

text \<open>A line move on the natural numbers: the moved block and the lines it changes places with.\<close>

definition moved_line :: "nat \<Rightarrow> nat \<Rightarrow> nat \<Rightarrow> nat \<Rightarrow> nat" where
  "moved_line first lst d v =
     (if first \<le> v \<and> v \<le> lst then d + (v - first)
      else if d \<le> v \<and> v < first then v + (lst - first + 1)
      else if lst < v \<and> v \<le> d + (lst - first) then v - (lst - first + 1)
      else v)"

lemma map_line_Move_exact:
  assumes "wf_line_edit axis (Move axis first lst d)" "line_ok axis v"
  shows "map_line (Move axis first lst d) v = Some (moved_line first lst d v)"
  using assms axis_max_bound [of axis]
  by (auto simp: wf_line_edit_def line_ok_def moved_line_def u32_simps Let_def)

lemma moved_line_undo:
  assumes "first \<le> lst"
  shows "moved_line d (d + (lst - first)) first (moved_line first lst d v) = v"
proof -
  obtain n where n: "lst = first + n" using assms le_Suc_ex by blast
  consider (block) "first \<le> v" "v \<le> first + n" | (down) "d \<le> v" "v < first"
    | (up) "first + n < v" "v \<le> d + n" | (below) "v < first" "v < d"
    | (above) "first + n < v" "d + n < v"
    by linarith
  then show ?thesis
    by cases (simp_all add: moved_line_def n, linarith+)
qed

lemma wf_inverse_Move:
  assumes "wf_line_edit axis (Move axis first lst d)"
  shows "inverse_edit (Move axis first lst d) = Some (Move axis d (d + (lst - first)) first)"
    and "wf_line_edit axis (Move axis d (d + (lst - first)) first)"
  using assms axis_max_bound [of axis]
  by (auto simp: wf_line_edit_def u32_simps)

lemma unmap_line_Move_exact:
  assumes "wf_line_edit axis (Move axis first lst d)" "line_ok axis w"
  shows "unmap_line (Move axis first lst d) w = Some (moved_line d (d + (lst - first)) first w)"
  using wf_inverse_Move [OF assms(1)] map_line_Move_exact assms(2) by simp

lemma map_unmap_line_Move:
  assumes "wf_line_edit axis (Move axis first lst d)" "line_ok axis v" "line_ok axis w"
  shows "map_line (Move axis first lst d) v = Some w
    \<longleftrightarrow> unmap_line (Move axis first lst d) w = Some v"
proof -
  have order: "first \<le> lst" "d \<le> d + (lst - first)"
    and same: "first + (d + (lst - first) - d) = lst"
    using assms(1) by (auto simp: wf_line_edit_def)
  show ?thesis
    unfolding map_line_Move_exact [OF assms(1,2)] unmap_line_Move_exact [OF assms(1,3)]
    using moved_line_undo [OF order(1), of d v] moved_line_undo [OF order(2), of first w] same
    by auto
qed

lemma map_unmap_line:
  assumes "wf_line_edit axis e" "line_ok axis v" "line_ok axis w"
  shows "map_line e v = Some w \<longleftrightarrow> unmap_line e w = Some v"
  using assms(1) axis_max_bound [of axis]
proof (cases rule: wf_line_edit_cases)
  case Insert
  then show ?thesis using assms(2,3) axis_max_bound [of axis]
    by (auto simp: line_ok_def u32_simps bind_eq_Some_conv checked_add_Some split: if_splits)
next
  case Delete
  then show ?thesis using assms(2,3) axis_max_bound [of axis]
    by (auto simp: line_ok_def u32_simps bind_eq_Some_conv checked_add_Some split: if_splits)
next
  case Move
  then show ?thesis using assms map_unmap_line_Move by blast
qed

interpretation lines: reversible map_line unmap_line "wf_line_edit axis" "line_ok axis" for axis
  by unfold_locales (auto intro: map_line_ok unmap_line_ok simp: map_unmap_line)

section \<open>Moving cells\<close>

fun set_axis :: "grid_axis \<Rightarrow> cell_address \<Rightarrow> u32 \<Rightarrow> cell_address" where
  "set_axis Rows a v = CellAddress v (addr_column a)"
| "set_axis Columns a v = CellAddress (addr_row a) v"

lemma axis_with_Some: "axis_with axis a v = Some b \<longleftrightarrow> line_ok axis v \<and> b = set_axis axis a v"
  by (cases axis) (auto simp: row_new_def column_new_def line_ok_def bind_eq_Some_conv)

lemma axis_of_set_axis [simp]: "axis_of axis (set_axis axis a v) = v"
  by (cases axis) auto

lemma set_axis_twice [simp]: "set_axis axis (set_axis axis a v) w = set_axis axis a w"
  by (cases axis) auto

lemma set_axis_same [simp]: "set_axis axis a (axis_of axis a) = a"
  by (cases axis) auto

lemma valid_set_axis:
  "valid_address a \<Longrightarrow> valid_address (set_axis axis a v) \<longleftrightarrow> line_ok axis v"
  by (cases axis) (auto simp: valid_address_def line_ok_def)

lemma line_ok_axis_of: "valid_address a \<Longrightarrow> line_ok axis (axis_of axis a)"
  by (cases axis) (auto simp: valid_address_def line_ok_def)

lemma map_address_line:
  assumes "wf_line_edit axis e"
  shows "map_address e a = map_on_axis axis a (map_line e (axis_of axis a))"
    and "unmap_address e a = map_on_axis axis a (unmap_line e (axis_of axis a))"
  using assms by (cases e; simp add: wf_line_edit_def map_address_def unmap_address_def)+

lemma map_on_axis_Some:
  "map_on_axis axis a v = Some b \<longleftrightarrow> (\<exists>w. v = Some w \<and> line_ok axis w \<and> b = set_axis axis a w)"
  by (auto simp: map_on_axis_def bind_eq_Some_conv axis_with_Some)

lemma set_axis_eq_iff:
  "b = set_axis axis a w \<longleftrightarrow> axis_of axis b = w \<and> a = set_axis axis b (axis_of axis a)"
  by (metis axis_of_set_axis set_axis_same set_axis_twice)

lemma line_edit_cells:
  assumes "wf_line_edit axis e" "valid_address a" "valid_address b"
  shows "map_address e a = Some b \<longleftrightarrow> unmap_address e b = Some a"
proof -
  have "map_address e a = Some b \<longleftrightarrow> map_line e (axis_of axis a) = Some (axis_of axis b)
      \<and> a = set_axis axis b (axis_of axis a)"
    unfolding map_address_line [OF assms(1)] map_on_axis_Some
    using assms(3) by (auto simp: set_axis_eq_iff [of b] line_ok_axis_of)
  also have "\<dots> \<longleftrightarrow> unmap_line e (axis_of axis b) = Some (axis_of axis a)
      \<and> a = set_axis axis b (axis_of axis a)"
    using assms by (simp add: map_unmap_line line_ok_axis_of)
  also have "\<dots> \<longleftrightarrow> unmap_address e b = Some a"
    unfolding map_address_line [OF assms(1)] map_on_axis_Some
    using assms(2) by (auto simp: line_ok_axis_of)
  finally show ?thesis .
qed

subsection \<open>Range moves\<close>

lemma u32_try_from_Some: "u32_try_from i = Some n \<longleftrightarrow> i = int n \<and> n < u32_bound"
  by (auto simp: u32_try_from_def)

lemma offset_address_Some:
  "offset_address a d = Some b \<longleftrightarrow> valid_address b
     \<and> int (addr_row b) = int (addr_row a) + fst d
     \<and> int (addr_column b) = int (addr_column a) + snd d"
proof -
  have "valid_address b \<Longrightarrow> addr_row b < u32_bound \<and> addr_column b < u32_bound"
    by (auto simp: valid_address_def excel_max)
  then show ?thesis
    by (cases b) (auto simp: offset_address_def bind_eq_Some_conv u32_try_from_Some
        from_indices_Inr)
qed

definition pasted :: "cell_range \<Rightarrow> cell_address \<Rightarrow> cell_range" where
  "pasted source d = from_ordered d
     (CellAddress (addr_row d + (addr_row (rng_end source) - addr_row (rng_start source)))
        (addr_column d + (addr_column (rng_end source) - addr_column (rng_start source))))"

lemma destination_range_exact:
  assumes "wf_edit (MoveRange source d)"
  shows "destination_range (MoveRange source d) = Some (pasted source d)"
    and "valid_range (pasted source d)"
proof -
  have v: "valid_range source" "valid_address d"
    and fits: "addr_row d + (range_height source - 1) \<le> EXCEL_MAX_ROWS"
      "addr_column d + (range_width source - 1) \<le> EXCEL_MAX_COLUMNS"
    using assms by simp_all
  have rows: "u32_sub (u32_add (addr_row d) (range_height source)) 1
      = addr_row d + (addr_row (rng_end source) - addr_row (rng_start source))"
    and cols: "u32_sub (u32_add (addr_column d) (range_width source)) 1
      = addr_column d + (addr_column (rng_end source) - addr_column (rng_start source))"
    using v fits unfolding range_height_exact [OF v(1)] range_width_exact [OF v(1)]
    by (simp_all add: u32_simps excel_max)
  have end_ok: "valid_address (rng_end (pasted source d))"
    using v fits unfolding range_height_exact [OF v(1)] range_width_exact [OF v(1)]
    by (simp add: pasted_def from_ordered_def valid_address_def)
  then show "destination_range (MoveRange source d) = Some (pasted source d)"
    unfolding destination_range.simps rows cols
    by (simp add: pasted_def bind_eq_Some_conv from_indices_Inr from_ordered_def)
  show "valid_range (pasted source d)"
    using v(2) end_ok by (simp add: valid_range_def pasted_def from_ordered_def)
qed

lemma offset_contains:
  assumes "valid_range source"
    and "int (addr_row b) = int (addr_row a) + (int (addr_row d) - int (addr_row (rng_start source)))"
    and "int (addr_column b) = int (addr_column a)
           + (int (addr_column d) - int (addr_column (rng_start source)))"
  shows "contains (pasted source d) b \<longleftrightarrow> contains source a"
  using assms by (auto simp: contains_def pasted_def from_ordered_def valid_range_def)

lemma offset_inside:
  assumes "wf_edit (MoveRange source d)" "contains source a"
  obtains b where "offset_address a (range_offset (MoveRange source d)) = Some b"
    and "contains (pasted source d) b"
proof -
  let ?b = "CellAddress (addr_row d + (addr_row a - addr_row (rng_start source)))
      (addr_column d + (addr_column a - addr_column (rng_start source)))"
  have b: "int (addr_row ?b) = int (addr_row a) + (int (addr_row d) - int (addr_row (rng_start source)))"
     "int (addr_column ?b) = int (addr_column a)
           + (int (addr_column d) - int (addr_column (rng_start source)))"
    using assms(2) by (auto simp: contains_def)
  from assms(1) have "valid_range source" by simp
  from offset_contains [OF this b] assms(2) have inside: "contains (pasted source d) ?b" by simp
  then have "valid_address ?b"
    using destination_range_exact(2) [OF assms(1)] contains_valid by blast
  with b have "offset_address a (range_offset (MoveRange source d)) = Some ?b"
    by (simp add: offset_address_Some)
  then show thesis using inside by (rule that)
qed

lemma range_move_cells:
  assumes "wf_edit (MoveRange source d)" "valid_address a" "valid_address b"
  shows "map_address (MoveRange source d) a = Some b
    \<longleftrightarrow> unmap_address (MoveRange source d) b = Some a"
proof -
  let ?e = "MoveRange source d"
  let ?o = "range_offset ?e"
  have v: "valid_range source" using assms(1) by simp
  note dest = destination_range_exact(1) [OF assms(1)]
  have off: "offset_address a ?o = Some b \<longleftrightarrow> offset_address b (- fst ?o, - snd ?o) = Some a"
    using assms(2,3) by (auto simp: offset_address_Some)
  have same: "offset_address a ?o = Some b \<Longrightarrow> contains (pasted source d) b \<longleftrightarrow> contains source a"
    using offset_contains [OF v, of b a d] by (simp add: offset_address_Some)
  show ?thesis
    unfolding map_address_def unmap_address_def grid_edit.case dest bind.bind_lunit
    using off same by auto
qed

lemma map_unmap_address:
  assumes "wf_edit e" "valid_address a" "valid_address b"
  shows "map_address e a = Some b \<longleftrightarrow> unmap_address e b = Some a"
proof (cases "line_axis e")
  case None
  then obtain source d where "e = MoveRange source d" by (cases e) auto
  with assms range_move_cells show ?thesis by simp
next
  case (Some axis)
  with assms line_edit_cells [of axis] show ?thesis by (simp add: wf_line_edit_def)
qed

lemma map_address_valid:
  assumes "wf_edit e" "valid_address a" "map_address e a = Some b"
  shows "valid_address b"
proof (cases "line_axis e")
  case None
  then obtain source d where "e = MoveRange source d" by (cases e) auto
  with assms show ?thesis
    by (auto simp: map_address_def destination_range_exact(1) offset_address_Some bind_eq_Some_conv
        simp del: destination_range.simps split: if_splits)
next
  case (Some axis)
  then have "wf_line_edit axis e" using assms(1) by (simp add: wf_line_edit_def)
  with assms(2,3) show ?thesis
    by (auto simp: map_address_line map_on_axis_Some valid_set_axis)
qed

lemma unmap_address_valid:
  assumes "wf_edit e" "valid_address a" "unmap_address e a = Some b"
  shows "valid_address b"
proof (cases "line_axis e")
  case None
  then obtain source d where "e = MoveRange source d" by (cases e) auto
  with assms show ?thesis
    by (auto simp: unmap_address_def destination_range_exact(1) offset_address_Some bind_eq_Some_conv
        simp del: destination_range.simps split: if_splits)
next
  case (Some axis)
  then have "wf_line_edit axis e" using assms(1) by (simp add: wf_line_edit_def)
  with assms(2,3) show ?thesis
    by (auto simp: map_address_line map_on_axis_Some valid_set_axis)
qed

interpretation cells: reversible map_address unmap_address wf_edit valid_address
  by unfold_locales (auto intro: map_address_valid unmap_address_valid simp: map_unmap_address)

section \<open>Ranges as sets of cells\<close>

definition cells_of_all :: "cell_range list \<Rightarrow> cell_address set" where
  "cells_of_all rs = (\<Union>r \<in> set rs. cells_of r)"

lemma cells_of_all_simps [simp]:
  "cells_of_all [] = {}" "cells_of_all (r # rs) = cells_of r \<union> cells_of_all rs"
  "cells_of_all (rs @ qs) = cells_of_all rs \<union> cells_of_all qs"
  by (auto simp: cells_of_all_def)

definition disjoint_ranges :: "cell_range list \<Rightarrow> bool" where
  "disjoint_ranges rs \<longleftrightarrow> sorted_wrt (\<lambda>p q. cells_of p \<inter> cells_of q = {}) rs"

lemma contains_start: "valid_range r \<Longrightarrow> contains r (rng_start r)"
  by (auto simp: valid_range_def contains_def)

lemma contains_end: "valid_range r \<Longrightarrow> contains r (rng_end r)"
  by (auto simp: valid_range_def contains_def)

lemma range_contains_iff:
  "valid_range inner \<Longrightarrow> range_contains outer inner \<longleftrightarrow> cells_of inner \<subseteq> cells_of outer"
  using contains_start [of inner] contains_end [of inner]
  by (auto simp: range_contains_def contains_def)

lemma intersect_Some:
  assumes "valid_range l" "valid_range r" "intersect l r = Some q"
  shows "valid_range q" and "cells_of q = cells_of l \<inter> cells_of r"
  using assms
  by (auto simp: intersect_def bind_eq_Some_conv from_indices_Inr range_new_Inr valid_range_def
      from_ordered_def contains_def)

lemma intersect_None:
  assumes "valid_range l" "valid_range r"
  shows "intersect l r = None \<longleftrightarrow> cells_of l \<inter> cells_of r = {}"
proof
  assume none: "intersect l r = None"
  show "cells_of l \<inter> cells_of r = {}"
  proof (rule ccontr)
    assume "cells_of l \<inter> cells_of r \<noteq> {}"
    then obtain a where "contains l a" "contains r a" by auto
    with assms have "\<exists>q. intersect l r = Some q"
      by (auto simp: intersect_def bind_eq_Some_conv from_indices_Inr range_new_Inr
          valid_range_def valid_address_def contains_def)
    with none show False by simp
  qed
next
  assume empty: "cells_of l \<inter> cells_of r = {}"
  show "intersect l r = None"
  proof (cases "intersect l r")
    case (Some q)
    from intersect_Some [OF assms Some] contains_start [of q] empty show ?thesis
      by (metis empty_iff mem_cells_of)
  qed
qed

lemma partially_overlaps_iff:
  assumes "valid_range r" "valid_range q"
  shows "partially_overlaps r q \<longleftrightarrow> cells_of r \<inter> cells_of q \<noteq> {} \<and> \<not> cells_of r \<subseteq> cells_of q"
  using assms by (simp add: partially_overlaps_def intersect_None range_contains_iff)

text \<open>Rectangles by their four bounds.\<close>

definition rect :: "nat \<Rightarrow> nat \<Rightarrow> nat \<Rightarrow> nat \<Rightarrow> cell_address set" where
  "rect t b l r = {a. t \<le> addr_row a \<and> addr_row a \<le> b \<and> l \<le> addr_column a \<and> addr_column a \<le> r}"

lemma piece_exact:
  assumes "1 \<le> t" "t \<le> b" "b \<le> EXCEL_MAX_ROWS" "1 \<le> l" "l \<le> r" "r \<le> EXCEL_MAX_COLUMNS"
  shows "\<exists>q. piece t b l r = Some q \<and> valid_range q \<and> cells_of q = rect t b l r"
  using assms
  by (auto simp: piece_def bind_eq_Some_conv from_indices_Inr range_new_Inr valid_range_def
      valid_address_def from_ordered_def contains_def rect_def)

lemma piece_if_exact:
  assumes "g \<longrightarrow> 1 \<le> t \<and> t \<le> b \<and> b \<le> EXCEL_MAX_ROWS \<and> 1 \<le> l \<and> l \<le> r \<and> r \<le> EXCEL_MAX_COLUMNS"
  shows "list_all valid_range (piece_if g (piece t b l r))"
    and "cells_of_all (piece_if g (piece t b l r)) = (if g then rect t b l r else {})"
    and "disjoint_ranges (piece_if g (piece t b l r))"
    and "length (piece_if g (piece t b l r)) \<le> 1"
proof -
  consider "\<not> g" | q where "g" "piece t b l r = Some q" "valid_range q" "cells_of q = rect t b l r"
    using assms piece_exact [of t b l r] by blast
  then have "list_all valid_range (piece_if g (piece t b l r))
      \<and> cells_of_all (piece_if g (piece t b l r)) = (if g then rect t b l r else {})
      \<and> disjoint_ranges (piece_if g (piece t b l r)) \<and> length (piece_if g (piece t b l r)) \<le> 1"
    by cases (simp_all add: piece_if_def disjoint_ranges_def)
  then show "list_all valid_range (piece_if g (piece t b l r))"
    and "cells_of_all (piece_if g (piece t b l r)) = (if g then rect t b l r else {})"
    and "disjoint_ranges (piece_if g (piece t b l r))"
    and "length (piece_if g (piece t b l r)) \<le> 1"
    by blast+
qed

lemma disjoint_ranges_append:
  "disjoint_ranges (xs @ ys) \<longleftrightarrow> disjoint_ranges xs \<and> disjoint_ranges ys
     \<and> cells_of_all xs \<inter> cells_of_all ys = {}"
  by (fastforce simp: disjoint_ranges_def sorted_wrt_append cells_of_all_def)

text \<open>The bounds of a range and of its overlap with another, as the subtraction uses them.\<close>

lemma subtract_overlap:
  assumes "valid_range r" "valid_range x" "intersect r x = Some q"
  obtains t b l u t' b' l' u' where
    "subtract r x = piece_if (t < t') (piece t (t' - 1) l u)
       @ piece_if (l < l') (piece t' b' l (l' - 1))
       @ piece_if (u' < u) (piece t' b' (u' + 1) u)
       @ piece_if (b' < b) (piece (b' + 1) b l u)"
    "1 \<le> t" "t \<le> t'" "t' \<le> b'" "b' \<le> b" "b \<le> EXCEL_MAX_ROWS"
    "1 \<le> l" "l \<le> l'" "l' \<le> u'" "u' \<le> u" "u \<le> EXCEL_MAX_COLUMNS"
    "cells_of r = rect t b l u" "cells_of r \<inter> cells_of x = rect t' b' l' u'"
proof -
  let ?t = "addr_row (rng_start r)" and ?b = "addr_row (rng_end r)"
    and ?l = "addr_column (rng_start r)" and ?u = "addr_column (rng_end r)"
    and ?t' = "addr_row (rng_start q)" and ?b' = "addr_row (rng_end q)"
    and ?l' = "addr_column (rng_start q)" and ?u' = "addr_column (rng_end q)"
  have q: "valid_range q" "cells_of q = cells_of r \<inter> cells_of x"
    using intersect_Some [OF assms] by auto
  then have inside: "contains r (rng_start q)" "contains r (rng_end q)"
    using contains_start contains_end by (metis Int_iff mem_cells_of)+
  have bounds: "1 \<le> ?t" "?t \<le> ?t'" "?t' \<le> ?b'" "?b' \<le> ?b" "?b \<le> EXCEL_MAX_ROWS"
    "1 \<le> ?l" "?l \<le> ?l'" "?l' \<le> ?u'" "?u' \<le> ?u" "?u \<le> EXCEL_MAX_COLUMNS"
    using assms(1) q(1) inside
    by (auto simp: valid_range_def valid_address_def contains_def)
  then have "u32_sub ?t' 1 = ?t' - 1" "u32_sub ?l' 1 = ?l' - 1"
    "u32_add ?u' 1 = ?u' + 1" "u32_add ?b' 1 = ?b' + 1"
    by (auto simp: u32_simps excel_max)
  then have "subtract r x = piece_if (?t < ?t') (piece ?t (?t' - 1) ?l ?u)
       @ piece_if (?l < ?l') (piece ?t' ?b' ?l (?l' - 1))
       @ piece_if (?u' < ?u) (piece ?t' ?b' (?u' + 1) ?u)
       @ piece_if (?b' < ?b) (piece (?b' + 1) ?b ?l ?u)"
    by (simp only: subtract_def assms(3) option.case Let_def)
  moreover have "cells_of r = rect ?t ?b ?l ?u" "cells_of r \<inter> cells_of x = rect ?t' ?b' ?l' ?u'"
    using q(2) [symmetric] by (auto simp: rect_def contains_def cells_of_def)
  ultimately show thesis using bounds that by blast
qed

lemma subtract_correct:
  assumes "valid_range r" "valid_range x"
  shows "list_all valid_range (subtract r x)"
    and "cells_of_all (subtract r x) = cells_of r - cells_of x"
    and "disjoint_ranges (subtract r x)"
    and "length (subtract r x) \<le> 4"
proof -
  have "list_all valid_range (subtract r x) \<and> cells_of_all (subtract r x) = cells_of r - cells_of x
      \<and> disjoint_ranges (subtract r x) \<and> length (subtract r x) \<le> 4"
  proof (cases "intersect r x")
    case None
    then have "cells_of r \<inter> cells_of x = {}" using assms by (simp add: intersect_None)
    with None assms show ?thesis by (auto simp: subtract_def disjoint_ranges_def)
  next
    case (Some q)
    obtain t b l u t' b' l' u' where
      eq: "subtract r x = piece_if (t < t') (piece t (t' - 1) l u)
       @ piece_if (l < l') (piece t' b' l (l' - 1))
       @ piece_if (u' < u) (piece t' b' (u' + 1) u)
       @ piece_if (b' < b) (piece (b' + 1) b l u)"
      and bnd: "1 \<le> t" "t \<le> t'" "t' \<le> b'" "b' \<le> b" "b \<le> EXCEL_MAX_ROWS"
        "1 \<le> l" "l \<le> l'" "l' \<le> u'" "u' \<le> u" "u \<le> EXCEL_MAX_COLUMNS"
      and sets: "cells_of r = rect t b l u" "cells_of r \<inter> cells_of x = rect t' b' l' u'"
      by (rule subtract_overlap [OF assms Some])
    note P1 = piece_if_exact [of "t < t'" t "t' - 1" l u]
    note P2 = piece_if_exact [of "l < l'" t' b' l "l' - 1"]
    note P3 = piece_if_exact [of "u' < u" t' b' "u' + 1" u]
    note P4 = piece_if_exact [of "b' < b" "b' + 1" b l u]
    have c1: "t < t' \<longrightarrow> 1 \<le> t \<and> t \<le> t' - 1 \<and> t' - 1 \<le> EXCEL_MAX_ROWS \<and> 1 \<le> l \<and> l \<le> u \<and> u \<le> EXCEL_MAX_COLUMNS"
      and c2: "l < l' \<longrightarrow> 1 \<le> t' \<and> t' \<le> b' \<and> b' \<le> EXCEL_MAX_ROWS \<and> 1 \<le> l \<and> l \<le> l' - 1 \<and> l' - 1 \<le> EXCEL_MAX_COLUMNS"
      and c3: "u' < u \<longrightarrow> 1 \<le> t' \<and> t' \<le> b' \<and> b' \<le> EXCEL_MAX_ROWS \<and> 1 \<le> u' + 1 \<and> u' + 1 \<le> u \<and> u \<le> EXCEL_MAX_COLUMNS"
      and c4: "b' < b \<longrightarrow> 1 \<le> b' + 1 \<and> b' + 1 \<le> b \<and> b \<le> EXCEL_MAX_ROWS \<and> 1 \<le> l \<and> l \<le> u \<and> u \<le> EXCEL_MAX_COLUMNS"
      using bnd by auto
    note P = P1 [OF c1] P2 [OF c2] P3 [OF c3] P4 [OF c4]
    have "cells_of r - cells_of x = rect t b l u - rect t' b' l' u'"
      using sets by blast
    also have "\<dots> = cells_of_all (subtract r x)"
      unfolding eq cells_of_all_simps P using bnd by (auto simp: rect_def)
    finally have "cells_of_all (subtract r x) = cells_of r - cells_of x" by simp
    moreover have "disjoint_ranges (subtract r x)"
      unfolding eq disjoint_ranges_append cells_of_all_simps P(2,6,10,14)
      using P(3,7,11,15) bnd by (intro conjI; (assumption | auto simp: rect_def))
    moreover have "list_all valid_range (subtract r x)"
      unfolding eq list_all_append using P(1,5,9,13) by (intro conjI)
    moreover have "length (subtract r x) \<le> 4"
      unfolding eq length_append using P(4,8,12,16) by linarith
    ultimately show ?thesis by blast
  qed
  then show "list_all valid_range (subtract r x)"
    and "cells_of_all (subtract r x) = cells_of r - cells_of x"
    and "disjoint_ranges (subtract r x)" and "length (subtract r x) \<le> 4"
    by blast+
qed

end
