(* ===== verification/Grid_Laws.thy ===== *)
theory Grid_Laws
  imports Grid
begin

text \<open>
  What structural edits do to intervals of lines, to ranges and to lists of ranges
  (\<open>map_interval\<close>, \<open>map_range\<close>, \<open>map_ranges\<close>, \<open>splits\<close>, \<open>overwritten\<close> of
  \<open>crates/cellrune/src/grid.rs\<close>), stated through the line and cell maps of theory \<open>Grid\<close>.
\<close>

section \<open>Intervals\<close>

definition interval_ok :: "grid_axis \<Rightarrow> u32 \<Rightarrow> u32 \<Rightarrow> bool" where
  "interval_ok axis s e \<longleftrightarrow> 1 \<le> s \<and> s \<le> e \<and> e \<le> axis_max axis"

definition whole_axis :: "grid_axis \<Rightarrow> u32 \<Rightarrow> u32 \<Rightarrow> bool" where
  "whole_axis axis s e \<longleftrightarrow> s = 1 \<and> e = axis_max axis"

lemma map_interval_whole:
  assumes "wf_line_edit axis ed" "whole_axis axis s e"
  shows "map_interval ed s e rule = Some (s, e)"
  using assms by (cases ed) (auto simp: wf_line_edit_def whole_axis_def map_interval.simps)

text \<open>
  Insertion: the lines of the mapped interval are the images of its lines together with the
  inserted lines when the insertion point lies strictly inside, or, for formats, right after
  its last line. The interval disappears only when every line of it is pushed off the sheet.
\<close>

definition joins_insertion :: "range_rule \<Rightarrow> u32 \<Rightarrow> u32 \<Rightarrow> u32 \<Rightarrow> bool" where
  "joins_insertion rule at s e \<longleftrightarrow> s < at \<and> (at \<le> e \<or> rule = Format \<and> at = e + 1)"

lemma map_interval_Insert_exact:
  assumes "wf_line_edit axis (Insert axis at count)" "interval_ok axis s e" "\<not> whole_axis axis s e"
  shows "map_interval (Insert axis at count) s e rule =
    (if (if s \<ge> at then s + count else s) > axis_max axis then None
     else Some (if s \<ge> at then s + count else s,
            min (if e \<ge> at \<or> rule = Format \<and> e + 1 = at then e + count else e) (axis_max axis)))"
  using assms axis_max_bound [of axis]
  by (auto simp: wf_line_edit_def interval_ok_def whole_axis_def u32_simps map_interval.simps)

lemma map_interval_Insert_lines:
  assumes wf: "wf_line_edit axis (Insert axis at count)" and ok: "interval_ok axis s e"
    and nw: "\<not> whole_axis axis s e" and w: "line_ok axis w"
  shows "(\<exists>s' e'. map_interval (Insert axis at count) s e rule = Some (s', e') \<and> s' \<le> w \<and> w \<le> e')
    \<longleftrightarrow> (case unmap_line (Insert axis at count) w of Some v \<Rightarrow> s \<le> v \<and> v \<le> e
         | None \<Rightarrow> joins_insertion rule at s e)"
  using assms axis_max_bound [of axis]
  unfolding map_interval_Insert_exact [OF wf ok nw]
  by (auto simp: wf_line_edit_def line_ok_def interval_ok_def joins_insertion_def u32_simps)

lemma map_interval_Insert_ok:
  assumes "wf_line_edit axis (Insert axis at count)" "interval_ok axis s e"
    "map_interval (Insert axis at count) s e rule = Some (s', e')"
  shows "interval_ok axis s' e'"
proof (cases "whole_axis axis s e")
  case True
  with assms map_interval_whole [OF assms(1) True, of rule] show ?thesis by simp
next
  case False
  show ?thesis
    using assms(1,2,3) axis_max_bound [of axis]
    unfolding map_interval_Insert_exact [OF assms(1,2) False]
    by (auto simp: wf_line_edit_def interval_ok_def split: if_splits)
qed

text \<open>Deletion: the mapped interval is exactly the image of the lines that survive.\<close>

lemma map_interval_Delete_exact:
  assumes "wf_line_edit axis (Delete axis first lst)" "interval_ok axis s e" "\<not> whole_axis axis s e"
  shows "map_interval (Delete axis first lst) s e rule =
    (if s \<ge> first \<and> e \<le> lst then None
     else Some (if s < first then s else if s \<le> lst then first else s - (lst - first + 1),
            if e < first then e else if e \<le> lst then first - 1 else e - (lst - first + 1)))"
  using assms axis_max_bound [of axis]
  by (auto simp: wf_line_edit_def interval_ok_def whole_axis_def u32_simps map_interval.simps)

lemma map_interval_Delete_ok:
  assumes "wf_line_edit axis (Delete axis first lst)" "interval_ok axis s e"
    "map_interval (Delete axis first lst) s e rule = Some (s', e')"
  shows "interval_ok axis s' e'"
proof (cases "whole_axis axis s e")
  case True
  with assms map_interval_whole [OF assms(1) True, of rule] show ?thesis by simp
next
  case False
  show ?thesis
    using assms(1,2,3) axis_max_bound [of axis]
    unfolding map_interval_Delete_exact [OF assms(1,2) False]
    by (auto simp: wf_line_edit_def interval_ok_def split: if_splits)
qed

lemma map_interval_Delete_lines:
  assumes wf: "wf_line_edit axis (Delete axis first lst)" and ok: "interval_ok axis s e"
    and nw: "\<not> whole_axis axis s e" and w: "line_ok axis w"
  shows "(\<exists>s' e'. map_interval (Delete axis first lst) s e rule = Some (s', e') \<and> s' \<le> w \<and> w \<le> e')
    \<longleftrightarrow> (\<exists>v. unmap_line (Delete axis first lst) w = Some v \<and> s \<le> v \<and> v \<le> e)"
  using assms axis_max_bound [of axis]
  unfolding map_interval_Delete_exact [OF wf ok nw]
  by (auto simp: wf_line_edit_def line_ok_def interval_ok_def u32_simps bind_eq_Some_conv
      checked_add_Some)

text \<open>
  A move: while the images of the two ends keep their order they are the ends of the mapped
  interval. When they cross, one end lies in the moved block and the other outside; the interval
  then loses the block and makes room at its destination, and it never disappears.
\<close>

lemma map_interval_Move_ends:
  assumes wf: "wf_line_edit axis (Move axis first lst d)" and ok: "interval_ok axis s e"
    and nw: "\<not> whole_axis axis s e"
  shows "map_interval (Move axis first lst d) s e rule =
    (if moved_line first lst d s \<le> moved_line first lst d e
     then Some (moved_line first lst d s, moved_line first lst d e)
     else do { (s', e') \<leftarrow> map_interval (Delete axis first lst) s e rule;
               map_interval (Insert axis d (lst - first + 1)) s' e' Reference })"
proof -
  have lines: "line_ok axis s" "line_ok axis e"
    using ok by (auto simp: interval_ok_def line_ok_def)
  have "u32_add (u32_sub lst first) 1 = lst - first + 1"
    using wf axis_max_bound [of axis] by (auto simp: wf_line_edit_def u32_simps)
  moreover have "\<not> (s = 1 \<and> e = axis_max axis)"
    using nw by (simp add: whole_axis_def)
  ultimately show ?thesis
    by (simp only: map_interval.simps(3) map_line_Move_exact [OF wf lines(1)]
        map_line_Move_exact [OF wf lines(2)] bind.bind_lunit if_False)
qed

lemma moved_line_crossing:
  assumes "first \<le> lst" "s \<le> e" "moved_line first lst d e < moved_line first lst d s"
  obtains (start) "first \<le> s" "s \<le> lst" "lst < e" "first < d"
    | (stop) "s < first" "first \<le> e" "e \<le> lst" "d < first"
proof -
  obtain n where n: "lst = first + n" using assms(1) le_Suc_ex by blast
  from assms(2,3) show thesis
    using start stop unfolding moved_line_def n
    by (simp split: if_splits)
qed

lemma map_interval_Move_total:
  assumes wf: "wf_line_edit axis (Move axis first lst d)" and ok: "interval_ok axis s e"
  shows "\<exists>s' e'. map_interval (Move axis first lst d) s e rule = Some (s', e') \<and> interval_ok axis s' e'"
proof (cases "whole_axis axis s e")
  case True
  then show ?thesis using map_interval_whole [OF wf True, of rule] ok by auto
next
  case False
  let ?s = "moved_line first lst d s" and ?e = "moved_line first lst d e"
  have lines: "line_ok axis s" "line_ok axis e" "first \<le> lst" "s \<le> e"
    using ok wf by (auto simp: interval_ok_def line_ok_def wf_line_edit_def)
  have images: "line_ok axis ?s" "line_ok axis ?e"
    using map_line_ok [OF wf] map_line_Move_exact [OF wf] lines by blast+
  show ?thesis
  proof (cases "?s \<le> ?e")
    case True
    then show ?thesis
      using map_interval_Move_ends [OF wf ok False, of rule] images
      by (simp add: interval_ok_def line_ok_def)
  next
    case crossing: False
    have wfD: "wf_line_edit axis (Delete axis first lst)"
      and wfI: "wf_line_edit axis (Insert axis d (lst - first + 1))"
      using wf by (auto simp: wf_line_edit_def)
    have "\<exists>s1 e1. map_interval (Delete axis first lst) s e rule = Some (s1, e1)
        \<and> s1 < first + (if first < d then 1 else 0)"
      unfolding map_interval_Delete_exact [OF wfD ok False]
      by (rule moved_line_crossing [OF lines(3,4), of d]) (use crossing in auto)
    then obtain s1 e1 where D: "map_interval (Delete axis first lst) s e rule = Some (s1, e1)"
      and s1: "s1 < first + (if first < d then 1 else 0)" by blast
    have okD: "interval_ok axis s1 e1" by (rule map_interval_Delete_ok [OF wfD ok D])
    have "\<exists>s2 e2. map_interval (Insert axis d (lst - first + 1)) s1 e1 Reference = Some (s2, e2)"
    proof (cases "whole_axis axis s1 e1")
      case True
      then show ?thesis using map_interval_whole [OF wfI] by auto
    next
      case nw: False
      show ?thesis
        unfolding map_interval_Insert_exact [OF wfI okD nw]
        using s1 okD wf by (auto simp: wf_line_edit_def interval_ok_def split: if_splits)
    qed
    then show ?thesis
      using map_interval_Move_ends [OF wf ok False, of rule] crossing D
        map_interval_Insert_ok [OF wfI okD] by auto
  qed
qed

lemma map_interval_ok:
  assumes "wf_line_edit axis ed" "interval_ok axis s e" "map_interval ed s e rule = Some (s', e')"
  shows "interval_ok axis s' e'"
  using assms(1)
proof (cases rule: wf_line_edit_cases)
  case (Insert at count)
  with assms map_interval_Insert_ok show ?thesis by blast
next
  case (Delete first lst)
  with assms map_interval_Delete_ok show ?thesis by blast
next
  case (Move first lst d)
  with map_interval_Move_total [of axis first lst d s e rule] assms show ?thesis by auto
qed

section \<open>Ranges\<close>

text \<open>The cells an edit moves the cells of a set to.\<close>

definition image_cells :: "grid_edit \<Rightarrow> cell_address set \<Rightarrow> cell_address set" where
  "image_cells e S = {b. \<exists>a \<in> S. map_address e a = Some b}"

lemma image_cells_simps [simp]:
  "image_cells e {} = {}" "image_cells e (S \<union> T) = image_cells e S \<union> image_cells e T"
  by (auto simp: image_cells_def)

lemma interval_ok_of_range: "valid_range r \<Longrightarrow> interval_ok axis (axis_of axis (rng_start r)) (axis_of axis (rng_end r))"
  by (cases axis) (auto simp: valid_range_def valid_address_def interval_ok_def)

lemma map_range_line:
  "wf_line_edit axis ed \<Longrightarrow> map_range ed r rule = map_range_on_axis ed axis r rule"
  by (cases ed) (auto simp: wf_line_edit_def map_range_def)

lemma map_range_on_axis_Some:
  assumes "wf_line_edit axis ed" "valid_range r"
  shows "map_range_on_axis ed axis r rule = Some q \<longleftrightarrow> (\<exists>s e.
     map_interval ed (axis_of axis (rng_start r)) (axis_of axis (rng_end r)) rule = Some (s, e)
     \<and> q = from_ordered (set_axis axis (rng_start r) s) (set_axis axis (rng_end r) e))"
proof -
  have "map_interval ed (axis_of axis (rng_start r)) (axis_of axis (rng_end r)) rule = Some (s, e)
      \<Longrightarrow> line_ok axis s \<and> line_ok axis e" for s e
    using map_interval_ok [OF assms(1) interval_ok_of_range [OF assms(2)], of rule s e]
    by (auto simp: interval_ok_def line_ok_def)
  then show ?thesis
    by (auto simp: map_range_on_axis_def bind_eq_Some_conv axis_with_Some)
qed

lemma valid_axis_range:
  assumes "valid_range r" "interval_ok axis s e"
  shows "valid_range (from_ordered (set_axis axis (rng_start r) s) (set_axis axis (rng_end r) e))"
  using assms by (cases axis)
    (auto simp: valid_range_def valid_address_def interval_ok_def from_ordered_def)

lemma offset_range_inside:
  assumes "wf_edit (MoveRange source d)" "valid_range r" "cells_of r \<subseteq> cells_of source"
  obtains q where "offset_range r (range_offset (MoveRange source d)) = Some q" "valid_range q"
    "cells_of q = image_cells (MoveRange source d) (cells_of r)"
proof -
  let ?o = "range_offset (MoveRange source d)"
  have in_source: "contains source (rng_start r)" "contains source (rng_end r)"
    using contains_start [OF assms(2)] contains_end [OF assms(2)] assms(3) by auto
  obtain s where s: "offset_address (rng_start r) ?o = Some s"
    using offset_inside [OF assms(1) in_source(1)] by blast
  obtain e where e: "offset_address (rng_end r) ?o = Some e"
    using offset_inside [OF assms(1) in_source(2)] by blast
  let ?q = "from_ordered s e"
  have q: "offset_range r ?o = Some ?q" by (simp only: offset_range_def s e bind.bind_lunit)
  have coords: "int (addr_row s) = int (addr_row (rng_start r)) + fst ?o"
    "int (addr_column s) = int (addr_column (rng_start r)) + snd ?o"
    "int (addr_row e) = int (addr_row (rng_end r)) + fst ?o"
    "int (addr_column e) = int (addr_column (rng_end r)) + snd ?o"
    "valid_address s" "valid_address e"
    using s e unfolding offset_address_Some by blast+
  then have v: "valid_range ?q"
    using assms(2) by (auto simp: valid_range_def from_ordered_def)
  have moved: "map_address (MoveRange source d) a = offset_address a ?o" if "contains r a" for a
    using that assms(3) unfolding map_address_def grid_edit.case
      destination_range_exact(1) [OF assms(1)] bind.bind_lunit by auto
  have "b \<in> cells_of ?q \<longleftrightarrow> b \<in> image_cells (MoveRange source d) (cells_of r)" for b
  proof
    assume "b \<in> cells_of ?q"
    let ?a = "CellAddress (nat (int (addr_row b) - fst ?o)) (nat (int (addr_column b) - snd ?o))"
    have "contains r ?a"
      using \<open>b \<in> cells_of ?q\<close> coords by (auto simp: contains_def from_ordered_def)
    moreover have "valid_address b" using v \<open>b \<in> cells_of ?q\<close> contains_valid by auto
    then have "offset_address ?a ?o = Some b"
      unfolding offset_address_Some using \<open>b \<in> cells_of ?q\<close> coords
      by (auto simp: contains_def from_ordered_def)
    ultimately show "b \<in> image_cells (MoveRange source d) (cells_of r)"
      using moved by (auto simp: image_cells_def)
  next
    assume "b \<in> image_cells (MoveRange source d) (cells_of r)"
    then obtain a where "contains r a" "offset_address a ?o = Some b"
      using moved by (auto simp: image_cells_def)
    then show "b \<in> cells_of ?q"
      using coords unfolding offset_address_Some by (auto simp: contains_def from_ordered_def)
  qed
  then show thesis using that [OF q v] by blast
qed

lemma map_range_valid:
  assumes "wf_edit ed" "valid_range r" "map_range ed r rule = Some q"
  shows "valid_range q"
proof (cases "line_axis ed")
  case None
  then obtain source d where ed: "ed = MoveRange source d" by (cases ed) auto
  show ?thesis
  proof (cases "range_contains source r")
    case True
    then have "cells_of r \<subseteq> cells_of source" using assms(2) range_contains_iff by blast
    from offset_range_inside [OF assms(1) [unfolded ed] assms(2) this] show ?thesis
      using assms(3) True unfolding ed map_range_def by (auto simp del: range_offset.simps)
  next
    case False
    then show ?thesis using assms ed by (simp add: map_range_def)
  qed
next
  case (Some axis)
  then have wf: "wf_line_edit axis ed" using assms(1) by (simp add: wf_line_edit_def)
  then show ?thesis
    using assms(3) map_interval_ok [OF wf interval_ok_of_range [OF assms(2)]] valid_axis_range [OF assms(2)]
    unfolding map_range_line [OF wf] map_range_on_axis_Some [OF wf assms(2)] by blast
qed

text \<open>Deletion: the surviving range holds exactly the cells the surviving cells move to.\<close>

lemma cells_of_axis_range:
  assumes "valid_range r"
  shows "b \<in> cells_of (from_ordered (set_axis axis (rng_start r) s) (set_axis axis (rng_end r) e))
     \<longleftrightarrow> s \<le> axis_of axis b \<and> axis_of axis b \<le> e
       \<and> (\<forall>v. axis_of axis (rng_start r) \<le> v \<and> v \<le> axis_of axis (rng_end r)
            \<longrightarrow> contains r (set_axis axis b v))"
  using assms by (cases axis) (auto simp: contains_def from_ordered_def valid_range_def)

lemma map_range_Delete_cells:
  assumes wf: "wf_line_edit axis (Delete axis first lst)" and v: "valid_range r"
    and nw: "\<not> whole_axis axis (axis_of axis (rng_start r)) (axis_of axis (rng_end r))"
  shows "(case map_range (Delete axis first lst) r rule of None \<Rightarrow> {} | Some q \<Rightarrow> cells_of q)
    = image_cells (Delete axis first lst) (cells_of r)" (is "?l = ?r")
proof (rule set_eqI)
  fix b
  let ?e = "Delete axis first lst"
  let ?s = "axis_of axis (rng_start r)" and ?t = "axis_of axis (rng_end r)"
  note ok = interval_ok_of_range [OF v, of axis]
  have split_axis: "contains r a \<longleftrightarrow> ?s \<le> axis_of axis a \<and> axis_of axis a \<le> ?t
      \<and> (\<forall>u. ?s \<le> u \<and> u \<le> ?t \<longrightarrow> contains r (set_axis axis a u))" for a
    using v by (cases axis) (auto simp: contains_def valid_range_def)
  have "b \<in> ?l \<longleftrightarrow> (\<exists>q. map_range ?e r rule = Some q \<and> b \<in> cells_of q)"
    by (auto split: option.splits)
  also have "\<dots> \<longleftrightarrow> (\<exists>s e. map_interval ?e ?s ?t rule = Some (s, e) \<and> s \<le> axis_of axis b \<and> axis_of axis b \<le> e)
      \<and> (\<forall>u. ?s \<le> u \<and> u \<le> ?t \<longrightarrow> contains r (set_axis axis b u))"
    unfolding map_range_line [OF wf] map_range_on_axis_Some [OF wf v]
    using cells_of_axis_range [OF v, of b axis] by blast
  also have "\<dots> \<longleftrightarrow> b \<in> ?r"
  proof (cases "line_ok axis (axis_of axis b)")
    case True
    show ?thesis
      unfolding map_interval_Delete_lines [OF wf ok nw True]
    proof
      assume "(\<exists>u. unmap_line ?e (axis_of axis b) = Some u \<and> ?s \<le> u \<and> u \<le> ?t)
        \<and> (\<forall>u. ?s \<le> u \<and> u \<le> ?t \<longrightarrow> contains r (set_axis axis b u))"
      then obtain u where u: "unmap_line ?e (axis_of axis b) = Some u" "contains r (set_axis axis b u)"
        by blast
      then have "line_ok axis u" using unmap_line_ok [OF wf True] by blast
      then have "map_line ?e u = Some (axis_of axis b)" using u(1) map_unmap_line [OF wf _ True] by blast
      then have "map_address ?e (set_axis axis b u) = Some b"
        using True by (simp add: map_address_line [OF wf] map_on_axis_Some)
      with u(2) show "b \<in> ?r" by (auto simp: image_cells_def)
    next
      assume "b \<in> ?r"
      then obtain a where a: "contains r a" "map_address ?e a = Some b" by (auto simp: image_cells_def)
      then have m: "map_line ?e (axis_of axis a) = Some (axis_of axis b)" "b = set_axis axis a (axis_of axis b)"
        by (auto simp: map_address_line [OF wf] map_on_axis_Some simp del: map_line.simps)
      have "line_ok axis (axis_of axis a)" using contains_valid [OF v a(1)] line_ok_axis_of by blast
      then have "unmap_line ?e (axis_of axis b) = Some (axis_of axis a)"
        using m(1) map_unmap_line [OF wf _ True] by blast
      then show "(\<exists>u. unmap_line ?e (axis_of axis b) = Some u \<and> ?s \<le> u \<and> u \<le> ?t)
        \<and> (\<forall>u. ?s \<le> u \<and> u \<le> ?t \<longrightarrow> contains r (set_axis axis b u))"
        using split_axis [of a] a(1) m(2) by (metis set_axis_twice)
    qed
  next
    case False
    have "b \<notin> ?r"
    proof
      assume "b \<in> ?r"
      then obtain a where "contains r a" "map_address ?e a = Some b"
        by (auto simp: image_cells_def)
      then have "valid_address b"
        using contains_valid [OF v] map_address_valid wf by (metis wf_line_edit_def)
      with False line_ok_axis_of show False by blast
    qed
    moreover have "\<not> (s \<le> axis_of axis b \<and> axis_of axis b \<le> e)"
      if "map_interval ?e ?s ?t rule = Some (s, e)" for s e
      using map_interval_ok [OF wf ok that] False by (auto simp: interval_ok_def line_ok_def)
    ultimately show ?thesis by blast
  qed
  finally show "b \<in> ?l \<longleftrightarrow> b \<in> ?r" .
qed

section \<open>Lists of ranges and range moves\<close>

lemma map_address_MoveRange:
  assumes "wf_edit (MoveRange source d)"
  shows "map_address (MoveRange source d) a =
    (if contains source a then offset_address a (range_offset (MoveRange source d))
     else if contains (pasted source d) a then None else Some a)"
  unfolding map_address_def grid_edit.case destination_range_exact(1) [OF assms] bind.bind_lunit ..

lemma subtract_all:
  assumes "list_all valid_range rs" "valid_range x"
  shows "list_all valid_range (concat (map (\<lambda>p. subtract p x) rs))"
    and "cells_of_all (concat (map (\<lambda>p. subtract p x) rs)) = cells_of_all rs - cells_of x"
  using assms by (induction rs) (simp_all add: subtract_correct Un_Diff)

lemma moved_part_cells:
  assumes "wf_edit (MoveRange source d)" "valid_range r"
  shows "list_all valid_range (moved_part (MoveRange source d) source r)"
    and "cells_of_all (moved_part (MoveRange source d) source r)
      = image_cells (MoveRange source d) (cells_of r \<inter> cells_of source)"
proof -
  have v: "valid_range source" using assms(1) by simp
  have "list_all valid_range (moved_part (MoveRange source d) source r)
    \<and> cells_of_all (moved_part (MoveRange source d) source r)
      = image_cells (MoveRange source d) (cells_of r \<inter> cells_of source)"
  proof (cases "intersect r source")
    case None
    then have "cells_of r \<inter> cells_of source = {}" using intersect_None assms(2) v by blast
    with None show ?thesis by (simp add: moved_part_def)
  next
    case (Some q)
    note q = intersect_Some [OF assms(2) v Some]
    obtain p where "offset_range q (range_offset (MoveRange source d)) = Some p" "valid_range p"
      "cells_of p = image_cells (MoveRange source d) (cells_of q)"
      by (rule offset_range_inside [OF assms(1) q(1)]) (use q(2) in auto)
    then show ?thesis
      using q(2) unfolding moved_part_def Some by simp
  qed
  then show "list_all valid_range (moved_part (MoveRange source d) source r)"
    and "cells_of_all (moved_part (MoveRange source d) source r)
      = image_cells (MoveRange source d) (cells_of r \<inter> cells_of source)"
    by blast+
qed

lemma moved_parts_cells:
  assumes "wf_edit (MoveRange source d)" "list_all valid_range rs"
  shows "list_all valid_range (concat (map (moved_part (MoveRange source d) source) rs))"
    and "cells_of_all (concat (map (moved_part (MoveRange source d) source) rs))
      = image_cells (MoveRange source d) (cells_of_all rs \<inter> cells_of source)"
  using assms(2)
  by (induction rs) (simp_all add: Int_Un_distrib2 moved_part_cells [OF assms(1)])

lemma kept_parts:
  assumes "list_all valid_range rs" "valid_range source" "valid_range dest"
  shows "list_all valid_range (concat (map (\<lambda>r. concat (map (\<lambda>p. subtract p dest) (subtract r source))) rs))"
    and "cells_of_all (concat (map (\<lambda>r. concat (map (\<lambda>p. subtract p dest) (subtract r source))) rs))
      = cells_of_all rs - cells_of source - cells_of dest"
proof -
  have one: "list_all valid_range (concat (map (\<lambda>p. subtract p dest) (subtract r source)))
      \<and> cells_of_all (concat (map (\<lambda>p. subtract p dest) (subtract r source)))
        = cells_of r - cells_of source - cells_of dest" if "valid_range r" for r
    using subtract_all [OF subtract_correct(1) [OF that assms(2)] assms(3)]
      subtract_correct(2) [OF that assms(2)] by simp
  show "list_all valid_range (concat (map (\<lambda>r. concat (map (\<lambda>p. subtract p dest) (subtract r source))) rs))"
    using assms(1) one by (induction rs) auto
  show "cells_of_all (concat (map (\<lambda>r. concat (map (\<lambda>p. subtract p dest) (subtract r source))) rs))
      = cells_of_all rs - cells_of source - cells_of dest"
    using assms(1) one by (induction rs) auto
qed

lemma image_outside:
  assumes wf: "wf_edit (MoveRange source d)" and "T \<inter> cells_of source = {}"
  shows "image_cells (MoveRange source d) T = T - cells_of (pasted source d)"
proof -
  have "map_address (MoveRange source d) a = (if contains (pasted source d) a then None else Some a)"
    if "a \<in> T" for a
    using that assms(2) by (auto simp: map_address_MoveRange [OF wf])
  then show ?thesis by (auto simp: image_cells_def split: if_splits)
qed

lemma map_ranges_MoveRange:
  assumes wf: "wf_edit (MoveRange source d)" and rs: "list_all valid_range rs"
  shows "list_all valid_range (map_ranges (MoveRange source d) rs rule)"
    and "cells_of_all (map_ranges (MoveRange source d) rs rule)
      = image_cells (MoveRange source d) (cells_of_all rs)"
proof -
  let ?e = "MoveRange source d"
  have v: "valid_range source" "valid_range (pasted source d)"
    using wf destination_range_exact(2) by auto
  note kept = kept_parts [OF rs v]
  note moved = moved_parts_cells [OF wf rs]
  have eq: "map_ranges ?e rs rule =
      concat (map (\<lambda>r. concat (map (\<lambda>p. subtract p (pasted source d)) (subtract r source))) rs)
      @ concat (map (moved_part ?e source) rs)"
    unfolding map_ranges_def grid_edit.case destination_range_exact(1) [OF wf] option.case ..
  show "list_all valid_range (map_ranges ?e rs rule)"
    unfolding eq list_all_append using kept(1) moved(1) by blast
  have "image_cells ?e ((cells_of_all rs - cells_of source) \<union> (cells_of_all rs \<inter> cells_of source))
      = (cells_of_all rs - cells_of source - cells_of (pasted source d))
      \<union> image_cells ?e (cells_of_all rs \<inter> cells_of source)"
    by (subst image_cells_simps, subst image_outside [OF wf]) auto
  then have "image_cells ?e (cells_of_all rs) =
      (cells_of_all rs - cells_of source - cells_of (pasted source d))
      \<union> image_cells ?e (cells_of_all rs \<inter> cells_of source)"
    by (simp only: Un_Diff_Int)
  then show "cells_of_all (map_ranges ?e rs rule) = image_cells ?e (cells_of_all rs)"
    unfolding eq cells_of_all_simps kept(2) moved(2) by simp
qed

lemma lost_cell_iff:
  assumes wf: "wf_edit (MoveRange source d)"
  shows "map_address (MoveRange source d) a = None
    \<longleftrightarrow> contains (pasted source d) a \<and> \<not> contains source a"
proof (cases "contains source a")
  case True
  from offset_inside [OF wf True] show ?thesis
    using True unfolding map_address_MoveRange [OF wf] by (metis option.distinct(1))
next
  case False
  then show ?thesis by (simp add: map_address_MoveRange [OF wf])
qed

lemma overwritten_cells:
  assumes wf: "wf_edit (MoveRange source d)"
  shows "cells_of_all (overwritten (MoveRange source d))
    = {a. valid_address a \<and> map_address (MoveRange source d) a = None}"
proof -
  have v: "valid_range source" "valid_range (pasted source d)"
    using wf destination_range_exact(2) by auto
  have "cells_of_all (overwritten (MoveRange source d)) = cells_of (pasted source d) - cells_of source"
    unfolding overwritten.simps destination_range_exact(1) [OF wf] option.case
      subtract_correct(2) [OF v(2,1)] ..
  also have "\<dots> = {a. valid_address a \<and> map_address (MoveRange source d) a = None}"
    using contains_valid [OF v(2)] by (auto simp: lost_cell_iff [OF wf])
  finally show ?thesis .
qed

lemma overwrites_iff:
  assumes wf: "wf_edit (MoveRange source d)" and r: "valid_range r"
  shows "overwrites (MoveRange source d) r
    \<longleftrightarrow> (\<exists>a \<in> cells_of r. map_address (MoveRange source d) a = None)"
proof -
  have v: "valid_range source" "valid_range (pasted source d)"
    using wf destination_range_exact(2) by auto
  have "overwrites (MoveRange source d) r \<longleftrightarrow> cells_of r \<inter> cells_of (pasted source d) - cells_of source \<noteq> {}"
  proof (cases "intersect r (pasted source d)")
    case None
    then have "cells_of r \<inter> cells_of (pasted source d) = {}" using intersect_None [OF r v(2)] by simp
    with None show ?thesis
      by (simp add: destination_range_exact(1) [OF wf] del: destination_range.simps)
  next
    case (Some q)
    note q = intersect_Some [OF r v(2) Some]
    have "subtract q source \<noteq> [] \<longleftrightarrow> cells_of_all (subtract q source) \<noteq> {}"
      using subtract_correct(1) [OF q(1) v(1)] contains_start
      by (cases "subtract q source") (auto simp: cells_of_def)
    then show ?thesis
      using Some q(2) subtract_correct(2) [OF q(1) v(1)]
      by (simp add: destination_range_exact(1) [OF wf] del: destination_range.simps)
  qed
  also have "\<dots> \<longleftrightarrow> (\<exists>a \<in> cells_of r. map_address (MoveRange source d) a = None)"
    by (auto simp: lost_cell_iff [OF wf])
  finally show ?thesis .
qed

section \<open>Rigid ranges\<close>

text \<open>
  A range an edit does not split is moved as one block or removed as a whole; \<open>validate_sheet\<close>
  refuses the edits that split a legacy array formula, so its result range is never torn.
\<close>

definition rigid :: "grid_edit \<Rightarrow> cell_range \<Rightarrow> bool" where
  "rigid e r \<longleftrightarrow> (\<forall>a \<in> cells_of r. map_address e a = None)
     \<or> (\<exists>d. \<forall>a \<in> cells_of r. map_address e a = offset_address a d \<and> map_address e a \<noteq> None)"

definition keeps_on_sheet :: "grid_edit \<Rightarrow> cell_range \<Rightarrow> bool" where
  "keeps_on_sheet e r \<longleftrightarrow> (case e of
     Insert axis at count \<Rightarrow> axis_of axis (rng_end r) + count \<le> axis_max axis | _ \<Rightarrow> True)"

lemma offset_address_zero: "valid_address a \<Longrightarrow> offset_address a (0, 0) = Some a"
  by (simp add: offset_address_Some)

lemma axis_of_inside:
  "contains r a \<Longrightarrow> axis_of axis (rng_start r) \<le> axis_of axis a \<and> axis_of axis a \<le> axis_of axis (rng_end r)"
  by (cases axis) (auto simp: contains_def)

lemma rigid_shift:
  assumes wf: "wf_line_edit axis e" and r: "valid_range r"
    and shift: "\<And>v. axis_of axis (rng_start r) \<le> v \<Longrightarrow> v \<le> axis_of axis (rng_end r) \<Longrightarrow>
      \<exists>w. map_line e v = Some w \<and> int w = int v + k"
  shows "rigid e r"
proof -
  let ?d = "case axis of Rows \<Rightarrow> (k, 0) | Columns \<Rightarrow> (0, k)"
  have "map_address e a = offset_address a (fst ?d, snd ?d) \<and> map_address e a \<noteq> None"
    if a: "a \<in> cells_of r" for a
  proof -
    have inside: "contains r a" using a by simp
    obtain w where w: "map_line e (axis_of axis a) = Some w" "int w = int (axis_of axis a) + k"
      using shift axis_of_inside [OF inside] by blast
    have va: "valid_address a" using r inside by (rule contains_valid)
    have "line_ok axis w" using map_line_ok [OF wf line_ok_axis_of [OF va] w(1)] .
    then have m: "map_address e a = Some (set_axis axis a w)"
      using w(1) by (simp add: map_address_line [OF wf] map_on_axis_Some)
    moreover have "offset_address a ?d = Some (set_axis axis a w)"
      unfolding offset_address_Some using valid_set_axis [OF va, of axis w] \<open>line_ok axis w\<close> w(2)
      by (cases axis) auto
    ultimately show ?thesis by simp
  qed
  then show ?thesis unfolding rigid_def by blast
qed

lemma rigid_Insert:
  assumes "wf_line_edit axis (Insert axis at count)" "valid_range r"
    "\<not> splits (Insert axis at count) r" "keeps_on_sheet (Insert axis at count) r"
  shows "rigid (Insert axis at count) r"
proof -
  let ?s = "axis_of axis (rng_start r)" and ?t = "axis_of axis (rng_end r)"
  have b: "?t + count \<le> axis_max axis" "axis_max axis \<le> 1048576"
    using assms(4) axis_max_bound by (auto simp: keeps_on_sheet_def)
  consider (after) "?t < at" | (before) "at \<le> ?s" using assms(3) by fastforce
  then show ?thesis
  proof cases
    case after
    show ?thesis by (rule rigid_shift [OF assms(1,2), of 0]) (use after in auto)
  next
    case before
    show ?thesis
      by (rule rigid_shift [OF assms(1,2), of "int count"])
        (use before b in \<open>auto simp: u32_simps\<close>)
  qed
qed

lemma rigid_Delete:
  assumes "wf_line_edit axis (Delete axis first lst)" "valid_range r"
    "\<not> splits (Delete axis first lst) r"
  shows "rigid (Delete axis first lst) r"
proof -
  let ?s = "axis_of axis (rng_start r)" and ?t = "axis_of axis (rng_end r)"
  have ok: "interval_ok axis ?s ?t" using assms(2) by (rule interval_ok_of_range)
  have b: "first \<le> lst" "1 \<le> first" "axis_max axis \<le> 1048576" "?t \<le> axis_max axis"
    using assms(1) ok axis_max_bound by (auto simp: wf_line_edit_def interval_ok_def)
  consider (after) "?t < first" | (before) "lst < ?s" | (inside) "first \<le> ?s" "?t \<le> lst"
    using assms(3) by fastforce
  then show ?thesis
  proof cases
    case after
    show ?thesis by (rule rigid_shift [OF assms(1,2), of 0]) (use after in auto)
  next
    case before
    show ?thesis
      by (rule rigid_shift [OF assms(1,2), of "- int (lst - first + 1)"])
        (use before b in \<open>auto simp: u32_simps\<close>)
  next
    case inside
    have "map_address (Delete axis first lst) a = None" if "contains r a" for a
      using axis_of_inside [OF that, of axis] inside
      by (simp add: map_address_line [OF assms(1)] map_on_axis_def)
    then show ?thesis by (simp add: rigid_def)
  qed
qed

lemma rigid_Move:
  assumes wf: "wf_line_edit axis (Move axis first lst d)" and r: "valid_range r"
    and ns: "\<not> splits (Move axis first lst d) r"
  shows "rigid (Move axis first lst d) r"
proof -
  let ?s = "axis_of axis (rng_start r)" and ?t = "axis_of axis (rng_end r)"
  have ok: "interval_ok axis ?s ?t" using r by (rule interval_ok_of_range)
  have b: "first \<le> lst" "1 \<le> first" "lst \<le> axis_max axis" "d + (lst - first) \<le> axis_max axis"
    "axis_max axis \<le> 1048576" "?t \<le> axis_max axis" "1 \<le> ?s" "?s \<le> ?t"
    using wf ok axis_max_bound by (auto simp: wf_line_edit_def interval_ok_def)
  have moved: "map_line (Move axis first lst d) v = Some (moved_line first lst d v)"
    if "?s \<le> v" "v \<le> ?t" for v
    by (rule map_line_Move_exact [OF wf]) (use that b in \<open>auto simp: line_ok_def\<close>)
  have rigid_by: "rigid (Move axis first lst d) r"
    if "\<And>v. ?s \<le> v \<Longrightarrow> v \<le> ?t \<Longrightarrow> int (moved_line first lst d v) = int v + k" for k
    by (rule rigid_shift [OF wf r, of k]) (use moved that in blast)
  define insertion where "insertion = (if d > first then d + (lst - first + 1) else d)"
  have "u32_add d (u32_add (u32_sub lst first) 1) = d + (lst - first + 1)"
    using b by (simp add: u32_simps)
  then have cases: "first \<le> ?s \<and> ?t \<le> lst
      \<or> (?t < first \<or> lst < ?s) \<and> (insertion \<le> ?s \<or> ?t < insertion)"
    using ns by (auto simp: Let_def insertion_def split: if_splits)
  consider (block) "first \<le> ?s" "?t \<le> lst" | (stay_low) "?t < first" "?t < d"
    | (up) "?t < first" "d \<le> ?s" | (stay_high) "lst < ?s" "d + (lst - first) < ?s"
    | (down) "lst < ?s" "?t \<le> d + (lst - first)"
    using cases b unfolding insertion_def by (auto split: if_splits)
  then show ?thesis
  proof cases
    case block
    show ?thesis by (rule rigid_by [of "int d - int first"])
      (use block in \<open>auto simp: moved_line_def\<close>)
  next
    case stay_low
    show ?thesis by (rule rigid_by [of 0]) (use stay_low b in \<open>auto simp: moved_line_def\<close>)
  next
    case up
    show ?thesis by (rule rigid_by [of "int (lst - first + 1)"])
      (use up b in \<open>auto simp: moved_line_def\<close>)
  next
    case stay_high
    show ?thesis by (rule rigid_by [of 0]) (use stay_high b in \<open>auto simp: moved_line_def\<close>)
  next
    case down
    show ?thesis by (rule rigid_by [of "- int (lst - first + 1)"])
      (use down b in \<open>auto simp: moved_line_def\<close>)
  qed
qed

lemma rigid_MoveRange:
  assumes wf: "wf_edit (MoveRange source d)" and r: "valid_range r"
    and ns: "\<not> splits (MoveRange source d) r"
  shows "rigid (MoveRange source d) r"
proof -
  let ?d = "pasted source d"
  have v: "valid_range source" "valid_range ?d" using wf destination_range_exact(2) by auto
  have "\<not> partially_overlaps r source" "range_contains source r \<or> \<not> partially_overlaps r ?d"
    using ns by (simp_all add: destination_range_exact(1) [OF wf] Let_def del: destination_range.simps)
  then consider (inside) "cells_of r \<subseteq> cells_of source"
    | (lost) "cells_of r \<inter> cells_of source = {}" "cells_of r \<subseteq> cells_of ?d"
    | (free) "cells_of r \<inter> cells_of source = {}" "cells_of r \<inter> cells_of ?d = {}"
    unfolding partially_overlaps_iff [OF r v(1)] partially_overlaps_iff [OF r v(2)]
      range_contains_iff [OF r] by blast
  then show ?thesis
  proof cases
    case inside
    have "map_address (MoveRange source d) a = offset_address a (range_offset (MoveRange source d))
        \<and> map_address (MoveRange source d) a \<noteq> None" if "a \<in> cells_of r" for a
      using inside that lost_cell_iff [OF wf, of a] map_address_MoveRange [OF wf, of a] by auto
    then show ?thesis unfolding rigid_def by blast
  next
    case lost
    then have "map_address (MoveRange source d) a = None" if "a \<in> cells_of r" for a
      using that by (auto simp: lost_cell_iff [OF wf])
    then show ?thesis unfolding rigid_def by blast
  next
    case free
    then have "map_address (MoveRange source d) a = offset_address a (0, 0)
        \<and> map_address (MoveRange source d) a \<noteq> None" if "a \<in> cells_of r" for a
      using that contains_valid [OF r] map_address_MoveRange [OF wf, of a]
      by (auto simp: offset_address_zero)
    then show ?thesis unfolding rigid_def by blast
  qed
qed

lemma unsplit_rigid:
  assumes "wf_edit e" "valid_range r" "\<not> splits e r" "keeps_on_sheet e r"
  shows "rigid e r"
proof (cases e)
  case (Insert axis at count)
  then show ?thesis using assms rigid_Insert by (simp add: wf_line_edit_def)
next
  case (Delete axis first lst)
  then show ?thesis using assms rigid_Delete by (simp add: wf_line_edit_def)
next
  case (Move axis first lst d)
  then show ?thesis using assms rigid_Move by (simp add: wf_line_edit_def)
next
  case (MoveRange source d)
  then show ?thesis using assms rigid_MoveRange by simp
qed

section \<open>Properties\<close>

text \<open>What evaluates the definitions on concrete cells and ranges.\<close>

lemmas concrete = excel_max valid_range_def valid_address_def from_ordered_def range_height_def range_width_def
  u32_add_def u32_sub_def u32_mul_def offset_address_def u32_try_from_def from_indices_def row_new_def column_new_def
  contains_def map_address_def unmap_address_def map_on_axis_def line_ok_def wf_line_edit_def
  checked_add_def then_some_def

text \<open>C3: \<open>unmap_address\<close> is exactly the inverse of \<open>map_address\<close> for every well-formed structural
edit: the cell an edit moves here is the cell that moves here, so no two cells of the sheet land on
the same one.\<close>

theorem edit_address_inverse:
  assumes "wf_edit e" "valid_address a" "valid_address b"
  shows "map_address e a = Some b \<longleftrightarrow> unmap_address e b = Some a"
  using assms by (rule map_unmap_address)

theorem edit_address_inverse_witness:
  "map_address (MoveRange (from_ordered (CellAddress 1 1) (CellAddress 2 2)) (CellAddress 2 2)) (CellAddress 2 1)
      = Some (CellAddress 3 2) \<and>
   unmap_address (MoveRange (from_ordered (CellAddress 1 1) (CellAddress 2 2)) (CellAddress 2 2)) (CellAddress 3 2)
      = Some (CellAddress 2 1)"
proof -
  let ?e = "MoveRange (from_ordered (CellAddress 1 1) (CellAddress 2 2)) (CellAddress 2 2)"
  have "unmap_address ?e (CellAddress 3 2) = Some (CellAddress 2 1)" "wf_edit ?e"
    "valid_address (CellAddress 2 1)" "valid_address (CellAddress 3 2)" by (simp_all add: concrete)
  then show ?thesis
    using edit_address_inverse [of ?e "CellAddress 2 1" "CellAddress 3 2"] by blast
qed

text \<open>C6: The history of a draft leads back to the source sheet: a cell of the edited sheet comes from
the source cell that the edits, applied in order, carry to it, and from no cell when an edit made it.\<close>

theorem history_to_source:
  assumes "list_all wf_edit (edits h)" "valid_address b"
  shows "to_source h b = Some a \<longleftrightarrow>
    valid_address a \<and> try_fold (\<lambda>a e. map_address e a) a (edits h) = Some b"
proof
  assume a: "to_source h b = Some a"
  have "valid_address a"
    using a assms cells.history_domain unfolding to_source_def by blast
  then show "valid_address a \<and> try_fold (\<lambda>a e. map_address e a) a (edits h) = Some b"
    using a cells.history_inverse [OF assms(1) _ assms(2)] by (simp add: to_source_def)
next
  assume "valid_address a \<and> try_fold (\<lambda>a e. map_address e a) a (edits h) = Some b"
  then show "to_source h b = Some a"
    unfolding to_source_def using cells.history_inverse [OF assms(1) _ assms(2), of a] by blast
qed

theorem history_to_source_witness:
  "to_source \<lparr>edits = [Insert Rows 2 3, Delete Columns 1 1]\<rparr> (CellAddress 7 4) = Some (CellAddress 4 5) \<and>
   try_fold (\<lambda>a e. map_address e a) (CellAddress 4 5) [Insert Rows 2 3, Delete Columns 1 1] = Some (CellAddress 7 4)"
proof -
  let ?h = "\<lparr>edits = [Insert Rows 2 3, Delete Columns 1 1]\<rparr>"
  have "to_source ?h (CellAddress 7 4) = Some (CellAddress 4 5)" by (simp add: concrete to_source_def)
  then show ?thesis
    using history_to_source [of ?h "CellAddress 7 4" "CellAddress 4 5"]
    by (simp add: valid_address_def excel_max)
qed

text \<open>C7: Moving a block of cells carries a list of ranges to ranges that cover exactly the cells the
move carries the covered cells to, whatever the overlaps of the ranges with the block and its
destination.\<close>

theorem moved_ranges_exact:
  assumes "wf_edit (MoveRange source d)" "list_all valid_range rs"
  shows "list_all valid_range (map_ranges (MoveRange source d) rs rule) \<and>
    cells_of_all (map_ranges (MoveRange source d) rs rule) = image_cells (MoveRange source d) (cells_of_all rs)"
  using map_ranges_MoveRange [OF assms] by blast

theorem moved_ranges_exact_witness:
  "cells_of_all (map_ranges (MoveRange (from_ordered (CellAddress 1 1) (CellAddress 2 2)) (CellAddress 2 2))
      [from_ordered (CellAddress 1 1) (CellAddress 1 3)] Reference) =
   image_cells (MoveRange (from_ordered (CellAddress 1 1) (CellAddress 2 2)) (CellAddress 2 2))
      (cells_of_all [from_ordered (CellAddress 1 1) (CellAddress 1 3)])"
proof -
  have "wf_edit (MoveRange (from_ordered (CellAddress 1 1) (CellAddress 2 2)) (CellAddress 2 2))"
    "list_all valid_range [from_ordered (CellAddress 1 1) (CellAddress 1 3)]" by (simp_all add: concrete)
  then show ?thesis using moved_ranges_exact by blast
qed

text \<open>Deleting lines maps a range to the range of exactly the cells that survive, at their new
place, and to no range when none survives; a range over the whole axis is the exception the code
makes, and stays.\<close>

theorem deleted_range_exact:
  assumes "wf_line_edit axis (Delete axis first lst)" "valid_range r"
  shows "if whole_axis axis (axis_of axis (rng_start r)) (axis_of axis (rng_end r))
    then map_range (Delete axis first lst) r rule = Some r
    else (case map_range (Delete axis first lst) r rule of None \<Rightarrow> {} | Some q \<Rightarrow> cells_of q)
      = image_cells (Delete axis first lst) (cells_of r)"
proof (cases "whole_axis axis (axis_of axis (rng_start r)) (axis_of axis (rng_end r))")
  case True
  have "from_ordered (rng_start r) (rng_end r) = r" by (simp add: from_ordered_def)
  then have "map_range (Delete axis first lst) r rule = Some r"
    using True map_interval_whole [OF assms(1) True] map_range_on_axis_Some [OF assms, of rule r]
    by (simp add: map_range_line [OF assms(1)])
  then show ?thesis using True by simp
next
  case False
  then show ?thesis using map_range_Delete_cells [OF assms False] by simp
qed

theorem deleted_range_exact_witness:
  "(case map_range (Delete Rows 2 3) (from_ordered (CellAddress 1 1) (CellAddress 5 2)) Reference of
     None \<Rightarrow> {} | Some q \<Rightarrow> cells_of q) =
   image_cells (Delete Rows 2 3) (cells_of (from_ordered (CellAddress 1 1) (CellAddress 5 2)))"
  using deleted_range_exact [of Rows 2 3 "from_ordered (CellAddress 1 1) (CellAddress 5 2)" Reference]
  by (simp add: wf_line_edit_def whole_axis_def valid_range_def valid_address_def from_ordered_def excel_max)

text \<open>Inserting lines moves an interval to the lines that come from it, and to the inserted lines
when they open inside it or, for formatting, directly behind it.\<close>

theorem inserted_interval_lines:
  assumes "wf_line_edit axis (Insert axis at count)" "interval_ok axis s e"
    "\<not> whole_axis axis s e" "line_ok axis w"
  shows "(\<exists>s' e'. map_interval (Insert axis at count) s e rule = Some (s', e') \<and> s' \<le> w \<and> w \<le> e')
    \<longleftrightarrow> (case unmap_line (Insert axis at count) w of Some v \<Rightarrow> s \<le> v \<and> v \<le> e
         | None \<Rightarrow> joins_insertion rule at s e)"
  using assms by (rule map_interval_Insert_lines)

theorem inserted_interval_lines_witness:
  "(\<exists>s' e'. map_interval (Insert Rows 4 2) 1 3 Format = Some (s', e') \<and> s' \<le> 5 \<and> 5 \<le> e')
    \<longleftrightarrow> (case unmap_line (Insert Rows 4 2) 5 of Some v \<Rightarrow> 1 \<le> v \<and> v \<le> 3
         | None \<Rightarrow> joins_insertion Format 4 1 3)"
  by (rule inserted_interval_lines)
    (simp_all add: wf_line_edit_def interval_ok_def whole_axis_def line_ok_def excel_max)

text \<open>Moving lines never loses a range: its image exists and has its ends in order, in every
position of the moved block relative to the range.\<close>

theorem moved_interval_total:
  assumes "wf_line_edit axis (Move axis first lst d)" "interval_ok axis s e"
  shows "\<exists>s' e'. map_interval (Move axis first lst d) s e rule = Some (s', e') \<and> interval_ok axis s' e'"
  using assms by (rule map_interval_Move_total)

theorem moved_interval_total_witness:
  "\<exists>s' e'. map_interval (Move Columns 3 5 1) 2 4 Format = Some (s', e') \<and> interval_ok Columns s' e'"
  by (rule moved_interval_total) (simp_all add: wf_line_edit_def interval_ok_def excel_max)

text \<open>\<open>overwritten\<close> lists exactly the cells a block move destroys, and \<open>overwrites\<close> holds for a
range exactly when one of its cells is destroyed.\<close>

theorem overwritten_exact:
  assumes "wf_edit (MoveRange source d)" "valid_range r"
  shows "cells_of_all (overwritten (MoveRange source d)) =
      {a. valid_address a \<and> map_address (MoveRange source d) a = None} \<and>
    (overwrites (MoveRange source d) r \<longleftrightarrow> (\<exists>a\<in>cells_of r. map_address (MoveRange source d) a = None))"
  using overwritten_cells [OF assms(1)] overwrites_iff [OF assms] by blast

theorem overwritten_exact_witness:
  "overwrites (MoveRange (from_ordered (CellAddress 1 1) (CellAddress 2 2)) (CellAddress 2 2))
      (from_ordered (CellAddress 3 3) (CellAddress 9 9)) \<longleftrightarrow>
   (\<exists>a\<in>cells_of (from_ordered (CellAddress 3 3) (CellAddress 9 9)).
     map_address (MoveRange (from_ordered (CellAddress 1 1) (CellAddress 2 2)) (CellAddress 2 2)) a = None)"
proof -
  have "wf_edit (MoveRange (from_ordered (CellAddress 1 1) (CellAddress 2 2)) (CellAddress 2 2))"
    "valid_range (from_ordered (CellAddress 3 3) (CellAddress 9 9))" by (simp_all add: concrete)
  then show ?thesis using overwritten_exact by blast
qed

text \<open>\<open>subtract\<close> returns at most four disjoint ranges that cover exactly the cells of the range
that are not removed.\<close>

theorem subtract_exact:
  assumes "valid_range r" "valid_range x"
  shows "list_all valid_range (subtract r x) \<and> cells_of_all (subtract r x) = cells_of r - cells_of x \<and>
    disjoint_ranges (subtract r x) \<and> length (subtract r x) \<le> 4"
  using subtract_correct [OF assms] by blast

theorem subtract_exact_witness:
  "cells_of_all (subtract (from_ordered (CellAddress 1 1) (CellAddress 5 5)) (from_ordered (CellAddress 2 2) (CellAddress 3 9)))
   = cells_of (from_ordered (CellAddress 1 1) (CellAddress 5 5)) - cells_of (from_ordered (CellAddress 2 2) (CellAddress 3 9))"
  using subtract_exact [of "from_ordered (CellAddress 1 1) (CellAddress 5 5)" "from_ordered (CellAddress 2 2) (CellAddress 3 9)"]
  by (simp add: valid_range_def valid_address_def from_ordered_def excel_max)

text \<open>The guard of the structural edits is sound: an edit that does not split a range, such as an
array or a merged area, moves all its cells by one offset or drops them all.\<close>

theorem unsplit_moves_rigidly:
  assumes "wf_edit e" "valid_range r" "\<not> splits e r" "keeps_on_sheet e r"
  shows "rigid e r"
  using assms by (rule unsplit_rigid)

theorem unsplit_moves_rigidly_witness:
  "rigid (Insert Rows 3 2) (from_ordered (CellAddress 3 1) (CellAddress 5 2))"
  by (rule unsplit_moves_rigidly)
    (simp_all add: valid_range_def valid_address_def from_ordered_def excel_max keeps_on_sheet_def u32_add_def)

end
