(* ===== verification/Ordered_Map.thy ===== *)
theory Ordered_Map
  imports Prelude
begin

text \<open>The ordered maps of the standard library the sources use (\<open>BTreeMap\<close>): an
association list whose keys are strictly increasing, so that iteration is in key order.  The
interface is the locale \<open>ordered_map\<close>: what a lookup returns after an insertion or a removal, and
that every operation keeps the keys strictly increasing.\<close>

section \<open>Operations\<close>

definition map_keys :: "('k \<times> 'v) list \<Rightarrow> 'k list" where
  "map_keys m = map fst m"

fun map_insert :: "'k::linorder \<Rightarrow> 'v \<Rightarrow> ('k \<times> 'v) list \<Rightarrow> ('k \<times> 'v) list" where
  "map_insert k v [] = [(k, v)]"
| "map_insert k v ((k', v') # m) =
    (if k < k' then (k, v) # (k', v') # m
     else if k = k' then (k, v) # m
     else (k', v') # map_insert k v m)"

definition map_remove :: "'k \<Rightarrow> ('k \<times> 'v) list \<Rightarrow> ('k \<times> 'v) list" where
  "map_remove k m = filter (\<lambda>(k', _). k' \<noteq> k) m"

definition map_get :: "('k \<times> 'v) list \<Rightarrow> 'k \<Rightarrow> 'v option" where
  "map_get m k = map_of m k"

definition map_ok :: "('k::linorder \<times> 'v) list \<Rightarrow> bool" where
  "map_ok m = sorted_wrt (<) (map_keys m)"

text \<open>\<open>collect\<close> into a map inserts one entry after the other.\<close>

definition map_collect :: "('k::linorder \<times> 'v) list \<Rightarrow> ('k \<times> 'v) list" where
  "map_collect entries = fold (\<lambda>(k, v). map_insert k v) entries []"

section \<open>The interface\<close>

locale ordered_map =
  fixes insert :: "'k::linorder \<Rightarrow> 'v \<Rightarrow> 'm \<Rightarrow> 'm"
    and remove :: "'k \<Rightarrow> 'm \<Rightarrow> 'm"
    and get :: "'m \<Rightarrow> 'k \<Rightarrow> 'v option"
    and keys :: "'m \<Rightarrow> 'k list"
    and empty :: 'm
    and ok :: "'m \<Rightarrow> bool"
  assumes get_empty: "get empty k = None"
    and get_insert: "ok m \<Longrightarrow> get (insert k v m) = (get m)(k \<mapsto> v)"
    and get_remove: "ok m \<Longrightarrow> get (remove k m) = (get m)(k := None)"
    and ok_empty: "ok empty"
    and ok_insert: "ok m \<Longrightarrow> ok (insert k v m)"
    and ok_remove: "ok m \<Longrightarrow> ok (remove k m)"
    and keys_sorted: "ok m \<Longrightarrow> sorted_wrt (<) (keys m)"
    and keys_get: "ok m \<Longrightarrow> set (keys m) = dom (get m)"
begin

lemma ok_fold: "ok m \<Longrightarrow> ok (fold (\<lambda>(k, v). insert k v) entries m)"
  by (induction entries arbitrary: m) (auto simp: ok_insert)

lemma get_fold:
  "ok m \<Longrightarrow> get (fold (\<lambda>(k, v). insert k v) entries m) = get m ++ map_of (rev entries)"
proof (induction entries arbitrary: m)
  case (Cons e es)
  obtain k v where e: "e = (k, v)" by fastforce
  show ?case using Cons by (auto simp: e ok_insert get_insert map_add_def fun_eq_iff split: option.splits)
qed simp

lemma keys_insert: "ok m \<Longrightarrow> set (keys (insert k v m)) = Set.insert k (set (keys m))"
  by (simp add: keys_get ok_insert get_insert)

lemma keys_remove: "ok m \<Longrightarrow> set (keys (remove k m)) = set (keys m) - {k}"
  by (auto simp: keys_get ok_remove get_remove dom_def split: if_splits)

lemma distinct_keys: "ok m \<Longrightarrow> distinct (keys m)"
  using keys_sorted strict_sorted_iff by blast

text \<open>Two maps that answer every lookup alike list the same keys in the same order.\<close>

lemma keys_determined:
  assumes "ok m" "ok m'" "get m = get m'"
  shows "keys m = keys m'"
  using assms keys_sorted keys_get by (metis strict_sorted_equal)

end

lemma map_insert_keys: "set (map fst (map_insert k v m)) = insert k (set (map fst m))"
  by (induction k v m rule: map_insert.induct) (simp_all add: insert_commute)

lemma map_of_map_insert: "sorted_wrt (<) (map fst m) \<Longrightarrow> map_of (map_insert k v m) = (map_of m)(k \<mapsto> v)"
  by (induction m) (auto simp: fun_upd_twist)

lemma sorted_map_insert: "sorted_wrt (<) (map fst m) \<Longrightarrow> sorted_wrt (<) (map fst (map_insert k v m))"
proof (induction m)
  case (Cons e m)
  obtain k' v' where e: "e = (k', v')" by fastforce
  have "\<forall>x\<in>set (map fst (map_insert k v m)). k' < x" if "k' < k"
    unfolding map_insert_keys using Cons.prems e that by auto
  then show ?case using Cons e by auto
qed simp

lemma map_of_map_remove: "map_of (map_remove k m) = (map_of m)(k := None)"
  by (induction m) (auto simp: map_remove_def)

lemma sorted_map_remove: "sorted_wrt (<) (map fst m) \<Longrightarrow> sorted_wrt (<) (map fst (map_remove k m))"
  by (induction m) (auto simp: map_remove_def)

interpretation btree: ordered_map map_insert map_remove map_get map_keys "[]" map_ok
  by unfold_locales
    (simp_all add: map_ok_def map_keys_def map_get_def [abs_def] map_of_map_insert sorted_map_insert
      map_of_map_remove sorted_map_remove dom_map_of_conv_image_fst)

lemma map_get_None: "map_get m k = None \<longleftrightarrow> k \<notin> set (map_keys m)"
  by (simp add: map_get_def map_keys_def map_of_eq_None_iff)

lemma map_get_Some_entry: "map_ok m \<Longrightarrow> map_get m k = Some v \<longleftrightarrow> (k, v) \<in> set m"
  using btree.distinct_keys [of m] by (simp add: map_get_def map_keys_def)

lemma map_collect_sorted: "map_ok (map_collect entries)"
  unfolding map_collect_def by (rule btree.ok_fold) (rule btree.ok_empty)

lemma map_get_collect: "map_get (map_collect entries) = map_of (rev entries)"
  unfolding map_collect_def
  by (simp add: btree.get_fold btree.ok_empty btree.get_empty map_add_def fun_eq_iff split: option.splits)

end
