(* ===== verification/Traversal.thy ===== *)
theory Traversal
  imports Prelude
begin

text \<open>Reachability as the traversals of the sources compute it: a stack of pending nodes and a set
of visited ones.  \<open>avoids step S x z\<close> says that a path leads from \<open>x\<close> to \<open>z\<close> on which no node,
ends included, is in \<open>S\<close>; the laws below say how the set of nodes still to be found changes when
the traversal pops a visited node or expands a new one.\<close>

inductive avoids :: "('a \<Rightarrow> 'a set) \<Rightarrow> 'a set \<Rightarrow> 'a \<Rightarrow> 'a \<Rightarrow> bool" for step S where
  avoids_refl: "x \<notin> S \<Longrightarrow> avoids step S x x"
| avoids_step: "x \<notin> S \<Longrightarrow> y \<in> step x \<Longrightarrow> avoids step S y z \<Longrightarrow> avoids step S x z"

inductive_cases avoidsE: "avoids step S x z"

definition found_from :: "('a \<Rightarrow> 'a set) \<Rightarrow> 'a set \<Rightarrow> 'a set \<Rightarrow> 'a set" where
  "found_from step S P = {z. \<exists>x\<in>P. avoids step S x z}"

lemma avoids_start: "avoids step S x z \<Longrightarrow> x \<notin> S"
  by (cases rule: avoids.cases) auto

lemma avoids_end: "avoids step S x z \<Longrightarrow> z \<notin> S"
  by (induction rule: avoids.induct) auto

lemma avoids_mono: "avoids step S x z \<Longrightarrow> S' \<subseteq> S \<Longrightarrow> avoids step S' x z"
  by (induction rule: avoids.induct) (auto intro: avoids.intros)

lemma avoids_trans: "avoids step S x y \<Longrightarrow> avoids step S y z \<Longrightarrow> avoids step S x z"
  by (induction rule: avoids.induct) (auto intro: avoids.intros)

text \<open>A path that meets \<open>a\<close> continues, after its last visit there, without \<open>a\<close>.\<close>

lemma avoids_split:
  "avoids step S x z \<Longrightarrow>
    z = a \<or> avoids step (insert a S) x z \<or> (\<exists>y\<in>step a. avoids step (insert a S) y z)"
proof (induction rule: avoids.induct)
  case (avoids_refl x)
  then show ?case by (auto intro: avoids.avoids_refl)
next
  case (avoids_step x y z)
  then show ?case by (cases "x = a") (auto intro: avoids.avoids_step)
qed

lemma found_empty [simp]: "found_from step S {} = {}"
  by (simp add: found_from_def)

lemma found_visited: "a \<in> S \<Longrightarrow> found_from step S (insert a P) = found_from step S P"
  using avoids_start by (fastforce simp: found_from_def)

lemma found_leaf:
  "step a = {} \<Longrightarrow> a \<notin> S \<Longrightarrow> found_from step S (insert a P) = insert a (found_from step S P)"
  unfolding found_from_def by (auto intro: avoids_refl elim: avoidsE)

lemma found_expand:
  assumes "a \<notin> S"
  shows "found_from step S (insert a P) = insert a (found_from step (insert a S) (step a \<union> P))"
proof
  show "found_from step S (insert a P) \<subseteq> insert a (found_from step (insert a S) (step a \<union> P))"
    unfolding found_from_def using avoids_split [of step S _ _ a] avoids_start by fastforce
  show "insert a (found_from step (insert a S) (step a \<union> P)) \<subseteq> found_from step S (insert a P)"
    unfolding found_from_def using assms
    by (auto intro: avoids_refl avoids_step avoids_mono [OF _ subset_insertI])
qed

lemma found_closed:
  assumes "P \<subseteq> X" "\<And>x y. x \<in> X \<Longrightarrow> y \<in> step x \<Longrightarrow> y \<in> X"
  shows "found_from step S P \<subseteq> X"
proof -
  have "z \<in> X" if "avoids step S x z" "x \<in> X" for x z
    using that by (induction rule: avoids.induct) (auto intro: assms(2))
  then show ?thesis using assms(1) by (auto simp: found_from_def)
qed

definition reaches :: "('a \<Rightarrow> 'a set) \<Rightarrow> 'a \<Rightarrow> 'a \<Rightarrow> bool" where
  "reaches step x z = avoids step {} x z"

lemma reaches_refl [simp, intro]: "reaches step x x"
  by (simp add: reaches_def avoids_refl)

lemma reaches_step: "y \<in> step x \<Longrightarrow> reaches step y z \<Longrightarrow> reaches step x z"
  by (simp add: reaches_def avoids_step)

lemma reaches_trans: "reaches step x y \<Longrightarrow> reaches step y z \<Longrightarrow> reaches step x z"
  unfolding reaches_def by (rule avoids_trans)

lemma avoids_reaches: "avoids step S x z \<Longrightarrow> reaches step x z"
  unfolding reaches_def by (erule avoids_mono) simp

lemma reaches_cases: "reaches step x z \<Longrightarrow> x = z \<or> (\<exists>y\<in>step x. reaches step y z)"
  unfolding reaches_def by (auto elim: avoidsE)

lemma reaches_induct [consumes 1, case_names refl step]:
  assumes "reaches step x z" "\<And>x. P x x"
    "\<And>x y z. y \<in> step x \<Longrightarrow> reaches step y z \<Longrightarrow> P y z \<Longrightarrow> P x z"
  shows "P x z"
  using assms(1) unfolding reaches_def
  by (induction rule: avoids.induct) (auto intro: assms(2,3) simp: reaches_def)

lemma reaches_closed:
  assumes "reaches step x z" "x \<in> X" "\<And>x y. x \<in> X \<Longrightarrow> y \<in> step x \<Longrightarrow> y \<in> X"
  shows "z \<in> X"
  using assms by (induction rule: reaches_induct) auto

text \<open>A node is on a cycle when some path of at least one step leads from it back to it.\<close>

definition on_cycle :: "('a \<Rightarrow> 'a set) \<Rightarrow> 'a \<Rightarrow> bool" where
  "on_cycle step x = (\<exists>y\<in>step x. reaches step y x)"

lemma reaches_trancl:
  assumes "(y, z) \<in> {(y, z). y \<in> X \<and> y \<in> step z}\<^sup>+"
  shows "\<exists>w\<in>step z. reaches step w y"
  using assms
proof (induction rule: trancl_induct)
  case (base z)
  then show ?case by (auto intro: reaches_refl)
next
  case (step z z')
  then have "z \<in> step z'" by simp
  moreover obtain w where "w \<in> step z" "reaches step w y" using step.IH by blast
  ultimately show ?case using reaches_step by metis
qed

text \<open>In a finite set where every node has a successor, every node reaches a cycle.\<close>

lemma finite_reaches_cycle:
  assumes fin: "finite X" and succ: "\<And>x. x \<in> X \<Longrightarrow> \<exists>y\<in>step x. y \<in> X" and x: "x \<in> X"
  shows "\<exists>c\<in>X. reaches step x c \<and> on_cycle step c"
proof (rule ccontr)
  assume none: "\<not> ?thesis"
  let ?R = "{y \<in> X. reaches step x y}"
  let ?r = "{(y, z). y \<in> ?R \<and> y \<in> step z} \<inter> ?R \<times> ?R"
  have "acyclic ?r"
  proof (rule acyclicI, rule allI, rule notI)
    fix y assume cycle: "(y, y) \<in> ?r\<^sup>+"
    then have "y \<in> ?R" by (meson Int_iff SigmaD1 tranclD)
    moreover have "(y, y) \<in> {(y, z). y \<in> ?R \<and> y \<in> step z}\<^sup>+" using cycle by (rule trancl_mono) simp
    then have "on_cycle step y" using reaches_trancl [of y y ?R step] unfolding on_cycle_def by blast
    ultimately show False using none by blast
  qed
  moreover have "finite ?r" using fin by (intro finite_Int) (simp add: finite_cartesian_product)
  ultimately have wf: "wf ?r" using finite_acyclic_wf by blast
  have "x \<in> ?R" using x by simp
  then obtain z where z: "z \<in> ?R" "\<And>y. (y, z) \<in> ?r \<Longrightarrow> y \<notin> ?R" using wf wfE_min [of ?r x ?R] by blast
  obtain y where y: "y \<in> step z" "y \<in> X" using succ z(1) by blast
  have "reaches step z y" using y(1) by (rule reaches_step) simp
  then have "y \<in> ?R" using z(1) y(2) reaches_trans [of step x z y] by blast
  then show False using z y(1) by blast
qed

end
