(* ===== verification/Graph.thy ===== *)
theory Graph
  imports Ordered_Map Traversal "HOL-Library.Product_Lexorder"
begin

text \<open>The dependency graph of the calculation engine (\<open>calculation/graph.rs\<close>): formula cells, the
nodes each of them waits for, and the areas several formulas share.  This theory holds the graph
and the operations that build and query it; the theories \<open>Dense_Graph\<close>, \<open>Schedule\<close> and
\<open>Cycles\<close> hold the scheduling of its formulas.

A vector used as a stack is a list whose head is the last element of the vector.\<close>

section \<open>Nodes\<close>

type_synonym cell_id = "nat \<times> nat \<times> nat"
type_synonym area_id = nat

datatype dependency_node = Cell cell_id | Area area_id

text \<open>The derived order: cells come before areas.\<close>

instantiation dependency_node :: linorder
begin

definition less_eq_dependency_node :: "dependency_node \<Rightarrow> dependency_node \<Rightarrow> bool" where
  "less_eq_dependency_node m n =
    (case (m, n) of (Cell c, Cell d) \<Rightarrow> c \<le> d | (Cell _, Area _) \<Rightarrow> True
      | (Area _, Cell _) \<Rightarrow> False | (Area a, Area b) \<Rightarrow> a \<le> b)"

definition less_dependency_node :: "dependency_node \<Rightarrow> dependency_node \<Rightarrow> bool" where
  "less_dependency_node m n = (m \<le> n \<and> \<not> n \<le> (m :: dependency_node))"

instance
  by standard
    (auto simp: less_eq_dependency_node_def less_dependency_node_def split: dependency_node.splits)

end

fun area_of :: "dependency_node \<Rightarrow> area_id option" where
  "area_of (Area a) = Some a"
| "area_of (Cell _) = None"

section \<open>The graph\<close>

record dependency_graph =
  dg_formulas :: "(cell_id \<times> dependency_node list) list"
  dg_areas :: "dependency_node list list"
  dg_area_edges :: nat

definition graph_default :: dependency_graph where
  "graph_default = \<lparr>dg_formulas = [], dg_areas = [], dg_area_edges = 0\<rparr>"

definition graph_insert :: "cell_id \<Rightarrow> dependency_node list \<Rightarrow> dependency_graph \<Rightarrow> dependency_graph" where
  "graph_insert formula nodes g =
    g\<lparr>dg_formulas := map_insert formula (remdups_adj (sort nodes)) (dg_formulas g)\<rparr>"

definition graph_remove :: "cell_id \<Rightarrow> dependency_graph \<Rightarrow> dependency_graph" where
  "graph_remove formula g = g\<lparr>dg_formulas := map_remove formula (dg_formulas g)\<rparr>"

definition edge_count :: "dependency_graph \<Rightarrow> nat" where
  "edge_count g = sum_list (map (\<lambda>(_, nodes). length nodes) (dg_formulas g)) + dg_area_edges g"

definition insert_cells :: "cell_id \<Rightarrow> cell_id list \<Rightarrow> dependency_graph \<Rightarrow> dependency_graph" where
  "insert_cells formula cells g = graph_insert formula (map Cell cells) g"

text \<open>\<open>None\<close> is the panic on an area count beyond \<open>u32\<close>.\<close>

definition add_area ::
  "dependency_node list \<Rightarrow> dependency_graph \<Rightarrow> (dependency_graph \<times> dependency_node) option" where
  "add_area members g =
    (if length (dg_areas g) < u32_bound
     then Some (g\<lparr>dg_areas := dg_areas g @ [members], dg_area_edges := dg_area_edges g + length members\<rparr>,
       Area (length (dg_areas g)))
     else None)"

text \<open>\<open>with_sheets\<close>: every cell moves to the sheet its sheet is mapped to.\<close>

fun sheet_node :: "(nat \<Rightarrow> nat option) \<Rightarrow> dependency_node \<Rightarrow> dependency_node option" where
  "sheet_node sheet (Cell (s, row, column)) = map_option (\<lambda>s'. Cell (s', row, column)) (sheet s)"
| "sheet_node sheet (Area a) = Some (Area a)"

definition sheet_nodes :: "(nat \<Rightarrow> nat option) \<Rightarrow> dependency_node list \<Rightarrow> dependency_node list" where
  "sheet_nodes sheet nodes = sort (List.map_filter (sheet_node sheet) nodes)"

definition sheet_formula ::
  "(nat \<Rightarrow> nat option) \<Rightarrow> cell_id \<times> dependency_node list \<Rightarrow> (cell_id \<times> dependency_node list) option" where
  "sheet_formula sheet entry =
    (case entry of ((s, row, column), waits) \<Rightarrow>
      map_option (\<lambda>s'. ((s', row, column), sheet_nodes sheet waits)) (sheet s))"

definition with_sheets :: "(nat \<Rightarrow> nat option) \<Rightarrow> dependency_graph \<Rightarrow> dependency_graph" where
  "with_sheets sheet g =
    (let areas = map (sheet_nodes sheet) (dg_areas g)
     in \<lparr>dg_formulas = map_collect (List.map_filter (sheet_formula sheet) (dg_formulas g)),
         dg_areas = areas, dg_area_edges = sum_list (map length areas)\<rparr>)"

text \<open>\<open>retain_referenced_areas\<close>: the loop that marks the areas a formula waits for.  \<open>None\<close> is the
panic on an area that is not in the graph.\<close>

function mark_areas :: "dependency_node list list \<Rightarrow> bool list \<Rightarrow> area_id list \<Rightarrow> bool list option" where
  "mark_areas areas referenced [] = Some referenced"
| "mark_areas areas referenced (area # pending) =
    (if \<not> (area < length referenced \<and> area < length areas) then None
     else if referenced ! area then mark_areas areas referenced pending
     else mark_areas areas (referenced[area := True])
       (rev (List.map_filter area_of (areas ! area)) @ pending))"
  by pat_completeness auto

fun renumber_kept :: "area_id \<Rightarrow> bool list \<Rightarrow> area_id option list" where
  "renumber_kept n [] = []"
| "renumber_kept n (kept # referenced) =
    (if kept then Some n # renumber_kept (n + 1) referenced else None # renumber_kept n referenced)"

fun renumber_node :: "area_id option list \<Rightarrow> dependency_node \<Rightarrow> dependency_node option" where
  "renumber_node renumbered (Cell c) = Some (Cell c)"
| "renumber_node renumbered (Area a) =
    (if a < length renumbered then map_option Area (renumbered ! a) else None)"

definition renumber_formula ::
  "area_id option list \<Rightarrow> cell_id \<times> dependency_node list \<Rightarrow> (cell_id \<times> dependency_node list) option" where
  "renumber_formula renumbered entry =
    map_option (Pair (fst entry)) (map_all (renumber_node renumbered) (snd entry))"

definition retain_referenced_areas ::
  "dependency_graph \<Rightarrow> (dependency_graph \<times> area_id option list) option" where
  "retain_referenced_areas g =
    Option.bind
      (mark_areas (dg_areas g) (replicate (length (dg_areas g)) False)
        (rev (List.map_filter area_of (concat (map snd (dg_formulas g))))))
      (\<lambda>referenced.
        let renumbered = renumber_kept 0 referenced;
          kept = map fst (filter snd (zip (dg_areas g) referenced))
        in if length kept = length (dg_areas g) then Some (g, renumbered)
          else Option.bind (map_all (map_all (renumber_node renumbered)) kept)
            (\<lambda>areas. Option.bind (map_all (renumber_formula renumbered) (dg_formulas g))
              (\<lambda>formulas. Some (\<lparr>dg_formulas = formulas, dg_areas = areas,
                dg_area_edges = sum_list (map length areas)\<rparr>, renumbered))))"

definition dependencies :: "dependency_graph \<Rightarrow> cell_id \<Rightarrow> dependency_node list option" where
  "dependencies g formula = map_get (dg_formulas g) formula"

definition area_count :: "dependency_graph \<Rightarrow> nat" where
  "area_count g = length (dg_areas g)"

text \<open>\<open>None\<close> is the panic on an index out of range.\<close>

definition area :: "dependency_graph \<Rightarrow> area_id \<Rightarrow> dependency_node list option" where
  "area g a = (if a < length (dg_areas g) then Some (dg_areas g ! a) else None)"

text \<open>The two traversals share the set of visited areas; the cells of \<open>count_cells\<close> are a list
without repetition.\<close>

function count_cells_loop ::
  "dependency_graph \<Rightarrow> nat \<Rightarrow> cell_id list \<Rightarrow> area_id list \<Rightarrow> dependency_node list \<Rightarrow> nat option" where
  "count_cells_loop g limit cells seen [] = Some (length cells)"
| "count_cells_loop g limit cells seen (Cell c # pending) =
    (let cells' = List.insert c cells
     in if limit \<le> length cells' then Some (length cells')
        else count_cells_loop g limit cells' seen pending)"
| "count_cells_loop g limit cells seen (Area a # pending) =
    (if a \<in> set seen then count_cells_loop g limit cells seen pending
     else case area g a of None \<Rightarrow> None
       | Some members \<Rightarrow> count_cells_loop g limit cells (a # seen) (rev members @ pending))"
  by pat_completeness auto

definition count_cells :: "dependency_graph \<Rightarrow> dependency_node list \<Rightarrow> nat \<Rightarrow> nat option" where
  "count_cells g nodes limit = count_cells_loop g limit [] [] (rev nodes)"

function any_dependency_loop ::
  "dependency_graph \<Rightarrow> (cell_id \<Rightarrow> bool) \<Rightarrow> area_id list \<Rightarrow> dependency_node list \<Rightarrow> bool option" where
  "any_dependency_loop g found seen [] = Some False"
| "any_dependency_loop g found seen (Cell c # pending) =
    (if found c then Some True else any_dependency_loop g found seen pending)"
| "any_dependency_loop g found seen (Area a # pending) =
    (if a \<in> set seen then any_dependency_loop g found seen pending
     else case area g a of None \<Rightarrow> None
       | Some members \<Rightarrow> any_dependency_loop g found (a # seen) (rev members @ pending))"
  by pat_completeness auto

definition any_dependency :: "dependency_graph \<Rightarrow> cell_id \<Rightarrow> (cell_id \<Rightarrow> bool) \<Rightarrow> bool option" where
  "any_dependency g formula found =
    (case map_get (dg_formulas g) formula of None \<Rightarrow> Some False
      | Some nodes \<Rightarrow> any_dependency_loop g found [] (rev nodes))"

section \<open>Termination\<close>

text \<open>An area is expanded once: the areas not yet seen decrease, or the stack does.\<close>

definition unseen_areas :: "dependency_graph \<Rightarrow> area_id list \<Rightarrow> nat" where
  "unseen_areas g seen = card ({..<length (dg_areas g)} - set seen)"

lemma unseen_areas_less:
  assumes "area g a = Some members" "a \<notin> set seen"
  shows "unseen_areas g (a # seen) < unseen_areas g seen"
  unfolding unseen_areas_def
  by (rule psubset_card_mono) (use assms in \<open>auto simp: area_def split: if_splits\<close>)

termination count_cells_loop
  by (relation "measures [\<lambda>(g, _, _, seen, _). unseen_areas g seen, \<lambda>(_, _, _, _, p). length p]")
    (auto simp: unseen_areas_less)

termination any_dependency_loop
  by (relation "measures [\<lambda>(g, _, seen, _). unseen_areas g seen, \<lambda>(_, _, _, p). length p]")
    (auto simp: unseen_areas_less)

lemma unmarked_less:
  "i < length bs \<Longrightarrow> \<not> bs ! i \<Longrightarrow> length (filter Not (bs[i := True])) < length (filter Not bs)"
proof (induction bs arbitrary: i)
  case (Cons b bs)
  then show ?case by (cases i) auto
qed simp

termination mark_areas
  by (relation "measures [\<lambda>(_, r, _). length (filter Not r), \<lambda>(_, _, p). length p]")
    (auto simp: unmarked_less)

section \<open>Well-formed graphs\<close>

text \<open>The formulas are in cell order, every area a node names is in the graph, an area holds only
areas added before it, and the member count is kept.\<close>

definition nodes_ok :: "nat \<Rightarrow> dependency_node list \<Rightarrow> bool" where
  "nodes_ok n nodes = (\<forall>a\<in>set (List.map_filter area_of nodes). a < n)"

definition graph_ok :: "dependency_graph \<Rightarrow> bool" where
  "graph_ok g =
    (map_ok (dg_formulas g) \<and>
     (\<forall>(_, nodes)\<in>set (dg_formulas g). nodes_ok (length (dg_areas g)) nodes) \<and>
     (\<forall>i<length (dg_areas g). nodes_ok i (dg_areas g ! i)) \<and>
     dg_area_edges g = sum_list (map length (dg_areas g)))"

lemma area_of_Some [simp]: "area_of n = Some a \<longleftrightarrow> n = Area a"
  by (cases n) auto

lemma set_map_filter_area: "set (List.map_filter area_of nodes) = {a. Area a \<in> set nodes}"
  by (auto simp: List.map_filter_def image_iff) force

lemma nodes_ok_iff: "nodes_ok n nodes \<longleftrightarrow> (\<forall>a. Area a \<in> set nodes \<longrightarrow> a < n)"
  by (auto simp: nodes_ok_def set_map_filter_area)

lemma nodes_ok_mono: "nodes_ok n nodes \<Longrightarrow> n \<le> n' \<Longrightarrow> nodes_ok n' nodes"
  by (auto simp: nodes_ok_iff)

lemma nodes_ok_cong: "set nodes = set nodes' \<Longrightarrow> nodes_ok n nodes = nodes_ok n nodes'"
  by (simp add: nodes_ok_iff)

lemma graph_ok_areaD: "graph_ok g \<Longrightarrow> i < length (dg_areas g) \<Longrightarrow> nodes_ok i (dg_areas g ! i)"
  by (simp add: graph_ok_def)

lemma graph_ok_formulaD:
  "graph_ok g \<Longrightarrow> map_get (dg_formulas g) c = Some nodes \<Longrightarrow> nodes_ok (length (dg_areas g)) nodes"
  by (fastforce simp: graph_ok_def map_get_Some_entry)

lemma graph_ok_sorted: "graph_ok g \<Longrightarrow> map_ok (dg_formulas g)"
  by (simp add: graph_ok_def)

lemma formulas_ok_get:
  "map_ok m \<Longrightarrow> (\<forall>(c, nodes)\<in>set m. P nodes) \<longleftrightarrow> (\<forall>c nodes. map_get m c = Some nodes \<longrightarrow> P nodes)"
  by (fastforce simp: map_get_Some_entry)

lemma graph_ok_get:
  "graph_ok g \<longleftrightarrow> map_ok (dg_formulas g) \<and>
    (\<forall>c nodes. map_get (dg_formulas g) c = Some nodes \<longrightarrow> nodes_ok (length (dg_areas g)) nodes) \<and>
    (\<forall>i<length (dg_areas g). nodes_ok i (dg_areas g ! i)) \<and>
    dg_area_edges g = sum_list (map length (dg_areas g))"
  unfolding graph_ok_def using formulas_ok_get [of "dg_formulas g"] by blast

lemma graph_ok_default: "graph_ok graph_default"
  by (simp add: graph_ok_def graph_default_def btree.ok_empty)

lemma graph_ok_insert:
  assumes "graph_ok g" "nodes_ok (length (dg_areas g)) nodes"
  shows "graph_ok (graph_insert formula nodes g)"
proof -
  have "nodes_ok (length (dg_areas g)) (remdups_adj (sort nodes))"
    using assms(2) nodes_ok_cong [of "remdups_adj (sort nodes)" nodes] by simp
  then show ?thesis
    using assms(1) unfolding graph_ok_get graph_insert_def
    by (auto simp add: btree.ok_insert btree.get_insert simp del: split_paired_All split: if_splits)
qed

lemma graph_ok_remove: "graph_ok g \<Longrightarrow> graph_ok (graph_remove formula g)"
  unfolding graph_ok_get graph_remove_def
  by (auto simp add: btree.ok_remove btree.get_remove simp del: split_paired_All split: if_splits)

lemma graph_ok_insert_cells: "graph_ok g \<Longrightarrow> graph_ok (insert_cells formula cells g)"
  unfolding insert_cells_def by (rule graph_ok_insert) (auto simp: nodes_ok_iff)

lemma graph_ok_add_area:
  assumes "graph_ok g" "nodes_ok (length (dg_areas g)) members" "add_area members g = Some (g', n)"
  shows "graph_ok g' \<and> nodes_ok (length (dg_areas g')) [n]"
  using assms unfolding graph_ok_def add_area_def
  by (auto simp: nth_append less_Suc_eq nodes_ok_iff split: if_splits) (fastforce simp: nodes_ok_iff)

section \<open>The cells a node stands for\<close>

definition graph_step :: "dependency_graph \<Rightarrow> dependency_node \<Rightarrow> dependency_node set" where
  "graph_step g n =
    (case n of Cell _ \<Rightarrow> {} | Area a \<Rightarrow> if a < length (dg_areas g) then set (dg_areas g ! a) else {})"

definition cells_under :: "dependency_graph \<Rightarrow> dependency_node list \<Rightarrow> cell_id set" where
  "cells_under g nodes = {c. \<exists>n\<in>set nodes. reaches (graph_step g) n (Cell c)}"

lemma graph_step_simps [simp]:
  "graph_step g (Cell c) = {}"
  "a < length (dg_areas g) \<Longrightarrow> graph_step g (Area a) = set (dg_areas g ! a)"
  by (auto simp: graph_step_def)

definition pending_cells :: "dependency_graph \<Rightarrow> area_id list \<Rightarrow> dependency_node list \<Rightarrow> cell_id set" where
  "pending_cells g seen pending = {c. Cell c \<in> found_from (graph_step g) (Area ` set seen) (set pending)}"

lemma pending_nil [simp]: "pending_cells g seen [] = {}"
  by (simp add: pending_cells_def)

lemma pending_cell [simp]:
  "pending_cells g seen (Cell c # pending) = insert c (pending_cells g seen pending)"
  using found_leaf [of "graph_step g" "Cell c" "Area ` set seen" "set pending"]
  by (auto simp: pending_cells_def image_iff)

lemma pending_seen:
  "a \<in> set seen \<Longrightarrow> pending_cells g seen (Area a # pending) = pending_cells g seen pending"
  by (simp add: pending_cells_def found_visited)

lemma pending_area:
  assumes "a \<notin> set seen" "a < length (dg_areas g)"
  shows "pending_cells g seen (Area a # pending) =
    pending_cells g (a # seen) (rev (dg_areas g ! a) @ pending)"
  using assms found_expand [of "Area a" "Area ` set seen" "graph_step g" "set pending"]
  by (auto simp: pending_cells_def image_iff)

lemma pending_all: "pending_cells g [] pending = cells_under g pending"
  by (auto simp: pending_cells_def cells_under_def found_from_def reaches_def)

lemma pending_ok:
  "graph_ok g \<Longrightarrow> a < length (dg_areas g) \<Longrightarrow> nodes_ok (length (dg_areas g)) pending \<Longrightarrow>
    nodes_ok (length (dg_areas g)) (rev (dg_areas g ! a) @ pending)"
  using nodes_ok_mono [OF graph_ok_areaD] by (fastforce simp: nodes_ok_iff)

lemma nodes_ok_Cons:
  "nodes_ok n (Cell c # ns) = nodes_ok n ns" "nodes_ok n (Area a # ns) = (a < n \<and> nodes_ok n ns)"
  by (auto simp: nodes_ok_iff)

lemma any_dependency_loop_correct:
  assumes "graph_ok g" "nodes_ok (length (dg_areas g)) pending"
  shows "any_dependency_loop g found seen pending =
    Some (\<exists>c\<in>pending_cells g seen pending. found c)"
  using assms
proof (induction g found seen pending rule: any_dependency_loop.induct)
  case (3 g found seen a pending)
  then show ?case
    by (auto simp: area_def nodes_ok_Cons pending_ok pending_seen pending_area)
qed (auto simp: nodes_ok_Cons)

lemma any_dependency_correct:
  assumes "graph_ok g" "map_get (dg_formulas g) formula = Some nodes"
  shows "any_dependency g formula found = Some (\<exists>c\<in>cells_under g nodes. found c)"
proof -
  have "nodes_ok (length (dg_areas g)) (rev nodes)"
    using graph_ok_formulaD [OF assms] by (simp add: nodes_ok_iff)
  then show ?thesis
    using any_dependency_loop_correct [OF assms(1), of "rev nodes" found "[]"] assms(2)
    by (simp add: any_dependency_def pending_all cells_under_def)
qed

lemma finite_pending: "finite (pending_cells g seen pending)"
proof -
  let ?X = "set pending \<union> (\<Union>m\<in>set (dg_areas g). set m)"
  have "found_from (graph_step g) (Area ` set seen) (set pending) \<subseteq> ?X"
    by (rule found_closed) (auto simp: graph_step_def split: dependency_node.splits if_splits)
  moreover have "finite ?X" by simp
  ultimately have "finite {n \<in> range Cell. n \<in> found_from (graph_step g) (Area ` set seen) (set pending)}"
    by (simp add: finite_subset)
  then have "finite (Cell -` {n \<in> range Cell. n \<in> found_from (graph_step g) (Area ` set seen) (set pending)})"
    by (rule finite_vimageI) (simp add: inj_def)
  then show ?thesis by (simp add: pending_cells_def vimage_def)
qed

lemma count_cells_loop_correct:
  assumes "graph_ok g" "nodes_ok (length (dg_areas g)) pending" "distinct cells" "length cells < limit"
  shows "count_cells_loop g limit cells seen pending =
    Some (min limit (card (set cells \<union> pending_cells g seen pending)))"
  using assms
proof (induction g limit cells seen pending rule: count_cells_loop.induct)
  case (1 g limit cells seen)
  then show ?case by (simp add: distinct_card)
next
  case (2 g limit cells seen c pending)
  let ?cells = "List.insert c cells"
  have eq: "set cells \<union> pending_cells g seen (Cell c # pending) = set ?cells \<union> pending_cells g seen pending"
    by auto
  have d: "distinct ?cells" "card (set ?cells) = length ?cells" "length ?cells \<le> limit"
    using 2(4,5) by (auto simp: distinct_card List.insert_def)
  have "card (set ?cells) \<le> card (set ?cells \<union> pending_cells g seen pending)"
    by (rule card_mono) (auto simp: finite_pending)
  then show ?case
    unfolding eq using 2 d by (simp add: Let_def nodes_ok_Cons)
next
  case (3 g limit cells seen a pending)
  then show ?case
    by (auto simp: area_def nodes_ok_Cons pending_ok pending_seen pending_area)
qed

lemma count_cells_correct:
  assumes "graph_ok g" "nodes_ok (length (dg_areas g)) nodes" "0 < limit"
  shows "count_cells g nodes limit = Some (min limit (card (cells_under g nodes)))"
  using count_cells_loop_correct [OF assms(1), of "rev nodes" "[]" limit "[]"] assms(2,3)
  by (simp add: count_cells_def pending_all nodes_ok_iff cells_under_def)

section \<open>Moving sheets\<close>

lemma set_sheet_nodes: "set (sheet_nodes sheet nodes) = {m. \<exists>n\<in>set nodes. sheet_node sheet n = Some m}"
  by (simp add: sheet_nodes_def set_map_filter)

lemma sheet_node_Area [simp]: "sheet_node sheet n = Some (Area a) \<longleftrightarrow> n = Area a"
  by (cases "(sheet, n)" rule: sheet_node.cases) auto

lemma nodes_ok_sheet_nodes: "nodes_ok k nodes \<Longrightarrow> nodes_ok k (sheet_nodes sheet nodes)"
  by (auto simp: nodes_ok_iff set_sheet_nodes)

lemma with_sheets_fields:
  "dg_areas (with_sheets sheet g) = map (sheet_nodes sheet) (dg_areas g)"
  "dg_formulas (with_sheets sheet g) = map_collect (List.map_filter (sheet_formula sheet) (dg_formulas g))"
  "dg_area_edges (with_sheets sheet g) = sum_list (map length (dg_areas (with_sheets sheet g)))"
  by (simp_all add: with_sheets_def Let_def)

lemma graph_ok_with_sheets:
  assumes "graph_ok g"
  shows "graph_ok (with_sheets sheet g)"
proof -
  let ?entries = "List.map_filter (sheet_formula sheet) (dg_formulas g)"
  have "nodes_ok (length (dg_areas g)) nodes" if get: "map_get (map_collect ?entries) c = Some nodes" for c nodes
  proof -
    have "(c, nodes) \<in> set ?entries"
      using map_of_SomeD [of "rev ?entries" c nodes] get by (simp add: map_get_collect)
    then obtain waits c' where "(c', waits) \<in> set (dg_formulas g)" "nodes = sheet_nodes sheet waits"
      by (auto simp: set_map_filter sheet_formula_def split: prod.splits)
    then show ?thesis using assms nodes_ok_sheet_nodes by (fastforce simp: graph_ok_def)
  qed
  then show ?thesis using assms unfolding graph_ok_get
    by (simp add: with_sheets_fields map_collect_sorted nodes_ok_sheet_nodes)
qed

lemma with_sheets_step:
  assumes "sheet_node sheet n = Some n'"
  shows "graph_step (with_sheets sheet g) n' = {m'. \<exists>m\<in>graph_step g n. sheet_node sheet m = Some m'}"
proof (cases n)
  case (Area a)
  then have "n' = Area a" using assms by simp
  then show ?thesis using Area
    by (cases "a < length (dg_areas g)") (simp_all add: graph_step_def with_sheets_fields set_sheet_nodes)
next
  case (Cell c)
  then show ?thesis using assms by (cases c) auto
qed

lemma with_sheets_reaches:
  assumes "sheet_node sheet n = Some n'"
  shows "reaches (graph_step (with_sheets sheet g)) n' m' \<longleftrightarrow>
    (\<exists>m. reaches (graph_step g) n m \<and> sheet_node sheet m = Some m')"
proof
  show "\<exists>m. reaches (graph_step g) n m \<and> sheet_node sheet m = Some m'"
    if "reaches (graph_step (with_sheets sheet g)) n' m'"
    using that assms
  proof (induction arbitrary: n rule: reaches_induct)
    case (step x y z)
    then obtain m where "m \<in> graph_step g n" "sheet_node sheet m = Some y"
      using with_sheets_step by blast
    then show ?case using step.IH reaches_step by metis
  qed auto
next
  assume "\<exists>m. reaches (graph_step g) n m \<and> sheet_node sheet m = Some m'"
  then obtain m where "reaches (graph_step g) n m" "sheet_node sheet m = Some m'" by blast
  then show "reaches (graph_step (with_sheets sheet g)) n' m'"
    using assms
  proof (induction arbitrary: n' rule: reaches_induct)
    case (step x y z)
    obtain a where x: "x = Area a" using step.hyps(1) by (cases x) auto
    have "sheet_node sheet y \<noteq> None"
    proof (cases y)
      case (Cell c)
      then show ?thesis using step.hyps(2) step.prems(1) reaches_cases by fastforce
    qed auto
    then obtain y' where y': "sheet_node sheet y = Some y'" by blast
    then have "y' \<in> graph_step (with_sheets sheet g) n'"
      using with_sheets_step [OF step.prems(2)] step.hyps(1) by blast
    then show ?case using step.IH [OF step.prems(1) y'] reaches_step by metis
  qed auto
qed

lemma with_sheets_cells_under:
  "cells_under (with_sheets sheet g) (sheet_nodes sheet nodes) =
    {(s', row, column) | s s' row column. (s, row, column) \<in> cells_under g nodes \<and> sheet s = Some s'}"
proof -
  have moved: "sheet_node sheet m = Some (Cell (s', row, column)) \<longleftrightarrow>
      (\<exists>s. m = Cell (s, row, column) \<and> sheet s = Some s')" for m s' row column
    by (cases "(sheet, m)" rule: sheet_node.cases) auto
  have "(s', row, column) \<in> cells_under (with_sheets sheet g) (sheet_nodes sheet nodes) \<longleftrightarrow>
      (\<exists>s. (s, row, column) \<in> cells_under g nodes \<and> sheet s = Some s')" for s' row column
  proof
    assume "(s', row, column) \<in> cells_under (with_sheets sheet g) (sheet_nodes sheet nodes)"
    then show "\<exists>s. (s, row, column) \<in> cells_under g nodes \<and> sheet s = Some s'"
      unfolding cells_under_def by (auto simp: set_sheet_nodes with_sheets_reaches moved; blast)
  next
    assume "\<exists>s. (s, row, column) \<in> cells_under g nodes \<and> sheet s = Some s'"
    then obtain s n where s: "sheet s = Some s'" and n: "n \<in> set nodes"
      and r: "reaches (graph_step g) n (Cell (s, row, column))" by (auto simp: cells_under_def)
    have "\<exists>n'. sheet_node sheet n = Some n'"
    proof (cases n)
      case (Cell c)
      then show ?thesis using r s reaches_cases [OF r] by auto
    qed auto
    then obtain n' where n': "sheet_node sheet n = Some n'" by blast
    have "reaches (graph_step (with_sheets sheet g)) n' (Cell (s', row, column))"
      using r s by (auto simp: with_sheets_reaches [OF n'] moved)
    then show "(s', row, column) \<in> cells_under (with_sheets sheet g) (sheet_nodes sheet nodes)"
      using n n' by (auto simp: cells_under_def set_sheet_nodes)
  qed
  then show ?thesis by auto
qed

section \<open>Dropping unreferenced areas\<close>

definition marked :: "bool list \<Rightarrow> dependency_node set" where
  "marked referenced = {Area a | a. a < length referenced \<and> referenced ! a}"

lemma marked_update:
  "a < length referenced \<Longrightarrow> marked (referenced[a := True]) = insert (Area a) (marked referenced)"
  by (auto simp: marked_def nth_list_update split: if_splits)

text \<open>Cells have no successors, so the areas found do not depend on the cells pending.\<close>

lemma found_areas_of:
  "Area b \<in> found_from (graph_step g) S (set nodes \<union> P) \<longleftrightarrow>
    Area b \<in> found_from (graph_step g) S (Area ` set (List.map_filter area_of nodes) \<union> P)"
proof -
  have "x \<in> set nodes \<union> P \<longleftrightarrow> x \<in> Area ` {a. Area a \<in> set nodes} \<union> P"
    if "avoids (graph_step g) S x (Area b)" for x
    using that by (cases x) (auto elim: avoidsE)
  then show ?thesis unfolding found_from_def set_map_filter_area by blast
qed

lemma mark_areas_correct:
  assumes "graph_ok g" "areas = dg_areas g" "length referenced = length areas"
    "\<forall>a\<in>set pending. a < length areas"
  shows "\<exists>r. mark_areas areas referenced pending = Some r \<and> length r = length areas \<and>
    (\<forall>b<length areas. r ! b \<longleftrightarrow> referenced ! b \<or>
      Area b \<in> found_from (graph_step g) (marked referenced) (Area ` set pending))"
  using assms
proof (induction areas referenced pending rule: mark_areas.induct)
  case (2 areas referenced a pending)
  have a: "a < length areas" "a < length referenced" using 2 by auto
  show ?case
  proof (cases "referenced ! a")
    case True
    then have "Area a \<in> marked referenced" using a by (simp add: marked_def)
    then show ?thesis using 2(1) True a 2(3-) by (auto simp: found_visited)
  next
    case False
    let ?members = "List.map_filter area_of (areas ! a)"
    have "Area a \<notin> marked referenced" using False by (simp add: marked_def)
    then have found: "Area b \<in> found_from (graph_step g) (marked referenced) (Area ` set (a # pending)) \<longleftrightarrow>
        b = a \<or> Area b \<in> found_from (graph_step g) (marked (referenced[a := True]))
          (Area ` set (rev ?members @ pending))" for b
      using found_expand [of "Area a" "marked referenced" "graph_step g" "Area ` set pending"]
        found_areas_of [of b g "insert (Area a) (marked referenced)" "areas ! a" "Area ` set pending"] a 2(4)
      by (auto simp: marked_update image_Un)
    have "\<forall>b\<in>set (rev ?members @ pending). b < length areas"
      using graph_ok_areaD [OF 2(3)] a 2(4,6) by (auto simp: nodes_ok_def) (metis less_trans)
    then show ?thesis
      using 2(2) [OF _ False 2(3,4)] a False 2(5)
      unfolding found by (auto simp: nth_list_update)
  qed
qed simp

definition rank :: "bool list \<Rightarrow> area_id \<Rightarrow> area_id" where
  "rank referenced a = length (filter id (take a referenced))"

lemma renumber_kept_nth:
  "a < length referenced \<Longrightarrow>
    renumber_kept n referenced ! a = (if referenced ! a then Some (n + rank referenced a) else None)"
proof (induction n referenced arbitrary: a rule: renumber_kept.induct)
  case (2 n kept referenced)
  then show ?case by (cases a) (auto simp: rank_def)
qed simp

lemma length_renumber_kept [simp]: "length (renumber_kept n referenced) = length referenced"
  by (induction n referenced rule: renumber_kept.induct) auto

lemma rank_less:
  assumes "a < b" "b \<le> length referenced" "referenced ! a"
  shows "rank referenced a < rank referenced b"
proof -
  have "take b referenced = take a referenced @ take (b - a) (drop a referenced)"
    using assms(1) by (metis le_add_diff_inverse less_imp_le_nat take_add)
  moreover have "drop a referenced = True # drop (Suc a) referenced"
    using assms by (metis (full_types) Cons_nth_drop_Suc order_less_le_trans)
  ultimately show ?thesis using assms(1) by (cases "b - a") (auto simp: rank_def)
qed

lemma kept_nth:
  "length xs = length referenced \<Longrightarrow> a < length referenced \<Longrightarrow> referenced ! a \<Longrightarrow>
    fst (filter snd (zip xs referenced) ! rank referenced a) = xs ! a
    \<and> rank referenced a < length (filter snd (zip xs referenced))"
proof (induction xs referenced arbitrary: a rule: list_induct2)
  case (Cons x xs r rs)
  then show ?case by (cases a) (auto simp: rank_def)
qed simp

lemma kept_index:
  "length xs = length referenced \<Longrightarrow> j < length (filter snd (zip xs referenced)) \<Longrightarrow>
    \<exists>a<length referenced. referenced ! a \<and> rank referenced a = j"
proof (induction xs referenced arbitrary: j rule: list_induct2)
  case (Cons x xs r rs)
  show ?case
  proof (cases "r \<and> j = 0")
    case True
    then show ?thesis by (intro exI [of _ 0]) (auto simp: rank_def)
  next
    case False
    then have "(if r then j - 1 else j) < length (filter snd (zip xs rs))"
      using Cons.prems by (cases j) (auto split: if_splits)
    then obtain a where "a < length rs" "rs ! a" "rank rs a = (if r then j - 1 else j)"
      using Cons.IH by blast
    then show ?thesis using False by (intro exI [of _ "Suc a"]) (auto simp: rank_def split: if_splits)
  qed
qed simp

text \<open>The marks the loop ends with, and the graph renumbered by them.\<close>

definition closed_marks :: "dependency_graph \<Rightarrow> bool list \<Rightarrow> bool" where
  "closed_marks g r =
    (length r = length (dg_areas g) \<and>
     (\<forall>(c, nodes)\<in>set (dg_formulas g). \<forall>a. Area a \<in> set nodes \<longrightarrow> a < length r \<and> r ! a) \<and>
     (\<forall>a<length r. r ! a \<longrightarrow> (\<forall>b. Area b \<in> set (dg_areas g ! a) \<longrightarrow> b < length r \<and> r ! b)))"

fun node_marked :: "bool list \<Rightarrow> dependency_node \<Rightarrow> bool" where
  "node_marked r (Cell c) = True"
| "node_marked r (Area a) = (a < length r \<and> r ! a)"

fun rank_node :: "bool list \<Rightarrow> dependency_node \<Rightarrow> dependency_node" where
  "rank_node r (Cell c) = Cell c"
| "rank_node r (Area a) = Area (rank r a)"

definition ranked :: "dependency_graph \<Rightarrow> bool list \<Rightarrow> dependency_graph" where
  "ranked g r =
    \<lparr>dg_formulas = map (\<lambda>(c, nodes). (c, map (rank_node r) nodes)) (dg_formulas g),
     dg_areas = map (map (rank_node r) \<circ> fst) (filter snd (zip (dg_areas g) r)),
     dg_area_edges = sum_list (map (length \<circ> fst) (filter snd (zip (dg_areas g) r)))\<rparr>"

lemma renumber_node_marked:
  "node_marked r n \<Longrightarrow> renumber_node (renumber_kept 0 r) n = Some (rank_node r n)"
  by (cases n) (auto simp: renumber_kept_nth)

lemma kept_entry:
  assumes "length xs = length r" "entry \<in> set (filter snd (zip xs r))"
  shows "\<exists>a<length r. r ! a \<and> fst entry = xs ! a"
  using assms by (auto simp: in_set_zip)

lemma closed_marks_formula:
  "closed_marks g r \<Longrightarrow> (c, nodes) \<in> set (dg_formulas g) \<Longrightarrow> n \<in> set nodes \<Longrightarrow> node_marked r n"
  by (cases n; simp) (unfold closed_marks_def, blast)

lemma closed_marks_area:
  "closed_marks g r \<Longrightarrow> a < length r \<Longrightarrow> r ! a \<Longrightarrow> n \<in> set (dg_areas g ! a) \<Longrightarrow> node_marked r n"
  by (cases n; simp) (unfold closed_marks_def, blast)

lemma closed_marks_length: "closed_marks g r \<Longrightarrow> length (dg_areas g) = length r"
  by (simp add: closed_marks_def)

lemma retain_by_marks:
  assumes marks: "closed_marks g r"
    and run: "mark_areas (dg_areas g) (replicate (length (dg_areas g)) False)
      (rev (List.map_filter area_of (concat (map snd (dg_formulas g))))) = Some r"
  shows "retain_referenced_areas g =
    Some (if length (filter snd (zip (dg_areas g) r)) = length (dg_areas g) then g else ranked g r,
      renumber_kept 0 r)"
proof -
  let ?ren = "renumber_node (renumber_kept 0 r)"
  let ?kept = "map fst (filter snd (zip (dg_areas g) r))"
  have len: "length (dg_areas g) = length r" using marks by (rule closed_marks_length)
  have "map_all ?ren members = Some (map (rank_node r) members)" if mem: "members \<in> set ?kept" for members
  proof -
    obtain a where a: "a < length r" "r ! a" "members = dg_areas g ! a"
      using mem kept_entry [OF len] by (auto simp del: set_filter)
    show ?thesis
      using closed_marks_area [OF marks a(1,2)] a(3)
      by (intro map_all_Some) (auto simp: renumber_node_marked)
  qed
  then have areas: "map_all (map_all ?ren) ?kept = Some (map (map (rank_node r)) ?kept)"
    by (intro map_all_Some) blast
  have "renumber_formula (renumber_kept 0 r) entry = Some (fst entry, map (rank_node r) (snd entry))"
    if entry: "entry \<in> set (dg_formulas g)" for entry
  proof -
    have "map_all ?ren (snd entry) = Some (map (rank_node r) (snd entry))"
      using closed_marks_formula [OF marks, of "fst entry" "snd entry"] entry
      by (intro map_all_Some) (auto simp: renumber_node_marked)
    then show ?thesis by (simp add: renumber_formula_def)
  qed
  then have formulas: "map_all (renumber_formula (renumber_kept 0 r)) (dg_formulas g) =
      Some (map (\<lambda>entry. (fst entry, map (rank_node r) (snd entry))) (dg_formulas g))"
    by (intro map_all_Some) blast
  show ?thesis
    unfolding retain_referenced_areas_def run
    by (simp add: areas formulas Let_def ranked_def case_prod_unfold comp_def)
qed

lemma ranked_area:
  assumes "closed_marks g r" "a < length r" "r ! a"
  shows "rank r a < length (dg_areas (ranked g r))"
    and "dg_areas (ranked g r) ! rank r a = map (rank_node r) (dg_areas g ! a)"
  using kept_nth [of "dg_areas g" r a] assms closed_marks_length [OF assms(1)] by (auto simp: ranked_def)

lemma ranked_step:
  assumes "closed_marks g r" "node_marked r n"
  shows "graph_step (ranked g r) (rank_node r n) = rank_node r ` graph_step g n"
  using assms(2) ranked_area [OF assms(1)] closed_marks_length [OF assms(1)] by (cases n) auto

lemma marked_step:
  "closed_marks g r \<Longrightarrow> node_marked r n \<Longrightarrow> m \<in> graph_step g n \<Longrightarrow> node_marked r m"
  by (cases n) (auto simp: graph_step_def closed_marks_length dest: closed_marks_area split: if_splits)

lemma ranked_reaches:
  assumes "closed_marks g r" "node_marked r n"
  shows "reaches (graph_step (ranked g r)) (rank_node r n) m' \<longleftrightarrow>
    (\<exists>m. node_marked r m \<and> reaches (graph_step g) n m \<and> m' = rank_node r m)"
proof
  assume "reaches (graph_step (ranked g r)) (rank_node r n) m'"
  then show "\<exists>m. node_marked r m \<and> reaches (graph_step g) n m \<and> m' = rank_node r m"
    using assms(2)
  proof (induction "rank_node r n" m' arbitrary: n rule: reaches_induct)
    case (step y z)
    then obtain m where "m \<in> graph_step g n" "y = rank_node r m"
      using ranked_step [OF assms(1)] by blast
    then show ?case using step.hyps(3) [of m] step.prems marked_step [OF assms(1)] reaches_step by metis
  qed auto
next
  assume "\<exists>m. node_marked r m \<and> reaches (graph_step g) n m \<and> m' = rank_node r m"
  then obtain m where "reaches (graph_step g) n m" "m' = rank_node r m" by blast
  then show "reaches (graph_step (ranked g r)) (rank_node r n) m'"
    using assms(2)
  proof (induction rule: reaches_induct)
    case (step x y z)
    then show ?case
      using ranked_step [OF assms(1)] marked_step [OF assms(1)] reaches_step by (metis imageI)
  qed auto
qed

lemma ranked_cells_under:
  assumes "closed_marks g r" "\<forall>n\<in>set nodes. node_marked r n"
  shows "cells_under (ranked g r) (map (rank_node r) nodes) = cells_under g nodes"
proof -
  have cell: "Cell c = rank_node r m \<longleftrightarrow> m = Cell c" for c m by (cases m) auto
  show ?thesis
    using assms ranked_reaches [OF assms(1)] by (auto simp: cells_under_def cell)
qed

definition formula_nodes :: "dependency_graph \<Rightarrow> dependency_node set" where
  "formula_nodes g = (\<Union>(c, nodes)\<in>set (dg_formulas g). set nodes)"

text \<open>An area is referenced when a formula waits for it, directly or through other areas.\<close>

definition area_referenced :: "dependency_graph \<Rightarrow> area_id \<Rightarrow> bool" where
  "area_referenced g a = (\<exists>n\<in>formula_nodes g. reaches (graph_step g) n (Area a))"

lemma area_referenced_found:
  "area_referenced g b \<longleftrightarrow> Area b \<in> found_from (graph_step g) {}
    (Area ` set (rev (List.map_filter area_of (concat (map snd (dg_formulas g))))))"
proof -
  let ?nodes = "concat (map snd (dg_formulas g))"
  have "formula_nodes g = set ?nodes" by (auto simp: formula_nodes_def)
  then show ?thesis
    using found_areas_of [of b g "{}" ?nodes "{}"]
    by (auto simp: area_referenced_def found_from_def reaches_def)
qed

lemma formula_nodes_ok: "graph_ok g \<Longrightarrow> Area a \<in> formula_nodes g \<Longrightarrow> a < length (dg_areas g)"
  by (fastforce simp: formula_nodes_def graph_ok_def nodes_ok_iff)

lemma area_referenced_member:
  "area_referenced g a \<Longrightarrow> a < length (dg_areas g) \<Longrightarrow> Area b \<in> set (dg_areas g ! a) \<Longrightarrow> area_referenced g b"
  unfolding area_referenced_def
  using reaches_trans reaches_step [of "Area b" "graph_step g" "Area a", OF _ reaches_refl] by fastforce

lemma retain_marks:
  assumes "graph_ok g"
  shows "\<exists>r. mark_areas (dg_areas g) (replicate (length (dg_areas g)) False)
      (rev (List.map_filter area_of (concat (map snd (dg_formulas g))))) = Some r \<and>
    closed_marks g r \<and> (\<forall>a<length r. r ! a \<longleftrightarrow> area_referenced g a)"
proof -
  let ?pending = "rev (List.map_filter area_of (concat (map snd (dg_formulas g))))"
  have no_marks: "marked (replicate n False) = {}" for n by (auto simp: marked_def)
  have "\<forall>a\<in>set ?pending. a < length (dg_areas g)"
    using formula_nodes_ok [OF assms] by (auto simp: set_map_filter_area formula_nodes_def; blast)
  then obtain r where r: "mark_areas (dg_areas g) (replicate (length (dg_areas g)) False) ?pending = Some r"
      "length r = length (dg_areas g)"
    and mark: "\<And>b. b < length r \<Longrightarrow> r ! b \<longleftrightarrow> area_referenced g b"
    using mark_areas_correct [OF assms refl, of "replicate (length (dg_areas g)) False" ?pending]
    unfolding no_marks area_referenced_found by auto
  have "a < length r \<and> r ! a" if "(c, nodes) \<in> set (dg_formulas g)" "Area a \<in> set nodes" for c nodes a
  proof -
    have "Area a \<in> formula_nodes g" using that by (auto simp: formula_nodes_def)
    then show ?thesis using formula_nodes_ok [OF assms] mark [of a] r(2) by (auto simp: area_referenced_def)
  qed
  moreover have "b < length r \<and> r ! b" if "a < length r" "r ! a" "Area b \<in> set (dg_areas g ! a)" for a b
  proof -
    have "b < length r" using graph_ok_areaD [OF assms, of a] that r(2) by (auto simp: nodes_ok_iff)
    then show ?thesis using that mark area_referenced_member [of g a b] r(2) by simp
  qed
  ultimately have "closed_marks g r" unfolding closed_marks_def using r(2) by blast
  then show ?thesis using r mark by blast
qed

lemma graph_ok_ranked:
  assumes ok: "graph_ok g" and marks: "closed_marks g r"
  shows "graph_ok (ranked g r)"
proof -
  have "map fst (dg_formulas (ranked g r)) = map fst (dg_formulas g)"
    by (simp add: ranked_def case_prod_unfold comp_def)
  then have sorted: "map_ok (dg_formulas (ranked g r))"
    using ok by (simp add: graph_ok_def map_ok_def map_keys_def)
  have formulas: "nodes_ok (length (dg_areas (ranked g r))) nodes"
    if entry: "(c, nodes) \<in> set (dg_formulas (ranked g r))" for c nodes
  proof -
    obtain old where old: "(c, old) \<in> set (dg_formulas g)" "nodes = map (rank_node r) old"
      using entry by (auto simp: ranked_def)
    have "rank_node r n = Area a \<Longrightarrow> n \<in> set old \<Longrightarrow> a < length (dg_areas (ranked g r))" for n a
      using closed_marks_formula [OF marks old(1), of n] ranked_area(1) [OF marks] by (cases n) auto
    then show ?thesis by (auto simp: nodes_ok_iff old(2)) 
  qed
  have "nodes_ok j (dg_areas (ranked g r) ! j)" if j: "j < length (dg_areas (ranked g r))" for j
  proof -
    obtain a where a: "a < length r" "r ! a" "rank r a = j"
      using kept_index [of "dg_areas g" r j] j closed_marks_length [OF marks] by (auto simp: ranked_def)
    have "rank r b < j" if "Area b \<in> set (dg_areas g ! a)" for b
      using graph_ok_areaD [OF ok, of a] closed_marks_area [OF marks a(1,2) that] that a
        rank_less [of b a r] closed_marks_length [OF marks] by (auto simp: nodes_ok_iff)
    then have "rank_node r n = Area c \<Longrightarrow> n \<in> set (dg_areas g ! a) \<Longrightarrow> c < j" for n c
      by (cases n) auto
    then show ?thesis
      using ranked_area(2) [OF marks a(1,2)] by (auto simp: nodes_ok_iff a(3))
  qed
  moreover have "dg_area_edges (ranked g r) = sum_list (map length (dg_areas (ranked g r)))"
    by (simp add: ranked_def comp_def)
  ultimately show ?thesis
    unfolding graph_ok_def using sorted formulas by blast
qed

lemma ranked_referenced:
  assumes marks: "closed_marks g r" and all: "\<forall>a<length r. r ! a \<longrightarrow> area_referenced g a"
    and j: "j < length (dg_areas (ranked g r))"
  shows "area_referenced (ranked g r) j"
proof -
  obtain a where a: "a < length r" "r ! a" "rank r a = j"
    using kept_index [of "dg_areas g" r j] j closed_marks_length [OF marks] by (auto simp: ranked_def)
  then obtain c nodes n where n: "(c, nodes) \<in> set (dg_formulas g)" "n \<in> set nodes"
    "reaches (graph_step g) n (Area a)"
    using all by (auto simp: area_referenced_def formula_nodes_def)
  have "reaches (graph_step (ranked g r)) (rank_node r n) (Area j)"
    using ranked_reaches [OF marks closed_marks_formula [OF marks n(1,2)]] n(3) a
    by (metis node_marked.simps(2) rank_node.simps(2))
  moreover have "rank_node r n \<in> formula_nodes (ranked g r)"
    using n by (force simp: formula_nodes_def ranked_def)
  ultimately show ?thesis by (auto simp: area_referenced_def)
qed

lemma ranked_dependencies:
  assumes "graph_ok g" "closed_marks g r" "dependencies g c = Some nodes"
  shows "dependencies (ranked g r) c = Some (map (rank_node r) nodes)
    \<and> cells_under (ranked g r) (map (rank_node r) nodes) = cells_under g nodes"
proof -
  have entry: "(c, nodes) \<in> set (dg_formulas g)"
    using assms by (simp add: dependencies_def map_get_Some_entry graph_ok_sorted)
  then have "(c, map (rank_node r) nodes) \<in> set (dg_formulas (ranked g r))"
    by (force simp: ranked_def)
  then have "dependencies (ranked g r) c = Some (map (rank_node r) nodes)"
    using graph_ok_ranked [OF assms(1,2)] by (simp add: dependencies_def map_get_Some_entry graph_ok_sorted)
  moreover have "\<forall>n\<in>set nodes. node_marked r n" using closed_marks_formula [OF assms(2) entry] by blast
  ultimately show ?thesis using ranked_cells_under [OF assms(2)] by blast
qed

lemma filter_all_kept:
  "length xs = length r \<Longrightarrow> length (filter snd (zip xs r)) = length xs \<Longrightarrow> a < length r \<Longrightarrow> r ! a"
proof (induction xs r arbitrary: a rule: list_induct2)
  case (Cons x xs b bs)
  have "length (filter snd (zip xs bs)) \<le> length xs" using length_filter_le [of snd "zip xs bs"] by simp
  then show ?case using Cons by (cases a) (auto split: if_splits)
qed simp

lemma retain_correct:
  assumes "graph_ok g"
  shows "\<exists>g' renumbered. retain_referenced_areas g = Some (g', renumbered) \<and> graph_ok g' \<and>
    (\<forall>c nodes. dependencies g c = Some nodes \<longrightarrow>
      (\<exists>nodes'. dependencies g' c = Some nodes' \<and> cells_under g' nodes' = cells_under g nodes)) \<and>
    map_keys (dg_formulas g') = map_keys (dg_formulas g) \<and>
    (\<forall>a<area_count g'. area_referenced g' a) \<and>
    (\<forall>a<area_count g. renumbered ! a = None \<longleftrightarrow> \<not> area_referenced g a)"
proof -
  obtain r where r: "mark_areas (dg_areas g) (replicate (length (dg_areas g)) False)
      (rev (List.map_filter area_of (concat (map snd (dg_formulas g))))) = Some r"
    and marks: "closed_marks g r" and all: "\<forall>a<length r. r ! a \<longleftrightarrow> area_referenced g a"
    using retain_marks [OF assms] by blast
  let ?all = "length (filter snd (zip (dg_areas g) r)) = length (dg_areas g)"
  have renumbered: "\<forall>a<area_count g. renumber_kept 0 r ! a = None \<longleftrightarrow> \<not> area_referenced g a"
    using all closed_marks_length [OF marks] by (simp add: area_count_def renumber_kept_nth)
  have keys: "map_keys (dg_formulas (ranked g r)) = map_keys (dg_formulas g)"
    by (simp add: map_keys_def ranked_def case_prod_unfold comp_def)
  show ?thesis
  proof (cases ?all)
    case True
    then have "\<forall>a<area_count g. area_referenced g a"
      using filter_all_kept closed_marks_length [OF marks] all by (fastforce simp: area_count_def)
    then show ?thesis using retain_by_marks [OF marks r] True assms renumbered by auto
  next
    case False
    have "\<forall>a<area_count (ranked g r). area_referenced (ranked g r) a"
      using ranked_referenced [OF marks] all by (simp add: area_count_def)
    then show ?thesis
      using retain_by_marks [OF marks r] False renumbered keys graph_ok_ranked [OF assms marks]
        ranked_dependencies [OF assms marks] by auto
  qed
qed

section \<open>Properties\<close>

text \<open>The graphs the calculation engine can hold: what the operations make of the empty graph when
their callers name only areas the graph already has.\<close>

inductive graph_built :: "dependency_graph \<Rightarrow> bool" where
  built_default: "graph_built graph_default"
| built_insert: "graph_built g \<Longrightarrow> nodes_ok (area_count g) nodes \<Longrightarrow> graph_built (graph_insert formula nodes g)"
| built_insert_cells: "graph_built g \<Longrightarrow> graph_built (insert_cells formula cells g)"
| built_remove: "graph_built g \<Longrightarrow> graph_built (graph_remove formula g)"
| built_add_area: "graph_built g \<Longrightarrow> nodes_ok (area_count g) members \<Longrightarrow> add_area members g = Some (g', n) \<Longrightarrow> graph_built g'"
| built_with_sheets: "graph_built g \<Longrightarrow> graph_built (with_sheets sheet g)"
| built_retain: "graph_built g \<Longrightarrow> retain_referenced_areas g = Some (g', renumbered) \<Longrightarrow> graph_built g'"

text \<open>C5: The invariant of the dependency graph holds in every graph the engine builds: formulas in
cell order, every edge to an existing area, areas that list only earlier areas, and the edge count
of the areas up to date.\<close>

theorem graph_invariant: "graph_built g \<Longrightarrow> graph_ok g"
proof (induction rule: graph_built.induct)
  case (built_retain g g' renumbered)
  then show ?case using retain_correct [OF built_retain.IH] by auto
qed (auto simp: area_count_def intro: graph_ok_default graph_ok_insert graph_ok_insert_cells graph_ok_remove
    graph_ok_with_sheets dest: graph_ok_add_area)

theorem graph_invariant_witness:
  "graph_ok (graph_insert (0, 2, 1) [Area 0] (fst (the (add_area [Cell (0, 1, 1)] graph_default))))"
proof (rule graph_invariant)
  let ?g = "fst (the (add_area [Cell (0, 1, 1)] graph_default))"
  have "add_area [Cell (0, 1, 1)] graph_default = Some (?g, Area 0)" "area_count ?g = 1"
    by (simp_all add: add_area_def graph_default_def area_count_def)
  then show "graph_built (graph_insert (0, 2, 1) [Area 0] ?g)"
    using built_add_area [OF built_default, of "[Cell (0, 1, 1)]"] built_insert [of ?g "[Area 0]"]
    by (simp add: nodes_ok_def)
qed

text \<open>\<open>any_dependency\<close> searches exactly the cells a formula waits for, directly or through areas:
its loop ends, never indexes past the areas, and answers whether the callback accepts one of
them.\<close>

theorem any_dependency_exact:
  assumes "graph_ok g" "dependencies g formula = Some nodes"
  shows "any_dependency g formula found = Some (\<exists>c\<in>cells_under g nodes. found c)"
  using any_dependency_correct [OF assms(1)] assms(2) by (simp add: dependencies_def)

theorem any_dependency_exact_witness:
  "\<exists>nodes. any_dependency (insert_cells (0, 1, 1) [(0, 2, 1), (0, 3, 1)] graph_default) (0, 1, 1) (\<lambda>c. c = (0, 3, 1))
    = Some (\<exists>c\<in>cells_under (insert_cells (0, 1, 1) [(0, 2, 1), (0, 3, 1)] graph_default) nodes. c = (0, 3, 1))"
proof -
  let ?g = "insert_cells (0, 1, 1) [(0, 2, 1), (0, 3, 1)] graph_default"
  have "graph_ok ?g" by (rule graph_ok_insert_cells [OF graph_ok_default])
  moreover have "\<exists>nodes. dependencies ?g (0, 1, 1) = Some nodes"
    by (simp add: insert_cells_def graph_insert_def graph_default_def dependencies_def map_get_def)
  ultimately show ?thesis using any_dependency_exact [of ?g] by blast
qed

text \<open>\<open>count_cells\<close> counts the distinct cells under a list of nodes, up to the limit at which it
stops early.\<close>

theorem count_cells_exact:
  assumes "graph_ok g" "nodes_ok (area_count g) nodes" "0 < limit"
  shows "count_cells g nodes limit = Some (min limit (card (cells_under g nodes)))"
  using count_cells_correct [OF assms(1) _ assms(3)] assms(2) by (simp add: area_count_def)

theorem count_cells_exact_witness:
  "count_cells graph_default [Cell (0, 1, 1), Cell (0, 1, 1), Cell (0, 2, 1)] 2 =
    Some (min 2 (card (cells_under graph_default [Cell (0, 1, 1), Cell (0, 1, 1), Cell (0, 2, 1)])))"
  by (rule count_cells_exact) (simp_all add: graph_ok_default nodes_ok_def)

text \<open>Renumbering the sheets of a graph renumbers what every formula waits for: exactly the cells of
the sheets that remain, under their new numbers, through every area.\<close>

theorem with_sheets_exact:
  assumes "graph_ok g"
  shows "graph_ok (with_sheets sheet g) \<and>
    cells_under (with_sheets sheet g) (sheet_nodes sheet nodes) =
      {(s', row, column) | s s' row column. (s, row, column) \<in> cells_under g nodes \<and> sheet s = Some s'}"
  using graph_ok_with_sheets [OF assms] with_sheets_cells_under by blast

theorem with_sheets_exact_witness:
  "graph_ok (with_sheets (\<lambda>s. if s = 0 then None else Some (s - 1))
    (insert_cells (1, 1, 1) [(0, 2, 1), (1, 3, 1)] graph_default))"
  using with_sheets_exact [OF graph_ok_insert_cells [OF graph_ok_default]] by blast

text \<open>C25: Dropping the unreferenced areas returns, keeps the invariant, keeps for every formula the cells
it waits for, leaves only areas some formula reaches, and reports exactly the dropped areas.\<close>

theorem retain_exact:
  assumes "graph_ok g"
  shows "\<exists>g' renumbered. retain_referenced_areas g = Some (g', renumbered) \<and> graph_ok g' \<and>
    (\<forall>c nodes. dependencies g c = Some nodes \<longrightarrow>
      (\<exists>nodes'. dependencies g' c = Some nodes' \<and> cells_under g' nodes' = cells_under g nodes)) \<and>
    map_keys (dg_formulas g') = map_keys (dg_formulas g) \<and>
    (\<forall>a<area_count g'. area_referenced g' a) \<and>
    (\<forall>a<area_count g. renumbered ! a = None \<longleftrightarrow> \<not> area_referenced g a)"
  using assms by (rule retain_correct)

text \<open>The formula A1 waits for the area A3:A4; no formula waits for the other area.\<close>

definition sample_graph :: dependency_graph where
  "sample_graph = \<lparr>dg_formulas = [((0, 1, 1), [Area 1])], dg_areas = [[Cell (0, 2, 1)], [Cell (0, 3, 1), Cell (0, 4, 1)]], dg_area_edges = 3\<rparr>"

theorem retain_exact_witness:
  "\<exists>g' renumbered nodes'. retain_referenced_areas sample_graph = Some (g', renumbered) \<and> graph_ok g' \<and>
    renumbered ! 0 = None \<and> dependencies g' (0, 1, 1) = Some nodes' \<and> cells_under g' nodes' = cells_under sample_graph [Area 1]"
proof -
  have ok: "graph_ok sample_graph"
    by (auto simp: graph_ok_def sample_graph_def map_ok_def map_keys_def nodes_ok_iff less_Suc_eq)
  have "dependencies sample_graph (0, 1, 1) = Some [Area 1]" by (simp add: dependencies_def sample_graph_def map_get_def)
  moreover have "n \<in> {Area 1, Cell (0, 3, 1), Cell (0, 4, 1)}" if "reaches (graph_step sample_graph) (Area 1) n" for n
    by (rule reaches_closed [OF that]) (auto simp: sample_graph_def)
  then have "\<not> area_referenced sample_graph 0" by (auto simp: area_referenced_def formula_nodes_def sample_graph_def)
  ultimately show ?thesis using retain_exact [OF ok]
    by (fastforce simp: area_count_def sample_graph_def)
qed

end
