(* ===== verification/Dense_Graph.thy ===== *)
theory Dense_Graph
  imports Graph
begin

text \<open>The dense form of the dependency graph (\<open>DenseGraph\<close> in \<open>calculation/graph.rs\<close>): formulas
and areas numbered from 0, the nodes each of them waits for in one flat vector with the start of
each node's slice, and the reverse edges in a second pair of vectors filled by counting.

The cancellation callback is a function from the number of earlier polls to its answer, and the
poll count is part of the state, so a run polls as often and at the same points as the code.  The
result is \<open>Inl Cancelled\<close> for the code's \<open>Err(())\<close> and \<open>Inl Panicked\<close> for an index out of
bounds or an arithmetic underflow, which the theorems below exclude.\<close>

section \<open>Building the dense graph\<close>

datatype schedule_error = Cancelled | Panicked

type_synonym polls = "nat \<Rightarrow> bool"

definition as_u32 :: "nat \<Rightarrow> nat" where
  "as_u32 n = n mod u32_bound"

record dense_graph =
  dense_formulas :: "cell_id list"
  dependency_starts :: "nat list"
  dense_dependencies :: "nat list"
  dependent_starts :: "nat list"
  dense_dependents :: "nat list"

text \<open>\<open>binary_search\<close> of a strictly increasing slice.\<close>

definition binary_search :: "'a list \<Rightarrow> 'a \<Rightarrow> nat option" where
  "binary_search xs x = (if x \<in> set xs then Some (length (takeWhile (\<lambda>y. y \<noteq> x) xs)) else None)"

fun dense_index :: "cell_id list \<Rightarrow> dependency_node \<Rightarrow> nat option" where
  "dense_index formulas (Cell cell) = map_option as_u32 (binary_search formulas cell)"
| "dense_index formulas (Area a) = Some (as_u32 (length formulas + a))"

fun collect_dependencies ::
  "polls \<Rightarrow> cell_id list \<Rightarrow> dependency_node list list \<Rightarrow> nat list \<times> nat list \<times> nat
    \<Rightarrow> schedule_error + nat list \<times> nat list \<times> nat" where
  "collect_dependencies cancelled formulas [] s = Inr s"
| "collect_dependencies cancelled formulas (nodes # rest) (starts, deps, polled) =
    (if cancelled polled then Inl Cancelled
     else let deps' = deps @ List.map_filter (dense_index formulas) nodes
       in collect_dependencies cancelled formulas rest (starts @ [length deps'], deps', polled + 1))"

text \<open>The number of dependents of a node, counted one slot after it, then summed up.\<close>

definition count_dependent :: "nat list \<Rightarrow> nat \<Rightarrow> nat list option" where
  "count_dependent starts d =
    (if d + 1 < length starts then Some (starts[d + 1 := starts ! (d + 1) + 1]) else None)"

definition add_previous :: "nat list \<Rightarrow> nat \<Rightarrow> nat list option" where
  "add_previous starts p =
    (if p + 1 < length starts then Some (starts[p + 1 := starts ! (p + 1) + starts ! p]) else None)"

definition place_dependent :: "nat \<Rightarrow> nat list \<times> nat list \<Rightarrow> nat \<Rightarrow> (nat list \<times> nat list) option" where
  "place_dependent node s d =
    (case s of (slots, dependents) \<Rightarrow>
      if d < length slots \<and> slots ! d < length dependents
      then Some (slots[d := slots ! d + 1], dependents[slots ! d := as_u32 node])
      else None)"

definition slice :: "nat list \<Rightarrow> nat list \<Rightarrow> nat \<Rightarrow> nat list option" where
  "slice starts xs v =
    (if v + 1 < length starts \<and> starts ! v \<le> starts ! (v + 1) \<and> starts ! (v + 1) \<le> length xs
     then Some (take (starts ! (v + 1) - starts ! v) (drop (starts ! v) xs)) else None)"

fun fill_dependents ::
  "polls \<Rightarrow> nat list \<Rightarrow> nat list \<Rightarrow> nat list \<Rightarrow> (nat list \<times> nat list) \<times> nat
    \<Rightarrow> schedule_error + nat list \<times> nat" where
  "fill_dependents cancelled starts deps [] ((slots, dependents), polled) = Inr (dependents, polled)"
| "fill_dependents cancelled starts deps (node # rest) (s, polled) =
    (if cancelled polled then Inl Cancelled
     else case Option.bind (slice starts deps node) (try_fold (place_dependent node) s) of
       None \<Rightarrow> Inl Panicked
     | Some s' \<Rightarrow> fill_dependents cancelled starts deps rest (s', polled + 1))"

definition build_dependents ::
  "polls \<Rightarrow> nat \<Rightarrow> nat list \<times> nat list \<times> nat \<Rightarrow> schedule_error + nat list \<times> nat list \<times> nat" where
  "build_dependents cancelled node_count s =
    (case s of (starts, deps, polled) \<Rightarrow>
      (case Option.bind (try_fold count_dependent (replicate (node_count + 1) 0) deps)
        (\<lambda>counted. try_fold add_previous counted [0..<node_count]) of
        None \<Rightarrow> Inl Panicked
      | Some reverse_starts \<Rightarrow>
          res_bind
            (fill_dependents cancelled starts deps [0..<node_count]
              ((reverse_starts, replicate (length deps) 0), polled))
            (\<lambda>(dependents, polled). Inr (reverse_starts, dependents, polled))))"

definition build :: "dependency_graph \<Rightarrow> polls \<Rightarrow> nat \<Rightarrow> schedule_error + dense_graph \<times> nat" where
  "build g cancelled polled =
    (let formulas = map_keys (dg_formulas g);
       node_count = length formulas + length (dg_areas g)
     in res_bind (collect_dependencies cancelled formulas
           (map snd (dg_formulas g) @ dg_areas g) ([0], [], polled))
         (\<lambda>(starts, deps, polled). res_bind (build_dependents cancelled node_count (starts, deps, polled))
           (\<lambda>(reverse_starts, dependents, polled).
             Inr (\<lparr>dense_formulas = formulas, dependency_starts = starts, dense_dependencies = deps,
               dependent_starts = reverse_starts, dense_dependents = dependents\<rparr>, polled))))"

definition node_count :: "dense_graph \<Rightarrow> nat" where
  "node_count d = length (dependency_starts d) - 1"

definition is_formula :: "dense_graph \<Rightarrow> nat \<Rightarrow> bool" where
  "is_formula d node = (node < length (dense_formulas d))"

definition node_dependencies :: "dense_graph \<Rightarrow> nat \<Rightarrow> nat list option" where
  "node_dependencies d node = slice (dependency_starts d) (dense_dependencies d) node"

definition node_dependents :: "dense_graph \<Rightarrow> nat \<Rightarrow> nat list option" where
  "node_dependents d node = slice (dependent_starts d) (dense_dependents d) node"

section \<open>Slices\<close>

text \<open>A vector of starts and a flat vector represent a list of lists.\<close>

fun starts_of :: "nat \<Rightarrow> nat list list \<Rightarrow> nat list" where
  "starts_of n [] = [n]"
| "starts_of n (xs # xss) = n # starts_of (n + length xs) xss"

lemma length_starts_of [simp]: "length (starts_of n xss) = Suc (length xss)"
  by (induction xss arbitrary: n) auto

lemma starts_of_nth: "v \<le> length xss \<Longrightarrow> starts_of n xss ! v = n + length (concat (take v xss))"
proof (induction xss arbitrary: n v)
  case (Cons xs xss)
  then show ?case by (cases v) auto
qed simp

lemma starts_of_append:
  "starts_of n (xss @ [xs]) = starts_of n xss @ [n + length (concat xss) + length xs]"
  by (induction xss arbitrary: n) auto

lemma slice_starts_of:
  assumes "v < length xss"
  shows "slice (starts_of 0 xss) (concat xss) v = Some (xss ! v)"
proof -
  have split: "concat xss = concat (take v xss) @ xss ! v @ concat (drop (Suc v) xss)"
    using assms by (metis append.assoc concat.simps(2) concat_append id_take_nth_drop)
  have "concat (take (Suc v) xss) = concat (take v xss) @ xss ! v"
    using assms by (simp add: take_Suc_conv_app_nth)
  moreover have "length (concat (take v xss)) + length (xss ! v) \<le> length (concat xss)"
    by (subst split) simp
  moreover have "take (length (xss ! v)) (drop (length (concat (take v xss))) (concat xss)) = xss ! v"
    by (subst split) simp
  ultimately show ?thesis using assms by (simp add: slice_def starts_of_nth)
qed

definition polled_between :: "polls \<Rightarrow> nat \<Rightarrow> nat \<Rightarrow> bool" where
  "polled_between cancelled m n = (\<exists>i\<in>{m..<n}. cancelled i)"

lemma polled_between_empty [simp]: "polled_between cancelled m m = False"
  by (simp add: polled_between_def)

lemma polled_between_Suc:
  "m < n \<Longrightarrow> polled_between cancelled m n = (cancelled m \<or> polled_between cancelled (Suc m) n)"
proof -
  assume "m < n"
  then have "{m..<n} = insert m {Suc m..<n}" by auto
  then show ?thesis by (simp add: polled_between_def)
qed

lemma collect_dependencies_run:
  "collect_dependencies cancelled formulas rest (starts_of 0 front, concat front, polled) =
    (if polled_between cancelled polled (polled + length rest) then Inl Cancelled
     else Inr (starts_of 0 (front @ map (List.map_filter (dense_index formulas)) rest),
      concat (front @ map (List.map_filter (dense_index formulas)) rest), polled + length rest))"
proof (induction rest arbitrary: front polled)
  case (Cons nodes rest)
  show ?case
    using Cons.IH [of "front @ [List.map_filter (dense_index formulas) nodes]" "polled + 1"]
    by (simp add: Let_def starts_of_append polled_between_Suc)
qed simp

section \<open>Reversing the edges\<close>

lemma count_dependents_run:
  assumes "\<forall>d\<in>set deps. d < n"
  shows "try_fold count_dependent (0 # map f [0..<n]) deps =
    Some (0 # map (\<lambda>u. f u + count_list deps u) [0..<n])"
  using assms
proof (induction deps arbitrary: f)
  case (Cons d deps)
  have "(map f [0..<n])[d := Suc (f d)] = map (f(d := Suc (f d))) [0..<n]"
    using Cons.prems by (intro nth_equalityI) (auto simp: nth_list_update)
  then have "count_dependent (0 # map f [0..<n]) d = Some (0 # map (f(d := Suc (f d))) [0..<n])"
    using Cons.prems by (simp add: count_dependent_def)
  moreover have "(\<lambda>u. (f(d := Suc (f d))) u + count_list deps u) = (\<lambda>u. f u + count_list (d # deps) u)"
    by auto
  moreover have "try_fold count_dependent (0 # map (f(d := Suc (f d))) [0..<n]) deps =
      Some (0 # map (\<lambda>u. (f(d := Suc (f d))) u + count_list deps u) [0..<n])"
    using Cons.prems by (intro Cons.IH) simp
  ultimately show ?case by (simp only: try_fold.simps bind.bind_lunit)
qed simp

lemma add_previous_run:
  assumes "length xs = Suc n" "m \<le> n"
  shows "try_fold add_previous xs [0..<m] =
    Some (map (\<lambda>p. sum_list (take (Suc p) xs)) [0..<Suc m] @ drop (Suc m) xs)"
  using assms(2)
proof (induction m)
  case 0
  then show ?case using assms(1) by (cases xs) auto
next
  case (Suc m)
  let ?ys = "map (\<lambda>p. sum_list (take (Suc p) xs)) [0..<Suc m]"
  have "drop (Suc m) xs = xs ! Suc m # drop (Suc (Suc m)) xs"
    using Suc.prems assms(1) by (simp add: Cons_nth_drop_Suc)
  moreover have "sum_list (take (Suc (Suc m)) xs) = xs ! Suc m + sum_list (take (Suc m) xs)"
    using Suc.prems assms(1) by (simp add: take_Suc_conv_app_nth)
  ultimately have "add_previous (?ys @ drop (Suc m) xs) m =
      Some (map (\<lambda>p. sum_list (take (Suc p) xs)) [0..<Suc (Suc m)] @ drop (Suc (Suc m)) xs)"
    using Suc.prems assms(1) by (simp add: add_previous_def nth_append list_update_append)
  moreover have "[0..<Suc m] = [0..<m] @ [m]" by simp
  ultimately show ?case using Suc by (simp only: try_fold_append try_fold.simps bind.bind_lunit)
qed

definition base :: "nat list \<Rightarrow> nat \<Rightarrow> nat" where
  "base flat u = (\<Sum>w<u. count_list flat w)"

lemma reverse_starts_run:
  assumes "\<forall>d\<in>set deps. d < n"
  shows "Option.bind (try_fold count_dependent (replicate (n + 1) 0) deps)
    (\<lambda>counted. try_fold add_previous counted [0..<n]) = Some (map (base deps) [0..<Suc n])"
proof -
  have zeros: "replicate (n + 1) (0::nat) = 0 # map (\<lambda>_. 0) [0..<n]"
    by (simp add: map_replicate_const)
  let ?counted = "0 # map (count_list deps) [0..<n]"
  have "sum_list (take (Suc p) ?counted) = base deps p" if "p < Suc n" for p
  proof -
    have "take (Suc p) ?counted = 0 # map (count_list deps) [0..<p]" using that by (simp add: take_map)
    then show ?thesis by (simp add: base_def interv_sum_list_conv_sum_set_nat atLeast0LessThan)
  qed
  then have "try_fold add_previous ?counted [0..<n] = Some (map (base deps) [0..<Suc n])"
    using add_previous_run [of ?counted n n] by (simp del: upt_Suc)
  then show ?thesis
    unfolding zeros using count_dependents_run [OF assms, of "\<lambda>_. 0"] by simp
qed

text \<open>Filling the vector of dependents, one edge at a time.\<close>

fun place_edge :: "nat list \<times> nat list \<Rightarrow> nat \<times> nat \<Rightarrow> (nat list \<times> nat list) option" where
  "place_edge s (d, node) = place_dependent node s d"

definition edges_of :: "nat list list \<Rightarrow> nat list \<Rightarrow> (nat \<times> nat) list" where
  "edges_of ds nodes = concat (map (\<lambda>v. map (\<lambda>u. (u, v)) (ds ! v)) nodes)"

definition bucket :: "(nat \<times> nat) list \<Rightarrow> nat \<Rightarrow> nat list" where
  "bucket es u = map snd (filter (\<lambda>e. fst e = u) es)"

lemma place_dependent_edges:
  "try_fold (place_dependent node) s ds = try_fold place_edge s (map (\<lambda>u. (u, node)) ds)"
  by (induction ds arbitrary: s) (auto split: option.splits)

lemma fill_dependents_run:
  assumes "\<forall>v\<in>set nodes. v < length ds" "try_fold place_edge s (edges_of ds nodes) = Some s'"
  shows "fill_dependents cancelled (starts_of 0 ds) (concat ds) nodes (s, polled) =
    (if polled_between cancelled polled (polled + length nodes) then Inl Cancelled
     else Inr (snd s', polled + length nodes))"
  using assms
proof (induction nodes arbitrary: s polled)
  case Nil
  then show ?case by (cases s) (auto simp: edges_of_def)
next
  case (Cons v nodes)
  have "edges_of ds (v # nodes) = map (\<lambda>u. (u, v)) (ds ! v) @ edges_of ds nodes"
    by (simp add: edges_of_def)
  then obtain t where t: "try_fold place_edge s (map (\<lambda>u. (u, v)) (ds ! v)) = Some t"
      "try_fold place_edge t (edges_of ds nodes) = Some s'"
    using Cons.prems(2) by (auto simp: try_fold_append bind_eq_Some_conv)
  show ?case
    using Cons.IH [OF _ t(2), of "Suc polled"] Cons.prems(1) t(1)
    by (simp add: slice_starts_of place_dependent_edges polled_between_Suc)
qed

lemma length_bucket: "length (bucket es u) = count_list (map fst es) u"
  by (induction es) (auto simp: bucket_def)

lemma base_Suc: "base flat (Suc u) = base flat u + count_list flat u"
  by (simp add: base_def)

lemma base_mono: "u \<le> w \<Longrightarrow> base flat u \<le> base flat w"
  by (auto simp: base_def intro: sum_mono2)

lemma base_total: "\<forall>d\<in>set flat. d < n \<Longrightarrow> base flat n = length flat"
proof (induction flat)
  case (Cons d flat)
  have "base (d # flat) n = (\<Sum>w<n. (if w = d then 1 else 0) + count_list flat w)"
    unfolding base_def by (intro sum.cong) auto
  also have "\<dots> = (\<Sum>w<n. if w = d then 1 else 0) + base flat n"
    by (simp add: base_def sum.distrib)
  finally show ?case using Cons by simp
qed (simp add: base_def)

lemma bucket_append: "bucket (es @ fs) u = bucket es u @ bucket fs u"
  by (simp add: bucket_def)

lemma bucket_Cons: "bucket ((d, v) # es) u = (if d = u then v # bucket es u else bucket es u)"
  by (simp add: bucket_def)

lemma bucket_Nil [simp]: "bucket [] u = []"
  by (simp add: bucket_def)

text \<open>The buckets are disjoint: the next slot of one is not a filled slot of another.\<close>

lemma slots_disjoint:
  assumes "u \<noteq> w" "k < count_list flat u" "i < count_list flat w"
  shows "base flat u + k \<noteq> base flat w + i"
  using assms base_mono [of "Suc u" w flat] base_mono [of "Suc w" u flat]
  by (cases "u < w") (auto simp: base_Suc)

definition filled :: "nat \<Rightarrow> nat list \<Rightarrow> (nat \<times> nat) list \<Rightarrow> nat list \<times> nat list \<Rightarrow> bool" where
  "filled n flat es s =
    (length (fst s) = Suc n \<and> length (snd s) = length flat \<and>
     (\<forall>u<n. fst s ! u = base flat u + length (bucket es u) \<and>
       (\<forall>i<length (bucket es u). snd s ! (base flat u + i) = bucket es u ! i)))"

lemma filled_step:
  assumes filled: "filled n flat es s" and range: "\<forall>x\<in>set flat. x < n" and bound: "v < u32_bound"
    and room: "length (bucket es d) < count_list flat d"
    and cap: "\<forall>u<n. length (bucket es u) \<le> count_list flat u"
  shows "\<exists>s'. place_edge s (d, v) = Some s' \<and> filled n flat (es @ [(d, v)]) s'"
proof -
  obtain slots dependents where s: "s = (slots, dependents)" by fastforce
  have d: "d < n" using room range count_list_0_iff [of flat d] by fastforce
  let ?p = "base flat d + length (bucket es d)"
  have slot: "slots ! d = ?p" using filled d by (simp add: filled_def s)
  have "?p < base flat (Suc d)" using room by (simp add: base_Suc)
  also have "\<dots> \<le> base flat n" by (rule base_mono) (use d in simp)
  also have "\<dots> = length flat" using range by (rule base_total)
  finally have p: "?p < length dependents" using filled by (simp add: filled_def s)
  have place: "place_edge s (d, v) = Some (slots[d := ?p + 1], dependents[?p := v])"
    using filled d p bound by (simp add: place_dependent_def s slot filled_def as_u32_def)
  have "dependents[?p := v] ! (base flat u + i) = bucket (es @ [(d, v)]) u ! i"
    if "u < n" "i < length (bucket (es @ [(d, v)]) u)" for u i
  proof (cases "u = d")
    case True
    then show ?thesis
      using that filled p by (auto simp: filled_def s bucket_append bucket_Cons nth_append less_Suc_eq)
  next
    case False
    have i: "i < length (bucket es u)" using that False by (simp add: bucket_append bucket_Cons)
    then have "i < count_list flat u" using cap that(1) by fastforce
    then have "base flat u + i \<noteq> ?p" using slots_disjoint [of u d i flat "length (bucket es d)"] room False by simp
    then show ?thesis using that(1) i False filled by (simp add: filled_def s bucket_append bucket_Cons)
  qed
  then have "filled n flat (es @ [(d, v)]) (slots[d := ?p + 1], dependents[?p := v])"
    using filled d unfolding filled_def s by (auto simp: nth_list_update bucket_append bucket_Cons)
  with place show ?thesis by blast
qed

lemma fill_edges_run:
  assumes range: "\<forall>x\<in>set flat. x < n" and flat: "flat = map fst (es @ fs)"
    and bound: "\<forall>(d, v)\<in>set fs. v < u32_bound" and filled: "filled n flat es s"
  shows "\<exists>s'. try_fold place_edge s fs = Some s' \<and> filled n flat (es @ fs) s'"
  using flat bound filled
proof (induction fs arbitrary: es s)
  case (Cons f fs)
  obtain d v where f: "f = (d, v)" by fastforce
  have cap: "\<forall>u<n. length (bucket es u) \<le> count_list flat u" "length (bucket es d) < count_list flat d"
    using Cons.prems(1) by (auto simp: length_bucket f)
  have bound: "v < u32_bound" using Cons.prems(2) f by simp
  obtain s' where s': "place_edge s (d, v) = Some s'" "filled n flat (es @ [(d, v)]) s'"
    using filled_step [OF Cons.prems(3) range bound cap(2,1)] by blast
  show ?case
    using Cons.IH [of "es @ [(d, v)]" s'] Cons.prems s' by (auto simp: f)
qed simp

section \<open>What the dense graph represents\<close>

text \<open>\<open>ds\<close> lists, for each node, the nodes it waits for.\<close>

definition represents :: "dense_graph \<Rightarrow> nat list list \<Rightarrow> bool" where
  "represents d ds =
    (node_count d = length ds \<and> length (dense_formulas d) \<le> length ds \<and> length ds \<le> u32_bound \<and>
     (\<forall>xs\<in>set ds. \<forall>u\<in>set xs. u < length ds) \<and>
     (\<forall>v<length ds. node_dependencies d v = Some (ds ! v) \<and>
       node_dependents d v = Some (bucket (edges_of ds [0..<length ds]) v)))"

definition dense_ok :: "dense_graph \<Rightarrow> bool" where
  "dense_ok d = (\<exists>ds. represents d ds)"

lemma map_fst_edges_of: "map fst (edges_of ds nodes) = concat (map ((!) ds) nodes)"
  by (induction nodes) (auto simp: edges_of_def comp_def)

lemma edges_of_all: "map fst (edges_of ds [0..<length ds]) = concat ds"
  by (simp add: map_fst_edges_of map_nth)

lemma build_dependents_run:
  assumes range: "\<forall>x\<in>set (concat ds). x < length ds" and bound: "length ds \<le> u32_bound"
  shows "\<exists>dependents. build_dependents cancelled (length ds) (starts_of 0 ds, concat ds, polled) =
      (if polled_between cancelled polled (polled + length ds) then Inl Cancelled
       else Inr (map (base (concat ds)) [0..<Suc (length ds)], dependents, polled + length ds)) \<and>
    (\<forall>v<length ds. slice (map (base (concat ds)) [0..<Suc (length ds)]) dependents v =
      Some (bucket (edges_of ds [0..<length ds]) v))"
proof -
  let ?n = "length ds" and ?flat = "concat ds"
  let ?es = "edges_of ds [0..<?n]"
  let ?starts = "map (base ?flat) [0..<Suc ?n]"
  have "filled ?n ?flat [] (?starts, replicate (length ?flat) 0)"
    by (auto simp: filled_def nth_append simp del: upt_Suc)
  moreover have "\<forall>(d, v)\<in>set ?es. v < u32_bound" using bound by (auto simp: edges_of_def)
  ultimately obtain s' where s': "try_fold place_edge (?starts, replicate (length ?flat) 0) ?es = Some s'"
      "filled ?n ?flat ?es s'"
    using fill_edges_run [OF range, of "[]" ?es "(?starts, replicate (length ?flat) 0)"] edges_of_all [of ds]
    by (auto simp del: upt_Suc)
  have "slice ?starts (snd s') v = Some (bucket ?es v)" if v: "v < ?n" for v
  proof -
    have len: "length (bucket ?es v) = base ?flat (Suc v) - base ?flat v"
      by (simp add: length_bucket edges_of_all base_Suc)
    have fits: "base ?flat (Suc v) \<le> length (snd s')"
      using base_mono [of "Suc v" ?n ?flat] base_total [OF range] v s'(2) by (simp add: filled_def)
    have "take (base ?flat (Suc v) - base ?flat v) (drop (base ?flat v) (snd s')) = bucket ?es v"
    proof (rule nth_equalityI)
      show "length (take (base ?flat (Suc v) - base ?flat v) (drop (base ?flat v) (snd s'))) =
          length (bucket ?es v)" using fits len by simp
    qed (use s'(2) v len in \<open>auto simp: filled_def\<close>)
    then show ?thesis using v fits base_mono [of v "Suc v" ?flat] by (simp add: slice_def del: upt_Suc)
  qed
  moreover have "fill_dependents cancelled (starts_of 0 ds) ?flat [0..<?n]
      ((?starts, replicate (length ?flat) 0), polled) =
    (if polled_between cancelled polled (polled + ?n) then Inl Cancelled else Inr (snd s', polled + ?n))"
    using fill_dependents_run [OF _ s'(1)] by simp
  ultimately show ?thesis
    unfolding build_dependents_def prod.case reverse_starts_run [OF range]
    by (intro exI [of _ "snd s'"]) (simp del: upt_Suc)
qed

definition dense_deps :: "dependency_graph \<Rightarrow> nat list list" where
  "dense_deps g = map (List.map_filter (dense_index (map_keys (dg_formulas g))))
    (map snd (dg_formulas g) @ dg_areas g)"

definition dense_size :: "dependency_graph \<Rightarrow> nat" where
  "dense_size g = length (dg_formulas g) + length (dg_areas g)"

lemma length_dense_deps: "length (dense_deps g) = dense_size g"
  by (simp add: dense_deps_def dense_size_def)

lemma binary_search_less: "binary_search xs x = Some i \<Longrightarrow> i < length xs \<and> xs ! i = x"
proof -
  have "length (takeWhile (\<lambda>y. y \<noteq> x) xs) < length xs \<and> xs ! length (takeWhile (\<lambda>y. y \<noteq> x) xs) = x"
    if "x \<in> set xs" using that by (induction xs) auto
  then show "binary_search xs x = Some i \<Longrightarrow> i < length xs \<and> xs ! i = x"
    by (auto simp: binary_search_def split: if_splits)
qed

lemma dense_deps_range:
  assumes "graph_ok g" "dense_size g \<le> u32_bound"
  shows "\<forall>x\<in>set (concat (dense_deps g)). x < length (dense_deps g)"
proof -
  let ?keys = "map_keys (dg_formulas g)"
  have keys: "length ?keys = length (dg_formulas g)" by (simp add: map_keys_def)
  have "x < dense_size g"
    if nodes: "nodes \<in> set (map snd (dg_formulas g) @ dg_areas g)" and n: "n \<in> set nodes"
      and x: "dense_index ?keys n = Some x" for nodes n x
  proof (cases n)
    case (Cell c)
    then show ?thesis
      using x binary_search_less [of ?keys c] keys assms(2) by (auto simp: as_u32_def dense_size_def)
  next
    case (Area a)
    have "nodes_ok (length (dg_areas g)) nodes"
    proof (cases "nodes \<in> set (dg_areas g)")
      case True
      then obtain i where "i < length (dg_areas g)" "nodes = dg_areas g ! i" by (auto simp: in_set_conv_nth)
      then show ?thesis using nodes_ok_mono [OF graph_ok_areaD [OF assms(1)]] by simp
    next
      case False
      then show ?thesis using nodes assms(1) by (auto simp: graph_ok_def)
    qed
    then have "a < length (dg_areas g)" using n Area by (simp add: nodes_ok_iff)
    then show ?thesis using x Area keys assms(2) by (auto simp: as_u32_def dense_size_def)
  qed
  then have "x < dense_size g" if "x \<in> set (concat (dense_deps g))" for x
    using that unfolding dense_deps_def by (auto simp: set_map_filter)
  then show ?thesis by (simp only: length_dense_deps) blast
qed

lemma polled_between_split:
  assumes "m \<le> k" "k \<le> n"
  shows "polled_between cancelled m n \<longleftrightarrow> polled_between cancelled m k \<or> polled_between cancelled k n"
proof -
  have "{m..<n} = {m..<k} \<union> {k..<n}" using assms by auto
  then show ?thesis by (auto simp: polled_between_def)
qed

text \<open>Building polls twice for every node, and yields the dense graph unless one poll answers yes.\<close>

lemma build_correct:
  assumes "graph_ok g" "dense_size g \<le> u32_bound"
  shows "\<exists>d. build g cancelled polled =
      (if polled_between cancelled polled (polled + 2 * dense_size g) then Inl Cancelled
       else Inr (d, polled + 2 * dense_size g)) \<and>
    represents d (dense_deps g) \<and> dense_formulas d = map_keys (dg_formulas g)"
proof -
  let ?ds = "dense_deps g" and ?n = "dense_size g" and ?keys = "map_keys (dg_formulas g)"
  let ?starts = "map (base (concat ?ds)) [0..<Suc ?n]"
  have range: "\<forall>x\<in>set (concat ?ds). x < length ?ds" using assms by (rule dense_deps_range)
  have size: "length ?ds = ?n" "length ?keys + length (dg_areas g) = ?n" "length ?keys \<le> ?n"
    by (simp_all add: length_dense_deps dense_size_def map_keys_def)
  obtain dependents where fill: "build_dependents cancelled ?n (starts_of 0 ?ds, concat ?ds, polled + ?n) =
      (if polled_between cancelled (polled + ?n) (polled + ?n + ?n) then Inl Cancelled
       else Inr (?starts, dependents, polled + ?n + ?n))"
    and slices: "\<forall>v<?n. slice ?starts dependents v = Some (bucket (edges_of ?ds [0..<?n]) v)"
    using build_dependents_run [OF range, of cancelled "polled + ?n"] assms(2) unfolding size(1) by blast
  let ?d = "\<lparr>dense_formulas = ?keys, dependency_starts = starts_of 0 ?ds, dense_dependencies = concat ?ds,
    dependent_starts = ?starts, dense_dependents = dependents\<rparr>"
  have "collect_dependencies cancelled ?keys (map snd (dg_formulas g) @ dg_areas g) ([0], [], polled) =
      (if polled_between cancelled polled (polled + ?n) then Inl Cancelled
       else Inr (starts_of 0 ?ds, concat ?ds, polled + ?n))"
    using collect_dependencies_run [of cancelled ?keys "map snd (dg_formulas g) @ dg_areas g" "[]" polled]
    by (simp add: dense_deps_def dense_size_def)
  moreover have "polled_between cancelled polled (polled + 2 * ?n) \<longleftrightarrow>
      polled_between cancelled polled (polled + ?n) \<or> polled_between cancelled (polled + ?n) (polled + ?n + ?n)"
    using polled_between_split [of polled "polled + ?n" "polled + 2 * ?n" cancelled] by (simp add: mult_2 add.assoc)
  ultimately have "build g cancelled polled =
      (if polled_between cancelled polled (polled + 2 * ?n) then Inl Cancelled else Inr (?d, polled + 2 * ?n))"
    unfolding build_def Let_def size(2) by (simp add: fill mult_2 add.assoc)
  moreover have "represents ?d ?ds"
    using range slices assms(2) size
    by (auto simp: represents_def node_count_def node_dependencies_def node_dependents_def slice_starts_of)
  ultimately show ?thesis by force
qed

section \<open>The interface of the scheduler\<close>

text \<open>What scheduling relies on: the edges of every node are there in both directions, they stay
within the graph, and an edge occurs as often in one direction as in the other.\<close>

locale edge_store =
  fixes ok :: "'d \<Rightarrow> bool" and size :: "'d \<Rightarrow> nat"
    and succs :: "'d \<Rightarrow> nat \<Rightarrow> nat list option" and preds :: "'d \<Rightarrow> nat \<Rightarrow> nat list option"
  assumes succs_total: "ok d \<Longrightarrow> v < size d \<Longrightarrow> \<exists>xs. succs d v = Some xs \<and> (\<forall>u\<in>set xs. u < size d)"
    and preds_total: "ok d \<Longrightarrow> v < size d \<Longrightarrow> \<exists>xs. preds d v = Some xs"
    and transpose: "ok d \<Longrightarrow> u < size d \<Longrightarrow> preds d u = Some xs \<Longrightarrow>
      count_list xs v = (if v < size d then count_list (the (succs d v)) u else 0)"
begin

lemma succs_range: "ok d \<Longrightarrow> v < size d \<Longrightarrow> succs d v = Some xs \<Longrightarrow> u \<in> set xs \<Longrightarrow> u < size d"
  using succs_total by fastforce

lemma preds_iff:
  assumes "ok d" "u < size d" "v < size d" "preds d u = Some xs" "succs d v = Some ys"
  shows "v \<in> set xs \<longleftrightarrow> u \<in> set ys"
  using transpose [OF assms(1,2,4), of v] assms(3,5) by (metis count_list_0_iff option.sel)

lemma preds_range: "ok d \<Longrightarrow> u < size d \<Longrightarrow> preds d u = Some xs \<Longrightarrow> v \<in> set xs \<Longrightarrow> v < size d"
  using transpose [of d u xs v] count_list_0_iff [of xs v] by (cases "v < size d") auto

text \<open>Completing a node lowers the number of open entries of every other node by exactly the
entries it has there.\<close>

lemma open_entries:
  assumes "ok d" "u < size d" "v < size d" "preds d u = Some xs" "succs d v = Some ys" "u \<notin> closed"
  shows "length (filter (\<lambda>w. w \<notin> closed) ys) =
    count_list xs v + length (filter (\<lambda>w. w \<notin> insert u closed) ys)"
proof -
  have "count_list ys u + length (filter (\<lambda>w. w \<notin> insert u closed) ys) =
      length (filter (\<lambda>w. w \<notin> closed) ys)" for ys
    using assms(6) by (induction ys) auto
  then show ?thesis using transpose [OF assms(1,2,4), of v] assms(3,5) by simp
qed

end

lemma count_bucket:
  "count_list (bucket (edges_of ds [0..<n]) u) v = (if v < n then count_list (ds ! v) u else 0)"
proof (induction n)
  case (Suc n)
  have one: "bucket (map (\<lambda>u. (u, n)) xs) u = replicate (count_list xs u) n" for xs
    by (induction xs) (auto simp: bucket_def)
  have "edges_of ds [0..<Suc n] = edges_of ds [0..<n] @ map (\<lambda>u. (u, n)) (ds ! n)"
    by (simp add: edges_of_def)
  moreover have "count_list (replicate k n) v = (if v = n then k else 0)" for k by (induction k) auto
  ultimately show ?case using Suc by (auto simp: bucket_append one count_list_append less_Suc_eq)
qed (simp add: edges_of_def)

interpretation dense: edge_store dense_ok node_count node_dependencies node_dependents
proof unfold_locales
  fix d v assume "dense_ok d" "v < node_count d"
  then obtain ds where ds: "represents d ds" and v: "v < length ds"
    by (auto simp: dense_ok_def represents_def)
  show "\<exists>xs. node_dependencies d v = Some xs \<and> (\<forall>u\<in>set xs. u < node_count d)"
    using ds v by (auto simp: represents_def)
  show "\<exists>xs. node_dependents d v = Some xs"
    using ds v by (auto simp: represents_def)
next
  fix d u xs v assume "dense_ok d" "u < node_count d" "node_dependents d u = Some xs"
  moreover from this obtain ds where "represents d ds" by (auto simp: dense_ok_def)
  ultimately show "count_list xs v =
      (if v < node_count d then count_list (the (node_dependencies d v)) u else 0)"
    by (auto simp: represents_def count_bucket)
qed

definition waits :: "dense_graph \<Rightarrow> nat \<Rightarrow> nat list" where
  "waits d v = the (node_dependencies d v)"

lemma node_dependencies_waits: "dense_ok d \<Longrightarrow> v < node_count d \<Longrightarrow> node_dependencies d v = Some (waits d v)"
  using dense.succs_total by (fastforce simp: waits_def)

lemma waits_range: "dense_ok d \<Longrightarrow> v < node_count d \<Longrightarrow> u \<in> set (waits d v) \<Longrightarrow> u < node_count d"
  using dense.succs_range node_dependencies_waits by blast

text \<open>The edges as a relation on the nodes.\<close>

definition dense_step :: "dense_graph \<Rightarrow> nat \<Rightarrow> nat set" where
  "dense_step d v = (if v < node_count d then set (waits d v) else {})"

section \<open>Outcomes of a polled computation\<close>

text \<open>The computation does not panic, is cancelled only when some poll answers yes, and otherwise
yields a value with the property.\<close>

definition polled_ok :: "polls \<Rightarrow> schedule_error + 'a \<Rightarrow> ('a \<Rightarrow> bool) \<Rightarrow> bool" where
  "polled_ok cancelled r P =
    (case r of Inr x \<Rightarrow> P x | Inl Cancelled \<Rightarrow> (\<exists>i. cancelled i) | Inl Panicked \<Rightarrow> False)"

lemma polled_ok_Inr [simp]: "polled_ok cancelled (Inr x) P = P x"
  by (simp add: polled_ok_def)

lemma polled_ok_Cancelled: "cancelled i \<Longrightarrow> polled_ok cancelled (Inl Cancelled) P"
  by (auto simp: polled_ok_def)

lemma polled_ok_bind:
  assumes "polled_ok cancelled r P" "\<And>x. P x \<Longrightarrow> polled_ok cancelled (f x) Q"
  shows "polled_ok cancelled (res_bind r f) Q"
  using assms by (cases r) (auto simp: polled_ok_def split: schedule_error.splits)

lemma polled_ok_mono: "polled_ok cancelled r P \<Longrightarrow> (\<And>x. P x \<Longrightarrow> Q x) \<Longrightarrow> polled_ok cancelled r Q"
  by (auto simp: polled_ok_def split: sum.splits schedule_error.splits)

lemma polled_ok_total: "polled_ok cancelled r P \<Longrightarrow> \<forall>i. \<not> cancelled i \<Longrightarrow> \<exists>x. r = Inr x \<and> P x"
  by (auto simp: polled_ok_def split: sum.splits schedule_error.splits)

end
