(* ===== verification/Kahn.thy ===== *)
theory Kahn
  imports Dense_Graph
begin

text \<open>The main loop of \<open>schedule_cancellable\<close> (\<open>calculation/graph.rs\<close>): completed areas are
expanded first, then the least ready formula is taken.  The heap of ready formulas is a sorted
list, so its head is what \<open>BinaryHeap<Reverse<u32>>\<close> pops; the vector of completed areas is a
stack.  The loop is shown to end without a panic, and the nodes it completes are characterised.\<close>

section \<open>The loop\<close>

record kahn_state =
  remaining :: "nat list"
  ready :: "nat list"
  completed_areas :: "nat list"

definition heap_push :: "nat \<Rightarrow> nat list \<Rightarrow> nat list" where
  "heap_push v heap = insort v heap"

definition push_complete :: "dense_graph \<Rightarrow> nat \<Rightarrow> kahn_state \<Rightarrow> kahn_state" where
  "push_complete d v s =
    (if is_formula d v then s\<lparr>ready := heap_push v (ready s)\<rparr>
     else s\<lparr>completed_areas := v # completed_areas s\<rparr>)"

text \<open>The start: every node without dependencies is ready.\<close>

definition initial_remaining :: "dense_graph \<Rightarrow> nat list option" where
  "initial_remaining d = map_all (\<lambda>v. map_option length (node_dependencies d v)) [0..<as_u32 (node_count d)]"

definition initial_state :: "dense_graph \<Rightarrow> nat list \<Rightarrow> kahn_state" where
  "initial_state d counts =
    fold (\<lambda>v s. if counts ! v = 0 then push_complete d v s else s) [0..<as_u32 (node_count d)]
      \<lparr>remaining = counts, ready = [], completed_areas = []\<rparr>"

text \<open>\<open>None\<close> is the panic of an index out of bounds or of \<open>*count -= 1\<close> on 0.\<close>

definition release :: "dense_graph \<Rightarrow> kahn_state \<Rightarrow> nat \<Rightarrow> kahn_state option" where
  "release d s v =
    (if v < length (remaining s) \<and> 0 < remaining s ! v
     then let count = remaining s ! v - 1; s' = s\<lparr>remaining := (remaining s)[v := count]\<rparr>
       in Some (if count = 0 then push_complete d v s' else s')
     else None)"

definition complete :: "dense_graph \<Rightarrow> nat \<Rightarrow> kahn_state \<Rightarrow> kahn_state option" where
  "complete d node s = Option.bind (node_dependents d node) (try_fold (release d) s)"

function schedule_loop ::
  "dense_graph \<Rightarrow> polls \<Rightarrow> kahn_state \<Rightarrow> cell_id list \<Rightarrow> nat
    \<Rightarrow> schedule_error + kahn_state \<times> cell_id list \<times> nat" where
  "schedule_loop d cancelled s order polled =
    (case completed_areas s of
      a # areas \<Rightarrow>
        if cancelled polled then Inl Cancelled
        else (case complete d a (s\<lparr>completed_areas := areas\<rparr>) of
          None \<Rightarrow> Inl Panicked
        | Some s' \<Rightarrow> schedule_loop d cancelled s' order (polled + 1))
    | [] \<Rightarrow>
        (case ready s of
          [] \<Rightarrow> Inr (s, order, polled)
        | formula # heap \<Rightarrow>
            if cancelled polled then Inl Cancelled
            else if \<not> formula < length (dense_formulas d) then Inl Panicked
            else (case complete d formula (s\<lparr>ready := heap\<rparr>) of
              None \<Rightarrow> Inl Panicked
            | Some s' \<Rightarrow>
                schedule_loop d cancelled s' (order @ [dense_formulas d ! formula]) (polled + 1))))"
  by pat_completeness auto

section \<open>Termination\<close>

definition work :: "kahn_state \<Rightarrow> nat" where
  "work s = 2 * sum_list (remaining s) + length (ready s) + length (completed_areas s)"

lemma push_complete_work: "work (push_complete d v s) = work s + 1"
  by (simp add: push_complete_def work_def heap_push_def)

lemma sum_list_decrement: "v < length xs \<Longrightarrow> 0 < xs ! v \<Longrightarrow> sum_list (xs[v := xs ! v - 1]) + 1 = sum_list (xs :: nat list)"
  using elem_le_sum_list [of v xs] by (simp add: sum_list_update)

lemma release_work:
  assumes "release d s v = Some s'"
  shows "work s' < work s"
proof -
  have v: "v < length (remaining s)" "0 < remaining s ! v" using assms by (auto simp: release_def split: if_splits)
  let ?t = "s\<lparr>remaining := (remaining s)[v := remaining s ! v - 1]\<rparr>"
  have "work ?t + 2 = work s" using sum_list_decrement [OF v] by (simp add: work_def)
  then show ?thesis
    using assms v by (auto simp: release_def Let_def push_complete_work split: if_splits)
qed

lemma try_fold_release_work: "try_fold (release d) s xs = Some s' \<Longrightarrow> work s' \<le> work s"
proof (induction xs arbitrary: s)
  case (Cons v xs)
  then obtain t where "release d s v = Some t" "try_fold (release d) t xs = Some s'"
    by (auto simp: bind_eq_Some_conv)
  then show ?case using Cons.IH release_work by fastforce
qed simp

lemma complete_work: "complete d node s = Some s' \<Longrightarrow> work s' \<le> work s"
  by (auto simp: complete_def bind_eq_Some_conv dest: try_fold_release_work)

termination schedule_loop
proof (relation "measure (\<lambda>(d, c, s, order, polled). work s)", goal_cases)
  case (2 d cancelled s order polled formula heap s')
  then have "work s' \<le> work (s\<lparr>ready := heap\<rparr>)" using complete_work by blast
  then show ?case using 2 by (simp add: work_def)
next
  case (3 d cancelled s order polled a areas s')
  then have "work s' \<le> work (s\<lparr>completed_areas := areas\<rparr>)" using complete_work by blast
  then show ?case using 3 by (simp add: work_def)
qed simp

declare schedule_loop.simps [simp del]

section \<open>The invariant\<close>

text \<open>\<open>K\<close> is the set of nodes completed so far.  The queues hold exactly the other nodes that wait
for nothing any more.\<close>

definition queued :: "dense_graph \<Rightarrow> nat set \<Rightarrow> kahn_state \<Rightarrow> bool" where
  "queued d K s =
    (length (remaining s) = node_count d \<and> (\<forall>v\<in>K. v < node_count d \<and> remaining s ! v = 0) \<and>
     sorted (ready s) \<and> distinct (ready s) \<and> distinct (completed_areas s) \<and>
     set (ready s) = {v. v < node_count d \<and> is_formula d v \<and> remaining s ! v = 0 \<and> v \<notin> K} \<and>
     set (completed_areas s) = {v. v < node_count d \<and> \<not> is_formula d v \<and> remaining s ! v = 0 \<and> v \<notin> K})"

definition kahn_inv :: "dense_graph \<Rightarrow> nat set \<Rightarrow> kahn_state \<Rightarrow> bool" where
  "kahn_inv d K s =
    (queued d K s \<and>
     (\<forall>v<node_count d. remaining s ! v = length (filter (\<lambda>u. u \<notin> K) (waits d v))) \<and>
     (\<forall>v\<in>K. \<not> on_cycle (dense_step d) v))"

text \<open>A node that waits only for completed nodes is on no cycle.\<close>

lemma completed_no_cycle:
  assumes "\<forall>v\<in>K. dense_step d v \<subseteq> K" "u \<notin> K" "set (waits d u) \<subseteq> K"
  shows "\<not> on_cycle (dense_step d) u"
proof
  assume "on_cycle (dense_step d) u"
  then obtain y where y: "y \<in> K" "reaches (dense_step d) y u"
    using assms(3) by (auto simp: on_cycle_def dense_step_def split: if_splits)
  have "u \<in> K" using y(2,1) by (rule reaches_closed) (use assms(1) in blast)
  then show False using assms(2) by blast
qed

lemma release_queued:
  assumes q: "queued d K s" and v: "v < node_count d" "0 < remaining s ! v"
  shows "\<exists>s'. release d s v = Some s' \<and> queued d K s' \<and>
    remaining s' = (remaining s)[v := remaining s ! v - 1]"
proof -
  let ?t = "s\<lparr>remaining := (remaining s)[v := remaining s ! v - 1]\<rparr>"
  let ?s' = "if remaining s ! v - 1 = 0 then push_complete d v ?t else ?t"
  have len: "length (remaining s) = node_count d" and notK: "v \<notin> K"
    and fresh: "v \<notin> set (ready s)" "v \<notin> set (completed_areas s)"
    using q v by (auto simp: queued_def)
  have "release d s v = Some ?s'"
    using v len by (simp add: release_def Let_def)
  moreover have "queued d K ?s'"
    using q v len notK fresh unfolding queued_def push_complete_def heap_push_def
    by (auto simp: nth_list_update sorted_insort distinct_insort set_insort_key)
  moreover have "remaining ?s' = (remaining s)[v := remaining s ! v - 1]"
    by (simp add: push_complete_def)
  ultimately show ?thesis by blast
qed

lemma release_all:
  assumes "queued d K s" "\<forall>v\<in>set xs. v < node_count d"
    "\<forall>v<node_count d. count_list xs v \<le> remaining s ! v"
  shows "\<exists>s'. try_fold (release d) s xs = Some s' \<and> queued d K s' \<and>
    (\<forall>v<node_count d. remaining s' ! v = remaining s ! v - count_list xs v)"
  using assms
proof (induction xs arbitrary: s)
  case (Cons x xs)
  have x: "x < node_count d" "0 < remaining s ! x" using Cons.prems(2,3) by fastforce+
  obtain t where t: "release d s x = Some t" "queued d K t" "remaining t = (remaining s)[x := remaining s ! x - 1]"
    using release_queued [OF Cons.prems(1) x] by blast
  have len: "length (remaining s) = node_count d" using Cons.prems(1) by (simp add: queued_def)
  have nth: "remaining t ! v = (if v = x then remaining s ! v - 1 else remaining s ! v)"
    if "v < node_count d" for v using that len t(3) by (simp add: nth_list_update)
  have "\<forall>v<node_count d. count_list xs v \<le> remaining t ! v"
    using Cons.prems(3) nth by (fastforce split: if_splits)
  then obtain s' where s': "try_fold (release d) t xs = Some s'" "queued d K s'"
    "\<forall>v<node_count d. remaining s' ! v = remaining t ! v - count_list xs v"
    using Cons.IH [OF t(2)] Cons.prems(2) by auto
  have "\<forall>v<node_count d. remaining s' ! v = remaining s ! v - count_list (x # xs) v"
    using s'(3) nth by auto
  then show ?case using s' t(1) by auto
qed simp

text \<open>Completing a node that waits for nothing more keeps the invariant.\<close>

lemma complete_inv:
  assumes ok: "dense_ok d" and u: "u < node_count d" "u \<notin> K" "set (waits d u) \<subseteq> K"
    and q: "queued d (insert u K) s"
    and counts: "\<forall>v<node_count d. remaining s ! v = length (filter (\<lambda>w. w \<notin> K) (waits d v))"
    and acyclic: "\<forall>v\<in>K. \<not> on_cycle (dense_step d) v"
  shows "\<exists>s'. complete d u s = Some s' \<and> kahn_inv d (insert u K) s'"
proof -
  have "\<forall>v\<in>K. dense_step d v \<subseteq> K"
    using q counts by (auto simp: queued_def dense_step_def filter_empty_conv)
  then have no_cycle: "\<not> on_cycle (dense_step d) u" using completed_no_cycle u(2,3) by blast
  obtain xs where xs: "node_dependents d u = Some xs" using dense.preds_total [OF ok u(1)] by blast
  have split: "remaining s ! v = count_list xs v + length (filter (\<lambda>w. w \<notin> insert u K) (waits d v))"
    if "v < node_count d" for v
    using dense.open_entries [OF ok u(1) that xs node_dependencies_waits [OF ok that] u(2)] counts that by simp
  have "\<forall>v\<in>set xs. v < node_count d" using dense.preds_range [OF ok u(1) xs] by blast
  then obtain s' where "try_fold (release d) s xs = Some s'" "queued d (insert u K) s'"
    "\<forall>v<node_count d. remaining s' ! v = remaining s ! v - count_list xs v"
    using release_all [OF q, of xs] split by auto
  then show ?thesis using xs split acyclic no_cycle by (auto simp: complete_def kahn_inv_def)
qed

lemma queued_pop_area:
  assumes q: "queued d K s" and top: "completed_areas s = a # areas"
  shows "a < node_count d \<and> a \<notin> K \<and> \<not> is_formula d a \<and> remaining s ! a = 0"
    and "queued d (insert a K) (s\<lparr>completed_areas := areas\<rparr>)"
proof -
  have areas: "set (a # areas) = {v. v < node_count d \<and> \<not> is_formula d v \<and> remaining s ! v = 0 \<and> v \<notin> K}"
    and dist: "distinct (a # areas)" using q unfolding queued_def top by blast+
  from areas show a: "a < node_count d \<and> a \<notin> K \<and> \<not> is_formula d a \<and> remaining s ! a = 0" by auto
  have "set areas = set (a # areas) - {a}" using dist by auto
  then have "set areas = {v. v < node_count d \<and> \<not> is_formula d v \<and> remaining s ! v = 0 \<and> v \<notin> insert a K}"
    unfolding areas by blast
  moreover have "set (ready s) = {v. v < node_count d \<and> is_formula d v \<and> remaining s ! v = 0 \<and> v \<notin> insert a K}"
    using q a unfolding queued_def by blast
  ultimately show "queued d (insert a K) (s\<lparr>completed_areas := areas\<rparr>)"
    using q a dist unfolding queued_def by simp
qed

lemma queued_pop_formula:
  assumes q: "queued d K s" and top: "ready s = f # heap"
  shows "f < node_count d \<and> f \<notin> K \<and> is_formula d f \<and> remaining s ! f = 0"
    and "queued d (insert f K) (s\<lparr>ready := heap\<rparr>)"
proof -
  have ready: "set (f # heap) = {v. v < node_count d \<and> is_formula d v \<and> remaining s ! v = 0 \<and> v \<notin> K}"
    and dist: "distinct (f # heap)" "sorted (f # heap)" using q unfolding queued_def top by blast+
  from ready show f: "f < node_count d \<and> f \<notin> K \<and> is_formula d f \<and> remaining s ! f = 0" by auto
  have "set heap = set (f # heap) - {f}" using dist by auto
  then have "set heap = {v. v < node_count d \<and> is_formula d v \<and> remaining s ! v = 0 \<and> v \<notin> insert f K}"
    unfolding ready by blast
  moreover have "set (completed_areas s) =
      {v. v < node_count d \<and> \<not> is_formula d v \<and> remaining s ! v = 0 \<and> v \<notin> insert f K}"
    using q f unfolding queued_def by blast
  ultimately show "queued d (insert f K) (s\<lparr>ready := heap\<rparr>)"
    using q f dist unfolding queued_def by simp
qed

lemma zero_waits: "kahn_inv d K s \<Longrightarrow> v < node_count d \<Longrightarrow> remaining s ! v = 0 \<longleftrightarrow> set (waits d v) \<subseteq> K"
  by (auto simp: kahn_inv_def filter_empty_conv)

lemma kahn_area_step:
  assumes ok: "dense_ok d" and inv: "kahn_inv d K s" and top: "completed_areas s = a # areas"
  shows "\<exists>s'. complete d a (s\<lparr>completed_areas := areas\<rparr>) = Some s' \<and> kahn_inv d (insert a K) s' \<and>
    a < node_count d \<and> a \<notin> K \<and> set (waits d a) \<subseteq> K \<and> \<not> is_formula d a"
proof -
  have q: "queued d K s" using inv by (simp add: kahn_inv_def)
  note a = queued_pop_area [OF q top]
  have w: "set (waits d a) \<subseteq> K" using a(1) zero_waits [OF inv] by blast
  show ?thesis using complete_inv [OF ok _ _ w a(2)] inv a(1) w by (simp add: kahn_inv_def)
qed

lemma kahn_formula_step:
  assumes ok: "dense_ok d" and inv: "kahn_inv d K s" and top: "ready s = f # heap"
  shows "\<exists>s'. complete d f (s\<lparr>ready := heap\<rparr>) = Some s' \<and> kahn_inv d (insert f K) s' \<and>
    f < node_count d \<and> f \<notin> K \<and> set (waits d f) \<subseteq> K \<and> is_formula d f"
proof -
  have q: "queued d K s" using inv by (simp add: kahn_inv_def)
  note f = queued_pop_formula [OF q top]
  have w: "set (waits d f) \<subseteq> K" using f(1) zero_waits [OF inv] by blast
  show ?thesis using complete_inv [OF ok _ _ w f(2)] inv f(1) w by (simp add: kahn_inv_def)
qed

section \<open>The specification: always the first ready formula\<close>

text \<open>The reference the loop implements: from the items \<open>F\<close> in their order, take the first one
not settled whose needs are settled, and go on.\<close>

function greedy :: "'a list \<Rightarrow> ('a \<Rightarrow> 'a set) \<Rightarrow> 'a set \<Rightarrow> 'a list" where
  "greedy F need settled =
    (case filter (\<lambda>v. v \<notin> settled \<and> need v \<subseteq> settled) F of
      [] \<Rightarrow> []
    | v # _ \<Rightarrow> v # greedy F need (insert v settled))"
  by pat_completeness auto

termination
proof (relation "measure (\<lambda>(F, need, settled). card (set F - settled))", goal_cases)
  case (2 F need settled v vs)
  then have "v \<in> set (filter (\<lambda>v. v \<notin> settled \<and> need v \<subseteq> settled) F)" by simp
  then have "set F - insert v settled \<subset> set F - settled" by auto
  then show ?case by (simp add: psubset_card_mono)
qed simp

declare greedy.simps [simp del]

lemma filter_ConsD: "filter P xs = y # ys \<Longrightarrow> y \<in> set xs \<and> P y"
proof -
  assume "filter P xs = y # ys"
  then have "y \<in> set (filter P xs)" by simp
  then show ?thesis by simp
qed

lemma greedy_none:
  "\<forall>v\<in>set F. v \<in> settled \<or> \<not> need v \<subseteq> settled \<Longrightarrow> greedy F need settled = []"
  by (subst greedy.simps) (auto simp: filter_empty_conv split: list.splits)

text \<open>On a sorted list the first ready item is the least one.\<close>

lemma greedy_least:
  fixes v :: "'a::linorder"
  assumes "sorted F" "v \<in> set F" "v \<notin> settled" "need v \<subseteq> settled"
    "\<And>u. u \<in> set F \<Longrightarrow> u \<notin> settled \<Longrightarrow> need u \<subseteq> settled \<Longrightarrow> v \<le> u"
  shows "greedy F need settled = v # greedy F need (insert v settled)"
proof -
  let ?P = "\<lambda>v. v \<notin> settled \<and> need v \<subseteq> settled"
  obtain w ws where w: "filter ?P F = w # ws"
    using assms(2-4) by (cases "filter ?P F") (auto simp: filter_empty_conv)
  have "sorted (w # ws)" using assms(1) w by (metis sorted_wrt_filter)
  moreover have "v \<in> set (w # ws)" unfolding w [symmetric] using assms(2-4) by simp
  ultimately have "w \<le> v" by auto
  then have "w = v" using assms(5) filter_ConsD [OF w] by force
  then show ?thesis using w by (subst greedy.simps) simp
qed

lemma greedy_props:
  "set (greedy F need settled) \<subseteq> set F - settled \<and> distinct (greedy F need settled)
    \<and> (\<forall>i<length (greedy F need settled).
        need (greedy F need settled ! i) \<subseteq> settled \<union> set (take i (greedy F need settled)))
    \<and> (\<forall>v\<in>set F. v \<notin> settled \<longrightarrow> v \<notin> set (greedy F need settled) \<longrightarrow>
        \<not> need v \<subseteq> settled \<union> set (greedy F need settled))"
proof (induction F need settled rule: greedy.induct)
  case (1 F need settled)
  let ?P = "\<lambda>v. v \<notin> settled \<and> need v \<subseteq> settled"
  show ?case
  proof (cases "filter ?P F")
    case Nil
    then have "greedy F need settled = []" by (intro greedy_none) (auto simp: filter_empty_conv)
    then show ?thesis using Nil by (auto simp: filter_empty_conv)
  next
    case (Cons v vs)
    then have eq: "greedy F need settled = v # greedy F need (insert v settled)"
      by (subst greedy.simps) simp
    have v: "v \<in> set F" "?P v" using filter_ConsD [OF Cons] by blast+
    note IH = 1 [OF Cons]
    show ?thesis unfolding eq
    proof (intro conjI)
      show "\<forall>i<length (v # greedy F need (insert v settled)).
          need ((v # greedy F need (insert v settled)) ! i) \<subseteq>
          settled \<union> set (take i (v # greedy F need (insert v settled)))"
        using IH v by (auto simp: nth_Cons split: nat.splits)
    qed (use IH v in auto)
  qed
qed

section \<open>Needs through areas\<close>

definition area_step :: "dense_graph \<Rightarrow> nat \<Rightarrow> nat set" where
  "area_step d v = (if is_formula d v then {} else dense_step d v)"

definition need :: "dense_graph \<Rightarrow> nat \<Rightarrow> nat set" where
  "need d v = {f. is_formula d f \<and> (\<exists>u\<in>set (waits d v). reaches (area_step d) u f)}"

text \<open>An area holds only areas numbered before it.\<close>

definition areas_ordered :: "dense_graph \<Rightarrow> bool" where
  "areas_ordered d =
    (\<forall>a<node_count d. \<not> is_formula d a \<longrightarrow> (\<forall>u\<in>set (waits d a). is_formula d u \<or> u < a))"

text \<open>\<open>K\<close> is settled when it holds exactly the areas whose members it holds.\<close>

definition areas_settled :: "dense_graph \<Rightarrow> nat set \<Rightarrow> bool" where
  "areas_settled d K = (\<forall>a<node_count d. \<not> is_formula d a \<longrightarrow> (a \<in> K \<longleftrightarrow> set (waits d a) \<subseteq> K))"

lemma formula_reaches: "is_formula d u \<Longrightarrow> reaches (area_step d) u f \<longleftrightarrow> f = u"
  using reaches_cases [of "area_step d" u f] by (auto simp: area_step_def)

lemma settled_member:
  assumes "areas_settled d K" "dense_ok d" "areas_ordered d" "u < node_count d"
  shows "u \<in> K \<longleftrightarrow> (\<forall>f. is_formula d f \<longrightarrow> reaches (area_step d) u f \<longrightarrow> f \<in> K)"
  using assms(4)
proof (induction u rule: less_induct)
  case (less a)
  show ?case
  proof (cases "is_formula d a")
    case True
    then show ?thesis by (simp add: formula_reaches)
  next
    case area: False
    have member: "u \<in> K \<longleftrightarrow> (\<forall>f. is_formula d f \<longrightarrow> reaches (area_step d) u f \<longrightarrow> f \<in> K)"
      if u: "u \<in> set (waits d a)" for u
    proof (cases "is_formula d u")
      case False
      then have "u < a" using assms(3) less.prems area u by (auto simp: areas_ordered_def)
      then show ?thesis using less.IH waits_range [OF assms(2) less.prems u] by blast
    qed (simp add: formula_reaches)
    have reach: "reaches (area_step d) a f \<longleftrightarrow> (\<exists>u\<in>set (waits d a). reaches (area_step d) u f)"
      if "is_formula d f" for f
      using that area less.prems reaches_cases [of "area_step d" a f] reaches_step [of _ "area_step d" a f]
      by (auto simp: area_step_def dense_step_def)
    have "a \<in> K \<longleftrightarrow> (\<forall>u\<in>set (waits d a). u \<in> K)"
      using assms(1) less.prems area by (auto simp: areas_settled_def)
    then show ?thesis using member reach by metis
  qed
qed

lemma settled_need:
  assumes "areas_settled d K" "dense_ok d" "areas_ordered d" "v < node_count d"
  shows "set (waits d v) \<subseteq> K \<longleftrightarrow> need d v \<subseteq> K"
  using settled_member [OF assms(1-3)] waits_range [OF assms(2,4)] unfolding need_def by blast

section \<open>The loop implements the specification\<close>

text \<open>The loops run over \<open>0..node_count() as u32\<close>, which is every node when their number is a \<open>u32\<close>.\<close>

lemma as_u32_id: "n < u32_bound \<Longrightarrow> as_u32 n = n"
  by (simp add: as_u32_def)

lemma initial_remaining_Some:
  "dense_ok d \<Longrightarrow> node_count d < u32_bound \<Longrightarrow> initial_remaining d = Some (map (\<lambda>v. length (waits d v)) [0..<node_count d])"
  unfolding initial_remaining_def as_u32_id by (rule map_all_Some) (simp add: node_dependencies_waits)

lemma initial_fold:
  fixes d counts
  defines "s m \<equiv> fold (\<lambda>v s. if counts ! v = 0 then push_complete d v s else s) [0..<m]
      \<lparr>remaining = counts, ready = [], completed_areas = []\<rparr>"
  shows "remaining (s m) = counts \<and> sorted (ready (s m)) \<and> distinct (ready (s m)) \<and>
    distinct (completed_areas (s m)) \<and>
    set (ready (s m)) = {v. v < m \<and> is_formula d v \<and> counts ! v = 0} \<and>
    set (completed_areas (s m)) = {v. v < m \<and> \<not> is_formula d v \<and> counts ! v = 0}"
proof (induction m)
  case (Suc m)
  have step: "s (Suc m) = (if counts ! m = 0 then push_complete d m (s m) else s m)"
    by (simp add: s_def)
  have less: "{v. v < Suc m \<and> P v} = (if P m then insert m {v. v < m \<and> P v} else {v. v < m \<and> P v})" for P
    by (auto simp: less_Suc_eq)
  show ?case
    using Suc unfolding step push_complete_def heap_push_def less
    by (simp add: set_insort_key sorted_insort distinct_insort)
qed (simp add: s_def)

lemma initial_inv:
  assumes "node_count d < u32_bound"
  shows "kahn_inv d {} (initial_state d (map (\<lambda>v. length (waits d v)) [0..<node_count d]))"
  using initial_fold [of "map (\<lambda>v. length (waits d v)) [0..<node_count d]" d "node_count d"]
  by (simp add: kahn_inv_def queued_def initial_state_def as_u32_id [OF assms])

lemma dense_formulas_le: "dense_ok d \<Longrightarrow> length (dense_formulas d) \<le> node_count d"
  by (auto simp: dense_ok_def represents_def)

lemma kahn_settled:
  assumes "kahn_inv d K s" "completed_areas s = []"
  shows "areas_settled d K"
proof -
  have q: "queued d K s" using assms(1) by (simp add: kahn_inv_def)
  have "a \<in> K \<longleftrightarrow> set (waits d a) \<subseteq> K" if "a < node_count d" "\<not> is_formula d a" for a
    using that q assms(2) zero_waits [OF assms(1) that(1)] by (auto simp: queued_def)
  then show ?thesis by (simp add: areas_settled_def)
qed

definition formula_set :: "dense_graph \<Rightarrow> nat set" where
  "formula_set d = {..<length (dense_formulas d)}"

lemma is_formula_set: "is_formula d v \<longleftrightarrow> v \<in> formula_set d"
  by (simp add: is_formula_def formula_set_def)

lemma upt_formula_set: "set [0..<length (dense_formulas d)] = formula_set d"
  by (auto simp: formula_set_def)

lemma need_subset [simp]: "need d v \<subseteq> formula_set d"
  by (auto simp: need_def is_formula_set)

lemma need_formulas: "need d v \<subseteq> K \<inter> formula_set d \<longleftrightarrow> need d v \<subseteq> K"
  by (auto simp: need_def is_formula_set)

text \<open>Among the formulas, the ready ones are those whose needs are completed.\<close>

lemma ready_iff:
  assumes "dense_ok d" "areas_ordered d" "kahn_inv d K s" "completed_areas s = []"
  shows "v \<in> set (ready s) \<longleftrightarrow> v \<in> formula_set d \<and> v \<notin> K \<and> need d v \<subseteq> K"
proof -
  have q: "queued d K s" using assms(3) by (simp add: kahn_inv_def)
  have "v < node_count d" if "v \<in> formula_set d"
    using that dense_formulas_le [OF assms(1)] by (simp add: formula_set_def)
  then show ?thesis
    using q zero_waits [OF assms(3)] settled_need [OF kahn_settled [OF assms(3,4)] assms(1,2)]
    unfolding queued_def is_formula_set by (metis (mono_tags, lifting) mem_Collect_eq)
qed

abbreviation greedy_nodes :: "dense_graph \<Rightarrow> nat set \<Rightarrow> nat list" where
  "greedy_nodes d K \<equiv> greedy [0..<length (dense_formulas d)] (need d) (K \<inter> formula_set d)"

lemma greedy_stops:
  assumes "dense_ok d" "areas_ordered d" "kahn_inv d K s" "completed_areas s = []" "ready s = []"
  shows "greedy_nodes d K = []"
  using ready_iff [OF assms(1-4)] assms(5)
  by (intro greedy_none) (auto simp: need_formulas upt_formula_set simp del: set_upt)

lemma greedy_takes:
  assumes "dense_ok d" "areas_ordered d" "kahn_inv d K s" "completed_areas s = []" "ready s = f # heap"
  shows "greedy_nodes d K = f # greedy_nodes d (insert f K)"
proof -
  have "sorted (f # heap)" using assms(3,5) unfolding kahn_inv_def queued_def by metis
  then have least: "f \<le> u" if "u \<in> set (ready s)" for u using that assms(5) by auto
  have f: "f \<in> formula_set d" "f \<notin> K" "need d f \<subseteq> K"
    using ready_iff [OF assms(1-4), of f] assms(5) by auto
  then have "insert f K \<inter> formula_set d = insert f (K \<inter> formula_set d)" by auto
  moreover have "greedy_nodes d K = f # greedy [0..<length (dense_formulas d)] (need d) (insert f (K \<inter> formula_set d))"
  proof (rule greedy_least)
    fix u assume "u \<in> set [0..<length (dense_formulas d)]" "u \<notin> K \<inter> formula_set d"
      "need d u \<subseteq> K \<inter> formula_set d"
    then show "f \<le> u" using least ready_iff [OF assms(1-4), of u] by (simp add: upt_formula_set need_formulas del: set_upt)
  qed (use f in \<open>simp_all add: upt_formula_set need_formulas del: set_upt\<close>)
  ultimately show ?thesis by simp
qed

text \<open>The loop ends with the order of the specification, or with \<open>Cancelled\<close> after a poll that
answered yes; it does not panic.\<close>

definition loop_result ::
  "dense_graph \<Rightarrow> polls \<Rightarrow> nat set \<Rightarrow> cell_id list \<Rightarrow> nat
    \<Rightarrow> schedule_error + kahn_state \<times> cell_id list \<times> nat \<Rightarrow> bool" where
  "loop_result d cancelled K order polled r \<longleftrightarrow>
    (\<exists>m. polled_between cancelled polled (polled + m) \<and> r = Inl Cancelled) \<or>
    (\<exists>m s' K'. \<not> polled_between cancelled polled (polled + m) \<and>
      r = Inr (s', order @ map ((!) (dense_formulas d)) (greedy_nodes d K), polled + m) \<and>
      kahn_inv d K' s' \<and> ready s' = [] \<and> completed_areas s' = [] \<and>
      K' \<inter> formula_set d = K \<inter> formula_set d \<union> set (greedy_nodes d K))"

lemma loop_result_cancelled: "cancelled polled \<Longrightarrow> loop_result d cancelled K order polled (Inl Cancelled)"
  unfolding loop_result_def by (intro disjI1 exI [of _ 1]) (simp add: polled_between_Suc)

lemma loop_result_step:
  assumes "loop_result d cancelled (insert v K) order' (Suc polled) r" "\<not> cancelled polled"
    "order' @ map ((!) (dense_formulas d)) (greedy_nodes d (insert v K)) =
      order @ map ((!) (dense_formulas d)) (greedy_nodes d K)"
    "insert v K \<inter> formula_set d \<union> set (greedy_nodes d (insert v K)) =
      K \<inter> formula_set d \<union> set (greedy_nodes d K)"
  shows "loop_result d cancelled K order polled r"
proof -
  have polls: "polled_between cancelled polled (polled + Suc m) =
      polled_between cancelled (Suc polled) (Suc polled + m)" for m
    using assms(2) by (simp add: polled_between_Suc)
  show ?thesis
    using assms(1) unfolding loop_result_def assms(3,4) polls [symmetric]
    by (metis add_Suc_shift)
qed

lemma schedule_loop_correct:
  assumes "dense_ok d" "areas_ordered d" "kahn_inv d K s"
  shows "loop_result d cancelled K order polled (schedule_loop d cancelled s order polled)"
  using assms
proof (induction d cancelled s order polled arbitrary: K rule: schedule_loop.induct)
  case (1 d cancelled s order polled)
  show ?case
  proof (cases "cancelled polled \<and> (completed_areas s \<noteq> [] \<or> ready s \<noteq> [])")
    case True
    then have "schedule_loop d cancelled s order polled = Inl Cancelled"
      by (subst schedule_loop.simps) (auto split: list.splits)
    then show ?thesis using True loop_result_cancelled by simp
  next
    case polled: False
    consider (area) a areas where "completed_areas s = a # areas"
      | (formula) f heap where "completed_areas s = []" "ready s = f # heap"
      | (stop) "completed_areas s = []" "ready s = []"
      by (meson neq_Nil_conv)
    then show ?thesis
    proof cases
      case area
      obtain s' where s': "complete d a (s\<lparr>completed_areas := areas\<rparr>) = Some s'" "kahn_inv d (insert a K) s'"
        and a: "\<not> is_formula d a" using kahn_area_step [OF 1(3,5) area] by blast
      have eq: "insert a K \<inter> formula_set d = K \<inter> formula_set d" using a by (auto simp: is_formula_set)
      have no: "\<not> cancelled polled" using polled area by simp
      have "loop_result d cancelled K order polled (schedule_loop d cancelled s' order (polled + 1))"
        by (rule loop_result_step [of _ _ a _ order])
          (use 1(2) [OF area no s'(1) 1(3,4) s'(2)] no in \<open>simp_all add: eq\<close>)
      then show ?thesis using no by (subst schedule_loop.simps) (simp add: area s'(1))
    next
      case formula
      obtain s' where s': "complete d f (s\<lparr>ready := heap\<rparr>) = Some s'" "kahn_inv d (insert f K) s'"
        and f: "f \<in> formula_set d" using kahn_formula_step [OF 1(3,5) formula(2)] by (auto simp: is_formula_set)
      have no: "\<not> cancelled polled" and len: "f < length (dense_formulas d)"
        using polled formula f by (simp_all add: formula_set_def)
      have "loop_result d cancelled K order polled
          (schedule_loop d cancelled s' (order @ [dense_formulas d ! f]) (polled + 1))"
        by (rule loop_result_step [of _ _ f _ "order @ [dense_formulas d ! f]"])
          (use 1(1) [OF formula no _ s'(1) 1(3,4) s'(2)] no len f
            greedy_takes [OF 1(3-5) formula] in \<open>auto\<close>)
      then show ?thesis using no len by (subst schedule_loop.simps) (simp add: formula s'(1))
    next
      case stop
      then have "schedule_loop d cancelled s order polled = Inr (s, order, polled)"
        by (subst schedule_loop.simps) simp
      then show ?thesis
        using greedy_stops [OF 1(3-5) stop] stop 1(5) unfolding loop_result_def
        by (intro disjI2 exI [of _ 0] exI [of _ s] exI [of _ K]) simp
    qed
  qed
qed

end
