(* ===== verification/Cycles.thy ===== *)
theory Cycles
  imports Dense_Graph
begin

text \<open>\<open>cycle_members\<close> of \<open>calculation/graph.rs\<close>: the unresolved nodes on a cycle, found by two
passes without recursion.  The first walks the dependencies depth first and lists the nodes in the
order they are finished; the second takes them in reverse and collects, over the dependents, the
nodes not yet assigned.  Both passes poll for cancellation at every step.

Stacks have their top at the head; \<open>finished\<close> is such a stack, so the second pass runs through
it from the head.\<close>

section \<open>The first pass\<close>

definition unresolved_node :: "nat list \<Rightarrow> nat \<Rightarrow> bool" where
  "unresolved_node counts v = (v < length counts \<and> 0 < counts ! v)"

record dfs_state =
  visited :: "bool list"
  finished :: "nat list"
  dfs_polls :: nat

function dfs_loop ::
  "dense_graph \<Rightarrow> nat list \<Rightarrow> polls \<Rightarrow> (nat \<times> bool) list \<Rightarrow> dfs_state \<Rightarrow> schedule_error + dfs_state" where
  "dfs_loop d counts cancelled [] s = Inr s"
| "dfs_loop d counts cancelled ((node, expanded) # pending) s =
    (let t = s\<lparr>dfs_polls := dfs_polls s + 1\<rparr>
     in if cancelled (dfs_polls s) then Inl Cancelled
        else if expanded then dfs_loop d counts cancelled pending (t\<lparr>finished := node # finished s\<rparr>)
        else if \<not> node < length (visited s) then Inl Panicked
        else if visited s ! node then dfs_loop d counts cancelled pending t
        else
          (case node_dependencies d node of
            None \<Rightarrow> Inl Panicked
          | Some nexts \<Rightarrow>
              let seen = (visited s)[node := True]
              in if \<exists>w\<in>set nexts. \<not> w < length counts \<or> 0 < counts ! w \<and> \<not> w < length seen then Inl Panicked
                 else dfs_loop d counts cancelled
                   (map (\<lambda>w. (w, False)) (filter (\<lambda>w. unresolved_node counts w \<and> \<not> seen ! w) nexts)
                     @ (node, True) # pending)
                   (t\<lparr>visited := seen\<rparr>)))"
  by pat_completeness auto

fun dfs_starts ::
  "dense_graph \<Rightarrow> nat list \<Rightarrow> polls \<Rightarrow> nat list \<Rightarrow> dfs_state \<Rightarrow> schedule_error + dfs_state" where
  "dfs_starts d counts cancelled [] s = Inr s"
| "dfs_starts d counts cancelled (start # rest) s =
    (let t = s\<lparr>dfs_polls := dfs_polls s + 1\<rparr>
     in if cancelled (dfs_polls s) then Inl Cancelled
        else if \<not> start < length (visited s) then Inl Panicked
        else if visited s ! start then dfs_starts d counts cancelled rest t
        else res_bind (dfs_loop d counts cancelled [(start, False)] t)
          (dfs_starts d counts cancelled rest))"

section \<open>The second pass\<close>

record component_state =
  assigned :: "bool list"
  component :: "nat list"
  component_pending :: "nat list"

definition assign_dependent :: "nat list \<Rightarrow> component_state \<Rightarrow> nat \<Rightarrow> component_state option" where
  "assign_dependent counts s w =
    (if \<not> w < length counts then None
     else if counts ! w = 0 then Some s
     else if \<not> w < length (assigned s) then None
     else if assigned s ! w then Some s
     else Some (s\<lparr>assigned := (assigned s)[w := True], component := w # component s,
       component_pending := w # component_pending s\<rparr>))"

function component_loop ::
  "dense_graph \<Rightarrow> nat list \<Rightarrow> polls \<Rightarrow> component_state \<Rightarrow> nat \<Rightarrow> schedule_error + component_state \<times> nat" where
  "component_loop d counts cancelled s polled =
    (case component_pending s of
      [] \<Rightarrow> Inr (s, polled)
    | node # pending \<Rightarrow>
        if cancelled polled then Inl Cancelled
        else (case Option.bind (node_dependents d node)
            (try_fold (assign_dependent counts) (s\<lparr>component_pending := pending\<rparr>)) of
          None \<Rightarrow> Inl Panicked
        | Some s' \<Rightarrow> component_loop d counts cancelled s' (polled + 1)))"
  by pat_completeness auto

text \<open>The component of one start, with its place in the result.\<close>

definition cycle_of :: "dense_graph \<Rightarrow> nat \<Rightarrow> nat list \<Rightarrow> nat set \<Rightarrow> nat set option" where
  "cycle_of d start nodes result =
    map_option (\<lambda>deps. if 1 < length nodes \<or> start \<in> set deps then result \<union> set nodes else result)
      (node_dependencies d start)"

fun component_starts ::
  "dense_graph \<Rightarrow> nat list \<Rightarrow> polls \<Rightarrow> nat list \<Rightarrow> bool list \<Rightarrow> nat set \<Rightarrow> nat
    \<Rightarrow> schedule_error + nat set \<times> nat" where
  "component_starts d counts cancelled [] marks result polled = Inr (result, polled)"
| "component_starts d counts cancelled (start # rest) marks result polled =
    (if cancelled polled then Inl Cancelled
     else if \<not> start < length marks then Inl Panicked
     else if marks ! start then component_starts d counts cancelled rest marks result (polled + 1)
     else res_bind
       (component_loop d counts cancelled
         \<lparr>assigned = marks[start := True], component = [start], component_pending = [start]\<rparr> (polled + 1))
       (\<lambda>(s, polled). case cycle_of d start (component s) result of
          None \<Rightarrow> Inl Panicked
        | Some result' \<Rightarrow> component_starts d counts cancelled rest (assigned s) result' polled))"

definition cycle_members ::
  "dense_graph \<Rightarrow> nat list \<Rightarrow> nat list \<Rightarrow> polls \<Rightarrow> nat \<Rightarrow> schedule_error + nat set \<times> nat" where
  "cycle_members d unresolved counts cancelled polled =
    res_bind
      (dfs_starts d counts cancelled unresolved
        \<lparr>visited = replicate (node_count d) False, finished = [], dfs_polls = polled\<rparr>)
      (\<lambda>s. component_starts d counts cancelled (finished s) (replicate (node_count d) False) {} (dfs_polls s))"

section \<open>Termination\<close>

termination dfs_loop
  by (relation "measures [\<lambda>(_, _, _, _, s). length (filter Not (visited s)), \<lambda>(_, _, _, p, _). length p]")
    (auto simp: unmarked_less Let_def)

definition component_work :: "component_state \<Rightarrow> nat" where
  "component_work s = length (filter Not (assigned s)) + length (component_pending s)"

lemma assign_dependent_work:
  assumes "assign_dependent counts s w = Some s'"
  shows "component_work s' \<le> component_work s"
  using assms unmarked_less [of w "assigned s"]
  by (auto simp: assign_dependent_def component_work_def split: if_splits)

lemma try_fold_assign_work:
  "try_fold (assign_dependent counts) s xs = Some s' \<Longrightarrow> component_work s' \<le> component_work s"
proof (induction xs arbitrary: s)
  case (Cons w xs)
  then obtain t where "assign_dependent counts s w = Some t" "try_fold (assign_dependent counts) t xs = Some s'"
    by (auto simp: bind_eq_Some_conv)
  then show ?case using Cons.IH assign_dependent_work by fastforce
qed simp

termination component_loop
proof (relation "measure (\<lambda>(d, counts, c, s, polled). component_work s)", goal_cases)
  case (2 d counts cancelled s polled node pending s')
  then have "component_work s' \<le> component_work (s\<lparr>component_pending := pending\<rparr>)"
    using try_fold_assign_work by (auto simp: bind_eq_Some_conv)
  then show ?case using 2 by (simp add: component_work_def)
qed simp

declare component_loop.simps [simp del]

section \<open>The first pass lists the nodes in finishing order\<close>

definition open_nodes :: "nat list \<Rightarrow> nat set" where
  "open_nodes counts = {v. unresolved_node counts v}"

text \<open>The edges between unresolved nodes.\<close>

definition open_step :: "dense_graph \<Rightarrow> nat list \<Rightarrow> nat \<Rightarrow> nat set" where
  "open_step d counts v = (if v \<in> open_nodes counts then set (waits d v) \<inter> open_nodes counts else {})"

text \<open>A path from \<open>b\<close> to \<open>g\<close> on which every node but the last is in \<open>B\<close>.\<close>

inductive path_in :: "('a \<Rightarrow> 'a set) \<Rightarrow> 'a set \<Rightarrow> 'a \<Rightarrow> 'a \<Rightarrow> bool" for step B where
  path_edge: "b \<in> B \<Longrightarrow> g \<in> step b \<Longrightarrow> path_in step B b g"
| path_cons: "b \<in> B \<Longrightarrow> c \<in> step b \<Longrightarrow> path_in step B c g \<Longrightarrow> path_in step B b g"

lemma path_in_last: "path_in step B b g \<Longrightarrow> \<exists>p\<in>B. g \<in> step p"
  by (induction rule: path_in.induct) auto

lemma path_in_insert:
  "path_in step (insert v B) b g \<Longrightarrow> path_in step B b g \<or> b = v \<or> path_in step B b v"
  by (induction rule: path_in.induct) (auto intro: path_in.intros)

text \<open>A list of finished nodes, latest first, is in finishing order when every node that reaches
one of them through nodes finished earlier is reached from it in turn.\<close>

fun finish_order :: "('a \<Rightarrow> 'a set) \<Rightarrow> 'a list \<Rightarrow> bool" where
  "finish_order step [] = True"
| "finish_order step (x # ys) =
    ((\<forall>y. path_in step (set ys) y x \<longrightarrow> reaches step x y) \<and> finish_order step ys)"

text \<open>The stack: an entry is a successor of the next expanded node below it.\<close>

fun top_expanded :: "(nat \<times> bool) list \<Rightarrow> nat option" where
  "top_expanded [] = None"
| "top_expanded ((x, expanded) # p) = (if expanded then Some x else top_expanded p)"

fun stack_ok :: "(nat \<Rightarrow> nat set) \<Rightarrow> (nat \<times> bool) list \<Rightarrow> bool" where
  "stack_ok step [] = True"
| "stack_ok step ((x, expanded) # p) =
    ((\<forall>g. top_expanded p = Some g \<longrightarrow> x \<in> step g) \<and> stack_ok step p)"

text \<open>Every successor of an expanded node is visited or waits above it.\<close>

fun expanded_ok :: "(nat \<Rightarrow> nat set) \<Rightarrow> nat set \<Rightarrow> (nat \<times> bool) list \<Rightarrow> bool" where
  "expanded_ok step A [] = True"
| "expanded_ok step A ((x, expanded) # p) =
    (if expanded then step x \<subseteq> A \<and> expanded_ok step A p else expanded_ok step (insert x A) p)"

definition gray :: "(nat \<times> bool) list \<Rightarrow> nat set" where
  "gray p = {v. (v, True) \<in> set p}"

lemma expanded_ok_mono: "expanded_ok step A p \<Longrightarrow> A \<subseteq> A' \<Longrightarrow> expanded_ok step A' p"
proof (induction step A p arbitrary: A' rule: expanded_ok.induct)
  case (2 step A x expanded p)
  then show ?case using 2(2) [of "insert x A'"] by (cases expanded) auto
qed simp

lemma expanded_ok_pushed:
  "expanded_ok step A (map (\<lambda>w. (w, False)) ws @ p) = expanded_ok step (A \<union> set ws) p"
  by (induction ws arbitrary: A) auto

lemma stack_chain:
  assumes "stack_ok step ((x, expanded) # p)" "g \<in> gray p"
  shows "reaches step g x"
  using assms
proof (induction p arbitrary: x expanded)
  case (Cons e p)
  obtain y expanded' where e: "e = (y, expanded')" by fastforce
  show ?case
  proof (cases expanded')
    case True
    then have "x \<in> step y" "g = y \<or> reaches step g y"
      using Cons.prems Cons.IH [of y expanded'] by (auto simp: e gray_def)
    moreover from this(1) have "reaches step y x" by (rule reaches_step) simp
    ultimately show ?thesis using reaches_trans [of step g y x] by auto
  next
    case False
    then show ?thesis using Cons.prems Cons.IH [of x expanded] by (auto simp: e gray_def)
  qed
qed (simp add: gray_def)

lemma stack_ok_pushed:
  "stack_ok step ((v, True) # p) \<Longrightarrow> set ws \<subseteq> step v \<Longrightarrow>
    stack_ok step (map (\<lambda>w. (w, False)) ws @ (v, True) # p)
    \<and> top_expanded (map (\<lambda>w. (w, False)) ws @ (v, True) # p) = Some v"
  by (induction ws) auto

definition visited_set :: "bool list \<Rightarrow> nat set" where
  "visited_set bs = {v. v < length bs \<and> bs ! v}"

definition dfs_inv :: "(nat \<Rightarrow> nat set) \<Rightarrow> nat set \<Rightarrow> (nat \<times> bool) list \<Rightarrow> nat set \<Rightarrow> nat list \<Rightarrow> bool" where
  "dfs_inv step U p V F =
    (V = set F \<union> gray p \<and> set F \<inter> gray p = {} \<and> V \<subseteq> U \<and> fst ` set p \<subseteq> U \<and>
     distinct F \<and> distinct (map fst (filter snd p)) \<and>
     stack_ok step p \<and> expanded_ok step V p \<and> (\<forall>b\<in>set F. step b \<subseteq> V) \<and>
     (\<forall>g\<in>gray p. \<forall>b. path_in step (set F) b g \<longrightarrow> reaches step g b) \<and> finish_order step F)"

lemma dfs_inv_finish:
  assumes "dfs_inv step U ((v, True) # p) V F"
  shows "dfs_inv step U p V (v # F)"
proof -
  have gray: "gray ((v, True) # p) = insert v (gray p)" by (auto simp: gray_def)
  have v: "v \<notin> gray p" "v \<notin> set F" using assms by (force simp: dfs_inv_def gray_def image_iff)+
  have "reaches step g b" if g: "g \<in> gray p" and path: "path_in step (insert v (set F)) b g" for g b
  proof -
    have chain: "reaches step g v" using assms g stack_chain by (auto simp: dfs_inv_def)
    consider "path_in step (set F) b g" | "b = v" | "path_in step (set F) b v"
      using path_in_insert [OF path] by blast
    then show ?thesis
      using assms g chain reaches_trans [of step g v b] unfolding dfs_inv_def gray by cases auto
  qed
  then show ?thesis using assms v unfolding dfs_inv_def gray by auto
qed

lemma dfs_inv_skip:
  assumes "dfs_inv step U ((v, False) # p) V F" "v \<in> V"
  shows "dfs_inv step U p V F"
proof -
  have "gray ((v, False) # p) = gray p" by (auto simp: gray_def)
  then show ?thesis using assms by (auto simp: dfs_inv_def insert_absorb)
qed

lemma dfs_inv_expand:
  assumes inv: "dfs_inv step U ((v, False) # p) V F" and v: "v \<notin> V"
    and ws: "step v \<subseteq> insert v V \<union> set ws" "set ws \<subseteq> step v" "set ws \<subseteq> U"
  shows "dfs_inv step U (map (\<lambda>w. (w, False)) ws @ (v, True) # p) (insert v V) F"
proof -
  let ?p = "map (\<lambda>w. (w, False)) ws @ (v, True) # p"
  have gray: "gray ?p = insert v (gray p)" "gray ((v, False) # p) = gray p" by (auto simp: gray_def)
  have noflag: "filter snd (map (\<lambda>w. (w, False)) ws) = []" for ws :: "nat list" by simp
  have "v \<notin> fst ` set (filter snd p)" using inv v by (force simp: dfs_inv_def gray_def image_iff)
  moreover have below: "expanded_ok step (insert v V) p" using inv by (auto simp: dfs_inv_def)
  moreover have "\<not> path_in step (set F) b v" for b
    using path_in_last [of step "set F" b v] inv v unfolding dfs_inv_def by blast
  moreover have "stack_ok step ?p" using stack_ok_pushed [of step v p ws] inv ws(2) by (simp add: dfs_inv_def)
  moreover have "expanded_ok step (insert v V) ?p"
    using ws(1) expanded_ok_mono [OF below, of "insert v V \<union> set ws"] unfolding expanded_ok_pushed by auto
  ultimately show ?thesis
    using inv v ws(3) unfolding dfs_inv_def gray by (auto simp: noflag)
qed

lemma visited_set_update: "v < length bs \<Longrightarrow> visited_set (bs[v := True]) = insert v (visited_set bs)"
  by (auto simp: visited_set_def nth_list_update split: if_splits)

lemma open_nodes_iff: "w \<in> open_nodes counts \<longleftrightarrow> w < length counts \<and> 0 < counts ! w"
  by (simp add: open_nodes_def unresolved_node_def)

lemma dfs_loop_correct:
  assumes "dense_ok d" "length counts = node_count d" "length (visited s) = node_count d"
    "dfs_inv (open_step d counts) (open_nodes counts) p (visited_set (visited s)) (finished s)"
  shows "polled_ok cancelled (dfs_loop d counts cancelled p s) (\<lambda>s'.
    length (visited s') = node_count d \<and>
    dfs_inv (open_step d counts) (open_nodes counts) [] (visited_set (visited s')) (finished s') \<and>
    visited_set (visited s) \<union> fst ` set p \<subseteq> visited_set (visited s'))"
  using assms
proof (induction d counts cancelled p s rule: dfs_loop.induct)
  case (2 d counts cancelled v expanded p s)
  let ?step = "open_step d counts" and ?U = "open_nodes counts" and ?V = "visited_set (visited s)"
  show ?case
  proof (cases "cancelled (dfs_polls s)")
    case True
    then show ?thesis by (simp add: Let_def polled_ok_Cancelled)
  next
    case no: False
    have vU: "v \<in> ?U" using 2(7) by (auto simp: dfs_inv_def)
    then have v: "v < node_count d" "v < length (visited s)" using 2(5,6) by (auto simp: open_nodes_iff)
    show ?thesis
    proof (cases expanded)
      case True
      then have "v \<in> ?V" using 2(7) by (auto simp: dfs_inv_def gray_def)
      moreover have "dfs_inv ?step ?U p ?V (v # finished s)" by (rule dfs_inv_finish) (use 2(7) True in simp)
      moreover have eq: "dfs_loop d counts cancelled ((v, expanded) # p) s =
          dfs_loop d counts cancelled p (s\<lparr>dfs_polls := dfs_polls s + 1, finished := v # finished s\<rparr>)"
        using no True by (simp add: Let_def)
      ultimately show ?thesis
        unfolding eq by (intro polled_ok_mono [OF 2(1) [OF refl no True 2(4,5)]]) (use 2(6) in auto)
    next
      case new: False
      show ?thesis
      proof (cases "visited s ! v")
        case True
        then have vV: "v \<in> ?V" using v by (simp add: visited_set_def)
        moreover have "dfs_inv ?step ?U p ?V (finished s)" by (rule dfs_inv_skip [OF _ vV]) (use 2(7) new in simp)
        moreover have eq: "dfs_loop d counts cancelled ((v, expanded) # p) s =
            dfs_loop d counts cancelled p (s\<lparr>dfs_polls := dfs_polls s + 1\<rparr>)"
          using no new True v by (simp add: Let_def)
        ultimately show ?thesis
          unfolding eq by (intro polled_ok_mono [OF 2(2) [OF refl no new _ True 2(4,5)]]) (use v 2(6) in auto)
      next
        case False
        let ?seen = "(visited s)[v := True]"
        let ?ws = "filter (\<lambda>w. unresolved_node counts w \<and> \<not> ?seen ! w) (waits d v)"
        let ?p = "map (\<lambda>w. (w, False)) ?ws @ (v, True) # p"
        note deps = node_dependencies_waits [OF 2(4) v(1)]
        have range: "\<not> (\<exists>w\<in>set (waits d v). \<not> w < length counts \<or> 0 < counts ! w \<and> \<not> w < length ?seen)"
          using waits_range [OF 2(4) v(1)] 2(5,6) by auto
        have V: "visited_set ?seen = insert v ?V" using v(2) by (rule visited_set_update)
        have "dfs_inv ?step ?U ?p (insert v ?V) (finished s)"
        proof (rule dfs_inv_expand)
          show "dfs_inv ?step ?U ((v, False) # p) ?V (finished s)" using 2(7) new by simp
          show "v \<notin> ?V" using False by (simp add: visited_set_def)
          show "?step v \<subseteq> insert v ?V \<union> set ?ws"
            unfolding V [symmetric] using 2(5,6) by (auto simp: open_step_def open_nodes_def visited_set_def unresolved_node_def)
          show "set ?ws \<subseteq> ?step v" "set ?ws \<subseteq> ?U"
            using vU by (auto simp: open_step_def open_nodes_def)
        qed
        moreover have eq: "dfs_loop d counts cancelled ((v, expanded) # p) s =
            dfs_loop d counts cancelled ?p (s\<lparr>dfs_polls := dfs_polls s + 1, visited := ?seen\<rparr>)"
          using no new False v range deps by (auto simp: Let_def)
        ultimately show ?thesis
          unfolding eq
          by (intro polled_ok_mono [OF 2(3) [OF refl no new _ False deps refl range 2(4,5)]])
            (use v 2(6) V in auto)
      qed
    qed
  qed
qed simp

lemma dfs_starts_correct:
  assumes "dense_ok d" "length counts = node_count d" "set starts \<subseteq> open_nodes counts"
    "length (visited s) = node_count d"
    "dfs_inv (open_step d counts) (open_nodes counts) [] (visited_set (visited s)) (finished s)"
  shows "polled_ok cancelled (dfs_starts d counts cancelled starts s) (\<lambda>s'.
    length (visited s') = node_count d \<and>
    dfs_inv (open_step d counts) (open_nodes counts) [] (visited_set (visited s')) (finished s') \<and>
    visited_set (visited s) \<union> set starts \<subseteq> visited_set (visited s'))"
  using assms(3-5)
proof (induction starts arbitrary: s)
  case (Cons start rest)
  let ?t = "s\<lparr>dfs_polls := dfs_polls s + 1\<rparr>"
  have start: "start \<in> open_nodes counts" "start < length (visited s)"
    using Cons.prems assms(2) by (auto simp: open_nodes_iff)
  consider (cancelled) "cancelled (dfs_polls s)" | (skip) "\<not> cancelled (dfs_polls s)" "visited s ! start"
    | (run) "\<not> cancelled (dfs_polls s)" "\<not> visited s ! start" by blast
  then show ?case
  proof cases
    case cancelled
    then show ?thesis by (simp add: Let_def polled_ok_Cancelled)
  next
    case skip
    then have eq: "dfs_starts d counts cancelled (start # rest) s = dfs_starts d counts cancelled rest ?t"
      using start by (simp add: Let_def)
    show ?thesis
      unfolding eq by (rule polled_ok_mono [OF Cons.IH]) (use Cons.prems start skip in \<open>auto simp: visited_set_def\<close>)
  next
    case run
    have eq: "dfs_starts d counts cancelled (start # rest) s =
        res_bind (dfs_loop d counts cancelled [(start, False)] ?t) (dfs_starts d counts cancelled rest)"
      using run start by (simp add: Let_def del: dfs_loop.simps)
    have inv: "dfs_inv (open_step d counts) (open_nodes counts) [(start, False)] (visited_set (visited ?t)) (finished ?t)"
      using Cons.prems start by (auto simp: dfs_inv_def gray_def) blast
    show ?thesis
      unfolding eq
    proof (rule polled_ok_bind [OF dfs_loop_correct [OF assms(1,2) _ inv]])
      fix s' :: dfs_state assume s': "length (visited s') = node_count d \<and>
        dfs_inv (open_step d counts) (open_nodes counts) [] (visited_set (visited s')) (finished s') \<and>
        visited_set (visited ?t) \<union> fst ` set [(start, False)] \<subseteq> visited_set (visited s')"
      show "polled_ok cancelled (dfs_starts d counts cancelled rest s') (\<lambda>s'.
          length (visited s') = node_count d \<and>
          dfs_inv (open_step d counts) (open_nodes counts) [] (visited_set (visited s')) (finished s') \<and>
          visited_set (visited s) \<union> set (start # rest) \<subseteq> visited_set (visited s'))"
        by (rule polled_ok_mono [OF Cons.IH [of s']]) (use s' Cons.prems in auto)
    qed (use Cons.prems in simp)
  qed
qed simp

section \<open>The second pass collects strongly connected components\<close>

definition open_back :: "dense_graph \<Rightarrow> nat list \<Rightarrow> nat \<Rightarrow> nat set" where
  "open_back d counts v = {w. v \<in> open_step d counts w}"

lemma open_step_iff:
  "w \<in> open_step d counts v \<longleftrightarrow> v \<in> open_nodes counts \<and> w \<in> open_nodes counts \<and> w \<in> set (waits d v)"
  by (auto simp: open_step_def)

lemma dependents_open:
  assumes "dense_ok d" "length counts = node_count d" "v \<in> open_nodes counts" "node_dependents d v = Some xs"
  shows "set xs \<inter> open_nodes counts = open_back d counts v"
proof -
  have v: "v < node_count d" using assms(2,3) by (simp add: open_nodes_iff)
  have "w \<in> set xs \<longleftrightarrow> v \<in> set (waits d w)" if "w \<in> open_nodes counts" for w
    using that dense.preds_iff [OF assms(1) v _ assms(4) node_dependencies_waits [OF assms(1)], of w] assms(2)
    by (simp add: open_nodes_iff)
  then show ?thesis using assms(3) by (auto simp: open_back_def open_step_iff)
qed

lemma assign_all:
  assumes "\<forall>w\<in>set xs. w < n" "length counts = n" "length (assigned s) = n"
  shows "\<exists>s' new. try_fold (assign_dependent counts) s xs = Some s' \<and> length (assigned s') = n \<and>
    visited_set (assigned s') = visited_set (assigned s) \<union> set xs \<inter> open_nodes counts \<and>
    component s' = new @ component s \<and> component_pending s' = new @ component_pending s \<and>
    distinct new \<and> set new = set xs \<inter> open_nodes counts - visited_set (assigned s)"
  using assms(1,3)
proof (induction xs arbitrary: s)
  case (Cons w xs)
  have w: "w < n" using Cons.prems by simp
  let ?fresh = "w \<in> open_nodes counts \<and> w \<notin> visited_set (assigned s)"
  let ?t = "if ?fresh then s\<lparr>assigned := (assigned s)[w := True], component := w # component s,
       component_pending := w # component_pending s\<rparr> else s"
  have t: "assign_dependent counts s w = Some ?t" "length (assigned ?t) = n"
    using w assms(2) Cons.prems(2) by (auto simp: assign_dependent_def open_nodes_iff visited_set_def)
  have marks: "visited_set (assigned ?t) = visited_set (assigned s) \<union> {w} \<inter> open_nodes counts"
    using w Cons.prems(2) by (auto simp: visited_set_update)
  obtain s' new where s': "try_fold (assign_dependent counts) ?t xs = Some s'" "length (assigned s') = n"
    "visited_set (assigned s') = visited_set (assigned ?t) \<union> set xs \<inter> open_nodes counts"
    "component s' = new @ component ?t" "component_pending s' = new @ component_pending ?t"
    "distinct new" "set new = set xs \<inter> open_nodes counts - visited_set (assigned ?t)"
    using Cons.IH [of ?t] Cons.prems(1) t(2) by auto
  show ?case
  proof (intro exI conjI)
    show "try_fold (assign_dependent counts) s (w # xs) = Some s'" using t(1) s'(1) by simp
    let ?new = "new @ (if ?fresh then [w] else [])"
    show "visited_set (assigned s') = visited_set (assigned s) \<union> set (w # xs) \<inter> open_nodes counts"
      using s'(3) marks by auto
    show "component s' = ?new @ component s" "component_pending s' = ?new @ component_pending s"
      using s'(4,5) by auto
    show "distinct ?new" "set ?new = set (w # xs) \<inter> open_nodes counts - visited_set (assigned s)"
      using s'(6,7) marks by auto
  qed (use s'(2) in simp)
qed simp

definition component_inv ::
  "dense_graph \<Rightarrow> nat list \<Rightarrow> nat set \<Rightarrow> nat \<Rightarrow> component_state \<Rightarrow> bool" where
  "component_inv d counts A start s =
    (length (assigned s) = node_count d \<and> visited_set (assigned s) = A \<union> set (component s) \<and>
     A \<inter> set (component s) = {} \<and> distinct (component s) \<and> start \<in> set (component s) \<and>
     set (component_pending s) \<subseteq> set (component s) \<and> set (component s) \<subseteq> open_nodes counts \<and>
     (\<forall>c\<in>set (component s). avoids (open_back d counts) A start c) \<and>
     (\<forall>c\<in>set (component s) - set (component_pending s). open_back d counts c \<subseteq> A \<union> set (component s)))"

lemma component_step:
  assumes ok: "dense_ok d" and len: "length counts = node_count d"
    and inv: "component_inv d counts A start s" and top: "component_pending s = node # pending"
  shows "\<exists>s'. Option.bind (node_dependents d node)
      (try_fold (assign_dependent counts) (s\<lparr>component_pending := pending\<rparr>)) = Some s' \<and>
    component_inv d counts A start s'"
proof -
  let ?backward = "open_back d counts" and ?s = "s\<lparr>component_pending := pending\<rparr>"
  have node: "node \<in> set (component s)" "node \<in> open_nodes counts"
    using inv top by (auto simp: component_inv_def)
  then have n: "node < node_count d" using len by (simp add: open_nodes_iff)
  obtain xs where xs: "node_dependents d node = Some xs" using dense.preds_total [OF ok n] by blast
  have range: "\<forall>w\<in>set xs. w < node_count d" using dense.preds_range [OF ok n xs] by blast
  note reverse = dependents_open [OF ok len node(2) xs]
  obtain s' new where run: "try_fold (assign_dependent counts) ?s xs = Some s'"
    and s': "length (assigned s') = node_count d" "visited_set (assigned s') = visited_set (assigned s) \<union> ?backward node"
      "component s' = new @ component s" "component_pending s' = new @ pending"
      "distinct new" "set new = ?backward node - visited_set (assigned s)"
    using assign_all [OF range len, of ?s] inv unfolding reverse by (auto simp: component_inv_def)
  have marks: "visited_set (assigned s) = A \<union> set (component s)" using inv by (simp add: component_inv_def)
  have "avoids ?backward A start c" if "c \<in> set new" for c
  proof -
    have "c \<in> ?backward node" "c \<notin> A" using that s'(6) marks by auto
    then have "avoids ?backward A node c"
      using inv node by (intro avoids_step [of node A c]) (auto simp: component_inv_def intro: avoids_refl)
    then show ?thesis using inv node avoids_trans [of ?backward A start node c] by (auto simp: component_inv_def)
  qed
  moreover have "?backward node \<subseteq> A \<union> set (new @ component s)" using s'(6) marks by auto
  moreover have "set new \<subseteq> open_nodes counts" using s'(6) by (auto simp: open_back_def open_step_iff)
  moreover have "?backward c \<subseteq> A \<union> set (new @ component s)"
    if c: "c \<in> set (new @ component s) - set (new @ pending)" for c
  proof (cases "c = node")
    case False
    then have "c \<in> set (component s) - set (component_pending s)" using c top by auto
    then have "?backward c \<subseteq> A \<union> set (component s)" using inv unfolding component_inv_def by blast
    then show ?thesis by auto
  qed (use calculation in simp)
  moreover have "distinct (new @ component s)" "A \<inter> set (new @ component s) = {}"
      "A \<union> set (component s) \<union> ?backward node = A \<union> set (new @ component s)"
    using inv s'(5,6) marks by (auto simp: component_inv_def)
  ultimately have "component_inv d counts A start s'"
    using inv top marks unfolding component_inv_def s'(1-4) by (simp add: ball_Un) blast
  then show ?thesis using run xs by auto
qed

lemma component_end:
  assumes "component_inv d counts A start s" "component_pending s = []"
  shows "set (component s) = found_from (open_back d counts) A {start}"
proof -
  have "z \<in> set (component s)" if "avoids (open_back d counts) A x z" "x \<in> set (component s)" for x z
    using that
  proof (induction rule: avoids.induct)
    case (avoids_step x y z)
    then have "y \<notin> A" using avoids_start by metis
    moreover have "open_back d counts x \<subseteq> A \<union> set (component s)"
      using assms avoids_step.prems by (simp add: component_inv_def)
    ultimately show ?case using avoids_step by blast
  qed simp
  then show ?thesis using assms(1) by (auto simp: found_from_def component_inv_def)
qed

lemma component_loop_correct:
  assumes "dense_ok d" "length counts = node_count d" "component_inv d counts A start s"
  shows "polled_ok cancelled (component_loop d counts cancelled s polled) (\<lambda>(s', polled').
    length (assigned s') = node_count d \<and> visited_set (assigned s') = A \<union> set (component s') \<and>
    distinct (component s') \<and> set (component s') = found_from (open_back d counts) A {start})"
  using assms
proof (induction d counts cancelled s polled rule: component_loop.induct)
  case (1 d counts cancelled s polled)
  show ?case
  proof (cases "component_pending s")
    case Nil
    have "component_loop d counts cancelled s polled = Inr (s, polled)"
      by (subst component_loop.simps) (simp add: Nil)
    then show ?thesis using component_end [OF 1(4) Nil] 1(4) by (simp add: component_inv_def)
  next
    case (Cons node pending)
    show ?thesis
    proof (cases "cancelled polled")
      case True
      then have "component_loop d counts cancelled s polled = Inl Cancelled"
        by (subst component_loop.simps) (simp add: Cons)
      then show ?thesis using True by (simp add: polled_ok_Cancelled)
    next
      case False
      obtain s' where s': "Option.bind (node_dependents d node)
          (try_fold (assign_dependent counts) (s\<lparr>component_pending := pending\<rparr>)) = Some s'"
        "component_inv d counts A start s'"
        using component_step [OF 1(2-4) Cons] by blast
      have "component_loop d counts cancelled s polled = component_loop d counts cancelled s' (polled + 1)"
        by (subst component_loop.simps) (simp add: Cons False s'(1))
      then show ?thesis using 1(1) [OF Cons False s'(1) 1(2,3) s'(2)] by simp
    qed
  qed
qed

section \<open>Components and cycles\<close>

definition mutual :: "('a \<Rightarrow> 'a set) \<Rightarrow> 'a \<Rightarrow> 'a \<Rightarrow> bool" where
  "mutual step x y = (reaches step x y \<and> reaches step y x)"

lemma mutual_trans: "mutual step x y \<Longrightarrow> mutual step y z \<Longrightarrow> mutual step x z"
  unfolding mutual_def using reaches_trans by metis

lemma path_in_mono: "path_in step B b g \<Longrightarrow> B \<subseteq> B' \<Longrightarrow> path_in step B' b g"
  by (induction rule: path_in.induct) (auto intro: path_in.intros)

lemma path_in_reaches: "path_in step B b g \<Longrightarrow> reaches step b g"
  by (induction rule: path_in.induct) (auto intro: reaches_step)

lemma back_path:
  assumes "avoids (open_back d counts) A y c" "y = x \<or> path_in (open_step d counts) (open_nodes counts - A - {x}) y x"
  shows "c = x \<or> path_in (open_step d counts) (open_nodes counts - A - {x}) c x"
  using assms
proof (induction rule: avoids.induct)
  case (avoids_step y y' c)
  have edge: "y \<in> open_step d counts y'" "y' \<in> open_nodes counts" "y' \<notin> A"
    using avoids_step.hyps(2) avoids_start [OF avoids_step.hyps(3)] by (auto simp: open_back_def open_step_iff)
  then have "y' = x \<or> path_in (open_step d counts) (open_nodes counts - A - {x}) y' x"
    using avoids_step.prems by (auto intro: path_in.intros)
  then show ?case by (rule avoids_step.IH)
qed simp

lemma back_reaches:
  assumes "reaches (open_step d counts) y x" "\<And>z. mutual (open_step d counts) x z \<Longrightarrow> z \<notin> A"
    "reaches (open_step d counts) x y"
  shows "avoids (open_back d counts) A x y"
  using assms
proof (induction rule: reaches_induct)
  case (refl x)
  then show ?case by (auto simp: mutual_def intro: avoids_refl)
next
  case (step y y1 x)
  have y1: "reaches (open_step d counts) x y1"
    using step.prems(2) step.hyps(1) reaches_trans reaches_step [of y1 _ y, OF _ reaches_refl] by metis
  have "mutual (open_step d counts) x y" "mutual (open_step d counts) x y1"
    using step y1 reaches_step [of y1 _ y x] by (auto simp: mutual_def)
  then have "avoids (open_back d counts) A y1 y"
    using step.prems(1) step.hyps(1) by (intro avoids_step [of y1 A y]) (auto simp: open_back_def intro: avoids_refl)
  then show ?case using step.IH [OF step.prems(1) y1] avoids_trans by metis
qed

definition component_closed :: "(nat \<Rightarrow> nat set) \<Rightarrow> nat set \<Rightarrow> bool" where
  "component_closed step A = (\<forall>a\<in>A. \<forall>b. mutual step a b \<longrightarrow> b \<in> A)"

lemma component_is_scc:
  assumes order: "finish_order (open_step d counts) (x # ys)" and cover: "open_nodes counts \<subseteq> A \<union> set (x # ys)"
    and closed: "component_closed (open_step d counts) A" and x: "x \<notin> A"
  shows "found_from (open_back d counts) A {x} = {y. mutual (open_step d counts) x y}"
proof
  let ?step = "open_step d counts"
  have "mutual ?step x c" if "avoids (open_back d counts) A x c" for c
  proof (cases "c = x")
    case False
    then have path: "path_in ?step (open_nodes counts - A - {x}) c x" using back_path [OF that] by blast
    have "path_in ?step (set ys) c x" by (rule path_in_mono [OF path]) (use cover in auto)
    then show ?thesis using order path_in_reaches by (auto simp: mutual_def)
  qed (simp add: mutual_def)
  then show "found_from (open_back d counts) A {x} \<subseteq> {y. mutual ?step x y}" by (auto simp: found_from_def)
  have "z \<notin> A" if "mutual ?step x z" for z
    using that closed x unfolding component_closed_def by (metis mutual_def)
  then show "{y. mutual ?step x y} \<subseteq> found_from (open_back d counts) A {x}"
    using back_reaches by (auto simp: found_from_def mutual_def)
qed

text \<open>A component lies on a cycle when it has a second node or its node waits for itself.\<close>

lemma reaches_other: "reaches step x y \<Longrightarrow> x \<noteq> y \<Longrightarrow> \<exists>z\<in>step x. reaches step z y"
  using reaches_cases by metis

lemma mutual_cycle:
  assumes "mutual step x y" "x \<noteq> y"
  shows "on_cycle step x"
  using reaches_other [of step x y] assms reaches_trans unfolding mutual_def on_cycle_def by metis

lemma component_on_cycle:
  assumes nodes: "set xs = {y. mutual step x y}" "distinct xs" and c: "c \<in> set xs"
  shows "on_cycle step c \<longleftrightarrow> 1 < length xs \<or> x \<in> step x"
proof
  assume "on_cycle step c"
  show "1 < length xs \<or> x \<in> step x"
  proof (cases "c = x")
    case True
    then obtain y where y: "y \<in> step x" "reaches step y x" using \<open>on_cycle step c\<close> by (auto simp: on_cycle_def)
    then have "mutual step x y" using reaches_step [of y step x y] by (auto simp: mutual_def)
    then have sub: "{x, y} \<subseteq> set xs" using nodes(1) by (auto simp: mutual_def)
    show ?thesis
    proof (cases "x = y")
      case False
      then have "2 \<le> card (set xs)" using card_mono [OF _ sub] by simp
      then show ?thesis using distinct_card [OF nodes(2)] by simp
    qed (use y in simp)
  next
    case False
    have "{x, c} \<subseteq> set xs" using nodes(1) c by (auto simp: mutual_def)
    then have "2 \<le> card (set xs)" using card_mono [of "set xs" "{x, c}"] False by simp
    then show ?thesis using distinct_card [OF nodes(2)] by simp
  qed
next
  assume cycle: "1 < length xs \<or> x \<in> step x"
  show "on_cycle step c"
  proof (cases "\<exists>y\<in>set xs. y \<noteq> c")
    case True
    then obtain y where "y \<in> set xs" "y \<noteq> c" by blast
    then have "mutual step c y" using nodes(1) c by (auto simp: mutual_def intro: reaches_trans)
    then show ?thesis using mutual_cycle \<open>y \<noteq> c\<close> by metis
  next
    case False
    then have "set xs \<subseteq> {c}" by blast
    moreover have "x \<in> set xs" using nodes(1) by (simp add: mutual_def)
    ultimately have "x = c" "length xs \<le> 1"
      using distinct_card [OF nodes(2)] card_mono [of "{c}" "set xs"] by auto
    then show ?thesis using cycle by (auto simp: on_cycle_def)
  qed
qed

lemma component_closed_Un:
  "component_closed step A \<Longrightarrow> component_closed step (A \<union> {y. mutual step x y})"
  unfolding component_closed_def using mutual_trans by fastforce

lemma component_starts_correct:
  assumes ok: "dense_ok d" and len: "length counts = node_count d"
    and "length marks = node_count d" "set starts \<subseteq> open_nodes counts"
    "finish_order (open_step d counts) starts" "open_nodes counts \<subseteq> visited_set marks \<union> set starts"
    "visited_set marks \<subseteq> open_nodes counts" "component_closed (open_step d counts) (visited_set marks)"
    "result = {v \<in> visited_set marks. on_cycle (open_step d counts) v}"
  shows "polled_ok cancelled (component_starts d counts cancelled starts marks result polled)
    (\<lambda>(result', polled'). result' = {v \<in> open_nodes counts. on_cycle (open_step d counts) v})"
  using assms(3-9)
proof (induction starts arbitrary: marks result polled)
  case Nil
  then have "visited_set marks = open_nodes counts" by auto
  then show ?case using Nil by simp
next
  case (Cons x ys)
  let ?step = "open_step d counts" and ?A = "visited_set marks"
  have x: "x \<in> open_nodes counts" "x < length marks" using Cons.prems(1,2) len by (auto simp: open_nodes_iff)
  consider (cancelled) "cancelled polled" | (skip) "\<not> cancelled polled" "marks ! x"
    | (run) "\<not> cancelled polled" "\<not> marks ! x" by blast
  then show ?case
  proof cases
    case cancelled
    then show ?thesis by (simp add: polled_ok_Cancelled)
  next
    case skip
    then have "x \<in> ?A" using x by (simp add: visited_set_def)
    then show ?thesis using Cons.IH [of marks result "polled + 1"] Cons.prems skip x by auto
  next
    case run
    have xA: "x \<notin> ?A" using run by (simp add: visited_set_def)
    let ?start = "\<lparr>assigned = marks[x := True], component = [x], component_pending = [x]\<rparr>"
    have inv: "component_inv d counts ?A x ?start"
      using x xA Cons.prems(1) by (auto simp: component_inv_def visited_set_update intro: avoids_refl)
    note scc = component_is_scc [OF Cons.prems(3,4,6) xA]
    have eq: "component_starts d counts cancelled (x # ys) marks result polled =
        res_bind (component_loop d counts cancelled ?start (polled + 1))
          (\<lambda>(s, polled). case cycle_of d x (component s) result of
            None \<Rightarrow> Inl Panicked
          | Some result' \<Rightarrow> component_starts d counts cancelled ys (assigned s) result' polled)"
      using run x by simp
    show ?thesis
      unfolding eq
    proof (rule polled_ok_bind [OF component_loop_correct [OF ok len inv]], clarify)
      fix s :: component_state and polled'
      assume s: "length (assigned s) = node_count d" "visited_set (assigned s) = ?A \<union> set (component s)"
        "distinct (component s)" "set (component s) = found_from (open_back d counts) ?A {x}"
      have C: "set (component s) = {y. mutual ?step x y}" using s(4) scc by simp
      let ?result = "if 1 < length (component s) \<or> x \<in> set (waits d x) then result \<union> set (component s) else result"
      have self: "x \<in> set (waits d x) \<longleftrightarrow> x \<in> ?step x" using x(1) by (simp add: open_step_iff)
      have "?result = {v \<in> ?A \<union> set (component s). on_cycle ?step v}"
        using component_on_cycle [OF C s(3)] Cons.prems(7) unfolding self by auto
      moreover have "cycle_of d x (component s) result = Some ?result"
        using node_dependencies_waits [OF ok, of x] x Cons.prems(1) by (simp add: cycle_of_def)
      moreover have sub: "set (component s) \<subseteq> open_nodes counts"
      proof
        fix c assume "c \<in> set (component s)"
        then have "reaches ?step x c" using C by (simp add: mutual_def)
        then show "c \<in> open_nodes counts" by (rule reaches_closed) (use x in \<open>auto simp: open_step_iff\<close>)
      qed
      moreover have "x \<in> set (component s)" using C by (simp add: mutual_def)
      ultimately show "polled_ok cancelled
          (case cycle_of d x (component s) result of
            None \<Rightarrow> Inl Panicked
          | Some result' \<Rightarrow> component_starts d counts cancelled ys (assigned s) result' polled')
          (\<lambda>(result', polled'). result' = {v \<in> open_nodes counts. on_cycle ?step v})"
        using Cons.IH [of "assigned s" ?result polled'] Cons.prems s component_closed_Un [OF Cons.prems(6), of x] C
        by auto
    qed
  qed
qed

lemma cycle_members_correct:
  assumes ok: "dense_ok d" and len: "length counts = node_count d" and starts: "set unresolved = open_nodes counts"
  shows "polled_ok cancelled (cycle_members d unresolved counts cancelled polled)
    (\<lambda>(result, polled'). result = {v \<in> open_nodes counts. on_cycle (open_step d counts) v})"
proof -
  let ?init = "\<lparr>visited = replicate (node_count d) False, finished = [], dfs_polls = polled\<rparr>"
  have none: "visited_set (replicate n False) = {}" for n by (auto simp: visited_set_def)
  have init: "dfs_inv (open_step d counts) (open_nodes counts) [] (visited_set (visited ?init)) (finished ?init)"
    by (simp add: dfs_inv_def gray_def none)
  show ?thesis
    unfolding cycle_members_def
  proof (rule polled_ok_bind [OF dfs_starts_correct [OF ok len _ _ init]])
    fix s :: dfs_state
    assume "length (visited s) = node_count d \<and>
      dfs_inv (open_step d counts) (open_nodes counts) [] (visited_set (visited s)) (finished s) \<and>
      visited_set (visited ?init) \<union> set unresolved \<subseteq> visited_set (visited s)"
    then show "polled_ok cancelled
        (component_starts d counts cancelled (finished s) (replicate (node_count d) False) {} (dfs_polls s))
        (\<lambda>(result, polled'). result = {v \<in> open_nodes counts. on_cycle (open_step d counts) v})"
      using starts
      by (intro component_starts_correct [OF ok len]) (auto simp: none dfs_inv_def gray_def component_closed_def)
  qed (use starts in auto)
qed

end
