(* ===== verification/Schedule.thy ===== *)
theory Schedule
  imports Kahn Cycles
begin

text \<open>\<open>schedule_cancellable\<close> of \<open>calculation/graph.rs\<close> as a whole, and its correctness over the cells
of the dependency graph: the order is the one of the reference \<open>greedy\<close>, the cycle cells are the
formulas that wait for themselves through any number of formulas and areas, and the blocked cells
are the others that wait for such a cycle.\<close>

section \<open>Scheduling\<close>

record schedule =
  sched_order :: "cell_id list"
  cycle_cells :: "cell_id set"
  blocked_cells :: "cell_id set"

definition classify :: "dense_graph \<Rightarrow> nat list \<Rightarrow> nat set \<Rightarrow> cell_id list \<Rightarrow> schedule" where
  "classify d unresolved cycle_nodes order =
    (let formulas = filter (is_formula d) unresolved
     in \<lparr>sched_order = order,
         cycle_cells = set (map ((!) (dense_formulas d)) (filter (\<lambda>v. v \<in> cycle_nodes) formulas)),
         blocked_cells = set (map ((!) (dense_formulas d)) (filter (\<lambda>v. v \<notin> cycle_nodes) formulas))\<rparr>)"

definition schedule_cancellable :: "dependency_graph \<Rightarrow> polls \<Rightarrow> schedule_error + schedule" where
  "schedule_cancellable g cancelled =
    res_bind (build g cancelled 0) (\<lambda>(d, polled).
      case initial_remaining d of
        None \<Rightarrow> Inl Panicked
      | Some counts \<Rightarrow>
          res_bind (schedule_loop d cancelled (initial_state d counts) [] polled) (\<lambda>(s, order, polled).
            let unresolved = filter (\<lambda>v. 0 < remaining s ! v) [0..<as_u32 (node_count d)]
            in res_bind (cycle_members d unresolved (remaining s) cancelled polled)
              (\<lambda>(cycle_nodes, polled). Inr (classify d unresolved cycle_nodes order))))"

section \<open>The specification over cells\<close>

text \<open>The formula cells a formula waits for, directly or through areas.\<close>

definition waits_for :: "dependency_graph \<Rightarrow> cell_id \<Rightarrow> cell_id set" where
  "waits_for g c =
    (case dependencies g c of None \<Rightarrow> {}
      | Some nodes \<Rightarrow> cells_under g nodes \<inter> set (map_keys (dg_formulas g)))"

definition schedule_spec :: "dependency_graph \<Rightarrow> schedule \<Rightarrow> bool" where
  "schedule_spec g r =
    (let F = map_keys (dg_formulas g)
     in sched_order r = greedy F (waits_for g) {} \<and>
        cycle_cells r = {c \<in> set F. on_cycle (waits_for g) c} \<and>
        blocked_cells r = set F - set (sched_order r) - cycle_cells r)"

section \<open>Dense nodes and cells\<close>

lemma nth_index:
  assumes "distinct F" "j < length F"
  shows "binary_search F (F ! j) = Some j"
proof -
  obtain i where i: "binary_search F (F ! j) = Some i" using assms(2) by (simp add: binary_search_def)
  then have "i < length F" "F ! i = F ! j" using binary_search_less [OF i] by simp_all
  then have "i = j" using nth_eq_iff_index_eq [OF assms(1)] assms(2) by simp
  then show ?thesis using i by simp
qed

text \<open>\<open>d\<close> is the dense form of \<open>g\<close>, which fits \<open>u32\<close> numbers.\<close>

definition dense_of :: "dependency_graph \<Rightarrow> dense_graph \<Rightarrow> bool" where
  "dense_of g d = (graph_ok g \<and> dense_size g < u32_bound \<and> represents d (dense_deps g) \<and>
    dense_formulas d = map_keys (dg_formulas g))"

lemma dense_of_ok: "dense_of g d \<Longrightarrow> dense_ok d"
  by (auto simp: dense_of_def dense_ok_def)

lemma dense_of_size:
  assumes "dense_of g d"
  shows "node_count d = dense_size g" "length (dense_formulas d) = length (dg_formulas g)"
    "dense_size g = length (dense_formulas d) + length (dg_areas g)"
  using assms by (auto simp: dense_of_def represents_def length_dense_deps map_keys_def dense_size_def)

lemma dense_of_distinct: "dense_of g d \<Longrightarrow> distinct (dense_formulas d)"
  by (simp add: dense_of_def btree.distinct_keys graph_ok_sorted)

lemma waits_dense_deps:
  assumes "dense_of g d" "v < node_count d"
  shows "waits d v = dense_deps g ! v"
  using assms by (auto simp: dense_of_def represents_def waits_def)

lemma waits_formula:
  assumes "dense_of g d" "i < length (dense_formulas d)"
  shows "waits d i = List.map_filter (dense_index (dense_formulas d)) (snd (dg_formulas g ! i))"
proof -
  have "i < node_count d" "i < length (dg_formulas g)" using assms dense_of_size [OF assms(1)] by auto
  then show ?thesis using waits_dense_deps [OF assms(1)] assms(1) by (simp add: dense_deps_def nth_append dense_of_def)
qed

lemma waits_area:
  assumes "dense_of g d" "a < length (dg_areas g)"
  shows "waits d (length (dense_formulas d) + a) =
    List.map_filter (dense_index (dense_formulas d)) (dg_areas g ! a)"
proof -
  have "length (dense_formulas d) + a < node_count d" "length (dg_formulas g) = length (dense_formulas d)"
    using assms dense_of_size [OF assms(1)] by auto
  then show ?thesis using waits_dense_deps [OF assms(1)] assms by (simp add: dense_deps_def nth_append dense_of_def)
qed

text \<open>The number of a node, without the casts.\<close>

lemma dense_index_cell:
  assumes "dense_of g d"
  shows "dense_index (dense_formulas d) (Cell c) = Some i \<longleftrightarrow>
    i < length (dense_formulas d) \<and> dense_formulas d ! i = c"
proof -
  have "as_u32 i = i" if "i < length (dense_formulas d)" for i
    using that dense_of_size [OF assms] assms by (simp add: as_u32_def dense_of_def)
  then show ?thesis
    using binary_search_less [of "dense_formulas d" c] nth_index [OF dense_of_distinct [OF assms]] by auto
qed

lemma dense_index_area:
  assumes "dense_of g d" "a < length (dg_areas g)"
  shows "dense_index (dense_formulas d) (Area a) = Some (length (dense_formulas d) + a)"
  using dense_of_size [OF assms(1)] assms by (simp add: as_u32_def dense_of_def)

lemma dense_areas_ordered:
  assumes "dense_of g d"
  shows "areas_ordered d"
proof -
  let ?F = "dense_formulas d"
  have "is_formula d u \<or> u < v"
    if v: "v < node_count d" "\<not> is_formula d v" and u: "u \<in> set (waits d v)" for u v
  proof -
    obtain a where a: "v = length ?F + a" "a < length (dg_areas g)"
      using v dense_of_size [OF assms] by (auto simp: is_formula_def not_less dest!: le_Suc_ex)
    obtain n where n: "n \<in> set (dg_areas g ! a)" "dense_index ?F n = Some u"
      using u unfolding a(1) waits_area [OF assms a(2)] by (auto simp: set_map_filter)
    have ok: "nodes_ok a (dg_areas g ! a)" using assms a(2) graph_ok_areaD by (auto simp: dense_of_def)
    show ?thesis
    proof (cases n)
      case (Cell c)
      then show ?thesis using n(2) dense_index_cell [OF assms] by (simp add: is_formula_def)
    next
      case (Area b)
      then have "b < a" using ok n(1) by (simp add: nodes_ok_iff)
      then show ?thesis using n(2) Area a dense_index_area [OF assms, of b] by simp
    qed
  qed
  then show ?thesis by (auto simp: areas_ordered_def)
qed

text \<open>Following areas in the dense graph and in the graph itself finds the same formulas.\<close>

lemma area_step_members:
  assumes "dense_of g d" "a < length (dg_areas g)"
  shows "area_step d (length (dense_formulas d) + a) =
    {u. \<exists>m\<in>set (dg_areas g ! a). dense_index (dense_formulas d) m = Some u}"
  unfolding area_step_def dense_step_def waits_area [OF assms]
  using assms dense_of_size [OF assms(1)] by (simp add: is_formula_def set_map_filter)

lemma area_step_formula: "i < length (dense_formulas d) \<Longrightarrow> area_step d i = {}"
  by (simp add: area_step_def is_formula_def)

definition node_in :: "dependency_graph \<Rightarrow> dependency_node \<Rightarrow> bool" where
  "node_in g n = (case n of Cell _ \<Rightarrow> True | Area a \<Rightarrow> a < length (dg_areas g))"

lemma node_in_member:
  "graph_ok g \<Longrightarrow> a < length (dg_areas g) \<Longrightarrow> m \<in> set (dg_areas g ! a) \<Longrightarrow> node_in g m"
  using graph_ok_areaD [of g a] by (cases m) (auto simp: node_in_def nodes_ok_iff)

lemma dense_reaches:
  assumes "dense_of g d" "node_in g n" "dense_index (dense_formulas d) n = Some u" "j < length (dense_formulas d)"
  shows "reaches (area_step d) u j \<longleftrightarrow> reaches (graph_step g) n (Cell (dense_formulas d ! j))"
proof
  let ?F = "dense_formulas d"
  have ok: "graph_ok g" using assms(1) by (simp add: dense_of_def)
  show "reaches (graph_step g) n (Cell (?F ! j))" if "reaches (area_step d) u j"
    using that assms(2-4)
  proof (induction arbitrary: n rule: reaches_induct)
    case (refl u)
    then show ?case
      using dense_index_cell [OF assms(1)] dense_index_area [OF assms(1)]
      by (cases n) (auto simp: node_in_def)
  next
    case (step u y j)
    show ?case
    proof (cases n)
      case (Cell c)
      then show ?thesis
        using step.prems(2) step.hyps(1) dense_index_cell [OF assms(1)] area_step_formula by auto
    next
      case (Area a)
      then have a: "a < length (dg_areas g)" using step.prems(1) by (simp add: node_in_def)
      then have "u = length ?F + a" using step.prems(2) Area dense_index_area [OF assms(1)] by simp
      then obtain m where m: "m \<in> set (dg_areas g ! a)" "dense_index ?F m = Some y"
        using step.hyps(1) area_step_members [OF assms(1) a] by auto
      have "reaches (graph_step g) m (Cell (?F ! j))"
        using step.IH [OF node_in_member [OF ok a m(1)] m(2) step.prems(3)] .
      moreover have "m \<in> graph_step g n" using m(1) a Area by simp
      ultimately show ?thesis using reaches_step by metis
    qed
  qed
  show "reaches (area_step d) u j" if "reaches (graph_step g) n (Cell (?F ! j))"
    using that assms(2,3)
  proof (induction n "Cell (?F ! j)" arbitrary: u rule: reaches_induct)
    case refl
    then have "u = j"
      using dense_index_cell [OF assms(1)] nth_eq_iff_index_eq [OF dense_of_distinct [OF assms(1)]] assms(4)
      by auto
    then show ?case by simp
  next
    case (step n m)
    obtain a where n: "n = Area a" "a < length (dg_areas g)" "m \<in> set (dg_areas g ! a)"
      using step.hyps(1) step.prems(1) by (cases n) (auto simp: node_in_def)
    have min: "node_in g m" using node_in_member [OF ok n(2,3)] .
    have "\<exists>y. dense_index ?F m = Some y"
    proof (cases m)
      case (Cell c)
      then have "c = ?F ! j" using reaches_cases [OF step.hyps(2)] by auto
      then show ?thesis using Cell dense_index_cell [OF assms(1), of c j] assms(4) by blast
    next
      case (Area b)
      then show ?thesis using dense_index_area [OF assms(1)] min by (auto simp: node_in_def)
    qed
    then obtain y where y: "dense_index ?F m = Some y" by blast
    have "reaches (area_step d) y j" using step.hyps(3) [OF min y] .
    moreover have "u = length ?F + a" using step.prems(2) n dense_index_area [OF assms(1) n(2)] by simp
    moreover from this have "y \<in> area_step d u" using n(3) y area_step_members [OF assms(1) n(2)] by auto
    ultimately show ?case using reaches_step by metis
  qed
qed

lemma formula_entry:
  assumes "dense_of g d" "i < length (dense_formulas d)"
  shows "dependencies g (dense_formulas d ! i) = Some (snd (dg_formulas g ! i))"
proof -
  have i: "i < length (dg_formulas g)" "dense_formulas d ! i = fst (dg_formulas g ! i)"
    using assms dense_of_size [OF assms(1)] by (auto simp: dense_of_def map_keys_def)
  have "(fst (dg_formulas g ! i), snd (dg_formulas g ! i)) \<in> set (dg_formulas g)" using i(1) by simp
  then show ?thesis
    using assms(1) i(2) by (simp add: dependencies_def map_get_Some_entry graph_ok_sorted dense_of_def del: prod.collapse)
qed

lemma inter_nth_image:
  assumes "\<And>j. j < length F \<Longrightarrow> F ! j \<in> X \<longleftrightarrow> j \<in> N" "N \<subseteq> {..<length F}"
  shows "X \<inter> set F = (!) F ` N"
proof (intro set_eqI iffI)
  fix x assume "x \<in> X \<inter> set F"
  then obtain j where "j < length F" "x = F ! j" "x \<in> X" by (auto simp: in_set_conv_nth)
  then show "x \<in> (!) F ` N" using assms(1) by blast
next
  fix x assume "x \<in> (!) F ` N"
  then obtain j where j: "j \<in> N" "x = F ! j" by blast
  then have "j < length F" using assms(2) by blast
  then show "x \<in> X \<inter> set F" using j assms(1) by simp
qed

lemma need_waits_for:
  assumes "dense_of g d" "i < length (dense_formulas d)"
  shows "waits_for g (dense_formulas d ! i) = (!) (dense_formulas d) ` need d i"
proof -
  let ?F = "dense_formulas d" and ?nodes = "snd (dg_formulas g ! i)"
  note entry = formula_entry [OF assms]
  have nodes: "node_in g n" if "n \<in> set ?nodes" for n
    using graph_ok_formulaD [of g "?F ! i" ?nodes] entry assms(1) that
    by (cases n) (auto simp: dense_of_def dependencies_def nodes_ok_iff node_in_def)
  have "?F ! j \<in> cells_under g ?nodes \<longleftrightarrow> j \<in> need d i" if j: "j < length ?F" for j
  proof
    assume "?F ! j \<in> cells_under g ?nodes"
    then obtain n where n: "n \<in> set ?nodes" "reaches (graph_step g) n (Cell (?F ! j))"
      by (auto simp: cells_under_def)
    have "\<exists>u. dense_index ?F n = Some u"
    proof (cases n)
      case (Cell c)
      then have "c = ?F ! j" using reaches_cases [OF n(2)] by auto
      then show ?thesis using Cell dense_index_cell [OF assms(1), of c j] j by blast
    next
      case (Area a)
      then show ?thesis using dense_index_area [OF assms(1), of a] nodes [OF n(1)] by (auto simp: node_in_def)
    qed
    then obtain u where u: "dense_index ?F n = Some u" by blast
    then have "reaches (area_step d) u j" using dense_reaches [OF assms(1) nodes [OF n(1)] u j] n(2) by blast
    moreover have "u \<in> set (waits d i)" using u n(1) by (auto simp: waits_formula [OF assms] set_map_filter)
    ultimately show "j \<in> need d i" using j by (auto simp: need_def is_formula_def)
  next
    assume "j \<in> need d i"
    then obtain n u where "n \<in> set ?nodes" "dense_index ?F n = Some u" "reaches (area_step d) u j"
      by (auto simp: need_def waits_formula [OF assms] set_map_filter)
    then show "?F ! j \<in> cells_under g ?nodes"
      using dense_reaches [OF assms(1) nodes _ j] by (auto simp: cells_under_def)
  qed
  then have "cells_under g ?nodes \<inter> set ?F = (!) ?F ` need d i"
    using need_subset [of d i] by (intro inter_nth_image) (auto simp: formula_set_def)
  then show ?thesis using entry assms(1) by (simp add: waits_for_def dense_of_def)
qed

lemma greedy_map:
  assumes "inj_on h (set xs)" "S \<subseteq> set xs" "\<And>x. x \<in> set xs \<Longrightarrow> wants (h x) = h ` req x \<and> req x \<subseteq> set xs"
  shows "greedy (map h xs) wants (h ` S) = map h (greedy xs req S)"
  using assms
proof (induction xs req S rule: greedy.induct)
  case (1 xs req S)
  have mem: "h x \<in> h ` S \<longleftrightarrow> x \<in> S" if "x \<in> set xs" for x
    using inj_on_image_mem_iff [OF 1(2) that 1(3)] .
  then have "h ` req x \<subseteq> h ` S \<longleftrightarrow> req x \<subseteq> S" if "x \<in> set xs" for x
    using 1(4) [OF that] unfolding image_subset_iff by blast
  with mem have filter: "filter (\<lambda>y. y \<notin> h ` S \<and> wants y \<subseteq> h ` S) (map h xs) =
      map h (filter (\<lambda>x. x \<notin> S \<and> req x \<subseteq> S) xs)"
    unfolding filter_map comp_def using 1(4) by (intro arg_cong [of _ _ "map h"] filter_cong) auto
  show ?case
  proof (cases "filter (\<lambda>x. x \<notin> S \<and> req x \<subseteq> S) xs")
    case Nil
    then show ?thesis using filter by (subst greedy.simps, subst (2) greedy.simps) simp
  next
    case (Cons x ys)
    have "x \<in> set xs" using filter_ConsD [OF Cons] by blast
    then have "greedy (map h xs) wants (h ` insert x S) = map h (greedy xs req (insert x S))"
      using 1(1) [OF Cons 1(2)] 1(3,4) by simp
    then show ?thesis using filter Cons by (subst greedy.simps, subst (2) greedy.simps) simp
  qed
qed

lemma dense_greedy:
  assumes "dense_of g d"
  shows "map ((!) (dense_formulas d)) (greedy_nodes d {}) = greedy (map_keys (dg_formulas g)) (waits_for g) {}"
proof -
  let ?F = "dense_formulas d"
  have "greedy (map ((!) ?F) [0..<length ?F]) (waits_for g) ((!) ?F ` {}) =
      map ((!) ?F) (greedy [0..<length ?F] (need d) {})"
  proof (rule greedy_map)
    show "inj_on ((!) ?F) (set [0..<length ?F])"
      using dense_of_distinct [OF assms] by (auto simp: inj_on_def nth_eq_iff_index_eq)
    fix i assume "i \<in> set [0..<length ?F]"
    then show "waits_for g (?F ! i) = (!) ?F ` need d i \<and> need d i \<subseteq> set [0..<length ?F]"
      using need_waits_for [OF assms] need_subset [of d i] by (simp add: upt_formula_set del: set_upt) (simp add: formula_set_def)
  qed simp
  then show ?thesis using assms by (simp add: map_nth dense_of_def)
qed

section \<open>Cycles of nodes and of cells\<close>

lemma area_dense_reaches: "reaches (area_step d) u k \<Longrightarrow> reaches (dense_step d) u k"
  by (induction rule: reaches_induct) (auto simp: area_step_def intro: reaches_step split: if_splits)

lemma dense_need_reaches:
  assumes "reaches (dense_step d) u j" "is_formula d j"
  shows "\<exists>k. is_formula d k \<and> reaches (area_step d) u k \<and> reaches (need d) k j"
  using assms
proof (induction rule: reaches_induct)
  case (step u y j)
  then obtain k where k: "is_formula d k" "reaches (area_step d) y k" "reaches (need d) k j" by blast
  show ?case
  proof (cases "is_formula d u")
    case True
    have "k \<in> need d u" using k(1,2) step.hyps(1) by (auto simp: need_def dense_step_def split: if_splits)
    then show ?thesis using True k(3) reaches_step by (metis reaches_refl)
  next
    case False
    then have "reaches (area_step d) u k" using k(2) step.hyps(1) by (auto simp: area_step_def intro: reaches_step)
    then show ?thesis using k by blast
  qed
qed auto

lemma need_dense_reaches:
  assumes "dense_ok d" "k \<in> need d i" "is_formula d i"
  shows "\<exists>y\<in>dense_step d i. reaches (dense_step d) y k"
  using assms dense_formulas_le [OF assms(1)] area_dense_reaches
  by (fastforce simp: need_def dense_step_def is_formula_def)

lemma need_reaches_dense:
  assumes "reaches (need d) i j" "dense_ok d" "is_formula d i"
  shows "reaches (dense_step d) i j"
  using assms
proof (induction rule: reaches_induct)
  case (step i k j)
  have "is_formula d k" using step.hyps(1) by (simp add: need_def)
  then have "reaches (dense_step d) k j" using step by blast
  moreover obtain y where "y \<in> dense_step d i" "reaches (dense_step d) y k"
    using need_dense_reaches step by blast
  ultimately show ?case using reaches_trans reaches_step by metis
qed simp

lemma on_cycle_need:
  assumes "dense_ok d" "is_formula d i"
  shows "on_cycle (dense_step d) i \<longleftrightarrow> on_cycle (need d) i"
proof
  assume "on_cycle (dense_step d) i"
  then obtain y where y: "y \<in> dense_step d i" "reaches (dense_step d) y i" by (auto simp: on_cycle_def)
  obtain k where "is_formula d k" "reaches (area_step d) y k" "reaches (need d) k i"
    using dense_need_reaches [OF y(2) assms(2)] by blast
  then show "on_cycle (need d) i" using y(1) by (auto simp: on_cycle_def need_def dense_step_def split: if_splits)
next
  assume "on_cycle (need d) i"
  then obtain k where k: "k \<in> need d i" "reaches (need d) k i" by (auto simp: on_cycle_def)
  have "reaches (dense_step d) k i" using k need_reaches_dense [OF _ assms(1)] by (simp add: need_def)
  moreover obtain y where "y \<in> dense_step d i" "reaches (dense_step d) y k"
    using need_dense_reaches [OF assms(1) k(1) assms(2)] by blast
  ultimately show "on_cycle (dense_step d) i" using reaches_trans unfolding on_cycle_def by metis
qed

lemma reaches_image:
  assumes "\<And>x. x \<in> X \<Longrightarrow> step' (h x) = h ` step x \<and> step x \<subseteq> X" "inj_on h X" "x \<in> X" "y \<in> X"
  shows "reaches step' (h x) (h y) \<longleftrightarrow> reaches step x y"
proof
  assume "reaches step x y"
  then show "reaches step' (h x) (h y)" using assms(3)
  proof (induction rule: reaches_induct)
    case (step x z y)
    then have "h z \<in> step' (h x)" "z \<in> X" using assms(1) by auto
    then show ?case using step.IH reaches_step by metis
  qed simp
next
  assume "reaches step' (h x) (h y)"
  then show "reaches step x y" using assms(3)
  proof (induction "h x" "h y" arbitrary: x rule: reaches_induct)
    case refl
    then have "x = y" using inj_onD [OF assms(2)] assms(4) by metis
    then show ?case by simp
  next
    case (step z)
    then obtain w where w: "w \<in> step x" "z = h w" using assms(1) [OF step.prems] by auto
    then have "w \<in> X" using assms(1) [OF step.prems] by auto
    then have "reaches step w y" using step.hyps(3) [OF w(2)] by blast
    then show ?case using w(1) by (rule reaches_step [rotated])
  qed
qed

lemma on_cycle_waits_for:
  assumes "dense_of g d" "i < length (dense_formulas d)"
  shows "on_cycle (waits_for g) (dense_formulas d ! i) \<longleftrightarrow> on_cycle (dense_step d) i"
proof -
  let ?F = "dense_formulas d"
  have step: "waits_for g (?F ! x) = (!) ?F ` need d x \<and> need d x \<subseteq> formula_set d" if "x \<in> formula_set d" for x
    using that need_waits_for [OF assms(1)] by (simp add: formula_set_def) (simp add: formula_set_def [symmetric])
  have inj: "inj_on ((!) ?F) (formula_set d)"
    using dense_of_distinct [OF assms(1)] by (auto simp: inj_on_def formula_set_def nth_eq_iff_index_eq)
  have i: "i \<in> formula_set d" using assms(2) by (simp add: formula_set_def)
  have reach: "reaches (waits_for g) (?F ! k) (?F ! i) \<longleftrightarrow> reaches (need d) k i" if "k \<in> formula_set d" for k
    using reaches_image [of "formula_set d" "waits_for g" "(!) ?F" "need d" k i] step inj that i by simp
  have sub: "k \<in> formula_set d" if "k \<in> need d i" for k using that need_subset by blast
  have "on_cycle (waits_for g) (?F ! i) \<longleftrightarrow> on_cycle (need d) i"
    unfolding on_cycle_def using step [OF i] reach sub by auto
  then show ?thesis using on_cycle_need [OF dense_of_ok [OF assms(1)]] i by (simp add: is_formula_set)
qed

text \<open>Cycles run through unresolved nodes only.\<close>

lemma on_cycle_mutual: "on_cycle step x \<Longrightarrow> mutual step x y \<Longrightarrow> on_cycle step y"
  using mutual_cycle [of step y x] by (cases "x = y") (auto simp: mutual_def)

lemma on_cycle_edge: "y \<in> step x \<Longrightarrow> reaches step y v \<Longrightarrow> reaches step v x \<Longrightarrow> on_cycle step x \<and> mutual step x y"
  unfolding on_cycle_def mutual_def using reaches_trans reaches_step reaches_refl by metis

lemma cycle_lift:
  assumes "reaches (dense_step d) y v" "reaches (dense_step d) v y"
    "\<And>v. on_cycle (dense_step d) v \<Longrightarrow> v \<in> open_nodes counts"
  shows "reaches (open_step d counts) y v"
  using assms
proof (induction rule: reaches_induct)
  case (step y y1 v)
  have y: "on_cycle (dense_step d) y" "mutual (dense_step d) y y1"
    using on_cycle_edge [OF step.hyps(1,2) step.prems(1)] by auto
  have "y \<in> open_nodes counts" "y1 \<in> open_nodes counts"
    using step.prems(2) y(1) on_cycle_mutual [OF y] by blast+
  then have "y1 \<in> open_step d counts y"
    using step.hyps(1) by (auto simp: open_step_iff dense_step_def split: if_splits)
  moreover have "reaches (dense_step d) v y1"
    using step.prems(1) y(2) reaches_trans unfolding mutual_def by metis
  ultimately show ?case using step.IH [OF _ step.prems(2)] reaches_step by metis
qed simp

lemma cycle_open:
  assumes cycles: "\<And>v. on_cycle (dense_step d) v \<Longrightarrow> v \<in> open_nodes counts" and len: "length counts = node_count d"
  shows "on_cycle (open_step d counts) v \<longleftrightarrow> on_cycle (dense_step d) v"
proof
  have sub: "open_step d counts x \<subseteq> dense_step d x" for x
    using len by (auto simp: open_step_iff dense_step_def open_nodes_iff)
  have mono: "reaches (dense_step d) y v" if "reaches (open_step d counts) y v" for y
    using that by (induction rule: reaches_induct) (use sub in \<open>auto intro: reaches_step\<close>)
  show "on_cycle (dense_step d) v" if "on_cycle (open_step d counts) v"
    using that sub mono unfolding on_cycle_def by blast
  assume cycle: "on_cycle (dense_step d) v"
  then obtain y where y: "y \<in> dense_step d v" "reaches (dense_step d) y v" by (auto simp: on_cycle_def)
  have "on_cycle (dense_step d) y" using on_cycle_edge [OF y reaches_refl] on_cycle_mutual by metis
  then have "y \<in> open_step d counts v"
    using y(1) cycles [of v] cycles [of y] cycle by (auto simp: open_step_iff dense_step_def split: if_splits)
  moreover have "reaches (dense_step d) v y" using y(1) by (rule reaches_step) simp
  ultimately show "on_cycle (open_step d counts) v"
    using cycle_lift [OF y(2) _ cycles] unfolding on_cycle_def by blast
qed

section \<open>Correctness\<close>

lemma final_open:
  assumes "kahn_inv d K s" "ready s = []" "completed_areas s = []"
  shows "open_nodes (remaining s) = {v. v < node_count d \<and> v \<notin> K}"
proof -
  have q: "queued d K s" using assms(1) by (simp add: kahn_inv_def)
  have "0 < remaining s ! v \<longleftrightarrow> v \<notin> K" if "v < node_count d" for v
    using q that assms(2,3) unfolding queued_def by (cases "is_formula d v") auto
  then show ?thesis using q by (auto simp: queued_def open_nodes_iff)
qed

lemma classify_spec:
  assumes dense: "dense_of g d" and inv: "kahn_inv d K s" "ready s = []" "completed_areas s = []"
    and K: "K \<inter> formula_set d = set (greedy_nodes d {})"
    and cycles: "cycle_nodes = {v \<in> open_nodes (remaining s). on_cycle (open_step d (remaining s)) v}"
  shows "schedule_spec g (classify d (filter (\<lambda>v. 0 < remaining s ! v) [0..<node_count d]) cycle_nodes
    (map ((!) (dense_formulas d)) (greedy_nodes d {})))"
proof -
  let ?F = "dense_formulas d" and ?n = "length (dense_formulas d)"
  have len: "length (remaining s) = node_count d" using inv(1) by (simp add: kahn_inv_def queued_def)
  have F: "map_keys (dg_formulas g) = ?F" using dense by (simp add: dense_of_def)
  have n: "?n \<le> node_count d" using dense_formulas_le [OF dense_of_ok [OF dense]] .
  note open_eq = final_open [OF inv]
  have open_cycle: "v \<in> open_nodes (remaining s)" if "on_cycle (dense_step d) v" for v
    using that inv(1) unfolding open_eq
    by (auto simp: kahn_inv_def on_cycle_def dense_step_def split: if_splits)
  have cyc: "on_cycle (open_step d (remaining s)) v \<longleftrightarrow> on_cycle (dense_step d) v" for v
    by (rule cycle_open [OF open_cycle len])
  have formulas: "set (filter (is_formula d) (filter (\<lambda>v. 0 < remaining s ! v) [0..<node_count d])) =
      formula_set d - K"
  proof -
    have "0 < remaining s ! v \<longleftrightarrow> v \<notin> K" if "v < node_count d" for v
      using that open_eq len by (auto simp: open_nodes_iff set_eq_iff)
    then show ?thesis using n by (auto simp: is_formula_def formula_set_def)
  qed
  let ?C = "{v \<in> formula_set d. on_cycle (dense_step d) v}" and ?G = "set (greedy_nodes d {})"
  have cycK: "v \<notin> K" if "on_cycle (dense_step d) v" for v using that inv(1) by (auto simp: kahn_inv_def)
  have mem: "v \<in> cycle_nodes \<longleftrightarrow> on_cycle (dense_step d) v" if "v \<in> formula_set d - K" for v
    using that open_cycle unfolding cycles cyc by auto
  have range: "set ?F = (!) ?F ` formula_set d" unfolding set_conv_nth formula_set_def by blast
  have inj: "inj_on ((!) ?F) (formula_set d)"
    using dense_of_distinct [OF dense] by (auto simp: inj_on_def formula_set_def nth_eq_iff_index_eq)
  have C: "{c \<in> set ?F. on_cycle (waits_for g) c} = (!) ?F ` ?C"
    unfolding range using on_cycle_waits_for [OF dense] by (auto simp: formula_set_def)
  have sets: "set (filter (\<lambda>v. v \<in> cycle_nodes) (filter (is_formula d) (filter (\<lambda>v. 0 < remaining s ! v) [0..<node_count d]))) = ?C"
    "set (filter (\<lambda>v. v \<notin> cycle_nodes) (filter (is_formula d) (filter (\<lambda>v. 0 < remaining s ! v) [0..<node_count d]))) =
      formula_set d - ?G - ?C"
    unfolding set_filter [of _ "filter (is_formula d) _"] formulas using mem cycK K by auto
  have "(!) ?F ` (formula_set d - ?G - ?C) = (!) ?F ` formula_set d - (!) ?F ` ?G - (!) ?F ` ?C"
    using inj_on_image_set_diff [OF inj, of "formula_set d - ?G" ?C]
      inj_on_image_set_diff [OF inj, of "formula_set d" ?G] K by auto
  moreover have "set (greedy ?F (waits_for g) {}) = (!) ?F ` ?G"
    using dense_greedy [OF dense] unfolding F by (metis list.set_map)
  ultimately show ?thesis
    unfolding schedule_spec_def classify_def Let_def F C
    using sets dense_greedy [OF dense] F range by (simp add: image_set [symmetric] del: filter_filter set_filter)
qed

theorem schedule_correct:
  assumes "graph_ok g" "dense_size g < u32_bound"
  shows "polled_ok cancelled (schedule_cancellable g cancelled) (schedule_spec g)"
proof -
  obtain d where build: "build g cancelled 0 =
      (if polled_between cancelled 0 (0 + 2 * dense_size g) then Inl Cancelled else Inr (d, 0 + 2 * dense_size g))"
    and dense: "dense_of g d"
    using build_correct [OF assms(1) less_imp_le [OF assms(2)], of cancelled 0] assms by (auto simp: dense_of_def)
  let ?counts = "map (\<lambda>v. length (waits d v)) [0..<node_count d]"
  have ok: "dense_ok d" using dense by (rule dense_of_ok)
  have small: "node_count d < u32_bound" using dense_of_size [OF dense] assms(2) by simp
  have "polled_ok cancelled (build g cancelled 0) (\<lambda>(d', polled). d' = d)"
    unfolding build by (auto simp: polled_between_def intro: polled_ok_Cancelled)
  then show ?thesis
    unfolding schedule_cancellable_def
  proof (rule polled_ok_bind, clarify)
    fix polled
    let ?P = "\<lambda>(s, order, polled'). \<exists>K. kahn_inv d K s \<and> ready s = [] \<and> completed_areas s = [] \<and>
      K \<inter> formula_set d = set (greedy_nodes d {}) \<and> order = map ((!) (dense_formulas d)) (greedy_nodes d {})"
    have "loop_result d cancelled {} [] polled (schedule_loop d cancelled (initial_state d ?counts) [] polled)"
      by (rule schedule_loop_correct [OF ok dense_areas_ordered [OF dense] initial_inv [OF small]])
    then have loop: "polled_ok cancelled (schedule_loop d cancelled (initial_state d ?counts) [] polled) ?P"
      unfolding loop_result_def by (auto simp: polled_between_def intro: polled_ok_Cancelled)
    show "polled_ok cancelled
        (case initial_remaining d of
          None \<Rightarrow> Inl Panicked
        | Some counts \<Rightarrow>
            res_bind (schedule_loop d cancelled (initial_state d counts) [] polled) (\<lambda>(s, order, polled).
              let unresolved = filter (\<lambda>v. 0 < remaining s ! v) [0..<as_u32 (node_count d)]
              in res_bind (cycle_members d unresolved (remaining s) cancelled polled)
                (\<lambda>(cycle_nodes, polled). Inr (classify d unresolved cycle_nodes order))))
        (schedule_spec g)"
      unfolding initial_remaining_Some [OF ok small] as_u32_id [OF small] option.case
    proof (rule polled_ok_bind [OF loop], clarify)
      fix s :: kahn_state and polled' K
      assume s: "kahn_inv d K s" "ready s = []" "completed_areas s = []"
        and K: "K \<inter> formula_set d = set (greedy_nodes d {})"
      let ?open = "filter (\<lambda>v. 0 < remaining s ! v) [0..<node_count d]"
      have len: "length (remaining s) = node_count d" using s(1) by (simp add: kahn_inv_def queued_def)
      have "set ?open = open_nodes (remaining s)" using len by (auto simp: open_nodes_iff)
      then have cyc: "polled_ok cancelled (cycle_members d ?open (remaining s) cancelled polled')
          (\<lambda>(result, polled). result = {v \<in> open_nodes (remaining s). on_cycle (open_step d (remaining s)) v})"
        by (rule cycle_members_correct [OF ok len])
      show "polled_ok cancelled
          (let unresolved = ?open
           in res_bind (cycle_members d unresolved (remaining s) cancelled polled')
             (\<lambda>(cycle_nodes, polled). Inr (classify d unresolved cycle_nodes
               (map ((!) (dense_formulas d)) (greedy_nodes d {})))))
          (schedule_spec g)"
        unfolding Let_def
        by (rule polled_ok_bind [OF cyc]) (use classify_spec [OF dense s K] in auto)
    qed
  qed
qed

text \<open>The three parts of a schedule: the ordered formulas, the cycles, and what waits for a cycle.\<close>

lemma schedule_parts:
  assumes "schedule_spec g r"
  shows "set (map_keys (dg_formulas g)) = set (sched_order r) \<union> cycle_cells r \<union> blocked_cells r"
    and "set (sched_order r) \<inter> cycle_cells r = {}"
    and "c \<in> blocked_cells r \<Longrightarrow> \<exists>z\<in>cycle_cells r. reaches (waits_for g) c z"
    and "c \<in> set (sched_order r) \<Longrightarrow> reaches (waits_for g) c z \<Longrightarrow> z \<in> set (sched_order r)"
proof -
  let ?F = "map_keys (dg_formulas g)" and ?need = "waits_for g"
  have r: "sched_order r = greedy ?F ?need {}" "cycle_cells r = {c \<in> set ?F. on_cycle ?need c}"
      "blocked_cells r = set ?F - set (sched_order r) - cycle_cells r"
    using assms by (auto simp: schedule_spec_def Let_def)
  note props = greedy_props [of ?F ?need "{}"]
  have sub: "?need c \<subseteq> set ?F" for c by (auto simp: waits_for_def split: option.splits)
  have topo: "?need (sched_order r ! i) \<subseteq> set (take i (sched_order r))" if "i < length (sched_order r)" for i
    using that props r(1) by simp
  have closed: "?need x \<subseteq> set (take i (sched_order r))" if x: "x \<in> set (take i (sched_order r))" for x i
  proof -
    obtain j where j: "j < i" "j < length (sched_order r)" "x = sched_order r ! j"
      using x by (metis in_set_conv_nth length_take min_less_iff_conj nth_take)
    then show ?thesis using topo [of j] set_take_subset_set_take [of j i "sched_order r"] by auto
  qed
  show "c \<in> set (sched_order r) \<Longrightarrow> reaches ?need c z \<Longrightarrow> z \<in> set (sched_order r)" for c z
    using reaches_closed [of ?need c z "set (sched_order r)"] closed [of _ "length (sched_order r)"] by auto
  let ?U = "set ?F - set (sched_order r)"
  have "\<exists>y\<in>?need x. y \<in> ?U" if "x \<in> ?U" for x
  proof -
    have "\<not> ?need x \<subseteq> set (sched_order r)" using that props r(1) by simp
    then show ?thesis using sub [of x] by blast
  qed
  then show "c \<in> blocked_cells r \<Longrightarrow> \<exists>z\<in>cycle_cells r. reaches ?need c z"
    using finite_reaches_cycle [of ?U ?need c] r by auto
  have "set (sched_order r) \<subseteq> set ?F" using props r(1) by auto
  then show "set ?F = set (sched_order r) \<union> cycle_cells r \<union> blocked_cells r" using r by auto
  have "\<not> on_cycle ?need c" if c: "c \<in> set (sched_order r)" for c
  proof
    assume "on_cycle ?need c"
    then obtain y where y: "y \<in> ?need c" "reaches ?need y c" by (auto simp: on_cycle_def)
    obtain i where i: "i < length (sched_order r)" "sched_order r ! i = c" using c by (metis in_set_conv_nth)
    have "y \<in> set (take i (sched_order r))" using y(1) topo [OF i(1)] i(2) by auto
    then have "c \<in> set (take i (sched_order r))" using reaches_closed [OF y(2)] closed by blast
    then obtain j where "j < i" "sched_order r ! j = c" by (metis in_set_conv_nth length_take min_less_iff_conj nth_take)
    moreover have "distinct (sched_order r)" using props r(1) by simp
    ultimately show False using i nth_eq_iff_index_eq by (metis less_trans nat_neq_iff)
  qed
  then show "set (sched_order r) \<inter> cycle_cells r = {}" using r by auto
qed

section \<open>Properties\<close>

text \<open>The schedule the code returns when it is never cancelled.\<close>

definition never :: polls where
  "never = (\<lambda>_. False)"

lemma schedule_uncancelled:
  assumes "graph_ok g" "dense_size g < u32_bound"
  shows "\<exists>r. schedule_cancellable g never = Inr r \<and> schedule_spec g r"
  using schedule_correct [OF assms, of never]
  by (auto simp: polled_ok_def never_def split: sum.splits schedule_error.splits)

text \<open>C1: Scheduling a graph of fewer than 2 to the 32 nodes refines its specification on cells: whenever it is not
cancelled it returns (it
never panics: no index out of range, no count below zero, no node number past 32 bits) the greedy
topological order that repeatedly takes the first formula in cell order all of whose formulas are
done, exactly the formulas on a cycle of the waits-for relation as cycle cells, and the remaining
formulas as blocked.\<close>

theorem schedule_refines:
  assumes "graph_ok g" "dense_size g < u32_bound"
  shows "case schedule_cancellable g cancelled of
      Inr r \<Rightarrow> sched_order r = greedy (map_keys (dg_formulas g)) (waits_for g) {} \<and>
        cycle_cells r = {c \<in> set (map_keys (dg_formulas g)). on_cycle (waits_for g) c} \<and>
        blocked_cells r = set (map_keys (dg_formulas g)) - set (sched_order r) - cycle_cells r
    | Inl Cancelled \<Rightarrow> \<exists>i. cancelled i
    | Inl Panicked \<Rightarrow> False"
  using schedule_correct [OF assms, of cancelled] unfolding polled_ok_def schedule_spec_def Let_def .

theorem schedule_refines_witness:
  "case schedule_cancellable (insert_cells (0, 1, 1) [(0, 2, 1)] graph_default) (\<lambda>_. False) of
      Inr r \<Rightarrow> sched_order r = greedy (map_keys (dg_formulas (insert_cells (0, 1, 1) [(0, 2, 1)] graph_default)))
        (waits_for (insert_cells (0, 1, 1) [(0, 2, 1)] graph_default)) {}
    | Inl e \<Rightarrow> False"
proof -
  let ?g = "insert_cells (0, 1, 1) [(0, 2, 1)] graph_default"
  have "dense_size ?g < u32_bound"
    by (simp add: dense_size_def insert_cells_def graph_insert_def graph_default_def)
  then show ?thesis
    using schedule_refines [OF graph_ok_insert_cells [OF graph_ok_default], of "(0, 1, 1)" "[(0, 2, 1)]" "\<lambda>_. False"]
    by (auto split: sum.splits schedule_error.splits)
qed

text \<open>C4: A schedule of a graph of fewer than 2 to the 32 nodes accounts for every formula once: the order, the cycle cells and the blocked cells
partition the formulas; the order has no repetition; everything a scheduled formula waits for,
directly or not, is scheduled; and every blocked formula waits for a cycle.\<close>

theorem schedule_partition:
  assumes "graph_ok g" "dense_size g < u32_bound" "schedule_cancellable g cancelled = Inr r"
  shows "set (map_keys (dg_formulas g)) = set (sched_order r) \<union> cycle_cells r \<union> blocked_cells r \<and>
    set (sched_order r) \<inter> cycle_cells r = {} \<and> blocked_cells r \<inter> (set (sched_order r) \<union> cycle_cells r) = {} \<and>
    distinct (sched_order r) \<and>
    (\<forall>c\<in>set (sched_order r). \<forall>z. reaches (waits_for g) c z \<longrightarrow> z \<in> set (sched_order r)) \<and>
    (\<forall>c\<in>blocked_cells r. \<exists>z\<in>cycle_cells r. reaches (waits_for g) c z)"
proof -
  have spec: "schedule_spec g r" using schedule_correct [OF assms(1,2), of cancelled] assms(3) by simp
  then have "distinct (sched_order r)"
    using greedy_props(1) by (auto simp: schedule_spec_def Let_def)
  moreover have "blocked_cells r \<inter> (set (sched_order r) \<union> cycle_cells r) = {}"
    using spec by (auto simp: schedule_spec_def Let_def)
  ultimately show ?thesis using schedule_parts [OF spec] by blast
qed

theorem schedule_partition_witness:
  "\<exists>r. schedule_cancellable (insert_cells (0, 1, 1) [(0, 1, 1)] graph_default) never = Inr r \<and>
    set (sched_order r) \<union> cycle_cells r \<union> blocked_cells r =
      set (map_keys (dg_formulas (insert_cells (0, 1, 1) [(0, 1, 1)] graph_default)))"
proof -
  let ?g = "insert_cells (0, 1, 1) [(0, 1, 1)] graph_default"
  have g: "graph_ok ?g" "dense_size ?g < u32_bound"
    by (simp_all add: graph_ok_insert_cells [OF graph_ok_default])
      (simp add: dense_size_def insert_cells_def graph_insert_def graph_default_def)
  obtain r where "schedule_cancellable ?g never = Inr r" using schedule_uncancelled [OF g] by blast
  then show ?thesis using schedule_partition [OF g] by metis
qed

text \<open>Every formula in the order comes after the formulas it waits for.\<close>

theorem schedule_order_topological:
  assumes "graph_ok g" "dense_size g < u32_bound" "schedule_cancellable g cancelled = Inr r" "i < length (sched_order r)"
  shows "waits_for g (sched_order r ! i) \<subseteq> set (take i (sched_order r))"
proof -
  have "sched_order r = greedy (map_keys (dg_formulas g)) (waits_for g) {}"
    using schedule_correct [OF assms(1,2), of cancelled] assms(3) by (simp add: schedule_spec_def Let_def)
  then show ?thesis using assms(4) greedy_props [of "map_keys (dg_formulas g)" "waits_for g" "{}"] by simp
qed

theorem schedule_order_topological_witness:
  "\<exists>r. schedule_cancellable (insert_cells (0, 1, 1) [(0, 2, 1)] graph_default) never = Inr r \<and>
    (0 < length (sched_order r) \<longrightarrow>
      waits_for (insert_cells (0, 1, 1) [(0, 2, 1)] graph_default) (sched_order r ! 0) \<subseteq> set (take 0 (sched_order r)))"
proof -
  let ?g = "insert_cells (0, 1, 1) [(0, 2, 1)] graph_default"
  have g: "graph_ok ?g" "dense_size ?g < u32_bound"
    by (simp_all add: graph_ok_insert_cells [OF graph_ok_default])
      (simp add: dense_size_def insert_cells_def graph_insert_def graph_default_def)
  obtain r where r: "schedule_cancellable ?g never = Inr r" using schedule_uncancelled [OF g] by blast
  then show ?thesis using schedule_order_topological [OF g r] by blast
qed

text \<open>The dense graph lists every edge twice: its build returns unless it is cancelled, node \<open>v\<close> waits for
\<open>u\<close> in the dependency lists exactly when \<open>u\<close> lists \<open>v\<close> among its dependents, as often, and the
dependency lists are the edges of the graph to its formulas and areas.\<close>

theorem dense_graph_transposed:
  assumes "graph_ok g" "dense_size g \<le> u32_bound"
  shows "\<exists>d. build g never 0 = Inr (d, 2 * dense_size g) \<and> node_count d = dense_size g \<and>
    (\<forall>v<dense_size g. node_dependencies d v = Some (dense_deps g ! v)) \<and>
    (\<forall>u<dense_size g. \<exists>preds. node_dependents d u = Some preds \<and>
      (\<forall>v<dense_size g. count_list preds v = count_list (dense_deps g ! v) u))"
proof -
  obtain d where d: "build g never 0 = Inr (d, 2 * dense_size g)" "represents d (dense_deps g)"
    using build_correct [OF assms, of never 0] by (auto simp: polled_between_def never_def)
  show ?thesis
    using d by (auto simp: represents_def length_dense_deps count_bucket)
qed

theorem dense_graph_transposed_witness:
  "\<exists>d. build (insert_cells (0, 1, 1) [(0, 1, 1)] graph_default) never 0 = Inr (d, 2)"
proof -
  let ?g = "insert_cells (0, 1, 1) [(0, 1, 1)] graph_default"
  have "dense_size ?g = 1" by (simp add: dense_size_def insert_cells_def graph_insert_def graph_default_def)
  then show ?thesis
    using dense_graph_transposed [OF graph_ok_insert_cells [OF graph_ok_default], of "(0, 1, 1)" "[(0, 1, 1)]"]
    by auto
qed

text \<open>C26: The strongly connected components search finds exactly the open nodes on a cycle through open
nodes, whatever the counts that define which nodes are open.\<close>

theorem cycle_members_exact:
  assumes "dense_ok d" "length counts = node_count d" "set unresolved = open_nodes counts"
  shows "case cycle_members d unresolved counts cancelled polled of
      Inr (result, _) \<Rightarrow> result = {v \<in> open_nodes counts. on_cycle (open_step d counts) v}
    | Inl Cancelled \<Rightarrow> \<exists>i. cancelled i
    | Inl Panicked \<Rightarrow> False"
  using cycle_members_correct [OF assms, of cancelled polled] unfolding polled_ok_def
  by (auto split: sum.splits schedule_error.splits)

theorem cycle_members_exact_witness:
  "\<exists>d. build (insert_cells (0, 1, 1) [(0, 1, 1)] graph_default) never 0 = Inr (d, 2) \<and>
    (case cycle_members d [0] [1] never 2 of
      Inr (result, _) \<Rightarrow> result = {v \<in> open_nodes [1]. on_cycle (open_step d [1]) v}
    | Inl e \<Rightarrow> False)"
proof -
  let ?g = "insert_cells (0, 1, 1) [(0, 1, 1)] graph_default"
  have size: "dense_size ?g = 1" by (simp add: dense_size_def insert_cells_def graph_insert_def graph_default_def)
  then obtain d where d: "build ?g never 0 = Inr (d, 2)" "represents d (dense_deps ?g)"
    using build_correct [OF graph_ok_insert_cells [OF graph_ok_default], of "(0, 1, 1)" "[(0, 1, 1)]" never 0]
    by (auto simp: polled_between_def never_def)
  have "dense_ok d" using d(2) unfolding dense_ok_def by blast
  moreover have "length [1 :: nat] = node_count d"
    using d(2) size by (simp add: represents_def length_dense_deps)
  moreover have "set [0] = open_nodes [1]" by (auto simp: open_nodes_def unresolved_node_def)
  ultimately show ?thesis
    using d(1) cycle_members_exact [of d "[1]" "[0]" never 2]
    by (auto simp: never_def split: sum.splits schedule_error.splits)
qed

end
