(* ===== verification/Cell.thy ===== *)
theory Cell
  imports Address
begin

text \<open>Cells and their contents (\<open>cell.rs\<close>) and formula containers (\<open>formula.rs\<close>).  The finite
floating-point numbers of \<open>FiniteNumber\<close> are a type parameter \<open>'n\<close>: nothing here computes with
them.  Shared pointers to contents and formats are the values they point to.\<close>

section \<open>Values and formats\<close>

datatype number_format_kind = General | NumberKind | DateKind | TimeKind | DateTimeKind | DurationKind

record number_format =
  nf_id :: u32
  nf_code :: "ustring option"
  nf_kind :: number_format_kind

definition number_format_default :: number_format where
  "number_format_default = \<lparr>nf_id = 0, nf_code = None, nf_kind = General\<rparr>"

definition number_format_built_in :: "u32 \<Rightarrow> number_format_kind \<Rightarrow> validation_error + number_format" where
  "number_format_built_in i kind =
    (if 164 \<le> i then Inl (BuiltInNumberFormatId i) else Inr \<lparr>nf_id = i, nf_code = None, nf_kind = kind\<rparr>)"

definition number_format_custom ::
  "u32 \<Rightarrow> ustring \<Rightarrow> number_format_kind \<Rightarrow> validation_error + number_format" where
  "number_format_custom i code kind =
    (if i < 164 then Inl (CustomNumberFormatId i)
     else if code = [] then Inl NumberFormatCodeEmpty
     else Inr \<lparr>nf_id = i, nf_code = Some code, nf_kind = kind\<rparr>)"

datatype excel_error =
    ENull | EDivisionByZero | EValue | EReference | EName | ENumber | ENotAvailable | EGettingData
  | ESpill | ECalculation | EField | EBlocked | EConnect | EBusy | EUnknown | EPython

fun excel_error_as_str :: "excel_error \<Rightarrow> string" where
  "excel_error_as_str ENull = ''#NULL!''"
| "excel_error_as_str EDivisionByZero = ''#DIV/0!''"
| "excel_error_as_str EValue = ''#VALUE!''"
| "excel_error_as_str EReference = ''#REF!''"
| "excel_error_as_str EName = ''#NAME?''"
| "excel_error_as_str ENumber = ''#NUM!''"
| "excel_error_as_str ENotAvailable = ''#N/A''"
| "excel_error_as_str EGettingData = ''#GETTING_DATA''"
| "excel_error_as_str ESpill = ''#SPILL!''"
| "excel_error_as_str ECalculation = ''#CALC!''"
| "excel_error_as_str EField = ''#FIELD!''"
| "excel_error_as_str EBlocked = ''#BLOCKED!''"
| "excel_error_as_str EConnect = ''#CONNECT!''"
| "excel_error_as_str EBusy = ''#BUSY!''"
| "excel_error_as_str EUnknown = ''#UNKNOWN!''"
| "excel_error_as_str EPython = ''#PYTHON!''"

definition excel_error_from_spelling :: "string \<Rightarrow> excel_error option" where
  "excel_error_from_spelling s =
    find (\<lambda>e. excel_error_as_str e = s)
      [ENull, EDivisionByZero, EValue, EReference, EName, ENumber, ENotAvailable, EGettingData,
       ESpill, ECalculation, EField, EBlocked, EConnect, EBusy, EUnknown, EPython]"

datatype 'n cell_value = Blank | Number 'n | Text ustring | Logical bool | Error excel_error

section \<open>Formulas\<close>

datatype formula_dialect = ExcelA1

datatype shared_formula_role = Anchor | Follower cell_address

datatype formula_metadata =
    Normal
  | Shared u32 shared_formula_role "cell_range option"
  | ArrayFormula cell_range bool
  | DynamicArray "cell_range option" bool
  | DataTable cell_range "cell_address option" "cell_address option" bool bool bool bool

fun legacy_array_range_at :: "formula_metadata \<Rightarrow> cell_address \<Rightarrow> cell_range option" where
  "legacy_array_range_at (ArrayFormula rng _) address = (if rng_start rng = address then Some rng else None)"
| "legacy_array_range_at _ address = None"

fun dynamic_array_range_at :: "formula_metadata \<Rightarrow> cell_address \<Rightarrow> cell_range option option" where
  "dynamic_array_range_at (DynamicArray rng _) address =
    (if (case rng of None \<Rightarrow> True | Some r \<Rightarrow> rng_start r = address) then Some rng else None)"
| "dynamic_array_range_at _ address = None"

datatype 'n saved_result = Missing | Present "'n cell_value" | Invalid ustring "ustring option"

record 'n formula_cell =
  fc_dialect :: formula_dialect
  fc_text :: "ustring option"
  fc_saved_result :: "'n saved_result"
  fc_metadata :: formula_metadata
  fc_recalculate_always :: bool

definition from_xlsx_parts ::
  "formula_dialect \<Rightarrow> ustring option \<Rightarrow> 'n saved_result \<Rightarrow> formula_metadata \<Rightarrow> bool \<Rightarrow> 'n formula_cell" where
  "from_xlsx_parts dialect txt saved metadata always =
    \<lparr>fc_dialect = dialect, fc_text = txt, fc_saved_result = saved, fc_metadata = metadata, fc_recalculate_always = always\<rparr>"

section \<open>Cells\<close>

datatype 'n cell_content = Literal "'n cell_value" | Formula "'n formula_cell"

record 'n cell =
  cell_addr :: cell_address
  cell_content :: "'n cell_content"
  cell_number_format :: number_format

definition cell_with_number_format :: "cell_address \<Rightarrow> 'n cell_content \<Rightarrow> number_format \<Rightarrow> 'n cell" where
  "cell_with_number_format address content format =
    \<lparr>cell_addr = address, cell_content = content, cell_number_format = format\<rparr>"

definition with_replaced_content :: "'n cell \<Rightarrow> 'n cell_content \<Rightarrow> 'n cell" where
  "with_replaced_content c content = c\<lparr>cell_content := content\<rparr>"

definition moved_to :: "'n cell \<Rightarrow> cell_address \<Rightarrow> 'n cell" where
  "moved_to c address = c\<lparr>cell_addr := address\<rparr>"

section \<open>Properties\<close>

text \<open>The spelling of every error value reads back to it, and a text that reads as an error value is its
spelling.\<close>

theorem error_spelling_roundtrip: "excel_error_from_spelling s = Some e \<longleftrightarrow> s = excel_error_as_str e"
proof
  assume "excel_error_from_spelling s = Some e"
  then show "s = excel_error_as_str e" unfolding excel_error_from_spelling_def find_Some_iff by auto
next
  assume "s = excel_error_as_str e"
  then show "excel_error_from_spelling s = Some e" by (cases e) (simp_all add: excel_error_from_spelling_def)
qed

end
