(* ===== verification/Radix.thy ===== *)
theory Radix
  imports Ordered_Map "HOL-Library.Word"
begin

unbundle bit_operations_syntax

text \<open>The persistent radix map of \<open>calculation/persistent_store.rs\<close>, which stores the cells of a
sheet: branches record the first differing big-endian byte of the 128-bit keys, and a subtree is
one packed leaf whenever its entries fit the leaf capacity.

Nodes are immutable and shared in the code, which a pure datatype models directly; a leaf entry's
handle into a shared value block is the value it refers to.  The sorted vectors of a node, which
the code searches by binary search and updates in place of a clone, are the ordered maps of
\<open>Ordered_Map\<close>.  \<open>None\<close> is a panic: a branch without children, or entries with equal keys that
exceed the leaf capacity.  The leaf capacity, which depends on the size of the value type, is a
parameter.\<close>

section \<open>Keys\<close>

type_synonym u128 = "128 word"

abbreviation KEY_BYTES :: nat where
  "KEY_BYTES \<equiv> 16"

definition key_byte :: "u128 \<Rightarrow> nat \<Rightarrow> nat" where
  "key_byte key depth = unat (drop_bit ((KEY_BYTES - depth - 1) * 8) key AND 255)"

definition first_differing_byte :: "u128 \<Rightarrow> u128 \<Rightarrow> nat \<Rightarrow> nat option" where
  "first_differing_byte left right start =
    find (\<lambda>depth. key_byte left depth \<noteq> key_byte right depth) [start..<KEY_BYTES]"

section \<open>Nodes\<close>

type_synonym 'v leaf_entries = "(u128 \<times> 'v) list"

datatype 'v radix_node =
    Leaf "'v leaf_entries"
  | Branch (node_depth: nat) (node_children: "(nat \<times> 'v radix_node) list") (branch_len: nat) (branch_min: u128)

fun node_len :: "'v radix_node \<Rightarrow> nat" where
  "node_len (Leaf entries) = length entries"
| "node_len (Branch depth children len min_key) = len"

fun node_min_key :: "'v radix_node \<Rightarrow> u128" where
  "node_min_key (Leaf entries) = (case entries of [] \<Rightarrow> 0 | (key, _) # _ \<Rightarrow> key)"
| "node_min_key (Branch depth children len min_key) = min_key"

definition branch :: "nat \<Rightarrow> (nat \<times> 'v radix_node) list \<Rightarrow> nat \<Rightarrow> 'v radix_node option" where
  "branch depth children len =
    (case children of [] \<Rightarrow> None
      | (_, child) # _ \<Rightarrow> Some (Branch depth children len (node_min_key child)))"

function get_node :: "'v radix_node \<Rightarrow> u128 \<Rightarrow> 'v option" where
  "get_node (Leaf entries) key = map_get entries key"
| "get_node (Branch depth children len min_key) key =
    (case map_get children (key_byte key depth) of None \<Rightarrow> None
      | Some child \<Rightarrow> get_node child key)"
  by pat_completeness auto

text \<open>The runs of neighbouring entries with the same byte.\<close>

function chunks :: "('a \<Rightarrow> nat) \<Rightarrow> 'a list \<Rightarrow> (nat \<times> 'a list) list" where
  "chunks f [] = []"
| "chunks f (x # xs) = (f x, x # takeWhile (\<lambda>y. f y = f x) xs) # chunks f (dropWhile (\<lambda>y. f y = f x) xs)"
  by pat_completeness auto
termination
  by (relation "measure (\<lambda>(f, xs). length xs)") (auto simp: length_dropWhile_le less_Suc_eq_le)

function build_shared_node :: "nat \<Rightarrow> nat \<Rightarrow> 'v leaf_entries \<Rightarrow> 'v radix_node option" where
  "build_shared_node capacity depth entries =
    (if length entries \<le> capacity then Some (Leaf entries)
     else case first_differing_byte (fst (hd entries)) (fst (last entries)) depth of
       None \<Rightarrow> None
     | Some branch_depth \<Rightarrow>
         Option.bind
           (map_all (\<lambda>(edge, group). map_option (Pair edge) (build_shared_node capacity (branch_depth + 1) group))
             (chunks (\<lambda>entry. key_byte (fst entry) branch_depth) entries))
           (\<lambda>children. branch branch_depth children (length entries)))"
  by pat_completeness auto

lemma first_differing_byte_range: "first_differing_byte l r s = Some b \<Longrightarrow> s \<le> b \<and> b < KEY_BYTES"
  unfolding first_differing_byte_def find_Some_iff by (auto simp: nth_upt)

termination build_shared_node
  by (relation "measure (\<lambda>(capacity, depth, entries). KEY_BYTES - depth)")
    (auto dest: first_differing_byte_range)

declare build_shared_node.simps [simp del]

text \<open>The byte above a branch at which a new key leaves the keys of the branch.\<close>

definition split_above :: "nat \<Rightarrow> u128 \<Rightarrow> u128 \<Rightarrow> nat \<Rightarrow> nat option" where
  "split_above current_depth key min_key depth =
    (case first_differing_byte key min_key depth of
      Some split_depth \<Rightarrow> if split_depth < current_depth then Some split_depth else None
    | None \<Rightarrow> None)"

function insert_node ::
  "nat \<Rightarrow> 'v radix_node \<Rightarrow> u128 \<Rightarrow> 'v \<Rightarrow> nat \<Rightarrow> ('v radix_node \<times> 'v option) option" where
  "insert_node capacity (Leaf current) key v depth =
    (let entries = map_insert key v current
     in map_option (\<lambda>node. (node, map_get current key))
       (if length entries \<le> capacity then Some (Leaf entries)
        else build_shared_node capacity depth entries))"
| "insert_node capacity (Branch current_depth current len min_key) key v depth =
    (case split_above current_depth key min_key depth of
      Some split_depth \<Rightarrow>
        map_option (\<lambda>node. (node, None))
          (branch split_depth
            (sort_key fst
              [(key_byte min_key split_depth, Branch current_depth current len min_key),
               (key_byte key split_depth, Leaf [(key, v)])])
            (len + 1))
    | None \<Rightarrow>
        let edge = key_byte key current_depth
        in (case map_get current edge of
            Some child \<Rightarrow>
              Option.bind (insert_node capacity child key v (current_depth + 1)) (\<lambda>(child', previous).
                map_option (\<lambda>node. (node, previous))
                  (branch current_depth (map_insert edge child' current)
                    (len + (if previous = None then 1 else 0))))
          | None \<Rightarrow>
              map_option (\<lambda>node. (node, None))
                (branch current_depth (map_insert edge (Leaf [(key, v)]) current) (len + 1))))"
  by pat_completeness auto

fun entries_of :: "'v radix_node \<Rightarrow> 'v leaf_entries" where
  "entries_of (Leaf entries) = entries"
| "entries_of (Branch depth children len min_key) = concat (map (\<lambda>(_, child). entries_of child) children)"

definition collect_entries :: "(nat \<times> 'v radix_node) list \<Rightarrow> 'v leaf_entries" where
  "collect_entries children = concat (map (\<lambda>(_, child). entries_of child) children)"

function remove_node ::
  "nat \<Rightarrow> 'v radix_node \<Rightarrow> u128 \<Rightarrow> ('v radix_node option \<times> 'v option) option" where
  "remove_node capacity (Leaf current) key =
    (case map_get current key of
      None \<Rightarrow> Some (Some (Leaf current), None)
    | Some removed \<Rightarrow>
        let entries = map_remove key current
        in Some (if entries = [] then None else Some (Leaf entries), Some removed))"
| "remove_node capacity (Branch current_depth current len min_key) key =
    (let node = Branch current_depth current len min_key; edge = key_byte key current_depth
     in case map_get current edge of
       None \<Rightarrow> Some (Some node, None)
     | Some child \<Rightarrow>
         Option.bind (remove_node capacity child key) (\<lambda>(child', removed).
           if removed = None then Some (Some node, None)
           else
             let children = (case child' of Some c \<Rightarrow> map_insert edge c current | None \<Rightarrow> map_remove edge current);
               len' = len - 1
             in if len' \<le> capacity then Some (Some (Leaf (collect_entries children)), removed)
                else if length children = 1 then Some (Some (snd (children ! 0)), removed)
                else map_option (\<lambda>n. (Some n, removed)) (branch current_depth children len')))"
  by pat_completeness auto

section \<open>Termination\<close>

lemma child_size:
  assumes "map_get children edge = Some child"
  shows "size child < size (Branch depth children len min_key)"
proof -
  have "(edge, child) \<in> set children" using assms by (auto simp: map_get_def dest: map_of_SomeD)
  then have "size_prod (\<lambda>_. 0) size (edge, child) \<le> size_list (size_prod (\<lambda>_. 0) size) children"
    by (rule size_list_estimation') simp
  then show ?thesis by simp
qed

termination get_node
  by (relation "measure (\<lambda>(node, key). size node)") (auto dest: child_size)

termination insert_node
  by (relation "measure (\<lambda>(capacity, node, key, v, depth). size node)") (auto dest: child_size)

termination remove_node
  by (relation "measure (\<lambda>(capacity, node, key). size node)") (auto dest: child_size)

section \<open>The map\<close>

record 'v radix_map =
  radix_root :: "'v radix_node"
  radix_len :: nat

definition radix_default :: "'v radix_map" where
  "radix_default = \<lparr>radix_root = Leaf [], radix_len = 0\<rparr>"

text \<open>\<open>from_sorted_iter_cancellable\<close> for a callback that never cancels: the assertion on the keys,
then the bulk build.\<close>

definition from_sorted_iter :: "nat \<Rightarrow> 'v leaf_entries \<Rightarrow> 'v radix_map option" where
  "from_sorted_iter capacity entries =
    (if sorted_wrt (<) (map fst entries)
     then map_option (\<lambda>root. \<lparr>radix_root = root, radix_len = length entries\<rparr>)
       (build_shared_node capacity 0 entries)
     else None)"

definition radix_get :: "'v radix_map \<Rightarrow> u128 \<Rightarrow> 'v option" where
  "radix_get m key = get_node (radix_root m) key"

definition radix_insert ::
  "nat \<Rightarrow> u128 \<Rightarrow> 'v \<Rightarrow> 'v radix_map \<Rightarrow> ('v radix_map \<times> 'v option) option" where
  "radix_insert capacity key v m =
    map_option (\<lambda>(root, previous).
        (\<lparr>radix_root = root, radix_len = radix_len m + (if previous = None then 1 else 0)\<rparr>, previous))
      (insert_node capacity (radix_root m) key v 0)"

definition radix_remove :: "nat \<Rightarrow> u128 \<Rightarrow> 'v radix_map \<Rightarrow> ('v radix_map \<times> 'v option) option" where
  "radix_remove capacity key m =
    map_option (\<lambda>(root, removed).
        (\<lparr>radix_root = (case root of Some r \<Rightarrow> r | None \<Rightarrow> Leaf []),
          radix_len = radix_len m - (if removed = None then 0 else 1)\<rparr>, removed))
      (remove_node capacity (radix_root m) key)"

section \<open>Bytes and prefixes\<close>

text \<open>The bytes of a key before a depth, as a number.\<close>

definition prefix :: "nat \<Rightarrow> u128 \<Rightarrow> nat" where
  "prefix d key = unat key div 256 ^ (KEY_BYTES - d)"

lemma key_byte_nat: "key_byte key depth = unat key div 256 ^ (KEY_BYTES - depth - 1) mod 256"
proof -
  have "(255 :: u128) = mask 8" by (simp add: mask_eq_exp_minus_1)
  then have "key_byte key depth = unat (take_bit 8 (drop_bit ((KEY_BYTES - depth - 1) * 8) key))"
    by (simp only: key_byte_def take_bit_eq_mask)
  also have "\<dots> = take_bit 8 (drop_bit ((KEY_BYTES - depth - 1) * 8) (unat key))"
    by (simp only: unsigned_take_bit_eq unat_drop_bit_eq)
  also have "\<dots> = unat key div 2 ^ ((KEY_BYTES - depth - 1) * 8) mod 2 ^ 8"
    by (simp only: take_bit_eq_mod drop_bit_eq_div)
  also have "(2 :: nat) ^ ((KEY_BYTES - depth - 1) * 8) = 256 ^ (KEY_BYTES - depth - 1)"
    by (simp add: power_mult mult.commute)
  finally show ?thesis by simp
qed

lemma prefix_0 [simp]: "prefix 0 key = 0"
  using unsigned_less [of key, where ?'a = nat] by (simp add: prefix_def)

lemma prefix_all: "prefix KEY_BYTES key = unat key"
  by (simp add: prefix_def)

lemma prefix_Suc: "d < KEY_BYTES \<Longrightarrow> prefix (Suc d) key = prefix d key * 256 + key_byte key d"
proof -
  assume d: "d < KEY_BYTES"
  let ?n = "unat key div 256 ^ (KEY_BYTES - d - 1)"
  have "(256 :: nat) ^ (KEY_BYTES - d) = 256 ^ (KEY_BYTES - d - 1) * 256"
    using d by (metis Suc_diff_Suc diff_Suc_eq_diff_pred diff_diff_left mult.commute plus_1_eq_Suc power_Suc add.commute)
  then have "prefix d key = ?n div 256" by (simp add: prefix_def div_mult2_eq)
  then show ?thesis by (simp add: prefix_def key_byte_nat)
qed

lemma key_byte_less: "key_byte key d < 256"
  by (simp add: key_byte_nat)

lemma prefix_mono: "k \<le> k' \<Longrightarrow> prefix d k \<le> prefix d k'"
  by (simp add: prefix_def div_le_mono word_le_nat_alt)

lemma prefix_Suc_eq:
  assumes "d < KEY_BYTES"
  shows "prefix (Suc d) k = prefix (Suc d) k' \<longleftrightarrow> prefix d k = prefix d k' \<and> key_byte k d = key_byte k' d"
proof -
  have "(a * 256 + b) div 256 = a" "(a * 256 + b) mod 256 = b" if "b < 256" for a b :: nat
    using that by auto
  then have "a * 256 + b = a' * 256 + b' \<longleftrightarrow> a = a' \<and> b = b'" if "b < 256" "b' < 256" for a a' b b' :: nat
    using that by metis
  then show ?thesis using key_byte_less [of k d] key_byte_less [of k' d] assms by (simp add: prefix_Suc)
qed

lemma prefix_less: "d' \<le> d \<Longrightarrow> d \<le> KEY_BYTES \<Longrightarrow> prefix d k = prefix d k' \<Longrightarrow> prefix d' k = prefix d' k'"
proof (induction d)
  case (Suc d)
  then show ?case by (cases "d' = Suc d") (auto simp: prefix_Suc_eq)
qed simp

text \<open>Among keys with a common prefix the next byte grows with the key.\<close>

lemma key_byte_mono: "prefix d k = prefix d k' \<Longrightarrow> d < KEY_BYTES \<Longrightarrow> k \<le> k' \<Longrightarrow> key_byte k d \<le> key_byte k' d"
  using prefix_mono [of k k' "Suc d"] by (simp add: prefix_Suc)

lemma key_byte_less_imp: "prefix d k = prefix d k' \<Longrightarrow> d < KEY_BYTES \<Longrightarrow> key_byte k d < key_byte k' d \<Longrightarrow> k < k'"
  using key_byte_mono [of d k' k] by (cases "k < k'") (auto simp: not_less)

lemma prefix_between: "prefix d k = prefix d k'' \<Longrightarrow> k \<le> k' \<Longrightarrow> k' \<le> k'' \<Longrightarrow> prefix d k' = prefix d k"
  using prefix_mono [of k k' d] prefix_mono [of k' k'' d] by simp

lemma first_differing_Some:
  assumes "first_differing_byte l r s = Some b" "prefix s l = prefix s r"
  shows "s \<le> b" "b < KEY_BYTES" "prefix b l = prefix b r" "key_byte l b \<noteq> key_byte r b"
proof -
  obtain i where i: "i < length [s..<KEY_BYTES]" "key_byte l ([s..<KEY_BYTES] ! i) \<noteq> key_byte r ([s..<KEY_BYTES] ! i)"
    "b = [s..<KEY_BYTES] ! i" "\<forall>j<i. key_byte l ([s..<KEY_BYTES] ! j) = key_byte r ([s..<KEY_BYTES] ! j)"
    using assms(1) unfolding first_differing_byte_def find_Some_iff by auto
  then have b: "b = s + i" "s + i < KEY_BYTES" by (auto simp: nth_upt)
  show "s \<le> b" "b < KEY_BYTES" "key_byte l b \<noteq> key_byte r b" using b i by auto
  have "prefix (s + j) l = prefix (s + j) r" if "j \<le> i" for j
    using that
  proof (induction j)
    case (Suc j)
    then show ?case using i(4) b(2) by (auto simp: prefix_Suc_eq nth_upt)
  qed (use assms(2) in simp)
  then show "prefix b l = prefix b r" using b by simp
qed

lemma first_differing_None:
  assumes "first_differing_byte l r s = None" "prefix s l = prefix s r" "s \<le> KEY_BYTES"
  shows "l = r"
proof -
  have same: "key_byte l d = key_byte r d" if "s \<le> d" "d < KEY_BYTES" for d
    using assms(1) that unfolding first_differing_byte_def find_None_iff by auto
  have "prefix (s + j) l = prefix (s + j) r" if "s + j \<le> KEY_BYTES" for j
    using that
  proof (induction j)
    case (Suc j)
    then show ?case using same by (simp add: prefix_Suc_eq)
  qed (use assms(2) in simp)
  from this [of "KEY_BYTES - s"] show ?thesis using assms(3) by (simp add: prefix_all word_unat_eq_iff)
qed

text \<open>Where two keys first differ is determined by the prefixes, whatever the start.\<close>

lemma first_differing_iff:
  assumes "prefix s l = prefix s r"
  shows "first_differing_byte l r s = Some b \<longleftrightarrow>
    s \<le> b \<and> b < KEY_BYTES \<and> prefix b l = prefix b r \<and> key_byte l b \<noteq> key_byte r b"
proof
  assume "first_differing_byte l r s = Some b"
  then show "s \<le> b \<and> b < KEY_BYTES \<and> prefix b l = prefix b r \<and> key_byte l b \<noteq> key_byte r b"
    using first_differing_Some [OF _ assms] by blast
next
  assume b: "s \<le> b \<and> b < KEY_BYTES \<and> prefix b l = prefix b r \<and> key_byte l b \<noteq> key_byte r b"
  then have "l \<noteq> r" by auto
  then obtain c where c: "first_differing_byte l r s = Some c"
    using first_differing_None [OF _ assms] b by fastforce
  note d = first_differing_Some [OF c assms]
  have "\<not> b < c" using b d(2,3) prefix_less [of "Suc b" c l r] prefix_Suc_eq [of b l r] by auto
  moreover have "\<not> c < b" using b d(2,4) prefix_less [of "Suc c" b l r] prefix_Suc_eq [of c l r] by auto
  ultimately show "first_differing_byte l r s = Some b" using c by simp
qed

section \<open>Chunks\<close>

definition chunking :: "('a \<Rightarrow> nat) \<Rightarrow> 'a list \<Rightarrow> (nat \<times> 'a list) list \<Rightarrow> bool" where
  "chunking f xs cs =
    (concat (map snd cs) = xs \<and> sorted_wrt (<) (map fst cs) \<and>
     (\<forall>c\<in>set cs. snd c \<noteq> [] \<and> (\<forall>x\<in>set (snd c). f x = fst c)))"

lemma chunking_mem:
  assumes "chunking f xs cs"
  shows "x \<in> set xs \<longleftrightarrow> (\<exists>c\<in>set cs. x \<in> set (snd c))"
proof -
  have "xs = concat (map snd cs)" using assms by (simp add: chunking_def)
  then show ?thesis by simp
qed

lemma chunking_chunk:
  "chunking f xs cs \<Longrightarrow> c \<in> set cs \<Longrightarrow> snd c \<noteq> [] \<and> (\<forall>x\<in>set (snd c). f x = fst c)"
  by (simp add: chunking_def)

lemma chunking_edges:
  assumes "chunking f xs cs"
  shows "fst ` set cs = f ` set xs"
proof (intro set_eqI iffI)
  fix e assume "e \<in> fst ` set cs"
  then obtain c where c: "c \<in> set cs" "e = fst c" by blast
  then have "hd (snd c) \<in> set (snd c)" "f (hd (snd c)) = e" using chunking_chunk [OF assms c(1)] by auto
  then show "e \<in> f ` set xs" using chunking_mem [OF assms] c(1) by blast
next
  fix e assume "e \<in> f ` set xs"
  then obtain x c where "x \<in> set (snd c)" "c \<in> set cs" "e = f x" using chunking_mem [OF assms] by blast
  then show "e \<in> fst ` set cs" using chunking_chunk [OF assms] by blast
qed

text \<open>There is one way to cut a list into chunks with increasing edges.\<close>

lemma chunking_unique: "chunking f xs cs \<Longrightarrow> cs = chunks f xs"
proof (induction cs arbitrary: xs)
  case (Cons c cs)
  let ?rest = "concat (map snd cs)"
  have rest: "chunking f ?rest cs" using Cons.prems by (auto simp: chunking_def)
  obtain x g where g: "snd c = x # g" using Cons.prems by (cases "snd c") (auto simp: chunking_def)
  have f: "f x = fst c" "\<forall>y\<in>set g. f y = fst c" using Cons.prems g by (auto simp: chunking_def)
  have "\<forall>e\<in>fst ` set cs. fst c < e" using Cons.prems by (auto simp: chunking_def)
  then have "\<forall>e\<in>f ` set ?rest. fst c < e" unfolding chunking_edges [OF rest] .
  then have "\<forall>y\<in>set ?rest. f y \<noteq> fst c" by fastforce
  then have stop: "?rest = [] \<or> \<not> f (hd ?rest) = f x" using f(1) hd_in_set by metis
  have xs: "xs = x # g @ ?rest" using Cons.prems g by (auto simp: chunking_def)
  have "takeWhile (\<lambda>y. f y = f x) (g @ ?rest) = g" "dropWhile (\<lambda>y. f y = f x) (g @ ?rest) = ?rest"
    using f stop by (auto simp: takeWhile_append2 dropWhile_append2 takeWhile_eq_Nil_iff dropWhile_eq_self_iff)
  then have "chunks f xs = (f x, x # g) # chunks f ?rest" unfolding xs by simp
  then show ?case using Cons.IH [OF rest] f(1) g by (simp add: prod_eq_iff)
qed (simp add: chunking_def)

lemma sorted_dropWhile_map: "sorted (map f xs) \<Longrightarrow> sorted (map f (dropWhile P xs))"
  by (induction xs) auto

lemma chunks_chunking: "sorted (map f xs) \<Longrightarrow> chunking f xs (chunks f xs)"
proof (induction f xs rule: chunks.induct)
  case (2 f x xs)
  let ?P = "\<lambda>y. f y = f x"
  let ?rest = "dropWhile ?P xs"
  have sorted: "sorted (map f ?rest)" using 2(2) sorted_dropWhile_map [of f xs] by simp
  then have rest: "chunking f ?rest (chunks f ?rest)" by (rule 2(1))
  have "f x < f y" if y: "y \<in> set ?rest" for y
  proof -
    obtain z zs where z: "?rest = z # zs" using y by (cases ?rest) auto
    have "f z \<noteq> f x" using hd_dropWhile [of ?P xs] z by auto
    moreover have "f x \<le> f z" using 2(2) set_dropWhileD [of z ?P xs] z by simp
    moreover have "f z \<le> f y" using sorted y unfolding z by auto
    ultimately show ?thesis by simp
  qed
  then have "\<forall>e\<in>fst ` set (chunks f ?rest). f x < e" unfolding chunking_edges [OF rest] by blast
  moreover have rs: "sorted_wrt (<) (map fst (chunks f ?rest))" "concat (map snd (chunks f ?rest)) = ?rest"
    using rest unfolding chunking_def by blast+
  ultimately have "sorted_wrt (<) (map fst (chunks f (x # xs)))" by simp
  moreover have "concat (map snd (chunks f (x # xs))) = x # xs" using rs(2) by simp
  moreover have "snd c \<noteq> [] \<and> (\<forall>y\<in>set (snd c). f y = fst c)" if "c \<in> set (chunks f (x # xs))" for c
  proof (cases "c = (f x, x # takeWhile ?P xs)")
    case True
    have "f y = f x" if "y \<in> set (takeWhile ?P xs)" for y using set_takeWhileD [OF that] by blast
    then have "\<forall>y\<in>set (x # takeWhile ?P xs). f y = f x" by (metis set_ConsD)
    then show ?thesis unfolding True snd_conv fst_conv by blast
  next
    case False
    then have "c \<in> set (chunks f ?rest)" using that by simp
    then show ?thesis by (rule chunking_chunk [OF rest])
  qed
  ultimately show ?case unfolding chunking_def by blast
qed (simp add: chunking_def)

lemma chunking_group:
  assumes "chunking f xs cs" "(e, g) \<in> set cs"
  shows "g \<noteq> []" "set g \<subseteq> set xs" "\<forall>x\<in>set g. f x = e"
proof -
  show "g \<noteq> []" "\<forall>x\<in>set g. f x = e" using chunking_chunk [OF assms] by simp_all
  show "set g \<subseteq> set xs"
  proof
    fix x assume "x \<in> set g"
    then have "x \<in> set (snd (e, g))" by simp
    then show "x \<in> set xs" using chunking_mem [OF assms(1)] assms(2) by blast
  qed
qed

lemma chunking_get:
  assumes "chunking f xs cs" "x \<in> set xs"
  shows "\<exists>g. map_get cs (f x) = Some g \<and> x \<in> set g"
proof -
  obtain c where c: "c \<in> set cs" "x \<in> set (snd c)" using chunking_mem [OF assms(1)] assms(2) by blast
  have "fst c = f x" using chunking_chunk [OF assms(1) c(1)] c(2) by simp
  then have "(f x, snd c) \<in> set cs" using c(1) by (metis prod.collapse)
  then have "map_get cs (f x) = Some (snd c)"
    using assms(1) by (simp add: map_get_Some_entry map_ok_def map_keys_def chunking_def)
  then show ?thesis using c(2) by blast
qed

lemma chunking_ok: "chunking f xs cs \<Longrightarrow> map_ok cs"
  by (simp add: chunking_def map_ok_def map_keys_def)

lemma chunking_get_None: "chunking f xs cs \<Longrightarrow> map_get cs e = None \<Longrightarrow> x \<in> set xs \<Longrightarrow> f x \<noteq> e"
  using chunking_get by fastforce

text \<open>A chunk is a proper part when the ends of the list lie in different chunks.\<close>

lemma chunking_shorter:
  assumes "chunking f xs cs" "(e, g) \<in> set cs" "x \<in> set xs" "f x \<noteq> e"
  shows "length g < length xs"
proof -
  obtain ys zs where cs: "cs = ys @ (e, g) # zs" using assms(2) by (auto simp: in_set_conv_decomp)
  have xs: "xs = concat (map snd ys) @ g @ concat (map snd zs)" using assms(1) cs by (simp add: chunking_def)
  have "x \<notin> set g" using chunking_group(3) [OF assms(1,2)] assms(4) by blast
  then have "x \<in> set (concat (map snd ys)) \<or> x \<in> set (concat (map snd zs))"
    using assms(3) unfolding xs by auto
  then have "0 < length (concat (map snd ys)) \<or> 0 < length (concat (map snd zs))"
    using length_pos_if_in_set by metis
  then show ?thesis unfolding xs by (simp only: length_append) linarith
qed

section \<open>The canonical node of a list of entries\<close>

definition canon :: "nat \<Rightarrow> 'v leaf_entries \<Rightarrow> 'v radix_node" where
  "canon capacity entries = the (build_shared_node capacity 0 entries)"

abbreviation byte_at :: "nat \<Rightarrow> u128 \<times> 'v \<Rightarrow> nat" where
  "byte_at b \<equiv> (\<lambda>entry. key_byte (fst entry) b)"

text \<open>The keys agree on the bytes before a depth.\<close>

definition shares_prefix :: "nat \<Rightarrow> 'v leaf_entries \<Rightarrow> bool" where
  "shares_prefix d es = (\<forall>k\<in>fst ` set es. \<forall>k'\<in>fst ` set es. prefix d k = prefix d k')"

definition branches_at :: "'v leaf_entries \<Rightarrow> nat \<Rightarrow> bool" where
  "branches_at es b =
    (b < KEY_BYTES \<and> shares_prefix b es \<and> chunking (byte_at b) es (chunks (byte_at b) es) \<and>
     key_byte (fst (hd es)) b < key_byte (fst (last es)) b)"

lemma map_ok_ends:
  assumes "map_ok es" "(k, v) \<in> set es"
  shows "fst (hd es) \<le> k" "k \<le> fst (last es)"
proof -
  have s: "sorted (map fst es)" using assms(1) by (simp add: map_ok_def map_keys_def strict_sorted_iff)
  obtain i where i: "i < length es" "es ! i = (k, v)" using assms(2) by (auto simp: in_set_conv_nth)
  have ne: "es \<noteq> []" using i by auto
  show "fst (hd es) \<le> k" using sorted_nth_mono [OF s, of 0 i] i ne by (simp add: hd_conv_nth)
  show "k \<le> fst (last es)" using sorted_nth_mono [OF s, of i "length es - 1"] i ne by (simp add: last_conv_nth)
qed

lemma branches_atI:
  assumes "map_ok es" "es \<noteq> []" "b < KEY_BYTES"
    "prefix b (fst (hd es)) = prefix b (fst (last es))" "key_byte (fst (hd es)) b \<noteq> key_byte (fst (last es)) b"
  shows "branches_at es b"
proof -
  have pre: "prefix b k = prefix b (fst (hd es))" if k: "k \<in> fst ` set es" for k
  proof -
    obtain v where "(k, v) \<in> set es" using k by auto
    then show ?thesis using prefix_between [OF assms(4)] map_ok_ends [OF assms(1)] by blast
  qed
  have s: "sorted (map fst es)" using assms(1) by (simp add: map_ok_def map_keys_def strict_sorted_iff)
  have "key_byte (fst (es ! i)) b \<le> key_byte (fst (es ! j)) b" if "i \<le> j" "j < length es" for i j
  proof (rule key_byte_mono [OF _ assms(3)])
    show "fst (es ! i) \<le> fst (es ! j)" using sorted_nth_mono [OF s that(1)] that by simp
    show "prefix b (fst (es ! i)) = prefix b (fst (es ! j))"
      using pre [of "fst (es ! i)"] pre [of "fst (es ! j)"] that by simp
  qed
  then have sorted: "sorted (map (byte_at b) es)" by (simp add: sorted_iff_nth_mono)
  moreover have "fst (hd es) \<le> fst (last es)"
    using map_ok_ends(1) [OF assms(1), of "fst (last es)" "snd (last es)"] assms(2) by simp
  then have "key_byte (fst (hd es)) b \<le> key_byte (fst (last es)) b" using key_byte_mono [OF assms(4,3)] by blast
  ultimately show ?thesis
    unfolding branches_at_def shares_prefix_def using assms(3,5) pre chunks_chunking [OF sorted] by simp
qed

lemma branch_point:
  assumes "map_ok es" "2 \<le> length es" "prefix d (fst (hd es)) = prefix d (fst (last es))" "d \<le> KEY_BYTES"
  shows "\<exists>b. first_differing_byte (fst (hd es)) (fst (last es)) d = Some b \<and> d \<le> b \<and> branches_at es b"
proof -
  have "distinct (map fst es)" using btree.distinct_keys [OF assms(1)] by (simp add: map_keys_def)
  then have "map fst es ! 0 \<noteq> map fst es ! (length es - 1)"
    using assms(2) by (subst nth_eq_iff_index_eq) auto
  moreover have "es \<noteq> []" using assms(2) by auto
  ultimately have ne: "fst (hd es) \<noteq> fst (last es)" by (simp add: last_conv_nth hd_conv_nth)
  then obtain b where b: "first_differing_byte (fst (hd es)) (fst (last es)) d = Some b"
    using first_differing_None [OF _ assms(3,4)] by fastforce
  note p = first_differing_Some [OF b assms(3)]
  have "branches_at es b" by (rule branches_atI [OF assms(1) _ p(2-4)]) (use assms(2) in auto)
  then show ?thesis using b p(1) by blast
qed

lemma branch_group:
  assumes "branches_at es b" "map_ok es" "(e, g) \<in> set (chunks (byte_at b) es)"
  shows "map_ok g" "g \<noteq> []" "length g < length es"
    "shares_prefix (Suc b) g"
    "\<forall>k\<in>fst ` set g. key_byte k b = e" "set g \<subseteq> set es"
proof -
  let ?cs = "chunks (byte_at b) es"
  have cs: "chunking (byte_at b) es ?cs" using assms(1) by (simp add: branches_at_def)
  note g = chunking_group [OF cs assms(3)]
  show "g \<noteq> []" "set g \<subseteq> set es" by (fact g)+
  show bytes: "\<forall>k\<in>fst ` set g. key_byte k b = e" using g(3) by blast
  obtain ys zs where "?cs = ys @ (e, g) # zs" using assms(3) by (auto simp: in_set_conv_decomp)
  moreover have "es = concat (map snd ?cs)" using cs by (simp add: chunking_def)
  ultimately have "es = concat (map snd ys) @ g @ concat (map snd zs)" by simp
  then show "map_ok g" using assms(2) by (simp add: map_ok_def map_keys_def sorted_wrt_append)
  have "es \<noteq> []" using g(1,2) by auto
  then have ends: "hd es \<in> set es" "last es \<in> set es" by auto
  have "key_byte (fst (hd es)) b \<noteq> e \<or> key_byte (fst (last es)) b \<noteq> e"
    using assms(1) unfolding branches_at_def by fastforce
  then show "length g < length es"
    using chunking_shorter [OF cs assms(3) ends(1)] chunking_shorter [OF cs assms(3) ends(2)] by blast
  have sub: "fst ` set g \<subseteq> fst ` set es" using g(2) by (rule image_mono)
  have "shares_prefix b es" using assms(1) by (simp add: branches_at_def)
  then have "shares_prefix b g" unfolding shares_prefix_def using sub by (meson subsetD)
  then have "prefix b k = prefix b k'" if "k \<in> fst ` set g" "k' \<in> fst ` set g" for k k'
    using that unfolding shares_prefix_def by (meson bspec)
  moreover have "b < KEY_BYTES" using assms(1) by (simp add: branches_at_def)
  ultimately show "shares_prefix (Suc b) g"
    unfolding shares_prefix_def using bytes prefix_Suc_eq by metis
qed

text \<open>Building is total on sorted entries, and starts deeper make no difference.\<close>

lemma shares_prefix_ends: "shares_prefix d es \<Longrightarrow> es \<noteq> [] \<Longrightarrow> prefix d (fst (hd es)) = prefix d (fst (last es))"
  by (simp add: shares_prefix_def)

lemma shares_prefix_0: "shares_prefix 0 es"
  by (simp add: shares_prefix_def)

lemma branches_at_unique:
  assumes "branches_at es b" "prefix d (fst (hd es)) = prefix d (fst (last es))" "d \<le> b" "es \<noteq> []"
  shows "first_differing_byte (fst (hd es)) (fst (last es)) d = Some b"
  using assms shares_prefix_ends [of b es] unfolding first_differing_iff [OF assms(2)] branches_at_def by auto

lemma build_depth:
  assumes "map_ok es" "shares_prefix d es" "d \<le> KEY_BYTES" "0 < capacity"
  shows "build_shared_node capacity d es = build_shared_node capacity 0 es"
proof (cases "length es \<le> capacity")
  case False
  then have len: "2 \<le> length es" "es \<noteq> []" using assms(4) by auto
  note pre = shares_prefix_ends [OF assms(2) len(2)]
  obtain b where b: "first_differing_byte (fst (hd es)) (fst (last es)) d = Some b" "d \<le> b" "branches_at es b"
    using branch_point [OF assms(1) len(1) pre assms(3)] by blast
  have "first_differing_byte (fst (hd es)) (fst (last es)) 0 = Some b"
    by (rule branches_at_unique [OF b(3)]) (use len in auto)
  then show ?thesis
    by (subst build_shared_node.simps, subst (2) build_shared_node.simps) (simp add: b(1))
qed (simp add: build_shared_node.simps)

lemma node_min_hd: "node_min_key (Leaf es) = fst (hd es)" if "es \<noteq> []"
  using that by (cases es) auto

lemma branch_chunks:
  assumes "chunking f es cs" "es \<noteq> []" "\<And>e g. (e, g) \<in> set cs \<Longrightarrow> node_min_key (h g) = fst (hd g)"
  shows "branch b (map (\<lambda>(e, g). (e, h g)) cs) n = Some (Branch b (map (\<lambda>(e, g). (e, h g)) cs) n (fst (hd es)))"
proof -
  obtain e g rest where cs: "cs = (e, g) # rest" using assms(1,2) by (cases cs) (auto simp: chunking_def)
  then have "g \<noteq> []" using chunking_group(1) [OF assms(1), of e g] by simp
  moreover have "es = concat (map snd cs)" using assms(1) by (simp add: chunking_def)
  ultimately have "hd es = hd g" using cs by simp
  then show ?thesis using assms(3) [of e g] cs by (simp add: branch_def)
qed

lemma canon_total:
  assumes "map_ok es" "0 < capacity"
  shows "build_shared_node capacity 0 es = Some (canon capacity es)
    \<and> (es \<noteq> [] \<longrightarrow> node_min_key (canon capacity es) = fst (hd es))
    \<and> (capacity < length es \<longrightarrow> (\<exists>b. branches_at es b \<and>
        first_differing_byte (fst (hd es)) (fst (last es)) 0 = Some b \<and>
        canon capacity es = Branch b (map (\<lambda>(e, g). (e, canon capacity g)) (chunks (byte_at b) es))
          (length es) (fst (hd es))))"
  using assms(1)
proof (induction es rule: length_induct)
  case (1 es)
  show ?case
  proof (cases "length es \<le> capacity")
    case True
    then have "build_shared_node capacity 0 es = Some (Leaf es)" by (simp add: build_shared_node.simps)
    then show ?thesis using True node_min_hd [of es] by (simp add: canon_def)
  next
    case False
    then have len: "2 \<le> length es" "es \<noteq> []" using assms(2) by auto
    obtain b where b: "first_differing_byte (fst (hd es)) (fst (last es)) 0 = Some b" "branches_at es b"
      using branch_point [OF 1(2) len(1), of 0] by auto
    let ?cs = "chunks (byte_at b) es"
    have bb: "Suc b \<le> KEY_BYTES" and cs: "chunking (byte_at b) es ?cs" using b(2) by (simp_all add: branches_at_def)
    have IH: "build_shared_node capacity (Suc b) g = Some (canon capacity g)" "node_min_key (canon capacity g) = fst (hd g)"
      if "(e, g) \<in> set ?cs" for e g
    proof -
      note g = branch_group [OF b(2) 1(2) that]
      have c: "build_shared_node capacity 0 g = Some (canon capacity g)" "node_min_key (canon capacity g) = fst (hd g)"
        using 1(1) g(1-3) by simp_all
      then show "node_min_key (canon capacity g) = fst (hd g)" by blast
      show "build_shared_node capacity (Suc b) g = Some (canon capacity g)"
        using build_depth [OF g(1,4) bb assms(2)] c(1) by simp
    qed
    have "map_all (\<lambda>(edge, group). map_option (Pair edge) (build_shared_node capacity (b + 1) group)) ?cs =
        Some (map (\<lambda>(e, g). (e, canon capacity g)) ?cs)"
      by (rule map_all_Some) (use IH(1) in auto)
    then have "build_shared_node capacity 0 es =
        Some (Branch b (map (\<lambda>(e, g). (e, canon capacity g)) ?cs) (length es) (fst (hd es)))"
      using False b(1) branch_chunks [OF cs len(2) IH(2)] by (subst build_shared_node.simps) simp
    then show ?thesis using b by (simp add: canon_def)
  qed
qed

lemmas build_canon = canon_total [THEN conjunct1]

lemma canon_leaf: "length es \<le> capacity \<Longrightarrow> canon capacity es = Leaf es"
  by (simp add: canon_def build_shared_node.simps)

lemma canon_branch:
  assumes "map_ok es" "0 < capacity" "capacity < length es"
  obtains b where "branches_at es b"
    "canon capacity es = Branch b (map (\<lambda>(e, g). (e, canon capacity g)) (chunks (byte_at b) es)) (length es) (fst (hd es))"
  using canon_total [OF assms(1,2)] assms(3) by blast

text \<open>Whatever byte the entries branch at and whatever chunks they have, the canonical node is the
branch over those chunks.\<close>

lemma canon_of_chunks:
  assumes "map_ok es" "0 < capacity" "capacity < length es" "branches_at es b" "chunking (byte_at b) es cs"
  shows "canon capacity es = Branch b (map (\<lambda>(e, g). (e, canon capacity g)) cs) (length es) (fst (hd es))"
    and "branch b (map (\<lambda>(e, g). (e, canon capacity g)) cs) (length es) = Some (canon capacity es)"
proof -
  have ne: "es \<noteq> []" using assms(3) by auto
  have cs: "cs = chunks (byte_at b) es" using chunking_unique [OF assms(5)] .
  obtain c where c: "first_differing_byte (fst (hd es)) (fst (last es)) 0 = Some c"
    "canon capacity es = Branch c (map (\<lambda>(e, g). (e, canon capacity g)) (chunks (byte_at c) es)) (length es) (fst (hd es))"
    using canon_total [OF assms(1,2)] assms(3) by blast
  have "first_differing_byte (fst (hd es)) (fst (last es)) 0 = Some b"
    by (rule branches_at_unique [OF assms(4)]) (use ne in auto)
  then show eq: "canon capacity es = Branch b (map (\<lambda>(e, g). (e, canon capacity g)) cs) (length es) (fst (hd es))"
    using c cs by simp
  show "branch b (map (\<lambda>(e, g). (e, canon capacity g)) cs) (length es) = Some (canon capacity es)"
    unfolding eq
  proof (rule branch_chunks [OF assms(5) ne])
    fix e g assume "(e, g) \<in> set cs"
    then show "node_min_key (canon capacity g) = fst (hd g)"
      using branch_group(1,2) [OF assms(4,1)] canon_total [OF _ assms(2)] cs by blast
  qed
qed

lemma canon_induct [consumes 2, case_names leaf branch]:
  assumes "map_ok es" "0 < capacity"
    and "\<And>es. map_ok es \<Longrightarrow> length es \<le> capacity \<Longrightarrow> P es"
    and "\<And>es b. map_ok es \<Longrightarrow> capacity < length es \<Longrightarrow> branches_at es b \<Longrightarrow>
      chunking (byte_at b) es (chunks (byte_at b) es) \<Longrightarrow>
      canon capacity es = Branch b (map (\<lambda>(e, g). (e, canon capacity g)) (chunks (byte_at b) es)) (length es) (fst (hd es)) \<Longrightarrow>
      (\<And>e g. (e, g) \<in> set (chunks (byte_at b) es) \<Longrightarrow> map_ok g \<and> g \<noteq> [] \<and> shares_prefix (Suc b) g \<and> P g) \<Longrightarrow> P es"
  shows "P es"
  using assms(1)
proof (induction es rule: length_induct)
  case (1 es)
  show ?case
  proof (cases "length es \<le> capacity")
    case True
    then show ?thesis using assms(3) 1(2) by blast
  next
    case False
    obtain b where b: "branches_at es b"
      "canon capacity es = Branch b (map (\<lambda>(e, g). (e, canon capacity g)) (chunks (byte_at b) es)) (length es) (fst (hd es))"
      by (rule canon_branch [OF 1(2) assms(2)]) (use False in auto)
    have "map_ok g \<and> g \<noteq> [] \<and> shares_prefix (Suc b) g \<and> P g" if "(e, g) \<in> set (chunks (byte_at b) es)" for e g
      using branch_group [OF b(1) 1(2) that] 1(1) by blast
    then show ?thesis using assms(4) [OF 1(2) _ b(1) _ b(2)] False b(1) by (simp add: branches_at_def)
  qed
qed

lemma entries_canon: "map_ok es \<Longrightarrow> 0 < capacity \<Longrightarrow> entries_of (canon capacity es) = es"
proof (induction es rule: canon_induct)
  case (branch es b)
  let ?cs = "chunks (byte_at b) es"
  have eq: "map (\<lambda>(e, child). entries_of child) (map (\<lambda>(e, g). (e, canon capacity g)) ?cs) = map snd ?cs"
    using branch(6) by (auto simp: comp_def)
  show ?case unfolding branch(5) entries_of.simps eq using branch(4) unfolding chunking_def by blast
qed (simp add: canon_leaf)

lemma node_len_canon: "map_ok es \<Longrightarrow> 0 < capacity \<Longrightarrow> node_len (canon capacity es) = length es"
  by (cases "length es \<le> capacity") (auto simp: canon_leaf elim!: canon_branch [of es capacity])

section \<open>Lookup\<close>

lemma map_get_map: "map_get (map (\<lambda>(k, v). (k, h v)) m) k = map_option h (map_get m k)"
  by (induction m) (auto simp: map_get_def)

lemma map_get_chunks:
  assumes "chunking (byte_at b) es cs" "map_ok es"
  shows "map_get es key = Option.bind (map_get cs (key_byte key b)) (\<lambda>g. map_get g key)"
proof (cases "map_get cs (key_byte key b)")
  case None
  then have "\<not> (\<exists>v. (key, v) \<in> set es)" using chunking_get_None [OF assms(1) None] by (metis fst_conv)
  then show ?thesis using None by (cases "map_get es key") (auto simp: map_get_Some_entry [OF assms(2)])
next
  case (Some g)
  then have g: "(key_byte key b, g) \<in> set cs" using map_get_Some_entry [OF chunking_ok [OF assms(1)]] by blast
  have "map_get g key = Some v \<longleftrightarrow> map_get es key = Some v" for v
  proof -
    obtain ys zs where "cs = ys @ (key_byte key b, g) # zs" using g by (auto simp: in_set_conv_decomp)
    moreover have "es = concat (map snd cs)" using assms(1) by (simp add: chunking_def)
    ultimately have "es = concat (map snd ys) @ g @ concat (map snd zs)" by simp
    then have "map_ok g" using assms(2) by (simp add: map_ok_def map_keys_def sorted_wrt_append)
    moreover have "(key, v) \<in> set g \<longleftrightarrow> (key, v) \<in> set es"
      using chunking_get [OF assms(1), of "(key, v)"] Some chunking_group(2) [OF assms(1) g] by auto
    ultimately show ?thesis using assms(2) by (simp add: map_get_Some_entry)
  qed
  then have "map_get g key = map_get es key" by (metis option.exhaust)
  then show ?thesis using Some by simp
qed

lemma get_canon: "map_ok es \<Longrightarrow> 0 < capacity \<Longrightarrow> get_node (canon capacity es) key = map_get es key"
proof (induction es rule: canon_induct)
  case (branch es b)
  let ?cs = "chunks (byte_at b) es"
  have "get_node (canon capacity g) key = map_get g key" if "map_get ?cs (key_byte key b) = Some g" for g
  proof -
    have "(key_byte key b, g) \<in> set ?cs" using that map_get_Some_entry [OF chunking_ok [OF branch(4)]] by blast
    then show ?thesis using branch(6) by blast
  qed
  then show ?case
    unfolding branch(5) map_get_chunks [OF branch(4,1)]
    by (auto simp: map_get_map split: option.splits)
qed (simp add: canon_leaf)

section \<open>Insertion\<close>

lemma length_map_insert:
  "map_ok m \<Longrightarrow> length (map_insert k v m) = length m + (if map_get m k = None then 1 else 0)"
proof (induction m)
  case (Cons e m)
  obtain k' v' where e: "e = (k', v')" by fastforce
  have ok: "map_ok m" "\<forall>k''\<in>fst ` set m. k' < k''" using Cons.prems by (auto simp: map_ok_def map_keys_def e)
  then have "map_of m k = None" if "k < k'" using that by (force simp: map_of_eq_None_iff)
  then show ?case using Cons.IH [OF ok(1)] by (auto simp: e map_get_def)
qed (simp add: map_get_def)

lemma map_insert_front: "\<forall>k'\<in>fst ` set m. k < k' \<Longrightarrow> map_insert k v m = (k, v) # m"
  by (cases m) auto

lemma map_insert_back: "\<forall>k'\<in>fst ` set m. k' < k \<Longrightarrow> map_insert k v m = m @ [(k, v)]"
  by (induction m) auto

lemma map_insert_map: "map (\<lambda>(k, v). (k, h v)) (map_insert k v m) = map_insert k (h v) (map (\<lambda>(k, v). (k, h v)) m)"
  by (induction m) auto

lemma map_insert_append:
  "(\<forall>k'\<in>fst ` set xs. k' < k) \<Longrightarrow> map_insert k v (xs @ ys) = xs @ map_insert k v ys"
  by (induction xs) auto

lemma map_insert_append_left:
  "(\<forall>k'\<in>fst ` set ys. k < k') \<Longrightarrow> map_insert k v (xs @ ys) = map_insert k v xs @ ys"
  by (induction xs) (auto simp: map_insert_front)

text \<open>Inserting an entry changes the chunk of its byte only.\<close>

definition chunk_of :: "(nat \<times> 'a list) list \<Rightarrow> nat \<Rightarrow> 'a list" where
  "chunk_of cs e = (case map_get cs e of None \<Rightarrow> [] | Some g \<Rightarrow> g)"

lemma insert_concat:
  assumes "sorted_wrt (<) (map fst cs)"
    "\<And>e g k'. (e, g) \<in> set cs \<Longrightarrow> k' \<in> fst ` set g \<Longrightarrow> (e < edge \<longrightarrow> k' < key) \<and> (edge < e \<longrightarrow> key < k')"
  shows "concat (map snd (map_insert edge (map_insert key v (chunk_of cs edge)) cs)) =
    map_insert key v (concat (map snd cs))"
  using assms
proof (induction cs)
  case (Cons c cs)
  obtain e g where c: "c = (e, g)" by fastforce
  have rest: "k' \<in> fst ` set (concat (map snd cs)) \<Longrightarrow> \<exists>e' g'. (e', g') \<in> set cs \<and> k' \<in> fst ` set g' \<and> e < e'" for k'
    using Cons.prems(1) c by force
  consider (lt) "edge < e" | (eq) "edge = e" | (gt) "e < edge" by fastforce
  then show ?case
  proof cases
    case lt
    then have none: "map_get ((e, g) # cs) edge = None"
      using Cons.prems(1) c by (fastforce simp: map_get_def map_of_eq_None_iff)
    have "\<forall>k'\<in>fst ` set (g @ concat (map snd cs)). key < k'"
    proof
      fix k' assume "k' \<in> fst ` set (g @ concat (map snd cs))"
      then consider "k' \<in> fst ` set g" | "k' \<in> fst ` set (concat (map snd cs))" by auto
      then show "key < k'"
      proof cases
        case 1
        then show ?thesis using Cons.prems(2) [of e g k'] lt c by auto
      next
        case 2
        then obtain e' g' where "(e', g') \<in> set cs" "k' \<in> fst ` set g'" "e < e'" using rest by blast
        then show ?thesis using Cons.prems(2) [of e' g' k'] lt by auto
      qed
    qed
    then have "map_insert key v (g @ concat (map snd cs)) = (key, v) # g @ concat (map snd cs)"
      by (rule map_insert_front)
    then show ?thesis using lt none c by (simp add: chunk_of_def)
  next
    case eq
    have "\<forall>k'\<in>fst ` set (concat (map snd cs)). key < k'"
      using rest Cons.prems(2) eq by (metis list.set_intros(2))
    then show ?thesis using eq c by (simp add: chunk_of_def map_get_def map_insert_append_left)
  next
    case gt
    have "\<forall>k'\<in>fst ` set g. k' < key" using Cons.prems(2) [of e g] gt c by auto
    moreover have "chunk_of ((e, g) # cs) edge = chunk_of cs edge" using gt by (simp add: chunk_of_def map_get_def)
    moreover have "concat (map snd (map_insert edge (map_insert key v (chunk_of cs edge)) cs)) =
        map_insert key v (concat (map snd cs))"
      by (rule Cons.IH) (use Cons.prems in \<open>auto\<close>)
    ultimately show ?thesis using gt c by (simp add: map_insert_append)
  qed
qed (simp add: chunk_of_def map_get_def)

lemma map_insert_set: "map_ok m \<Longrightarrow> set (map_insert k v m) = insert (k, v) {e \<in> set m. fst e \<noteq> k}"
proof (induction m)
  case (Cons e m)
  then show ?case by (cases e) (auto simp: map_ok_def map_keys_def)
qed simp

lemma map_insert_keys_image: "fst ` set (map_insert k v m) = insert k (fst ` set m)"
  using map_insert_keys [of k v m] by simp

text \<open>A new key that shares the prefix of a branch goes into the chunk of its byte.\<close>

lemma chunking_insert:
  assumes es: "map_ok es" "branches_at es b" and key: "\<forall>k\<in>fst ` set es. prefix b k = prefix b key"
  defines "cs \<equiv> chunks (byte_at b) es" and "edge \<equiv> key_byte key b"
  shows "chunking (byte_at b) (map_insert key v es) (map_insert edge (map_insert key v (chunk_of cs edge)) cs)"
proof -
  have cs: "chunking (byte_at b) es cs" and b: "b < KEY_BYTES" using es(2) by (simp_all add: branches_at_def cs_def)
  have ok: "map_ok cs" using cs by (rule chunking_ok)
  have group: "map_ok (chunk_of cs edge)" "\<forall>x\<in>set (chunk_of cs edge). byte_at b x = edge"
  proof -
    show "map_ok (chunk_of cs edge)"
    proof (cases "map_get cs edge")
      case (Some g)
      then have "(edge, g) \<in> set cs" using map_get_Some_entry [OF ok] by blast
      then show ?thesis using branch_group(1) [OF es(2,1)] Some by (simp add: chunk_of_def cs_def)
    qed (simp add: chunk_of_def btree.ok_empty)
    show "\<forall>x\<in>set (chunk_of cs edge). byte_at b x = edge"
    proof (cases "map_get cs edge")
      case (Some g)
      then have "(edge, g) \<in> set cs" using map_get_Some_entry [OF ok] by blast
      then show ?thesis using chunking_group(3) [OF cs] Some by (simp add: chunk_of_def)
    qed (simp add: chunk_of_def)
  qed
  have order: "(e < edge \<longrightarrow> k' < key) \<and> (edge < e \<longrightarrow> key < k')" if g: "(e, g) \<in> set cs" and k': "k' \<in> fst ` set g" for e g k'
  proof -
    have "key_byte k' b = e" using chunking_group(3) [OF cs g] k' by auto
    moreover have "prefix b k' = prefix b key" using chunking_group(2) [OF cs g] k' key by blast
    ultimately show ?thesis using key_byte_less_imp [of b] b by (simp add: edge_def)
  qed
  have es_eq: "es = concat (map snd cs)" using cs by (simp add: chunking_def)
  have sorted: "sorted_wrt (<) (map fst cs)" using cs by (simp add: chunking_def)
  have "concat (map snd (map_insert edge (map_insert key v (chunk_of cs edge)) cs)) = map_insert key v es"
    using insert_concat [OF sorted order] es_eq by simp
  moreover have "sorted_wrt (<) (map fst (map_insert edge (map_insert key v (chunk_of cs edge)) cs))"
    using sorted by (rule sorted_map_insert)
  moreover have "snd c \<noteq> [] \<and> (\<forall>x\<in>set (snd c). byte_at b x = fst c)"
    if c: "c \<in> set (map_insert edge (map_insert key v (chunk_of cs edge)) cs)" for c
  proof (cases "c = (edge, map_insert key v (chunk_of cs edge))")
    case True
    have "set (snd c) = insert (key, v) {e \<in> set (chunk_of cs edge). fst e \<noteq> key}"
      using True map_insert_set [OF group(1)] by simp
    then show ?thesis using True group(2) by (auto simp: edge_def)
  next
    case False
    then have "c \<in> set cs" using c map_insert_set [OF ok] by auto
    then show ?thesis using chunking_chunk [OF cs] by blast
  qed
  ultimately show ?thesis unfolding chunking_def by blast
qed

lemma map_ok_insert: "map_ok m \<Longrightarrow> map_ok (map_insert k v m)"
  by (rule btree.ok_insert)

text \<open>Its entries still branch at the same byte.\<close>

lemma branches_at_insert:
  assumes es: "map_ok es" "branches_at es b" "es \<noteq> []" and key: "\<forall>k\<in>fst ` set es. prefix b k = prefix b key"
  shows "branches_at (map_insert key v es) b"
proof -
  let ?es = "map_insert key v es"
  have ok: "map_ok ?es" using es(1) by (rule map_ok_insert)
  have keys: "fst ` set ?es = insert key (fst ` set es)" by (rule map_insert_keys_image)
  then have ne: "?es \<noteq> []" by auto
  have pre: "prefix b k = prefix b key" if "k \<in> fst ` set ?es" for k using that key keys by auto
  have b: "b < KEY_BYTES" and less: "key_byte (fst (hd es)) b < key_byte (fst (last es)) b"
    using es(2) by (simp_all add: branches_at_def)
  have "fst (hd es) \<in> fst ` set es" "fst (last es) \<in> fst ` set es"
    using hd_in_set [OF es(3)] last_in_set [OF es(3)] by simp_all
  then have ends: "fst (hd es) \<in> fst ` set ?es" "fst (last es) \<in> fst ` set ?es" unfolding keys by blast+
  have ends': "fst (hd ?es) \<in> fst ` set ?es" "fst (last ?es) \<in> fst ` set ?es"
    using hd_in_set [OF ne] last_in_set [OF ne] by simp_all
  have "fst (hd ?es) \<le> fst (hd es)" "fst (last es) \<le> fst (last ?es)"
    using map_ok_ends [OF ok] ends(1,2) by auto
  then have "key_byte (fst (hd ?es)) b \<le> key_byte (fst (hd es)) b" "key_byte (fst (last es)) b \<le> key_byte (fst (last ?es)) b"
    using key_byte_mono [OF _ b] pre ends ends' by metis+
  then show ?thesis
    using branches_atI [OF ok ne b] pre [OF ends'(1)] pre [OF ends'(2)] less by simp
qed

text \<open>A new key that leaves the prefix above the branch goes before or after all its entries.\<close>

lemma split_outside:
  assumes es: "es \<noteq> []" and pre: "\<forall>k\<in>fst ` set es. prefix (Suc s) k = prefix (Suc s) mn"
    and s: "s < KEY_BYTES" "prefix s key = prefix s mn" "key_byte key s \<noteq> key_byte mn s"
  shows "map_insert key v es = (if key_byte key s < key_byte mn s then (key, v) # es else es @ [(key, v)])"
proof -
  have k: "prefix s k = prefix s key \<and> key_byte k s = key_byte mn s" if "k \<in> fst ` set es" for k
    using bspec [OF pre that] prefix_Suc_eq [OF s(1), of k mn] s(2) by simp
  show ?thesis
  proof (cases "key_byte key s < key_byte mn s")
    case True
    have "key < k" if "k \<in> fst ` set es" for k
      using key_byte_less_imp [of s key k] k [OF that] s(1) True by simp
    then show ?thesis using True map_insert_front [of es key v] by simp
  next
    case False
    have "k < key" if "k \<in> fst ` set es" for k
      using key_byte_less_imp [of s k key] k [OF that] s(1,3) False by simp
    then show ?thesis using False map_insert_back [of es key v] by simp
  qed
qed

text \<open>A new key leaves the prefix of a branch at a byte above it, or shares the prefix.\<close>

lemma split_above_cases:
  assumes "prefix d key = prefix d mn" "b < KEY_BYTES" "d \<le> KEY_BYTES"
  shows "split_above b key mn d = Some s \<Longrightarrow>
      d \<le> s \<and> s < b \<and> prefix s key = prefix s mn \<and> key_byte key s \<noteq> key_byte mn s"
    and "split_above b key mn d = None \<Longrightarrow> d \<le> b \<Longrightarrow> prefix b mn = prefix b key"
proof -
  show "d \<le> s \<and> s < b \<and> prefix s key = prefix s mn \<and> key_byte key s \<noteq> key_byte mn s"
    if "split_above b key mn d = Some s"
  proof -
    have "first_differing_byte key mn d = Some s" "s < b"
      using that by (auto simp: split_above_def split: option.splits if_splits)
    then show ?thesis using first_differing_Some [OF _ assms(1)] by blast
  qed
  assume none: "split_above b key mn d = None" and d: "d \<le> b"
  show "prefix b mn = prefix b key"
  proof (cases "first_differing_byte key mn d")
    case None
    then show ?thesis using first_differing_None [OF None assms(1,3)] by simp
  next
    case (Some s)
    have s: "b \<le> s" using none Some by (auto simp: split_above_def split: if_splits)
    note s = s first_differing_Some(2,3) [OF Some assms(1)]
    show ?thesis using prefix_less [OF s(1) _ s(3)] s(2) by simp
  qed
qed

lemma branches_at_depth:
  assumes "branches_at es b" "shares_prefix d es" "es \<noteq> []" "d \<le> KEY_BYTES"
  shows "d \<le> b"
proof (rule ccontr)
  assume "\<not> d \<le> b"
  then have "Suc b \<le> d" by simp
  then have "prefix (Suc b) (fst (hd es)) = prefix (Suc b) (fst (last es))"
    using prefix_less assms(4) shares_prefix_ends [OF assms(2,3)] by blast
  then show False using assms(1) prefix_Suc_eq [of b] by (simp add: branches_at_def)
qed

lemma shares_prefixD: "shares_prefix d es \<Longrightarrow> k \<in> fst ` set es \<Longrightarrow> k' \<in> fst ` set es \<Longrightarrow> prefix d k = prefix d k'"
  unfolding shares_prefix_def by blast

lemma shares_prefix_insert:
  assumes "\<forall>k\<in>fst ` set es. prefix d k = prefix d key"
  shows "shares_prefix d (map_insert key v es)" "shares_prefix d es"
proof -
  have "prefix d k = prefix d key" if "k \<in> insert key (fst ` set es)" for k
    using that assms by blast
  then show "shares_prefix d (map_insert key v es)" "shares_prefix d es"
    unfolding shares_prefix_def map_insert_keys_image by (metis insertCI)+
qed

lemma hd_key_mem: "es \<noteq> [] \<Longrightarrow> fst (hd es) \<in> fst ` set es"
  by simp

text \<open>The split: the old branch and the new leaf become the two chunks of a branch above.\<close>

lemma split_canon:
  assumes es: "map_ok es" "0 < capacity" "capacity < length es" "branches_at es b"
    and s: "s < b" "prefix s key = prefix s (fst (hd es))" "key_byte key s \<noteq> key_byte (fst (hd es)) s"
  shows "branch s (sort_key fst [(key_byte (fst (hd es)) s, canon capacity es), (key_byte key s, Leaf [(key, v)])])
      (length es + 1) = Some (canon capacity (map_insert key v es))"
    and "map_get es key = None"
proof -
  let ?mn = "fst (hd es)" and ?es = "map_insert key v es"
  have ne: "es \<noteq> []" using es(3) by auto
  have b: "b < KEY_BYTES" "shares_prefix b es" using es(4) by (simp_all add: branches_at_def)
  have pre: "prefix (Suc s) k = prefix (Suc s) ?mn" if "k \<in> fst ` set es" for k
    using shares_prefixD [OF b(2) that hd_key_mem [OF ne]] prefix_less [of "Suc s" b k "fst (hd es)"] s(1) b(1) by simp
  have sk: "s < KEY_BYTES" using s(1) b(1) by simp
  have byte: "key_byte k s = key_byte ?mn s" if "k \<in> fst ` set es" for k
    using pre [OF that] prefix_Suc_eq [OF sk] by blast
  have out: "?es = (if key_byte key s < key_byte ?mn s then (key, v) # es else es @ [(key, v)])"
    using split_outside [OF ne _ sk s(2,3)] pre by blast
  let ?cs = "if key_byte key s < key_byte ?mn s then [(key_byte key s, [(key, v)]), (key_byte ?mn s, es)]
    else [(key_byte ?mn s, es), (key_byte key s, [(key, v)])]"
  have cs: "chunking (byte_at s) ?es ?cs"
  proof -
    obtain m where m: "m = key_byte ?mn s" by simp
    have "\<forall>x\<in>set es. byte_at s x = m" using byte m by blast
    then show ?thesis unfolding chunking_def out m [symmetric] using s(3) [folded m] ne by (auto simp: not_less)
  qed
  have last_mem: "fst (last es) \<in> fst ` set es" using ne by simp
  have pres: "prefix s (fst (last es)) = prefix s ?mn"
    using pre [OF last_mem] prefix_Suc_eq [OF sk] by blast
  have ok: "map_ok ?es" by (rule map_ok_insert [OF es(1)])
  have at: "branches_at ?es s"
    by (rule branches_atI [OF ok _ sk]) (use out ne s(2,3) pres byte [OF last_mem] in \<open>auto split: if_splits\<close>)
  have len: "length ?es = length es + 1" using out by simp
  have "map (\<lambda>(e, g). (e, canon capacity g)) ?cs =
      sort_key fst [(key_byte ?mn s, canon capacity es), (key_byte key s, Leaf [(key, v)])]"
    using s(3) es(2) by (auto simp: canon_leaf)
  then show "branch s (sort_key fst [(key_byte ?mn s, canon capacity es), (key_byte key s, Leaf [(key, v)])])
      (length es + 1) = Some (canon capacity ?es)"
    using canon_of_chunks(2) [OF ok es(2) _ at cs] len es(3) by simp
  have "key \<notin> fst ` set es" using byte s(3) by blast
  then show "map_get es key = None" using map_get_None [of es key] by (simp add: map_keys_def)
qed

text \<open>Insertion keeps the node canonical: it is the node a bulk build of the new entries gives.\<close>

theorem insert_canon:
  assumes "map_ok es" "0 < capacity" "\<forall>k\<in>fst ` set es. prefix d k = prefix d key" "d \<le> KEY_BYTES"
  shows "insert_node capacity (canon capacity es) key v d = Some (canon capacity (map_insert key v es), map_get es key)"
  using assms
proof (induction es arbitrary: d rule: canon_induct)
  case (leaf es)
  let ?es = "map_insert key v es"
  have "build_shared_node capacity d ?es = Some (canon capacity ?es)"
    using build_depth [OF map_ok_insert [OF leaf(1)] shares_prefix_insert(1) [OF leaf(3)] leaf(4) assms(2)]
      build_canon [OF map_ok_insert [OF leaf(1)] assms(2)] by metis
  then show ?case using leaf(2) by (simp add: canon_leaf Let_def)
next
  case (branch es b)
  let ?cs = "chunks (byte_at b) es" and ?mn = "fst (hd es)" and ?es = "map_insert key v es" and ?edge = "key_byte key b"
  have ne: "es \<noteq> []" using branch(2) by auto
  have b: "b < KEY_BYTES" "shares_prefix b es" using branch(3) by (simp_all add: branches_at_def)
  have mn: "prefix d key = prefix d ?mn" using bspec [OF branch(7) hd_key_mem [OF ne]] by simp
  have db: "d \<le> b" using branches_at_depth [OF branch(3) shares_prefix_insert(2) [OF branch(7)] ne branch(8)] .
  note node = branch(5)
  show ?case
  proof (cases "split_above b key ?mn d")
    case (Some s)
    have s: "s < b" "prefix s key = prefix s ?mn" "key_byte key s \<noteq> key_byte ?mn s"
      using split_above_cases(1) [OF mn b(1) branch(8) Some] by blast+
    note split = split_canon(1) [OF branch(1) assms(2) branch(2,3) s, of v] split_canon(2) [OF branch(1) assms(2) branch(2,3) s]
    show ?thesis using Some split unfolding node by simp
  next
    case None
    have pre: "\<forall>k\<in>fst ` set es. prefix b k = prefix b key"
      using split_above_cases(2) [OF mn b(1) branch(8) None db] shares_prefixD [OF b(2) _ hd_key_mem [OF ne]] by metis
    have at: "branches_at ?es b" using branches_at_insert [OF branch(1,3) ne pre] .
    have cs: "chunking (byte_at b) ?es (map_insert ?edge (map_insert key v (chunk_of ?cs ?edge)) ?cs)"
      using chunking_insert [OF branch(1,3) pre] .
    have len: "length ?es = length es + (if map_get es key = None then 1 else 0)"
      using length_map_insert [OF branch(1)] .
    then have big: "capacity < length ?es" using branch(2) by simp
    have new: "branch b (map_insert ?edge (canon capacity (map_insert key v (chunk_of ?cs ?edge)))
        (map (\<lambda>(e, g). (e, canon capacity g)) ?cs)) (length ?es) = Some (canon capacity ?es)"
      using canon_of_chunks(2) [OF map_ok_insert [OF branch(1)] assms(2) big at cs] by (simp add: map_insert_map)
    have get: "map_get es key = Option.bind (map_get ?cs ?edge) (\<lambda>g. map_get g key)"
      using map_get_chunks [OF branch(4,1)] .
    show ?thesis
    proof (cases "map_get ?cs ?edge")
      case None': None
      then have "map_get es key = None" using get by simp
      then show ?thesis
        using new len None None' assms(2) unfolding node by (simp add: map_get_map chunk_of_def canon_leaf)
    next
      case (Some g)
      then have mem: "(?edge, g) \<in> set ?cs" using map_get_Some_entry [OF chunking_ok [OF branch(4)]] by blast
      have gpre: "\<forall>k\<in>fst ` set g. prefix (Suc b) k = prefix (Suc b) key"
      proof
        fix k assume k: "k \<in> fst ` set g"
        have "k \<in> fst ` set es" using k branch_group(6) [OF branch(3,1) mem] by blast
        then show "prefix (Suc b) k = prefix (Suc b) key"
          using pre branch_group(5) [OF branch(3,1) mem] k prefix_Suc_eq [OF b(1)] by blast
      qed
      have "insert_node capacity (canon capacity g) key v (b + 1) = Some (canon capacity (map_insert key v g), map_get g key)"
        using branch(6) [OF mem] gpre b(1) by simp
      then show ?thesis
        using new len None Some get unfolding node by (simp add: map_get_map chunk_of_def)
    qed
  qed
qed

section \<open>Removal\<close>

lemma map_insert_at:
  assumes "map_ok (ys @ (e, g) # zs)"
  shows "map_insert e x (ys @ (e, g) # zs) = ys @ (e, x) # zs"
    and "map_remove e (ys @ (e, g) # zs) = ys @ zs"
proof -
  have d: "\<forall>k\<in>fst ` set ys. k < e" "\<forall>k\<in>fst ` set zs. e < k"
    using assms by (auto simp: map_ok_def map_keys_def sorted_wrt_append)
  show "map_insert e x (ys @ (e, g) # zs) = ys @ (e, x) # zs"
    using map_insert_append [OF d(1)] by simp
  have "filter (\<lambda>(k', _). k' \<noteq> e) ys = ys" "filter (\<lambda>(k', _). k' \<noteq> e) zs = zs"
    using d by (auto simp: filter_id_conv)
  then show "map_remove e (ys @ (e, g) # zs) = ys @ zs" by (simp add: map_remove_def)
qed

text \<open>The children of a branch after the removal of a key of one chunk.\<close>

definition shrink :: "nat \<Rightarrow> 'a list \<Rightarrow> (nat \<times> 'a list) list \<Rightarrow> (nat \<times> 'a list) list" where
  "shrink edge g cs = (if g = [] then map_remove edge cs else map_insert edge g cs)"

lemma chunking_remove:
  assumes cs: "chunking (byte_at b) es cs" and g: "map_get cs (key_byte key b) = Some g"
  shows "chunking (byte_at b) (map_remove key es) (shrink (key_byte key b) (map_remove key g) cs)"
proof -
  let ?edge = "key_byte key b" and ?g = "map_remove key g"
  have ok: "map_ok cs" using cs by (rule chunking_ok)
  have mem: "(?edge, g) \<in> set cs" using g map_get_Some_entry [OF ok] by blast
  then obtain ys zs where eq: "cs = ys @ (?edge, g) # zs" by (auto simp: in_set_conv_decomp)
  have edges: "fst c \<noteq> ?edge" if "c \<in> set ys \<union> set zs" for c
    using that ok by (auto simp: eq map_ok_def map_keys_def sorted_wrt_append)
  have keep: "map_remove key (concat (map snd xs)) = concat (map snd xs)" if "set xs \<subseteq> set ys \<union> set zs" for xs
  proof -
    have "fst x \<noteq> key" if x: "x \<in> set (snd c)" "c \<in> set xs" for x c
      using chunking_chunk [OF cs, of c] edges [of c] x \<open>set xs \<subseteq> set ys \<union> set zs\<close> by (auto simp: eq)
    then show ?thesis unfolding map_remove_def filter_id_conv by fastforce
  qed
  have es: "es = concat (map snd ys) @ g @ concat (map snd zs)" using cs by (simp add: chunking_def eq)
  have rem: "map_remove key es = concat (map snd ys) @ ?g @ concat (map snd zs)"
    using keep [of ys] keep [of zs] by (simp add: es map_remove_def)
  have cs': "shrink ?edge ?g cs = (if ?g = [] then ys @ zs else ys @ (?edge, ?g) # zs)"
    using map_insert_at [OF ok [unfolded eq]] by (simp add: shrink_def eq)
  have "set ?g \<subseteq> set g" by (auto simp: map_remove_def)
  moreover have "chunking (byte_at b) es (ys @ (?edge, g) # zs)" using cs eq by simp
  ultimately show ?thesis
    unfolding chunking_def cs' rem by (auto simp: sorted_wrt_append)
qed

lemma chunking_ends:
  assumes "chunking f xs cs" "2 \<le> length cs"
  shows "f (hd xs) \<noteq> f (last xs)"
proof -
  obtain c d ds where cs: "cs = c # d # ds" using assms(2) by (cases cs; cases "tl cs") auto
  let ?l = "last (d # ds)"
  have l: "?l \<in> set (d # ds)" by (rule last_in_set) simp
  have mem: "c \<in> set cs" "?l \<in> set cs" using l by (simp_all add: cs)
  note c = chunking_chunk [OF assms(1) mem(1)] and l' = chunking_chunk [OF assms(1) mem(2)]
  have "fst c < fst ?l" using assms(1) l by (auto simp: chunking_def cs)
  moreover have "hd xs = hd (snd c)" using assms(1) c by (auto simp: chunking_def cs)
  moreover have "last xs = last (snd ?l)"
  proof -
    have split: "cs = (c # butlast (d # ds)) @ [?l]" by (simp add: cs)
    have "xs = concat (map snd cs)" using assms(1) by (simp add: chunking_def)
    then have "xs = concat (map snd (c # butlast (d # ds))) @ snd ?l" unfolding split by simp
    then show ?thesis using l' by simp
  qed
  moreover have "f (hd (snd c)) = fst c" "f (last (snd ?l)) = fst ?l"
    using c l' hd_in_set [of "snd c"] last_in_set [of "snd ?l"] by blast+
  ultimately show ?thesis by simp
qed

lemma length_map_remove: "map_ok m \<Longrightarrow> length (map_remove k m) = length m - (if map_get m k = None then 0 else 1)"
proof (induction m)
  case (Cons e m)
  have ok: "map_ok m" using Cons.prems by (simp add: map_ok_def map_keys_def)
  show ?case
  proof (cases "fst e = k")
    case True
    then have "map_get m k = None" using Cons.prems by (auto simp: map_get_None map_ok_def map_keys_def)
    then show ?thesis using Cons.IH [OF ok] True by (cases e) (simp add: map_remove_def map_get_def)
  next
    case False
    have "0 < length m" if "map_get m k \<noteq> None" using that by (cases m) (auto simp: map_get_def)
    then show ?thesis using Cons.IH [OF ok] False by (cases e) (auto simp: map_remove_def map_get_def)
  qed
qed (simp add: map_remove_def)

lemma branches_at_remove:
  assumes "map_ok es" "branches_at es b" "chunking (byte_at b) (map_remove key es) cs" "2 \<le> length cs"
  shows "branches_at (map_remove key es) b"
proof -
  let ?es = "map_remove key es"
  have ne: "?es \<noteq> []"
  proof
    assume "?es = []"
    then have "\<forall>c\<in>set cs. snd c = []" using assms(3) by (simp add: chunking_def)
    then have "cs = []" using chunking_chunk [OF assms(3)] by (meson list.set_sel(1))
    then show False using assms(4) by simp
  qed
  have b: "b < KEY_BYTES" "shares_prefix b es" using assms(2) by (simp_all add: branches_at_def)
  have sub: "fst ` set ?es \<subseteq> fst ` set es" by (auto simp: map_remove_def)
  have "fst (hd ?es) \<in> fst ` set ?es" "fst (last ?es) \<in> fst ` set ?es" using ne by simp_all
  then have "prefix b (fst (hd ?es)) = prefix b (fst (last ?es))"
    using shares_prefixD [OF b(2) subsetD [OF sub] subsetD [OF sub]] by blast
  then show ?thesis
    using branches_atI [OF btree.ok_remove [OF assms(1)] ne b(1) _ chunking_ends [OF assms(3,4)]] by blast
qed

lemma map_remove_map: "map_remove k (map (\<lambda>(k, v). (k, h v)) m) = map (\<lambda>(k, v). (k, h v)) (map_remove k m)"
  by (induction m) (auto simp: map_remove_def)

text \<open>What \<open>remove_node\<close> makes of the canonical node.\<close>

definition removed_node :: "nat \<Rightarrow> 'v leaf_entries \<Rightarrow> 'v radix_node option" where
  "removed_node capacity es = (if es = [] then None else Some (canon capacity es))"

lemma shrunk_children:
  "(case removed_node capacity g of Some c \<Rightarrow> map_insert e c (map (\<lambda>(e, g). (e, canon capacity g)) cs)
      | None \<Rightarrow> map_remove e (map (\<lambda>(e, g). (e, canon capacity g)) cs)) =
    map (\<lambda>(e, g). (e, canon capacity g)) (shrink e g cs)"
  by (simp add: removed_node_def shrink_def map_insert_map map_remove_map)

lemma chunk_map_ok:
  assumes "chunking (byte_at b) es cs" "map_ok es" "(e, g) \<in> set cs"
  shows "map_ok g"
proof -
  obtain ys zs where "cs = ys @ (e, g) # zs" using assms(3) by (auto simp: in_set_conv_decomp)
  then show ?thesis using assms(1,2) by (auto simp: chunking_def map_ok_def map_keys_def sorted_wrt_append)
qed

lemma collect_canon:
  assumes "chunking (byte_at b) es cs" "map_ok es" "0 < capacity"
  shows "collect_entries (map (\<lambda>(e, g). (e, canon capacity g)) cs) = es"
proof -
  have "map (\<lambda>(_, child). entries_of child) (map (\<lambda>(e, g). (e, canon capacity g)) cs) = map snd cs"
    using entries_canon [OF chunk_map_ok [OF assms(1,2)] assms(3)] by auto
  then show ?thesis using assms(1) unfolding collect_entries_def chunking_def by metis
qed

text \<open>Removal keeps the node canonical as well.\<close>

theorem remove_canon:
  assumes "map_ok es" "0 < capacity"
  shows "remove_node capacity (canon capacity es) key =
    Some (if map_get es key = None then Some (canon capacity es) else removed_node capacity (map_remove key es),
      map_get es key)"
  using assms
proof (induction es rule: canon_induct)
  case (leaf es)
  have "length (map_remove key es) \<le> capacity" using leaf(2) by (simp add: map_remove_def order.trans [OF length_filter_le])
  then show ?case using leaf by (auto simp: canon_leaf removed_node_def Let_def split: option.splits)
next
  case (branch es b)
  let ?cs = "chunks (byte_at b) es" and ?es = "map_remove key es" and ?edge = "key_byte key b"
  let ?node = "\<lambda>cs. map (\<lambda>(e, g). (e, canon capacity g)) cs"
  have get: "map_get es key = Option.bind (map_get ?cs ?edge) (\<lambda>g. map_get g key)"
    using map_get_chunks [OF branch(4,1)] .
  show ?case
  proof (cases "map_get ?cs ?edge")
    case None
    then show ?thesis using get unfolding branch(5) by (simp add: map_get_map Let_def)
  next
    case (Some g)
    have mem: "(?edge, g) \<in> set ?cs" using Some map_get_Some_entry [OF chunking_ok [OF branch(4)]] by blast
    note IH = branch(6) [OF mem, THEN conjunct2, THEN conjunct2, THEN conjunct2]
    show ?thesis
    proof (cases "map_get g key")
      case None
      then show ?thesis using get Some IH unfolding branch(5) by (simp add: map_get_map Let_def)
    next
      case gv: (Some old)
      let ?cs' = "shrink ?edge (map_remove key g) ?cs"
      have cs': "chunking (byte_at b) ?es ?cs'" using chunking_remove [OF branch(4) Some] .
      have ok: "map_ok ?es" using branch(1) by (rule btree.ok_remove)
      have len: "length ?es = length es - 1" using length_map_remove [OF branch(1), of key] get Some gv by simp
      have ne: "?es \<noteq> []" using len branch(2) assms(2) by (cases ?es) auto
      have step: "remove_node capacity (canon capacity es) key =
          (if length ?es \<le> capacity then Some (Some (Leaf (collect_entries (?node ?cs'))), Some old)
           else if length ?cs' = 1 then Some (Some (snd (?node ?cs' ! 0)), Some old)
           else map_option (\<lambda>n. (Some n, Some old)) (branch b (?node ?cs') (length ?es)))"
        unfolding branch(5) using Some gv IH len by (simp add: map_get_map Let_def shrunk_children)
      have "remove_node capacity (canon capacity es) key = Some (Some (canon capacity ?es), Some old)"
      proof (cases "length ?es \<le> capacity")
        case True
        then show ?thesis unfolding step using collect_canon [OF cs' ok assms(2)] by (simp add: canon_leaf)
      next
        case big: False
        show ?thesis
        proof (cases "length ?cs' = 1")
          case True
          then obtain e g' where "?cs' = [(e, g')]" by (cases ?cs') auto
          then show ?thesis unfolding step using big cs' by (simp add: chunking_def)
        next
          case False
          have "?cs' \<noteq> []" using ne cs' by (auto simp: chunking_def)
          then have "2 \<le> length ?cs'" using False by (cases ?cs') (auto simp: Suc_le_eq)
          then have "branches_at ?es b" using branches_at_remove [OF branch(1,3) cs'] by blast
          then show ?thesis
            unfolding step using canon_of_chunks(2) [OF ok assms(2) _ _ cs'] big False by simp
        qed
      qed
      then show ?thesis using get Some gv ne by (simp add: removed_node_def)
    qed
  qed
qed

section \<open>The map\<close>

text \<open>The leaf capacity of a value type, from the size of its entries and of its values: never zero.\<close>

definition leaf_capacity :: "nat \<Rightarrow> nat \<Rightarrow> nat" where
  "leaf_capacity entry_bytes value_bytes =
    min 256 (max (32 * 1024 div max (entry_bytes + value_bytes) 1) 1)"

lemma leaf_capacity_positive: "0 < leaf_capacity entry_bytes value_bytes"
  by (simp add: leaf_capacity_def)

definition radix_entries :: "'v radix_map \<Rightarrow> 'v leaf_entries" where
  "radix_entries m = entries_of (radix_root m)"

text \<open>A well-formed map: its root is the canonical node of strictly increasing entries.\<close>

definition radix_ok :: "nat \<Rightarrow> 'v radix_map \<Rightarrow> bool" where
  "radix_ok capacity m =
    (map_ok (radix_entries m) \<and> radix_root m = canon capacity (radix_entries m) \<and>
     radix_len m = length (radix_entries m))"

lemma radix_okI:
  assumes "map_ok es" "0 < capacity" "m = \<lparr>radix_root = canon capacity es, radix_len = length es\<rparr>"
  shows "radix_ok capacity m" "radix_entries m = es"
  using assms entries_canon [OF assms(1,2)] by (simp_all add: radix_ok_def radix_entries_def)

lemma radix_default_ok: "0 < capacity \<Longrightarrow> radix_ok capacity radix_default" "radix_entries radix_default = []"
  by (simp_all add: radix_ok_def radix_entries_def radix_default_def canon_leaf map_ok_def map_keys_def)

lemma radix_get_entries: "radix_ok capacity m \<Longrightarrow> 0 < capacity \<Longrightarrow> radix_get m key = map_get (radix_entries m) key"
  using get_canon [of "radix_entries m" capacity key] by (simp add: radix_ok_def radix_get_def)

lemma from_sorted_iter_ok:
  assumes "0 < capacity" "map_ok es"
  shows "from_sorted_iter capacity es = Some \<lparr>radix_root = canon capacity es, radix_len = length es\<rparr>"
  using assms build_canon [OF assms(2,1)] by (simp add: from_sorted_iter_def map_ok_def map_keys_def)

lemma radix_insert_ok:
  assumes "radix_ok capacity m" "0 < capacity"
  shows "radix_insert capacity key v m =
    Some (\<lparr>radix_root = canon capacity (map_insert key v (radix_entries m)),
           radix_len = length (map_insert key v (radix_entries m))\<rparr>, radix_get m key)"
proof -
  have ok: "map_ok (radix_entries m)" "radix_len m = length (radix_entries m)"
    using assms(1) by (simp_all add: radix_ok_def)
  have root: "radix_root m = canon capacity (radix_entries m)" using assms(1) unfolding radix_ok_def by blast
  have "insert_node capacity (radix_root m) key v 0 =
      Some (canon capacity (map_insert key v (radix_entries m)), radix_get m key)"
    using insert_canon [OF ok(1) assms(2), of 0] radix_get_entries [OF assms] root by simp
  then show ?thesis
    using length_map_insert [OF ok(1)] ok(2) radix_get_entries [OF assms] by (simp add: radix_insert_def)
qed

lemma radix_remove_ok:
  assumes "radix_ok capacity m" "0 < capacity"
  shows "radix_remove capacity key m =
    Some (\<lparr>radix_root = canon capacity (map_remove key (radix_entries m)),
           radix_len = length (map_remove key (radix_entries m))\<rparr>, radix_get m key)"
proof -
  let ?es = "radix_entries m"
  have ok: "map_ok ?es" "radix_len m = length ?es" using assms(1) by (simp_all add: radix_ok_def)
  have root: "radix_root m = canon capacity ?es" using assms(1) unfolding radix_ok_def by blast
  note get = radix_get_entries [OF assms, of key]
  have same: "map_remove key ?es = ?es" if "map_get ?es key = None"
    using that unfolding map_remove_def filter_id_conv by (force simp: map_get_None map_keys_def)
  have empty: "canon capacity ([] :: 'a leaf_entries) = Leaf []" by (simp add: canon_leaf)
  show ?thesis
    using remove_canon [OF ok(1) assms(2), of key] length_map_remove [OF ok(1), of key] get same ok(2) empty
    by (cases "map_get ?es key") (simp_all add: radix_remove_def root removed_node_def)
qed

text \<open>The two mutations as total functions, for the interface of the ordered maps.\<close>

definition radix_put :: "nat \<Rightarrow> u128 \<Rightarrow> 'v \<Rightarrow> 'v radix_map \<Rightarrow> 'v radix_map" where
  "radix_put capacity key v m = fst (the (radix_insert capacity key v m))"

definition radix_del :: "nat \<Rightarrow> u128 \<Rightarrow> 'v radix_map \<Rightarrow> 'v radix_map" where
  "radix_del capacity key m = fst (the (radix_remove capacity key m))"

lemma radix_put_ok:
  assumes "radix_ok capacity m" "0 < capacity"
  shows "radix_ok capacity (radix_put capacity key v m)"
    and "radix_entries (radix_put capacity key v m) = map_insert key v (radix_entries m)"
proof -
  have "map_ok (map_insert key v (radix_entries m))" using assms by (simp add: radix_ok_def map_ok_insert)
  then show "radix_ok capacity (radix_put capacity key v m)"
    "radix_entries (radix_put capacity key v m) = map_insert key v (radix_entries m)"
    using radix_okI [OF _ assms(2) refl] radix_insert_ok [OF assms] by (simp_all add: radix_put_def)
qed

lemma radix_del_ok:
  assumes "radix_ok capacity m" "0 < capacity"
  shows "radix_ok capacity (radix_del capacity key m)"
    and "radix_entries (radix_del capacity key m) = map_remove key (radix_entries m)"
proof -
  have "map_ok (map_remove key (radix_entries m))" using assms by (simp add: radix_ok_def btree.ok_remove)
  then show "radix_ok capacity (radix_del capacity key m)"
    "radix_entries (radix_del capacity key m) = map_remove key (radix_entries m)"
    using radix_okI [OF _ assms(2) refl] radix_remove_ok [OF assms] by (simp_all add: radix_del_def)
qed

lemma ordered_map_radix:
  assumes "0 < capacity"
  shows "ordered_map (radix_put capacity) (radix_del capacity) radix_get
    (\<lambda>m. map_keys (radix_entries m)) radix_default (radix_ok capacity)"
proof
  fix m :: "'a radix_map" and k and v :: 'a
  show "radix_get radix_default k = (None :: 'a option)" by (simp add: radix_get_def radix_default_def map_get_def)
  show "radix_ok capacity (radix_default :: 'a radix_map)" using radix_default_ok(1) assms .
  assume ok: "radix_ok capacity m"
  note get = radix_get_entries [OF _ assms] and put = radix_put_ok [OF ok assms] and del = radix_del_ok [OF ok assms]
  have es: "map_ok (radix_entries m)" using ok by (simp add: radix_ok_def)
  show "radix_get (radix_put capacity k v m) = (radix_get m)(k \<mapsto> v)"
    using btree.get_insert [OF es, of k v] by (simp add: fun_eq_iff get [OF put(1)] get [OF ok] put(2))
  show "radix_get (radix_del capacity k m) = (radix_get m)(k := None)"
    using btree.get_remove [OF es, of k] by (simp add: fun_eq_iff get [OF del(1)] get [OF ok] del(2))
  show "radix_ok capacity (radix_put capacity k v m)" "radix_ok capacity (radix_del capacity k m)"
    by (fact put del)+
  show "sorted_wrt (<) (map_keys (radix_entries m))" using es by (simp add: map_ok_def)
  show "set (map_keys (radix_entries m)) = dom (radix_get m)"
    using btree.keys_get [OF es] by (simp add: get [OF ok] dom_def)
qed

interpretation radix: ordered_map "radix_put (leaf_capacity e v)" "radix_del (leaf_capacity e v)" radix_get
  "\<lambda>m. map_keys (radix_entries m)" radix_default "radix_ok (leaf_capacity e v)" for e v
  by (rule ordered_map_radix) (rule leaf_capacity_positive)

section \<open>Properties\<close>

text \<open>The operations of a history of a map.\<close>

datatype 'v radix_op = Put u128 'v | Del u128

fun radix_apply :: "nat \<Rightarrow> 'v radix_op \<Rightarrow> 'v radix_map \<Rightarrow> 'v radix_map option" where
  "radix_apply capacity (Put key v) m = map_option fst (radix_insert capacity key v m)"
| "radix_apply capacity (Del key) m = map_option fst (radix_remove capacity key m)"

fun entries_apply :: "'v radix_op \<Rightarrow> 'v leaf_entries \<Rightarrow> 'v leaf_entries" where
  "entries_apply (Put key v) es = map_insert key v es"
| "entries_apply (Del key) es = map_remove key es"

lemma entries_apply_ok: "map_ok es \<Longrightarrow> map_ok (fold entries_apply ops es)"
proof (induction ops arbitrary: es)
  case (Cons op ops)
  then show ?case by (cases op) (auto simp: map_ok_insert btree.ok_remove)
qed simp

lemma radix_run:
  assumes "0 < capacity" "radix_ok capacity m"
  shows "try_fold (\<lambda>m op. radix_apply capacity op m) m ops =
    Some \<lparr>radix_root = canon capacity (fold entries_apply ops (radix_entries m)),
      radix_len = length (fold entries_apply ops (radix_entries m))\<rparr>"
  using assms(2)
proof (induction ops arbitrary: m)
  case Nil
  then show ?case by (cases m) (simp add: radix_ok_def)
next
  case (Cons op ops)
  let ?es = "entries_apply op (radix_entries m)"
  let ?m = "\<lparr>radix_root = canon capacity ?es, radix_len = length ?es\<rparr>"
  have "map_ok ?es" using entries_apply_ok [of "radix_entries m" "[op]"] Cons.prems by (simp add: radix_ok_def)
  then have m: "radix_ok capacity ?m" "radix_entries ?m = ?es" using radix_okI [OF _ assms(1) refl] by blast+
  have "radix_apply capacity op m = Some ?m"
    using radix_insert_ok [OF Cons.prems assms(1)] radix_remove_ok [OF Cons.prems assms(1)] by (cases op) simp_all
  then show ?case using Cons.IH [OF m(1)] m(2) by simp
qed

text \<open>C23: A lookup in the radix map after an insertion or a removal answers as in a map, the operations
return the previous value and never panic, and the invariant holds again: the root is the canonical
node of the entries and the length is their number.\<close>

theorem radix_map_laws:
  assumes "0 < capacity" "radix_ok capacity m"
  shows "(\<exists>m'. radix_insert capacity key v m = Some (m', radix_get m key) \<and> radix_ok capacity m' \<and>
      radix_get m' = (radix_get m)(key \<mapsto> v)) \<and>
    (\<exists>m'. radix_remove capacity key m = Some (m', radix_get m key) \<and> radix_ok capacity m' \<and>
      radix_get m' = (radix_get m)(key := None))"
proof -
  note laws = ordered_map.get_insert [OF ordered_map_radix [OF assms(1)] assms(2), of key v]
    ordered_map.get_remove [OF ordered_map_radix [OF assms(1)] assms(2), of key]
  show ?thesis
    using laws radix_insert_ok [OF assms(2,1), of key v] radix_remove_ok [OF assms(2,1), of key]
      radix_put_ok(1) [OF assms(2,1), of key v] radix_del_ok(1) [OF assms(2,1), of key]
    by (auto simp: radix_put_def radix_del_def)
qed

theorem radix_map_laws_witness:
  "\<exists>m'. radix_insert 1 7 True radix_default = Some (m', None) \<and> radix_get m' 7 = Some True"
proof -
  have "radix_ok 1 (radix_default :: bool radix_map)" by (rule radix_default_ok) simp
  moreover have "radix_get radix_default 7 = (None :: bool option)"
    by (simp add: radix_get_def radix_default_def map_get_def)
  ultimately show ?thesis
    using radix_map_laws [of 1 "radix_default :: bool radix_map" 7 True] by auto
qed

text \<open>C2: The map is history independent: after any sequence of insertions and removals the map, node for
node, is the one the bulk build makes of the entries that remain, so two histories that leave the
same entries leave the same map.\<close>

theorem radix_history_independent:
  assumes "0 < capacity"
  shows "try_fold (\<lambda>m op. radix_apply capacity op m) radix_default ops =
    from_sorted_iter capacity (fold entries_apply ops [])"
proof -
  have ok: "map_ok (fold entries_apply ops ([] :: (u128 \<times> 'a) list))"
    by (rule entries_apply_ok) (simp add: map_ok_def map_keys_def)
  show ?thesis
    using radix_run [OF assms radix_default_ok(1) [OF assms], of ops] from_sorted_iter_ok [OF assms ok]
    by (simp add: radix_default_ok(2))
qed

theorem radix_history_independent_witness:
  "try_fold (\<lambda>m op. radix_apply 1 op m) radix_default [Put 5 True, Put 9 False, Put 300 True, Del 9] =
    from_sorted_iter 1 [(5, True), (300, True)]"
  using radix_history_independent [of 1 "[Put 5 True, Put 9 False, Put 300 True, Del 9]"]
  by (simp add: map_remove_def)

text \<open>The bulk build is total on strictly increasing keys (the panic on duplicate keys is not
reached), a lookup finds exactly the entries given to it, and it refuses any other input.\<close>

theorem radix_bulk_build:
  assumes "0 < capacity"
  shows "case from_sorted_iter capacity es of
      Some m \<Rightarrow> sorted_wrt (<) (map fst es) \<and> radix_ok capacity m \<and> radix_get m = map_of es \<and> entries_of (radix_root m) = es
    | None \<Rightarrow> \<not> sorted_wrt (<) (map fst es)"
proof (cases "sorted_wrt (<) (map fst es)")
  case True
  then have ok: "map_ok es" by (simp add: map_ok_def map_keys_def)
  note m = radix_okI [OF ok assms refl]
  have "radix_get \<lparr>radix_root = canon capacity es, radix_len = length es\<rparr> = map_of es"
    using radix_get_entries [OF m(1) assms] m(2) by (simp add: fun_eq_iff map_get_def)
  then show ?thesis using from_sorted_iter_ok [OF assms ok] m True by (simp add: radix_entries_def)
qed (simp add: from_sorted_iter_def)

theorem radix_bulk_build_witness:
  "\<exists>m. from_sorted_iter 1 [(5, True), (300, False)] = Some m \<and> radix_get m 300 = Some False"
  using radix_bulk_build [of 1 "[(5, True), (300, False)]"] by (auto split: option.splits)

end
