(* ===== verification/Radix_Walk.thy ===== *)
theory Radix_Walk
  imports Radix
begin

text \<open>The walks over a persistent radix map (\<open>calculation/persistent_store.rs\<close>): the depth-first
walk with its explicit stack, forwards and in reverse, the cursor that starts at or jumps to a key,
and the double-ended iterator over the entries.

A frame is a node and the number of items already taken from it; the stack is a list whose head is
the last element of the code's vector.  \<open>None\<close> is the panic of an index out of bounds.\<close>

section \<open>The depth-first walk\<close>

type_synonym 'v radix_frame = "'v radix_node \<times> nat"

definition next_index :: "bool \<Rightarrow> nat \<Rightarrow> nat \<Rightarrow> nat" where
  "next_index reverse len next_item = (if reverse then len - next_item - 1 else next_item)"

function walk_next ::
  "bool \<Rightarrow> 'v radix_frame list \<Rightarrow> ((u128 \<times> 'v) option \<times> 'v radix_frame list) option" where
  "walk_next reverse [] = Some (None, [])"
| "walk_next reverse ((Leaf entries, next_item) # frames) =
    (if next_item = length entries then walk_next reverse frames
     else if next_item < length entries
     then Some (Some (entries ! next_index reverse (length entries) next_item), (Leaf entries, next_item + 1) # frames)
     else None)"
| "walk_next reverse ((Branch depth children len min_key, next_item) # frames) =
    (if next_item = length children then walk_next reverse frames
     else if next_item < length children
     then walk_next reverse
       ((snd (children ! next_index reverse (length children) next_item), 0) #
        (Branch depth children len min_key, next_item + 1) # frames)
     else None)"
  by pat_completeness auto

text \<open>The items of a list that a frame has not taken yet, in the order it takes them.\<close>

definition untaken :: "bool \<Rightarrow> nat \<Rightarrow> 'a list \<Rightarrow> 'a list" where
  "untaken reverse n xs = drop n (if reverse then rev xs else xs)"

lemma untaken_all [simp]: "untaken reverse (length xs) xs = []"
  by (simp add: untaken_def)

lemma untaken_step:
  "n < length xs \<Longrightarrow> untaken reverse n xs = xs ! next_index reverse (length xs) n # untaken reverse (Suc n) xs"
  by (auto simp: untaken_def next_index_def rev_nth Cons_nth_drop_Suc [symmetric])

fun node_work :: "'v radix_node \<Rightarrow> nat" where
  "node_work (Leaf entries) = 1"
| "node_work (Branch depth children len min_key) = 1 + sum_list (map (\<lambda>(_, child). 1 + node_work child) children)"

fun frame_work :: "bool \<Rightarrow> 'v radix_frame \<Rightarrow> nat" where
  "frame_work reverse (Leaf entries, n) = 1"
| "frame_work reverse (Branch depth children len min_key, n) =
    1 + sum_list (map (\<lambda>(_, child). 1 + node_work child) (untaken reverse n children))"

lemma frame_work_0: "frame_work reverse (node, 0) = node_work node"
proof (cases node)
  case (Branch depth children len min_key)
  have "sum_list (map f (rev xs)) = sum_list (map f xs)" for f :: "nat \<times> 'a radix_node \<Rightarrow> nat" and xs
    by (simp add: rev_map [symmetric])
  then show ?thesis by (simp add: Branch untaken_def)
qed simp

termination walk_next
proof (relation "measure (\<lambda>(reverse, frames). sum_list (map (frame_work reverse) frames))", goal_cases)
  case (4 reverse depth children len min_key next_item frames)
  then show ?case
    by (simp add: untaken_step frame_work_0 case_prod_beta)
qed simp_all

section \<open>The cursor\<close>

text \<open>\<open>partition_point\<close> on a list whose elements with the property come first.\<close>

definition partition_point :: "('a \<Rightarrow> bool) \<Rightarrow> 'a list \<Rightarrow> nat" where
  "partition_point P xs = length (takeWhile P xs)"

definition key_prefix :: "nat \<Rightarrow> u128 \<Rightarrow> u128" where
  "key_prefix depth key =
    (let shift = (KEY_BYTES - depth) * 8 in if shift < 128 then drop_bit shift key else 0)"

definition child_index :: "nat \<Rightarrow> (nat \<times> 'v radix_node) list \<Rightarrow> nat" where
  "child_index edge children = partition_point (\<lambda>child. fst child < edge) children"

function walk_from :: "'v radix_node \<Rightarrow> u128 \<Rightarrow> 'v radix_frame list \<Rightarrow> 'v radix_frame list" where
  "walk_from (Leaf entries) key frames = (Leaf entries, partition_point (\<lambda>entry. fst entry < key) entries) # frames"
| "walk_from (Branch depth children len min_key) key frames =
    (if key_prefix depth key < key_prefix depth min_key then (Branch depth children len min_key, 0) # frames
     else if key_prefix depth min_key < key_prefix depth key
     then (Branch depth children len min_key, length children) # frames
     else if child_index (key_byte key depth) children < length children \<and>
       fst (children ! child_index (key_byte key depth) children) = key_byte key depth
     then walk_from (snd (children ! child_index (key_byte key depth) children)) key
       ((Branch depth children len min_key, child_index (key_byte key depth) children + 1) # frames)
     else (Branch depth children len min_key, child_index (key_byte key depth) children) # frames)"
  by pat_completeness auto

lemma nth_child_size: "i < length children \<Longrightarrow> size (snd (children ! i)) < size (Branch depth children len min_key)"
proof -
  assume i: "i < length children"
  obtain e c where c: "children ! i = (e, c)" by fastforce
  then have "(e, c) \<in> set children" using i nth_mem by metis
  then have "size_prod (\<lambda>_. 0) size (e, c) \<le> size_list (size_prod (\<lambda>_. 0) size) children"
    by (rule size_list_estimation') simp
  then show ?thesis using c by simp
qed

termination walk_from
  by (relation "measure (\<lambda>(node, key, frames). size node)") (use nth_child_size in auto)

record 'v radix_cursor =
  cursor_root :: "'v radix_node"
  cursor_walk :: "'v radix_frame list"

definition entries_from :: "'v radix_map \<Rightarrow> u128 \<Rightarrow> 'v radix_cursor" where
  "entries_from m key = \<lparr>cursor_root = radix_root m, cursor_walk = walk_from (radix_root m) key []\<rparr>"

definition seek :: "u128 \<Rightarrow> 'v radix_cursor \<Rightarrow> 'v radix_cursor" where
  "seek key c = c\<lparr>cursor_walk := walk_from (cursor_root c) key []\<rparr>"

definition cursor_next :: "'v radix_cursor \<Rightarrow> ((u128 \<times> 'v) option \<times> 'v radix_cursor) option" where
  "cursor_next c = map_option (\<lambda>(entry, frames). (entry, c\<lparr>cursor_walk := frames\<rparr>)) (walk_next False (cursor_walk c))"

section \<open>The entries from both ends\<close>

record 'v radix_entries_iter =
  iter_front :: "'v radix_frame list"
  iter_back :: "'v radix_frame list"
  iter_remaining :: nat

definition ordered_entries :: "'v radix_map \<Rightarrow> 'v radix_entries_iter" where
  "ordered_entries m =
    \<lparr>iter_front = [(radix_root m, 0)], iter_back = [(radix_root m, 0)], iter_remaining = radix_len m\<rparr>"

definition iter_next ::
  "'v radix_entries_iter \<Rightarrow> ((u128 \<times> 'v) option \<times> 'v radix_entries_iter) option" where
  "iter_next it =
    (if iter_remaining it = 0 then Some (None, it)
     else map_option (\<lambda>(entry, frames). (entry, it\<lparr>iter_front := frames, iter_remaining := iter_remaining it - 1\<rparr>))
       (walk_next False (iter_front it)))"

definition iter_next_back ::
  "'v radix_entries_iter \<Rightarrow> ((u128 \<times> 'v) option \<times> 'v radix_entries_iter) option" where
  "iter_next_back it =
    (if iter_remaining it = 0 then Some (None, it)
     else map_option (\<lambda>(entry, frames). (entry, it\<lparr>iter_back := frames, iter_remaining := iter_remaining it - 1\<rparr>))
       (walk_next True (iter_back it)))"

section \<open>What a walk has left\<close>

fun frame_rest :: "bool \<Rightarrow> 'v radix_frame \<Rightarrow> 'v leaf_entries" where
  "frame_rest reverse (Leaf entries, n) = untaken reverse n entries"
| "frame_rest reverse (Branch depth children len min_key, n) =
    concat (map (\<lambda>(_, child). untaken reverse 0 (entries_of child)) (untaken reverse n children))"

fun frame_ok :: "'v radix_frame \<Rightarrow> bool" where
  "frame_ok (Leaf entries, n) = (n \<le> length entries)"
| "frame_ok (Branch depth children len min_key, n) = (n \<le> length children)"

definition walk_rest :: "bool \<Rightarrow> 'v radix_frame list \<Rightarrow> 'v leaf_entries" where
  "walk_rest reverse frames = concat (map (frame_rest reverse) frames)"

lemma untaken_concat: "untaken reverse 0 (concat xss) = concat (map (untaken reverse 0) (untaken reverse 0 xss))"
  by (cases reverse) (simp_all add: untaken_def [abs_def] rev_concat rev_map)

lemma frame_rest_0: "frame_rest reverse (node, 0) = untaken reverse 0 (entries_of node)"
proof (cases node)
  case (Branch depth children len min_key)
  have "untaken reverse 0 (map f children) = map f (untaken reverse 0 children)" for f :: "nat \<times> 'a radix_node \<Rightarrow> 'a leaf_entries"
    by (simp add: untaken_def rev_map)
  then show ?thesis by (simp add: Branch untaken_concat comp_def case_prod_unfold)
qed simp

lemma frame_ok_0: "frame_ok (node, 0)"
  by (cases node) simp_all

text \<open>A step of the walk returns the first entry it has left and leaves the others.\<close>

lemma walk_next_rest:
  assumes "list_all frame_ok frames"
  shows "\<exists>frames'. walk_next reverse frames =
      Some (case walk_rest reverse frames of [] \<Rightarrow> None | e # _ \<Rightarrow> Some e, frames') \<and>
    list_all frame_ok frames' \<and> walk_rest reverse frames' = tl (walk_rest reverse frames)"
  using assms
proof (induction reverse frames rule: walk_next.induct)
  case (2 reverse entries n frames)
  show ?case
  proof (cases "n = length entries")
    case True
    then show ?thesis using 2 by (simp add: walk_rest_def)
  next
    case False
    then have "n < length entries" using 2 by simp
    then show ?thesis using 2 by (simp add: walk_rest_def untaken_step)
  qed
next
  case (3 reverse depth children len min_key n frames)
  show ?case
  proof (cases "n = length children")
    case True
    then show ?thesis using 3 by (simp add: walk_rest_def)
  next
    case False
    then have n: "n < length children" using 3 by simp
    let ?frames = "(snd (children ! next_index reverse (length children) n), 0) #
        (Branch depth children len min_key, n + 1) # frames"
    have "walk_rest reverse ?frames = walk_rest reverse ((Branch depth children len min_key, n) # frames)"
      using n by (simp add: walk_rest_def untaken_step frame_rest_0 case_prod_beta)
    moreover have "list_all frame_ok ?frames" using 3 n by (simp add: frame_ok_0)
    ultimately show ?thesis using 3(2) [OF False n] n False by simp
  qed
qed (simp add: walk_rest_def)

section \<open>Where a cursor starts\<close>

lemma unat_key_prefix: "d \<le> KEY_BYTES \<Longrightarrow> unat (key_prefix d key) = prefix d key"
proof (cases d)
  case 0
  then show ?thesis by (simp add: key_prefix_def)
next
  case (Suc n)
  assume d: "d \<le> KEY_BYTES"
  then have "(KEY_BYTES - d) * 8 < 128" using Suc by simp
  then have "key_prefix d key = drop_bit ((KEY_BYTES - d) * 8) key" by (simp add: key_prefix_def)
  then have "unat (key_prefix d key) = drop_bit ((KEY_BYTES - d) * 8) (unat key)"
    by (simp only: unat_drop_bit_eq)
  then have "unat (key_prefix d key) = unat key div 2 ^ ((KEY_BYTES - d) * 8)" by (simp only: drop_bit_eq_div)
  moreover have "(2 :: nat) ^ ((KEY_BYTES - d) * 8) = 256 ^ (KEY_BYTES - d)" by (simp add: power_mult mult.commute)
  ultimately show ?thesis by (simp add: prefix_def)
qed

lemma key_prefix_less: "d \<le> KEY_BYTES \<Longrightarrow> key_prefix d k < key_prefix d k' \<longleftrightarrow> prefix d k < prefix d k'"
  by (simp add: word_less_nat_alt unat_key_prefix)

lemma prefix_less_imp: "prefix d k < prefix d k' \<Longrightarrow> k < k'"
  using prefix_mono [of k' k d] by (meson not_le)

definition at_least :: "u128 \<Rightarrow> 'v leaf_entries \<Rightarrow> 'v leaf_entries" where
  "at_least key es = filter (\<lambda>e. key \<le> fst e) es"

lemma at_least_append [simp]: "at_least key (xs @ ys) = at_least key xs @ at_least key ys"
  by (simp add: at_least_def)

lemma at_least_all: "(\<And>k. k \<in> fst ` set es \<Longrightarrow> key \<le> k) \<Longrightarrow> at_least key es = es"
  by (auto simp: at_least_def filter_id_conv)

lemma at_least_none: "(\<And>k. k \<in> fst ` set es \<Longrightarrow> k < key) \<Longrightarrow> at_least key es = []"
  by (force simp: at_least_def filter_empty_conv)

lemma drop_takeWhile: "drop (length (takeWhile P xs)) xs = dropWhile P xs"
  by (metis dropWhile_eq_drop)

lemma dropWhile_at_least: "map_ok es \<Longrightarrow> dropWhile (\<lambda>e. fst e < key) es = at_least key es"
proof (induction es)
  case (Cons e es)
  have ok: "map_ok es" and less: "\<And>k. k \<in> fst ` set es \<Longrightarrow> fst e < k"
    using Cons.prems by (auto simp: map_ok_def map_keys_def)
  show ?case
  proof (cases "fst e < key")
    case True
    then show ?thesis using Cons.IH [OF ok] by (simp add: at_least_def not_le [symmetric])
  next
    case False
    then have "at_least key es = es" using less by (intro at_least_all) (meson not_le less_imp_le less_trans)
    then show ?thesis using False by (simp add: at_least_def)
  qed
qed (simp add: at_least_def)

text \<open>Children in edge order split at an edge.\<close>

lemma split_at_edge:
  fixes cs :: "(nat \<times> 'a) list"
  assumes "sorted_wrt (<) (map fst cs)"
  obtains ys zs where "cs = ys @ zs" "length ys = partition_point (\<lambda>c. fst c < edge) cs"
    "\<And>c. c \<in> set ys \<Longrightarrow> fst c < edge" "\<And>c. c \<in> set zs \<Longrightarrow> edge \<le> fst c" "\<And>c. c \<in> set (tl zs) \<Longrightarrow> edge < fst c"
proof
  let ?P = "\<lambda>c. fst c < edge"
  let ?ys = "takeWhile ?P cs" and ?zs = "dropWhile ?P cs"
  show "cs = ?ys @ ?zs" "length ?ys = partition_point ?P cs" by (simp_all add: partition_point_def)
  show "fst c < edge" if "c \<in> set ?ys" for c using set_takeWhileD [OF that] by simp
  have sorted: "sorted_wrt (<) (map fst ?zs)"
    using assms by (metis map_append sorted_wrt_append takeWhile_dropWhile_id)
  have hd: "edge \<le> fst (hd ?zs)" if "?zs \<noteq> []" using hd_dropWhile [OF that] by simp
  have tl: "edge < fst c" if "c \<in> set (tl ?zs)" for c
    using sorted hd that by (cases ?zs) (auto dest: le_less_trans)
  then show "edge < fst c" if "c \<in> set (tl ?zs)" for c using that .
  show "edge \<le> fst c" if "c \<in> set ?zs" for c
  proof (cases "c = hd ?zs")
    case True
    then show ?thesis using hd that by (metis list.set_cases list.discI)
  next
    case False
    then have "c \<in> set (tl ?zs)" using that by (cases ?zs) auto
    then show ?thesis by (rule less_imp_le [OF tl])
  qed
qed

lemma partition_point_map: "partition_point (\<lambda>c. fst c < edge) (map (\<lambda>(e, g). (e, h g)) cs) =
    partition_point (\<lambda>c. fst c < edge) cs"
  by (induction cs) (auto simp: partition_point_def)

lemma rest_of_branch:
  assumes "chunking (byte_at b) es cs" "map_ok es" "0 < capacity"
  shows "frame_rest False (Branch b (map (\<lambda>(e, g). (e, canon capacity g)) cs) n mn, i) = concat (map snd (drop i cs))"
proof -
  have "map (\<lambda>(_, child). entries_of child) (map (\<lambda>(e, g). (e, canon capacity g)) (drop i cs)) = map snd (drop i cs)"
    using entries_canon [OF chunk_map_ok [OF assms(1,2)] assms(3)] by (auto dest: in_set_dropD)
  then show ?thesis by (simp add: untaken_def drop_map del: map_map)
qed

theorem walk_from_rest:
  assumes "map_ok es" "0 < capacity" "list_all frame_ok frames"
  shows "list_all frame_ok (walk_from (canon capacity es) key frames) \<and>
    walk_rest False (walk_from (canon capacity es) key frames) = at_least key es @ walk_rest False frames"
  using assms
proof (induction es arbitrary: frames rule: canon_induct)
  case (leaf es)
  have "partition_point P es \<le> length es" for P by (simp add: partition_point_def length_takeWhile_le)
  moreover have "untaken False (partition_point (\<lambda>e. fst e < key) es) es = at_least key es"
    using dropWhile_at_least [OF leaf(1)] by (simp add: untaken_def partition_point_def drop_takeWhile)
  ultimately show ?case using leaf by (simp add: canon_leaf walk_rest_def)
next
  case (branch es b)
  let ?cs = "chunks (byte_at b) es" and ?mn = "fst (hd es)" and ?edge = "key_byte key b"
  let ?children = "map (\<lambda>(e, g). (e, canon capacity g)) ?cs"
  let ?node = "Branch b ?children (length es) ?mn"
  have ne: "es \<noteq> []" using branch(2) by auto
  have b: "b < KEY_BYTES" "shares_prefix b es" using branch(3) by (simp_all add: branches_at_def)
  have pre: "prefix b k = prefix b ?mn" if "k \<in> fst ` set es" for k
    using shares_prefixD [OF b(2) that hd_key_mem [OF ne]] .
  note rest = rest_of_branch [OF branch(4,1) assms(2)]
  have es: "es = concat (map snd ?cs)" using branch(4) by (simp add: chunking_def)
  consider (less) "prefix b key < prefix b ?mn" | (greater) "prefix b ?mn < prefix b key" | (equal) "prefix b key = prefix b ?mn"
    by linarith
  then show ?case
  proof cases
    case less
    then have "at_least key es = es" using pre prefix_less_imp by (intro at_least_all) (metis less_imp_le)
    then show ?thesis
      using less b branch(7) rest [of _ _ 0] es unfolding branch(5)
      by (simp add: key_prefix_less walk_rest_def del: frame_rest.simps)
  next
    case greater
    then have "at_least key es = []" using pre prefix_less_imp by (intro at_least_none) metis
    then show ?thesis
      using greater b branch(7) rest [of _ _ "length ?cs"] unfolding branch(5)
      by (simp add: key_prefix_less walk_rest_def del: frame_rest.simps)
  next
    case equal
    obtain ys zs where cs: "?cs = ys @ zs" "length ys = partition_point (\<lambda>c. fst c < ?edge) ?cs"
      "\<And>c. c \<in> set ys \<Longrightarrow> fst c < ?edge" "\<And>c. c \<in> set zs \<Longrightarrow> ?edge \<le> fst c" "\<And>c. c \<in> set (tl zs) \<Longrightarrow> ?edge < fst c"
      using split_at_edge [of ?cs ?edge] branch(4) unfolding chunking_def by blast
    have index: "child_index ?edge ?children = length ys"
      using cs(2) partition_point_map [of ?edge "canon capacity" ?cs] by (simp add: child_index_def)
    have order: "(fst c < ?edge \<longrightarrow> k < key) \<and> (?edge < fst c \<longrightarrow> key < k)"
      if c: "c \<in> set ?cs" and k: "k \<in> fst ` set (snd c)" for c k
    proof -
      have "key_byte k b = fst c" using chunking_chunk [OF branch(4) c] k by auto
      moreover have "k \<in> fst ` set es" using chunking_mem [OF branch(4)] c k by force
      ultimately show ?thesis using key_byte_less_imp [of b k key] key_byte_less_imp [of b key k] pre equal b(1) by simp
    qed
    have low: "at_least key (concat (map snd ys)) = []"
      using order cs(1,3) by (intro at_least_none) fastforce
    show ?thesis
    proof (cases "\<exists>g zs'. zs = (?edge, g) # zs'")
      case True
      then obtain g zs' where zs: "zs = (?edge, g) # zs'" by blast
      have mem: "(?edge, g) \<in> set ?cs" using cs(1) zs by simp
      have high: "at_least key (concat (map snd zs')) = concat (map snd zs')"
        using order cs(1,5) zs by (intro at_least_all) (fastforce dest: less_imp_le)
      have child: "?children ! length ys = (?edge, canon capacity g)"
        unfolding cs(1) zs by (simp add: nth_append)
      have len: "length ys < length ?children" using arg_cong [OF cs(1), of length] zs by simp
      have step: "walk_from (canon capacity es) key frames =
          walk_from (canon capacity g) key ((?node, length ys + 1) # frames)"
        using child len equal b unfolding branch(5) by (simp add: key_prefix_less index)
      have "list_all frame_ok ((?node, length ys + 1) # frames)" using branch(7) cs(1) zs by simp
      then have IH: "list_all frame_ok (walk_from (canon capacity es) key frames) \<and>
          walk_rest False (walk_from (canon capacity es) key frames) =
          at_least key g @ walk_rest False ((?node, length ys + 1) # frames)"
        unfolding step using branch(6) [OF mem] by blast
      have "frame_rest False (?node, length ys + 1) = concat (map snd zs')"
        using rest [of _ _ "length ys + 1"] cs(1) zs by simp
      moreover have "at_least key es = at_least key g @ concat (map snd zs')"
        using low high zs cs(1) by (subst es) simp
      ultimately show ?thesis using IH by (simp add: walk_rest_def del: frame_rest.simps)
    next
      case False
      have greater: "?edge < fst c" if "c \<in> set zs" for c
      proof (cases zs)
        case (Cons z zs')
        then have "fst z \<noteq> ?edge" using False by (cases z) auto
        then have "?edge < fst z" using cs(4) [of z] Cons by simp
        then show ?thesis using cs(5) [of c] that Cons by auto
      qed (use that in simp)
      have high: "at_least key (concat (map snd zs)) = concat (map snd zs)"
        using order cs(1) greater by (intro at_least_all) (fastforce dest: less_imp_le)
      have "\<not> (length ys < length ?children \<and> fst (?children ! length ys) = ?edge)"
        using False cs(1) by (cases zs) (auto simp: nth_append)
      then have step: "walk_from (canon capacity es) key frames = (?node, length ys) # frames"
        using equal b unfolding branch(5) by (auto simp: key_prefix_less index)
      have "frame_rest False (?node, length ys) = concat (map snd zs)"
        using rest [of _ _ "length ys"] cs(1) by simp
      moreover have "at_least key es = concat (map snd zs)" using low high cs(1) by (subst es) simp
      moreover have "length ys \<le> length ?cs" using cs(1) by simp
      ultimately show ?thesis using branch(7) unfolding step by (simp add: walk_rest_def del: frame_rest.simps)
    qed
  qed
qed


section \<open>Cursors and iterators\<close>

definition cursor_ok :: "nat \<Rightarrow> 'v leaf_entries \<Rightarrow> 'v radix_cursor \<Rightarrow> bool" where
  "cursor_ok capacity es c = (map_ok es \<and> cursor_root c = canon capacity es \<and> list_all frame_ok (cursor_walk c))"

abbreviation cursor_rest :: "'v radix_cursor \<Rightarrow> 'v leaf_entries" where
  "cursor_rest c \<equiv> walk_rest False (cursor_walk c)"

text \<open>What a cursor has left after its start, a jump and a step.\<close>

lemma entries_from_rest:
  assumes "radix_ok capacity m" "0 < capacity"
  shows "cursor_ok capacity (radix_entries m) (entries_from m key)"
    and "cursor_rest (entries_from m key) = at_least key (radix_entries m)"
proof -
  have m: "map_ok (radix_entries m)" "radix_root m = canon capacity (radix_entries m)"
    using assms(1) unfolding radix_ok_def by blast+
  show "cursor_ok capacity (radix_entries m) (entries_from m key)"
    "cursor_rest (entries_from m key) = at_least key (radix_entries m)"
    using walk_from_rest [OF m(1) assms(2), of "[]" key] m
    by (simp_all add: cursor_ok_def entries_from_def walk_rest_def)
qed

lemma seek_rest:
  assumes "cursor_ok capacity es c" "0 < capacity"
  shows "cursor_ok capacity es (seek key c)" "cursor_rest (seek key c) = at_least key es"
  using walk_from_rest [of es capacity "[]" key] assms
  by (auto simp: cursor_ok_def seek_def walk_rest_def)

lemma cursor_next_rest:
  assumes "cursor_ok capacity es c"
  obtains c' where "cursor_next c = Some (case cursor_rest c of [] \<Rightarrow> None | e # _ \<Rightarrow> Some e, c')"
    "cursor_ok capacity es c'" "cursor_rest c' = tl (cursor_rest c)"
proof -
  obtain frames where frames: "walk_next False (cursor_walk c) =
      Some (case cursor_rest c of [] \<Rightarrow> None | e # _ \<Rightarrow> Some e, frames)"
    "list_all frame_ok frames" "walk_rest False frames = tl (cursor_rest c)"
    using walk_next_rest [of "cursor_walk c" False] assms by (auto simp: cursor_ok_def)
  show thesis
    by (rule that [of "c\<lparr>cursor_walk := frames\<rparr>"]) (use frames assms in \<open>simp_all add: cursor_next_def cursor_ok_def\<close>)
qed

text \<open>The double-ended iterator holds the middle of the entries: what neither end has taken.\<close>

definition iter_ok :: "'v leaf_entries \<Rightarrow> 'v radix_entries_iter \<Rightarrow> bool" where
  "iter_ok es it =
    (list_all frame_ok (iter_front it) \<and> list_all frame_ok (iter_back it) \<and>
     (\<exists>a b. walk_rest False (iter_front it) = drop a es \<and> walk_rest True (iter_back it) = drop b (rev es) \<and>
       a + iter_remaining it + b = length es))"

lemma iter_okI:
  assumes "list_all frame_ok (iter_front it)" "list_all frame_ok (iter_back it)"
    "walk_rest False (iter_front it) = drop a es" "walk_rest True (iter_back it) = drop b (rev es)"
    "a + iter_remaining it + b = length es"
  shows "iter_ok es it"
  using assms unfolding iter_ok_def by blast

definition iter_rest :: "'v radix_entries_iter \<Rightarrow> 'v leaf_entries" where
  "iter_rest it = take (iter_remaining it) (walk_rest False (iter_front it))"

lemma ordered_entries_ok:
  assumes "radix_ok capacity m" "0 < capacity"
  shows "iter_ok (radix_entries m) (ordered_entries m)" "iter_rest (ordered_entries m) = radix_entries m"
  using assms unfolding radix_ok_def
  by (auto simp: iter_ok_def iter_rest_def ordered_entries_def walk_rest_def frame_rest_0 untaken_def frame_ok_0
      radix_entries_def intro: exI [of _ 0])

lemma iter_next_rest:
  assumes "iter_ok es it"
  shows "\<exists>it'. iter_next it = Some (case iter_rest it of [] \<Rightarrow> None | e # _ \<Rightarrow> Some e, it') \<and>
    iter_ok es it' \<and> iter_rest it' = tl (iter_rest it)"
proof (cases "iter_remaining it")
  case 0
  then show ?thesis using assms by (simp add: iter_next_def iter_rest_def)
next
  case (Suc r)
  obtain a b where ab: "walk_rest False (iter_front it) = drop a es" "walk_rest True (iter_back it) = drop b (rev es)"
    "a + iter_remaining it + b = length es" using assms by (auto simp: iter_ok_def)
  have a: "a < length es" using ab(3) Suc by simp
  obtain frames where frames: "walk_next False (iter_front it) =
      Some (case walk_rest False (iter_front it) of [] \<Rightarrow> None | e # _ \<Rightarrow> Some e, frames)"
    "list_all frame_ok frames" "walk_rest False frames = tl (walk_rest False (iter_front it))"
    using walk_next_rest [of "iter_front it" False] assms by (auto simp: iter_ok_def)
  let ?it = "it\<lparr>iter_front := frames, iter_remaining := r\<rparr>"
  have front: "walk_rest False frames = drop (Suc a) es" using frames(3) ab(1) by (simp add: tl_drop drop_Suc)
  have "iter_ok es ?it"
    by (rule iter_okI [of _ "Suc a" _ b]) (use assms frames(2) front ab Suc in \<open>simp_all add: iter_ok_def\<close>)
  moreover have "iter_rest it = es ! a # take r (drop (Suc a) es)"
    using ab(1) Suc a by (simp add: iter_rest_def Cons_nth_drop_Suc [symmetric])
  ultimately show ?thesis
    using frames(1) ab(1) front Suc a by (simp add: iter_next_def iter_rest_def Cons_nth_drop_Suc [symmetric])
qed

lemma iter_next_back_rest:
  assumes "iter_ok es it"
  shows "\<exists>it'. iter_next_back it = Some (if iter_rest it = [] then None else Some (last (iter_rest it)), it') \<and>
    iter_ok es it' \<and> iter_rest it' = butlast (iter_rest it)"
proof (cases "iter_remaining it")
  case 0
  then show ?thesis using assms by (simp add: iter_next_back_def iter_rest_def)
next
  case (Suc r)
  obtain a b where ab: "walk_rest False (iter_front it) = drop a es" "walk_rest True (iter_back it) = drop b (rev es)"
    "a + iter_remaining it + b = length es" using assms by (auto simp: iter_ok_def)
  have b: "b < length (rev es)" using ab(3) Suc by simp
  obtain frames where frames: "walk_next True (iter_back it) =
      Some (case walk_rest True (iter_back it) of [] \<Rightarrow> None | e # _ \<Rightarrow> Some e, frames)"
    "list_all frame_ok frames" "walk_rest True frames = tl (walk_rest True (iter_back it))"
    using walk_next_rest [of "iter_back it" True] assms by (auto simp: iter_ok_def)
  let ?it = "it\<lparr>iter_back := frames, iter_remaining := r\<rparr>"
  have rest: "walk_rest True frames = drop (Suc b) (rev es)" using frames(3) ab(2) by (simp add: tl_drop drop_Suc)
  have "iter_ok es ?it"
    by (rule iter_okI [of _ a _ "Suc b"]) (use assms frames(2) rest ab Suc in \<open>simp_all add: iter_ok_def\<close>)
  moreover have "iter_rest it = take r (drop a es) @ [es ! (a + r)]"
    using ab Suc by (simp add: iter_rest_def take_Suc_conv_app_nth)
  moreover have "rev es ! b = es ! (a + r)"
  proof -
    have "length es - Suc b = a + r" using ab(3) Suc by simp
    then show ?thesis using b by (simp add: rev_nth)
  qed
  ultimately show ?thesis
    using frames(1) ab(1,2) Suc b
    by (simp add: iter_next_back_def iter_rest_def Cons_nth_drop_Suc [OF b, symmetric])
qed

section \<open>Properties\<close>

text \<open>C40: A cursor enumerates exactly the entries from a key on: it starts before the first entry whose key
is at least the key, a jump puts it before the first such entry of the whole map, whatever it had
left, every step returns the next entry in key order, and the walk ends without a panic.\<close>

theorem cursor_enumerates:
  assumes "radix_ok capacity m" "0 < capacity"
  shows "cursor_rest (entries_from m key) = filter (\<lambda>e. key \<le> fst e) (radix_entries m) \<and>
    (\<forall>c. cursor_ok capacity (radix_entries m) c \<longrightarrow>
      cursor_rest (seek key c) = filter (\<lambda>e. key \<le> fst e) (radix_entries m) \<and>
      (\<exists>c'. cursor_next c = Some (case cursor_rest c of [] \<Rightarrow> None | e # _ \<Rightarrow> Some e, c') \<and>
        cursor_ok capacity (radix_entries m) c' \<and> cursor_rest c' = tl (cursor_rest c))) \<and>
    cursor_ok capacity (radix_entries m) (entries_from m key)"
proof (intro conjI allI impI)
  fix c assume c: "cursor_ok capacity (radix_entries m) c"
  show "\<exists>c'. cursor_next c = Some (case cursor_rest c of [] \<Rightarrow> None | e # _ \<Rightarrow> Some e, c') \<and>
      cursor_ok capacity (radix_entries m) c' \<and> cursor_rest c' = tl (cursor_rest c)"
    using cursor_next_rest [OF c] by metis
  show "cursor_rest (seek key c) = filter (\<lambda>e. key \<le> fst e) (radix_entries m)"
    using seek_rest(2) [OF c assms(2)] by (simp add: at_least_def)
qed (use entries_from_rest [OF assms] in \<open>simp_all add: at_least_def\<close>)

theorem cursor_enumerates_witness:
  "\<exists>m. from_sorted_iter 1 [(5, True), (300, False), (70000, True)] = Some m \<and>
    cursor_rest (entries_from m 6) = [(300, False), (70000, True)]"
proof -
  let ?es = "[(5, True), (300, False), (70000, True)] :: (u128 \<times> bool) list"
  have ok: "map_ok ?es" by (simp add: map_ok_def map_keys_def)
  let ?m = "\<lparr>radix_root = canon 1 ?es, radix_len = length ?es\<rparr>"
  have m: "radix_ok 1 ?m" "radix_entries ?m = ?es" using radix_okI [OF ok _ refl, of 1] by simp_all
  have "from_sorted_iter 1 ?es = Some ?m" using from_sorted_iter_ok [OF _ ok, of 1] by simp
  moreover have "cursor_rest (entries_from ?m 6) = [(300, False), (70000, True)]"
    using cursor_enumerates [OF m(1), of 6] unfolding m(2) by simp
  ultimately show ?thesis by blast
qed

text \<open>C34: The iterator over the entries refines a double-ended queue of the entries in key order, however
steps from the front and from the back are mixed: each returns the entry at its end, no entry is
returned twice or left out, and after the last one both ends return nothing.\<close>

theorem entries_iterator_refines_deque:
  assumes "radix_ok capacity m" "0 < capacity"
  shows "iter_rest (ordered_entries m) = radix_entries m \<and> iter_ok (radix_entries m) (ordered_entries m) \<and>
    (\<forall>it. iter_ok (radix_entries m) it \<longrightarrow>
      (\<exists>it'. iter_next it = Some (case iter_rest it of [] \<Rightarrow> None | e # _ \<Rightarrow> Some e, it') \<and>
        iter_ok (radix_entries m) it' \<and> iter_rest it' = tl (iter_rest it)) \<and>
      (\<exists>it'. iter_next_back it = Some (if iter_rest it = [] then None else Some (last (iter_rest it)), it') \<and>
        iter_ok (radix_entries m) it' \<and> iter_rest it' = butlast (iter_rest it)))"
  using ordered_entries_ok [OF assms] iter_next_rest iter_next_back_rest by blast

theorem entries_iterator_refines_deque_witness:
  "\<exists>m it it'. from_sorted_iter 1 [(5, True), (300, False), (70000, True)] = Some m \<and>
    iter_next (ordered_entries m) = Some (Some (5, True), it) \<and> iter_next_back it = Some (Some (70000, True), it') \<and>
    iter_rest it' = [(300, False)]"
proof -
  let ?es = "[(5, True), (300, False), (70000, True)] :: (u128 \<times> bool) list"
  have es: "map_ok ?es" by (simp add: map_ok_def map_keys_def)
  let ?m = "\<lparr>radix_root = canon 1 ?es, radix_len = length ?es\<rparr>"
  have m: "radix_ok 1 ?m" "radix_entries ?m = ?es" using radix_okI [OF es _ refl, of 1] by simp_all
  have "from_sorted_iter 1 ?es = Some ?m" using from_sorted_iter_ok [OF _ es, of 1] by simp
  moreover note steps = entries_iterator_refines_deque [OF m(1), unfolded m(2)]
  obtain it where it: "iter_next (ordered_entries ?m) = Some (Some (5, True), it)" "iter_ok ?es it" "iter_rest it = [(300, False), (70000, True)]"
    using steps by fastforce
  moreover obtain it' where "iter_next_back it = Some (Some (70000, True), it')" "iter_rest it' = [(300, False)]"
    using steps it(2,3) by fastforce
  ultimately show ?thesis by blast
qed

end
