(* ===== verification/Cell_Store.thy ===== *)
theory Cell_Store
  imports Cell Radix_Walk
begin

text \<open>The cell store of a sheet (\<open>CellStore\<close> and \<open>CellsIn\<close> of \<open>workbook.rs\<close>): a persistent radix map
from row-major keys to cells with a count, and the walk over the stored cells of a rectangle that
steps from cell to cell and jumps to the rectangle's next row after a run of cells outside its
columns.  \<open>None\<close> is a panic of the radix map.\<close>

section \<open>The store\<close>

definition row_key :: "u32 \<Rightarrow> u32 \<Rightarrow> u128" where
  "row_key row column = of_nat (u32_sub row 1) * of_nat EXCEL_MAX_COLUMNS + of_nat (u32_sub column 1)"

definition store_key :: "cell_address \<Rightarrow> u128" where
  "store_key address = row_key (addr_row address) (addr_column address)"

record 'n cell_store =
  store_cells :: "'n cell radix_map"
  store_len :: nat

definition store_default :: "'n cell_store" where
  "store_default = \<lparr>store_cells = radix_default, store_len = 0\<rparr>"

text \<open>\<open>from_sorted\<close> takes an ordered map of cells by key.\<close>

definition store_from_sorted :: "nat \<Rightarrow> (u128 \<times> 'n cell) list \<Rightarrow> 'n cell_store option" where
  "store_from_sorted capacity cells =
    map_option (\<lambda>m. \<lparr>store_cells = m, store_len = length cells\<rparr>) (from_sorted_iter capacity cells)"

definition store_get :: "'n cell_store \<Rightarrow> cell_address \<Rightarrow> 'n cell option" where
  "store_get s address = radix_get (store_cells s) (store_key address)"

definition store_contains_key :: "'n cell_store \<Rightarrow> cell_address \<Rightarrow> bool" where
  "store_contains_key s address = (store_get s address \<noteq> None)"

definition store_insert :: "nat \<Rightarrow> cell_address \<Rightarrow> 'n cell \<Rightarrow> 'n cell_store \<Rightarrow> ('n cell_store \<times> bool) option" where
  "store_insert capacity address c s =
    map_option (\<lambda>(m, previous).
        (\<lparr>store_cells = m, store_len = store_len s + (if previous = None then 1 else 0)\<rparr>, previous \<noteq> None))
      (radix_insert capacity (store_key address) c (store_cells s))"

definition store_remove :: "nat \<Rightarrow> cell_address \<Rightarrow> 'n cell_store \<Rightarrow> ('n cell_store \<times> bool) option" where
  "store_remove capacity address s =
    (if radix_get (store_cells s) (store_key address) = None then Some (s, False)
     else map_option (\<lambda>(m, removed).
        (\<lparr>store_cells = m, store_len = store_len s - (if removed = None then 0 else 1)\<rparr>, removed \<noteq> None))
      (radix_remove capacity (store_key address) (store_cells s)))"

text \<open>\<open>values\<close> drained from the front.\<close>

definition store_values :: "'n cell_store \<Rightarrow> 'n cell list" where
  "store_values s = map snd (radix_entries (store_cells s))"

section \<open>The cells of a rectangle\<close>

definition CELLS_IN_SEEK_AFTER :: u32 where
  "CELLS_IN_SEEK_AFTER = 8"

record 'n cells_in =
  ci_cursor :: "'n cell radix_cursor"
  ci_row_end :: u32
  ci_column_start :: u32
  ci_column_end :: u32
  ci_skipped :: u32

definition store_cells_in :: "'n cell_store \<Rightarrow> u32 \<Rightarrow> u32 \<Rightarrow> u32 \<Rightarrow> u32 \<Rightarrow> 'n cells_in" where
  "store_cells_in s row_start row_end column_start column_end =
    (let start = max row_start 1; first_column = max column_start 1
     in \<lparr>ci_cursor = entries_from (store_cells s) (row_key start first_column),
         ci_row_end = row_end, ci_column_start = first_column, ci_column_end = column_end, ci_skipped = 0\<rparr>)"

partial_function (option) cells_in_next :: "'n cells_in \<Rightarrow> ('n cell option \<times> 'n cells_in) option" where
  "cells_in_next s =
    Option.bind (cursor_next (ci_cursor s)) (\<lambda>(entry, cursor).
      case entry of
        None \<Rightarrow> Some (None, s\<lparr>ci_cursor := cursor\<rparr>)
      | Some (_, c) \<Rightarrow>
          let row = addr_row (cell_addr c); column = addr_column (cell_addr c)
          in if row > ci_row_end s then Some (None, s\<lparr>ci_cursor := cursor, ci_row_end := 0\<rparr>)
             else if ci_column_start s \<le> column \<and> column \<le> ci_column_end s
             then Some (Some c, s\<lparr>ci_cursor := cursor, ci_skipped := 0\<rparr>)
             else if u32_add (ci_skipped s) 1 \<noteq> CELLS_IN_SEEK_AFTER
             then cells_in_next (s\<lparr>ci_cursor := cursor, ci_skipped := u32_add (ci_skipped s) 1\<rparr>)
             else if column < ci_column_start s
             then cells_in_next (s\<lparr>ci_cursor := seek (row_key row (ci_column_start s)) cursor, ci_skipped := 0\<rparr>)
             else if row < ci_row_end s
             then cells_in_next (s\<lparr>ci_cursor := seek (row_key (u32_add row 1) (ci_column_start s)) cursor, ci_skipped := 0\<rparr>)
             else Some (None, s\<lparr>ci_cursor := cursor, ci_row_end := 0, ci_skipped := 0\<rparr>))"

section \<open>Keys in row-major order\<close>

lemma unat_of_nat_small: "n < 2 ^ 128 \<Longrightarrow> unat (of_nat n :: u128) = n"
  by (simp add: unsigned_of_nat take_bit_nat_eq_self)

lemma row_key_nat:
  assumes "1 \<le> row" "row < u32_bound" "1 \<le> column" "column < u32_bound"
  shows "unat (row_key row column) = (row - 1) * 16384 + (column - 1)"
proof -
  have "row_key row column = of_nat ((row - 1) * 16384 + (column - 1))"
    using assms by (simp add: row_key_def u32_sub_exact EXCEL_MAX_COLUMNS_def)
  moreover have "(row - 1) * 16384 + (column - 1) < 2 ^ 128" using assms by simp
  ultimately show ?thesis by (simp only: unat_of_nat_small)
qed

lemma store_key_nat:
  assumes "valid_address a"
  shows "unat (store_key a) = (addr_row a - 1) * 16384 + (addr_column a - 1)"
  using assms by (simp add: store_key_def row_key_nat valid_address_def excel_max)

text \<open>The order of the keys is row-major as long as the column is on the sheet.\<close>

lemma key_before:
  assumes "valid_address a" "1 \<le> row" "row < u32_bound" "1 \<le> column" "column \<le> 16384"
  shows "store_key a < row_key row column \<longleftrightarrow>
    addr_row a < row \<or> addr_row a = row \<and> addr_column a < column"
proof -
  have a: "1 \<le> addr_row a" "1 \<le> addr_column a" "addr_column a \<le> 16384" using assms(1) by (auto simp: valid_address_def excel_max)
  have "store_key a < row_key row column \<longleftrightarrow>
      (addr_row a - 1) * 16384 + (addr_column a - 1) < (row - 1) * 16384 + (column - 1)"
    using assms by (simp add: word_less_nat_alt store_key_nat row_key_nat)
  also have "\<dots> \<longleftrightarrow> addr_row a < row \<or> addr_row a = row \<and> addr_column a < column"
    using a assms(2,4,5) by linarith
  finally show ?thesis .
qed

lemma store_key_less:
  assumes "valid_address a" "valid_address b"
  shows "store_key a < store_key b \<longleftrightarrow> a < b"
proof -
  have "store_key a < row_key (addr_row b) (addr_column b) \<longleftrightarrow>
      addr_row a < addr_row b \<or> addr_row a = addr_row b \<and> addr_column a < addr_column b"
    by (rule key_before) (use assms in \<open>auto simp: valid_address_def excel_max\<close>)
  then show ?thesis by (simp add: store_key_def less_cell_address_def)
qed

lemma store_key_inj: "valid_address a \<Longrightarrow> valid_address b \<Longrightarrow> store_key a = store_key b \<longleftrightarrow> a = b"
  using store_key_less [of a b] store_key_less [of b a] by (metis less_irrefl linorder_neqE)

section \<open>The invariant\<close>

definition entry_ok :: "u128 \<times> 'n cell \<Rightarrow> bool" where
  "entry_ok e = (valid_address (cell_addr (snd e)) \<and> fst e = store_key (cell_addr (snd e)))"

definition store_ok :: "nat \<Rightarrow> 'n cell_store \<Rightarrow> bool" where
  "store_ok capacity s =
    (radix_ok capacity (store_cells s) \<and> list_all entry_ok (radix_entries (store_cells s)) \<and>
     store_len s = length (radix_entries (store_cells s)))"

lemma store_default_ok: "0 < capacity \<Longrightarrow> store_ok capacity store_default"
  by (simp add: store_ok_def store_default_def radix_default_ok)

lemma map_insert_entries: "list_all P m \<Longrightarrow> P (k, v) \<Longrightarrow> list_all P (map_insert k v m)"
  by (induction k v m rule: map_insert.induct) auto

lemma store_insert_ok:
  assumes "store_ok capacity s" "0 < capacity" "valid_address a" "cell_addr c = a"
  obtains s' where "store_insert capacity a c s = Some (s', store_contains_key s a)" "store_ok capacity s'"
    "radix_entries (store_cells s') = map_insert (store_key a) c (radix_entries (store_cells s))"
proof -
  let ?es = "radix_entries (store_cells s)" and ?m = "radix_put capacity (store_key a) c (store_cells s)"
  have ok: "radix_ok capacity (store_cells s)" using assms(1) by (simp add: store_ok_def)
  note put = radix_put_ok [OF ok assms(2), of "store_key a" c]
  have "radix_insert capacity (store_key a) c (store_cells s) = Some (?m, store_get s a)"
    using radix_insert_ok [OF ok assms(2), of "store_key a" c] by (simp add: radix_put_def store_get_def)
  then have "store_insert capacity a c s =
      Some (\<lparr>store_cells = ?m, store_len = store_len s + (if store_get s a = None then 1 else 0)\<rparr>, store_contains_key s a)"
    by (simp add: store_insert_def store_contains_key_def)
  moreover have "list_all entry_ok (map_insert (store_key a) c ?es)"
    using assms by (intro map_insert_entries) (auto simp: store_ok_def entry_ok_def)
  moreover have "map_get ?es (store_key a) = store_get s a"
    using radix_get_entries [OF ok assms(2)] by (simp add: store_get_def)
  ultimately show thesis
    using that put assms(1) length_map_insert [of ?es "store_key a" c]
    by (simp add: store_ok_def radix_ok_def)
qed

lemma store_remove_ok:
  assumes "store_ok capacity s" "0 < capacity"
  obtains s' where "store_remove capacity a s = Some (s', store_contains_key s a)" "store_ok capacity s'"
    "radix_entries (store_cells s') = map_remove (store_key a) (radix_entries (store_cells s))"
proof -
  let ?es = "radix_entries (store_cells s)" and ?m = "radix_del capacity (store_key a) (store_cells s)"
  have ok: "radix_ok capacity (store_cells s)" "map_ok ?es" using assms(1) by (simp_all add: store_ok_def radix_ok_def)
  note del = radix_del_ok [OF ok(1) assms(2), of "store_key a"]
  have get: "map_get ?es (store_key a) = store_get s a"
    using radix_get_entries [OF ok(1) assms(2)] by (simp add: store_get_def)
  show thesis
  proof (cases "store_get s a")
    case None
    then have "map_remove (store_key a) ?es = ?es"
      using get unfolding map_remove_def filter_id_conv by (force simp: map_get_None map_keys_def)
    then show thesis
      using that [of s] None assms(1) by (simp add: store_remove_def store_get_def store_contains_key_def)
  next
    case (Some c)
    have "radix_remove capacity (store_key a) (store_cells s) = Some (?m, store_get s a)"
      using radix_remove_ok [OF ok(1) assms(2), of "store_key a"] by (simp add: radix_del_def store_get_def)
    then have "store_remove capacity a s = Some (\<lparr>store_cells = ?m, store_len = store_len s - 1\<rparr>, store_contains_key s a)"
      using Some by (simp add: store_remove_def store_contains_key_def store_get_def)
    moreover have "list_all entry_ok (map_remove (store_key a) ?es)"
      using assms(1) by (auto simp: store_ok_def map_remove_def list_all_iff)
    ultimately show thesis
      using that del assms(1) length_map_remove [OF ok(2), of "store_key a"] get Some
      by (simp add: store_ok_def)
  qed
qed

lemma store_get_iff:
  assumes "store_ok capacity s" "0 < capacity" "valid_address a"
  shows "store_get s a = Some c \<longleftrightarrow> c \<in> set (store_values s) \<and> cell_addr c = a"
proof -
  let ?es = "radix_entries (store_cells s)"
  have ok: "radix_ok capacity (store_cells s)" "map_ok ?es" and entries: "list_all entry_ok ?es"
    using assms(1) by (simp_all add: store_ok_def radix_ok_def)
  have "store_get s a = Some c \<longleftrightarrow> (store_key a, c) \<in> set ?es"
    using radix_get_entries [OF ok(1) assms(2)] map_get_Some_entry [OF ok(2)] by (simp add: store_get_def)
  also have "\<dots> \<longleftrightarrow> c \<in> set (store_values s) \<and> cell_addr c = a"
  proof
    assume m: "(store_key a, c) \<in> set ?es"
    then have "valid_address (cell_addr c)" "store_key a = store_key (cell_addr c)"
      using entries by (auto simp: list_all_iff entry_ok_def)
    then show "c \<in> set (store_values s) \<and> cell_addr c = a"
      using m assms(3) store_key_inj by (force simp: store_values_def)
  next
    assume c: "c \<in> set (store_values s) \<and> cell_addr c = a"
    then obtain k where k: "(k, c) \<in> set ?es" by (auto simp: store_values_def)
    then have "k = store_key a" using entries c by (auto simp: list_all_iff entry_ok_def)
    then show "(store_key a, c) \<in> set ?es" using k by simp
  qed
  finally show ?thesis .
qed

lemma store_values_sorted:
  assumes "store_ok capacity s"
  shows "sorted_wrt (<) (map cell_addr (store_values s))"
proof -
  let ?es = "radix_entries (store_cells s)"
  have "sorted_wrt (<) (map fst ?es)" using assms by (simp add: store_ok_def radix_ok_def map_ok_def map_keys_def)
  then have "sorted_wrt (\<lambda>e e'. fst e < fst e') ?es" by (simp add: sorted_wrt_map)
  then have "sorted_wrt (\<lambda>e e'. cell_addr (snd e) < cell_addr (snd e')) ?es"
  proof (rule sorted_wrt_mono_rel [rotated])
    fix e e' assume "e \<in> set ?es" "e' \<in> set ?es" "fst e < fst e'"
    then show "cell_addr (snd e) < cell_addr (snd e')"
      using assms store_key_less by (auto simp: store_ok_def list_all_iff entry_ok_def)
  qed
  then show ?thesis by (simp add: store_values_def sorted_wrt_map comp_def)
qed

section \<open>The walk over a rectangle\<close>

definition ci_wanted :: "'n cells_in \<Rightarrow> 'n cell \<Rightarrow> bool" where
  "ci_wanted s c =
    (addr_row (cell_addr c) \<le> ci_row_end s \<and> ci_column_start s \<le> addr_column (cell_addr c) \<and>
     addr_column (cell_addr c) \<le> ci_column_end s)"

abbreviation ci_entries :: "'n cells_in \<Rightarrow> (u128 \<times> 'n cell) list" where
  "ci_entries s \<equiv> cursor_rest (ci_cursor s)"

text \<open>The cells a walk still has to return.\<close>

definition ci_rest :: "'n cells_in \<Rightarrow> 'n cell list" where
  "ci_rest s = filter (ci_wanted s) (map snd (ci_entries s))"

definition ci_ok :: "nat \<Rightarrow> (u128 \<times> 'n cell) list \<Rightarrow> 'n cells_in \<Rightarrow> bool" where
  "ci_ok capacity es s =
    (cursor_ok capacity es (ci_cursor s) \<and> list_all entry_ok es \<and> (\<exists>pre. es = pre @ ci_entries s) \<and>
     1 \<le> ci_column_start s \<and> ci_column_start s < u32_bound \<and> ci_skipped s < CELLS_IN_SEEK_AFTER)"

lemma ci_ok_entries: "ci_ok capacity es s \<Longrightarrow> e \<in> set (ci_entries s) \<Longrightarrow> entry_ok e"
  by (auto simp: ci_ok_def list_all_iff)

lemma ci_ok_sorted: "ci_ok capacity es s \<Longrightarrow> map_ok (ci_entries s)"
  by (auto simp: ci_ok_def cursor_ok_def map_ok_def map_keys_def sorted_wrt_append)

lemma later_cell:
  assumes "ci_ok capacity es s" "ci_entries s = e # rest" "e' \<in> set rest"
  shows "cell_addr (snd e) < cell_addr (snd e')" "valid_address (cell_addr (snd e'))" "fst e' = store_key (cell_addr (snd e'))"
proof -
  have "fst e < fst e'" using ci_ok_sorted [OF assms(1)] assms(2,3) by (auto simp: map_ok_def map_keys_def)
  moreover have e: "entry_ok e" "entry_ok e'" using ci_ok_entries [OF assms(1)] assms(2,3) by auto
  ultimately show "cell_addr (snd e) < cell_addr (snd e')" using store_key_less by (auto simp: entry_ok_def)
  show "valid_address (cell_addr (snd e'))" "fst e' = store_key (cell_addr (snd e'))" using e by (auto simp: entry_ok_def)
qed

text \<open>A jump over cells that are not wanted loses nothing.\<close>

lemma seek_wanted:
  assumes ok: "ci_ok capacity es s" "0 < capacity" and rest: "ci_entries s = e # rest"
    and cursor: "cursor_ok capacity es cursor"
    and key: "fst e < key" "\<And>e'. e' \<in> set rest \<Longrightarrow> ci_wanted s (snd e') \<Longrightarrow> key \<le> fst e'"
  shows "ci_ok capacity es (s\<lparr>ci_cursor := seek key cursor, ci_skipped := 0\<rparr>)"
    and "length (ci_entries (s\<lparr>ci_cursor := seek key cursor, ci_skipped := 0\<rparr>)) < length (ci_entries s)"
    and "ci_rest (s\<lparr>ci_cursor := seek key cursor, ci_skipped := 0\<rparr>) = filter (ci_wanted s) (map snd rest)"
proof -
  obtain pre where es: "es = pre @ e # rest" using ok(1) rest by (auto simp: ci_ok_def)
  have "map_ok es" using cursor by (simp add: cursor_ok_def)
  then have "fst x < fst e" if "x \<in> set pre" for x
    using that by (auto simp: es map_ok_def map_keys_def sorted_wrt_append)
  then have "at_least key pre = []" using key(1) by (intro at_least_none) (auto dest: less_trans)
  then have jump: "cursor_rest (seek key cursor) = at_least key rest"
    using seek_rest(2) [OF cursor ok(2)] key(1) by (simp add: es at_least_def not_le)
  have sorted: "map_ok rest" using ci_ok_sorted [OF ok(1)] rest by (simp add: map_ok_def map_keys_def)
  have suffix: "\<exists>pre'. rest = pre' @ at_least key rest"
    using dropWhile_at_least [OF sorted, of key] takeWhile_dropWhile_id by metis
  then have "\<exists>pre. es = pre @ at_least key rest" by (metis append.assoc append_Cons es)
  then show "ci_ok capacity es (s\<lparr>ci_cursor := seek key cursor, ci_skipped := 0\<rparr>)"
    using ok seek_rest(1) [OF cursor ok(2)] jump by (simp add: ci_ok_def CELLS_IN_SEEK_AFTER_def)
  show "length (ci_entries (s\<lparr>ci_cursor := seek key cursor, ci_skipped := 0\<rparr>)) < length (ci_entries s)"
    using jump rest by (simp add: at_least_def less_Suc_eq_le)
  have "filter (ci_wanted s) (map snd (at_least key rest)) = filter (ci_wanted s) (map snd rest)"
    unfolding at_least_def filter_map filter_filter comp_def
    by (rule arg_cong [where f = "map snd"], rule filter_cong) (use key(2) in auto)
  then show "ci_rest (s\<lparr>ci_cursor := seek key cursor, ci_skipped := 0\<rparr>) = filter (ci_wanted s) (map snd rest)"
    using jump by (simp add: ci_rest_def ci_wanted_def [abs_def])
qed

lemma jump_same_row:
  assumes ok: "ci_ok capacity es s" and rest: "ci_entries s = (k, c) # rest"
    and column: "addr_column (cell_addr c) < ci_column_start s"
  shows "k < row_key (addr_row (cell_addr c)) (ci_column_start s)"
    and "e' \<in> set rest \<Longrightarrow> ci_wanted s (snd e') \<Longrightarrow> row_key (addr_row (cell_addr c)) (ci_column_start s) \<le> fst e'"
proof -
  let ?a = "cell_addr c" and ?start = "ci_column_start s"
  have a: "valid_address ?a" "k = store_key ?a" using ci_ok_entries [OF ok, of "(k, c)"] rest by (auto simp: entry_ok_def)
  have b: "1 \<le> addr_row ?a" "addr_row ?a < u32_bound" "1 \<le> ?start" "?start < u32_bound"
    using a ok by (auto simp: valid_address_def excel_max ci_ok_def)
  show "k < row_key (addr_row ?a) ?start"
  proof -
    have "1 \<le> addr_column ?a" using a by (simp add: valid_address_def)
    then have "(addr_row ?a - 1) * 16384 + (addr_column ?a - 1) < (addr_row ?a - 1) * 16384 + (?start - 1)"
      using column by linarith
    then show ?thesis using a b by (simp only: word_less_nat_alt store_key_nat row_key_nat)
  qed
  assume e': "e' \<in> set rest" "ci_wanted s (snd e')"
  note l = later_cell [OF ok rest e'(1)]
  have "?start \<le> addr_column (cell_addr (snd e'))" using e'(2) by (simp add: ci_wanted_def)
  moreover then have "?start \<le> 16384" using l(2) by (simp add: valid_address_def excel_max)
  ultimately show "row_key (addr_row ?a) ?start \<le> fst e'"
    using key_before [OF l(2) b(1,2,3)] l(1,3) by (auto simp: less_cell_address_def not_less [symmetric])
qed

lemma jump_next_row:
  assumes ok: "ci_ok capacity es s" and rest: "ci_entries s = (k, c) # rest"
    and column: "ci_column_end s < addr_column (cell_addr c)"
  shows "k < row_key (addr_row (cell_addr c) + 1) (ci_column_start s)"
    and "e' \<in> set rest \<Longrightarrow> ci_wanted s (snd e') \<Longrightarrow> row_key (addr_row (cell_addr c) + 1) (ci_column_start s) \<le> fst e'"
    and "e' \<in> set rest \<Longrightarrow> ci_wanted s (snd e') \<Longrightarrow> addr_row (cell_addr c) < addr_row (cell_addr (snd e'))"
proof -
  let ?a = "cell_addr c" and ?start = "ci_column_start s"
  have a: "valid_address ?a" "k = store_key ?a" using ci_ok_entries [OF ok, of "(k, c)"] rest by (auto simp: entry_ok_def)
  have b: "1 \<le> addr_row ?a + 1" "addr_row ?a + 1 < u32_bound" "1 \<le> ?start" "?start < u32_bound"
    using a ok by (auto simp: valid_address_def excel_max ci_ok_def)
  have "1 \<le> addr_row ?a" "1 \<le> addr_column ?a" "addr_column ?a \<le> 16384" using a by (auto simp: valid_address_def excel_max)
  then show "k < row_key (addr_row ?a + 1) ?start"
    using a b by (simp add: word_less_nat_alt store_key_nat row_key_nat)
  assume e': "e' \<in> set rest" "ci_wanted s (snd e')"
  note l = later_cell [OF ok rest e'(1)]
  show later: "addr_row ?a < addr_row (cell_addr (snd e'))"
    using l(1) e'(2) column by (auto simp: less_cell_address_def ci_wanted_def)
  have "?start \<le> addr_column (cell_addr (snd e'))" using e'(2) by (simp add: ci_wanted_def)
  moreover then have "?start \<le> 16384" using l(2) by (simp add: valid_address_def excel_max)
  ultimately show "row_key (addr_row ?a + 1) ?start \<le> fst e'"
    using key_before [OF l(2) b(1,2,3)] l(3) later by (auto simp: not_less [symmetric])
qed

text \<open>Every step returns the next wanted cell, and the walk ends.\<close>

theorem cells_in_next_rest:
  assumes "ci_ok capacity es s" "0 < capacity"
  shows "\<exists>s'. cells_in_next s = Some (case ci_rest s of [] \<Rightarrow> None | c # _ \<Rightarrow> Some c, s') \<and>
    ci_ok capacity es s' \<and> ci_rest s' = tl (ci_rest s)"
  using assms(1)
proof (induction "length (ci_entries s)" arbitrary: s rule: less_induct)
  case less
  let ?result = "\<lambda>r. \<exists>s'. r = Some (case ci_rest s of [] \<Rightarrow> None | c # _ \<Rightarrow> Some c, s') \<and>
    ci_ok capacity es s' \<and> ci_rest s' = tl (ci_rest s)"
  have cok: "cursor_ok capacity es (ci_cursor s)" using less.prems by (simp add: ci_ok_def)
  obtain cur where cur: "cursor_next (ci_cursor s) = Some (case ci_entries s of [] \<Rightarrow> None | e # _ \<Rightarrow> Some e, cur)"
    "cursor_ok capacity es cur" "cursor_rest cur = tl (ci_entries s)" by (rule cursor_next_rest [OF cok])
  have after: "ci_ok capacity es (s\<lparr>ci_cursor := cur, ci_row_end := r, ci_skipped := n\<rparr>)"
    if "n < CELLS_IN_SEEK_AFTER" for r n
  proof -
    obtain pre where "es = pre @ ci_entries s" using less.prems by (auto simp: ci_ok_def)
    then have "es = (pre @ take 1 (ci_entries s)) @ tl (ci_entries s)" by (cases "ci_entries s") auto
    then show ?thesis using less.prems cur(2,3) that by (auto simp: ci_ok_def)
  qed
  have skipped: "ci_skipped s < CELLS_IN_SEEK_AFTER" using less.prems by (simp add: ci_ok_def)
  show ?case
  proof (cases "ci_entries s")
    case Nil
    then show ?thesis
      using cur after [OF skipped, of "ci_row_end s"] by (subst cells_in_next.simps) (simp add: ci_rest_def)
  next
    case (Cons e rest)
    obtain k c where e: "e = (k, c)" by fastforce
    note rest = Cons [unfolded e]
    let ?row = "addr_row (cell_addr c)" and ?column = "addr_column (cell_addr c)"
    have valid: "valid_address (cell_addr c)" using ci_ok_entries [OF less.prems, of e] Cons by (simp add: entry_ok_def e)
    have rows: "1 \<le> addr_row (cell_addr (snd e'))" if "e' \<in> set rest" for e'
      using later_cell(2) [OF less.prems Cons that] by (simp add: valid_address_def)
    have tl_rest: "ci_rest s = (if ci_wanted s c then [c] else []) @ filter (ci_wanted s) (map snd rest)"
      using rest by (simp add: ci_rest_def)
    have ended: "ci_rest (s\<lparr>ci_cursor := cur, ci_row_end := 0, ci_skipped := n\<rparr>) = []" for n
      using cur(3) Cons rows by (fastforce simp: ci_rest_def ci_wanted_def filter_empty_conv)
    let ?r = "(if ?row > ci_row_end s then Some (None, s\<lparr>ci_cursor := cur, ci_row_end := 0\<rparr>)
        else if ci_column_start s \<le> ?column \<and> ?column \<le> ci_column_end s
        then Some (Some c, s\<lparr>ci_cursor := cur, ci_skipped := 0\<rparr>)
        else if u32_add (ci_skipped s) 1 \<noteq> CELLS_IN_SEEK_AFTER
        then cells_in_next (s\<lparr>ci_cursor := cur, ci_skipped := u32_add (ci_skipped s) 1\<rparr>)
        else if ?column < ci_column_start s
        then cells_in_next (s\<lparr>ci_cursor := seek (row_key ?row (ci_column_start s)) cur, ci_skipped := 0\<rparr>)
        else if ?row < ci_row_end s
        then cells_in_next (s\<lparr>ci_cursor := seek (row_key (u32_add ?row 1) (ci_column_start s)) cur, ci_skipped := 0\<rparr>)
        else Some (None, s\<lparr>ci_cursor := cur, ci_row_end := 0, ci_skipped := 0\<rparr>))"
    have step: "?result ?r"
    proof -
      consider (below) "ci_row_end s < ?row" | (found) "ci_wanted s c"
        | (skip) "?row \<le> ci_row_end s" "\<not> ci_wanted s c" "u32_add (ci_skipped s) 1 \<noteq> CELLS_IN_SEEK_AFTER"
        | (left) "?row \<le> ci_row_end s" "\<not> ci_wanted s c" "u32_add (ci_skipped s) 1 = CELLS_IN_SEEK_AFTER" "?column < ci_column_start s"
        | (right) "?row \<le> ci_row_end s" "\<not> ci_wanted s c" "u32_add (ci_skipped s) 1 = CELLS_IN_SEEK_AFTER" "\<not> ?column < ci_column_start s"
        by (fastforce simp: ci_wanted_def)
      then show ?thesis
      proof cases
        case below
        have "addr_row (cell_addr c) \<le> addr_row (cell_addr (snd e'))" if "e' \<in> set rest" for e'
          using later_cell(1) [OF less.prems Cons that] e by (auto simp: less_cell_address_def)
        then have "ci_rest s = []" using below by (fastforce simp: tl_rest ci_wanted_def filter_empty_conv)
        moreover have "s\<lparr>ci_cursor := cur, ci_row_end := 0\<rparr> = s\<lparr>ci_cursor := cur, ci_row_end := 0, ci_skipped := ci_skipped s\<rparr>"
          by simp
        ultimately show ?thesis using below ended [of "ci_skipped s"] after [OF skipped, of 0] by simp
      next
        case found
        have "ci_ok capacity es (s\<lparr>ci_cursor := cur, ci_skipped := 0\<rparr>)"
          using after [of 0 "ci_row_end s"] by (simp add: CELLS_IN_SEEK_AFTER_def)
        moreover have "ci_rest (s\<lparr>ci_cursor := cur, ci_skipped := 0\<rparr>) = filter (ci_wanted s) (map snd rest)"
          using cur(3) Cons by (simp add: ci_rest_def ci_wanted_def [abs_def])
        ultimately show ?thesis using found tl_rest by (simp add: ci_wanted_def)
      next
        case skip
        have out: "(ci_column_start s \<le> ?column \<and> ?column \<le> ci_column_end s) = False" using skip(1,2) by (auto simp: ci_wanted_def)
        have add: "u32_add (ci_skipped s) 1 = ci_skipped s + 1" using skipped by (simp add: u32_add_def CELLS_IN_SEEK_AFTER_def)
        let ?s = "s\<lparr>ci_cursor := cur, ci_skipped := u32_add (ci_skipped s) 1\<rparr>"
        have "ci_ok capacity es ?s" using after [of "u32_add (ci_skipped s) 1" "ci_row_end s"] skip(3) skipped add by simp
        moreover have "ci_rest ?s = ci_rest s" using cur(3) Cons skip(2) tl_rest by (simp add: ci_rest_def ci_wanted_def [abs_def])
        moreover have "length (ci_entries ?s) < length (ci_entries s)" using cur(3) Cons by simp
        ultimately have "?result (cells_in_next ?s)" using less.hyps [of ?s] by simp
        then show ?thesis using skip by (simp add: out)
      next
        case left
        have out: "(ci_column_start s \<le> ?column \<and> ?column \<le> ci_column_end s) = False" using left(1,2) by (auto simp: ci_wanted_def)
        note jump = jump_same_row [OF less.prems rest left(4)]
        have low: "fst (k, c) < row_key ?row (ci_column_start s)" using jump(1) by simp
        note sk = seek_wanted [OF less.prems assms(2) rest cur(2) low jump(2)]
        show ?thesis using less.hyps [OF sk(2,1)] sk(3) left tl_rest by (simp add: out)
      next
        case right
        have out: "(ci_column_start s \<le> ?column \<and> ?column \<le> ci_column_end s) = False" using right(1,2) by (auto simp: ci_wanted_def)
        have column: "ci_column_end s < ?column" using right by (auto simp: ci_wanted_def)
        note jump = jump_next_row [OF less.prems rest column]
        show ?thesis
        proof (cases "?row < ci_row_end s")
          case True
          have add: "u32_add ?row 1 = ?row + 1" using valid by (simp add: u32_add_def valid_address_def excel_max)
          have low: "fst (k, c) < row_key (?row + 1) (ci_column_start s)" using jump(1) by simp
          note sk = seek_wanted [OF less.prems assms(2) rest cur(2) low jump(2)]
          show ?thesis using less.hyps [OF sk(2,1)] sk(3) right True tl_rest add column by (simp add: out)
        next
          case False
          have "ci_rest s = []"
            using right False jump(3) by (fastforce simp: tl_rest ci_wanted_def filter_empty_conv)
          then show ?thesis
            using right False column ended [of 0] after [of 0 0] by (simp add: out CELLS_IN_SEEK_AFTER_def)
        qed
      qed
    qed
    have "cells_in_next s = ?r"
      by (subst cells_in_next.simps) (simp add: cur(1) Cons e Let_def)
    then show ?thesis using step by simp
  qed
qed

text \<open>Draining a walk.\<close>

fun cells_in_take :: "nat \<Rightarrow> 'n cells_in \<Rightarrow> 'n cell list option" where
  "cells_in_take 0 s = Some []"
| "cells_in_take (Suc n) s =
    Option.bind (cells_in_next s) (\<lambda>(c, s').
      case c of None \<Rightarrow> Some [] | Some c \<Rightarrow> map_option ((#) c) (cells_in_take n s'))"

lemma cells_in_take_rest:
  assumes "ci_ok capacity es s" "0 < capacity"
  shows "cells_in_take n s = Some (take n (ci_rest s))"
  using assms(1)
proof (induction n arbitrary: s)
  case (Suc n)
  obtain s' where s': "cells_in_next s = Some (case ci_rest s of [] \<Rightarrow> None | c # _ \<Rightarrow> Some c, s')"
    "ci_ok capacity es s'" "ci_rest s' = tl (ci_rest s)"
    using cells_in_next_rest [OF Suc.prems assms(2)] by blast
  show ?case using s' Suc.IH [OF s'(2)] by (cases "ci_rest s") auto
qed simp

lemma store_cells_in_rest:
  assumes "store_ok capacity s" "0 < capacity" "row_start < u32_bound" "column_start < u32_bound"
  shows "ci_ok capacity (radix_entries (store_cells s)) (store_cells_in s row_start row_end column_start column_end)"
    and "ci_rest (store_cells_in s row_start row_end column_start column_end) =
      filter (\<lambda>c. row_start \<le> addr_row (cell_addr c) \<and> addr_row (cell_addr c) \<le> row_end \<and>
        column_start \<le> addr_column (cell_addr c) \<and> addr_column (cell_addr c) \<le> column_end) (store_values s)"
proof -
  let ?es = "radix_entries (store_cells s)" and ?r = "max row_start 1" and ?c = "max column_start 1"
  let ?walk = "store_cells_in s row_start row_end column_start column_end"
  have ok: "radix_ok capacity (store_cells s)" "map_ok ?es" and entries: "list_all entry_ok ?es"
    using assms(1) by (simp_all add: store_ok_def radix_ok_def)
  note cursor = entries_from_rest [OF ok(1) assms(2), of "row_key ?r ?c"]
  have "\<exists>pre. ?es = pre @ at_least (row_key ?r ?c) ?es"
    using dropWhile_at_least [OF ok(2)] takeWhile_dropWhile_id by metis
  then show "ci_ok capacity ?es ?walk"
    using cursor entries assms(4) by (simp add: ci_ok_def store_cells_in_def Let_def CELLS_IN_SEEK_AFTER_def)
  have "row_key ?r ?c \<le> fst e \<and> ci_wanted ?walk (snd e) \<longleftrightarrow>
      row_start \<le> addr_row (cell_addr (snd e)) \<and> addr_row (cell_addr (snd e)) \<le> row_end \<and>
      column_start \<le> addr_column (cell_addr (snd e)) \<and> addr_column (cell_addr (snd e)) \<le> column_end"
    if e: "e \<in> set ?es" for e
  proof -
    have a: "valid_address (cell_addr (snd e))" "fst e = store_key (cell_addr (snd e))"
      using e entries by (auto simp: list_all_iff entry_ok_def)
    have w: "ci_wanted ?walk (snd e) \<longleftrightarrow> addr_row (cell_addr (snd e)) \<le> row_end \<and>
        column_start \<le> addr_column (cell_addr (snd e)) \<and> addr_column (cell_addr (snd e)) \<le> column_end"
      using a(1) by (auto simp: ci_wanted_def store_cells_in_def Let_def valid_address_def)
    show ?thesis
    proof (cases "column_start \<le> 16384")
      case True
      have "row_key ?r ?c \<le> fst e \<longleftrightarrow> \<not> (addr_row (cell_addr (snd e)) < ?r \<or>
          addr_row (cell_addr (snd e)) = ?r \<and> addr_column (cell_addr (snd e)) < ?c)"
        using key_before [OF a(1), of ?r ?c] a(2) assms(3) True by (simp add: not_less [symmetric])
      then show ?thesis using w a(1) by (auto simp: valid_address_def)
    next
      case False
      then have "\<not> column_start \<le> addr_column (cell_addr (snd e))" using a(1) by (auto simp: valid_address_def excel_max)
      then show ?thesis using w by blast
    qed
  qed
  then have "filter (\<lambda>e. row_key ?r ?c \<le> fst e \<and> ci_wanted ?walk (snd e)) ?es =
      filter (\<lambda>e. row_start \<le> addr_row (cell_addr (snd e)) \<and> addr_row (cell_addr (snd e)) \<le> row_end \<and>
        column_start \<le> addr_column (cell_addr (snd e)) \<and> addr_column (cell_addr (snd e)) \<le> column_end) ?es"
    by (intro filter_cong) auto
  moreover have "ci_entries ?walk = at_least (row_key ?r ?c) ?es"
    using cursor(2) by (simp add: store_cells_in_def Let_def)
  ultimately show "ci_rest ?walk = filter (\<lambda>c. row_start \<le> addr_row (cell_addr c) \<and> addr_row (cell_addr c) \<le> row_end \<and>
        column_start \<le> addr_column (cell_addr c) \<and> addr_column (cell_addr c) \<le> column_end) (store_values s)"
    by (simp add: ci_rest_def store_values_def filter_map comp_def at_least_def)
qed

section \<open>Properties\<close>

text \<open>C30: The walk over a rectangle returns exactly the stored cells of the rectangle, in row-major order,
whatever cells it jumps over: for every number of steps the cells returned are the first ones of
that list, no step panics or runs forever, and after them the walk returns nothing.\<close>

theorem cells_in_exact:
  assumes "store_ok capacity s" "0 < capacity" "row_start < u32_bound" "column_start < u32_bound"
  shows "cells_in_take n (store_cells_in s row_start row_end column_start column_end) =
      Some (take n (filter (\<lambda>c. row_start \<le> addr_row (cell_addr c) \<and> addr_row (cell_addr c) \<le> row_end \<and>
        column_start \<le> addr_column (cell_addr c) \<and> addr_column (cell_addr c) \<le> column_end) (store_values s))) \<and>
    sorted_wrt (<) (map cell_addr (store_values s))"
  using cells_in_take_rest [OF store_cells_in_rest(1) [OF assms] assms(2)] store_cells_in_rest(2) [OF assms]
    store_values_sorted [OF assms(1)] by simp

theorem cells_in_exact_witness:
  "\<exists>s'. store_insert 4 (CellAddress 2 3) (cell_with_number_format (CellAddress 2 3) (Literal (Blank :: nat cell_value)) number_format_default)
      store_default = Some (s', False) \<and>
    cells_in_take 5 (store_cells_in s' 1 9 2 4) =
      Some [cell_with_number_format (CellAddress 2 3) (Literal Blank) number_format_default]"
proof -
  let ?c = "cell_with_number_format (CellAddress 2 3) (Literal (Blank :: nat cell_value)) number_format_default"
  let ?d = "store_default :: nat cell_store"
  have v: "valid_address (CellAddress 2 3)" "cell_addr ?c = CellAddress 2 3"
    by (simp_all add: valid_address_def excel_max cell_with_number_format_def)
  have d: "store_ok 4 ?d" by (rule store_default_ok) simp
  obtain s' where s': "store_insert 4 (CellAddress 2 3) ?c ?d = Some (s', store_contains_key ?d (CellAddress 2 3))"
    "store_ok 4 s'" "radix_entries (store_cells s') =
      map_insert (store_key (CellAddress 2 3)) ?c (radix_entries (store_cells ?d))"
    by (rule store_insert_ok [OF d _ v]) simp_all
  have "store_values s' = [?c]" using s'(3) by (simp add: store_values_def store_default_def radix_default_ok(2))
  moreover have "\<not> store_contains_key ?d (CellAddress 2 3)"
    by (simp add: store_contains_key_def store_get_def store_default_def radix_get_def radix_default_def map_get_def)
  ultimately show ?thesis
    using s'(1) cells_in_exact [OF s'(2), of 1 2 5 9 4] v(2) by (auto simp: cell_with_number_format_def)
qed

end
