(* ===== verification/Sheet.thy ===== *)
theory Sheet
  imports Cell_Store
begin

text \<open>Sheets (\<open>Sheet\<close> and \<open>SheetBuilder\<close> of \<open>workbook.rs\<close>): the cell store with the indexes derived
from it (formula addresses, array ranges, the bounding rectangle and the last row of every column),
and the operations that keep them, some of which defer the bounds.

The sheet's name, tables, filters, validations, annotations and styles, which no operation here
reads, are the field \<open>sh_metadata\<close> of a type parameter; the cached fingerprint is not modelled.
Ordered sets are ordered maps to \<open>unit\<close>.  The outer option of an operation is a panic of the cell
store.\<close>

section \<open>State\<close>

record ('n, 'x) sheet =
  sh_cells :: "'n cell_store"
  formula_addresses :: "(cell_address \<times> unit) list"
  array_formula_ranges :: "(cell_address \<times> cell_range) list"
  column_max_rows :: "(u32 \<times> u32) list"
  bounds_dirty :: bool
  min_row :: "u32 option"
  min_column :: "u32 option"
  max_row :: "u32 option"
  max_column :: "u32 option"
  hidden_rows :: "u32 list"
  sh_metadata :: 'x

definition sheet_new :: "'x \<Rightarrow> ('n, 'x) sheet" where
  "sheet_new metadata =
    \<lparr>sh_cells = store_default, formula_addresses = [], array_formula_ranges = [], column_max_rows = [],
     bounds_dirty = False, min_row = None, min_column = None, max_row = None, max_column = None,
     hidden_rows = [], sh_metadata = metadata\<rparr>"

section \<open>Indexes\<close>

definition update_bounds :: "cell_address \<Rightarrow> ('n, 'x) sheet \<Rightarrow> ('n, 'x) sheet" where
  "update_bounds address s =
    s\<lparr>min_row := Some (case min_row s of None \<Rightarrow> addr_row address | Some row \<Rightarrow> min row (addr_row address)),
      min_column := Some (case min_column s of None \<Rightarrow> addr_column address | Some column \<Rightarrow> min column (addr_column address)),
      max_row := Some (case max_row s of None \<Rightarrow> addr_row address | Some row \<Rightarrow> max row (addr_row address)),
      max_column := Some (case max_column s of None \<Rightarrow> addr_column address | Some column \<Rightarrow> max column (addr_column address))\<rparr>"

definition update_column_extent :: "cell_address \<Rightarrow> ('n, 'x) sheet \<Rightarrow> ('n, 'x) sheet" where
  "update_column_extent address s =
    s\<lparr>column_max_rows := map_insert (addr_column address)
        (case map_get (column_max_rows s) (addr_column address) of
          Some row \<Rightarrow> max row (addr_row address) | None \<Rightarrow> addr_row address)
        (column_max_rows s)\<rparr>"

definition or_else :: "'a option \<Rightarrow> 'a option \<Rightarrow> 'a option" where
  "or_else x y = (case x of None \<Rightarrow> y | Some a \<Rightarrow> Some a)"

text \<open>The array range of a content at an address, when it covers more than one cell.\<close>

fun array_range :: "cell_address \<Rightarrow> 'n cell_content \<Rightarrow> cell_range option" where
  "array_range address (Formula formula) =
    Option.bind
      (or_else (legacy_array_range_at (fc_metadata formula) address)
        (Option.bind (dynamic_array_range_at (fc_metadata formula) address) (\<lambda>r. r)))
      (\<lambda>r. if range_height r > 1 \<or> range_width r > 1 then Some r else None)"
| "array_range address (Literal v) = None"

fun is_formula_content :: "'n cell_content \<Rightarrow> bool" where
  "is_formula_content (Formula _) = True"
| "is_formula_content (Literal _) = False"

definition track_formula_metadata :: "cell_address \<Rightarrow> 'n cell_content \<Rightarrow> ('n, 'x) sheet \<Rightarrow> ('n, 'x) sheet" where
  "track_formula_metadata address content s =
    s\<lparr>array_formula_ranges :=
        (case array_range address content of
          Some r \<Rightarrow> if map_get (array_formula_ranges s) address \<noteq> Some r
            then map_insert address r (array_formula_ranges s) else array_formula_ranges s
        | None \<Rightarrow> if map_get (array_formula_ranges s) address \<noteq> None
            then map_remove address (array_formula_ranges s) else array_formula_ranges s),
      formula_addresses :=
        (if is_formula_content content
         then if map_get (formula_addresses s) address = None
           then map_insert address () (formula_addresses s) else formula_addresses s
         else if map_get (formula_addresses s) address \<noteq> None
           then map_remove address (formula_addresses s) else formula_addresses s)\<rparr>"

definition rebuild_bounds :: "('n, 'x) sheet \<Rightarrow> ('n, 'x) sheet" where
  "rebuild_bounds s =
    (fold (\<lambda>address s. update_column_extent address (update_bounds address s))
      (map cell_addr (store_values (sh_cells s)))
      (s\<lparr>min_row := None, min_column := None, max_row := None, max_column := None, column_max_rows := []\<rparr>))
    \<lparr>bounds_dirty := False\<rparr>"

definition used_range :: "('n, 'x) sheet \<Rightarrow> cell_range option" where
  "used_range s =
    (case (min_row s, min_column s, max_row s, max_column s) of
      (Some r, Some c, Some r', Some c') \<Rightarrow> Some (from_ordered (CellAddress r c) (CellAddress r' c'))
    | _ \<Rightarrow> None)"

section \<open>Cells\<close>

definition sheet_cell :: "('n, 'x) sheet \<Rightarrow> cell_address \<Rightarrow> 'n cell option" where
  "sheet_cell s address = store_get (sh_cells s) address"

definition cell_by_a1 :: "('n, 'x) sheet \<Rightarrow> string \<Rightarrow> validation_error + 'n cell option" where
  "cell_by_a1 s txt = res_bind (from_a1 txt) (\<lambda>address. Inr (sheet_cell s address))"

definition insert_cell_with_number_format ::
  "nat \<Rightarrow> cell_address \<Rightarrow> 'n cell_content \<Rightarrow> number_format \<Rightarrow> ('n, 'x) sheet \<Rightarrow> (validation_error + ('n, 'x) sheet) option" where
  "insert_cell_with_number_format capacity address content format s =
    (if store_contains_key (sh_cells s) address
     then Some (Inl (DuplicateCell (addr_row address) (addr_column address)))
     else
       let s1 = update_column_extent address (update_bounds address (track_formula_metadata address content s))
       in map_option (\<lambda>(cells, _). Inr (s1\<lparr>sh_cells := cells\<rparr>))
         (store_insert capacity address (cell_with_number_format address content format) (sh_cells s1)))"

definition insert_cell ::
  "nat \<Rightarrow> cell_address \<Rightarrow> 'n cell_content \<Rightarrow> ('n, 'x) sheet \<Rightarrow> (validation_error + ('n, 'x) sheet) option" where
  "insert_cell capacity address content s =
    insert_cell_with_number_format capacity address content number_format_default s"

definition upsert_cell_instance_deferred :: "nat \<Rightarrow> 'n cell \<Rightarrow> ('n, 'x) sheet \<Rightarrow> ('n, 'x) sheet option" where
  "upsert_cell_instance_deferred capacity c s =
    (let address = cell_addr c; s1 = track_formula_metadata address (cell_content c) s
     in map_option (\<lambda>(cells, replaced).
         let s2 = s1\<lparr>sh_cells := cells\<rparr>
         in if \<not> replaced then update_column_extent address (update_bounds address s2) else s2)
       (store_insert capacity address c (sh_cells s1)))"

definition upsert_cell_deferred ::
  "nat \<Rightarrow> cell_address \<Rightarrow> 'n cell_content \<Rightarrow> number_format \<Rightarrow> ('n, 'x) sheet \<Rightarrow> ('n, 'x) sheet option" where
  "upsert_cell_deferred capacity address content format s =
    (let s1 = track_formula_metadata address content s
     in map_option (\<lambda>(cells, replaced).
         let s2 = s1\<lparr>sh_cells := cells\<rparr>
         in if \<not> replaced then update_column_extent address (update_bounds address s2) else s2)
       (store_insert capacity address (cell_with_number_format address content format) (sh_cells s1)))"

definition remove_cell_deferred :: "nat \<Rightarrow> cell_address \<Rightarrow> ('n, 'x) sheet \<Rightarrow> (('n, 'x) sheet \<times> bool) option" where
  "remove_cell_deferred capacity address s =
    (let s1 = s\<lparr>formula_addresses :=
          (if map_get (formula_addresses s) address \<noteq> None then map_remove address (formula_addresses s) else formula_addresses s),
        array_formula_ranges :=
          (if map_get (array_formula_ranges s) address \<noteq> None then map_remove address (array_formula_ranges s) else array_formula_ranges s)\<rparr>
     in map_option (\<lambda>(cells, removed).
         (s1\<lparr>sh_cells := cells,
            bounds_dirty :=
              (removed \<and>
                (min_row s1 = Some (addr_row address) \<or> max_row s1 = Some (addr_row address) \<or>
                 min_column s1 = Some (addr_column address) \<or> max_column s1 = Some (addr_column address) \<or>
                 map_get (column_max_rows s1) (addr_column address) = Some (addr_row address)))
              \<or> bounds_dirty s1\<rparr>, removed))
       (store_remove capacity address (sh_cells s1)))"

definition finish_deferred_cell_edits :: "('n, 'x) sheet \<Rightarrow> ('n, 'x) sheet" where
  "finish_deferred_cell_edits s = (if bounds_dirty s then rebuild_bounds s else s)"

section \<open>Queries over formulas\<close>

definition next_formula_cell_after :: "('n, 'x) sheet \<Rightarrow> cell_address option \<Rightarrow> 'n cell option" where
  "next_formula_cell_after s after =
    Option.bind
      (case after of
        Some address \<Rightarrow> find (\<lambda>candidate. candidate > address)
          (filter (\<lambda>candidate. address \<le> candidate) (map_keys (formula_addresses s)))
      | None \<Rightarrow> (case map_keys (formula_addresses s) of [] \<Rightarrow> None | first # _ \<Rightarrow> Some first))
      (\<lambda>address. store_get (sh_cells s) address)"

fun is_legacy_array :: "'n cell_content \<Rightarrow> bool" where
  "is_legacy_array (Formula formula) = (case fc_metadata formula of ArrayFormula _ _ \<Rightarrow> True | _ \<Rightarrow> False)"
| "is_legacy_array (Literal _) = False"

definition legacy_array_anchor_covering :: "('n, 'x) sheet \<Rightarrow> cell_address \<Rightarrow> cell_address option" where
  "legacy_array_anchor_covering s address =
    map_option fst
      (find (\<lambda>(anchor, r). anchor \<noteq> address \<and> contains r address \<and>
          (case sheet_cell s anchor of Some c \<Rightarrow> is_legacy_array (cell_content c) | None \<Rightarrow> False))
        (array_formula_ranges s))"

definition is_follower :: "u32 \<Rightarrow> cell_address \<Rightarrow> 'n cell_content \<Rightarrow> bool" where
  "is_follower group_index anchor content =
    (case content of Formula formula \<Rightarrow> fc_metadata formula = Shared group_index (Follower anchor) None | Literal _ \<Rightarrow> False)"

definition shared_followers :: "('n, 'x) sheet \<Rightarrow> cell_address \<Rightarrow> cell_address list" where
  "shared_followers s anchor =
    (case map_option cell_content (sheet_cell s anchor) of
      Some (Formula formula) \<Rightarrow>
        (case fc_metadata formula of
          Shared group_index Anchor (Some r) \<Rightarrow>
            filter (\<lambda>address. contains r address \<and>
                (case sheet_cell s address of Some c \<Rightarrow> is_follower group_index anchor (cell_content c) | None \<Rightarrow> False))
              (filter (\<lambda>address. rng_start r \<le> address \<and> address \<le> rng_end r) (map_keys (formula_addresses s)))
        | _ \<Rightarrow> [])
    | _ \<Rightarrow> [])"

definition detach_follower :: "nat \<Rightarrow> ('n, 'x) sheet \<Rightarrow> cell_address \<Rightarrow> ('n, 'x) sheet option" where
  "detach_follower capacity s address =
    (case sheet_cell s address of
      Some c \<Rightarrow>
        (case cell_content c of
          Formula formula \<Rightarrow>
            upsert_cell_deferred capacity address
              (Formula (from_xlsx_parts (fc_dialect formula) (fc_text formula) (fc_saved_result formula) Normal (fc_recalculate_always formula)))
              (cell_number_format c) s
        | Literal _ \<Rightarrow> Some s)
    | None \<Rightarrow> Some s)"

definition detach_shared_formula_followers ::
  "nat \<Rightarrow> cell_address \<Rightarrow> ('n, 'x) sheet \<Rightarrow> (('n, 'x) sheet \<times> cell_address list) option" where
  "detach_shared_formula_followers capacity anchor s =
    map_option (\<lambda>s'. (s', shared_followers s anchor)) (try_fold (detach_follower capacity) s (shared_followers s anchor))"

section \<open>Building a sheet\<close>

record ('n, 'x) sheet_builder =
  sb_sheet :: "('n, 'x) sheet"
  sb_cells :: "(u128 \<times> 'n cell) list"

definition builder_new :: "'x \<Rightarrow> ('n, 'x) sheet_builder" where
  "builder_new metadata = \<lparr>sb_sheet = sheet_new metadata, sb_cells = []\<rparr>"

definition insert_shared_cell ::
  "cell_address \<Rightarrow> 'n cell_content \<Rightarrow> number_format \<Rightarrow> ('n, 'x) sheet_builder \<Rightarrow> validation_error + ('n, 'x) sheet_builder" where
  "insert_shared_cell address content format b =
    (if map_get (sb_cells b) (store_key address) \<noteq> None
     then Inl (DuplicateCell (addr_row address) (addr_column address))
     else Inr (b\<lparr>sb_sheet := update_column_extent address (update_bounds address (track_formula_metadata address content (sb_sheet b))),
        sb_cells := map_insert (store_key address) (cell_with_number_format address content format) (sb_cells b)\<rparr>))"

definition push_hidden_row :: "u32 \<Rightarrow> ('n, 'x) sheet_builder \<Rightarrow> ('n, 'x) sheet_builder" where
  "push_hidden_row row b =
    (if hidden_rows (sb_sheet b) = [] \<or> last (hidden_rows (sb_sheet b)) < row
     then b\<lparr>sb_sheet := (sb_sheet b)\<lparr>hidden_rows := hidden_rows (sb_sheet b) @ [row]\<rparr>\<rparr> else b)"

definition is_row_hidden :: "('n, 'x) sheet \<Rightarrow> u32 \<Rightarrow> bool" where
  "is_row_hidden s row = (row \<in> set (hidden_rows s))"

definition builder_finish :: "nat \<Rightarrow> ('n, 'x) sheet_builder \<Rightarrow> ('n, 'x) sheet option" where
  "builder_finish capacity b =
    map_option (\<lambda>cells. (sb_sheet b)\<lparr>sh_cells := cells\<rparr>) (store_from_sorted capacity (sb_cells b))"

section \<open>The bounds of a set of addresses\<close>

definition opt_min :: "nat set \<Rightarrow> nat option" where
  "opt_min A = (if A = {} then None else Some (Min A))"

definition opt_max :: "nat set \<Rightarrow> nat option" where
  "opt_max A = (if A = {} then None else Some (Max A))"

lemma opt_min_insert: "finite A \<Longrightarrow> opt_min (insert x A) = Some (case opt_min A of None \<Rightarrow> x | Some m \<Rightarrow> min m x)"
  by (simp add: opt_min_def min.commute)

lemma opt_max_insert: "finite A \<Longrightarrow> opt_max (insert x A) = Some (case opt_max A of None \<Rightarrow> x | Some m \<Rightarrow> max m x)"
  by (simp add: opt_max_def max.commute)

lemma opt_empty [simp]: "opt_min {} = None" "opt_max {} = None"
  by (simp_all add: opt_min_def opt_max_def)

text \<open>Taking away an element that is not the bound keeps the bound.\<close>

lemma opt_min_remove:
  assumes "finite A" "a \<in> A" "opt_min (f ` A) \<noteq> Some (f a)"
  shows "opt_min (f ` (A - {a})) = opt_min (f ` A)"
proof -
  have "Min (f ` A) \<in> f ` A" using assms(1,2) by (intro Min_in) auto
  moreover have "Min (f ` A) \<noteq> f a" using assms(2,3) by (auto simp: opt_min_def split: if_splits)
  ultimately have m: "Min (f ` A) \<in> f ` (A - {a})" by auto
  then have "Min (f ` (A - {a})) = Min (f ` A)"
    using assms(1) by (intro Min_eqI) (auto intro: Min_le)
  then show ?thesis using m assms(2) by (auto simp: opt_min_def)
qed

lemma opt_max_remove:
  assumes "finite A" "a \<in> A" "opt_max (f ` A) \<noteq> Some (f a)"
  shows "opt_max (f ` (A - {a})) = opt_max (f ` A)"
proof -
  have "Max (f ` A) \<in> f ` A" using assms(1,2) by (intro Max_in) auto
  moreover have "Max (f ` A) \<noteq> f a" using assms(2,3) by (auto simp: opt_max_def split: if_splits)
  ultimately have m: "Max (f ` A) \<in> f ` (A - {a})" by auto
  then have "Max (f ` (A - {a})) = Max (f ` A)"
    using assms(1) by (intro Max_eqI) (auto intro: Max_ge)
  then show ?thesis using m assms(2) by (auto simp: opt_max_def)
qed

definition in_column :: "nat \<Rightarrow> cell_address set \<Rightarrow> cell_address set" where
  "in_column c A = {a \<in> A. addr_column a = c}"

lemma in_column_insert: "in_column c (insert a A) = (if addr_column a = c then insert a (in_column c A) else in_column c A)"
  by (auto simp: in_column_def)

lemma in_column_remove: "in_column c (A - {a}) = in_column c A - {a}"
  by (auto simp: in_column_def)

lemma finite_in_column: "finite A \<Longrightarrow> finite (in_column c A)"
  by (simp add: in_column_def)

definition bounds_exact :: "cell_address set \<Rightarrow> ('n, 'x) sheet \<Rightarrow> bool" where
  "bounds_exact A s =
    (min_row s = opt_min (addr_row ` A) \<and> min_column s = opt_min (addr_column ` A) \<and>
     max_row s = opt_max (addr_row ` A) \<and> max_column s = opt_max (addr_column ` A) \<and>
     map_ok (column_max_rows s) \<and> (\<forall>c. map_get (column_max_rows s) c = opt_max (addr_row ` in_column c A)))"

lemma bounds_exact_extend:
  assumes "bounds_exact A s" "finite A"
  shows "bounds_exact (insert a A) (update_column_extent a (update_bounds a s))"
proof -
  have ok: "map_ok (column_max_rows s)" using assms(1) by (simp add: bounds_exact_def)
  have "map_get (column_max_rows (update_column_extent a (update_bounds a s))) c = opt_max (addr_row ` in_column c (insert a A))" for c
    using assms btree.get_insert [OF ok] opt_max_insert [of "addr_row ` in_column c A" "addr_row a"] finite_in_column [OF assms(2)]
    by (auto simp: update_column_extent_def update_bounds_def in_column_insert bounds_exact_def)
  moreover have "map_ok (column_max_rows (update_column_extent a (update_bounds a s)))"
    using btree.ok_insert [OF ok] by (simp add: update_column_extent_def update_bounds_def)
  ultimately show ?thesis
    using assms unfolding bounds_exact_def
    by (auto simp: update_column_extent_def update_bounds_def opt_min_insert opt_max_insert)
qed

lemma bounds_exact_remove:
  assumes "bounds_exact A s" "finite A" "a \<in> A"
    "min_row s \<noteq> Some (addr_row a)" "max_row s \<noteq> Some (addr_row a)"
    "min_column s \<noteq> Some (addr_column a)" "max_column s \<noteq> Some (addr_column a)"
    "map_get (column_max_rows s) (addr_column a) \<noteq> Some (addr_row a)"
  shows "bounds_exact (A - {a}) s"
proof -
  have "opt_max (addr_row ` in_column c (A - {a})) = opt_max (addr_row ` in_column c A)" for c
  proof (cases "addr_column a = c")
    case True
    then have "a \<in> in_column c A" using assms(3) by (simp add: in_column_def)
    moreover have "opt_max (addr_row ` in_column c A) \<noteq> Some (addr_row a)" using assms(1,8) True by (simp add: bounds_exact_def)
    ultimately show ?thesis unfolding in_column_remove by (rule opt_max_remove [OF finite_in_column [OF assms(2)]])
  next
    case False
    then have "in_column c (A - {a}) = in_column c A" by (auto simp: in_column_def)
    then show ?thesis by simp
  qed
  then show ?thesis
    using assms opt_min_remove [OF assms(2,3)] opt_max_remove [OF assms(2,3)] by (simp add: bounds_exact_def)
qed

lemma bounds_exact_cong:
  assumes "bounds_exact A s" "min_row s' = min_row s" "min_column s' = min_column s" "max_row s' = max_row s"
    "max_column s' = max_column s" "column_max_rows s' = column_max_rows s"
  shows "bounds_exact A s'"
  using assms by (simp add: bounds_exact_def)

section \<open>The invariant\<close>

abbreviation sheet_values :: "('n, 'x) sheet \<Rightarrow> 'n cell list" where
  "sheet_values s \<equiv> store_values (sh_cells s)"

definition occupied :: "('n, 'x) sheet \<Rightarrow> cell_address set" where
  "occupied s = cell_addr ` set (sheet_values s)"

definition formulas_exact :: "('n, 'x) sheet \<Rightarrow> bool" where
  "formulas_exact s =
    (map_ok (formula_addresses s) \<and> map_ok (array_formula_ranges s) \<and>
     (\<forall>a. valid_address a \<longrightarrow>
       (map_get (formula_addresses s) a = Some () \<longleftrightarrow>
         (\<exists>c. sheet_cell s a = Some c \<and> is_formula_content (cell_content c))) \<and>
       map_get (array_formula_ranges s) a = Option.bind (sheet_cell s a) (\<lambda>c. array_range a (cell_content c))) \<and>
     (\<forall>a\<in>set (map_keys (formula_addresses s)) \<union> set (map_keys (array_formula_ranges s)). valid_address a))"

definition sheet_ok :: "nat \<Rightarrow> ('n, 'x) sheet \<Rightarrow> bool" where
  "sheet_ok capacity s =
    (store_ok capacity (sh_cells s) \<and> formulas_exact s \<and> (\<not> bounds_dirty s \<longrightarrow> bounds_exact (occupied s) s))"

lemma finite_occupied [simp]: "finite (occupied s)"
  by (simp add: occupied_def)

lemma store_occupied:
  assumes "store_ok capacity st" "0 < capacity" "valid_address b"
  shows "b \<in> cell_addr ` set (store_values st) \<longleftrightarrow> store_get st b \<noteq> None"
proof
  assume "b \<in> cell_addr ` set (store_values st)"
  then obtain c where "c \<in> set (store_values st) \<and> cell_addr c = b" by auto
  then have "store_get st b = Some c" using store_get_iff [OF assms] by blast
  then show "store_get st b \<noteq> None" by simp
next
  assume "store_get st b \<noteq> None"
  then obtain c where "store_get st b = Some c" by blast
  then have "c \<in> set (store_values st)" "cell_addr c = b" using store_get_iff [OF assms] by blast+
  then show "b \<in> cell_addr ` set (store_values st)" by (metis imageI)
qed

lemma occupied_iff:
  assumes "store_ok capacity (sh_cells s)" "0 < capacity" "valid_address a"
  shows "a \<in> occupied s \<longleftrightarrow> sheet_cell s a \<noteq> None"
  unfolding occupied_def sheet_cell_def by (rule store_occupied [OF assms])

lemma store_get_entries:
  "store_ok capacity st \<Longrightarrow> 0 < capacity \<Longrightarrow> store_get st b = map_get (radix_entries (store_cells st)) (store_key b)"
  using radix_get_entries [of capacity "store_cells st"] by (simp add: store_get_def store_ok_def)

lemma store_values_valid: "store_ok capacity st \<Longrightarrow> c \<in> set (store_values st) \<Longrightarrow> valid_address (cell_addr c)"
  by (auto simp: store_values_def store_ok_def list_all_iff entry_ok_def)

lemma store_default_empty: "store_values store_default = []" "store_get store_default a = None"
  by (simp_all add: store_values_def store_default_def radix_default_ok(2) store_get_def radix_get_def)
    (simp add: radix_default_def map_get_def)

lemma sheet_new_ok: "0 < capacity \<Longrightarrow> sheet_ok capacity (sheet_new metadata)"
  by (auto simp: sheet_ok_def sheet_new_def store_default_ok store_default_empty formulas_exact_def bounds_exact_def occupied_def
      map_ok_def map_keys_def map_get_def sheet_cell_def in_column_def)

text \<open>What the sheet looks like at every address after a cell was stored or removed.\<close>

lemma stored_cell:
  assumes "store_ok capacity (sh_cells s)" "0 < capacity" "valid_address a" "cell_addr c = a"
  obtains cells where "store_insert capacity a c (sh_cells s) = Some (cells, sheet_cell s a \<noteq> None)"
    "store_ok capacity cells" "\<forall>b. valid_address b \<longrightarrow> store_get cells b = (if b = a then Some c else sheet_cell s b)"
    "cell_addr ` set (store_values cells) = insert a (occupied s)"
proof -
  obtain cells where cells: "store_insert capacity a c (sh_cells s) = Some (cells, store_contains_key (sh_cells s) a)"
    "store_ok capacity cells" "radix_entries (store_cells cells) = map_insert (store_key a) c (radix_entries (store_cells (sh_cells s)))"
    by (rule store_insert_ok [OF assms])
  have ok: "map_ok (radix_entries (store_cells (sh_cells s)))" using assms(1) by (simp add: store_ok_def radix_ok_def)
  have get: "store_get cells b = (if b = a then Some c else sheet_cell s b)" if "valid_address b" for b
  proof -
    show ?thesis
      using cells(3) store_get_entries [OF cells(2) assms(2)] store_get_entries [OF assms(1,2)] btree.get_insert [OF ok] store_key_inj [OF that assms(3)] by (simp add: sheet_cell_def)
  qed
  have "b \<in> cell_addr ` set (store_values cells) \<longleftrightarrow> b \<in> insert a (occupied s)" for b
  proof (cases "valid_address b")
    case True
    then show ?thesis
      using store_occupied [OF cells(2) assms(2) True] occupied_iff [OF assms(1,2) True] get [OF True] by simp
  next
    case False
    then show ?thesis using assms(1,3) cells(2) store_values_valid by (auto simp: occupied_def)
  qed
  then show thesis
    using that cells(1,2) get by (auto simp: store_contains_key_def sheet_cell_def)
qed

lemma removed_cell:
  assumes "store_ok capacity (sh_cells s)" "0 < capacity" "valid_address a"
  obtains cells where "store_remove capacity a (sh_cells s) = Some (cells, sheet_cell s a \<noteq> None)"
    "store_ok capacity cells" "\<forall>b. valid_address b \<longrightarrow> store_get cells b = (if b = a then None else sheet_cell s b)"
    "cell_addr ` set (store_values cells) = occupied s - {a}"
proof -
  obtain cells where cells: "store_remove capacity a (sh_cells s) = Some (cells, store_contains_key (sh_cells s) a)"
    "store_ok capacity cells" "radix_entries (store_cells cells) = map_remove (store_key a) (radix_entries (store_cells (sh_cells s)))"
    by (rule store_remove_ok [OF assms(1,2)])
  have ok: "map_ok (radix_entries (store_cells (sh_cells s)))" using assms(1) by (simp add: store_ok_def radix_ok_def)
  have get: "store_get cells b = (if b = a then None else sheet_cell s b)" if "valid_address b" for b
  proof -
    show ?thesis
      using cells(3) store_get_entries [OF cells(2) assms(2)] store_get_entries [OF assms(1,2)] btree.get_remove [OF ok] store_key_inj [OF that assms(3)] by (simp add: sheet_cell_def)
  qed
  have "b \<in> cell_addr ` set (store_values cells) \<longleftrightarrow> b \<in> occupied s - {a}" for b
  proof (cases "valid_address b")
    case True
    then show ?thesis
      using store_occupied [OF cells(2) assms(2) True] occupied_iff [OF assms(1,2) True] get [OF True] by simp
  next
    case False
    then show ?thesis using assms(1,3) cells(2) store_values_valid by (auto simp: occupied_def)
  qed
  then show thesis
    using that cells(1,2) get by (auto simp: store_contains_key_def sheet_cell_def)
qed

section \<open>Every operation keeps the invariant\<close>

lemma tracked_formulas:
  assumes "formulas_exact s" "valid_address a"
    "\<And>b. valid_address b \<Longrightarrow> sheet_cell s' b = (if b = a then Some c else sheet_cell s b)"
    "formula_addresses s' = formula_addresses (track_formula_metadata a (cell_content c) s)"
    "array_formula_ranges s' = array_formula_ranges (track_formula_metadata a (cell_content c) s)"
  shows "formulas_exact s'"
proof -
  have ok: "map_ok (formula_addresses s)" "map_ok (array_formula_ranges s)" using assms(1) by (auto simp: formulas_exact_def)
  note get = btree.get_insert [OF ok(1)] btree.get_insert [OF ok(2)] btree.get_remove [OF ok(1)] btree.get_remove [OF ok(2)]
  note keys = btree.keys_insert [OF ok(1)] btree.keys_insert [OF ok(2)] btree.keys_remove [OF ok(1)] btree.keys_remove [OF ok(2)]
  have oks: "map_ok (formula_addresses s')" "map_ok (array_formula_ranges s')"
    unfolding assms(4,5) using ok by (auto simp: track_formula_metadata_def btree.ok_insert btree.ok_remove split: option.splits)
  have f: "map_get (formula_addresses s') b = (if b = a then (if is_formula_content (cell_content c) then Some () else None)
      else map_get (formula_addresses s) b)" for b
    unfolding assms(4) by (auto simp: track_formula_metadata_def get)
  have r: "map_get (array_formula_ranges s') b = (if b = a then array_range a (cell_content c)
      else map_get (array_formula_ranges s) b)" for b
    unfolding assms(5) by (auto simp: track_formula_metadata_def get split: option.splits)
  have "set (map_keys (formula_addresses s')) \<subseteq> insert a (set (map_keys (formula_addresses s)))"
    "set (map_keys (array_formula_ranges s')) \<subseteq> insert a (set (map_keys (array_formula_ranges s)))"
    unfolding assms(4,5) by (auto simp: track_formula_metadata_def keys split: option.splits if_splits)
  then have "\<forall>b\<in>set (map_keys (formula_addresses s')) \<union> set (map_keys (array_formula_ranges s')). valid_address b"
    using assms(1,2) unfolding formulas_exact_def by blast
  then show ?thesis using oks f r assms(1,2,3) unfolding formulas_exact_def by simp
qed

lemma sheet_fields [simp]:
  "sh_cells (track_formula_metadata a content s) = sh_cells s"
  "bounds_dirty (track_formula_metadata a content s) = bounds_dirty s"
  "sh_cells (update_bounds a s) = sh_cells s" "sh_cells (update_column_extent a s) = sh_cells s"
  "bounds_dirty (update_bounds a s) = bounds_dirty s" "bounds_dirty (update_column_extent a s) = bounds_dirty s"
  "formula_addresses (update_bounds a s) = formula_addresses s" "formula_addresses (update_column_extent a s) = formula_addresses s"
  "array_formula_ranges (update_bounds a s) = array_formula_ranges s"
  "array_formula_ranges (update_column_extent a s) = array_formula_ranges s"
  by (simp_all add: track_formula_metadata_def update_bounds_def update_column_extent_def)

lemma tracked_bounds: "bounds_exact A s \<Longrightarrow> bounds_exact A (track_formula_metadata a content s)"
  by (rule bounds_exact_cong) (simp_all add: track_formula_metadata_def)

text \<open>Storing a cell with the indexes brought up to date, as the three insertions do.\<close>

lemma stored_sheet_ok:
  assumes s: "sheet_ok capacity s" "0 < capacity" and c: "valid_address (cell_addr c)"
    and cells: "store_ok capacity cells"
      "\<And>b. valid_address b \<Longrightarrow> store_get cells b = (if b = cell_addr c then Some c else sheet_cell s b)"
      "cell_addr ` set (store_values cells) = insert (cell_addr c) (occupied s)"
    and s': "sh_cells s' = cells" "bounds_dirty s' = bounds_dirty s"
      "formula_addresses s' = formula_addresses (track_formula_metadata (cell_addr c) (cell_content c) s)"
      "array_formula_ranges s' = array_formula_ranges (track_formula_metadata (cell_addr c) (cell_content c) s)"
      "\<not> bounds_dirty s \<Longrightarrow> bounds_exact (insert (cell_addr c) (occupied s)) s'"
  shows "sheet_ok capacity s'"
proof -
  have "formulas_exact s'"
    by (rule tracked_formulas [of s "cell_addr c" _ c]) (use s c cells s' in \<open>simp_all add: sheet_ok_def sheet_cell_def [of s']\<close>)
  moreover have "occupied s' = insert (cell_addr c) (occupied s)" using cells(3) s'(1) by (simp add: occupied_def)
  ultimately show ?thesis using cells(1) s' by (simp add: sheet_ok_def)
qed

theorem insert_cell_ok:
  assumes "sheet_ok capacity s" "0 < capacity" "valid_address a"
  shows "case sheet_cell s a of
      Some _ \<Rightarrow> insert_cell_with_number_format capacity a content format s = Some (Inl (DuplicateCell (addr_row a) (addr_column a)))
    | None \<Rightarrow> \<exists>s'. insert_cell_with_number_format capacity a content format s = Some (Inr s') \<and> sheet_ok capacity s' \<and>
        (\<forall>b. valid_address b \<longrightarrow> sheet_cell s' b =
          (if b = a then Some (cell_with_number_format a content format) else sheet_cell s b))"
proof (cases "sheet_cell s a")
  case None
  let ?c = "cell_with_number_format a content format"
  have c: "cell_addr ?c = a" "cell_content ?c = content" by (simp_all add: cell_with_number_format_def)
  have st: "store_ok capacity (sh_cells s)" using assms(1) by (simp add: sheet_ok_def)
  obtain cells where cells: "store_insert capacity a ?c (sh_cells s) = Some (cells, sheet_cell s a \<noteq> None)" "store_ok capacity cells"
    "\<forall>b. valid_address b \<longrightarrow> store_get cells b = (if b = a then Some ?c else sheet_cell s b)"
    "cell_addr ` set (store_values cells) = insert a (occupied s)"
    by (rule stored_cell [OF st assms(2,3) c(1)])
  let ?s1 = "update_column_extent a (update_bounds a (track_formula_metadata a content s))"
  let ?s = "?s1\<lparr>sh_cells := cells\<rparr>"
  have "sheet_ok capacity ?s"
  proof (rule stored_sheet_ok [OF assms(1,2), of ?c])
    assume "\<not> bounds_dirty s"
    then have "bounds_exact (insert a (occupied s)) ?s1"
      using assms(1) by (intro bounds_exact_extend tracked_bounds) (simp_all add: sheet_ok_def)
    then show "bounds_exact (insert (cell_addr ?c) (occupied s)) ?s" unfolding c by (rule bounds_exact_cong) simp_all
  qed (use assms cells c in simp_all)
  moreover have "insert_cell_with_number_format capacity a content format s = Some (Inr ?s)"
    using cells(1) None by (simp add: insert_cell_with_number_format_def store_contains_key_def sheet_cell_def Let_def)
  ultimately show ?thesis using None cells(3) by (simp add: sheet_cell_def)
qed (simp add: insert_cell_with_number_format_def store_contains_key_def sheet_cell_def)

lemma upsert_instance_keeps:
  assumes "sheet_ok capacity s" "0 < capacity" "valid_address (cell_addr c)"
  shows "\<exists>s'. upsert_cell_instance_deferred capacity c s = Some s' \<and> sheet_ok capacity s' \<and>
    (\<forall>b. valid_address b \<longrightarrow> sheet_cell s' b = (if b = cell_addr c then Some c else sheet_cell s b))"
proof -
  let ?a = "cell_addr c"
  have st: "store_ok capacity (sh_cells s)" using assms(1) by (simp add: sheet_ok_def)
  obtain cells where cells: "store_insert capacity ?a c (sh_cells s) = Some (cells, sheet_cell s ?a \<noteq> None)" "store_ok capacity cells"
    "\<forall>b. valid_address b \<longrightarrow> store_get cells b = (if b = ?a then Some c else sheet_cell s b)"
    "cell_addr ` set (store_values cells) = insert ?a (occupied s)"
    by (rule stored_cell [OF st assms(2,3) refl])
  let ?s1 = "(track_formula_metadata ?a (cell_content c) s)\<lparr>sh_cells := cells\<rparr>"
  let ?s = "if sheet_cell s ?a = None then update_column_extent ?a (update_bounds ?a ?s1) else ?s1"
  have "sheet_ok capacity ?s"
  proof (rule stored_sheet_ok [OF assms])
    assume "\<not> bounds_dirty s"
    then have "bounds_exact (occupied s) s" using assms(1) by (simp add: sheet_ok_def)
    then have "bounds_exact (occupied s) ?s1"
      by (rule bounds_exact_cong [OF tracked_bounds]) simp_all
    moreover have "insert ?a (occupied s) = occupied s" if "sheet_cell s ?a \<noteq> None"
      using occupied_iff [OF st assms(2,3)] that by blast
    ultimately show "bounds_exact (insert ?a (occupied s)) ?s" using bounds_exact_extend [of "occupied s" ?s1 ?a] by auto
  qed (use cells in auto)
  moreover have "upsert_cell_instance_deferred capacity c s = Some ?s"
    using cells(1) by (simp add: upsert_cell_instance_deferred_def Let_def)
  moreover have "sheet_cell ?s b = store_get cells b" for b by (simp add: sheet_cell_def)
  ultimately show ?thesis using cells(3) by auto
qed

lemma upsert_cell_instance:
  "upsert_cell_deferred capacity a content format s =
    upsert_cell_instance_deferred capacity (cell_with_number_format a content format) s"
  by (simp add: upsert_cell_deferred_def upsert_cell_instance_deferred_def cell_with_number_format_def)

lemma remove_cell_ok:
  assumes "sheet_ok capacity s" "0 < capacity" "valid_address a"
  shows "\<exists>s'. remove_cell_deferred capacity a s = Some (s', sheet_cell s a \<noteq> None) \<and> sheet_ok capacity s' \<and>
    (\<forall>b. valid_address b \<longrightarrow> sheet_cell s' b = (if b = a then None else sheet_cell s b))"
proof -
  have st: "store_ok capacity (sh_cells s)" and fe: "formulas_exact s" using assms(1) by (simp_all add: sheet_ok_def)
  have ok: "map_ok (formula_addresses s)" "map_ok (array_formula_ranges s)" using fe by (auto simp: formulas_exact_def)
  obtain cells where cells: "store_remove capacity a (sh_cells s) = Some (cells, sheet_cell s a \<noteq> None)" "store_ok capacity cells"
    "\<forall>b. valid_address b \<longrightarrow> store_get cells b = (if b = a then None else sheet_cell s b)"
    "cell_addr ` set (store_values cells) = occupied s - {a}"
    by (rule removed_cell [OF st assms(2,3)])
  let ?s1 = "s\<lparr>formula_addresses := (if map_get (formula_addresses s) a \<noteq> None then map_remove a (formula_addresses s) else formula_addresses s),
    array_formula_ranges := (if map_get (array_formula_ranges s) a \<noteq> None then map_remove a (array_formula_ranges s) else array_formula_ranges s)\<rparr>"
  let ?edge = "min_row s = Some (addr_row a) \<or> max_row s = Some (addr_row a) \<or> min_column s = Some (addr_column a) \<or>
    max_column s = Some (addr_column a) \<or> map_get (column_max_rows s) (addr_column a) = Some (addr_row a)"
  let ?s = "?s1\<lparr>sh_cells := cells, bounds_dirty := sheet_cell s a \<noteq> None \<and> ?edge \<or> bounds_dirty s\<rparr>"
  have run: "remove_cell_deferred capacity a s = Some (?s, sheet_cell s a \<noteq> None)"
    using cells(1) by (simp add: remove_cell_deferred_def Let_def)
  have get: "sheet_cell ?s b = store_get cells b" for b by (simp add: sheet_cell_def)
  have f: "map_get (formula_addresses ?s) b = (if b = a then None else map_get (formula_addresses s) b)"
    "map_get (array_formula_ranges ?s) b = (if b = a then None else map_get (array_formula_ranges s) b)" for b
    using btree.get_remove [OF ok(1)] btree.get_remove [OF ok(2)]
    by (cases "map_get (formula_addresses s) a"; auto)+
  have keys: "set (map_keys (formula_addresses ?s)) \<subseteq> set (map_keys (formula_addresses s))"
    "set (map_keys (array_formula_ranges ?s)) \<subseteq> set (map_keys (array_formula_ranges s))"
    using btree.keys_remove [OF ok(1)] btree.keys_remove [OF ok(2)] by auto
  have "formulas_exact ?s"
    unfolding formulas_exact_def
  proof (intro conjI allI impI ballI)
    show "map_ok (formula_addresses ?s)" "map_ok (array_formula_ranges ?s)" using ok by (auto simp: btree.ok_remove)
    show "valid_address b" if "b \<in> set (map_keys (formula_addresses ?s)) \<union> set (map_keys (array_formula_ranges ?s))" for b
      using that keys fe unfolding formulas_exact_def by blast
    fix b assume b: "valid_address b"
    show "map_get (formula_addresses ?s) b = Some () \<longleftrightarrow> (\<exists>c. sheet_cell ?s b = Some c \<and> is_formula_content (cell_content c))"
      unfolding f get cells(3) [rule_format, OF b] using fe b by (auto simp: formulas_exact_def)
    show "map_get (array_formula_ranges ?s) b = Option.bind (sheet_cell ?s b) (\<lambda>c. array_range b (cell_content c))"
      unfolding f get cells(3) [rule_format, OF b] using fe b by (auto simp: formulas_exact_def)
  qed
  moreover have "bounds_exact (occupied s - {a}) ?s" if "\<not> bounds_dirty ?s"
  proof -
    have exact: "bounds_exact (occupied s) s" using that assms(1) by (simp add: sheet_ok_def)
    have "bounds_exact (occupied s - {a}) s"
    proof (cases "sheet_cell s a")
      case None
      then have "occupied s - {a} = occupied s" using occupied_iff [OF st assms(2,3)] by auto
      then show ?thesis using exact by simp
    next
      case (Some c)
      then have "a \<in> occupied s" using occupied_iff [OF st assms(2,3)] by simp
      then show ?thesis using bounds_exact_remove [OF exact finite_occupied] that Some by simp
    qed
    then show ?thesis by (rule bounds_exact_cong) simp_all
  qed
  moreover have "occupied ?s = occupied s - {a}" using cells(4) by (simp add: occupied_def)
  moreover have "store_ok capacity (sh_cells ?s)" using cells(2) by simp
  ultimately have "sheet_ok capacity ?s" unfolding sheet_ok_def by metis
  then show ?thesis using run get cells(3) by auto
qed

lemma rebuild_fold:
  assumes "finite A" "bounds_exact A s"
  shows "bounds_exact (A \<union> set as) (fold (\<lambda>a s. update_column_extent a (update_bounds a s)) as s) \<and>
    sh_cells (fold (\<lambda>a s. update_column_extent a (update_bounds a s)) as s) = sh_cells s \<and>
    formula_addresses (fold (\<lambda>a s. update_column_extent a (update_bounds a s)) as s) = formula_addresses s \<and>
    array_formula_ranges (fold (\<lambda>a s. update_column_extent a (update_bounds a s)) as s) = array_formula_ranges s"
  using assms
proof (induction as arbitrary: A s)
  case (Cons a as)
  show ?case
    using Cons.IH [of "insert a A" "update_column_extent a (update_bounds a s)"] Cons.prems bounds_exact_extend [of A s a]
    by simp
qed simp

lemma formulas_exact_cong:
  assumes "formulas_exact s" "sh_cells s' = sh_cells s" "formula_addresses s' = formula_addresses s"
    "array_formula_ranges s' = array_formula_ranges s"
  shows "formulas_exact s'"
  using assms by (simp add: formulas_exact_def sheet_cell_def)

text \<open>Finishing the deferred edits makes the bounds exact.\<close>

lemma finish_ok:
  assumes "sheet_ok capacity s"
  shows "sheet_ok capacity (finish_deferred_cell_edits s)" "bounds_exact (occupied s) (finish_deferred_cell_edits s)"
    "sh_cells (finish_deferred_cell_edits s) = sh_cells s"
proof -
  let ?s = "rebuild_bounds s"
  let ?init = "s\<lparr>min_row := None, min_column := None, max_row := None, max_column := None, column_max_rows := []\<rparr>"
  let ?f = "fold (\<lambda>a s. update_column_extent a (update_bounds a s)) (map cell_addr (sheet_values s)) ?init"
  have "bounds_exact {} ?init" by (simp add: bounds_exact_def map_ok_def map_keys_def map_get_def in_column_def)
  then have f: "bounds_exact (occupied s) ?f" "sh_cells ?f = sh_cells s" "formula_addresses ?f = formula_addresses s"
    "array_formula_ranges ?f = array_formula_ranges s"
    using rebuild_fold [of "{}" ?init "map cell_addr (sheet_values s)"] by (simp_all add: occupied_def)
  have s: "?s = ?f\<lparr>bounds_dirty := False\<rparr>" by (simp add: rebuild_bounds_def)
  have b: "bounds_exact (occupied s) ?s" unfolding s by (rule bounds_exact_cong [OF f(1)]) simp_all
  have c: "sh_cells ?s = sh_cells s" "formulas_exact ?s"
    using f assms formulas_exact_cong [of s ?s] unfolding s by (simp_all add: sheet_ok_def)
  have "occupied ?s = occupied s" using c(1) by (simp add: occupied_def)
  then have "sheet_ok capacity ?s" using b c assms by (simp add: sheet_ok_def)
  then show "sheet_ok capacity (finish_deferred_cell_edits s)" "bounds_exact (occupied s) (finish_deferred_cell_edits s)"
    "sh_cells (finish_deferred_cell_edits s) = sh_cells s"
    using b c(1) assms by (simp_all add: finish_deferred_cell_edits_def sheet_ok_def)
qed

lemma used_range_exact:
  assumes "bounds_exact (occupied s) s" "\<And>a. a \<in> occupied s \<Longrightarrow> valid_address a"
  shows "case used_range s of
      None \<Rightarrow> occupied s = {}
    | Some r \<Rightarrow> occupied s \<noteq> {} \<and> occupied s \<subseteq> cells_of r \<and> valid_range r \<and>
        (\<forall>q. occupied s \<subseteq> cells_of q \<longrightarrow> cells_of r \<subseteq> cells_of q)"
proof (cases "occupied s = {}")
  case True
  then show ?thesis using assms(1) by (simp add: used_range_def bounds_exact_def)
next
  case False
  let ?A = "occupied s"
  let ?r = "from_ordered (CellAddress (Min (addr_row ` ?A)) (Min (addr_column ` ?A))) (CellAddress (Max (addr_row ` ?A)) (Max (addr_column ` ?A)))"
  have used: "used_range s = Some ?r" using assms(1) False by (simp add: used_range_def bounds_exact_def opt_min_def opt_max_def)
  have ends: "Min (addr_row ` ?A) \<in> addr_row ` ?A" "Min (addr_column ` ?A) \<in> addr_column ` ?A"
    "Max (addr_row ` ?A) \<in> addr_row ` ?A" "Max (addr_column ` ?A) \<in> addr_column ` ?A"
    using False by (simp_all add: Min_in Max_in)
  have sub: "?A \<subseteq> cells_of ?r" by (auto simp: contains_def from_ordered_def)
  have least: "cells_of ?r \<subseteq> cells_of q" if "?A \<subseteq> cells_of q" for q
  proof -
    have "\<forall>a\<in>?A. contains q a" using that by (auto simp flip: mem_cells_of)
    then have "addr_row (rng_start q) \<le> Min (addr_row ` ?A)" "addr_column (rng_start q) \<le> Min (addr_column ` ?A)"
      "Max (addr_row ` ?A) \<le> addr_row (rng_end q)" "Max (addr_column ` ?A) \<le> addr_column (rng_end q)"
      using ends by (auto simp: contains_def)
    then show ?thesis by (auto simp: contains_def from_ordered_def)
  qed
  have "valid_range ?r"
  proof -
    have v: "valid_address a" if "a \<in> ?A" for a using assms(2) that .
    have "Min (addr_row ` ?A) \<le> Max (addr_row ` ?A)" "Min (addr_column ` ?A) \<le> Max (addr_column ` ?A)"
      using ends by (simp_all add: Max_ge)
    then show ?thesis using ends v by (auto simp: valid_range_def valid_address_def from_ordered_def)
  qed
  then show ?thesis using used False sub least by auto
qed

section \<open>Building a sheet\<close>

text \<open>A builder that has collected the cells of a sheet.\<close>

definition builds :: "('n, 'x) sheet_builder \<Rightarrow> ('n, 'x) sheet \<Rightarrow> bool" where
  "builds b s = (sb_sheet b = s\<lparr>sh_cells := store_default\<rparr> \<and> sb_cells b = radix_entries (store_cells (sh_cells s)))"

lemma index_updates_commute:
  "track_formula_metadata a content (s\<lparr>sh_cells := cells\<rparr>) = (track_formula_metadata a content s)\<lparr>sh_cells := cells\<rparr>"
  "update_bounds a (s\<lparr>sh_cells := cells\<rparr>) = (update_bounds a s)\<lparr>sh_cells := cells\<rparr>"
  "update_column_extent a (s\<lparr>sh_cells := cells\<rparr>) = (update_column_extent a s)\<lparr>sh_cells := cells\<rparr>"
  by (rule sheet.equality; auto simp: track_formula_metadata_def update_bounds_def update_column_extent_def split: option.splits)+

lemma builder_insert:
  assumes "builds b s" "sheet_ok capacity s" "0 < capacity" "valid_address a"
  shows "case insert_shared_cell a content format b of
      Inl e \<Rightarrow> insert_cell_with_number_format capacity a content format s = Some (Inl e)
    | Inr b' \<Rightarrow> \<exists>s'. insert_cell_with_number_format capacity a content format s = Some (Inr s') \<and> sheet_ok capacity s' \<and> builds b' s'"
proof -
  let ?c = "cell_with_number_format a content format"
  have st: "store_ok capacity (sh_cells s)" using assms(2) by (simp add: sheet_ok_def)
  have get: "map_get (sb_cells b) (store_key a) = sheet_cell s a"
    using assms(1) store_get_entries [OF st assms(3), of a] by (simp add: builds_def sheet_cell_def)
  note ins = insert_cell_ok [OF assms(2-4), of content format]
  show ?thesis
  proof (cases "sheet_cell s a")
    case None
    obtain cells where cells: "store_insert capacity a ?c (sh_cells s) = Some (cells, store_contains_key (sh_cells s) a)"
      "radix_entries (store_cells cells) = map_insert (store_key a) ?c (radix_entries (store_cells (sh_cells s)))"
      using store_insert_ok [OF st assms(3,4), of ?c] by (metis cell.select_convs(1) cell_with_number_format_def)
    let ?s = "(update_column_extent a (update_bounds a (track_formula_metadata a content s)))\<lparr>sh_cells := cells\<rparr>"
    have run: "insert_cell_with_number_format capacity a content format s = Some (Inr ?s)"
      using cells(1) None by (simp add: insert_cell_with_number_format_def store_contains_key_def sheet_cell_def Let_def)
    have "sheet_ok capacity ?s" using ins None run by simp
    moreover have "\<exists>b'. insert_shared_cell a content format b = Inr b' \<and> builds b' ?s"
      using get None assms(1) cells(2) by (simp add: insert_shared_cell_def builds_def index_updates_commute)
    ultimately show ?thesis using run by auto
  next
    case (Some c)
    then show ?thesis using ins get by (simp add: insert_shared_cell_def)
  qed
qed

lemma builder_finish_sheet:
  assumes "builds b s" "sheet_ok capacity s" "0 < capacity"
  shows "builder_finish capacity b = Some s"
proof -
  have st: "store_ok capacity (sh_cells s)" using assms(2) by (simp add: sheet_ok_def)
  let ?es = "radix_entries (store_cells (sh_cells s))"
  have "map_ok ?es" "store_cells (sh_cells s) = \<lparr>radix_root = canon capacity ?es, radix_len = length ?es\<rparr>"
    using st unfolding store_ok_def radix_ok_def by (auto intro: radix_map.equality)
  then have run: "from_sorted_iter capacity ?es = Some (store_cells (sh_cells s))"
    using from_sorted_iter_ok [OF assms(3)] by metis
  have "\<lparr>store_cells = store_cells (sh_cells s), store_len = length ?es\<rparr> = sh_cells s"
    using st by (intro cell_store.equality) (simp_all add: store_ok_def)
  then have "store_from_sorted capacity (sb_cells b) = Some (sh_cells s)"
    using run assms(1) by (simp add: store_from_sorted_def builds_def)
  then show ?thesis using assms(1) by (simp add: builder_finish_def builds_def)
qed

fun build_all :: "(cell_address \<times> 'n cell_content \<times> number_format) list \<Rightarrow> ('n, 'x) sheet_builder \<Rightarrow> validation_error + ('n, 'x) sheet_builder" where
  "build_all [] b = Inr b"
| "build_all ((a, content, format) # cells) b = res_bind (insert_shared_cell a content format b) (build_all cells)"

fun insert_all :: "nat \<Rightarrow> (cell_address \<times> 'n cell_content \<times> number_format) list \<Rightarrow> ('n, 'x) sheet \<Rightarrow> (validation_error + ('n, 'x) sheet) option" where
  "insert_all capacity [] s = Some (Inr s)"
| "insert_all capacity ((a, content, format) # cells) s =
    Option.bind (insert_cell_with_number_format capacity a content format s)
      (\<lambda>r. case r of Inl e \<Rightarrow> Some (Inl e) | Inr s' \<Rightarrow> insert_all capacity cells s')"

lemma build_all_sheet:
  assumes "builds b s" "sheet_ok capacity s" "0 < capacity" "\<forall>c\<in>set cells. valid_address (fst c)"
  shows "case build_all cells b of
      Inl e \<Rightarrow> insert_all capacity cells s = Some (Inl e)
    | Inr b' \<Rightarrow> \<exists>s'. insert_all capacity cells s = Some (Inr s') \<and> sheet_ok capacity s' \<and> builder_finish capacity b' = Some s'"
  using assms
proof (induction cells arbitrary: b s)
  case Nil
  then show ?case using builder_finish_sheet by auto
next
  case (Cons c cells)
  obtain a content format where c: "c = (a, content, format)" by (cases c) auto
  have step: "case insert_shared_cell a content format b of
      Inl e \<Rightarrow> insert_cell_with_number_format capacity a content format s = Some (Inl e)
    | Inr b' \<Rightarrow> \<exists>s'. insert_cell_with_number_format capacity a content format s = Some (Inr s') \<and> sheet_ok capacity s' \<and> builds b' s'"
    using builder_insert [OF Cons.prems(1-3)] Cons.prems(4) c by simp
  show ?case
  proof (cases "insert_shared_cell a content format b")
    case (Inl e)
    then show ?thesis using step c by simp
  next
    case (Inr b')
    then obtain s' where "insert_cell_with_number_format capacity a content format s = Some (Inr s')" "sheet_ok capacity s'" "builds b' s'"
      using step by auto
    then show ?thesis using Cons.IH [of b' s'] Cons.prems(3,4) Inr unfolding c by (simp split: sum.splits)
  qed
qed

lemma builder_new_builds: "builds (builder_new metadata) (sheet_new metadata)"
  by (simp add: builds_def builder_new_def sheet_new_def store_default_def radix_default_ok(2))

section \<open>Formula queries\<close>

definition formula_at :: "('n, 'x) sheet \<Rightarrow> cell_address \<Rightarrow> bool" where
  "formula_at s a = (valid_address a \<and> (\<exists>c. sheet_cell s a = Some c \<and> is_formula_content (cell_content c)))"

lemma formula_keys:
  assumes "sheet_ok capacity s"
  shows "set (map_keys (formula_addresses s)) = {a. formula_at s a}" "sorted_wrt (<) (map_keys (formula_addresses s))"
proof -
  have f: "formulas_exact s" using assms by (simp add: sheet_ok_def)
  then have ok: "map_ok (formula_addresses s)" by (simp add: formulas_exact_def)
  show "set (map_keys (formula_addresses s)) = {a. formula_at s a}"
  proof (intro set_eqI iffI CollectI)
    fix a assume a: "a \<in> set (map_keys (formula_addresses s))"
    then have "map_get (formula_addresses s) a = Some ()" using btree.keys_get [OF ok] by auto
    then show "formula_at s a" using f a unfolding formulas_exact_def formula_at_def by blast
  next
    fix a assume "a \<in> {a. formula_at s a}"
    then have "map_get (formula_addresses s) a = Some ()" using f unfolding formulas_exact_def formula_at_def by blast
    then show "a \<in> set (map_keys (formula_addresses s))" using btree.keys_get [OF ok] by auto
  qed
  show "sorted_wrt (<) (map_keys (formula_addresses s))" using ok by (simp add: map_ok_def)
qed

lemma find_first:
  fixes xs :: "'a::linorder list"
  assumes "sorted_wrt (<) xs"
  shows "find P xs = Some x \<longleftrightarrow> x \<in> set xs \<and> P x \<and> (\<forall>y\<in>set xs. P y \<longrightarrow> x \<le> y)"
  using assms
proof (induction xs)
  case (Cons y ys)
  then show ?case by (auto dest: less_imp_le)
qed simp

text \<open>Whether a formula address lies after the one asked for.\<close>

definition after_address :: "cell_address option \<Rightarrow> cell_address \<Rightarrow> bool" where
  "after_address after a = (case after of None \<Rightarrow> True | Some b \<Rightarrow> b < a)"

lemma next_formula_correct:
  assumes "sheet_ok capacity s" "0 < capacity"
  shows "case next_formula_cell_after s after of
      Some c \<Rightarrow> formula_at s (cell_addr c) \<and> after_address after (cell_addr c) \<and> sheet_cell s (cell_addr c) = Some c \<and>
        (\<forall>a. formula_at s a \<and> after_address after a \<longrightarrow> cell_addr c \<le> a)
    | None \<Rightarrow> \<forall>a. formula_at s a \<longrightarrow> \<not> after_address after a"
proof -
  let ?keys = "map_keys (formula_addresses s)"
  note keys = formula_keys [OF assms(1)]
  have st: "store_ok capacity (sh_cells s)" using assms(1) by (simp add: sheet_ok_def)
  let ?first = "find (after_address after) ?keys"
  have "(case after of Some address \<Rightarrow> find (\<lambda>candidate. candidate > address) (filter (\<lambda>candidate. address \<le> candidate) ?keys)
      | None \<Rightarrow> (case ?keys of [] \<Rightarrow> None | first # _ \<Rightarrow> Some first)) = ?first"
  proof (cases after)
    case None
    then show ?thesis by (cases ?keys) (simp_all add: after_address_def)
  next
    case (Some b)
    have "find (\<lambda>c. b < c) (filter (\<lambda>c. b \<le> c) xs) = find (\<lambda>c. b < c) xs" for xs
      by (induction xs) (auto dest: less_imp_le)
    moreover have "after_address (Some b) = (\<lambda>c. b < c)" by (simp add: fun_eq_iff after_address_def)
    ultimately show ?thesis using Some by simp
  qed
  then have run: "next_formula_cell_after s after = Option.bind ?first (sheet_cell s)"
    by (simp add: next_formula_cell_after_def sheet_cell_def [abs_def])
  show ?thesis
  proof (cases ?first)
    case None
    then have "next_formula_cell_after s after = None" using run by simp
    moreover have "\<forall>a. formula_at s a \<longrightarrow> \<not> after_address after a" using None keys(1) unfolding find_None_iff by auto
    ultimately show ?thesis by simp
  next
    case (Some a)
    then have a: "formula_at s a" "after_address after a" "\<forall>y. formula_at s y \<and> after_address after y \<longrightarrow> a \<le> y"
      using find_first [OF keys(2)] keys(1) by auto
    obtain c where c: "sheet_cell s a = Some c" "valid_address a" using a(1) by (auto simp: formula_at_def)
    then have "cell_addr c = a" using store_get_iff [OF st assms(2) c(2)] by (simp add: sheet_cell_def)
    then show ?thesis using run Some a c by simp
  qed
qed

section \<open>Detaching shared formulas\<close>

definition detached :: "'n cell \<Rightarrow> 'n cell" where
  "detached c = (case cell_content c of
      Formula f \<Rightarrow> c\<lparr>cell_content := Formula (f\<lparr>fc_metadata := Normal\<rparr>)\<rparr> | Literal _ \<Rightarrow> c)"

lemma detach_follower_ok:
  assumes "sheet_ok capacity s" "0 < capacity" "formula_at s a"
  shows "\<exists>s'. detach_follower capacity s a = Some s' \<and> sheet_ok capacity s' \<and>
    (\<forall>b. valid_address b \<longrightarrow> sheet_cell s' b = (if b = a then map_option detached (sheet_cell s b) else sheet_cell s b))"
proof -
  obtain c f where c: "sheet_cell s a = Some c" "cell_content c = Formula f" "valid_address a"
    using assms(3) by (auto simp: formula_at_def elim: is_formula_content.elims)
  have "cell_addr c = a" using store_get_iff [of capacity "sh_cells s" a c] assms c by (simp add: sheet_cell_def sheet_ok_def)
  then have "cell_with_number_format a (Formula (from_xlsx_parts (fc_dialect f) (fc_text f) (fc_saved_result f) Normal (fc_recalculate_always f)))
      (cell_number_format c) = detached c"
    using c(2) by (cases c, cases f) (simp add: cell_with_number_format_def detached_def from_xlsx_parts_def)
  moreover have "cell_addr (detached c) = a" using c(2) \<open>cell_addr c = a\<close> by (simp add: detached_def)
  ultimately show ?thesis
    using upsert_instance_keeps [OF assms(1,2), of "detached c"] c by (auto simp: detach_follower_def upsert_cell_instance)
qed

lemma detach_all_ok:
  assumes "sheet_ok capacity s" "0 < capacity" "\<forall>a\<in>set as. formula_at s a" "distinct as"
  shows "\<exists>s'. try_fold (detach_follower capacity) s as = Some s' \<and> sheet_ok capacity s' \<and>
    (\<forall>b. valid_address b \<longrightarrow> sheet_cell s' b = (if b \<in> set as then map_option detached (sheet_cell s b) else sheet_cell s b))"
  using assms(1,3,4)
proof (induction as arbitrary: s)
  case (Cons a as)
  obtain s1 where s1: "detach_follower capacity s a = Some s1" "sheet_ok capacity s1"
    "\<forall>b. valid_address b \<longrightarrow> sheet_cell s1 b = (if b = a then map_option detached (sheet_cell s b) else sheet_cell s b)"
    using detach_follower_ok [OF Cons.prems(1) assms(2), of a] Cons.prems(2) by auto
  have "\<forall>b\<in>set as. formula_at s1 b" using Cons.prems(2,3) s1(3) by (auto simp: formula_at_def)
  then obtain s' where s': "try_fold (detach_follower capacity) s1 as = Some s'" "sheet_ok capacity s'"
    "\<forall>b. valid_address b \<longrightarrow> sheet_cell s' b = (if b \<in> set as then map_option detached (sheet_cell s1 b) else sheet_cell s1 b)"
    using Cons.IH [OF s1(2)] Cons.prems(3) by auto
  then show ?case using s1 Cons.prems(3) by auto
qed auto

lemma shared_followers_formulas:
  assumes "sheet_ok capacity s"
  shows "\<forall>a\<in>set (shared_followers s anchor). formula_at s a" "distinct (shared_followers s anchor)"
proof -
  have "set (shared_followers s anchor) \<subseteq> set (map_keys (formula_addresses s))"
    by (auto simp: shared_followers_def split: option.splits cell_content.splits formula_metadata.splits shared_formula_role.splits)
  then show "\<forall>a\<in>set (shared_followers s anchor). formula_at s a" using formula_keys(1) [OF assms] by blast
  have "distinct (map_keys (formula_addresses s))" using formula_keys(2) [OF assms] strict_sorted_iff by blast
  then show "distinct (shared_followers s anchor)"
    by (auto simp: shared_followers_def split: option.splits cell_content.splits formula_metadata.splits shared_formula_role.splits)
qed

lemma detach_ok:
  assumes "sheet_ok capacity s" "0 < capacity"
  shows "\<exists>s'. detach_shared_formula_followers capacity anchor s = Some (s', shared_followers s anchor) \<and> sheet_ok capacity s' \<and>
    (\<forall>b. valid_address b \<longrightarrow> sheet_cell s' b =
      (if b \<in> set (shared_followers s anchor) then map_option detached (sheet_cell s b) else sheet_cell s b))"
  using detach_all_ok [OF assms shared_followers_formulas [OF assms(1)], of anchor]
  by (auto simp: detach_shared_formula_followers_def)

text \<open>Membership of the followers of an anchor, without the detour through the index.\<close>

lemma shared_followers_iff:
  assumes "sheet_ok capacity s" "sheet_cell s anchor = Some c" "cell_content c = Formula f"
    "fc_metadata f = Shared group_index Anchor (Some r)"
  shows "a \<in> set (shared_followers s anchor) \<longleftrightarrow> valid_address a \<and> contains r a \<and>
    (\<exists>c'. sheet_cell s a = Some c' \<and> is_follower group_index anchor (cell_content c'))"
proof -
  have "formula_at s a" if "valid_address a" "sheet_cell s a = Some c'" "is_follower group_index anchor (cell_content c')" for c'
    using that by (auto simp: formula_at_def is_follower_def split: cell_content.splits)
  moreover have "contains r a \<Longrightarrow> rng_start r \<le> a \<and> a \<le> rng_end r"
    by (auto simp: contains_def less_eq_cell_address_def)
  ultimately show ?thesis
    using assms(2-4) formula_keys(1) [OF assms(1)] by (auto simp: shared_followers_def formula_at_def split: option.splits)
qed

section \<open>Reachable sheets\<close>

text \<open>The sheets a sequence of operations can make, from a new one or from a builder.\<close>

inductive sheet_reached :: "nat \<Rightarrow> ('n, 'x) sheet \<Rightarrow> bool" for capacity where
  new: "sheet_reached capacity (sheet_new metadata)"
| insert: "sheet_reached capacity s \<Longrightarrow> valid_address a \<Longrightarrow>
    insert_cell_with_number_format capacity a content format s = Some (Inr s') \<Longrightarrow> sheet_reached capacity s'"
| upsert: "sheet_reached capacity s \<Longrightarrow> valid_address a \<Longrightarrow>
    upsert_cell_deferred capacity a content format s = Some s' \<Longrightarrow> sheet_reached capacity s'"
| upsert_instance: "sheet_reached capacity s \<Longrightarrow> valid_address (cell_addr c) \<Longrightarrow>
    upsert_cell_instance_deferred capacity c s = Some s' \<Longrightarrow> sheet_reached capacity s'"
| remove: "sheet_reached capacity s \<Longrightarrow> valid_address a \<Longrightarrow>
    remove_cell_deferred capacity a s = Some (s', removed) \<Longrightarrow> sheet_reached capacity s'"
| detach: "sheet_reached capacity s \<Longrightarrow> detach_shared_formula_followers capacity anchor s = Some (s', followers) \<Longrightarrow>
    sheet_reached capacity s'"
| finish: "sheet_reached capacity s \<Longrightarrow> sheet_reached capacity (finish_deferred_cell_edits s)"
| built: "\<forall>c\<in>set cells. valid_address (fst c) \<Longrightarrow> build_all cells (builder_new metadata) = Inr b \<Longrightarrow>
    builder_finish capacity b = Some s \<Longrightarrow> sheet_reached capacity s"

lemma reached_ok:
  assumes "sheet_reached capacity s" "0 < capacity"
  shows "sheet_ok capacity s"
  using assms
proof (induction rule: sheet_reached.induct)
  case (insert s a content format s')
  then show ?case using insert_cell_ok [of capacity s a content format] by (auto split: option.splits)
next
  case (upsert s a content format s')
  then show ?case
    using upsert_instance_keeps [of capacity s "cell_with_number_format a content format"]
    by (auto simp: upsert_cell_instance cell_with_number_format_def)
next
  case (upsert_instance s c s')
  then show ?case using upsert_instance_keeps [of capacity s c] by auto
next
  case (remove s a s' removed)
  then show ?case using remove_cell_ok [of capacity s a] by auto
next
  case (detach s anchor s' followers)
  then show ?case using detach_ok [of capacity s anchor] by auto
next
  case (built cells metadata b s)
  then show ?case
    using build_all_sheet [OF builder_new_builds sheet_new_ok, of capacity cells metadata] by auto
qed (auto simp: sheet_new_ok finish_ok(1))

lemma occupied_valid: "sheet_ok capacity s \<Longrightarrow> a \<in> occupied s \<Longrightarrow> valid_address a"
  by (auto simp: occupied_def sheet_ok_def intro: store_values_valid)

text \<open>A sheet with one cell, for concrete instances.\<close>

lemma one_cell_sheet:
  assumes "0 < capacity" "valid_address a"
  obtains s where "insert_cell capacity a content (sheet_new metadata) = Some (Inr s)" "sheet_reached capacity s"
    "\<forall>b. valid_address b \<longrightarrow> sheet_cell s b = (if b = a then Some (cell_with_number_format a content number_format_default) else None)"
proof -
  have empty: "sheet_cell (sheet_new metadata) b = None" for b by (simp add: sheet_cell_def sheet_new_def store_default_empty)
  then obtain s where s: "insert_cell_with_number_format capacity a content number_format_default (sheet_new metadata) = Some (Inr s)"
    "\<forall>b. valid_address b \<longrightarrow> sheet_cell s b = (if b = a then Some (cell_with_number_format a content number_format_default) else None)"
    using insert_cell_ok [OF sheet_new_ok [of capacity metadata] assms, of content number_format_default] assms(1) unfolding empty by auto
  show thesis by (rule that [OF _ sheet_reached.insert [OF sheet_reached.new assms(2) s(1)] s(2)]) (simp add: insert_cell_def s(1))
qed

section \<open>Properties\<close>

text \<open>C27: every sheet that insertions, replacements, removals, shared-formula detachment, the builder
and deferred-bound rebuilds can reach, in any order, has a sound cell store; the formula index holds
exactly the addresses of formula cells, the array index exactly the multi-cell array ranges, and unless
the bounds are marked dirty they are the exact extremes of the occupied cells, per column as well.\<close>

theorem sheet_invariant:
  assumes "sheet_reached capacity s" "0 < capacity"
  shows "sheet_ok capacity s"
  using assms by (rule reached_ok)

theorem sheet_invariant_witness:
  "\<exists>s. insert_cell 2 (CellAddress 3 2) (Literal (Logical True :: nat cell_value)) (sheet_new ()) = Some (Inr s) \<and> sheet_ok 2 s \<and>
    sheet_cell s (CellAddress 3 2) = Some (cell_with_number_format (CellAddress 3 2) (Literal (Logical True)) number_format_default)"
proof -
  obtain s :: "(nat, unit) sheet" where s: "insert_cell 2 (CellAddress 3 2) (Literal (Logical True)) (sheet_new ()) = Some (Inr s)"
    "sheet_reached 2 s" "\<forall>b. valid_address b \<longrightarrow> sheet_cell s b =
      (if b = CellAddress 3 2 then Some (cell_with_number_format (CellAddress 3 2) (Literal (Logical True)) number_format_default) else None)"
    by (rule one_cell_sheet [of 2 "CellAddress 3 2"]) (simp_all add: valid_address_def excel_max)
  then show ?thesis using sheet_invariant [OF s(2)] by (auto simp: valid_address_def excel_max)
qed

lemma sheet_edit_cases:
  assumes "sheet_reached capacity s" "0 < capacity" "valid_address a"
  shows "case sheet_cell s a of
      Some _ \<Rightarrow> insert_cell_with_number_format capacity a content format s = Some (Inl (DuplicateCell (addr_row a) (addr_column a)))
    | None \<Rightarrow> \<exists>s'. insert_cell_with_number_format capacity a content format s = Some (Inr s') \<and>
        (\<forall>b. valid_address b \<longrightarrow> sheet_cell s' b = (if b = a then Some (cell_with_number_format a content format) else sheet_cell s b))"
    and "\<exists>s'. upsert_cell_deferred capacity a content format s = Some s' \<and>
        (\<forall>b. valid_address b \<longrightarrow> sheet_cell s' b = (if b = a then Some (cell_with_number_format a content format) else sheet_cell s b))"
    and "\<exists>s'. remove_cell_deferred capacity a s = Some (s', sheet_cell s a \<noteq> None) \<and>
        (\<forall>b. valid_address b \<longrightarrow> sheet_cell s' b = (if b = a then None else sheet_cell s b))"
    and "sheet_cell (finish_deferred_cell_edits s) b = sheet_cell s b"
proof -
  have ok: "sheet_ok capacity s" using assms(1,2) by (rule reached_ok)
  show "case sheet_cell s a of
      Some _ \<Rightarrow> insert_cell_with_number_format capacity a content format s = Some (Inl (DuplicateCell (addr_row a) (addr_column a)))
    | None \<Rightarrow> \<exists>s'. insert_cell_with_number_format capacity a content format s = Some (Inr s') \<and>
        (\<forall>b. valid_address b \<longrightarrow> sheet_cell s' b = (if b = a then Some (cell_with_number_format a content format) else sheet_cell s b))"
    using insert_cell_ok [OF ok assms(2,3), of content format] by (auto split: option.splits)
  show "\<exists>s'. upsert_cell_deferred capacity a content format s = Some s' \<and>
      (\<forall>b. valid_address b \<longrightarrow> sheet_cell s' b = (if b = a then Some (cell_with_number_format a content format) else sheet_cell s b))"
    using upsert_instance_keeps [OF ok assms(2), of "cell_with_number_format a content format"] assms(3)
    by (auto simp: upsert_cell_instance cell_with_number_format_def)
  show "\<exists>s'. remove_cell_deferred capacity a s = Some (s', sheet_cell s a \<noteq> None) \<and>
      (\<forall>b. valid_address b \<longrightarrow> sheet_cell s' b = (if b = a then None else sheet_cell s b))"
    using remove_cell_ok [OF ok assms(2,3)] by auto
  show "sheet_cell (finish_deferred_cell_edits s) b = sheet_cell s b" using finish_ok(3) [OF ok] by (simp add: sheet_cell_def)
qed

text \<open>C35: the four edits act on exactly one address: insertion refuses an occupied address with
\<open>DuplicateCell\<close> and otherwise stores the cell, replacement stores it whatever was there, removal
clears it and reports whether there was a cell, and finishing the edits changes no cell; every one of
them returns (no panic of the cell store).\<close>

theorem sheet_edits_exact:
  assumes "sheet_reached capacity s" "0 < capacity" "valid_address a"
  shows "(case sheet_cell s a of
      Some _ \<Rightarrow> insert_cell_with_number_format capacity a content format s = Some (Inl (DuplicateCell (addr_row a) (addr_column a)))
    | None \<Rightarrow> \<exists>s'. insert_cell_with_number_format capacity a content format s = Some (Inr s') \<and>
        (\<forall>b. valid_address b \<longrightarrow> sheet_cell s' b = (if b = a then Some (cell_with_number_format a content format) else sheet_cell s b))) \<and>
    (\<exists>s'. upsert_cell_deferred capacity a content format s = Some s' \<and>
        (\<forall>b. valid_address b \<longrightarrow> sheet_cell s' b = (if b = a then Some (cell_with_number_format a content format) else sheet_cell s b))) \<and>
    (\<exists>s'. remove_cell_deferred capacity a s = Some (s', sheet_cell s a \<noteq> None) \<and>
        (\<forall>b. valid_address b \<longrightarrow> sheet_cell s' b = (if b = a then None else sheet_cell s b))) \<and>
    sheet_cell (finish_deferred_cell_edits s) b = sheet_cell s b"
  using sheet_edit_cases [OF assms] by blast

theorem sheet_edits_exact_witness:
  "\<exists>s. insert_cell 2 (CellAddress 3 2) (Literal (Logical True :: nat cell_value)) (sheet_new ()) = Some (Inr s) \<and>
    insert_cell 2 (CellAddress 3 2) (Literal Blank) s = Some (Inl (DuplicateCell 3 2)) \<and>
    (\<exists>s'. remove_cell_deferred 2 (CellAddress 3 2) s = Some (s', True) \<and> sheet_cell s' (CellAddress 3 2) = None)"
proof -
  let ?a = "CellAddress 3 2"
  have v: "valid_address ?a" by (simp add: valid_address_def excel_max)
  obtain s :: "(nat, unit) sheet" where s: "insert_cell 2 ?a (Literal (Logical True)) (sheet_new ()) = Some (Inr s)"
    "sheet_reached 2 s" "\<forall>b. valid_address b \<longrightarrow> sheet_cell s b =
      (if b = ?a then Some (cell_with_number_format ?a (Literal (Logical True)) number_format_default) else None)"
    by (rule one_cell_sheet [of 2 ?a]) (simp_all add: v)
  have "sheet_cell s ?a \<noteq> None" using s(3) v by simp
  then show ?thesis
    using s(1) v sheet_edits_exact [OF s(2) _ v, of "Literal Blank" number_format_default ?a]
    by (auto simp: insert_cell_def split: option.splits)
qed

text \<open>C38: Once deferred edits are finished, the used range is the smallest rectangle that holds every
occupied cell, and there is none exactly when the sheet is empty.\<close>

theorem used_range_least:
  assumes "sheet_reached capacity s" "0 < capacity"
  shows "case used_range (finish_deferred_cell_edits s) of
      None \<Rightarrow> \<forall>a. valid_address a \<longrightarrow> sheet_cell s a = None
    | Some r \<Rightarrow> valid_range r \<and> (\<exists>a. valid_address a \<and> sheet_cell s a \<noteq> None) \<and>
        (\<forall>a. valid_address a \<and> sheet_cell s a \<noteq> None \<longrightarrow> contains r a) \<and>
        (\<forall>q. (\<forall>a. valid_address a \<and> sheet_cell s a \<noteq> None \<longrightarrow> contains q a) \<longrightarrow> cells_of r \<subseteq> cells_of q)"
proof -
  let ?s = "finish_deferred_cell_edits s"
  have ok: "sheet_ok capacity s" using assms by (rule reached_ok)
  then have st: "store_ok capacity (sh_cells s)" by (simp add: sheet_ok_def)
  have same: "occupied ?s = occupied s" using finish_ok(3) [OF ok] by (simp add: occupied_def)
  have occ: "occupied s = {a. valid_address a \<and> sheet_cell s a \<noteq> None}"
    using occupied_iff [OF st assms(2)] occupied_valid [OF ok] by blast
  have "bounds_exact (occupied ?s) ?s" "\<And>a. a \<in> occupied ?s \<Longrightarrow> valid_address a"
    using finish_ok(2) [OF ok] same occupied_valid [OF ok] by simp_all
  note exact = used_range_exact [OF this, unfolded same occ]
  have "{a. valid_address a \<and> sheet_cell s a \<noteq> None} \<subseteq> cells_of q \<longleftrightarrow>
      (\<forall>a. valid_address a \<and> sheet_cell s a \<noteq> None \<longrightarrow> contains q a)" for q by auto
  with exact show ?thesis by (auto split: option.splits)
qed

theorem used_range_least_witness:
  "\<exists>s. insert_cell 2 (CellAddress 3 2) (Literal (Logical True :: nat cell_value)) (sheet_new ()) = Some (Inr s) \<and>
    (\<exists>r. used_range (finish_deferred_cell_edits s) = Some r \<and> valid_range r \<and> contains r (CellAddress 3 2))"
proof -
  let ?a = "CellAddress 3 2"
  have v: "valid_address ?a" by (simp add: valid_address_def excel_max)
  obtain s :: "(nat, unit) sheet" where s: "insert_cell 2 ?a (Literal (Logical True)) (sheet_new ()) = Some (Inr s)"
    "sheet_reached 2 s" "\<forall>b. valid_address b \<longrightarrow> sheet_cell s b =
      (if b = ?a then Some (cell_with_number_format ?a (Literal (Logical True)) number_format_default) else None)"
    by (rule one_cell_sheet [of 2 ?a]) (simp_all add: v)
  then show ?thesis using used_range_least [OF s(2)] v by (auto split: option.splits)
qed

text \<open>C29: collecting cells in the builder and finishing it gives the very sheet that inserting them one
after the other gives, indexes and tree included, with the same error on the first repeated address,
and neither panics.\<close>

theorem builder_equivalent:
  assumes "0 < capacity" "\<forall>c\<in>set cells. valid_address (fst c)"
  shows "case build_all cells (builder_new metadata) of
      Inl e \<Rightarrow> insert_all capacity cells (sheet_new metadata) = Some (Inl e)
    | Inr b \<Rightarrow> \<exists>s. builder_finish capacity b = Some s \<and> insert_all capacity cells (sheet_new metadata) = Some (Inr s)"
  using build_all_sheet [OF builder_new_builds [of metadata] sheet_new_ok [OF assms(1)] assms] by (auto split: sum.splits)

theorem builder_equivalent_witness:
  "\<exists>b. build_all [(CellAddress 3 2, Literal Blank, number_format_default), (CellAddress 1 4, Literal (Logical True :: nat cell_value), number_format_default)]
      (builder_new ()) = Inr b \<and> (\<exists>s. builder_finish 2 b = Some s \<and>
    insert_all 2 [(CellAddress 3 2, Literal Blank, number_format_default), (CellAddress 1 4, Literal (Logical True), number_format_default)]
      (sheet_new ()) = Some (Inr s))"
  using builder_equivalent [of 2 "[(CellAddress 3 2, Literal Blank, number_format_default),
      (CellAddress 1 4, Literal (Logical True :: nat cell_value), number_format_default)]" "()"]
  by (simp add: valid_address_def excel_max insert_shared_cell_def builder_new_def sheet_new_def map_get_def store_key_def row_key_def u32_sub_def)

text \<open>Asking for the next formula cell after an address gives the formula cell with the least
later address in row-major order (the least of all without an address), and nothing exactly when no
formula cell is left, so repeated calls walk over every formula cell once.\<close>

theorem next_formula_exact:
  assumes "sheet_reached capacity s" "0 < capacity"
  shows "case next_formula_cell_after s after of
      Some c \<Rightarrow> formula_at s (cell_addr c) \<and> after_address after (cell_addr c) \<and> sheet_cell s (cell_addr c) = Some c \<and>
        (\<forall>a. formula_at s a \<and> after_address after a \<longrightarrow> cell_addr c \<le> a)
    | None \<Rightarrow> \<forall>a. formula_at s a \<longrightarrow> \<not> after_address after a"
  using next_formula_correct [OF reached_ok [OF assms] assms(2)] .

theorem next_formula_exact_witness:
  "\<exists>s. insert_cell 2 (CellAddress 3 2) (Formula (from_xlsx_parts ExcelA1 None (Missing :: nat saved_result) Normal False)) (sheet_new ()) = Some (Inr s) \<and>
    (\<exists>c. next_formula_cell_after s None = Some c \<and> cell_addr c = CellAddress 3 2) \<and>
    next_formula_cell_after s (Some (CellAddress 3 2)) = None"
proof -
  let ?a = "CellAddress 3 2" and ?f = "Formula (from_xlsx_parts ExcelA1 None (Missing :: nat saved_result) Normal False)"
  obtain s :: "(nat, unit) sheet" where s: "insert_cell 2 ?a ?f (sheet_new ()) = Some (Inr s)" "sheet_reached 2 s"
    "\<forall>b. valid_address b \<longrightarrow> sheet_cell s b = (if b = ?a then Some (cell_with_number_format ?a ?f number_format_default) else None)"
    by (rule one_cell_sheet [of 2 ?a]) (simp_all add: valid_address_def excel_max)
  have "valid_address ?a" by (simp add: valid_address_def excel_max)
  then have "formula_at s b \<longleftrightarrow> b = ?a" for b
    using s(3) by (auto simp: formula_at_def cell_with_number_format_def split: if_splits)
  then show ?thesis
    using s(1) next_formula_exact [OF s(2), of None] next_formula_exact [OF s(2), of "Some ?a"]
    by (auto simp: after_address_def split: option.splits)
qed

text \<open>Detaching the followers of a shared formula's anchor returns, sets the metadata of exactly
the follower cells to normal and touches no other cell or field; the addresses reported are those of
the cells inside the shared range that name the anchor and group.\<close>

theorem detach_followers_exact:
  assumes "sheet_reached capacity s" "0 < capacity" "sheet_cell s anchor = Some c" "cell_content c = Formula f"
    "fc_metadata f = Shared group_index Anchor (Some r)"
  shows "\<exists>s' followers. detach_shared_formula_followers capacity anchor s = Some (s', followers) \<and>
    (\<forall>a. a \<in> set followers \<longleftrightarrow> valid_address a \<and> contains r a \<and>
      (\<exists>c'. sheet_cell s a = Some c' \<and> is_follower group_index anchor (cell_content c'))) \<and>
    (\<forall>b. valid_address b \<longrightarrow> sheet_cell s' b = (if b \<in> set followers then map_option detached (sheet_cell s b) else sheet_cell s b))"
  using detach_ok [OF reached_ok [OF assms(1,2)] assms(2), of anchor] shared_followers_iff [OF reached_ok [OF assms(1,2)] assms(3-5)]
  by blast

theorem detach_followers_exact_witness:
  "\<exists>s. insert_all 2
      [(CellAddress 3 2, Formula \<lparr>fc_dialect = ExcelA1, fc_text = None, fc_saved_result = Missing,
          fc_metadata = Shared 7 Anchor (Some (\<lparr>rng_start = CellAddress 3 2, rng_end = CellAddress 5 2\<rparr>)), fc_recalculate_always = False\<rparr>, number_format_default),
       (CellAddress 4 2, Formula \<lparr>fc_dialect = ExcelA1, fc_text = None, fc_saved_result = Missing :: nat saved_result,
          fc_metadata = Shared 7 (Follower (CellAddress 3 2)) None, fc_recalculate_always = False\<rparr>, number_format_default)]
      (sheet_new ()) = Some (Inr s) \<and>
    (\<exists>s' followers. detach_shared_formula_followers 2 (CellAddress 3 2) s = Some (s', followers) \<and> CellAddress 4 2 \<in> set followers \<and>
      (\<exists>c f. sheet_cell s' (CellAddress 4 2) = Some c \<and> cell_content c = Formula f \<and> fc_metadata f = Normal))"
proof -
  let ?a = "CellAddress 3 2" and ?b = "CellAddress 4 2" and ?r = "\<lparr>rng_start = CellAddress 3 2, rng_end = CellAddress 5 2\<rparr>"
  let ?f = "\<lparr>fc_dialect = ExcelA1, fc_text = None, fc_saved_result = Missing :: nat saved_result, fc_metadata = Shared 7 Anchor (Some ?r), fc_recalculate_always = False\<rparr>"
  let ?g = "\<lparr>fc_dialect = ExcelA1, fc_text = None, fc_saved_result = Missing :: nat saved_result, fc_metadata = Shared 7 (Follower ?a) None, fc_recalculate_always = False\<rparr>"
  have v: "valid_address ?a" "valid_address ?b" by (simp_all add: valid_address_def excel_max)
  obtain s1 :: "(nat, unit) sheet" where s1: "insert_cell 2 ?a (Formula ?f) (sheet_new ()) = Some (Inr s1)" "sheet_reached 2 s1"
    "\<forall>b. valid_address b \<longrightarrow> sheet_cell s1 b = (if b = ?a then Some (cell_with_number_format ?a (Formula ?f) number_format_default) else None)"
    by (rule one_cell_sheet [of 2 ?a]) (simp_all add: v)
  obtain s where s: "insert_cell_with_number_format 2 ?b (Formula ?g) number_format_default s1 = Some (Inr s)"
    "\<forall>b. valid_address b \<longrightarrow> sheet_cell s b = (if b = ?b then Some (cell_with_number_format ?b (Formula ?g) number_format_default) else sheet_cell s1 b)"
    using insert_cell_ok [OF reached_ok [OF s1(2)] _ v(2), of "Formula ?g" number_format_default] s1(3) v by auto
  have reached: "sheet_reached 2 s" by (rule sheet_reached.insert [OF s1(2) v(2) s(1)])
  have cells: "sheet_cell s ?a = Some (cell_with_number_format ?a (Formula ?f) number_format_default)"
    "sheet_cell s ?b = Some (cell_with_number_format ?b (Formula ?g) number_format_default)"
    using s(2) s1(3) v by simp_all
  have "is_follower 7 ?a (Formula ?g)" "contains ?r ?b" by (simp_all add: is_follower_def contains_def)
  then show ?thesis
    using detach_followers_exact [OF reached _ cells(1), of ?f 7 ?r] cells(2) s(1) s1(1) v(2)
    by (auto simp: cell_with_number_format_def insert_cell_def detached_def)
qed

end
