(* ===== verification/Unicode.thy ===== *)
theory Unicode
  imports Errors
begin

text \<open>
  Unicode text as the sources use it: a \<open>str\<close> is its list of characters, a character its code
  point.  Patterns of ASCII bytes never match inside the encoding of another character, so what the
  sources do on bytes with such patterns is done here on characters.
\<close>

section \<open>Lengths\<close>

text \<open>\<open>char::len_utf16\<close> and \<open>char::len_utf8\<close>, summed over a text.\<close>

definition char_utf16 :: "uchar \<Rightarrow> nat" where
  "char_utf16 c = (if c < 65536 then 1 else 2)"

definition utf16_len :: "ustring \<Rightarrow> nat" where
  "utf16_len s = sum_list (map char_utf16 s)"

definition char_utf8 :: "uchar \<Rightarrow> nat" where
  "char_utf8 c = (if c < 128 then 1 else if c < 2048 then 2 else if c < 65536 then 3 else 4)"

definition utf8_len :: "ustring \<Rightarrow> nat" where
  "utf8_len s = sum_list (map char_utf8 s)"

lemma utf16_simps [simp]: "utf16_len [] = 0" "utf16_len (c # s) = char_utf16 c + utf16_len s"
  "utf16_len (s @ t) = utf16_len s + utf16_len t"
  by (simp_all add: utf16_len_def)

lemma char_utf16_pos: "1 \<le> char_utf16 c"
  by (simp add: char_utf16_def)

lemma utf16_le_utf8: "utf16_len s \<le> utf8_len s"
  by (induction s) (auto simp: utf16_len_def utf8_len_def char_utf16_def char_utf8_def)

section \<open>ASCII text\<close>

definition ascii :: "string \<Rightarrow> ustring" where
  "ascii s = map of_char s"

definition to_ascii :: "ustring \<Rightarrow> string option" where
  "to_ascii s = (if list_all (\<lambda>c. c < 128) s then Some (map char_of s) else None)"

definition uchar_digit :: "uchar \<Rightarrow> bool" where
  "uchar_digit c \<longleftrightarrow> 48 \<le> c \<and> c \<le> 57"

definition uchar_hexdigit :: "uchar \<Rightarrow> bool" where
  "uchar_hexdigit c \<longleftrightarrow> uchar_digit c \<or> 65 \<le> c \<and> c \<le> 70 \<or> 97 \<le> c \<and> c \<le> 102"

definition uchar_upper :: "uchar \<Rightarrow> uchar" where
  "uchar_upper c = (if 97 \<le> c \<and> c \<le> 122 then c - 32 else c)"

definition eq_ignore_ascii_case :: "ustring \<Rightarrow> ustring \<Rightarrow> bool" where
  "eq_ignore_ascii_case s t \<longleftrightarrow> map uchar_upper s = map uchar_upper t"

lemma to_ascii_ascii: "list_all (\<lambda>c. of_char c < (128 :: nat)) s \<Longrightarrow> to_ascii (ascii s) = Some s"
  by (auto simp: to_ascii_def ascii_def list_all_iff comp_def map_idI)

lemma ascii_append [simp]: "ascii (s @ t) = ascii s @ ascii t" "ascii [] = []"
  by (simp_all add: ascii_def)

end
