(* ===== verification/Csv.thy ===== *)
theory Csv
  imports Sheet Unicode
begin

text \<open>
  CSV import and export of one sheet (\<open>csv/mod.rs\<close>, \<open>csv/read.rs\<close>, \<open>csv/write.rs\<close>,
  \<open>csv/error.rs\<close>).

  The input is modelled after UTF-8 decoding, as a list of characters, and the output before
  encoding.  \<open>str::parse::<f64>\<close> with the check that the result is finite, and \<open>f64\<close>'s
  \<open>Display\<close>, are the parameters \<open>parse_number\<close> and \<open>show_number\<close>.  Reading is modelled up to the
  list of cell values it sets in a new draft.
\<close>

section \<open>Errors\<close>

datatype csv_error_code =
    InvalidDelimiter | InvalidUtf8 | UnterminatedQuote | InvalidQuote | TooManyRows | TooManyColumns
  | TooManyCells | FieldTooLong | InvalidValue | UnknownSheet | StaleCalculation | UnavailableResult

fun csv_code_as_str :: "csv_error_code \<Rightarrow> string" where
  "csv_code_as_str InvalidDelimiter = ''csv.invalid_delimiter''"
| "csv_code_as_str InvalidUtf8 = ''csv.read.invalid_utf8''"
| "csv_code_as_str UnterminatedQuote = ''csv.read.unterminated_quote''"
| "csv_code_as_str InvalidQuote = ''csv.read.invalid_quote''"
| "csv_code_as_str TooManyRows = ''csv.read.too_many_rows''"
| "csv_code_as_str TooManyColumns = ''csv.read.too_many_columns''"
| "csv_code_as_str TooManyCells = ''csv.read.too_many_cells''"
| "csv_code_as_str FieldTooLong = ''csv.read.field_too_long''"
| "csv_code_as_str InvalidValue = ''csv.read.invalid_value''"
| "csv_code_as_str UnknownSheet = ''csv.write.unknown_sheet''"
| "csv_code_as_str StaleCalculation = ''csv.write.stale_calculation''"
| "csv_code_as_str UnavailableResult = ''csv.write.unavailable_result''"

record csv_error =
  csv_code :: csv_error_code
  csv_detail :: "string option"

definition csv_error_new :: "csv_error_code \<Rightarrow> csv_error" where
  "csv_error_new code = \<lparr>csv_code = code, csv_detail = None\<rparr>"

definition with_detail :: "string \<Rightarrow> csv_error \<Rightarrow> csv_error" where
  "with_detail detail e = e\<lparr>csv_detail := Some detail\<rparr>"

definition at_line :: "csv_error_code \<Rightarrow> nat \<Rightarrow> csv_error" where
  "at_line code line = with_detail (''line '' @ show_nat line) (csv_error_new code)"

section \<open>Values\<close>

text \<open>Comma, semicolon, tab, vertical bar and space.\<close>

definition DELIMITERS :: "uchar list" where
  "DELIMITERS = [44, 59, 9, 124, 32]"

definition validate_delimiter :: "uchar \<Rightarrow> csv_error + uchar" where
  "validate_delimiter delimiter =
    (if \<not> List.member DELIMITERS delimiter then Inl (csv_error_new InvalidDelimiter) else Inr delimiter)"

definition skip_sign :: "ustring \<Rightarrow> ustring" where
  "skip_sign s = (case s of c # s' \<Rightarrow> if c = 43 \<or> c = 45 then s' else s | [] \<Rightarrow> s)"

definition digits :: "ustring \<Rightarrow> nat \<times> ustring" where
  "digits s = (length (takeWhile uchar_digit s), dropWhile uchar_digit s)"

definition is_decimal_number :: "ustring \<Rightarrow> bool" where
  "is_decimal_number field =
    (let (integer, s) = digits (skip_sign field);
         (fraction, s) = (case s of c # s' \<Rightarrow> if c = 46 then digits s' else (0, s) | [] \<Rightarrow> (0, s))
     in if integer = 0 \<and> fraction = 0 then False
        else case s of
          c # s' \<Rightarrow>
            if c = 101 \<or> c = 69
            then (let (n, s) = digits (skip_sign s') in if n = 0 then False else s = [])
            else False
        | [] \<Rightarrow> True)"

definition unquoted_literal :: "(ustring \<Rightarrow> 'n option) \<Rightarrow> ustring \<Rightarrow> 'n cell_value option" where
  "unquoted_literal parse_number field =
    (if is_decimal_number field then map_option Number (parse_number field)
     else if eq_ignore_ascii_case field (ascii ''TRUE'') then Some (Logical True)
     else if eq_ignore_ascii_case field (ascii ''FALSE'') then Some (Logical False)
     else map_option Error (Option.bind (to_ascii field) excel_error_from_spelling))"

section \<open>Reading\<close>

datatype field = Quoted ustring | Unquoted ustring

text \<open>The characters of a quoted field, after its opening quote: the value, the input after the
closing quote and the line reached.\<close>

fun read_quoted :: "ustring \<Rightarrow> nat \<Rightarrow> ustring \<Rightarrow> csv_error + (ustring \<times> ustring \<times> nat)" where
  "read_quoted [] line value = Inl (at_line UnterminatedQuote line)"
| "read_quoted (c # characters) line value =
    (if c = 34
     then case characters of
         c' # characters' \<Rightarrow> if c' = 34 then read_quoted characters' line (value @ [34]) else Inr (value, characters, line)
       | [] \<Rightarrow> Inr (value, characters, line)
     else read_quoted characters (if c = 10 then line + 1 else line) (value @ [c]))"

definition ends_field :: "uchar \<Rightarrow> uchar \<Rightarrow> bool" where
  "ends_field delimiter c \<longleftrightarrow> c = delimiter \<or> c = 13 \<or> c = 10"

definition read_field :: "uchar \<Rightarrow> ustring \<Rightarrow> nat \<Rightarrow> csv_error + (field \<times> ustring \<times> nat)" where
  "read_field delimiter characters line =
    (if characters \<noteq> [] \<and> hd characters = 34
     then res_bind (read_quoted (tl characters) line [])
       (\<lambda>(value, rest, line).
         if rest \<noteq> [] \<and> \<not> ends_field delimiter (hd rest) then Inl (at_line InvalidQuote line)
         else Inr (Quoted value, rest, line))
     else Inr (Unquoted (takeWhile (\<lambda>c. \<not> ends_field delimiter c) characters),
       dropWhile (\<lambda>c. \<not> ends_field delimiter c) characters, line))"

lemma read_quoted_length: "read_quoted s line v = Inr (v', rest, line') \<Longrightarrow> length rest < length s"
proof (induction s line v rule: read_quoted.induct)
  case (2 c s line v)
  show ?case
    using 2 by (cases s) (auto split: if_splits dest!: less_SucI)
qed simp

lemma read_field_length: "read_field d s line = Inr (v, rest, line') \<Longrightarrow> length rest \<le> length s"
  by (auto simp: read_field_def res_bind_eq_Inr length_dropWhile_le dest!: read_quoted_length split: if_splits)

function parse_loop ::
  "uchar \<Rightarrow> ('s \<Rightarrow> u32 \<Rightarrow> u32 \<Rightarrow> field \<Rightarrow> csv_error + 's) \<Rightarrow> ustring \<Rightarrow> u32 \<Rightarrow> u32 \<Rightarrow> nat \<Rightarrow> 's \<Rightarrow> csv_error + 's" where
  "parse_loop delimiter field characters row column line state =
    (if characters = [] then Inr state
     else if row > EXCEL_MAX_ROWS then Inl (at_line TooManyRows line)
     else if column > EXCEL_MAX_COLUMNS then Inl (at_line TooManyColumns line)
     else case read_field delimiter characters line of
       Inl e \<Rightarrow> Inl e
     | Inr (value, characters, line) \<Rightarrow>
         (case field state row column value of
           Inl e \<Rightarrow> Inl e
         | Inr state \<Rightarrow>
             (case characters of
               [] \<Rightarrow> Inr state
             | c # characters \<Rightarrow>
                 if c = delimiter
                 then if characters = [] then Inr state
                   else parse_loop delimiter field characters row (column + 1) line state
                 else if c = 13
                 then parse_loop delimiter field
                   (case characters of c' # characters' \<Rightarrow> if c' = 10 then characters' else characters | [] \<Rightarrow> characters)
                   (row + 1) 1 (line + 1) state
                 else if c = 10 then parse_loop delimiter field characters (row + 1) 1 (line + 1) state
                 else parse_loop delimiter field characters row column line state)))"
  by pat_completeness auto
termination
  by (relation "measure (\<lambda>(_, _, characters, _). length characters)")
    (auto dest!: read_field_length split: list.splits)

declare parse_loop.simps [simp del]

definition parse_records ::
  "ustring \<Rightarrow> uchar \<Rightarrow> ('s \<Rightarrow> u32 \<Rightarrow> u32 \<Rightarrow> field \<Rightarrow> csv_error + 's) \<Rightarrow> 's \<Rightarrow> csv_error + 's" where
  "parse_records txt delimiter field state = parse_loop delimiter field txt 1 1 1 state"

definition MAX_FIELD_UTF16 :: nat where
  "MAX_FIELD_UTF16 = 32767"

text \<open>The callback of \<open>read_csv\<close>: the state is the number of cells and the values set so far.\<close>

definition field_text :: "field \<Rightarrow> ustring" where
  "field_text f = (case f of Quoted txt \<Rightarrow> txt | Unquoted txt \<Rightarrow> txt)"

definition read_value ::
  "(ustring \<Rightarrow> 'n option) \<Rightarrow> nat \<Rightarrow> nat \<times> (cell_address \<times> 'n cell_value) list \<Rightarrow> u32 \<Rightarrow> u32 \<Rightarrow> field \<Rightarrow>
    csv_error + nat \<times> (cell_address \<times> 'n cell_value) list" where
  "read_value parse_number max_cells state row column f =
    (let address = CellAddress row column; txt = field_text f in
     if utf8_len txt > MAX_FIELD_UTF16 \<and> utf16_len txt > MAX_FIELD_UTF16
     then Inl (with_detail (display_address address) (csv_error_new FieldTooLong))
     else case (case f of
           Quoted txt \<Rightarrow> Some (Text txt)
         | Unquoted txt \<Rightarrow> if txt = [] then None
             else Some (case unquoted_literal parse_number txt of Some v \<Rightarrow> v | None \<Rightarrow> Text txt)) of
       None \<Rightarrow> Inr state
     | Some value \<Rightarrow>
         let cells = fst state + 1 in
         if cells > max_cells then Inl (with_detail (''limit '' @ show_nat max_cells) (csv_error_new TooManyCells))
         else Inr (cells, snd state @ [(address, value)]))"

text \<open>U+FEFF, the byte-order mark.\<close>

definition BYTE_ORDER_MARK :: uchar where
  "BYTE_ORDER_MARK = 65279"

definition read_csv ::
  "(ustring \<Rightarrow> 'n option) \<Rightarrow> uchar \<Rightarrow> nat \<Rightarrow> ustring \<Rightarrow> csv_error + (cell_address \<times> 'n cell_value) list" where
  "read_csv parse_number delimiter max_cells txt =
    res_bind
      (parse_records (case txt of c # rest \<Rightarrow> if c = BYTE_ORDER_MARK then rest else txt | [] \<Rightarrow> txt)
        delimiter (read_value parse_number max_cells) (0, []))
      (\<lambda>(cells, changes). Inr changes)"

section \<open>Writing\<close>

definition replace_quotes :: "ustring \<Rightarrow> ustring" where
  "replace_quotes txt = concat (map (\<lambda>c. if c = 34 then [34, 34] else [c]) txt)"

definition needs_quotes :: "(ustring \<Rightarrow> 'n option) \<Rightarrow> uchar \<Rightarrow> ustring \<Rightarrow> bool" where
  "needs_quotes parse_number delimiter txt \<longleftrightarrow>
    txt = [] \<or> hd txt = BYTE_ORDER_MARK \<or> list_ex (\<lambda>c. c = delimiter \<or> c = 34 \<or> c = 13 \<or> c = 10) txt \<or>
    unquoted_literal parse_number txt \<noteq> None"

fun push_value :: "(ustring \<Rightarrow> 'n option) \<Rightarrow> ('n \<Rightarrow> ustring) \<Rightarrow> uchar \<Rightarrow> 'n cell_value \<Rightarrow> ustring" where
  "push_value parse_number show_number delimiter (Number number) = show_number number"
| "push_value parse_number show_number delimiter (Logical b) = ascii (if b then ''TRUE'' else ''FALSE'')"
| "push_value parse_number show_number delimiter (Error e) = ascii (excel_error_as_str e)"
| "push_value parse_number show_number delimiter (Text txt) =
    (if needs_quotes parse_number delimiter txt then [34] @ replace_quotes txt @ [34] else txt)"
| "push_value parse_number show_number delimiter Blank = []"

text \<open>One row: the entries not yet written come in address order.\<close>

fun render_row ::
  "('n cell_value \<Rightarrow> ustring) \<Rightarrow> uchar \<Rightarrow> u32 \<Rightarrow> u32 list \<Rightarrow> (cell_address \<times> 'n cell_value) list \<Rightarrow>
    ustring \<times> (cell_address \<times> 'n cell_value) list" where
  "render_row push delimiter row [] entries = ([], entries)"
| "render_row push delimiter row (column # columns) entries =
    (let separator = (if column > 1 then [delimiter] else []);
         (output, entries) = (case entries of
             (address, value) # entries' \<Rightarrow>
               if (addr_row address, addr_column address) = (row, column) then (push value, entries') else ([], entries)
           | [] \<Rightarrow> ([], entries));
         (rest, entries) = render_row push delimiter row columns entries
     in (separator @ output @ rest, entries))"

fun render_rows ::
  "('n cell_value \<Rightarrow> ustring) \<Rightarrow> uchar \<Rightarrow> u32 list \<Rightarrow> u32 list \<Rightarrow> (cell_address \<times> 'n cell_value) list \<Rightarrow> ustring" where
  "render_rows push delimiter columns [] entries = []"
| "render_rows push delimiter columns (row # rows) entries =
    (let (output, entries) = render_row push delimiter row columns entries
     in output @ [13, 10] @ render_rows push delimiter columns rows entries)"

definition render ::
  "(ustring \<Rightarrow> 'n option) \<Rightarrow> ('n \<Rightarrow> ustring) \<Rightarrow> uchar \<Rightarrow> (cell_address \<times> 'n cell_value) list \<Rightarrow> ustring" where
  "render parse_number show_number delimiter values =
    (if values = [] then []
     else let last_row = Max (set (map (\<lambda>(a, _). addr_row a) values));
              last_column = Max (set (map (\<lambda>(a, _). addr_column a) values))
          in render_rows (push_value parse_number show_number delimiter) delimiter
            [1..<last_column + 1] [1..<last_row + 1] values)"

text \<open>A calculation, as far as writing reads it: whether it belongs to the workbook, and its results.\<close>

datatype 'n calculation_cell_result = Value "'n cell_value" | Unavailable

record 'n calculation =
  calc_matches_workbook :: bool
  materialized_cells :: "((u32 \<times> cell_address) \<times> 'n calculation_cell_result) list"

definition unavailable :: "cell_address \<Rightarrow> csv_error" where
  "unavailable address = with_detail (display_address address) (csv_error_new UnavailableResult)"

definition literal_values :: "('n, 'x) sheet \<Rightarrow> (cell_address \<times> 'n cell_value) list" where
  "literal_values s =
    map_collect (concat (map (\<lambda>c. case cell_content c of Literal v \<Rightarrow> [(cell_addr c, v)] | Formula _ \<Rightarrow> []) (store_values (sh_cells s))))"

fun insert_results ::
  "((u32 \<times> cell_address) \<times> 'n calculation_cell_result) list \<Rightarrow> (cell_address \<times> 'n cell_value) list \<Rightarrow>
    csv_error + (cell_address \<times> 'n cell_value) list" where
  "insert_results [] values = Inr values"
| "insert_results (((sheet_id, address), result) # results) values =
    (case result of
      Value value \<Rightarrow> insert_results results (map_insert address value values)
    | Unavailable \<Rightarrow> Inl (unavailable address))"

definition write_csv ::
  "(ustring \<Rightarrow> 'n option) \<Rightarrow> ('n \<Rightarrow> ustring) \<Rightarrow> (u32 \<Rightarrow> ('n, 'x) sheet option) \<Rightarrow> 'n calculation option \<Rightarrow> u32 \<Rightarrow> uchar \<Rightarrow>
    csv_error + ustring" where
  "write_csv parse_number show_number workbook calculation sheet_id delimiter =
    (case workbook sheet_id of
      None \<Rightarrow> Inl (csv_error_new UnknownSheet)
    | Some s \<Rightarrow>
        (case calculation of
          None \<Rightarrow>
            (case map_keys (formula_addresses s) of
              address # _ \<Rightarrow> Inl (unavailable address)
            | [] \<Rightarrow> Inr (render parse_number show_number delimiter (literal_values s)))
        | Some calc \<Rightarrow>
            if \<not> calc_matches_workbook calc then Inl (csv_error_new StaleCalculation)
            else res_bind
              (insert_results (filter (\<lambda>((i, _), _). i = sheet_id) (materialized_cells calc)) (literal_values s))
              (\<lambda>values.
                case find (\<lambda>c. is_formula_content (cell_content c) \<and> map_get (materialized_cells calc) (sheet_id, cell_addr c) = None)
                    (store_values (sh_cells s)) of
                  Some c \<Rightarrow> Inl (unavailable (cell_addr c))
                | None \<Rightarrow> Inr (render parse_number show_number delimiter values))))"

section \<open>Written fields read back\<close>

definition decimal_char :: "uchar \<Rightarrow> bool" where
  "decimal_char c \<longleftrightarrow> uchar_digit c \<or> c \<in> {43, 45, 46, 69, 101}"

lemma digits_chars:
  assumes "digits s = (n, t)" "\<forall>c\<in>set t. decimal_char c"
  shows "\<forall>c\<in>set s. decimal_char c"
proof -
  have "set s = set (takeWhile uchar_digit s) \<union> set t"
    using assms(1) by (metis digits_def set_append snd_conv takeWhile_dropWhile_id)
  moreover have "\<forall>c\<in>set (takeWhile uchar_digit s). decimal_char c" by (auto dest: set_takeWhileD simp: decimal_char_def)
  ultimately show ?thesis using assms(2) by auto
qed

lemma skip_sign_chars: "\<forall>c\<in>set (skip_sign s). decimal_char c \<Longrightarrow> \<forall>c\<in>set s. decimal_char c"
  by (auto simp: skip_sign_def decimal_char_def split: list.splits if_splits)

lemma decimal_chars:
  assumes "is_decimal_number s"
  shows "\<forall>c\<in>set s. decimal_char c" "s \<noteq> []"
proof -
  show "s \<noteq> []" using assms by (auto simp: is_decimal_number_def skip_sign_def digits_def)
  obtain i s1 where d1: "digits (skip_sign s) = (i, s1)" by fastforce
  obtain f s2 where d2: "(case s1 of c # s' \<Rightarrow> if c = 46 then digits s' else (0, s1) | [] \<Rightarrow> (0, s1)) = (f, s2)" by fastforce
  have "\<forall>c\<in>set s2. decimal_char c"
  proof (cases s2)
    case (Cons c s')
    obtain n s3 where d3: "digits (skip_sign s') = (n, s3)" by fastforce
    have "c = 101 \<or> c = 69" "s3 = []"
      using assms d1 d2 d3 Cons by (auto simp: is_decimal_number_def Let_def split: if_splits)
    then show ?thesis using Cons skip_sign_chars [of s'] digits_chars [OF d3] by (auto simp: decimal_char_def)
  qed simp
  then have "\<forall>c\<in>set s1. decimal_char c"
    using d2 digits_chars by (cases s1) (fastforce simp: decimal_char_def split: if_splits)+
  then show "\<forall>c\<in>set s. decimal_char c" by (rule skip_sign_chars [OF digits_chars [OF d1]])
qed

definition delimiter_ok :: "uchar \<Rightarrow> bool" where
  "delimiter_ok d \<longleftrightarrow> List.member DELIMITERS d"

lemma delimiter_cases: "delimiter_ok d \<longleftrightarrow> d = 44 \<or> d = 59 \<or> d = 9 \<or> d = 124 \<or> d = 32"
  by (auto simp: delimiter_ok_def DELIMITERS_def)

lemma decimal_plain: "delimiter_ok d \<Longrightarrow> decimal_char c \<Longrightarrow> \<not> ends_field d c \<and> c \<noteq> 34 \<and> c \<noteq> BYTE_ORDER_MARK"
  by (auto simp: delimiter_cases decimal_char_def uchar_digit_def ends_field_def BYTE_ORDER_MARK_def)

text \<open>What the writer may be given: a number whose text reads back, a text that fits in a cell.\<close>

fun writable :: "(ustring \<Rightarrow> 'n option) \<Rightarrow> ('n \<Rightarrow> ustring) \<Rightarrow> 'n cell_value \<Rightarrow> bool" where
  "writable parse_number show_number (Number n) \<longleftrightarrow>
    is_decimal_number (show_number n) \<and> parse_number (show_number n) = Some n \<and> utf16_len (show_number n) \<le> MAX_FIELD_UTF16"
| "writable parse_number show_number (Text t) \<longleftrightarrow> utf16_len t \<le> MAX_FIELD_UTF16"
| "writable parse_number show_number _ \<longleftrightarrow> True"

fun field_of :: "(ustring \<Rightarrow> 'n option) \<Rightarrow> ('n \<Rightarrow> ustring) \<Rightarrow> uchar \<Rightarrow> 'n cell_value \<Rightarrow> field" where
  "field_of parse_number show_number d (Text t) = (if needs_quotes parse_number d t then Quoted t else Unquoted t)"
| "field_of parse_number show_number d v = Unquoted (push_value parse_number show_number d v)"

lemma read_quoted_written:
  assumes "rest = [] \<or> hd rest \<noteq> 34"
  shows "\<exists>line'. read_quoted (replace_quotes t @ 34 # rest) line v = Inr (v @ t, rest, line')"
  using assms
proof (induction t arbitrary: line v)
  case Nil
  then show ?case by (cases rest) (auto simp: replace_quotes_def)
next
  case (Cons c t)
  have "\<exists>line'. read_quoted (replace_quotes (c # t) @ 34 # rest) line v =
      read_quoted (replace_quotes t @ 34 # rest) line' (v @ [c])"
    by (auto simp: replace_quotes_def)
  then show ?case using Cons.IH [OF Cons.prems, of _ "v @ [c]"] by fastforce
qed

lemma read_unquoted_written:
  assumes "\<forall>c\<in>set w. \<not> ends_field d c" "w = [] \<or> hd w \<noteq> 34" "ends_field d c" "c \<noteq> 34"
  shows "read_field d (w @ c # rest) line = Inr (Unquoted w, c # rest, line)"
proof -
  have "takeWhile (\<lambda>c. \<not> ends_field d c) (w @ c # rest) = w" "dropWhile (\<lambda>c. \<not> ends_field d c) (w @ c # rest) = c # rest"
    using assms(1,3) by (simp_all add: takeWhile_append2 dropWhile_append2)
  moreover have "hd (w @ c # rest) \<noteq> 34" using assms(2,4) by (cases w) auto
  ultimately show ?thesis by (simp add: read_field_def)
qed

lemma ascii_plain:
  assumes "delimiter_ok d"
  shows "\<forall>c\<in>set (ascii (excel_error_as_str e)). \<not> ends_field d c" "hd (ascii (excel_error_as_str e)) \<noteq> 34"
    "ascii (excel_error_as_str e) \<noteq> []" "\<forall>c\<in>set (ascii (if b then ''TRUE'' else ''FALSE'')). \<not> ends_field d c"
    "hd (ascii (if b then ''TRUE'' else ''FALSE'')) \<noteq> 34" "ascii (if b then ''TRUE'' else ''FALSE'') \<noteq> []"
proof -
  have "\<forall>c\<in>set (ascii (excel_error_as_str e)). c \<notin> {44, 59, 9, 124, 32, 13, 10, 34}" by (cases e) (simp_all add: ascii_def)
  then show "\<forall>c\<in>set (ascii (excel_error_as_str e)). \<not> ends_field d c"
    using assms unfolding delimiter_cases ends_field_def by blast
  show "hd (ascii (excel_error_as_str e)) \<noteq> 34" "ascii (excel_error_as_str e) \<noteq> []" by (cases e; simp add: ascii_def)+
  have "\<forall>c\<in>set (ascii (if b then ''TRUE'' else ''FALSE'')). c \<notin> {44, 59, 9, 124, 32, 13, 10, 34}" by (simp add: ascii_def)
  then show "\<forall>c\<in>set (ascii (if b then ''TRUE'' else ''FALSE'')). \<not> ends_field d c"
    using assms unfolding delimiter_cases ends_field_def by blast
  show "hd (ascii (if b then ''TRUE'' else ''FALSE'')) \<noteq> 34" "ascii (if b then ''TRUE'' else ''FALSE'') \<noteq> []"
    by (simp_all add: ascii_def)
qed

lemma read_field_written:
  assumes "delimiter_ok d" "writable parse_number show_number v" "ends_field d c"
  shows "\<exists>line'. read_field d (push_value parse_number show_number d v @ c # rest) line =
    Inr (field_of parse_number show_number d v, c # rest, line')"
proof -
  have c: "c \<noteq> 34" using assms(1,3) by (auto simp: delimiter_cases ends_field_def)
  show ?thesis
  proof (cases v)
    case (Number n)
    then have "is_decimal_number (show_number n)" using assms(2) by simp
    then show ?thesis
      using read_unquoted_written [OF _ _ assms(3) c, of "show_number n"] decimal_chars [of "show_number n"] decimal_plain [OF assms(1)] Number
      by auto
  next
    case (Text t)
    show ?thesis
    proof (cases "needs_quotes parse_number d t")
      case True
      obtain line' where "read_quoted (replace_quotes t @ 34 # c # rest) line [] = Inr ([] @ t, c # rest, line')"
        using read_quoted_written [of "c # rest" t line "[]"] c by auto
      then show ?thesis using Text True assms(3) by (simp add: read_field_def)
    next
      case False
      then have "\<forall>c\<in>set t. \<not> ends_field d c" "t = [] \<or> hd t \<noteq> 34"
        by (auto simp: needs_quotes_def list_ex_iff ends_field_def)
      then show ?thesis using read_unquoted_written [OF _ _ assms(3) c] Text False by auto
    qed
  next
    case Blank
    then show ?thesis using read_unquoted_written [OF _ _ assms(3) c, of "[]"] by auto
  qed (use read_unquoted_written [OF _ _ assms(3) c] ascii_plain [OF assms(1)] in auto)
qed

text \<open>The value a written field reads back to.\<close>

lemma literal_of_error: "unquoted_literal parse_number (ascii (excel_error_as_str e)) = Some (Error e)"
proof -
  have "to_ascii (ascii (excel_error_as_str e)) = Some (excel_error_as_str e)"
    by (rule to_ascii_ascii) (cases e; simp)
  moreover have "\<not> is_decimal_number (ascii (excel_error_as_str e))"
    by (cases e) (simp_all add: ascii_def is_decimal_number_def skip_sign_def digits_def uchar_digit_def)
  moreover have "\<not> eq_ignore_ascii_case (ascii (excel_error_as_str e)) (ascii ''TRUE'')"
    "\<not> eq_ignore_ascii_case (ascii (excel_error_as_str e)) (ascii ''FALSE'')"
    by (cases e; simp add: ascii_def eq_ignore_ascii_case_def uchar_upper_def)+
  moreover have "excel_error_from_spelling (excel_error_as_str e) = Some e"
    by (cases e) (simp_all add: excel_error_from_spelling_def)
  ultimately show ?thesis by (simp add: unquoted_literal_def)
qed

lemma literal_of_logical: "unquoted_literal parse_number (ascii (if b then ''TRUE'' else ''FALSE'')) = Some (Logical b)"
  by (cases b) (simp_all add: unquoted_literal_def ascii_def is_decimal_number_def skip_sign_def digits_def uchar_digit_def
      eq_ignore_ascii_case_def uchar_upper_def)

lemma utf16_ascii_short: "utf16_len (ascii (excel_error_as_str e)) \<le> MAX_FIELD_UTF16"
  "utf16_len (ascii (if b then ''TRUE'' else ''FALSE'')) \<le> MAX_FIELD_UTF16"
  by (cases e; simp add: ascii_def char_utf16_def MAX_FIELD_UTF16_def)+

lemma read_value_written:
  assumes "delimiter_ok d" "writable parse_number show_number v"
  shows "read_value parse_number max_cells (n, vs) row column (field_of parse_number show_number d v) =
    (if v = Blank then Inr (n, vs)
     else if n + 1 > max_cells then Inl (with_detail (''limit '' @ show_nat max_cells) (csv_error_new TooManyCells))
     else Inr (n + 1, vs @ [(CellAddress row column, v)]))"
proof (cases v)
  case (Number x)
  then show ?thesis using assms(2) decimal_chars(2) [of "show_number x"]
    by (simp add: read_value_def field_text_def unquoted_literal_def)
next
  case (Text t)
  then show ?thesis using assms(2)
    by (auto simp: read_value_def field_text_def needs_quotes_def)
next
  case (Logical b)
  then show ?thesis using utf16_ascii_short(2) [of b] ascii_plain(6) [OF assms(1), of b] literal_of_logical [of parse_number b]
    by (simp add: read_value_def field_text_def)
next
  case (Error e)
  then show ?thesis using utf16_ascii_short(1) [of e] ascii_plain(3) [OF assms(1), of e] literal_of_error [of parse_number e]
    by (simp add: read_value_def field_text_def)
qed (simp add: read_value_def field_text_def MAX_FIELD_UTF16_def)

section \<open>Rendered rows\<close>

text \<open>The entries from an address on, and the value at an address, blank where there is none.\<close>

definition entries_at :: "cell_address \<Rightarrow> (cell_address \<times> 'v) list \<Rightarrow> (cell_address \<times> 'v) list" where
  "entries_at a values = filter (\<lambda>e. a \<le> fst e) values"

definition value_at :: "(cell_address \<times> 'n cell_value) list \<Rightarrow> cell_address \<Rightarrow> 'n cell_value" where
  "value_at values a = (case map_get values a of Some v \<Rightarrow> v | None \<Rightarrow> Blank)"

lemma entries_at_step:
  assumes "map_ok values"
  shows "entries_at (CellAddress r c) values =
    (case map_get values (CellAddress r c) of Some v \<Rightarrow> [(CellAddress r c, v)] | None \<Rightarrow> []) @ entries_at (CellAddress r (c + 1)) values"
proof -
  have next_cell: "CellAddress r (c + 1) \<le> x \<longleftrightarrow> CellAddress r c < x" for x by (auto simp: less_eq_cell_address_def less_cell_address_def)
  have "filter (\<lambda>e. a \<le> fst e) xs = (case map_of xs a of Some v \<Rightarrow> [(a, v)] | None \<Rightarrow> []) @ filter (\<lambda>e. a < fst e) xs"
    if "sorted_wrt (<) (map fst xs)" for a and xs :: "(cell_address \<times> 'a) list"
    using that
  proof (induction xs)
    case (Cons e es)
    obtain k v where e: "e = (k, v)" by fastforce
    consider "a < k" | "a = k" | "k < a" by (rule linorder_cases)
    then show ?case
    proof cases
      case 1
      then have "a \<notin> set (map fst es)" "\<forall>e\<in>set es. a < fst e" using Cons.prems e by fastforce+
      then show ?thesis using 1 e Cons by (auto simp: map_of_eq_None_iff [symmetric] intro!: filter_cong)
    next
      case 2
      then have "\<forall>e\<in>set es. a < fst e" using Cons.prems e by auto
      then have "filter (\<lambda>e. a \<le> fst e) es = filter (\<lambda>e. a < fst e) es" by (intro filter_cong) auto
      then show ?thesis using 2 e by simp
    next
      case 3
      then show ?thesis using Cons e by auto
    qed
  qed simp
  from this [of "values" "CellAddress r c"] show ?thesis
    using assms unfolding entries_at_def next_cell map_get_def by (simp add: map_ok_def map_keys_def)
qed

abbreviation separator :: "uchar \<Rightarrow> nat \<Rightarrow> ustring" where
  "separator d c \<equiv> (if c > 1 then [d] else [])"

lemma render_row_text:
  assumes "map_ok values" "push Blank = []"
  shows "c \<le> m \<Longrightarrow> render_row push d r [c..<m] (entries_at (CellAddress r c) values) =
    (concat (map (\<lambda>c. separator d c @ push (value_at values (CellAddress r c))) [c..<m]), entries_at (CellAddress r m) values)"
proof (induction "m - c" arbitrary: c)
  case 0
  then show ?case by simp
next
  case (Suc n)
  then have c: "[c..<m] = c # [c + 1..<m]" by (simp add: upt_rec)
  have IH: "render_row push d r [c + 1..<m] (entries_at (CellAddress r (c + 1)) values) =
    (concat (map (\<lambda>c. separator d c @ push (value_at values (CellAddress r c))) [c + 1..<m]), entries_at (CellAddress r m) values)"
    using Suc by (intro Suc.hyps(1)) auto
  note step = entries_at_step [OF assms(1), of r c]
  show ?case
  proof (cases "map_get values (CellAddress r c)")
    case (Some v)
    then show ?thesis unfolding c using step IH by (simp add: value_at_def)
  next
    case None
    have "\<forall>e\<in>set (entries_at (CellAddress r (c + 1)) values). \<not> (addr_row (fst e) = r \<and> addr_column (fst e) = c)"
      by (auto simp: entries_at_def less_eq_cell_address_def)
    then have "(case entries_at (CellAddress r c) values of
        (address, v) # entries' \<Rightarrow> if (addr_row address, addr_column address) = (r, c) then (push v, entries') else ([], entries_at (CellAddress r c) values)
      | [] \<Rightarrow> ([], entries_at (CellAddress r c) values)) = ([], entries_at (CellAddress r (c + 1)) values)"
      using step None by (cases "entries_at (CellAddress r (c + 1)) values") auto
    then show ?thesis unfolding c using IH None assms(2) by (simp add: value_at_def)
  qed
qed

lemma entries_at_next_row:
  assumes "\<forall>e\<in>set values. 1 \<le> addr_column (fst e) \<and> addr_column (fst e) < m"
  shows "entries_at (CellAddress r m) values = entries_at (CellAddress (r + 1) 1) values"
  unfolding entries_at_def using assms by (intro filter_cong) (auto simp: less_eq_cell_address_def)

definition row_text :: "('n cell_value \<Rightarrow> ustring) \<Rightarrow> uchar \<Rightarrow> (cell_address \<times> 'n cell_value) list \<Rightarrow> nat \<Rightarrow> nat \<Rightarrow> ustring" where
  "row_text push d values m r = concat (map (\<lambda>c. separator d c @ push (value_at values (CellAddress r c))) [1..<m])"

lemma render_rows_text:
  assumes "map_ok values" "push Blank = []" "1 \<le> m" "\<forall>e\<in>set values. 1 \<le> addr_column (fst e) \<and> addr_column (fst e) < m"
  shows "r \<le> n \<Longrightarrow> render_rows push d [1..<m] [r..<n] (entries_at (CellAddress r 1) values) =
    concat (map (\<lambda>r. row_text push d values m r @ [13, 10]) [r..<n])"
proof (induction "n - r" arbitrary: r)
  case 0
  then show ?case by simp
next
  case (Suc k)
  then have r: "[r..<n] = r # [r + 1..<n]" by (simp add: upt_rec)
  have "render_rows push d [1..<m] [r + 1..<n] (entries_at (CellAddress (r + 1) 1) values) =
      concat (map (\<lambda>r. row_text push d values m r @ [13, 10]) [r + 1..<n])"
    using Suc by (intro Suc.hyps(1)) auto
  then show ?case
    unfolding r using render_row_text [of "values" push 1 m d r, OF assms(1-3)] entries_at_next_row [OF assms(4), of r] by (simp add: row_text_def)
qed

section \<open>Parsed rows\<close>

definition row_values :: "(cell_address \<times> 'n cell_value) list \<Rightarrow> nat \<Rightarrow> nat list \<Rightarrow> (cell_address \<times> 'n cell_value) list" where
  "row_values values r cs =
    concat (map (\<lambda>c. if value_at values (CellAddress r c) = Blank then [] else [(CellAddress r c, value_at values (CellAddress r c))]) cs)"

lemma row_values_simps [simp]: "row_values values r [] = []"
  "row_values values r (c # cs) =
    (if value_at values (CellAddress r c) = Blank then [] else [(CellAddress r c, value_at values (CellAddress r c))]) @ row_values values r cs"
  by (simp_all add: row_values_def)

lemma row_values_entries:
  assumes "map_ok values"
  shows "c \<le> m \<Longrightarrow> row_values values r [c..<m] @ filter (\<lambda>e. snd e \<noteq> Blank) (entries_at (CellAddress r m) values) =
    filter (\<lambda>e. snd e \<noteq> Blank) (entries_at (CellAddress r c) values)"
proof (induction "m - c" arbitrary: c)
  case (Suc n)
  then have c: "[c..<m] = c # [c + 1..<m]" by (simp add: upt_rec)
  have "row_values values r [c + 1..<m] @ filter (\<lambda>e. snd e \<noteq> Blank) (entries_at (CellAddress r m) values) =
    filter (\<lambda>e. snd e \<noteq> Blank) (entries_at (CellAddress r (c + 1)) values)"
    using Suc by (intro Suc.hyps(1)) auto
  then show ?case unfolding c entries_at_step [OF assms, of r c] by (auto simp: value_at_def split: option.splits)
qed simp

lemma parse_row:
  assumes "delimiter_ok d" "\<forall>a. writable parse_number show_number (value_at values a)" "r \<le> EXCEL_MAX_ROWS" "m \<le> EXCEL_MAX_COLUMNS + 1"
    and "push = push_value parse_number show_number d" "F = read_value parse_number max_cells"
  shows "c < m \<Longrightarrow> n + length (row_values values r [c..<m]) \<le> max_cells \<Longrightarrow>
    \<exists>line'. parse_loop d F
      (push (value_at values (CellAddress r c)) @ concat (map (\<lambda>c. d # push (value_at values (CellAddress r c))) [c + 1..<m]) @ 13 # 10 # rest)
      r c line (n, vs) =
    parse_loop d F rest (r + 1) 1 line' (n + length (row_values values r [c..<m]), vs @ row_values values r [c..<m])"
proof (induction "m - c" arbitrary: c n vs line)
  case 0
  then show ?case by simp
next
  case (Suc k)
  let ?v = "value_at values (CellAddress r c)"
  let ?tail = "concat (map (\<lambda>c. d # push (value_at values (CellAddress r c))) [c + 1..<m]) @ 13 # 10 # rest"
  have cs: "[c..<m] = c # [c + 1..<m]" using Suc.prems(1) by (simp add: upt_rec)
  obtain x xs where tail: "?tail = x # xs" "ends_field d x" "?tail \<noteq> []"
    by (cases "[c + 1..<m]") (auto simp: ends_field_def)
  obtain line1 where field: "read_field d (push ?v @ ?tail) line = Inr (field_of parse_number show_number d ?v, ?tail, line1)"
    using read_field_written [OF assms(1) assms(2) [rule_format, of "CellAddress r c"] tail(2), of xs line] tail(1) assms(5) by auto
  let ?new = "if ?v = Blank then [] else [(CellAddress r c, ?v)]"
  have F: "F (n, vs) r c (field_of parse_number show_number d ?v) = Inr (n + length ?new, vs @ ?new)"
    using read_value_written [OF assms(1) assms(2) [rule_format, of "CellAddress r c"], of max_cells n vs r c] Suc.prems(2) assms(6) cs
    by (cases "?v = Blank") auto
  have run: "parse_loop d F (push ?v @ ?tail) r c line (n, vs) =
    (case ?tail of [] \<Rightarrow> Inr (n + length ?new, vs @ ?new) | c' # characters \<Rightarrow>
      if c' = d then if characters = [] then Inr (n + length ?new, vs @ ?new)
        else parse_loop d F characters r (c + 1) line1 (n + length ?new, vs @ ?new)
      else if c' = 13 then parse_loop d F (case characters of c' # characters' \<Rightarrow> if c' = 10 then characters' else characters | [] \<Rightarrow> characters)
        (r + 1) 1 (line1 + 1) (n + length ?new, vs @ ?new)
      else if c' = 10 then parse_loop d F characters (r + 1) 1 (line1 + 1) (n + length ?new, vs @ ?new)
      else parse_loop d F characters r c line1 (n + length ?new, vs @ ?new))"
    using assms(3,4) Suc.prems(1) field F by (subst parse_loop.simps) auto
  have d: "d \<noteq> 13" using assms(1) by (auto simp: delimiter_cases)
  show ?case
  proof (cases "c + 1 = m")
    case True
    then show ?thesis using run d cs by auto
  next
    case False
    then have c1: "[c + 1..<m] = (c + 1) # [c + 2..<m]" "c + 1 < m" using Suc.prems(1) by (simp_all add: upt_rec)
    let ?rest = "push (value_at values (CellAddress r (c + 1))) @ concat (map (\<lambda>c. d # push (value_at values (CellAddress r c))) [c + 1 + 1..<m]) @ 13 # 10 # rest"
    have tail_eq: "?tail = d # ?rest" unfolding c1(1) by simp
    have "parse_loop d F (push ?v @ ?tail) r c line (n, vs) = parse_loop d F ?rest r (c + 1) line1 (n + length ?new, vs @ ?new)"
      unfolding run unfolding tail_eq by simp
    moreover have "k = m - (c + 1)" using Suc.hyps(2) by simp
    moreover have "n + length ?new + length (row_values values r [c + 1..<m]) \<le> max_cells" using Suc.prems(2) cs by auto
    ultimately show ?thesis
      using Suc.hyps(1) [of "c + 1" "n + length ?new" line1 "vs @ ?new"] c1(2) cs by (auto simp: add.assoc)
  qed
qed

lemma row_text_first:
  assumes "1 < m"
  shows "row_text push d values m r =
    push (value_at values (CellAddress r 1)) @ concat (map (\<lambda>c. d # push (value_at values (CellAddress r c))) [1 + 1..<m])"
proof -
  have "[1..<m] = 1 # [1 + 1..<m]" using assms by (simp add: upt_rec)
  moreover have "map (\<lambda>c. separator d c @ push (value_at values (CellAddress r c))) [1 + 1..<m] =
      map (\<lambda>c. d # push (value_at values (CellAddress r c))) [1 + 1..<m]" by simp
  ultimately show ?thesis by (simp only: row_text_def list.map concat.simps) simp
qed

lemma parse_rows:
  assumes "delimiter_ok d" "\<forall>a. writable parse_number show_number (value_at values a)" "1 < m" "m \<le> EXCEL_MAX_COLUMNS + 1"
    "n \<le> EXCEL_MAX_ROWS + 1"
    and "push = push_value parse_number show_number d" "F = read_value parse_number max_cells"
  shows "r \<le> n \<Longrightarrow> k + length (concat (map (\<lambda>r. row_values values r [1..<m]) [r..<n])) \<le> max_cells \<Longrightarrow>
    parse_loop d F (concat (map (\<lambda>r. row_text push d values m r @ [13, 10]) [r..<n])) r 1 line (k, vs) =
    Inr (k + length (concat (map (\<lambda>r. row_values values r [1..<m]) [r..<n])), vs @ concat (map (\<lambda>r. row_values values r [1..<m]) [r..<n]))"
proof (induction "n - r" arbitrary: r k vs line)
  case 0
  then show ?case by (simp add: parse_loop.simps)
next
  case (Suc j)
  let ?rest = "concat (map (\<lambda>r. row_text push d values m r @ [13, 10]) [r + 1..<n])"
  let ?all = "concat (map (\<lambda>r. row_values values r [1..<m]) [r + 1..<n])"
  let ?row = "row_values values r [1..<m]"
  have rs: "[r..<n] = r # [r + 1..<n]" using Suc by (simp add: upt_rec)
  have r: "r \<le> EXCEL_MAX_ROWS" using Suc.hyps(2) assms(5) by simp
  have count: "k + length ?row + length ?all \<le> max_cells" using Suc.prems(2) unfolding rs by simp
  obtain line' where "parse_loop d F (row_text push d values m r @ 13 # 10 # ?rest) r 1 line (k, vs) =
      parse_loop d F ?rest (r + 1) 1 line' (k + length ?row, vs @ ?row)"
    using parse_row [OF assms(1,2) r assms(4,6,7,3), of k ?rest line vs] count unfolding row_text_first [OF assms(3)] by auto
  moreover have "parse_loop d F ?rest (r + 1) 1 line' (k + length ?row, vs @ ?row) = Inr (k + length ?row + length ?all, (vs @ ?row) @ ?all)"
    using Suc.hyps count by (intro Suc.hyps(1)) auto
  ultimately show ?case unfolding rs by (simp add: add.assoc)
qed

lemma all_row_values:
  assumes "map_ok values" "1 \<le> m" "\<forall>e\<in>set values. 1 \<le> addr_column (fst e) \<and> addr_column (fst e) < m"
  shows "r \<le> n \<Longrightarrow> concat (map (\<lambda>r. row_values values r [1..<m]) [r..<n]) @ filter (\<lambda>e. snd e \<noteq> Blank) (entries_at (CellAddress n 1) values) =
    filter (\<lambda>e. snd e \<noteq> Blank) (entries_at (CellAddress r 1) values)"
proof (induction "n - r" arbitrary: r)
  case (Suc j)
  have rs: "[r..<n] = r # [r + 1..<n]" using Suc by (simp add: upt_rec)
  have "concat (map (\<lambda>r. row_values values r [1..<m]) [r + 1..<n]) @ filter (\<lambda>e. snd e \<noteq> Blank) (entries_at (CellAddress n 1) values) =
    filter (\<lambda>e. snd e \<noteq> Blank) (entries_at (CellAddress (r + 1) 1) values)"
    using Suc by (intro Suc.hyps(1)) auto
  then show ?case
    unfolding rs using row_values_entries [OF assms(1,2), of r] entries_at_next_row [OF assms(3), of r] by simp
qed simp

lemma push_first:
  assumes "delimiter_ok d" "writable parse_number show_number v" "push_value parse_number show_number d v \<noteq> []"
  shows "hd (push_value parse_number show_number d v) \<noteq> BYTE_ORDER_MARK"
proof (cases v)
  case (Number n)
  then show ?thesis using assms decimal_chars(1) [of "show_number n"] decimal_plain [OF assms(1)] by auto
next
  case (Text t)
  then show ?thesis using assms(3) by (auto simp: needs_quotes_def BYTE_ORDER_MARK_def)
next
  case (Error e)
  then show ?thesis by (cases e) (simp_all add: ascii_def BYTE_ORDER_MARK_def)
next
  case (Logical b)
  then show ?thesis by (simp add: ascii_def BYTE_ORDER_MARK_def)
qed (use assms(3) in simp)

lemma first_of_row: "hd (xs @ concat (map (\<lambda>c. d # g c) cs) @ 13 # ys) \<noteq> z"
  if "xs \<noteq> [] \<longrightarrow> hd xs \<noteq> z" "d \<noteq> z" "13 \<noteq> z" for z :: uchar
  using that by (cases xs; cases cs) auto

definition csv_values_ok :: "(ustring \<Rightarrow> 'n option) \<Rightarrow> ('n \<Rightarrow> ustring) \<Rightarrow> (cell_address \<times> 'n cell_value) list \<Rightarrow> bool" where
  "csv_values_ok parse_number show_number values \<longleftrightarrow>
    map_ok values \<and> (\<forall>e\<in>set values. valid_address (fst e) \<and> writable parse_number show_number (snd e))"

lemma read_render:
  assumes "delimiter_ok d" "csv_values_ok parse_number show_number values"
    "length (filter (\<lambda>e. snd e \<noteq> Blank) values) \<le> max_cells"
  shows "read_csv parse_number d max_cells (render parse_number show_number d values) = Inr (filter (\<lambda>e. snd e \<noteq> Blank) values)"
proof (cases "values = []")
  case True
  then show ?thesis by (simp add: read_csv_def render_def parse_records_def parse_loop.simps)
next
  case False
  have ok: "map_ok values" and each: "\<forall>e\<in>set values. valid_address (fst e) \<and> writable parse_number show_number (snd e)"
    using assms(2) by (auto simp: csv_values_ok_def)
  define m n where "m = Max (set (map (\<lambda>(a, _). addr_column a) values)) + 1" and "n = Max (set (map (\<lambda>(a, _). addr_row a) values)) + 1"
  let ?push = "push_value parse_number show_number d" and ?nb = "filter (\<lambda>e. snd e \<noteq> Blank)"
  have top: "Max (set (map (\<lambda>(a, _). addr_column a) values)) \<in> set (map (\<lambda>(a, _). addr_column a) values)"
    "Max (set (map (\<lambda>(a, _). addr_row a) values)) \<in> set (map (\<lambda>(a, _). addr_row a) values)"
    using False by (intro Max_in; simp)+
  have bounds: "1 < m" "m \<le> EXCEL_MAX_COLUMNS + 1" "1 < n" "n \<le> EXCEL_MAX_ROWS + 1"
    using top each unfolding m_def n_def by (auto simp: valid_address_def)
  have col: "\<forall>e\<in>set values. 1 \<le> addr_column (fst e) \<and> addr_column (fst e) < m"
    using each unfolding m_def by (auto simp: valid_address_def less_Suc_eq_le intro!: Max_ge)
  have row: "addr_row (fst e) < n" if "e \<in> set values" for e
    using that unfolding n_def by (auto simp: less_Suc_eq_le case_prod_beta intro!: Max_ge)
  have w: "\<forall>a. writable parse_number show_number (value_at values a)"
  proof
    fix a
    show "writable parse_number show_number (value_at values a)"
    proof (cases "map_get values a")
      case (Some v)
      then show ?thesis using each by (auto simp: value_at_def map_get_def dest!: map_of_SomeD)
    qed (simp add: value_at_def)
  qed
  have first: "entries_at (CellAddress 1 1) values = values"
    unfolding entries_at_def using each by (intro filter_True) (auto simp: less_eq_cell_address_def valid_address_def)
  have last: "entries_at (CellAddress n 1) values = []"
    unfolding entries_at_def by (intro filter_False) (auto simp: less_eq_cell_address_def dest!: row)
  have m1: "1 \<le> m" using bounds(1) by simp
  have out: "render parse_number show_number d values = concat (map (\<lambda>r. row_text ?push d values m r @ [13, 10]) [1..<n])"
    using render_rows_text [of "values" ?push m 1 n d] ok m1 col first bounds(3) False
    by (simp add: render_def m_def n_def)
  have all: "concat (map (\<lambda>r. row_values values r [1..<m]) [1..<n]) = ?nb values"
    using all_row_values [OF ok m1 col, of 1 n] bounds(3) first last by simp
  have "hd (render parse_number show_number d values) \<noteq> BYTE_ORDER_MARK"
  proof -
    have rs: "[1..<n] = 1 # [1 + 1..<n]" using bounds(3) by (simp add: upt_rec)
    have p: "?push v \<noteq> [] \<longrightarrow> hd (?push v) \<noteq> BYTE_ORDER_MARK" if "writable parse_number show_number v" for v
      using push_first [OF assms(1) that] by blast
    have d: "d \<noteq> BYTE_ORDER_MARK" "13 \<noteq> BYTE_ORDER_MARK" using assms(1) by (auto simp: delimiter_cases BYTE_ORDER_MARK_def)
    show ?thesis
      unfolding out rs using first_of_row [OF p [OF w [rule_format, of "CellAddress 1 1"]] d] by (simp add: row_text_first [OF bounds(1)])
  qed
  then have bom: "(case render parse_number show_number d values of c # rest \<Rightarrow> if c = BYTE_ORDER_MARK then rest else render parse_number show_number d values
      | [] \<Rightarrow> render parse_number show_number d values) = render parse_number show_number d values"
    by (cases "render parse_number show_number d values") auto
  have "1 \<le> n" using bounds(3) by simp
  from parse_rows [OF assms(1) w bounds(1,2,4) refl refl this, of 0 max_cells 1 "[]"]
  have "parse_loop d (read_value parse_number max_cells) (render parse_number show_number d values) 1 1 1 (0, []) = Inr (length (?nb values), ?nb values)"
    unfolding out all using assms(3) by simp
  then show ?thesis unfolding read_csv_def bom parse_records_def by simp
qed

section \<open>Properties\<close>

text \<open>C28: with any accepted delimiter, reading what writing produced sets exactly the written values
that are not blank, at their addresses and in order: numbers by their shortest decimal, logicals,
errors, and every text, however it is spelled (empty, with quotes, line breaks or delimiters in it,
starting with a byte-order mark, or looking like a number or an error).  Of \<open>f64\<close>'s text only the
round trip and its decimal form are used.\<close>

theorem csv_roundtrip:
  assumes "validate_delimiter d = Inr d" "csv_values_ok parse_number show_number values"
    "length (filter (\<lambda>e. snd e \<noteq> Blank) values) \<le> max_cells"
  shows "read_csv parse_number d max_cells (render parse_number show_number d values) = Inr (filter (\<lambda>e. snd e \<noteq> Blank) values)"
proof -
  have "delimiter_ok d" using assms(1) by (auto simp: validate_delimiter_def delimiter_ok_def split: if_splits)
  then show ?thesis using assms(2,3) by (rule read_render)
qed

theorem csv_roundtrip_witness:
  "read_csv (\<lambda>s. if s = [49] then Some True else None) 59 9
    (render (\<lambda>s. if s = [49] then Some True else None) (\<lambda>b. [49]) 59
      [(CellAddress 1 2, Number True), (CellAddress 3 1, Text [65279, 59, 34]), (CellAddress 3 3, Text [49])]) =
    Inr [(CellAddress 1 2, Number True), (CellAddress 3 1, Text [65279, 59, 34]), (CellAddress 3 3, Text [49])]"
proof -
  let ?vals = "[(CellAddress 1 2, Number True), (CellAddress 3 1, Text [65279, 59, 34]), (CellAddress 3 3, Text [49])]"
  let ?parse = "\<lambda>s :: ustring. if s = [49] then Some True else None" and ?show = "\<lambda>b :: bool. [49 :: uchar]"
  have "csv_values_ok ?parse ?show ?vals"
    by (simp add: csv_values_ok_def map_ok_def map_keys_def less_cell_address_def valid_address_def excel_max is_decimal_number_def
        skip_sign_def digits_def uchar_digit_def MAX_FIELD_UTF16_def char_utf16_def)
  then show ?thesis using csv_roundtrip [of 59 ?parse ?show ?vals 9] by (simp add: validate_delimiter_def DELIMITERS_def)
qed

section \<open>What reading accepts\<close>

text \<open>The values read before a position: one for each cell counted, in address order, at positions of
the sheet before it, never blank and never longer than a cell holds.\<close>

definition cell_fits :: "'n cell_value \<Rightarrow> bool" where
  "cell_fits v = (case v of Text t \<Rightarrow> utf16_len t \<le> MAX_FIELD_UTF16 | Blank \<Rightarrow> False | _ \<Rightarrow> True)"

definition read_before :: "nat \<Rightarrow> cell_address \<Rightarrow> nat \<times> (cell_address \<times> 'n cell_value) list \<Rightarrow> bool" where
  "read_before max_cells a state \<longleftrightarrow>
    fst state = length (snd state) \<and> fst state \<le> max_cells \<and> sorted_wrt (<) (map fst (snd state)) \<and>
    (\<forall>e\<in>set (snd state). fst e < a \<and> valid_address (fst e) \<and> cell_fits (snd e))"

lemma literal_fits: "unquoted_literal parse_number t = Some v \<Longrightarrow> cell_fits v"
  by (auto simp: unquoted_literal_def cell_fits_def split: if_splits)

lemma read_value_before:
  assumes "read_value parse_number max_cells state row column f = Inr state'" "read_before max_cells (CellAddress row column) state"
    "1 \<le> row" "row \<le> EXCEL_MAX_ROWS" "1 \<le> column" "column \<le> EXCEL_MAX_COLUMNS" "CellAddress row column < b"
  shows "read_before max_cells b state'"
proof -
  let ?a = "CellAddress row column"
  have later: "fst e < b" if "e \<in> set (snd state)" for e
    using that assms(2,7) unfolding read_before_def by (meson less_trans)
  have "state' = state \<or> (\<exists>v. state' = (fst state + 1, snd state @ [(?a, v)]) \<and> fst state + 1 \<le> max_cells \<and> cell_fits v)"
    using assms(1) utf16_le_utf8 [of "field_text f"]
    by (auto simp: read_value_def Let_def field_text_def cell_fits_def [of "Text _"] not_less literal_fits
        split: if_splits field.splits option.splits)
  then show ?thesis
  proof
    assume "state' = state"
    then show ?thesis using assms(2) later by (auto simp: read_before_def)
  next
    assume "\<exists>v. state' = (fst state + 1, snd state @ [(?a, v)]) \<and> fst state + 1 \<le> max_cells \<and> cell_fits v"
    then show ?thesis using assms(2-7) later by (auto simp: read_before_def sorted_wrt_append valid_address_def)
  qed
qed

lemma parse_loop_before:
  assumes "parse_loop d (read_value parse_number max_cells) characters row column line state = Inr state'"
    "read_before max_cells (CellAddress row column) state" "1 \<le> row" "1 \<le> column"
  shows "\<exists>b. read_before max_cells b state'"
  using assms
proof (induction d "read_value parse_number max_cells" characters row column line state rule: parse_loop.induct)
  case (1 d characters row column line state)
  note IH = 1(1-4) and run = 1(5)
  show ?case
  proof (cases "characters = []")
    case True
    then show ?thesis using run 1(6) by (auto simp: parse_loop.simps)
  next
    case False
    then have limits: "\<not> row > EXCEL_MAX_ROWS" "\<not> column > EXCEL_MAX_COLUMNS"
      using run by (subst (asm) parse_loop.simps; auto split: if_splits)+
    obtain v rest line1 where field: "read_field d characters line = Inr (v, rest, line1)"
      using run False limits by (subst (asm) parse_loop.simps) (auto split: sum.splits)
    obtain state1 where st: "read_value parse_number max_cells state row column v = Inr state1"
      using run False limits field by (subst (asm) parse_loop.simps) (auto split: sum.splits)
    have before: "read_before max_cells b state1" if "CellAddress row column < b" for b
      using read_value_before [OF st 1(6)] 1(7,8) limits that by simp
    have run1: "(case rest of [] \<Rightarrow> Inr state1 | c # rest \<Rightarrow>
        if c = d then if rest = [] then Inr state1 else parse_loop d (read_value parse_number max_cells) rest row (column + 1) line1 state1
        else if c = 13 then parse_loop d (read_value parse_number max_cells)
            (case rest of c' # rest' \<Rightarrow> if c' = 10 then rest' else rest | [] \<Rightarrow> rest) (row + 1) 1 (line1 + 1) state1
        else if c = 10 then parse_loop d (read_value parse_number max_cells) rest (row + 1) 1 (line1 + 1) state1
        else parse_loop d (read_value parse_number max_cells) rest row column line1 state1) = Inr state'"
      using run False limits field st by (subst (asm) parse_loop.simps) simp
    have b: "read_before max_cells (CellAddress row (column + 1)) state1" "read_before max_cells (CellAddress (row + 1) 1) state1"
      using before by (simp_all add: less_cell_address_def)
    show ?thesis
    proof (cases rest)
      case Nil
      then show ?thesis using run1 b by auto
    next
      case (Cons c rest')
      have ends: "ends_field d c"
        using field Cons by (auto simp: read_field_def res_bind_eq_Inr dropWhile_eq_Cons_conv split: if_splits)
      show ?thesis
      proof (cases "c = d")
        case True
        then show ?thesis
          using run1 Cons b IH(1) [OF False limits field refl refl st Cons True] 1(7)
          by (cases "rest' = []") auto
      next
        case False
        note ne = \<open>characters \<noteq> []\<close>
        show ?thesis
        proof (cases "c = 13")
          case True
          then show ?thesis
            using run1 Cons False b IH(2) [OF ne limits field refl refl st Cons False True] by auto
        next
          case c: False
          then have "c = 10" using ends False by (simp add: ends_field_def)
          then show ?thesis
            using run1 Cons False b IH(3) [OF ne limits field refl refl st Cons False c] by auto
        qed
      qed
    qed
  qed
qed

text \<open>C36: whatever the input, reading either fails with an error or sets at most the allowed number of values, at pairwise different valid addresses in row-major order, none blank and no text longer than
a cell holds; in particular the address of every field lies in the sheet.\<close>

theorem csv_read_safe:
  assumes "read_csv parse_number d max_cells input = Inr changes"
  shows "length changes \<le> max_cells \<and> sorted_wrt (<) (map fst changes) \<and>
    (\<forall>e\<in>set changes. valid_address (fst e) \<and> cell_fits (snd e))"
proof -
  obtain n where "parse_loop d (read_value parse_number max_cells)
      (case input of c # rest \<Rightarrow> if c = BYTE_ORDER_MARK then rest else input | [] \<Rightarrow> input) 1 1 1 (0, []) = Inr (n, changes)"
    using assms by (auto simp: read_csv_def parse_records_def res_bind_eq_Inr)
  then show ?thesis using parse_loop_before [of d parse_number max_cells] by (fastforce simp: read_before_def)
qed

theorem csv_read_safe_witness:
  "read_csv (\<lambda>_. None :: nat option) 44 5 [97, 44, 34, 13, 34, 13, 10, 35, 78, 47, 65] =
      Inr [(CellAddress 1 1, Text [97]), (CellAddress 1 2, Text [13]), (CellAddress 2 1, Error ENotAvailable)] \<and>
    length [(CellAddress 1 1, Text [97] :: nat cell_value), (CellAddress 1 2, Text [13]), (CellAddress 2 1, Error ENotAvailable)] \<le> 5"
proof -
  have run: "read_csv (\<lambda>_. None :: nat option) 44 5 [97, 44, 34, 13, 34, 13, 10, 35, 78, 47, 65] =
      Inr [(CellAddress 1 1, Text [97]), (CellAddress 1 2, Text [13]), (CellAddress 2 1, Error ENotAvailable)]"
    by (simp add: read_csv_def parse_records_def parse_loop.simps BYTE_ORDER_MARK_def EXCEL_MAX_ROWS_def EXCEL_MAX_COLUMNS_def
        read_field_def ends_field_def read_value_def field_text_def MAX_FIELD_UTF16_def char_utf16_def unquoted_literal_def is_decimal_number_def
        skip_sign_def digits_def uchar_digit_def eq_ignore_ascii_case_def uchar_upper_def ascii_def to_ascii_def excel_error_from_spelling_def
        char_of_eq_iff bit_Suc) code_simp
  show ?thesis using run csv_read_safe [OF run] by blast
qed

end
