(* ===== verification/Xstring.thy ===== *)
theory Xstring
  imports Unicode
begin

text \<open>
  \<open>ST_Xstring\<close> escapes of cell text (\<open>xlsx/xstring.rs\<close>): the encoder, the decoder of a whole value
  and the incremental decoder, which may see an escape cut at a chunk boundary.

  A position in the text is the text from it on.  The escapes are ASCII, so characters stand for the
  bytes the source looks at.
\<close>

section \<open>Scanning\<close>

definition ESCAPE_LENGTH :: nat where
  "ESCAPE_LENGTH = 7"

datatype code_unit = UnitValue nat | Incomplete | Absent

datatype scan = Character uchar nat | ScanLiteral | NeedMore

definition is_xml_10_character :: "uchar \<Rightarrow> bool" where
  "is_xml_10_character c \<longleftrightarrow>
    c = 9 \<or> c = 10 \<or> c = 13 \<or> 32 \<le> c \<and> c \<le> 55295 \<or> 57344 \<le> c \<and> c \<le> 65533 \<or> 65536 \<le> c \<and> c \<le> 1114111"

definition escape_position :: "nat \<Rightarrow> uchar \<Rightarrow> bool" where
  "escape_position position c \<longleftrightarrow>
    (if position = 0 \<or> position = 6 then c = 95 else if position = 1 then c = 120 else uchar_hexdigit c)"

definition hex_value :: "uchar \<Rightarrow> nat" where
  "hex_value c = (if uchar_digit c then c - 48 else if 97 \<le> c then c - 87 else c - 55)"

definition from_str_radix_16 :: "ustring \<Rightarrow> nat" where
  "from_str_radix_16 ds = foldl (\<lambda>v c. v * 16 + hex_value c) 0 ds"

definition code_unit_at :: "ustring \<Rightarrow> code_unit" where
  "code_unit_at s =
    (let available = min (length s) ESCAPE_LENGTH in
     if \<not> list_all (\<lambda>(position, c). escape_position position c) (enumerate 0 (take available s)) then Absent
     else if available < ESCAPE_LENGTH then Incomplete
     else UnitValue (from_str_radix_16 (take 4 (drop 2 s))))"

definition is_high :: "nat \<Rightarrow> bool" where "is_high unit \<longleftrightarrow> 55296 \<le> unit \<and> unit \<le> 56319"
definition is_low :: "nat \<Rightarrow> bool" where "is_low unit \<longleftrightarrow> 56320 \<le> unit \<and> unit \<le> 57343"

definition scan_escape :: "ustring \<Rightarrow> bool \<Rightarrow> scan" where
  "scan_escape s at_end =
    (case code_unit_at s of
      Absent \<Rightarrow> ScanLiteral
    | Incomplete \<Rightarrow> if at_end then ScanLiteral else NeedMore
    | UnitValue unit \<Rightarrow>
        if is_high unit
        then case code_unit_at (drop ESCAPE_LENGTH s) of
            UnitValue low \<Rightarrow>
              if is_low low then Character (65536 + (unit - 55296) * 1024 + (low - 56320)) (2 * ESCAPE_LENGTH) else ScanLiteral
          | Incomplete \<Rightarrow> if \<not> at_end then NeedMore else ScanLiteral
          | Absent \<Rightarrow> ScanLiteral
        else if is_low unit then ScanLiteral
        else Character unit ESCAPE_LENGTH)"

section \<open>Decoding\<close>

lemma scan_escape_length: "scan_escape s at_end = Character c n \<Longrightarrow> 0 < n"
  by (auto simp: scan_escape_def ESCAPE_LENGTH_def split: code_unit.splits if_splits)

text \<open>The decoded text and the rest of the input, whose meaning depends on data not yet seen.\<close>

function decode_prefix :: "bool \<Rightarrow> ustring \<Rightarrow> ustring \<times> ustring" where
  "decode_prefix at_end [] = ([], [])"
| "decode_prefix at_end (c # s) =
    (if c \<noteq> 95 then apfst (Cons c) (decode_prefix at_end s)
     else case scan_escape (c # s) at_end of
       Character character n \<Rightarrow> apfst (Cons character) (decode_prefix at_end (drop n (c # s)))
     | ScanLiteral \<Rightarrow> apfst (Cons c) (decode_prefix at_end s)
     | NeedMore \<Rightarrow> ([], c # s))"
  by pat_completeness auto
termination
  by (relation "measure (\<lambda>(_, s). length s)") (auto dest: scan_escape_length)

definition decode_xstring :: "ustring \<Rightarrow> ustring" where
  "decode_xstring t = (if \<not> (\<exists>i<length t. take 2 (drop i t) = [95, 120]) then t else fst (decode_prefix True t))"

record xstring_decoder =
  xd_pending :: ustring

definition decoder_default :: xstring_decoder where
  "decoder_default = \<lparr>xd_pending = []\<rparr>"

definition decoder_push :: "ustring \<Rightarrow> xstring_decoder \<Rightarrow> ustring \<times> xstring_decoder" where
  "decoder_push chunk d =
    (let (decoded, rest) = decode_prefix False (xd_pending d @ chunk) in (decoded, d\<lparr>xd_pending := rest\<rparr>))"

definition decoder_finish :: "xstring_decoder \<Rightarrow> ustring \<times> xstring_decoder" where
  "decoder_finish d = (fst (decode_prefix True (xd_pending d)), d\<lparr>xd_pending := []\<rparr>)"

section \<open>Encoding\<close>

definition hex_upper :: "nat \<Rightarrow> uchar" where
  "hex_upper d = (if d < 10 then 48 + d else 55 + d)"

text \<open>\<open>_x{:04X}_\<close> of a character below U+10000.\<close>

definition escape_of :: "uchar \<Rightarrow> ustring" where
  "escape_of c = [95, 120, hex_upper (c div 4096 mod 16), hex_upper (c div 256 mod 16), hex_upper (c div 16 mod 16), hex_upper (c mod 16), 95]"

definition UNDERSCORE_ESCAPE :: ustring where
  "UNDERSCORE_ESCAPE = [95, 120, 48, 48, 53, 70, 95]"

fun is_unit_value :: "code_unit \<Rightarrow> bool" where
  "is_unit_value (UnitValue _) = True"
| "is_unit_value _ = False"

fun encode_from :: "ustring \<Rightarrow> ustring" where
  "encode_from [] = []"
| "encode_from (c # s) =
    (if \<not> is_xml_10_character c then escape_of c
     else if c = 95 \<and> is_unit_value (code_unit_at (c # s)) then UNDERSCORE_ESCAPE
     else [c]) @ encode_from s"

fun needs_encoding :: "ustring \<Rightarrow> bool" where
  "needs_encoding [] = False"
| "needs_encoding (c # s) =
    (\<not> is_xml_10_character c \<or> c = 95 \<and> is_unit_value (code_unit_at (c # s)) \<or> needs_encoding s)"

definition encode_xstring :: "ustring \<Rightarrow> ustring" where
  "encode_xstring t = (if \<not> needs_encoding t then t else encode_from t)"

section \<open>The patterns\<close>

lemma code_unit_cases:
  "code_unit_at s = UnitValue u \<longleftrightarrow>
    (\<exists>a b c d t. s = [95, 120, a, b, c, d, 95] @ t \<and> uchar_hexdigit a \<and> uchar_hexdigit b \<and> uchar_hexdigit c \<and> uchar_hexdigit d \<and>
      u = from_str_radix_16 [a, b, c, d])" (is "_ \<longleftrightarrow> ?rhs")
proof
  assume l: "code_unit_at s = UnitValue u"
  then have "7 \<le> length s" by (auto simp: code_unit_at_def ESCAPE_LENGTH_def Let_def split: if_splits)
  then obtain x0 x1 a b c d x6 t where s: "s = x0 # x1 # a # b # c # d # x6 # t"
    by (auto simp: numeral_eq_Suc Suc_le_length_iff)
  show ?rhs using l unfolding s by (auto simp: code_unit_at_def ESCAPE_LENGTH_def Let_def escape_position_def split: if_splits)
next
  assume ?rhs
  then show "code_unit_at s = UnitValue u" by (auto simp: code_unit_at_def ESCAPE_LENGTH_def Let_def escape_position_def)
qed

text \<open>More input does not change what is already decided.\<close>

lemma code_unit_append:
  assumes "code_unit_at s \<noteq> Incomplete"
  shows "code_unit_at (s @ t) = code_unit_at s"
proof (cases "code_unit_at s")
  case (UnitValue u)
  then obtain a b c d r where "s = [95, 120, a, b, c, d, 95] @ r" "uchar_hexdigit a" "uchar_hexdigit b" "uchar_hexdigit c" "uchar_hexdigit d"
      "u = from_str_radix_16 [a, b, c, d]"
    unfolding code_unit_cases by blast
  then have "code_unit_at (s @ t) = UnitValue u" unfolding code_unit_cases by auto
  then show ?thesis using UnitValue by simp
next
  case Absent
  let ?P = "\<lambda>(position, c). escape_position position c"
  have no: "\<not> list_all ?P (enumerate 0 (take (min (length s) 7) s))"
    using Absent by (auto simp: code_unit_at_def ESCAPE_LENGTH_def Let_def split: if_splits)
  have "take (min (length (s @ t)) 7) (s @ t) = take (min (length s) 7) s @ drop (min (length s) 7) (take (min (length (s @ t)) 7) (s @ t))"
    by (simp add: min_def take_drop [symmetric] split: if_splits)
  then have "\<not> list_all ?P (enumerate 0 (take (min (length (s @ t)) 7) (s @ t)))"
    using no by (metis (no_types, lifting) enumerate_append_eq list_all_append)
  then show ?thesis using Absent by (simp add: code_unit_at_def ESCAPE_LENGTH_def Let_def)
qed (use assms in simp)

lemma scan_escape_append:
  assumes "scan_escape s False \<noteq> NeedMore"
  shows "scan_escape (s @ t) at_end = scan_escape s False"
proof (cases "code_unit_at s")
  case (UnitValue u)
  then have st: "code_unit_at (s @ t) = UnitValue u" using code_unit_append [of s t] by simp
  have "7 \<le> length s" using UnitValue unfolding code_unit_cases by auto
  then have drop: "drop ESCAPE_LENGTH (s @ t) = drop ESCAPE_LENGTH s @ t" by (simp add: ESCAPE_LENGTH_def)
  show ?thesis
  proof (cases "is_high u")
    case True
    then have "code_unit_at (drop ESCAPE_LENGTH s) \<noteq> Incomplete" using assms UnitValue by (auto simp: scan_escape_def)
    then show ?thesis using True UnitValue st drop code_unit_append [of "drop ESCAPE_LENGTH s" t] by (auto simp: scan_escape_def split: code_unit.splits)
  qed (use UnitValue st in \<open>simp add: scan_escape_def\<close>)
next
  case Absent
  then show ?thesis using code_unit_append [of s t] by (simp add: scan_escape_def)
qed (use assms in \<open>simp add: scan_escape_def\<close>)

lemma scan_character_length:
  assumes "scan_escape s at_end = Character c n"
  shows "n \<le> length s"
proof -
  have "7 \<le> length s" if "code_unit_at s = UnitValue u" for s u using that unfolding code_unit_cases by auto
  then show ?thesis using assms
    by (fastforce simp: scan_escape_def ESCAPE_LENGTH_def split: code_unit.splits if_splits)
qed

lemma decode_prefix_append:
  "decode_prefix False s = (out, pending) \<Longrightarrow> fst (decode_prefix True (s @ t)) = out @ fst (decode_prefix True (pending @ t))"
proof (induction False s arbitrary: out pending rule: decode_prefix.induct)
  case (2 c s)
  show ?case
  proof (cases "c = 95")
    case False
    obtain out' where "decode_prefix False s = (out', pending)" "out = c # out'"
      using 2(4) False by (cases "decode_prefix False s") auto
    then show ?thesis using 2(1) [OF False] False by simp
  next
    case True
    show ?thesis
    proof (cases "scan_escape (c # s) False")
      case (Character x n)
      have "scan_escape (c # s @ t) True = Character x n" using scan_escape_append [of "c # s" t True] Character by simp
      moreover have "drop n ((c # s) @ t) = drop n (c # s) @ t" using scan_character_length [OF Character] by (simp only: drop_append diff_is_0_eq' drop0)
      moreover obtain out' where "decode_prefix False (drop n (c # s)) = (out', pending)" "out = x # out'"
        using 2(4) True Character by (cases "decode_prefix False (drop n (c # s))") auto
      ultimately show ?thesis using 2(2) [OF _ Character] True by simp
    next
      case ScanLiteral
      have "scan_escape (c # s @ t) True = ScanLiteral" using scan_escape_append [of "c # s" t True] ScanLiteral by simp
      moreover obtain out' where "decode_prefix False s = (out', pending)" "out = c # out'"
        using 2(4) True ScanLiteral by (cases "decode_prefix False s") auto
      ultimately show ?thesis using 2(3) [OF _ ScanLiteral] True by simp
    next
      case NeedMore
      then show ?thesis using 2(4) True by auto
    qed
  qed
qed simp

text \<open>Pushing the chunks one after the other.\<close>

fun decode_chunks :: "ustring list \<Rightarrow> xstring_decoder \<Rightarrow> ustring" where
  "decode_chunks [] d = fst (decoder_finish d)"
| "decode_chunks (chunk # chunks) d = (let (out, d') = decoder_push chunk d in out @ decode_chunks chunks d')"

lemma decode_chunks_whole: "decode_chunks chunks d = fst (decode_prefix True (xd_pending d @ concat chunks))"
proof (induction chunks arbitrary: d)
  case Nil
  then show ?case by (simp add: decoder_finish_def)
next
  case (Cons chunk chunks)
  obtain out rest where p: "decode_prefix False (xd_pending d @ chunk) = (out, rest)" by fastforce
  then show ?case using Cons.IH [of "d\<lparr>xd_pending := rest\<rparr>"] decode_prefix_append [OF p, of "concat chunks"]
    by (simp add: decoder_push_def)
qed

lemma decode_no_escape:
  assumes "\<not> (\<exists>i<length t. take 2 (drop i t) = [95, 120])"
  shows "fst (decode_prefix True t) = t"
  using assms
proof (induction t)
  case (Cons c s)
  have tail: "\<not> (\<exists>i<length s. take 2 (drop i s) = [95, 120])"
    using Cons.prems by (metis Suc_less_eq drop_Suc_Cons length_Cons)
  have "scan_escape (c # s) True = ScanLiteral" if "c = 95"
  proof -
    have "take 2 (drop 0 (c # s)) \<noteq> [95, 120]" using Cons.prems by blast
    then have none: "code_unit_at (c # s) \<noteq> UnitValue u" for u unfolding code_unit_cases by auto
    show ?thesis
    proof (cases "code_unit_at (c # s)")
      case (UnitValue u)
      then show ?thesis using none by blast
    qed (simp_all add: scan_escape_def)
  qed
  then show ?case using Cons.IH [OF tail] by simp
qed simp

lemma decode_xstring_prefix: "decode_xstring t = fst (decode_prefix True t)"
  using decode_no_escape [of t] by (auto simp: decode_xstring_def)

section \<open>What the encoder writes\<close>

lemma encode_unneeded: "\<not> needs_encoding t \<Longrightarrow> encode_from t = t"
  by (induction t) auto

lemma encode_xstring_from: "encode_xstring t = encode_from t"
  using encode_unneeded by (simp add: encode_xstring_def)

lemma encode_first:
  assumes "encode_from s = y # ys"
  shows "y \<noteq> 95 \<Longrightarrow> \<exists>s'. s = y # s' \<and> encode_from s' = ys"
    and "y = 95 \<Longrightarrow> \<exists>c s'. s = c # s' \<and> (\<not> is_xml_10_character c \<and> ys = tl (escape_of c) @ encode_from s' \<or> c = 95)"
  using assms by (cases s; auto simp: escape_of_def UNDERSCORE_ESCAPE_def split: if_splits)+

lemma hexdigit_not_underscore: "uchar_hexdigit c \<Longrightarrow> c \<noteq> 95"
  by (auto simp: uchar_hexdigit_def uchar_digit_def)

text \<open>A text that already looks like the start of an escape, right before a character that will be
escaped: the underscore of that escape completes the pattern.\<close>

definition escape_hazard :: "ustring \<Rightarrow> bool" where
  "escape_hazard s \<longleftrightarrow>
    (\<exists>a b c d x t. s = [95, 120, a, b, c, d, x] @ t \<and> uchar_hexdigit a \<and> uchar_hexdigit b \<and> uchar_hexdigit c \<and> uchar_hexdigit d \<and>
      \<not> is_high (from_str_radix_16 [a, b, c, d]) \<and> \<not> is_low (from_str_radix_16 [a, b, c, d]) \<and> \<not> is_xml_10_character x)"

lemma escape_hazard_length: "escape_hazard s \<Longrightarrow> 7 \<le> length s"
  unfolding escape_hazard_def by auto

lemma encoded_pattern:
  assumes "code_unit_at (95 # encode_from s) = UnitValue u" "\<not> is_unit_value (code_unit_at (95 # s))"
  obtains a b c d x t where "s = [120, a, b, c, d, x] @ t" "uchar_hexdigit a" "uchar_hexdigit b" "uchar_hexdigit c" "uchar_hexdigit d"
    "u = from_str_radix_16 [a, b, c, d]" "\<not> is_xml_10_character x"
    "encode_from s = [120, a, b, c, d, 95] @ tl (escape_of x) @ encode_from t"
proof -
  obtain a b c d r where r: "encode_from s = [120, a, b, c, d, 95] @ r" and h: "uchar_hexdigit a" "uchar_hexdigit b" "uchar_hexdigit c" "uchar_hexdigit d"
    and u: "u = from_str_radix_16 [a, b, c, d]"
    using assms(1) unfolding code_unit_cases by auto
  obtain s1 where s1: "s = 120 # s1" "encode_from s1 = [a, b, c, d, 95] @ r" using encode_first(1) [of s 120] r by auto
  obtain s2 where s2: "s1 = a # s2" "encode_from s2 = [b, c, d, 95] @ r"
    using encode_first(1) [of s1 a] s1(2) hexdigit_not_underscore [OF h(1)] by auto
  obtain s3 where s3: "s2 = b # s3" "encode_from s3 = [c, d, 95] @ r"
    using encode_first(1) [of s2 b] s2(2) hexdigit_not_underscore [OF h(2)] by auto
  obtain s4 where s4: "s3 = c # s4" "encode_from s4 = [d, 95] @ r"
    using encode_first(1) [of s3 c] s3(2) hexdigit_not_underscore [OF h(3)] by auto
  obtain s5 where s5: "s4 = d # s5" "encode_from s5 = 95 # r"
    using encode_first(1) [of s4 d] s4(2) hexdigit_not_underscore [OF h(4)] by auto
  obtain x t where x: "s5 = x # t" "\<not> is_xml_10_character x \<and> r = tl (escape_of x) @ encode_from t \<or> x = 95"
    using encode_first(2) [OF s5(2)] by blast
  have s: "s = [120, a, b, c, d, x] @ t" using s1 s2 s3 s4 s5 x by simp
  have "x \<noteq> 95"
  proof
    assume "x = 95"
    then have "code_unit_at (95 # s) = UnitValue u" unfolding code_unit_cases using s h u by auto
    then show False using assms(2) by simp
  qed
  then show thesis using that [OF s h u] x(2) r by auto
qed

lemma hex_upper_digit: "d < 16 \<Longrightarrow> uchar_hexdigit (hex_upper d)" "d < 16 \<Longrightarrow> hex_value (hex_upper d) = d"
  by (auto simp: uchar_hexdigit_def hex_upper_def uchar_digit_def hex_value_def)

lemma hex_digits_value: "n < 65536 \<Longrightarrow> from_str_radix_16 [hex_upper (n div 4096 mod 16), hex_upper (n div 256 mod 16),
    hex_upper (n div 16 mod 16), hex_upper (n mod 16)] = n" for n :: nat
proof -
  assume "n < 65536"
  then have small: "n div 4096 < 16" by simp
  then have "n div 4096 mod 16 = n div 4096" by simp
  moreover have "n div 4096 = n div 256 div 16" "n div 256 = n div 16 div 16" by (simp_all add: div_mult2_eq [symmetric])
  ultimately show ?thesis
    using mult_div_mod_eq [of 16 "n div 256"] mult_div_mod_eq [of 16 "n div 16"] mult_div_mod_eq [of 16 n]
      small by (simp add: from_str_radix_16_def hex_upper_digit algebra_simps)
qed

lemma code_unit_escape:
  assumes "\<not> is_xml_10_character c" "c \<le> 1114111" "\<not> is_high c" "\<not> is_low c"
  shows "scan_escape (escape_of c @ t) at_end = Character c 7"
proof -
  have c: "c < 65536" using assms(1,2) by (auto simp: is_xml_10_character_def)
  have "code_unit_at (escape_of c @ t) = UnitValue c"
    unfolding code_unit_cases escape_of_def using hex_digits_value [OF c] by (auto simp: hex_upper_digit)
  then show ?thesis using assms(3,4) by (simp add: scan_escape_def ESCAPE_LENGTH_def)
qed

lemma scan_underscore_escape: "scan_escape (UNDERSCORE_ESCAPE @ t) at_end = Character 95 7"
proof -
  have "code_unit_at (UNDERSCORE_ESCAPE @ t) = UnitValue 95"
    unfolding code_unit_cases UNDERSCORE_ESCAPE_def by (auto simp: uchar_hexdigit_def uchar_digit_def from_str_radix_16_def hex_value_def)
  then show ?thesis by (simp add: scan_escape_def ESCAPE_LENGTH_def is_high_def is_low_def)
qed

text \<open>The characters of a Rust \<open>char\<close>: Unicode scalar values.\<close>

definition scalar_value :: "uchar \<Rightarrow> bool" where
  "scalar_value c \<longleftrightarrow> c \<le> 1114111 \<and> \<not> is_high c \<and> \<not> is_low c"

lemma scan_literal_underscore:
  assumes "\<not> is_unit_value (code_unit_at (95 # s))" "\<not> escape_hazard (95 # s)"
  shows "scan_escape (95 # encode_from s) True = ScanLiteral"
proof (cases "code_unit_at (95 # encode_from s)")
  case (UnitValue u)
  obtain a b c d x t where p: "s = [120, a, b, c, d, x] @ t" "uchar_hexdigit a" "uchar_hexdigit b" "uchar_hexdigit c" "uchar_hexdigit d"
    "u = from_str_radix_16 [a, b, c, d]" "\<not> is_xml_10_character x"
    "encode_from s = [120, a, b, c, d, 95] @ tl (escape_of x) @ encode_from t"
    by (rule encoded_pattern [OF UnitValue assms(1)])
  have "is_high u \<or> is_low u" using assms(2) p unfolding escape_hazard_def by auto
  moreover have "code_unit_at (drop ESCAPE_LENGTH (95 # encode_from s)) = Absent"
  proof -
    have "drop ESCAPE_LENGTH (95 # encode_from s) = 120 # tl (tl (escape_of x)) @ encode_from t"
      unfolding p(8) by (simp add: ESCAPE_LENGTH_def escape_of_def)
    then show ?thesis by (simp add: code_unit_at_def escape_position_def Let_def ESCAPE_LENGTH_def)
  qed
  moreover have "\<not> (is_high u \<and> is_low u)" by (simp add: is_high_def is_low_def)
  ultimately show ?thesis using UnitValue by (auto simp: scan_escape_def)
qed (simp_all add: scan_escape_def)

lemma decode_encode:
  assumes "\<forall>c\<in>set t. scalar_value c" "\<forall>i<length t. \<not> escape_hazard (drop i t)"
  shows "fst (decode_prefix True (encode_from t)) = t"
  using assms
proof (induction t)
  case (Cons c s)
  have IH: "fst (decode_prefix True (encode_from s)) = s"
    using Cons by (metis Suc_less_eq drop_Suc_Cons length_Cons list.set_intros(2))
  have c: "scalar_value c" and hazard: "\<not> escape_hazard (c # s)" using Cons.prems by (auto dest: spec [of _ 0])
  consider (escaped) "\<not> is_xml_10_character c" | (underscore) "is_xml_10_character c" "c = 95" "is_unit_value (code_unit_at (c # s))"
    | (plain) "is_xml_10_character c" "c \<noteq> 95" | (literal) "is_xml_10_character c" "c = 95" "\<not> is_unit_value (code_unit_at (c # s))" by blast
  then show ?case
  proof cases
    case escaped
    then have "scan_escape (escape_of c @ encode_from s) True = Character c 7" using c by (intro code_unit_escape) (auto simp: scalar_value_def)
    moreover obtain r where "escape_of c = 95 # r" "length r = 6" by (simp add: escape_of_def)
    ultimately show ?thesis using escaped IH by simp
  next
    case underscore
    have "decode_prefix True (UNDERSCORE_ESCAPE @ encode_from s) = apfst (Cons 95) (decode_prefix True (encode_from s))"
      using scan_underscore_escape [of "encode_from s" True] by (simp add: UNDERSCORE_ESCAPE_def)
    then show ?thesis using underscore IH by simp
  next
    case plain
    then show ?thesis using IH by simp
  next
    case literal
    then show ?thesis using IH scan_literal_underscore [of s] hazard by simp
  qed
qed simp

lemmas xstring_eval = encode_xstring_def escape_of_def hex_upper_def UNDERSCORE_ESCAPE_def is_xml_10_character_def code_unit_at_def
  ESCAPE_LENGTH_def escape_position_def uchar_hexdigit_def uchar_digit_def from_str_radix_16_def hex_value_def scan_escape_def
  is_high_def is_low_def

section \<open>Properties\<close>

text \<open>C31: however the character data is cut into chunks, pushing the chunks and finishing decodes the
same text as decoding the whole value at once, an escape or a surrogate pair cut by a chunk boundary
included.\<close>

theorem xstring_chunks_exact: "decode_chunks chunks decoder_default = decode_xstring (concat chunks)"
  unfolding decode_chunks_whole decode_xstring_prefix by (simp add: decoder_default_def)

text \<open>C37: the encoder's output decodes back to the text unless an unescaped \<open>_xHHHH\<close> of the text that
names a character stands right before a character XML cannot carry, and every character of the output
is one XML can carry.\<close>

theorem xstring_roundtrip:
  assumes "\<forall>c\<in>set t. scalar_value c"
  shows "((\<forall>i<length t. \<not> escape_hazard (drop i t)) \<longrightarrow> decode_xstring (encode_xstring t) = t) \<and>
    (\<forall>c\<in>set (encode_xstring t). is_xml_10_character c)"
proof (intro conjI impI)
  show "decode_xstring (encode_xstring t) = t" if "\<forall>i<length t. \<not> escape_hazard (drop i t)"
    unfolding decode_xstring_prefix encode_xstring_from using assms that by (rule decode_encode)
  have "32 \<le> hex_upper d \<and> hex_upper d \<le> 71" if "d < 16" for d using that by (simp add: hex_upper_def)
  then have hex: "is_xml_10_character (hex_upper (d mod 16))" for d by (simp add: is_xml_10_character_def order_trans [of _ 71])
  have "\<forall>c\<in>set (encode_from t). is_xml_10_character c" for t
    using hex by (induction t) (auto simp: escape_of_def UNDERSCORE_ESCAPE_def is_xml_10_character_def)
  then show "\<forall>c\<in>set (encode_xstring t). is_xml_10_character c" unfolding encode_xstring_from .
qed

theorem xstring_roundtrip_witness:
  "encode_xstring [1, 95, 120, 48, 48, 52, 49, 95] = [95, 120, 48, 48, 48, 49, 95, 95, 120, 48, 48, 53, 70, 95, 120, 48, 48, 52, 49, 95] \<and>
    decode_xstring (encode_xstring [1, 95, 120, 48, 48, 52, 49, 95]) = [1, 95, 120, 48, 48, 52, 49, 95]"
proof -
  let ?t = "[1, 95, 120, 48, 48, 52, 49, 95] :: ustring"
  have "\<not> escape_hazard (drop i ?t)" for i
  proof
    assume h: "escape_hazard (drop i ?t)"
    then have "7 \<le> length (drop i ?t)" by (rule escape_hazard_length)
    then have "i = 0 \<or> i = 1" by auto
    then show False using h unfolding escape_hazard_def by (auto simp: is_xml_10_character_def)
  qed
  moreover have "\<forall>c\<in>set ?t. scalar_value c" by (simp add: scalar_value_def is_high_def is_low_def)
  moreover have "encode_xstring ?t = [95, 120, 48, 48, 48, 49, 95, 95, 120, 48, 48, 53, 70, 95, 120, 48, 48, 52, 49, 95]" by (simp add: xstring_eval)
  ultimately show ?thesis using xstring_roundtrip [of ?t] by blast
qed

text \<open>The exception is real: the string \<open>_x0041\<close> followed by U+0001 encodes to \<open>_x0041_x0001_\<close>, which
decodes to \<open>Ax0001_\<close>.\<close>

lemma xstring_roundtrip_exception:
  "encode_xstring [95, 120, 48, 48, 52, 49, 1] = [95, 120, 48, 48, 52, 49, 95, 120, 48, 48, 48, 49, 95] \<and>
    decode_xstring [95, 120, 48, 48, 52, 49, 95, 120, 48, 48, 48, 49, 95] = [65, 120, 48, 48, 48, 49, 95]"
proof
  show "encode_xstring [95, 120, 48, 48, 52, 49, 1] = [95, 120, 48, 48, 52, 49, 95, 120, 48, 48, 48, 49, 95]" by (simp add: xstring_eval)
  have "scan_escape [95, 120, 48, 48, 52, 49, 95, 120, 48, 48, 48, 49, 95] True = Character 65 7" "scan_escape [95] True = ScanLiteral"
    by (simp_all add: xstring_eval)
  then show "decode_xstring [95, 120, 48, 48, 52, 49, 95, 120, 48, 48, 48, 49, 95] = [65, 120, 48, 48, 48, 49, 95]"
    unfolding decode_xstring_prefix by simp
qed

end
