(* ===== verification/Sheet_Name.thy ===== *)
theory Sheet_Name
  imports Address Unicode
begin

text \<open>
  Sheet IDs and names (\<open>SheetId\<close>, \<open>SheetName\<close> and \<open>numbered_name\<close> of \<open>workbook.rs\<close>): Excel's
  constraints on a name, and the name of a copy.

  \<open>char::to_lowercase\<close>, which the lookup key of a name with other than ASCII characters uses, is
  the parameter \<open>lower\<close>.  The two loops of \<open>copy_name\<close> are partial functions: \<open>None\<close> is a loop that
  never ends.
\<close>

section \<open>Names\<close>

definition sheet_id_new :: "u32 \<Rightarrow> validation_error + u32" where
  "sheet_id_new i = (if i = 0 then Inl SheetIdZero else Inr i)"

record sheet_name =
  sn_original :: ustring
  sn_lookup_key :: ustring

definition uchar_lower :: "uchar \<Rightarrow> uchar" where
  "uchar_lower c = (if 65 \<le> c \<and> c \<le> 90 then c + 32 else c)"

definition case_insensitive_key :: "(uchar \<Rightarrow> ustring) \<Rightarrow> ustring \<Rightarrow> ustring" where
  "case_insensitive_key lower s =
    (if list_all (\<lambda>c. c < 128) s
     then if list_ex (\<lambda>c. 65 \<le> c \<and> c \<le> 90) s then map uchar_lower s else s
     else concat (map lower s))"

text \<open>\<open>char::is_control\<close>: the general category Cc.\<close>

definition is_control :: "uchar \<Rightarrow> bool" where
  "is_control c \<longleftrightarrow> c < 32 \<or> 127 \<le> c \<and> c < 160"

definition sheet_name_forbidden :: "uchar \<Rightarrow> bool" where
  "sheet_name_forbidden c \<longleftrightarrow> is_control c \<or> c \<in> {58, 92, 47, 63, 42, 91, 93}"

definition sheet_name_new :: "(uchar \<Rightarrow> ustring) \<Rightarrow> ustring \<Rightarrow> validation_error + sheet_name" where
  "sheet_name_new lower s =
    (if s = [] then Inl SheetNameEmpty
     else if utf16_len s > 31 then Inl (SheetNameTooLong (utf16_len s))
     else if hd s = 39 \<or> last s = 39 then Inl SheetNameApostropheBoundary
     else case find sheet_name_forbidden s of
       Some character \<Rightarrow> Inl (SheetNameInvalidCharacter character)
     | None \<Rightarrow> Inr \<lparr>sn_original = s, sn_lookup_key = case_insensitive_key lower s\<rparr>)"

section \<open>Numbered names\<close>

definition trim_start_spaces :: "ustring \<Rightarrow> ustring" where
  "trim_start_spaces s = dropWhile (\<lambda>c. c = 32) s"

definition trim_end_spaces :: "ustring \<Rightarrow> ustring" where
  "trim_end_spaces s = rev (dropWhile (\<lambda>c. c = 32) (rev s))"

text \<open>\<open>rfind('(')\<close>: the text before the last opening parenthesis and the text after it.\<close>

definition split_last_open :: "ustring \<Rightarrow> (ustring \<times> ustring) option" where
  "split_last_open s =
    (let after = takeWhile (\<lambda>c. c \<noteq> 40) (rev s)
     in if length after = length s then None
        else Some (take (length s - length after - 1) s, rev after))"

definition decimal_value :: "ustring \<Rightarrow> nat" where
  "decimal_value ds = foldl (\<lambda>v c. v * 10 + (c - 48)) 0 ds"

definition parse_i32_digits :: "ustring \<Rightarrow> nat option" where
  "parse_i32_digits ds = (if decimal_value ds \<le> 2147483647 then Some (decimal_value ds) else None)"

definition numbered_name :: "ustring \<Rightarrow> (ustring \<times> ustring \<times> nat) option" where
  "numbered_name name =
    (if name = [] \<or> last name \<noteq> 41 then None
     else Option.bind (split_last_open (butlast name))
       (\<lambda>(before, after).
         let ds = trim_start_spaces after
         in if ds = [] \<or> \<not> list_all uchar_digit ds then None
            else Option.bind (parse_i32_digits ds)
              (\<lambda>written. let stem = trim_end_spaces before
                in Some (stem, drop (length stem) before, written + 1))))"

section \<open>Copies\<close>

partial_function (option) shorten_stem :: "ustring \<Rightarrow> ustring \<Rightarrow> ustring option" where
  "shorten_stem stem suffix =
    (if utf16_len stem + utf16_len suffix > 31 then shorten_stem (butlast stem) suffix else Some stem)"

definition copy_suffix :: "ustring \<Rightarrow> nat \<Rightarrow> ustring" where
  "copy_suffix separator number = separator @ [40] @ ascii (show_nat number) @ [41]"

partial_function (option) copy_loop ::
  "(uchar \<Rightarrow> ustring) \<Rightarrow> (ustring \<Rightarrow> bool) \<Rightarrow> ustring \<Rightarrow> ustring \<Rightarrow> nat \<Rightarrow> sheet_name option" where
  "copy_loop lower is_taken stem separator number =
    Option.bind (shorten_stem stem (copy_suffix separator number))
      (\<lambda>short. case sheet_name_new lower (short @ copy_suffix separator number) of
          Inr candidate \<Rightarrow> if \<not> is_taken (sn_original candidate) then Some candidate
            else copy_loop lower is_taken stem separator (number + 1)
        | Inl e \<Rightarrow> copy_loop lower is_taken stem separator (number + 1))"

definition copy_name :: "(uchar \<Rightarrow> ustring) \<Rightarrow> (ustring \<Rightarrow> bool) \<Rightarrow> sheet_name \<Rightarrow> sheet_name option" where
  "copy_name lower is_taken name =
    (let (stem, separator, number) =
        (case numbered_name (sn_original name) of Some parts \<Rightarrow> parts | None \<Rightarrow> (sn_original name, [32], 2))
     in copy_loop lower is_taken stem separator number)"

section \<open>Valid names\<close>

definition valid_sheet_name :: "ustring \<Rightarrow> bool" where
  "valid_sheet_name s \<longleftrightarrow> s \<noteq> [] \<and> utf16_len s \<le> 31 \<and> hd s \<noteq> 39 \<and> last s \<noteq> 39 \<and> (\<forall>c\<in>set s. \<not> sheet_name_forbidden c)"

lemma sheet_name_new_iff:
  "sheet_name_new lower s = Inr n \<longleftrightarrow>
    valid_sheet_name s \<and> n = \<lparr>sn_original = s, sn_lookup_key = case_insensitive_key lower s\<rparr>"
  by (auto simp: sheet_name_new_def valid_sheet_name_def find_None_iff find_Some_iff split: option.splits)

section \<open>Shortening\<close>

lemma shorten_short: "utf16_len suffix \<le> 31 \<Longrightarrow>
    \<exists>k. shorten_stem stem suffix = Some (take k stem) \<and> utf16_len (take k stem) + utf16_len suffix \<le> 31"
proof (induction "length stem" arbitrary: stem)
  case 0
  then show ?case by (subst shorten_stem.simps) auto
next
  case (Suc n)
  show ?case
  proof (cases "utf16_len stem + utf16_len suffix > 31")
    case True
    have "n = length (butlast stem)" using Suc.hyps(2) by (metis diff_Suc_1 length_butlast)
    then obtain k where "shorten_stem (butlast stem) suffix = Some (take k (butlast stem))"
      "utf16_len (take k (butlast stem)) + utf16_len suffix \<le> 31"
      using Suc.hyps(1) [of "butlast stem"] Suc.hyps(2) Suc.prems by auto
    then show ?thesis using True by (subst shorten_stem.simps) (auto simp: butlast_conv_take intro!: exI [of _ "min k (length stem - 1)"])
  next
    case False
    then show ?thesis by (subst shorten_stem.simps) (auto intro!: exI [of _ "length stem"])
  qed
qed

text \<open>A suffix that alone is too long leaves nothing to shorten: the loop pops an empty text forever.\<close>

lemma shorten_diverges:
  assumes "utf16_len suffix > 31"
  shows "shorten_stem stem suffix = None"
proof -
  have "utf16_len suffix \<le> 31" if "shorten_stem stem suffix = Some r" for r
    using that
  proof (rule shorten_stem.raw_induct [where P = "\<lambda>stem suffix r. utf16_len suffix \<le> 31", rotated])
    fix f :: "ustring \<Rightarrow> ustring \<Rightarrow> ustring option" and stem suffix r
    assume "\<And>stem suffix r. f stem suffix = Some r \<Longrightarrow> utf16_len suffix \<le> 31"
      "(if utf16_len stem + utf16_len suffix > 31 then f (butlast stem) suffix else Some stem) = Some r"
    then show "utf16_len suffix \<le> 31" by (auto split: if_splits)
  qed
  then show ?thesis using assms by (cases "shorten_stem stem suffix") auto
qed

lemma copy_loop_diverges:
  assumes "\<forall>n\<ge>number. utf16_len (copy_suffix separator n) > 31"
  shows "copy_loop lower is_taken stem separator number = None"
  using assms by (subst copy_loop.simps) (simp add: shorten_diverges)

section \<open>Candidates\<close>

definition copy_parts :: "ustring \<Rightarrow> ustring \<times> ustring \<times> nat" where
  "copy_parts name = (case numbered_name name of Some parts \<Rightarrow> parts | None \<Rightarrow> (name, [32], 2))"

lemma trim_end_prefix: "\<exists>spaces. s = trim_end_spaces s @ spaces \<and> set spaces \<subseteq> {32}"
proof -
  have "rev s = takeWhile (\<lambda>c. c = 32) (rev s) @ dropWhile (\<lambda>c. c = 32) (rev s)" by simp
  then have "s = rev (dropWhile (\<lambda>c. c = 32) (rev s)) @ rev (takeWhile (\<lambda>c. c = 32) (rev s))"
    by (metis rev_append rev_rev_ident)
  moreover have "set (takeWhile (\<lambda>c. c = 32) (rev s)) \<subseteq> {32}" by (auto dest: set_takeWhileD)
  ultimately show ?thesis unfolding trim_end_spaces_def by (metis set_rev)
qed

text \<open>The stem is the beginning of the name and the separator is spaces.\<close>

lemma copy_parts_prefix:
  assumes "copy_parts name = (stem, separator, number)"
  shows "\<exists>rest. name = stem @ rest" "set separator \<subseteq> {32}"
proof -
  have "(\<exists>rest. name = stem @ rest) \<and> set separator \<subseteq> {32}"
  proof (cases "numbered_name name")
    case None
    then show ?thesis using assms by (auto simp: copy_parts_def)
  next
    case (Some parts)
    then have parts: "numbered_name name = Some (stem, separator, number)" using assms by (simp add: copy_parts_def)
    obtain before after where split: "split_last_open (butlast name) = Some (before, after)"
      "stem = trim_end_spaces before" "separator = drop (length stem) before"
      using parts by (auto simp: numbered_name_def Let_def split: if_splits Option.bind_splits)
    obtain k where "before = take k (butlast name)" using split(1) by (auto simp: split_last_open_def Let_def split: if_splits)
    then have "\<exists>rest. name = before @ rest" by (metis append_take_drop_id butlast_conv_take take_take)
    moreover obtain spaces where "before = stem @ spaces" "set spaces \<subseteq> {32}" using trim_end_prefix [of before] split(2) by auto
    ultimately show ?thesis using split(3) by auto
  qed
  then show "\<exists>rest. name = stem @ rest" "set separator \<subseteq> {32}" by auto
qed

lemma digits_allowed: "c \<in> set (ascii (show_nat n)) \<Longrightarrow> 48 \<le> c \<and> c \<le> 57"
  using show_nat_digits [of n] by (auto simp: ascii_def list_all_iff is_ascii_digit_def)

lemma candidate_valid:
  assumes "valid_sheet_name name" "name = stem @ rest" "set separator \<subseteq> {32}"
    "utf16_len (take k stem) + utf16_len (copy_suffix separator number) \<le> 31"
  shows "valid_sheet_name (take k stem @ copy_suffix separator number)"
proof -
  have allowed: "\<not> sheet_name_forbidden c" if "c \<in> set (copy_suffix separator number)" for c
    using that assms(3) digits_allowed [of c number] by (auto simp: copy_suffix_def sheet_name_forbidden_def is_control_def)
  have "\<not> sheet_name_forbidden c" if "c \<in> set (take k stem)" for c
    using that assms(1,2) in_set_takeD [of c k stem] by (auto simp: valid_sheet_name_def)
  moreover have "hd (take k stem @ copy_suffix separator number) \<noteq> 39"
  proof (cases "take k stem")
    case Nil
    then show ?thesis using assms(3) by (cases separator) (auto simp: copy_suffix_def)
  next
    case (Cons c s)
    then have "hd name = c" using assms(2) by (cases stem; cases k) auto
    then show ?thesis using Cons assms(1) by (auto simp: valid_sheet_name_def)
  qed
  moreover have "last (take k stem @ copy_suffix separator number) = 41" "copy_suffix separator number \<noteq> []"
    by (simp_all add: copy_suffix_def)
  ultimately show ?thesis using assms(4) allowed by (auto simp: valid_sheet_name_def)
qed

lemma ascii_inj: "ascii s = ascii t \<longleftrightarrow> s = t"
  by (auto simp: ascii_def inj_map_eq_map inj_def)

lemma show_nat_inj: "show_nat m = show_nat n \<longleftrightarrow> m = n"
  using digits_value_show_nat by metis

lemma candidate_number:
  assumes "s @ copy_suffix separator m = t @ copy_suffix separator n"
  shows "m = n"
proof -
  have no: "\<forall>c\<in>set (rev (ascii (show_nat k))). c \<noteq> 40" for k using digits_allowed [of _ k] by fastforce
  have w: "takeWhile (\<lambda>c. c \<noteq> 40) (tl (rev (s @ copy_suffix separator k))) = rev (ascii (show_nat k))" for s k
    using takeWhile_append2 [of "rev (ascii (show_nat k))" "\<lambda>c. c \<noteq> 40"] no [of k] by (simp add: copy_suffix_def)
  have "rev (ascii (show_nat m)) = rev (ascii (show_nat n))" using w [of s m] w [of t n] assms by simp
  then show ?thesis by (simp add: ascii_inj show_nat_inj)
qed

section \<open>The search for a free name\<close>

definition candidate :: "ustring \<Rightarrow> ustring \<Rightarrow> nat \<Rightarrow> ustring" where
  "candidate stem separator n = the (shorten_stem stem (copy_suffix separator n)) @ copy_suffix separator n"

lemma copy_loop_step:
  assumes "valid_sheet_name name" "name = stem @ rest" "set separator \<subseteq> {32}" "utf16_len (copy_suffix separator n) \<le> 31"
  shows "copy_loop lower is_taken stem separator n =
      (if is_taken (candidate stem separator n) then copy_loop lower is_taken stem separator (n + 1)
       else Some \<lparr>sn_original = candidate stem separator n, sn_lookup_key = case_insensitive_key lower (candidate stem separator n)\<rparr>)"
    and "valid_sheet_name (candidate stem separator n)"
proof -
  obtain k where k: "shorten_stem stem (copy_suffix separator n) = Some (take k stem)"
    "utf16_len (take k stem) + utf16_len (copy_suffix separator n) \<le> 31"
    using shorten_short [OF assms(4)] by blast
  have v: "valid_sheet_name (take k stem @ copy_suffix separator n)" by (rule candidate_valid [OF assms(1-3) k(2)])
  then show "valid_sheet_name (candidate stem separator n)" using k(1) by (simp add: candidate_def)
  obtain nm where nm: "sheet_name_new lower (take k stem @ copy_suffix separator n) = Inr nm"
      "nm = \<lparr>sn_original = candidate stem separator n, sn_lookup_key = case_insensitive_key lower (candidate stem separator n)\<rparr>"
    using v k(1) by (simp add: sheet_name_new_iff candidate_def)
  show "copy_loop lower is_taken stem separator n =
      (if is_taken (candidate stem separator n) then copy_loop lower is_taken stem separator (n + 1)
       else Some \<lparr>sn_original = candidate stem separator n, sn_lookup_key = case_insensitive_key lower (candidate stem separator n)\<rparr>)"
    using k(1) nm by (subst copy_loop.simps) simp
qed

lemma copy_loop_first_free:
  assumes "valid_sheet_name name" "name = stem @ rest" "set separator \<subseteq> {32}"
    "\<forall>i. n \<le> i \<and> i \<le> m \<longrightarrow> utf16_len (copy_suffix separator i) \<le> 31"
    "\<forall>i. n \<le> i \<and> i < m \<longrightarrow> is_taken (candidate stem separator i)" "\<not> is_taken (candidate stem separator m)" "n \<le> m"
  shows "copy_loop lower is_taken stem separator n =
    Some \<lparr>sn_original = candidate stem separator m, sn_lookup_key = case_insensitive_key lower (candidate stem separator m)\<rparr>"
  using assms(4-7)
proof (induction "m - n" arbitrary: n)
  case 0
  then show ?case using copy_loop_step(1) [OF assms(1-3), of n] by simp
next
  case (Suc d)
  then have "copy_loop lower is_taken stem separator n = copy_loop lower is_taken stem separator (n + 1)"
    using copy_loop_step(1) [OF assms(1-3), of n] by simp
  also have "\<dots> = Some \<lparr>sn_original = candidate stem separator m, sn_lookup_key = case_insensitive_key lower (candidate stem separator m)\<rparr>"
    using Suc by (intro Suc.hyps(1)) auto
  finally show ?case .
qed

lemma free_candidate:
  assumes "finite taken"
  shows "\<exists>j\<le>card taken. candidate stem separator (n + j) \<notin> taken"
proof (rule ccontr)
  let ?f = "\<lambda>j. candidate stem separator (n + j)"
  assume "\<not> (\<exists>j\<le>card taken. ?f j \<notin> taken)"
  then have "?f ` {..card taken} \<subseteq> taken" by auto
  moreover have "inj_on ?f {..card taken}" unfolding candidate_def by (auto intro!: inj_onI dest!: candidate_number)
  ultimately have "card {..card taken} \<le> card taken" using assms card_inj_on_le by blast
  then show False by simp
qed

section \<open>Properties\<close>

text \<open>C32: copying a sheet terminates with a fresh, valid name: the name is a prefix of the stem, the
separator and the first number, counting on from the source's, whose name is not taken (among
finitely many taken names), provided the separator leaves room for the numbers tried.\<close>

theorem copy_name_fresh:
  assumes "valid_sheet_name (sn_original name)" "finite taken" "copy_parts (sn_original name) = (stem, separator, number)"
    "\<forall>j\<le>card taken. utf16_len (copy_suffix separator (number + j)) \<le> 31"
  shows "\<exists>copy k m. copy_name lower (\<lambda>s. s \<in> taken) name = Some copy \<and> valid_sheet_name (sn_original copy) \<and> sn_original copy \<notin> taken \<and>
    number \<le> m \<and> sn_original copy = take k stem @ copy_suffix separator m \<and>
    (\<forall>i. number \<le> i \<and> i < m \<longrightarrow> (\<exists>j. take j stem @ copy_suffix separator i \<in> taken))"
proof -
  obtain rest where name: "sn_original name = stem @ rest" and sep: "set separator \<subseteq> {32}"
    using copy_parts_prefix [OF assms(3)] by blast
  define j where "j = (LEAST j. candidate stem separator (number + j) \<notin> taken)"
  obtain j0 where j0: "j0 \<le> card taken" "candidate stem separator (number + j0) \<notin> taken" using free_candidate [OF assms(2)] by blast
  have j: "candidate stem separator (number + j) \<notin> taken" unfolding j_def using j0(2) by (rule LeastI)
  have "j \<le> card taken" unfolding j_def using Least_le [of _ j0] j0 by fastforce
  then have room: "\<forall>i. number \<le> i \<and> i \<le> number + j \<longrightarrow> utf16_len (copy_suffix separator i) \<le> 31"
    using assms(4) by (metis add_le_cancel_left le_add_diff_inverse order_trans)
  have before: "candidate stem separator i \<in> taken" if "number \<le> i" "i < number + j" for i
    using not_less_Least [of "i - number" "\<lambda>j. candidate stem separator (number + j) \<notin> taken"] that unfolding j_def by auto
  have form: "\<exists>k. candidate stem separator i = take k stem @ copy_suffix separator i" if "utf16_len (copy_suffix separator i) \<le> 31" for i
    using shorten_short [OF that, of stem] by (auto simp: candidate_def)
  let ?c = "candidate stem separator (number + j)"
  have "copy_name lower (\<lambda>s. s \<in> taken) name = Some \<lparr>sn_original = ?c, sn_lookup_key = case_insensitive_key lower ?c\<rparr>"
    using copy_loop_first_free [OF assms(1) name sep room, of "\<lambda>s. s \<in> taken"] before j assms(3)
    by (simp add: copy_name_def copy_parts_def)
  moreover have "valid_sheet_name ?c" by (rule copy_loop_step(2) [OF assms(1) name sep]) (use room in simp)
  moreover obtain k where "?c = take k stem @ copy_suffix separator (number + j)" using form [of "number + j"] room by auto
  moreover have "\<exists>k. take k stem @ copy_suffix separator i \<in> taken" if "number \<le> i" "i < number + j" for i
    using form [of i] before [OF that] room that by (metis less_imp_le)
  ultimately show ?thesis using j by (intro exI [of _ "\<lparr>sn_original = ?c, sn_lookup_key = case_insensitive_key lower ?c\<rparr>"] exI [of _ k] exI [of _ "number + j"]) auto
qed

lemma utf16_show_nat: "utf16_len (ascii (show_nat n)) = length (show_nat n)"
proof -
  have "utf16_len (ascii s) = length s" if "list_all is_ascii_digit s" for s
    using that by (induction s) (auto simp: ascii_def char_utf16_def is_ascii_digit_def)
  then show ?thesis using show_nat_digits by blast
qed

lemma utf16_copy_suffix: "utf16_len (copy_suffix separator n) = utf16_len separator + 2 + length (show_nat n)"
  by (simp add: copy_suffix_def utf16_show_nat char_utf16_def)

theorem copy_name_fresh_witness:
  "\<exists>copy. copy_name (\<lambda>c. [c]) (\<lambda>s. s \<in> {ascii ''Data (3)''}) \<lparr>sn_original = ascii ''Data (2)'', sn_lookup_key = ascii ''data (2)''\<rparr> = Some copy \<and>
    valid_sheet_name (sn_original copy) \<and> sn_original copy \<noteq> ascii ''Data (3)''"
proof -
  let ?name = "\<lparr>sn_original = ascii ''Data (2)'', sn_lookup_key = ascii ''data (2)''\<rparr>"
  have v: "valid_sheet_name (sn_original ?name)"
    by (simp add: valid_sheet_name_def ascii_def char_utf16_def sheet_name_forbidden_def is_control_def)
  have parts: "copy_parts (sn_original ?name) = (ascii ''Data'', [32], 3)"
    by (simp add: copy_parts_def numbered_name_def ascii_def split_last_open_def trim_start_spaces_def trim_end_spaces_def uchar_digit_def
        parse_i32_digits_def decimal_value_def)
  have "\<forall>j\<le>card {ascii ''Data (3)''}. utf16_len (copy_suffix [32] (3 + j)) \<le> 31"
    by (simp add: utf16_copy_suffix le_Suc_eq show_nat.simps char_utf16_def)
  from copy_name_fresh [OF v _ parts this, of "\<lambda>c. [c]"] show ?thesis by auto
qed

text \<open>C39: copying does not always return: for a sheet named by 28 spaces and \<open>(9)\<close>, a valid name, the
suffix of the next number alone has 32 code units, so shortening the empty stem loops forever,
whatever names are taken.\<close>

theorem copy_name_diverges:
  "valid_sheet_name (replicate 28 32 @ ascii ''(9)'') \<and>
    copy_name lower is_taken \<lparr>sn_original = replicate 28 32 @ ascii ''(9)'', sn_lookup_key = key\<rparr> = None"
proof
  have units: "utf16_len (replicate 28 32) = 28" by (simp add: utf16_len_def char_utf16_def sum_list_replicate)
  show "valid_sheet_name (replicate 28 32 @ ascii ''(9)'')"
    by (simp add: valid_sheet_name_def ascii_def char_utf16_def sheet_name_forbidden_def is_control_def units hd_append)
  have "butlast (replicate 28 32 @ ascii ''(9)'') = replicate 28 32 @ [40, 57]" by (simp add: ascii_def butlast_append)
  moreover have "split_last_open (replicate 28 32 @ [40, 57]) = Some (replicate 28 32, [57])" by (simp add: split_last_open_def)
  moreover have "trim_end_spaces (replicate 28 32) = []" by (simp add: trim_end_spaces_def)
  moreover have "last (replicate 28 32 @ ascii ''(9)'') = 41" by (simp add: ascii_def)
  ultimately have parts: "numbered_name (replicate 28 32 @ ascii ''(9)'') = Some ([], replicate 28 32, 10)"
    by (simp add: numbered_name_def trim_start_spaces_def uchar_digit_def parse_i32_digits_def decimal_value_def)
  have "2 \<le> length (show_nat n)" if "10 \<le> n" for n
    using that by (subst show_nat.simps) (auto simp: Suc_le_eq)
  then have "\<forall>n\<ge>10. utf16_len (copy_suffix (replicate 28 32) n) > 31" using units by (fastforce simp: utf16_copy_suffix)
  then show "copy_name lower is_taken \<lparr>sn_original = replicate 28 32 @ ascii ''(9)'', sn_lookup_key = key\<rparr> = None"
    using copy_loop_diverges [of 10 "replicate 28 32" lower is_taken "[]"] parts by (simp add: copy_name_def)
qed

end
