(* ===== verification/Calendar.thy ===== *)
theory Calendar
  imports Complex_Main "HOL-Library.Signed_Division" Prelude
begin

text \<open>
  Serial dates (\<open>calculation/functions/calendar.rs\<close>), with the day counts of
  \<open>calculation/functions/fixed_income/day_count.rs\<close> and \<open>calculation/functions/date.rs\<close>.

  An \<open>f64\<close> serial is a rational number or not finite; whole numbers of days are exact in
  \<open>f64\<close>.  Years, months and days are integers.  \<open>days_from_civil\<close> computes in \<open>i32\<close>, which wraps;
  \<open>civil_days\<close> is the day number without a bound, and the two agree for years of at most six digits
  (\<open>days_from_civil_exact\<close>), which cover every date that a serial can denote.  The day numbers that
  \<open>civil_from_days\<close> gets come from serials, where its \<open>i64\<close> results are exact.
\<close>

section \<open>Civil dates\<close>

datatype date_system = Excel1900 | Excel1904

record date =
  dt_year :: int
  dt_month :: int
  dt_day :: int

abbreviation Date :: "int \<Rightarrow> int \<Rightarrow> int \<Rightarrow> date" where
  "Date y m d \<equiv> \<lparr>dt_year = y, dt_month = m, dt_day = d\<rparr>"

definition EXCEL_1900_PRE_LEAP_OFFSET :: int where "EXCEL_1900_PRE_LEAP_OFFSET = 25568"
definition EXCEL_1900_POST_LEAP_OFFSET :: int where "EXCEL_1900_POST_LEAP_OFFSET = 25569"
definition EXCEL_1904_OFFSET :: int where "EXCEL_1904_OFFSET = 24107"

lemmas offsets = EXCEL_1900_PRE_LEAP_OFFSET_def EXCEL_1900_POST_LEAP_OFFSET_def EXCEL_1904_OFFSET_def

definition is_leap_year :: "int \<Rightarrow> bool" where
  "is_leap_year year \<longleftrightarrow> year mod 4 = 0 \<and> (year mod 100 \<noteq> 0 \<or> year mod 400 = 0)"

definition days_in_month :: "int \<Rightarrow> int \<Rightarrow> int" where
  "days_in_month year month =
    (if month \<in> {1, 3, 5, 7, 8, 10, 12} then 31
     else if month \<in> {4, 6, 9, 11} then 30
     else if month = 2 then (if is_leap_year year then 29 else 28)
     else 0)"

text \<open>The wrap of an \<open>i32\<close> result; \<open>sdiv\<close> is the truncating division of the source.\<close>

definition i32 :: "int \<Rightarrow> int" where
  "i32 n = (n + 2147483648) mod 4294967296 - 2147483648"

definition days_from_civil :: "int \<Rightarrow> int \<Rightarrow> int \<Rightarrow> int" where
  "days_from_civil year month day =
    (let adjusted_year = i32 (year - (if month \<le> 2 then 1 else 0));
         era = adjusted_year div 400;
         year_of_era = i32 (adjusted_year - i32 (era * 400));
         shifted_month = i32 (i32 month + (if month > 2 then - 3 else 9));
         day_of_year = i32 (i32 (i32 (i32 (153 * shifted_month) + 2) sdiv 5 + i32 day) - 1);
         day_of_era = i32 (i32 (i32 (i32 (year_of_era * 365) + year_of_era sdiv 4) - year_of_era sdiv 100) + day_of_year)
     in i32 (i32 (i32 (era * 146097) + day_of_era) - 719468))"

definition civil_from_days :: "int \<Rightarrow> date" where
  "civil_from_days days =
    (let shifted = days + 719468;
         era = shifted div 146097;
         day_of_era = shifted - era * 146097;
         year_of_era = (day_of_era - day_of_era div 1460 + day_of_era div 36524 - day_of_era div 146096) div 365;
         year = year_of_era + era * 400;
         day_of_year = day_of_era - (365 * year_of_era + year_of_era div 4 - year_of_era div 100);
         month_prime = (5 * day_of_year + 2) div 153;
         day = day_of_year - (153 * month_prime + 2) div 5 + 1;
         month = month_prime + (if month_prime < 10 then 3 else - 9);
         year = year + (if month \<le> 2 then 1 else 0)
     in Date year month day)"

definition calendar_date_exists :: "int \<Rightarrow> int \<Rightarrow> int \<Rightarrow> bool" where
  "calendar_date_exists year month day \<longleftrightarrow>
    1 \<le> month \<and> month \<le> 12 \<and> day \<noteq> 0 \<and>
    (day \<le> days_in_month year month \<or> (year, month, day) = (1900, 2, 29))"

section \<open>Serial numbers\<close>

datatype f64 = Finite rat | NotFinite

definition maximum_serial :: "date_system \<Rightarrow> int" where
  "maximum_serial system =
    (case system of Excel1900 \<Rightarrow> days_from_civil 9999 12 31 + EXCEL_1900_POST_LEAP_OFFSET
     | Excel1904 \<Rightarrow> days_from_civil 9999 12 31 + EXCEL_1904_OFFSET)"

fun unix_days_from_serial :: "f64 \<Rightarrow> date_system \<Rightarrow> int option" where
  "unix_days_from_serial NotFinite system = None"
| "unix_days_from_serial (Finite serial) system =
    (if serial < 0 then None
     else if serial > of_int (maximum_serial system) then None
     else let serial = \<lfloor>serial\<rfloor> in
       case system of
         Excel1900 \<Rightarrow> if serial = 60 then None
           else if serial < 60 then Some (serial - EXCEL_1900_PRE_LEAP_OFFSET)
           else Some (serial - EXCEL_1900_POST_LEAP_OFFSET)
       | Excel1904 \<Rightarrow> Some (serial - EXCEL_1904_OFFSET))"

fun serial_in :: "f64 \<Rightarrow> rat \<Rightarrow> rat \<Rightarrow> bool" where
  "serial_in (Finite serial) from to = (from \<le> serial \<and> serial < to)"
| "serial_in NotFinite from to = False"

definition date_from_serial :: "f64 \<Rightarrow> date_system \<Rightarrow> date option" where
  "date_from_serial serial system =
    (if system = Excel1900 \<and> serial_in serial 0 1 then Some (Date 1900 1 0)
     else if system = Excel1900 \<and> serial_in serial 60 61 then Some (Date 1900 2 29)
     else map_option civil_from_days (unix_days_from_serial serial system))"

fun weekday_monday_zero :: "f64 \<Rightarrow> date_system \<Rightarrow> int option" where
  "weekday_monday_zero NotFinite system = None"
| "weekday_monday_zero (Finite serial) system =
    (if serial < 0 then None
     else if serial > of_int (maximum_serial system) then None
     else let serial = \<lfloor>serial\<rfloor> in
       case system of
         Excel1900 \<Rightarrow> Some ((serial + 5) mod 7)
       | Excel1904 \<Rightarrow> Some ((serial - EXCEL_1904_OFFSET + 3) mod 7))"

definition serial_from_unix_days :: "int \<Rightarrow> date_system \<Rightarrow> int option" where
  "serial_from_unix_days days system =
    (let offset = (case system of
           Excel1900 \<Rightarrow> if days < days_from_civil 1900 3 1 then EXCEL_1900_PRE_LEAP_OFFSET else EXCEL_1900_POST_LEAP_OFFSET
         | Excel1904 \<Rightarrow> EXCEL_1904_OFFSET);
         serial = days + offset
     in if 0 \<le> serial \<and> serial \<le> maximum_serial system then Some serial else None)"

definition serial_from_date :: "date \<Rightarrow> date_system \<Rightarrow> int option" where
  "serial_from_date d system =
    (if system = Excel1900 \<and> d = Date 1900 2 29 then Some 60
     else serial_from_unix_days (days_from_civil (dt_year d) (dt_month d) (dt_day d)) system)"

definition serial_from_calendar_date :: "int \<Rightarrow> int \<Rightarrow> int \<Rightarrow> date_system \<Rightarrow> int option" where
  "serial_from_calendar_date year month day system =
    (let first_serial = (case system of Excel1900 \<Rightarrow> 1 | Excel1904 \<Rightarrow> 0)
     in Option.bind (serial_from_date (Date year month day) system)
       (\<lambda>serial. if first_serial \<le> serial then Some serial else None))"

section \<open>Day counts\<close>

definition date_less_eq :: "date \<Rightarrow> date \<Rightarrow> bool" where
  "date_less_eq a b \<longleftrightarrow> dt_year a < dt_year b \<or> dt_year a = dt_year b \<and>
    (dt_month a < dt_month b \<or> dt_month a = dt_month b \<and> dt_day a \<le> dt_day b)"

definition actual_day_ordinal :: "date \<Rightarrow> int" where
  "actual_day_ordinal d =
    (if d = Date 1900 2 29 then days_from_civil 1900 2 28 + 1
     else let ordinal = days_from_civil (dt_year d) (dt_month d) (dt_day d)
       in if date_less_eq (Date 1900 3 1) d then ordinal + 1 else ordinal)"

definition actual_days :: "date \<Rightarrow> date \<Rightarrow> int" where
  "actual_days start stop = actual_day_ordinal stop - actual_day_ordinal start"

definition days_360_components :: "int \<Rightarrow> int \<Rightarrow> int \<Rightarrow> int \<Rightarrow> int \<Rightarrow> int \<Rightarrow> int" where
  "days_360_components start_year start_month start_day end_year end_month end_day =
    (end_year - start_year) * 360 + (end_month - start_month) * 30 + (end_day - start_day)"

definition days_360_us :: "date \<Rightarrow> date \<Rightarrow> int" where
  "days_360_us start stop =
    (let start_is_last_february = dt_month start = 2 \<and> dt_day start = days_in_month (dt_year start) (dt_month start);
         end_is_last_february = dt_month stop = 2 \<and> dt_day stop = days_in_month (dt_year stop) (dt_month stop);
         start_day = (if dt_day start = 31 \<or> start_is_last_february then 30 else dt_day start);
         end_day = (if dt_day stop = 31 \<and> start_day = 30 \<or> end_is_last_february \<and> start_is_last_february then 30 else dt_day stop)
     in days_360_components (dt_year start) (dt_month start) start_day (dt_year stop) (dt_month stop) end_day)"

definition days_360_european :: "date \<Rightarrow> date \<Rightarrow> int" where
  "days_360_european start stop =
    days_360_components (dt_year start) (dt_month start) (min (dt_day start) 30) (dt_year stop) (dt_month stop) (min (dt_day stop) 30)"

datatype day_count_basis = Us30360 | ActualActual | Actual360 | Actual365 | European30360

fun days_between :: "date \<Rightarrow> date \<Rightarrow> day_count_basis \<Rightarrow> int" where
  "days_between start stop Us30360 = days_360_us start stop"
| "days_between start stop European30360 = days_360_european start stop"
| "days_between start stop ActualActual = actual_days start stop"
| "days_between start stop Actual360 = actual_days start stop"
| "days_between start stop Actual365 = actual_days start stop"

section \<open>The two conversions are inverse\<close>

text \<open>The number of a day, without a bound on the year.\<close>

definition civil_days :: "int \<Rightarrow> int \<Rightarrow> int \<Rightarrow> int" where
  "civil_days year month day =
    (let adjusted_year = year - (if month \<le> 2 then 1 else 0);
         era = adjusted_year div 400;
         year_of_era = adjusted_year - era * 400;
         shifted_month = month + (if month > 2 then - 3 else 9);
         day_of_year = (153 * shifted_month + 2) div 5 + day - 1;
         day_of_era = year_of_era * 365 + year_of_era div 4 - year_of_era div 100 + day_of_year
     in era * 146097 + day_of_era - 719468)"

text \<open>A year of an era that starts in March, as 100, 4 and 1 year steps.\<close>

definition doe :: "int \<Rightarrow> int \<Rightarrow> int" where
  "doe y d = y * 365 + y div 4 - y div 100 + d"

definition last_doy :: "int \<Rightarrow> int" where
  "last_doy y = (if (y + 1) mod 4 = 0 \<and> ((y + 1) mod 100 \<noteq> 0 \<or> (y + 1) mod 400 = 0) then 365 else 364)"

lemma div_unique: "k * q \<le> n \<Longrightarrow> n < k * q + k \<Longrightarrow> n div k = q" for n k q :: int
  by (rule int_div_pos_eq [of n k q "n - k * q"]) auto

lemma mod_unique: "k * q \<le> n \<Longrightarrow> n < k * q + k \<Longrightarrow> n mod k = n - k * q" for n k q :: int
  using div_unique [of k q n] by (simp add: minus_mult_div_eq_mod [symmetric])

lemma year_steps:
  fixes y :: int
  assumes "0 \<le> y" "y < 400"
  obtains a b c where "y = 100 * a + 4 * b + c" "0 \<le> a" "a \<le> 3" "0 \<le> b" "b \<le> 24" "0 \<le> c" "c \<le> 3"
proof -
  have "y = 100 * (y div 100) + 4 * (y mod 100 div 4) + y mod 100 mod 4" by simp
  moreover have "0 \<le> y div 100" "y div 100 \<le> 3" "0 \<le> y mod 100 div 4" "y mod 100 div 4 \<le> 24"
    "0 \<le> y mod 100 mod 4" "y mod 100 mod 4 \<le> 3"
    using assms by (simp_all add: pos_imp_zdiv_nonneg_iff)
  ultimately show thesis by (rule that)
qed

lemma steps_div:
  fixes a b c :: int
  assumes "0 \<le> a" "a \<le> 3" "0 \<le> b" "b \<le> 24" "0 \<le> c" "c \<le> 3"
  shows "(100 * a + 4 * b + c) div 4 = 25 * a + b" "(100 * a + 4 * b + c) div 100 = a"
    "(100 * a + 4 * b + c) mod 4 = c"
proof -
  show q: "(100 * a + 4 * b + c) div 4 = 25 * a + b" by (rule div_unique; insert assms; simp)
  show "(100 * a + 4 * b + c) div 100 = a" by (rule div_unique; insert assms; simp)
  show "(100 * a + 4 * b + c) mod 4 = c" by (simp add: q minus_div_mult_eq_mod [symmetric])
qed

lemma steps_last_doy:
  fixes a b c :: int
  assumes "0 \<le> a" "a \<le> 3" "0 \<le> b" "b \<le> 24" "0 \<le> c" "c \<le> 3"
  shows "last_doy (100 * a + 4 * b + c) = (if c = 3 \<and> (b < 24 \<or> a = 3) then 365 else 364)"
proof -
  let ?y = "100 * a + 4 * b + c + 1"
  consider (common) "c < 3" | (leap) "c = 3" "b < 24" | (century) "c = 3" "b = 24" using assms by linarith
  then show ?thesis
  proof cases
    case common
    have "?y mod 4 = ?y - 4 * (25 * a + b)" by (rule mod_unique; insert assms common; simp)
    then show ?thesis using common assms by (simp add: last_doy_def)
  next
    case leap
    have "?y mod 4 = ?y - 4 * (25 * a + b + 1)" "?y mod 100 = ?y - 100 * a" by (rule mod_unique; insert assms leap; simp)+
    then show ?thesis using leap assms by (simp add: last_doy_def)
  next
    case century
    have m: "?y mod 4 = ?y - 4 * (25 * a + 25)" "?y mod 100 = ?y - 100 * (a + 1)" by (rule mod_unique; insert assms century; simp)+
    show ?thesis
    proof (cases "a = 3")
      case True
      then show ?thesis using century by (simp add: last_doy_def)
    next
      case False
      have "?y mod 400 = ?y - 400 * 0" by (rule mod_unique; insert False assms century; simp)
      then show ?thesis using m century assms False by (simp add: last_doy_def)
    qed
  qed
qed

lemma year_of_era:
  assumes "0 \<le> y" "y < 400" "0 \<le> d" "d \<le> last_doy y"
  shows "(doe y d - doe y d div 1460 + doe y d div 36524 - doe y d div 146096) div 365 = y" "0 \<le> doe y d" "doe y d < 146097"
proof -
  obtain a b c where y: "y = 100 * a + 4 * b + c" and abc: "0 \<le> a" "a \<le> 3" "0 \<le> b" "b \<le> 24" "0 \<le> c" "c \<le> 3"
    using year_steps [OF assms(1,2)] by blast
  have d: "d \<le> 365" "d = 365 \<longrightarrow> c = 3 \<and> (b < 24 \<or> a = 3)"
    using assms(4) steps_last_doy [OF abc] unfolding y by (auto split: if_splits)
  have doe: "doe y d = 36524 * a + 1461 * b + 365 * c + d" unfolding doe_def y steps_div [OF abc] by simp
  define over last :: int where "over = (if 1460 \<le> 24 * a + b + 365 * c + d then 1 else 0)"
    and "last = (if doe y d = 146096 then 1 else 0)"
  show bounds: "0 \<le> doe y d" "doe y d < 146097" using doe abc assms(3) d by linarith+
  have "doe y d div 1460 = 25 * a + b + over"
    by (rule div_unique; use doe abc assms(3) d in \<open>simp add: over_def split: if_splits\<close>; linarith)
  moreover have "doe y d div 146096 = last"
    by (rule div_unique; use bounds in \<open>auto simp: last_def\<close>)
  moreover have "doe y d div 36524 = a + last"
  proof (cases "doe y d = 146096")
    case True
    then have "a = 3" using doe abc assms(3) d by linarith
    then show ?thesis using True by (simp add: last_def)
  next
    case False
    show ?thesis
      by (rule div_unique; use False doe abc assms(3) d in \<open>simp add: last_def\<close>; linarith)
  qed
  moreover have "0 \<le> d - over" "d - over < 365"
    using abc assms(3) d by (auto simp: over_def)
  ultimately show "(doe y d - doe y d div 1460 + doe y d div 36524 - doe y d div 146096) div 365 = y"
    using doe y by (intro div_unique) simp_all
qed

definition real_date :: "date \<Rightarrow> bool" where
  "real_date d \<longleftrightarrow> 1 \<le> dt_month d \<and> dt_month d \<le> 12 \<and> 1 \<le> dt_day d \<and> dt_day d \<le> days_in_month (dt_year d) (dt_month d)"

text \<open>The year that starts in March and the day of that year, of a date.\<close>

definition march_year :: "int \<Rightarrow> int \<Rightarrow> int" where
  "march_year y m = y - (if m \<le> 2 then 1 else 0)"

definition march_month :: "int \<Rightarrow> int" where
  "march_month m = m + (if m > 2 then - 3 else 9)"

definition day_of_march_year :: "int \<Rightarrow> int \<Rightarrow> int" where
  "day_of_march_year m d = (153 * march_month m + 2) div 5 + d - 1"

lemma civil_days_era:
  "civil_days y m d = march_year y m div 400 * 146097 + doe (march_year y m mod 400) (day_of_march_year m d) - 719468"
  by (simp only: civil_days_def Let_def doe_def march_year_def march_month_def day_of_march_year_def minus_div_mult_eq_mod)

lemma month_cases:
  fixes m :: int
  assumes "1 \<le> m" "m \<le> 12"
  shows "m \<in> {1, 2, 3, 4, 5, 6, 7, 8, 9, 10, 11, 12}"
  using assms by simp arith

lemma last_doy_leap: "last_doy (march_year y 2 mod 400) = (if is_leap_year y then 365 else 364)"
proof -
  have *: "((y - 1) mod 400 + 1) mod k = y mod k" if "k dvd 400" for k
  proof -
    have "((y - 1) mod 400 + 1) mod k = ((y - 1) mod 400 mod k + 1) mod k" by (simp add: mod_add_left_eq)
    also have "\<dots> = y mod k" using that by (simp add: mod_mod_cancel mod_add_left_eq)
    finally show ?thesis .
  qed
  have "((y - 1) mod 400 + 1) mod 4 = y mod 4" "((y - 1) mod 400 + 1) mod 100 = y mod 100"
    "((y - 1) mod 400 + 1) mod 400 = y mod 400" by (rule *; simp)+
  moreover have "march_year y 2 = y - 1" by (simp add: march_year_def)
  ultimately show ?thesis by (simp only: last_doy_def is_leap_year_def)
qed

lemma day_of_march_year_bounds:
  assumes "real_date (Date y m d)"
  shows "0 \<le> day_of_march_year m d" "day_of_march_year m d \<le> last_doy (march_year y m mod 400)"
    "(5 * day_of_march_year m d + 2) div 153 = march_month m"
proof -
  have m: "m \<in> {1, 2, 3, 4, 5, 6, 7, 8, 9, 10, 11, 12}" and d: "1 \<le> d" "d \<le> days_in_month y m"
    using assms month_cases [of m] by (simp_all add: real_date_def)
  show "0 \<le> day_of_march_year m d" using m d by (auto simp: day_of_march_year_def march_month_def)
  have "1 \<le> d \<and> d \<le> (if m = 2 then 29 else if m \<in> {4, 6, 9, 11} then 30 else 31)"
    using m d by (elim insertE emptyE) (simp_all add: days_in_month_def split: if_splits)
  then have "153 * march_month m \<le> 5 * ((153 * march_month m + 2) div 5 + d - 1) + 2 \<and>
      5 * ((153 * march_month m + 2) div 5 + d - 1) + 2 < 153 * march_month m + 153"
    using m by (elim insertE emptyE) (simp_all add: march_month_def)
  then show "(5 * day_of_march_year m d + 2) div 153 = march_month m"
    unfolding day_of_march_year_def by (intro div_unique) simp_all
  have "364 \<le> last_doy x" for x by (simp add: last_doy_def)
  then have "day_of_march_year m d \<le> last_doy (march_year y m mod 400)" if "m \<noteq> 2"
    by (rule order_trans [rotated]) (use m d that in \<open>auto simp: day_of_march_year_def march_month_def days_in_month_def\<close>)
  moreover have "day_of_march_year m d \<le> last_doy (march_year y m mod 400)" if "m = 2"
    using d that by (simp add: last_doy_leap day_of_march_year_def march_month_def days_in_month_def split: if_splits)
  ultimately show "day_of_march_year m d \<le> last_doy (march_year y m mod 400)" by blast
qed

lemma civil_from_parts:
  assumes "n + 719468 = e * 146097 + doe y doy" "0 \<le> y" "y < 400" "0 \<le> doy" "doy \<le> last_doy y"
    and "(5 * doy + 2) div 153 = mp" "mp + (if mp < 10 then 3 else - 9) = m"
  shows "civil_from_days n = Date (y + e * 400 + (if m \<le> 2 then 1 else 0)) m (doy - (153 * mp + 2) div 5 + 1)"
proof -
  note yoe = year_of_era [OF assms(2-5)]
  have era: "(n + 719468) div 146097 = e" unfolding assms(1) by (rule div_unique; insert yoe(2,3); simp)
  have doe: "n + 719468 - e * 146097 = doe y doy" using assms(1) by simp
  have doy: "doe y doy - (365 * y + y div 4 - y div 100) = doy" by (simp add: doe_def)
  show ?thesis by (simp only: civil_from_days_def Let_def era doe yoe(1) doy assms(6,7))
qed

lemma civil_of_days:
  assumes "real_date (Date y m d)"
  shows "civil_from_days (civil_days y m d) = Date y m d"
proof -
  note doy = day_of_march_year_bounds [OF assms]
  have "m \<in> {1, 2, 3, 4, 5, 6, 7, 8, 9, 10, 11, 12}" using assms month_cases [of m] by (simp add: real_date_def)
  then have month: "march_month m + (if march_month m < 10 then 3 else - 9) = m" by (auto simp: march_month_def)
  have n: "civil_days y m d + 719468 = march_year y m div 400 * 146097 + doe (march_year y m mod 400) (day_of_march_year m d)"
    using civil_days_era by simp
  have "march_year y m mod 400 + march_year y m div 400 * 400 + (if m \<le> 2 then 1 else 0) = y"
    unfolding mod_div_mult_eq by (simp add: march_year_def)
  moreover have "day_of_march_year m d - (153 * march_month m + 2) div 5 + 1 = d" by (simp add: day_of_march_year_def)
  ultimately show ?thesis using civil_from_parts [OF n _ _ doy(1,2,3) month] by simp
qed

section \<open>Consecutive days\<close>

definition next_day :: "date \<Rightarrow> date" where
  "next_day d =
    (if dt_day d < days_in_month (dt_year d) (dt_month d) then d\<lparr>dt_day := dt_day d + 1\<rparr>
     else if dt_month d < 12 then Date (dt_year d) (dt_month d + 1) 1
     else Date (dt_year d + 1) 1 1)"

lemma div_step: "0 < k \<Longrightarrow> (n + 1) div k = n div k + (if (n + 1) mod k = 0 then 1 else 0)" for n k :: int
proof -
  assume k: "0 < k"
  let ?q = "(n + 1) div k" and ?r = "(n + 1) mod k"
  have n: "n + 1 = k * ?q + ?r" by simp
  have r: "0 \<le> ?r" "?r < k" using k by simp_all
  show ?thesis
  proof (cases "?r = 0")
    case True
    moreover have "k * (?q - 1) = k * ?q - k" by (simp only: right_diff_distrib mult_1_right)
    ultimately have "n div k = ?q - 1" using n k by (intro div_unique) linarith+
    then show ?thesis using True by simp
  next
    case False
    then have "n div k = ?q" using n r by (intro div_unique) linarith+
    then show ?thesis using False by simp
  qed
qed

text \<open>The days before a year that starts in March.\<close>

lemma era_total: "y div 400 * 146097 + doe (y mod 400) d = 365 * y + y div 4 - y div 100 + y div 400 + d"
proof -
  define e r where "e = y div 400" and "r = y mod 400"
  have y: "y = 400 * e + r" by (simp add: e_def r_def)
  have "y div 4 = 100 * e + r div 4" "y div 100 = 4 * e + r div 100" unfolding y by simp_all
  then show ?thesis unfolding e_def [symmetric] r_def [symmetric] doe_def by (simp add: y)
qed

lemma leap_count:
  fixes y :: int
  assumes "p100 \<longrightarrow> p4" "p400 \<longrightarrow> p100" "leap \<longleftrightarrow> p4 \<and> (\<not> p100 \<or> p400)"
    "b4 = a4 + (if p4 then 1 else 0)" "b100 = a100 + (if p100 then 1 else 0)" "b400 = a400 + (if p400 then 1 else 0)"
  shows "365 * (y + 1) + b4 - b100 + b400 = 365 * y + a4 - a100 + a400 + (if leap then 366 else 365)"
  using assms(1-3) unfolding assms(4-6) by (cases p4; cases p100; cases p400; simp)

lemma march_year_step: "365 * (y + 1) + (y + 1) div 4 - (y + 1) div 100 + (y + 1) div 400 =
  365 * y + y div 4 - y div 100 + y div 400 + (if is_leap_year (y + 1) then 366 else 365)"
proof -
  define p4 p100 p400 where "p4 = ((y + 1) mod 4 = 0)" and "p100 = ((y + 1) mod 100 = 0)" and "p400 = ((y + 1) mod 400 = 0)"
  have imp: "p100 \<longrightarrow> p4" "p400 \<longrightarrow> p100"
    unfolding p4_def p100_def p400_def mod_eq_0_iff_dvd by (auto elim: dvd_trans [rotated])
  have steps: "(y + 1) div 4 = y div 4 + (if p4 then 1 else 0)" "(y + 1) div 100 = y div 100 + (if p100 then 1 else 0)"
    "(y + 1) div 400 = y div 400 + (if p400 then 1 else 0)"
    unfolding p4_def p100_def p400_def by (rule div_step; simp)+
  have "is_leap_year (y + 1) \<longleftrightarrow> p4 \<and> (\<not> p100 \<or> p400)" by (simp only: is_leap_year_def p4_def p100_def p400_def)
  from leap_count [OF imp this steps] show ?thesis .
qed

text \<open>The day number counts the days: it grows by one from every date to the next.\<close>

lemma days_total:
  "civil_days y m d = 365 * march_year y m + march_year y m div 4 - march_year y m div 100 + march_year y m div 400 +
    day_of_march_year m d - 719468"
  unfolding civil_days_era era_total by simp

lemma march_first: "civil_days y 3 1 = civil_days y 2 (days_in_month y 2) + 1"
proof -
  define a where "a = 365 * (y - 1) + (y - 1) div 4 - (y - 1) div 100 + (y - 1) div 400"
  have st: "365 * y + y div 4 - y div 100 + y div 400 = a + (if is_leap_year y then 366 else 365)"
    using march_year_step [of "y - 1"] by (simp only: a_def diff_add_cancel)
  have my: "march_year y 3 = y" "march_year y 2 = y - 1" "day_of_march_year 3 1 = 0" "day_of_march_year 2 n = 336 + n" for n
    by (simp_all add: march_year_def day_of_march_year_def march_month_def)
  have "civil_days y 3 1 = a + (if is_leap_year y then 366 else 365) - 719468"
    unfolding days_total my st by simp
  moreover have "civil_days y 2 (days_in_month y 2) = a + (if is_leap_year y then 365 else 364) - 719468"
    unfolding days_total my a_def [symmetric] by (simp add: days_in_month_def)
  ultimately show ?thesis by simp
qed

lemma next_day_days:
  assumes "real_date d"
  shows "real_date (next_day d) \<and>
    civil_days (dt_year (next_day d)) (dt_month (next_day d)) (dt_day (next_day d)) =
      civil_days (dt_year d) (dt_month d) (dt_day d) + 1"
proof -
  obtain y m n where d: "d = Date y m n" by (cases d)
  have m: "m \<in> {1, 2, 3, 4, 5, 6, 7, 8, 9, 10, 11, 12}" and n: "1 \<le> n" "n \<le> days_in_month y m"
    using assms month_cases [of m] by (simp_all add: d real_date_def)
  have pos: "1 \<le> days_in_month y' m'" if "1 \<le> m'" "m' \<le> 12" for y' m'
    using month_cases [OF that] by (auto simp: days_in_month_def)
  consider (day) "n < days_in_month y m" | (year) "n = days_in_month y m" "m = 12" | (march) "n = days_in_month y m" "m = 2"
    | (month) "n = days_in_month y m" "m < 12" "m \<noteq> 2" using m n by fastforce
  then show ?thesis
  proof cases
    case day
    then show ?thesis using m n by (auto simp: d next_day_def real_date_def days_total day_of_march_year_def)
  next
    case year
    then show ?thesis using pos [of 1 "y + 1"]
      by (simp add: d next_day_def real_date_def days_total day_of_march_year_def march_year_def march_month_def days_in_month_def)
  next
    case march
    then show ?thesis using march_first [of y] by (simp add: d next_day_def real_date_def days_in_month_def)
  next
    case month
    have "day_of_march_year (m + 1) 1 = day_of_march_year m (days_in_month y m) + 1 \<and> march_year y (m + 1) = march_year y m"
      using m month(2,3) by (elim insertE emptyE) (simp_all add: day_of_march_year_def march_month_def march_year_def days_in_month_def)
    moreover have "1 \<le> m + 1" "m + 1 \<le> 12" using m month(2) by auto
    ultimately show ?thesis using month pos [of "m + 1" y] by (simp add: d next_day_def real_date_def days_total)
  qed
qed

abbreviation days_of :: "date \<Rightarrow> int" where
  "days_of d \<equiv> civil_days (dt_year d) (dt_month d) (dt_day d)"

definition previous_day :: "date \<Rightarrow> date" where
  "previous_day d =
    (if 1 < dt_day d then d\<lparr>dt_day := dt_day d - 1\<rparr>
     else if 1 < dt_month d then Date (dt_year d) (dt_month d - 1) (days_in_month (dt_year d) (dt_month d - 1))
     else Date (dt_year d - 1) 12 31)"

lemma previous_day_next:
  assumes "real_date d"
  shows "real_date (previous_day d)" "next_day (previous_day d) = d"
proof -
  obtain y m n where d: "d = Date y m n" by (cases d)
  have m: "1 \<le> m" "m \<le> 12" and n: "1 \<le> n" "n \<le> days_in_month y m" using assms by (simp_all add: d real_date_def)
  have pos: "1 \<le> days_in_month y (m - 1)" if "1 < m"
    using month_cases [of "m - 1"] that m by (auto simp: days_in_month_def)
  have december: "days_in_month (y - 1) 12 = 31" by (simp add: days_in_month_def)
  show "real_date (previous_day d)" using m n pos december by (auto simp: d previous_day_def real_date_def)
  show "next_day (previous_day d) = d" using m n pos december by (auto simp: d previous_day_def next_day_def)
qed

lemma epoch: "days_of (Date 1970 1 1) = 0"
  by (simp add: civil_days_def)

lemma days_surjective: "\<exists>d. real_date d \<and> days_of d = n"
proof (induction n rule: int_induct [where k = 0])
  case base
  show ?case using epoch by (intro exI [of _ "Date 1970 1 1"]) (simp add: real_date_def days_in_month_def)
next
  case (step1 i)
  then show ?case using next_day_days by blast
next
  case (step2 i)
  then obtain d where d: "real_date d" "days_of d = i" by blast
  have "days_of (previous_day d) = i - 1"
    using next_day_days [OF previous_day_next(1) [OF d(1)]] previous_day_next(2) [OF d(1)] d(2) by simp
  then show ?case using previous_day_next(1) [OF d(1)] by blast
qed

lemma civil_of_days_date: "real_date d \<Longrightarrow> civil_from_days (days_of d) = d"
  using civil_of_days [of "dt_year d" "dt_month d" "dt_day d"] by (cases d) simp

lemma days_of_civil: "real_date (civil_from_days n)" "days_of (civil_from_days n) = n"
proof -
  obtain d where "real_date d" "days_of d = n" using days_surjective by blast
  then show "real_date (civil_from_days n)" "days_of (civil_from_days n) = n" using civil_of_days_date by auto
qed

section \<open>Order of dates\<close>

definition year_days :: "int \<Rightarrow> int" where
  "year_days y = 365 * y + y div 4 - y div 100 + y div 400"

lemma year_days_step: "year_days (y + 1) = year_days y + (if is_leap_year (y + 1) then 366 else 365)"
  unfolding year_days_def by (rule march_year_step)

lemma year_days_mono: "y \<le> y' \<Longrightarrow> year_days y \<le> year_days y'"
proof (induction y' rule: int_ge_induct)
  case (step i)
  then show ?case unfolding year_days_step by (simp split: if_splits)
qed simp

lemma march_first_order:
  assumes "real_date d"
  shows "civil_days 1900 3 1 \<le> days_of d \<longleftrightarrow> date_less_eq (Date 1900 3 1) d"
proof -
  obtain y m n where d: "d = Date y m n" by (cases d)
  let ?Y = "march_year y m" and ?doy = "day_of_march_year m n"
  note doy = day_of_march_year_bounds [OF assms [unfolded d]]
  have m: "1 \<le> m" "m \<le> 12" "1 \<le> n" using assms by (simp_all add: d real_date_def)
  have days: "days_of d = year_days ?Y + ?doy - 719468" by (simp add: d days_total year_days_def)
  have first: "civil_days 1900 3 1 = year_days 1900 - 719468" by (simp add: civil_days_def year_days_def)
  have order: "date_less_eq (Date 1900 3 1) d \<longleftrightarrow> 1900 \<le> ?Y" using m by (auto simp: d date_less_eq_def march_year_def)
  show ?thesis
  proof (cases "1900 \<le> ?Y")
    case True
    then show ?thesis using year_days_mono [OF True] doy(1) order unfolding days first by linarith
  next
    case False
    have "march_year (?Y + 1) 2 = ?Y" by (simp add: march_year_def [of _ 2])
    then have "?doy < (if is_leap_year (?Y + 1) then 366 else 365)"
      using doy(2) last_doy_leap [of "?Y + 1"] by (simp split: if_splits)
    then show ?thesis
      using year_days_mono [of "?Y + 1" 1900] False year_days_step [of ?Y] order unfolding days first by linarith
  qed
qed

section \<open>Machine integers\<close>

lemma i32_exact: "- 2147483648 \<le> n \<Longrightarrow> n \<le> 2147483647 \<Longrightarrow> i32 n = n"
  by (simp add: i32_def)

lemma sdiv_exact: "0 \<le> n \<Longrightarrow> 0 < k \<Longrightarrow> n sdiv k = n div k" for n k :: int
  by (simp add: signed_divide_int_def sgn_if)

text \<open>For years of at most six digits every intermediate result of \<open>days_from_civil\<close> is an \<open>i32\<close>.\<close>

lemma days_from_civil_i32:
  assumes "\<bar>year\<bar> \<le> 999999" "1 \<le> month" "month \<le> 12" "0 \<le> day" "day \<le> 31"
  shows "\<bar>march_year year month\<bar> \<le> 1000000" "\<bar>march_year year month div 400 * 146097\<bar> < 2 ^ 31 - 1000000"
    "\<bar>doe (march_year year month mod 400) (day_of_march_year month day)\<bar> < 150000"
proof -
  let ?Y = "march_year year month"
  have small: "\<bar>d\<bar> \<le> 400 \<Longrightarrow> 0 \<le> r \<Longrightarrow> r < 400 \<Longrightarrow> 0 \<le> a \<Longrightarrow> a \<le> 100 \<Longrightarrow> 0 \<le> b \<Longrightarrow> b \<le> 4 \<Longrightarrow>
      \<bar>r * 365 + a - b + d\<bar> < 150000" for d r a b :: int by linarith
  show Y: "\<bar>?Y\<bar> \<le> 1000000" using assms by (auto simp: march_year_def)
  have "- 2500 \<le> ?Y div 400" "?Y div 400 \<le> 2500" using Y zdiv_mono1 [of "- 1000000" ?Y 400] zdiv_mono1 [of ?Y 1000000 400] by auto
  then show "\<bar>?Y div 400 * 146097\<bar> < 2 ^ 31 - 1000000" by auto
  have "march_month month \<in> {0..11}" using assms by (auto simp: march_month_def)
  then have "0 \<le> (153 * march_month month + 2) div 5" "(153 * march_month month + 2) div 5 \<le> 337"
    using zdiv_mono1 [of "153 * march_month month + 2" "153 * 11 + 2" 5] by (auto simp: pos_imp_zdiv_nonneg_iff)
  then have "\<bar>day_of_march_year month day\<bar> \<le> 400" using assms by (auto simp: day_of_march_year_def)
  moreover have "0 \<le> ?Y mod 400" "?Y mod 400 < 400" by simp_all
  moreover have "0 \<le> ?Y mod 400 div 4" "?Y mod 400 div 4 \<le> 100" "0 \<le> ?Y mod 400 div 100" "?Y mod 400 div 100 \<le> 4"
    using zdiv_mono1 [of "?Y mod 400" 400 4] zdiv_mono1 [of "?Y mod 400" 400 100] by (auto simp: pos_imp_zdiv_nonneg_iff)
  ultimately show "\<bar>doe (?Y mod 400) (day_of_march_year month day)\<bar> < 150000" unfolding doe_def by (rule small)
qed

lemma days_from_civil_exact:
  assumes "\<bar>year\<bar> \<le> 999999" "1 \<le> month" "month \<le> 12" "0 \<le> day" "day \<le> 31"
  shows "days_from_civil year month day = civil_days year month day"
proof -
  let ?Y = "march_year year month" and ?M = "march_month month" and ?D = "day_of_march_year month day"
  define e r where "e = ?Y div 400" and "r = ?Y mod 400"
  note b = days_from_civil_i32 [OF assms]
  have Y: "\<bar>?Y\<bar> \<le> 1000000" "e * 400 = ?Y - r" using b(1) by (simp_all add: e_def r_def minus_mod_eq_div_mult [symmetric])
  have r: "0 \<le> r" "r < 400" by (simp_all add: r_def)
  have r4: "0 \<le> r div 4" "r div 4 \<le> 100" "0 \<le> r div 100" "r div 100 \<le> 4"
    using r zdiv_mono1 [of r 400 4] zdiv_mono1 [of r 400 100] by (auto simp: pos_imp_zdiv_nonneg_iff)
  have M: "0 \<le> ?M" "?M \<le> 11" using assms by (auto simp: march_month_def)
  have "0 \<le> (153 * ?M + 2) div 5" "(153 * ?M + 2) div 5 \<le> 337"
    using M zdiv_mono1 [of "153 * ?M + 2" "153 * 11 + 2" 5] by (auto simp: pos_imp_zdiv_nonneg_iff)
  then have D: "?D = (153 * ?M + 2) div 5 + day - 1" "- 1 \<le> ?D" "?D \<le> 367" using assms by (simp_all add: day_of_march_year_def)
  have e: "\<bar>e * 146097\<bar> < 2 ^ 31 - 1000000" using b(2) by (simp add: e_def)
  have month: "i32 month = month" "i32 day = day" using assms by (simp_all add: i32_exact)
  have 1: "i32 (year - (if month \<le> 2 then 1 else 0)) = ?Y" using Y by (simp add: march_year_def i32_exact)
  have 2: "i32 (?Y - i32 (e * 400)) = r" using Y r by (simp add: i32_exact)
  have 3: "i32 (month + (if month > 2 then - 3 else 9)) = ?M" using M by (simp add: march_month_def i32_exact)
  have 4: "i32 (i32 (i32 (i32 (153 * ?M) + 2) sdiv 5 + day) - 1) = ?D" using M D assms by (simp add: i32_exact sdiv_exact)
  have 5: "i32 (i32 (i32 (i32 (r * 365) + r sdiv 4) - r sdiv 100) + ?D) = doe r ?D"
    using r r4 D by (simp add: i32_exact sdiv_exact doe_def)
  have 6: "\<bar>doe r ?D\<bar> < 150000" using b(3) by (simp add: r_def)
  have "i32 (i32 (i32 (e * 146097) + doe r ?D) - 719468) = e * 146097 + doe r ?D - 719468"
    using e 6 by (simp add: i32_exact)
  then show ?thesis
    unfolding days_from_civil_def Let_def month 1 e_def [symmetric] 2 3 4 5 civil_days_era r_def [symmetric] .
qed

lemma civil_year_bound:
  assumes "\<bar>n\<bar> \<le> 300000000"
  shows "\<bar>dt_year (civil_from_days n)\<bar> \<le> 999999"
proof -
  obtain y m d where c: "civil_from_days n = Date y m d" by (cases "civil_from_days n")
  have real: "real_date (Date y m d)" "civil_days y m d = n" using days_of_civil [of n] c by simp_all
  let ?Y = "march_year y m"
  note doy = day_of_march_year_bounds [OF real(1)]
  have "last_doy x \<le> 365" for x by (simp add: last_doy_def)
  then have n: "n = year_days ?Y + day_of_march_year m d - 719468" "0 \<le> day_of_march_year m d" "day_of_march_year m d \<le> 365"
    using doy(1) order_trans [OF doy(2)] real(2) by (auto simp: days_total year_days_def)
  have "year_days 900000 = 328718250" "year_days (- 900000) = - 328718250" by (simp_all add: year_days_def)
  then have "\<not> 900000 \<le> ?Y" "\<not> ?Y \<le> - 900000"
    using year_days_mono [of 900000 ?Y] year_days_mono [of ?Y "- 900000"] n assms by linarith+
  then show ?thesis using c by (auto simp: march_year_def split: if_splits)
qed

lemma days_from_civil_date:
  assumes "real_date d" "\<bar>dt_year d\<bar> \<le> 999999"
  shows "days_from_civil (dt_year d) (dt_month d) (dt_day d) = days_of d"
proof (rule days_from_civil_exact)
  have "days_in_month (dt_year d) (dt_month d) \<le> 31" by (simp add: days_in_month_def)
  then show "dt_day d \<le> 31" using assms by (simp add: real_date_def)
qed (use assms in \<open>auto simp: real_date_def\<close>)

lemma days_from_civil_of_days:
  assumes "\<bar>n\<bar> \<le> 300000000"
  shows "days_from_civil (dt_year (civil_from_days n)) (dt_month (civil_from_days n)) (dt_day (civil_from_days n)) = n"
  using days_from_civil_date [OF days_of_civil(1) civil_year_bound [OF assms]] days_of_civil(2) by simp

section \<open>Serials\<close>

lemma maximum_serial_values: "maximum_serial Excel1900 = 2958465" "maximum_serial Excel1904 = 2957003"
  by (simp_all add: maximum_serial_def days_from_civil_exact civil_days_def offsets)

lemma leap_days: "days_from_civil 1900 3 1 = - 25508" "days_from_civil 1900 1 0 = - 25568" "civil_days 1900 3 1 = - 25508"
  by (simp_all add: days_from_civil_exact civil_days_def)

lemma not_leap_1900: "real_date d \<Longrightarrow> d \<noteq> Date 1900 2 29"
  by (auto simp: real_date_def days_in_month_def is_leap_year_def)

lemma serial_of_civil:
  assumes "unix_days_from_serial (Finite s) system = Some n"
  shows "serial_from_date (civil_from_days n) system = Some \<lfloor>s\<rfloor>"
proof -
  have n: "0 \<le> s" "s \<le> of_int (maximum_serial system)"
    "n = (case system of Excel1900 \<Rightarrow> if \<lfloor>s\<rfloor> < 60 then \<lfloor>s\<rfloor> - 25568 else \<lfloor>s\<rfloor> - 25569 | Excel1904 \<Rightarrow> \<lfloor>s\<rfloor> - 24107)"
    "\<not> (system = Excel1900 \<and> \<lfloor>s\<rfloor> = 60)"
    using assms by (cases system; auto simp: Let_def offsets split: if_splits)+
  have bounds: "0 \<le> \<lfloor>s\<rfloor>" "\<lfloor>s\<rfloor> \<le> maximum_serial system" using n(1,2) by (simp_all add: floor_le_iff)
  obtain k where k: "\<lfloor>s\<rfloor> = k" by blast
  have small: "\<bar>n\<bar> \<le> 300000000" using bounds n(3) unfolding k by (cases system) (auto simp: maximum_serial_values split: if_splits)
  have "serial_from_date (civil_from_days n) system = serial_from_unix_days n system"
    using not_leap_1900 [OF days_of_civil(1)] days_from_civil_of_days [OF small] by (simp add: serial_from_date_def)
  also have "\<dots> = Some \<lfloor>s\<rfloor>"
    using n(3,4) bounds unfolding k by (cases system) (auto simp: serial_from_unix_days_def leap_days offsets Let_def)
  finally show ?thesis .
qed

lemma serial_of_date_from_serial:
  assumes "date_from_serial (Finite s) system = Some d"
  shows "serial_from_date d system = Some \<lfloor>s\<rfloor>"
proof -
  consider (zero) "system = Excel1900" "0 \<le> s" "s < 1" | (leap) "system = Excel1900" "60 \<le> s" "s < 61"
    | (other) "unix_days_from_serial (Finite s) system \<noteq> None" "d = civil_from_days (the (unix_days_from_serial (Finite s) system))"
      "\<not> (system = Excel1900 \<and> (0 \<le> s \<and> s < 1 \<or> 60 \<le> s \<and> s < 61))"
    using assms by (auto simp: date_from_serial_def simp del: unix_days_from_serial.simps split: if_splits)
  then show ?thesis
  proof cases
    case zero
    then have "\<lfloor>s\<rfloor> = 0" "d = Date 1900 1 0" using assms by (auto simp: floor_eq_iff date_from_serial_def)
    then show ?thesis using zero by (simp add: serial_from_date_def serial_from_unix_days_def leap_days offsets maximum_serial_values)
  next
    case leap
    then have "\<lfloor>s\<rfloor> = 60" "d = Date 1900 2 29" using assms by (auto simp: floor_eq_iff date_from_serial_def)
    then show ?thesis using leap by (simp add: serial_from_date_def)
  next
    case other
    then show ?thesis using serial_of_civil [of s system] by fastforce
  qed
qed

lemma date_from_serial_domain:
  "date_from_serial (Finite s) system \<noteq> None \<longleftrightarrow> 0 \<le> s \<and> s \<le> of_int (maximum_serial system)"
proof -
  have "\<lfloor>s\<rfloor> = 60 \<Longrightarrow> 60 \<le> s \<and> s < 61" by (simp add: floor_eq_iff)
  then show ?thesis
    by (cases system) (auto simp: date_from_serial_def Let_def maximum_serial_values split: if_splits)
qed

text \<open>The serial of a date determines it.\<close>

lemma date_of_serial:
  assumes "real_date d" "serial_from_unix_days (days_of d) system = Some n" "system = Excel1900 \<longrightarrow> 1 \<le> n"
  shows "date_from_serial (Finite (of_int n)) system = Some d"
proof -
  have n: "0 \<le> n" "n \<le> maximum_serial system"
    "n = (case system of Excel1900 \<Rightarrow> if days_of d < - 25508 then days_of d + 25568 else days_of d + 25569 | Excel1904 \<Rightarrow> days_of d + 24107)"
    using assms(2) by (cases system; auto simp: serial_from_unix_days_def Let_def offsets leap_days split: if_splits)+
  have "unix_days_from_serial (Finite (of_int n)) system = Some (days_of d)"
    using n by (cases system) (auto simp: Let_def offsets split: if_splits)
  moreover have "\<not> (system = Excel1900 \<and> (n = 0 \<or> n = 60))"
    using n(3) assms(3) by (auto split: if_splits)
  moreover have "serial_in (Finite (of_int n)) 0 1 \<longleftrightarrow> n = 0" "serial_in (Finite (of_int n)) 60 61 \<longleftrightarrow> n = 60"
    by auto
  ultimately show ?thesis using civil_of_days_date [OF assms(1)] by (auto simp: date_from_serial_def simp del: unix_days_from_serial.simps)
qed

lemma exists_real:
  assumes "calendar_date_exists y m d" "0 \<le> d"
  shows "real_date (Date y m d) \<or> Date y m d = Date 1900 2 29"
  using assms by (auto simp: calendar_date_exists_def real_date_def)

lemma serial_ordinal:
  assumes "real_date d \<or> d = Date 1900 2 29" "serial_from_date d Excel1900 = Some n" "\<bar>dt_year d\<bar> \<le> 999999"
  shows "n = actual_day_ordinal d + 25568"
proof (cases "d = Date 1900 2 29")
  case True
  then show ?thesis using assms(2) by (simp add: serial_from_date_def actual_day_ordinal_def days_from_civil_exact civil_days_def)
next
  case False
  then have r: "real_date d" "serial_from_unix_days (days_of d) Excel1900 = Some n"
    using assms days_from_civil_date by (simp_all add: serial_from_date_def)
  show ?thesis
    using r(2) march_first_order [OF r(1)] False days_from_civil_date [OF r(1) assms(3)] leap_days
    by (auto simp: serial_from_unix_days_def actual_day_ordinal_def Let_def offsets split: if_splits)
qed

section \<open>Properties\<close>

text \<open>Day numbers and civil dates correspond one to one: every day number of the years up to six digits
is the number of the date \<open>civil_from_days\<close> returns, which exists in the Gregorian calendar; every existing
date comes back from its day number; 1970-01-01 has number 0 and the number of the next calendar day is one more.\<close>

theorem civil_days_bijective:
  "(\<forall>n. \<bar>n\<bar> \<le> 300000000 \<longrightarrow> real_date (civil_from_days n) \<and>
      days_from_civil (dt_year (civil_from_days n)) (dt_month (civil_from_days n)) (dt_day (civil_from_days n)) = n) \<and>
    (\<forall>d. real_date d \<and> \<bar>dt_year d\<bar> \<le> 999999 \<longrightarrow>
      civil_from_days (days_from_civil (dt_year d) (dt_month d) (dt_day d)) = d \<and>
      civil_from_days (days_from_civil (dt_year d) (dt_month d) (dt_day d) + 1) = next_day d) \<and>
    civil_from_days 0 = Date 1970 1 1"
proof -
  have "civil_from_days (days_of d + 1) = next_day d" if "real_date d" for d
    using next_day_days [OF that] civil_of_days_date [of "next_day d"] by auto
  moreover have "civil_from_days 0 = Date 1970 1 1"
    using civil_of_days_date [of "Date 1970 1 1"] epoch by (simp add: real_date_def days_in_month_def)
  ultimately show ?thesis
    using days_of_civil(1) days_from_civil_of_days days_from_civil_date civil_of_days_date by auto
qed

theorem civil_days_bijective_witness:
  "civil_from_days (days_from_civil 2000 2 28 + 1) = Date 2000 2 29 \<and> civil_from_days (days_from_civil 1900 2 28 + 1) = Date 1900 3 1"
proof -
  have "real_date (Date 2000 2 28)" "real_date (Date 1900 2 28)" by (simp_all add: real_date_def days_in_month_def is_leap_year_def)
  then have "civil_from_days (days_from_civil 2000 2 28 + 1) = next_day (Date 2000 2 28)"
    "civil_from_days (days_from_civil 1900 2 28 + 1) = next_day (Date 1900 2 28)"
    using civil_days_bijective [THEN conjunct2, THEN conjunct1, THEN spec, of "Date 2000 2 28"]
      civil_days_bijective [THEN conjunct2, THEN conjunct1, THEN spec, of "Date 1900 2 28"] by simp_all
  then show ?thesis by (simp add: next_day_def days_in_month_def is_leap_year_def)
qed

lemma serial_date_facts:
  shows "date_from_serial (Finite s) system \<noteq> None \<longleftrightarrow> 0 \<le> s \<and> s \<le> of_int (maximum_serial system)"
    and "date_from_serial (Finite s) system = Some d \<Longrightarrow> serial_from_date d system = Some \<lfloor>s\<rfloor>"
    and "calendar_date_exists year month day \<Longrightarrow> 0 \<le> day \<Longrightarrow> \<bar>year\<bar> \<le> 999999 \<Longrightarrow> serial_from_calendar_date year month day system = Some n \<Longrightarrow>
      date_from_serial (Finite (of_int n)) system = Some (Date year month day)"
proof -
  show "date_from_serial (Finite s) system \<noteq> None \<longleftrightarrow> 0 \<le> s \<and> s \<le> of_int (maximum_serial system)" by (rule date_from_serial_domain)
  show "date_from_serial (Finite s) system = Some d \<Longrightarrow> serial_from_date d system = Some \<lfloor>s\<rfloor>" by (rule serial_of_date_from_serial)
  assume e: "calendar_date_exists year month day" "0 \<le> day" and year: "\<bar>year\<bar> \<le> 999999" and n: "serial_from_calendar_date year month day system = Some n"
  let ?d = "Date year month day"
  have s: "serial_from_date ?d system = Some n" "system = Excel1900 \<longrightarrow> 1 \<le> n" "0 \<le> n"
    using n by (auto simp: serial_from_calendar_date_def serial_from_date_def serial_from_unix_days_def Let_def
        split: Option.bind_splits if_splits date_system.splits)
  show "date_from_serial (Finite (of_int n)) system = Some ?d"
  proof (cases "?d = Date 1900 2 29")
    case True
    show ?thesis
    proof (cases system)
      case Excel1900
      then show ?thesis using s(1) True by (simp add: serial_from_date_def date_from_serial_def)
    next
      case Excel1904
      then show ?thesis using s(1) True by (simp add: serial_from_date_def serial_from_unix_days_def days_from_civil_exact civil_days_def offsets)
    qed
  next
    case False
    then have "real_date ?d" "serial_from_unix_days (days_of ?d) system = Some n"
      using exists_real [OF e] s(1) year days_from_civil_date [of ?d] by (auto simp: serial_from_date_def)
    then show ?thesis using s(2) by (rule date_of_serial)
  qed
qed

text \<open>C33: a serial has a date exactly when it lies between 0 and the serial of 9999-12-31; the date's
serial is the serial without its time of day, in both date systems and for the two dates of the 1900
system outside the calendar (1900-01-00 and 1900-02-29); and a date that exists, in a year of at most six
digits, comes back from its serial (beyond, the \<open>i32\<close> arithmetic of the day number may wrap).\<close>

theorem serial_date_roundtrip:
  "(date_from_serial (Finite s) system \<noteq> None \<longleftrightarrow> 0 \<le> s \<and> s \<le> of_int (maximum_serial system)) \<and>
    (\<forall>d. date_from_serial (Finite s) system = Some d \<longrightarrow> serial_from_date d system = Some \<lfloor>s\<rfloor>) \<and>
    (calendar_date_exists year month day \<and> 0 \<le> day \<and> \<bar>year\<bar> \<le> 999999 \<and> serial_from_calendar_date year month day system = Some n \<longrightarrow>
      date_from_serial (Finite (of_int n)) system = Some (Date year month day))"
  using serial_date_facts by blast

theorem serial_date_roundtrip_witness:
  "date_from_serial (Finite (of_int 45351)) Excel1900 = Some (Date 2024 2 29) \<and> date_from_serial (Finite (of_int 60)) Excel1900 = Some (Date 1900 2 29)"
proof -
  have "serial_from_calendar_date 2024 2 29 Excel1900 = Some 45351" "serial_from_calendar_date 1900 2 29 Excel1900 = Some 60"
    "calendar_date_exists 2024 2 29" "calendar_date_exists 1900 2 29"
    by (simp_all add: calendar_date_exists_def days_in_month_def is_leap_year_def serial_from_calendar_date_def serial_from_date_def
        serial_from_unix_days_def days_from_civil_exact civil_days_def offsets maximum_serial_values)
  then show ?thesis
    using serial_date_roundtrip [of 0 Excel1900 2024 2 29 45351, THEN conjunct2, THEN conjunct2]
      serial_date_roundtrip [of 0 Excel1900 1900 2 29 60, THEN conjunct2, THEN conjunct2] by (simp del: of_int_numeral)
qed

text \<open>The actual day count between two dates, which the actual bases of the fixed-income functions
use, is the difference of their 1900-system serials, across the fictitious 1900-02-29 too.\<close>

theorem actual_days_serials:
  assumes "calendar_date_exists y m d" "0 \<le> d" "calendar_date_exists y' m' d'" "0 \<le> d'"
    and "serial_from_date (Date y m d) Excel1900 = Some n" "serial_from_date (Date y' m' d') Excel1900 = Some n'"
    and "basis \<in> {ActualActual, Actual360, Actual365}" "\<bar>y\<bar> \<le> 999999" "\<bar>y'\<bar> \<le> 999999"
  shows "days_between (Date y m d) (Date y' m' d') basis = n' - n"
  using serial_ordinal [OF exists_real [OF assms(1,2)] assms(5)] serial_ordinal [OF exists_real [OF assms(3,4)] assms(6)] assms(7-9)
  by (auto simp: actual_days_def)

theorem actual_days_serials_witness: "days_between (Date 1900 2 28) (Date 1900 3 1) Actual360 = 2"
  using actual_days_serials [of 1900 2 28 1900 3 1 59 61 Actual360]
  by (simp add: calendar_date_exists_def days_in_month_def is_leap_year_def serial_from_date_def
      serial_from_unix_days_def days_from_civil_exact civil_days_def offsets maximum_serial_values)

text \<open>Weekdays run Monday to Sunday without a break over the serials of both systems, and from the
serial of 1900-03-01 on (everywhere in the 1904 system) they are the weekdays of the dates: day number
0, 1970-01-01, is a Thursday.\<close>

theorem weekdays_exact:
  assumes "0 \<le> k" "k \<le> maximum_serial system"
  shows "k < maximum_serial system \<Longrightarrow>
      weekday_monday_zero (Finite (of_int (k + 1))) system = map_option (\<lambda>w. (w + 1) mod 7) (weekday_monday_zero (Finite (of_int k)) system)"
    and "system = Excel1904 \<or> 60 < k \<Longrightarrow> weekday_monday_zero (Finite (of_int k)) system =
      map_option (\<lambda>n. (n + 3) mod 7) (unix_days_from_serial (Finite (of_int k)) system)"
proof -
  show "weekday_monday_zero (Finite (of_int (k + 1))) system =
      map_option (\<lambda>w. (w + 1) mod 7) (weekday_monday_zero (Finite (of_int k)) system)" if "k < maximum_serial system"
  proof -
    have "\<not> of_int (k + 1) > (of_int (maximum_serial system) :: rat)" "\<not> of_int (k + 1) < (0 :: rat)"
      "\<not> of_int k > (of_int (maximum_serial system) :: rat)" "\<not> of_int k < (0 :: rat)"
      unfolding of_int_less_iff of_int_less_0_iff using assms that by linarith+
    moreover have e: "k + 1 + 5 = k + 5 + 1" "k + 1 - 24107 + 3 = k - 24107 + 3 + 1" by simp_all
    moreover have "(k + 1 + 5) mod 7 = ((k + 5) mod 7 + 1) mod 7" "(k + 1 - 24107 + 3) mod 7 = ((k - 24107 + 3) mod 7 + 1) mod 7"
      unfolding e by (metis mod_add_left_eq)+
    ultimately show ?thesis
      by (cases system) (simp_all only: weekday_monday_zero.simps if_False Let_def floor_of_int date_system.case option.map offsets)
  qed
  show "weekday_monday_zero (Finite (of_int k)) system = map_option (\<lambda>n. (n + 3) mod 7) (unix_days_from_serial (Finite (of_int k)) system)"
    if "system = Excel1904 \<or> 60 < k"
  proof -
    have "(k + 5) mod 7 = (k - 25569 + 3) mod 7" by (simp add: mod_eq_dvd_iff)
    then show ?thesis using assms that by (cases system) (auto simp: Let_def offsets)
  qed
qed

theorem weekdays_exact_witness: "weekday_monday_zero (Finite (of_int 61)) Excel1900 = Some 3"
  using weekdays_exact(2) [of 61 Excel1900] by (simp add: maximum_serial_values offsets)

end
