(* ===== verification/Formula_Tokens.thy ===== *)
theory Formula_Tokens
  imports Sheet_Name
begin

text \<open>
  The vocabulary of formula source text: spans (\<open>calculation/syntax.rs\<close>), error codes
  (\<open>calculation/error.rs\<close>), error values (\<open>calculation/value.rs\<close>), limits
  (\<open>calculation/limits.rs\<close>) and the tokens of \<open>calculation/lexer.rs\<close>, with the texts of columns
  and numbers the lexer recognises (\<open>calculation/ast.rs\<close>, \<open>calculation/excel_digits.rs\<close>).

  A \<open>&str\<close> is its list of characters, and a byte offset into it is taken literally: slicing at an
  offset that is not the start of a character panics.
\<close>

section \<open>Byte offsets\<close>

datatype 'e failure = Panic | Fail 'e

lemma utf8_simps [simp]: "utf8_len [] = 0" "utf8_len (c # s) = char_utf8 c + utf8_len s"
  "utf8_len (s @ t) = utf8_len s + utf8_len t"
  by (simp_all add: utf8_len_def)

lemma char_utf8_pos [simp]: "0 < char_utf8 c"
  by (simp add: char_utf8_def)

lemma utf8_len_0 [simp]: "utf8_len s = 0 \<longleftrightarrow> s = []"
  by (cases s) auto

text \<open>\<open>&s[n..]\<close> and \<open>&s[..n]\<close>; \<open>None\<close> is the panic of an offset inside a character or past the end.\<close>

fun byte_drop :: "nat \<Rightarrow> ustring \<Rightarrow> ustring option" where
  "byte_drop n s =
    (if n = 0 then Some s
     else case s of [] \<Rightarrow> None | c # s' \<Rightarrow> if char_utf8 c \<le> n then byte_drop (n - char_utf8 c) s' else None)"

fun byte_take :: "nat \<Rightarrow> ustring \<Rightarrow> ustring option" where
  "byte_take n s =
    (if n = 0 then Some []
     else case s of [] \<Rightarrow> None
       | c # s' \<Rightarrow> if char_utf8 c \<le> n then map_option ((#) c) (byte_take (n - char_utf8 c) s') else None)"

declare byte_drop.simps [simp del] byte_take.simps [simp del]

definition byte_slice :: "ustring \<Rightarrow> nat \<Rightarrow> nat \<Rightarrow> ustring option" where
  "byte_slice s a b = (if a \<le> b then Option.bind (byte_drop a s) (byte_take (b - a)) else None)"

lemma byte_drop_append: "byte_drop (utf8_len s) (s @ t) = Some t"
  by (induction s) (subst byte_drop.simps, simp)+

lemma byte_take_append: "byte_take (utf8_len s) (s @ t) = Some s"
  by (induction s) (subst byte_take.simps, simp)+

lemma byte_slice_mid: "byte_slice (s @ m @ t) (utf8_len s) (utf8_len s + utf8_len m) = Some m"
  by (simp add: byte_slice_def byte_drop_append byte_take_append)

text \<open>The offsets of the characters, and the offset of a character or the end.\<close>

fun char_offsets_from :: "nat \<Rightarrow> ustring \<Rightarrow> nat list" where
  "char_offsets_from n [] = []"
| "char_offsets_from n (c # s) = n # char_offsets_from (n + char_utf8 c) s"

definition char_offsets :: "ustring \<Rightarrow> nat list" where
  "char_offsets s = char_offsets_from 0 s"

definition byte_at :: "nat list \<Rightarrow> nat \<Rightarrow> nat \<Rightarrow> nat" where
  "byte_at offsets input_len character =
    (if character < length offsets then offsets ! character else input_len)"

lemma length_char_offsets_from [simp]: "length (char_offsets_from n s) = length s"
  by (induction s arbitrary: n) auto

lemma char_offsets_from_nth: "i < length s \<Longrightarrow> char_offsets_from n s ! i = n + utf8_len (take i s)"
  by (induction s arbitrary: n i) (auto simp: nth_Cons split: nat.splits)

lemma byte_at_utf8: "byte_at (char_offsets s) (utf8_len s) i = utf8_len (take i s)"
  by (simp add: byte_at_def char_offsets_def char_offsets_from_nth)

section \<open>Spans, codes and error values\<close>

record source_span =
  span_start :: nat
  span_end :: nat

definition span_new :: "nat \<Rightarrow> nat \<Rightarrow> source_span" where
  "span_new a b = \<lparr>span_start = a, span_end = b\<rparr>"

definition span_empty :: "nat \<Rightarrow> source_span" where
  "span_empty offset = span_new offset offset"

definition span_merge :: "source_span \<Rightarrow> source_span \<Rightarrow> source_span" where
  "span_merge a b =
    span_new (if span_start a < span_start b then span_start a else span_start b)
      (if span_end a > span_end b then span_end a else span_end b)"

lemma span_new_simps [simp]: "span_start (span_new a b) = a" "span_end (span_new a b) = b"
  "span_new a b = span_new a' b' \<longleftrightarrow> a = a' \<and> b = b'"
  by (simp_all add: span_new_def)

datatype parse_error_code =
    UnexpectedCharacter | UnterminatedString | UnterminatedSheetName | UnknownErrorLiteral
  | UnterminatedStructuredReference | UnexpectedToken | UnexpectedEnd | InvalidReference
  | MismatchedRange | InvalidStructuredReference | InvalidExternalReference

datatype calculation_limit_kind =
    FormulaTokens | FormulaSourceBytes | FormulaAstNodes | FormulaNestingDepth | DependencyEdges
  | ReferenceAreas | ArrayCells | TextLength | FunctionIterations | LetBindings | LambdaDepth
  | LambdaInvocations

datatype error_kind =
    KDiv0 | KNA | KName | KNull | KNum | KRef | KValue | KSpill | KCalc | KUnsupported
  | KResourceLimit calculation_limit_kind

text \<open>\<open>ErrorKind::as_str\<close> on the kinds \<open>ErrorKind::parse\<close> recognises.\<close>

definition error_kind_texts :: "(string \<times> error_kind) list" where
  "error_kind_texts =
    [(''#DIV/0!'', KDiv0), (''#N/A'', KNA), (''#NAME?'', KName), (''#NULL!'', KNull), (''#NUM!'', KNum),
     (''#REF!'', KRef), (''#VALUE!'', KValue), (''#SPILL!'', KSpill), (''#CALC!'', KCalc),
     (''#UNSUPPORTED!'', KUnsupported)]"

definition error_kind_parse :: "ustring \<Rightarrow> error_kind option" where
  "error_kind_parse s = map_of (map (apfst ascii) error_kind_texts) (map uchar_upper s)"

section \<open>Tokens\<close>

datatype trim_mode = TrimLeading | TrimTrailing | TrimBoth

datatype 'n token =
    TNumber 'n | TStr ustring | TIdent ustring | TQuotedSheet ustring | TStructuredRef ustring
  | TExternalWorkbook ustring | TErrorLit error_kind | TDollar | TLParen | TRParen | TLBrace | TRBrace
  | TComma | TSemicolon | TColon | TTrimColon trim_mode | TBang | TAt | THash | TIntersection | TAmp
  | TPlus | TMinus | TStar | TSlash | TCaret | TPercent | TEq | TNe | TLt | TLe | TGt | TGe

record 'n spanned_token =
  st_token :: "'n token"
  st_span :: source_span

record 'n lexed_formula =
  lf_tokens :: "'n spanned_token list"
  lf_trivia_spans :: "source_span list"

record lex_error =
  le_span :: source_span
  le_code :: parse_error_code
  le_limit :: "calculation_limit_kind option"

section \<open>Columns and numbers\<close>

definition uchar_alphabetic :: "uchar \<Rightarrow> bool" where
  "uchar_alphabetic c \<longleftrightarrow> 65 \<le> c \<and> c \<le> 90 \<or> 97 \<le> c \<and> c \<le> 122"

fun column_number_loop :: "u32 \<Rightarrow> ustring \<Rightarrow> u32 option" where
  "column_number_loop column [] = Some column"
| "column_number_loop column (c # letters) =
    (let upper = uchar_upper c
     in if \<not> (65 \<le> upper \<and> upper \<le> 90) then None
        else column_number_loop (u32_add (u32_mul column 26) (upper - 65 + 1)) letters)"

definition column_number :: "ustring \<Rightarrow> u32 option" where
  "column_number letters =
    (if letters = [] \<or> utf8_len letters > 3 then None
     else Option.bind (column_number_loop 0 letters)
       (\<lambda>column. if column \<le> EXCEL_MAX_COLUMNS then Some column else None))"

text \<open>\<open>str::parse::<u32>\<close>: an optional plus sign and digits whose number fits.\<close>

definition parse_u32 :: "ustring \<Rightarrow> u32 option" where
  "parse_u32 s =
    (let ds = (case s of c # s' \<Rightarrow> if c = 43 then s' else s | [] \<Rightarrow> s)
     in if ds = [] \<or> \<not> list_all uchar_digit ds \<or> decimal_value ds \<ge> u32_bound then None
        else Some (decimal_value ds))"

definition EXCEL_SIGNIFICANT_DIGITS :: nat where
  "EXCEL_SIGNIFICANT_DIGITS = 15"

text \<open>The number of digits from the first one that is not zero on.\<close>

fun count_significant :: "nat \<Rightarrow> ustring \<Rightarrow> nat" where
  "count_significant significant [] = significant"
| "count_significant significant (c # s) =
    (if uchar_digit c \<and> (significant > 0 \<or> c \<noteq> 48) then count_significant (significant + 1) s
     else count_significant significant s)"

text \<open>The digits kept: \<open>index\<close> is the position of the character and \<open>point\<close> that of the decimal point.\<close>

fun keep_digits :: "nat \<Rightarrow> nat \<Rightarrow> nat \<Rightarrow> ustring \<Rightarrow> ustring" where
  "keep_digits point index significant [] = []"
| "keep_digits point index significant (c # s) =
    (if \<not> uchar_digit c then c # keep_digits point (index + char_utf8 c) significant s
     else let significant' = (if significant > 0 \<or> c \<noteq> 48 then significant + 1 else significant)
       in (if significant' \<le> EXCEL_SIGNIFICANT_DIGITS then [c] else if index < point then [48] else [])
          @ keep_digits point (index + char_utf8 c) significant' s)"

definition fifteen_digit_literal :: "ustring \<Rightarrow> ustring" where
  "fifteen_digit_literal literal =
    (let mantissa = takeWhile (\<lambda>c. c \<noteq> 101 \<and> c \<noteq> 69) literal;
         exponent = dropWhile (\<lambda>c. c \<noteq> 101 \<and> c \<noteq> 69) literal
     in if count_significant 0 mantissa \<le> EXCEL_SIGNIFICANT_DIGITS then literal
        else keep_digits (utf8_len (takeWhile (\<lambda>c. c \<noteq> 46) mantissa)) 0 0 mantissa @ exponent)"

end
