(* ===== verification/Structured_Reference.thy ===== *)
theory Structured_Reference
  imports Formula_Tokens
begin

text \<open>
  Structured references to tables, such as \<open>Sales[[#Headers],[Amount]]\<close>: the data of
  \<open>calculation/ast.rs\<close>, the parser (\<open>calculation/structured_reference.rs\<close>) and the printer
  (\<open>write_structured_reference\<close> of \<open>calculation/ast.rs\<close>), and that they are inverse.

  A subslice of the source, whose position the code reads off its address, is its byte offset and its
  text.
\<close>

section \<open>Data\<close>

datatype source_component_kind =
    StructuredTable | StructuredItem nat | StructuredColumn bool | StructuredColumnStart bool
  | StructuredColumnEnd bool | SheetQualifier | SheetRangeEnd | DefinedName | ExternalWorkbook | ExternalSheet
  | ExternalSheetRangeEnd | ReferenceBody

record source_component =
  sc_kind :: source_component_kind
  sc_span :: source_span

definition component_new :: "source_component_kind \<Rightarrow> source_span \<Rightarrow> source_component" where
  "component_new kind span = \<lparr>sc_kind = kind, sc_span = span\<rparr>"

definition component_shifted :: "nat \<Rightarrow> source_component \<Rightarrow> source_component" where
  "component_shifted offset c =
    component_new (sc_kind c) (span_new (span_start (sc_span c) + offset) (span_end (sc_span c) + offset))"

datatype structured_item = ItemAll | ItemData | ItemHeaders | ItemTotals | ItemThisRow

fun item_as_str :: "structured_item \<Rightarrow> string" where
  "item_as_str ItemAll = ''#All''"
| "item_as_str ItemData = ''#Data''"
| "item_as_str ItemHeaders = ''#Headers''"
| "item_as_str ItemTotals = ''#Totals''"
| "item_as_str ItemThisRow = ''#This Row''"

datatype structured_columns = SingleColumn ustring | ColumnRange ustring ustring

record structured_reference =
  sr_table :: "ustring option"
  sr_items :: "structured_item list"
  sr_columns :: "structured_columns option"

datatype structured_reference_error =
    MissingSelector | InvalidBrackets | InvalidItem | UnescapedSpecialCharacter | TooManyColumns

record parsed_structured =
  pst_reference :: structured_reference
  pst_components :: "source_component list"

section \<open>Printing\<close>

definition name_special :: "uchar \<Rightarrow> bool" where
  "name_special c \<longleftrightarrow> c \<in> {91, 93, 35, 39, 64}"

definition write_structured_name :: "ustring \<Rightarrow> ustring" where
  "write_structured_name name = concat (map (\<lambda>c. if name_special c then [39, c] else [c]) name)"

definition write_structured_component :: "ustring \<Rightarrow> ustring" where
  "write_structured_component name = [91] @ write_structured_name name @ [93]"

definition column_character_needs_grouping :: "uchar \<Rightarrow> bool" where
  "column_character_needs_grouping c \<longleftrightarrow>
    c \<in> {9, 10, 13, 44, 58, 46, 91, 93, 35, 39, 34, 123, 125, 36, 94, 38, 42, 43, 61, 45, 62, 60, 47, 64, 92, 33,
      40, 41, 37, 63, 96, 59, 126, 95}"

definition column_needs_grouping :: "ustring \<Rightarrow> bool" where
  "column_needs_grouping column = list_ex column_character_needs_grouping column"

definition simple_column_character_needs_grouping :: "uchar \<Rightarrow> bool" where
  "simple_column_character_needs_grouping c \<longleftrightarrow>
    column_character_needs_grouping c \<and>
    c \<notin> {95, 92, 33, 40, 41, 37, 63, 59, 126, 96, 46, 45, 64, 38, 61}"

fun write_columns :: "structured_columns \<Rightarrow> ustring" where
  "write_columns (SingleColumn column) = write_structured_component column"
| "write_columns (ColumnRange first lst) = write_structured_component first @ [58] @ write_structured_component lst"

text \<open>The members of a selector list, separated by commas.\<close>

fun write_list :: "ustring list \<Rightarrow> ustring" where
  "write_list [] = []"
| "write_list [s] = s"
| "write_list (s # ss) = s @ [44] @ write_list ss"

definition write_structured_reference :: "structured_reference \<Rightarrow> ustring" where
  "write_structured_reference r =
    (case sr_table r of None \<Rightarrow> [] | Some table \<Rightarrow> table) @ [91] @
    (if sr_items r = [ItemThisRow]
     then [64] @ (case sr_columns r of
         None \<Rightarrow> []
       | Some (SingleColumn column) \<Rightarrow>
           if column_needs_grouping column then write_structured_component column else write_structured_name column
       | Some (ColumnRange first lst) \<Rightarrow> write_columns (ColumnRange first lst))
     else let needs_grouping =
         (sr_items r \<noteq> [] \<and> sr_columns r \<noteq> None \<or> length (sr_items r) > 1 \<or>
          (case sr_columns r of Some (ColumnRange _ _) \<Rightarrow> True
            | Some (SingleColumn column) \<Rightarrow> column_needs_grouping column | None \<Rightarrow> False))
       in if needs_grouping
          then write_list (map (\<lambda>i. [91] @ ascii (item_as_str i) @ [93]) (sr_items r) @
            (case sr_columns r of None \<Rightarrow> [] | Some columns \<Rightarrow> [write_columns columns]))
          else case sr_items r of
            i # _ \<Rightarrow> ascii (item_as_str i)
          | [] \<Rightarrow> (case sr_columns r of Some (SingleColumn column) \<Rightarrow> write_structured_name column | _ \<Rightarrow> [])) @ [93]"

section \<open>Subslices\<close>

type_synonym subslice = "nat \<times> ustring"

definition slice_span :: "subslice \<Rightarrow> source_span" where
  "slice_span v = span_new (fst v) (fst v + utf8_len (snd v))"

definition structured_component :: "source_component_kind \<Rightarrow> subslice \<Rightarrow> source_component" where
  "structured_component kind v = component_new kind (slice_span v)"

fun trim_start :: "nat \<Rightarrow> ustring \<Rightarrow> subslice" where
  "trim_start n [] = (n, [])"
| "trim_start n (c # s) = (if c = 32 then trim_start (n + 1) s else (n, c # s))"

definition trim_syntax_spaces :: "subslice \<Rightarrow> subslice" where
  "trim_syntax_spaces v = (let (n, s) = trim_start (fst v) (snd v) in (n, trim_end_spaces s))"

text \<open>\<open>strip_prefix('[')\<close> and then \<open>strip_suffix(']')\<close>.\<close>

definition unwrap_component :: "subslice \<Rightarrow> structured_reference_error + subslice" where
  "unwrap_component v =
    (case snd v of
      [] \<Rightarrow> Inl InvalidBrackets
    | c # s \<Rightarrow> if c = 91 \<and> s \<noteq> [] \<and> last s = 93 then Inr (fst v + 1, butlast s) else Inl InvalidBrackets)"

text \<open>The part before the first delimiter at depth 0 and the text after it.\<close>

fun split_at :: "uchar \<Rightarrow> u32 \<Rightarrow> bool \<Rightarrow> ustring \<Rightarrow> ustring \<times> ustring option" where
  "split_at d depth escaped [] = ([], None)"
| "split_at d depth escaped (c # s) =
    (if escaped then apfst (Cons c) (split_at d depth False s)
     else if c = 39 then apfst (Cons c) (split_at d depth True s)
     else if c = 91 then apfst (Cons c) (split_at d (u32_add depth 1) False s)
     else if c = 93 then apfst (Cons c) (split_at d (depth - 1) False s)
     else if c = d \<and> depth = 0 then ([], Some s)
     else apfst (Cons c) (split_at d depth False s))"

lemma split_at_length: "snd (split_at d depth escaped s) = Some r \<Longrightarrow> length r < length s"
  by (induction d depth escaped s rule: split_at.induct) (auto split: if_splits simp: less_Suc_eq)

function split_top_level :: "uchar \<Rightarrow> nat \<Rightarrow> ustring \<Rightarrow> subslice list" where
  "split_top_level d n s =
    (case split_at d 0 False s of
      (p, None) \<Rightarrow> [(n, p)]
    | (p, Some r) \<Rightarrow> (n, p) # split_top_level d (n + utf8_len p + char_utf8 d) r)"
  by pat_completeness auto
termination by (relation "measure (\<lambda>(d, n, s). length s)") (auto intro: split_at_length simp: prod_eq_iff)

declare split_top_level.simps [simp del]

section \<open>Parsing\<close>

fun ungrouped_loop :: "(uchar \<Rightarrow> bool) \<Rightarrow> ustring \<Rightarrow> structured_reference_error + ustring" where
  "ungrouped_loop needs_grouping [] = Inr []"
| "ungrouped_loop needs_grouping (c # s) =
    (if c = 39
     then case s of
         [] \<Rightarrow> Inl InvalidBrackets
       | e # s' \<Rightarrow> if \<not> name_special e then Inl UnescapedSpecialCharacter
           else res_bind (ungrouped_loop needs_grouping s') (\<lambda>name. Inr (e # name))
     else if needs_grouping c then Inl InvalidBrackets
     else res_bind (ungrouped_loop needs_grouping s) (\<lambda>name. Inr (c # name)))"

definition non_empty_name :: "ustring \<Rightarrow> structured_reference_error + ustring" where
  "non_empty_name name = (if name = [] then Inl MissingSelector else Inr name)"

definition ungrouped_column :: "ustring \<Rightarrow> (uchar \<Rightarrow> bool) \<Rightarrow> structured_reference_error + ustring" where
  "ungrouped_column s needs_grouping = res_bind (ungrouped_loop needs_grouping s) non_empty_name"

fun unescape_loop :: "ustring \<Rightarrow> structured_reference_error + ustring" where
  "unescape_loop [] = Inr []"
| "unescape_loop (c # s) =
    (if c = 39
     then case s of
         [] \<Rightarrow> Inl InvalidBrackets
       | e # s' \<Rightarrow> if \<not> name_special e then Inl UnescapedSpecialCharacter
           else res_bind (unescape_loop s') (\<lambda>name. Inr (e # name))
     else if c \<in> {91, 93, 35, 64} then Inl UnescapedSpecialCharacter
     else res_bind (unescape_loop s) (\<lambda>name. Inr (c # name)))"

definition unescape_name :: "ustring \<Rightarrow> structured_reference_error + ustring" where
  "unescape_name s = res_bind (unescape_loop s) non_empty_name"

definition structured_item_of :: "ustring \<Rightarrow> structured_item option" where
  "structured_item_of s =
    find (\<lambda>i. eq_ignore_ascii_case s (ascii (item_as_str i))) [ItemAll, ItemData, ItemHeaders, ItemTotals, ItemThisRow]"

text \<open>A column range whose ends have brackets.\<close>

definition column_range ::
  "subslice \<Rightarrow> subslice \<Rightarrow> structured_reference_error + structured_columns \<times> source_component list" where
  "column_range a b =
    res_bind (unwrap_component a) (\<lambda>a. res_bind (unwrap_component b) (\<lambda>b.
      let first = trim_syntax_spaces a; lst = trim_syntax_spaces b
      in res_bind (unescape_name (snd first)) (\<lambda>f. res_bind (unescape_name (snd lst)) (\<lambda>l.
        Inr (ColumnRange f l,
          [structured_component (StructuredColumnStart True) first, structured_component (StructuredColumnEnd True) lst])))))"

text \<open>The columns after an \<open>@\<close>.\<close>

definition this_row_columns ::
  "subslice \<Rightarrow> structured_reference_error + structured_columns \<times> source_component list" where
  "this_row_columns column =
    (case split_top_level 58 (fst column) (snd column) of
      [single] \<Rightarrow>
        if snd single \<noteq> [] \<and> hd (snd single) = 91
        then res_bind (unwrap_component single) (\<lambda>v. let v = trim_syntax_spaces v
          in res_bind (unescape_name (snd v)) (\<lambda>name. Inr (SingleColumn name, [structured_component (StructuredColumn True) v])))
        else res_bind (ungrouped_column (snd single) column_character_needs_grouping)
          (\<lambda>name. Inr (SingleColumn name, [structured_component (StructuredColumn False) single]))
    | [a, b] \<Rightarrow> column_range a b
    | _ \<Rightarrow> Inl TooManyColumns)"

record selector_state =
  sel_items :: "structured_item list"
  sel_columns :: "structured_columns option"
  sel_components :: "source_component list"

text \<open>One member of the selector.\<close>

definition selector_member ::
  "bool \<Rightarrow> bool \<Rightarrow> subslice \<Rightarrow> selector_state \<Rightarrow> structured_reference_error + selector_state" where
  "selector_member qualified grouped component s =
    (let component = (if grouped then trim_syntax_spaces component else component)
     in if grouped \<and> \<not> (snd component \<noteq> [] \<and> hd (snd component) = 91)
        then if sel_columns s \<noteq> None then Inl TooManyColumns
          else if snd component \<noteq> [] \<and> hd (snd component) = 35 then Inl InvalidItem
          else if 39 \<in> set (snd component) then Inl UnescapedSpecialCharacter
          else res_bind (ungrouped_column (snd component) column_character_needs_grouping)
            (\<lambda>name. Inr (s\<lparr>sel_columns := Some (SingleColumn name),
              sel_components := sel_components s @ [structured_component (StructuredColumn False) component]\<rparr>))
        else let ranges = split_top_level 58 (fst component) (snd component)
          in if length ranges > 2 then Inl TooManyColumns
             else if length ranges = 2
             then if sel_columns s \<noteq> None then Inl TooManyColumns
               else res_bind (column_range (ranges ! 0) (ranges ! 1))
                 (\<lambda>(columns, cs). Inr (s\<lparr>sel_columns := Some columns, sel_components := sel_components s @ cs\<rparr>))
             else res_bind (if grouped then res_bind (unwrap_component component) (\<lambda>v. Inr (trim_syntax_spaces v)) else Inr component)
               (\<lambda>component. case structured_item_of (snd component) of
                   Some i \<Rightarrow>
                     if i \<in> set (sel_items s) then Inl InvalidItem
                     else if length (sel_items s) \<ge> 65536 then Inl InvalidItem
                     else Inr (s\<lparr>sel_items := sel_items s @ [i],
                       sel_components := sel_components s @ [structured_component (StructuredItem (length (sel_items s))) component]\<rparr>)
                 | None \<Rightarrow>
                     if snd component \<noteq> [] \<and> hd (snd component) = 35 then Inl InvalidItem
                     else if sel_columns s \<noteq> None then Inl TooManyColumns
                     else res_bind (if grouped then unescape_name (snd component)
                         else if qualified then ungrouped_column (snd component) simple_column_character_needs_grouping
                         else ungrouped_column (snd component) column_character_needs_grouping)
                       (\<lambda>name. Inr (s\<lparr>sel_columns := Some (SingleColumn name),
                         sel_components := sel_components s @ [structured_component (StructuredColumn grouped) component]\<rparr>))))"

fun selector_members ::
  "bool \<Rightarrow> bool \<Rightarrow> subslice list \<Rightarrow> selector_state \<Rightarrow> structured_reference_error + selector_state" where
  "selector_members qualified grouped [] s = Inr s"
| "selector_members qualified grouped (c # cs) s =
    res_bind (selector_member qualified grouped c s) (selector_members qualified grouped cs)"

definition parse_selector ::
  "ustring option \<Rightarrow> subslice \<Rightarrow> source_component list \<Rightarrow> structured_reference_error + parsed_structured" where
  "parse_selector table selector cs =
    (let listed = split_top_level 44 (fst selector) (snd selector);
       grouped = (snd selector \<noteq> [] \<and> hd (snd selector) = 91 \<or> length listed > 1);
       components = (if grouped then listed else [selector])
     in res_bind (selector_members (table \<noteq> None) grouped components \<lparr>sel_items = [], sel_columns = None, sel_components = cs\<rparr>)
       (\<lambda>s. if sel_items s = [] \<and> sel_columns s = None then Inl MissingSelector
          else if \<not> (length (sel_items s) \<le> 1 \<or> sel_items s = [ItemHeaders, ItemData] \<or> sel_items s = [ItemData, ItemTotals])
          then Inl InvalidItem
          else Inr \<lparr>pst_reference = \<lparr>sr_table = table, sr_items = sel_items s, sr_columns = sel_columns s\<rparr>,
                    pst_components = sel_components s\<rparr>))"

definition parse_structured_reference :: "ustring \<Rightarrow> structured_reference_error + parsed_structured" where
  "parse_structured_reference raw =
    (let name = takeWhile (\<lambda>c. c \<noteq> 91) raw; from_open = dropWhile (\<lambda>c. c \<noteq> 91) raw; open = utf8_len name;
       table = (if open > 0 then Some name else None);
       cs = (if open > 0 then [component_new StructuredTable (span_new 0 open)] else [])
     in if from_open = [] then Inl InvalidBrackets
        else res_bind (unwrap_component (open, from_open))
          (\<lambda>outer.
            if snd outer = []
            then if table = None then Inl MissingSelector
              else Inr \<lparr>pst_reference = \<lparr>sr_table = table, sr_items = [ItemData], sr_columns = None\<rparr>, pst_components = cs\<rparr>
            else let trimmed = trim_syntax_spaces outer
              in if snd trimmed = [64]
                 then Inr \<lparr>pst_reference = \<lparr>sr_table = table, sr_items = [ItemThisRow], sr_columns = None\<rparr>,
                    pst_components = cs @ [structured_component (StructuredItem 0) trimmed]\<rparr>
                 else if snd trimmed \<noteq> [] \<and> hd (snd trimmed) = 64
                 then res_bind (this_row_columns (fst trimmed + 1, tl (snd trimmed)))
                   (\<lambda>(columns, column_components).
                     Inr \<lparr>pst_reference = \<lparr>sr_table = table, sr_items = [ItemThisRow], sr_columns = Some columns\<rparr>,
                       pst_components = cs @ [structured_component (StructuredItem 0) (fst trimmed, [64])] @ column_components\<rparr>)
                 else parse_selector table trimmed cs))"

section \<open>Splitting printed text\<close>

text \<open>Text that a split passes over.\<close>

definition atomic :: "uchar \<Rightarrow> u32 \<Rightarrow> ustring \<Rightarrow> bool" where
  "atomic d depth p \<longleftrightarrow> (\<forall>t. split_at d depth False (p @ t) = apfst ((@) p) (split_at d depth False t))"

lemma atomic_plain:
  "list_all (\<lambda>c. c \<notin> {39, 91, 93} \<and> (c \<noteq> d \<or> 0 < depth)) p \<Longrightarrow> atomic d depth p"
  unfolding atomic_def by (induction p) (auto simp: prod_eq_iff)

lemma atomic_append: "atomic d depth p \<Longrightarrow> atomic d depth q \<Longrightarrow> atomic d depth (p @ q)"
  by (simp add: atomic_def prod_eq_iff)

lemma write_structured_name_simps [simp]: "write_structured_name [] = []"
  "write_structured_name (c # s) = (if name_special c then [39, c] else [c]) @ write_structured_name s"
  by (auto simp: write_structured_name_def)

lemma atomic_name: "0 < depth \<Longrightarrow> atomic d depth (write_structured_name name)"
  unfolding atomic_def by (induction name) (auto simp: prod_eq_iff name_special_def)

lemma atomic_brackets:
  assumes "atomic d 1 p" "d \<notin> {39, 91, 93}"
  shows "atomic d 0 ([91] @ p @ [93])"
  using assms by (auto simp: atomic_def prod_eq_iff u32_add_exact)

lemma atomic_component: "d \<notin> {39, 91, 93} \<Longrightarrow> atomic d 0 (write_structured_component name)"
  using atomic_brackets [OF atomic_name] by (auto simp: write_structured_component_def)

lemma split_atomic: "atomic d 0 p \<Longrightarrow> split_top_level d n p = [(n, p)]"
  unfolding atomic_def by (drule spec [of _ "[]"], subst split_top_level.simps) simp

lemma split_atomic_delimiter:
  assumes "atomic d 0 p" "d \<notin> {39, 91, 93}"
  shows "split_top_level d n (p @ d # r) = (n, p) # split_top_level d (n + utf8_len p + char_utf8 d) r"
  using assms unfolding atomic_def by (subst split_top_level.simps) (auto simp: apfst_def)

lemma split_write_list:
  "list_all (atomic 44 0) ps \<Longrightarrow> ps \<noteq> [] \<Longrightarrow> map snd (split_top_level 44 n (write_list ps)) = ps"
  by (induction ps arbitrary: n rule: write_list.induct) (auto simp: split_atomic split_atomic_delimiter)

section \<open>Reading printed names\<close>

lemma unescape_written: "unescape_loop (write_structured_name name) = Inr name"
  by (induction name) (auto simp: name_special_def)

lemma unescape_name_written: "name \<noteq> [] \<Longrightarrow> unescape_name (write_structured_name name) = Inr name"
  by (simp add: unescape_name_def unescape_written non_empty_name_def)

lemma special_needs_grouping: "name_special c \<Longrightarrow> column_character_needs_grouping c"
  by (auto simp: name_special_def column_character_needs_grouping_def)

lemma write_ungrouped: "\<not> column_needs_grouping name \<Longrightarrow> write_structured_name name = name"
  by (induction name) (auto simp: column_needs_grouping_def dest: special_needs_grouping)

lemma ungrouped_loop_plain:
  "list_all (\<lambda>c. \<not> column_character_needs_grouping c \<and> \<not> needs c) name \<Longrightarrow> ungrouped_loop needs name = Inr name"
  by (induction name) (auto simp: column_character_needs_grouping_def)

lemma ungrouped_column_plain:
  assumes "\<not> column_needs_grouping name" "name \<noteq> []"
    "needs = column_character_needs_grouping \<or> needs = simple_column_character_needs_grouping"
  shows "ungrouped_column name needs = Inr name"
proof -
  have "list_all (\<lambda>c. \<not> column_character_needs_grouping c \<and> \<not> needs c) name"
    using assms by (auto simp: list_all_iff column_needs_grouping_def list_ex_iff simple_column_character_needs_grouping_def)
  then show ?thesis using assms(2) ungrouped_loop_plain by (simp add: ungrouped_column_def non_empty_name_def)
qed

text \<open>A name without blanks at its ends.\<close>

definition trimmed_name :: "ustring \<Rightarrow> bool" where
  "trimmed_name s \<longleftrightarrow> s \<noteq> [] \<and> hd s \<noteq> 32 \<and> last s \<noteq> 32"

lemma trim_trimmed:
  assumes "trimmed_name (snd v)"
  shows "trim_syntax_spaces v = v"
proof -
  have "trim_start (fst v) (snd v) = v" using assms by (cases v; cases "snd v") (auto simp: trimmed_name_def)
  moreover have "trim_end_spaces (snd v) = snd v"
    using assms by (cases "snd v" rule: rev_cases) (auto simp: trimmed_name_def trim_end_spaces_def)
  ultimately show ?thesis by (simp add: trim_syntax_spaces_def case_prod_beta)
qed

lemma hd_written: "name \<noteq> [] \<Longrightarrow> hd (write_structured_name name) = (if name_special (hd name) then 39 else hd name)"
  by (cases name) auto

lemma last_written: "name \<noteq> [] \<Longrightarrow> last (write_structured_name name) = last name \<and> write_structured_name name \<noteq> []"
  by (induction name) auto

lemma trimmed_written: "trimmed_name name \<Longrightarrow> trimmed_name (write_structured_name name)"
  using hd_written [of name] last_written [of name] by (auto simp: trimmed_name_def)

lemma item_starts: "structured_item_of s = Some i \<Longrightarrow> s \<noteq> [] \<and> hd s = 35"
  by (cases s)
    (auto simp: structured_item_of_def eq_ignore_ascii_case_def ascii_def uchar_upper_def split: if_splits)

lemma item_of_written: "structured_item_of (ascii (item_as_str i)) = Some i"
  by (cases i) (simp_all add: structured_item_of_def eq_ignore_ascii_case_def ascii_def uchar_upper_def)

lemma hd_written_not_hash: "name \<noteq> [] \<Longrightarrow> hd (write_structured_name name) \<noteq> 35"
  using hd_written [of name] by (auto simp: name_special_def)

lemma unwrap_brackets: "unwrap_component (n, [91] @ s @ [93]) = Inr (n + 1, s)"
  by (simp add: unwrap_component_def)

section \<open>The round trip\<close>

definition wf_columns :: "structured_columns \<Rightarrow> bool" where
  "wf_columns columns =
    (case columns of SingleColumn name \<Rightarrow> trimmed_name name | ColumnRange a b \<Rightarrow> trimmed_name a \<and> trimmed_name b)"

text \<open>The references that have a spelling: a table name without brackets, an admissible sequence of
items, column names without blanks at their ends, and something to select.\<close>

definition wf_structured :: "structured_reference \<Rightarrow> bool" where
  "wf_structured r \<longleftrightarrow>
    (case sr_table r of None \<Rightarrow> True | Some table \<Rightarrow> table \<noteq> [] \<and> 91 \<notin> set table) \<and>
    (length (sr_items r) \<le> 1 \<or> sr_items r = [ItemHeaders, ItemData] \<or> sr_items r = [ItemData, ItemTotals]) \<and>
    (case sr_columns r of None \<Rightarrow> sr_items r \<noteq> [] | Some columns \<Rightarrow> wf_columns columns)"

lemma bracketed_start: "trimmed_name ([91] @ s @ [93])" "trimmed_name (write_structured_component name)"
  by (auto simp: trimmed_name_def write_structured_component_def)

lemma hd_component: "hd (write_structured_component name @ s) = 91" "write_structured_component name \<noteq> []"
  by (simp_all add: write_structured_component_def)

lemma column_range_written:
  assumes "trimmed_name a" "trimmed_name b"
  shows "\<exists>cs. column_range (m, write_structured_component a) (n, write_structured_component b) = Inr (ColumnRange a b, cs)"
  using assms trimmed_written [OF assms(1)] trimmed_written [OF assms(2)]
  by (auto simp: column_range_def write_structured_component_def unwrap_brackets [simplified] trim_trimmed
      unescape_name_written trimmed_name_def)

lemma range_split:
  "split_top_level 58 n (write_structured_component a @ 58 # write_structured_component b) =
    [(n, write_structured_component a),
     (n + utf8_len (write_structured_component a) + char_utf8 58, write_structured_component b)]"
  by (simp add: split_atomic_delimiter split_atomic atomic_component)

lemma this_row_written:
  assumes "wf_columns columns"
  shows "\<exists>cs. this_row_columns (n, case columns of
      SingleColumn column \<Rightarrow> if column_needs_grouping column then write_structured_component column else write_structured_name column
    | ColumnRange a b \<Rightarrow> write_columns (ColumnRange a b)) = Inr (columns, cs)"
proof (cases columns)
  case (ColumnRange a b)
  then show ?thesis using assms column_range_written [of a b] by (auto simp: this_row_columns_def range_split wf_columns_def)
next
  case (SingleColumn name)
  then have name: "trimmed_name name" "name \<noteq> []" using assms by (auto simp: wf_columns_def trimmed_name_def)
  show ?thesis
  proof (cases "column_needs_grouping name")
    case True
    have "split_top_level 58 n (write_structured_component name) = [(n, write_structured_component name)]"
      by (simp add: split_atomic atomic_component)
    then show ?thesis using SingleColumn True name trimmed_written [OF name(1)] unwrap_brackets [of n "write_structured_name name"]
      by (simp add: this_row_columns_def write_structured_component_def trim_trimmed unescape_name_written)
  next
    case False
    have plain: "list_all (\<lambda>c. c \<notin> {39, 91, 93} \<and> (c \<noteq> 58 \<or> 0 < (0::nat))) name" "hd name \<noteq> 91"
      using False name by (auto simp: column_needs_grouping_def list_ex_iff list_all_iff column_character_needs_grouping_def)
    then have "split_top_level 58 n name = [(n, name)]" by (simp add: split_atomic atomic_plain)
    then show ?thesis using SingleColumn False name plain ungrouped_column_plain [OF False]
      by (simp add: this_row_columns_def write_ungrouped)
  qed
qed

lemma item_plain: "list_all (\<lambda>c. c \<notin> {39, 91, 93, 44, 58}) (ascii (item_as_str i))"
  "trimmed_name (ascii (item_as_str i))" "hd (ascii (item_as_str i)) = 35"
  by (cases i; simp add: ascii_def trimmed_name_def)+

lemma item_atomic:
  assumes d: "d = 44 \<or> d = 58"
  shows "atomic d 0 ([91] @ ascii (item_as_str i) @ [93])" "atomic d 0 (ascii (item_as_str i))"
proof -
  have "atomic d depth (ascii (item_as_str i))" for depth
    using item_plain(1) [of i] d by (intro atomic_plain) (auto simp: list_all_iff)
  then show "atomic d 0 ([91] @ ascii (item_as_str i) @ [93])" "atomic d 0 (ascii (item_as_str i))"
    using atomic_brackets [of d "ascii (item_as_str i)"] d by auto
qed

lemma member_item:
  assumes "i \<notin> set (sel_items s)" "length (sel_items s) < 65536"
  shows "\<exists>cs. selector_member q True (n, [91] @ ascii (item_as_str i) @ [93]) s =
    Inr (s\<lparr>sel_items := sel_items s @ [i], sel_components := cs\<rparr>)"
proof -
  let ?v = "[91] @ ascii (item_as_str i) @ [93]"
  have "trim_syntax_spaces (n, ?v) = (n, ?v)" by (rule trim_trimmed) (simp add: trimmed_name_def)
  moreover have "split_top_level 58 n ?v = [(n, ?v)]" by (rule split_atomic) (rule item_atomic(1), simp)
  moreover have "trim_syntax_spaces (n + 1, ascii (item_as_str i)) = (n + 1, ascii (item_as_str i))"
    using item_plain(2) by (simp add: trim_trimmed)
  ultimately show ?thesis using assms unwrap_brackets [of n "ascii (item_as_str i)"]
    by (simp add: selector_member_def Let_def item_of_written) (rule exI, rule refl)
qed

lemma member_columns:
  assumes "wf_columns columns" "sel_columns s = None"
  shows "\<exists>cs. selector_member q True (n, write_columns columns) s =
    Inr (s\<lparr>sel_columns := Some columns, sel_components := cs\<rparr>)"
proof (cases columns)
  case (ColumnRange a b)
  have "trim_syntax_spaces (n, write_columns columns) = (n, write_columns columns)"
    using ColumnRange by (intro trim_trimmed) (simp add: trimmed_name_def write_structured_component_def)
  then show ?thesis
    using ColumnRange assms column_range_written [of a b n "n + utf8_len (write_structured_component a) + char_utf8 58"]
    by (auto simp: selector_member_def Let_def range_split wf_columns_def hd_component)
next
  case (SingleColumn name)
  then have name: "trimmed_name name" "name \<noteq> []" using assms by (auto simp: wf_columns_def trimmed_name_def)
  let ?v = "write_structured_component name"
  have "trim_syntax_spaces (n, ?v) = (n, ?v)" by (rule trim_trimmed) (simp add: bracketed_start)
  moreover have "split_top_level 58 n ?v = [(n, ?v)]" by (simp add: split_atomic atomic_component)
  moreover have "trim_syntax_spaces (n + 1, write_structured_name name) = (n + 1, write_structured_name name)"
    using trimmed_written [OF name(1)] by (simp add: trim_trimmed)
  moreover have "structured_item_of (write_structured_name name) = None"
    using item_starts hd_written_not_hash [OF name(2)] by (metis option.exhaust)
  ultimately show ?thesis
    using SingleColumn assms name unwrap_brackets [of n "write_structured_name name"] hd_written_not_hash [OF name(2)]
    by (simp add: selector_member_def Let_def write_structured_component_def unescape_name_written) (rule exI, rule refl)
qed

lemma members_append:
  "selector_members q g (xs @ ys) s = res_bind (selector_members q g xs s) (selector_members q g ys)"
  by (induction xs arbitrary: s) (auto simp: res_bind_eq_Inr split: sum.splits, metis res_bind.simps obj_sumE)

lemma members_items:
  assumes "distinct (sel_items s @ is)" "length (sel_items s) + length is \<le> 65536"
    "map snd vs = map (\<lambda>i. [91] @ ascii (item_as_str i) @ [93]) is"
  shows "\<exists>cs. selector_members q True vs s = Inr (s\<lparr>sel_items := sel_items s @ is, sel_components := cs\<rparr>)"
  using assms
proof (induction vs arbitrary: s "is")
  case Nil
  then show ?case by (auto intro!: exI [of _ "sel_components s"])
next
  case (Cons v vs)
  obtain i is' where i: "is = i # is'" "v = (fst v, [91] @ ascii (item_as_str i) @ [93])"
    and vs: "map snd vs = map (\<lambda>i. [91] @ ascii (item_as_str i) @ [93]) is'"
    using Cons.prems(3) by (cases "is") (auto simp: prod_eq_iff)
  obtain cs where "selector_member q True v s = Inr (s\<lparr>sel_items := sel_items s @ [i], sel_components := cs\<rparr>)"
    using member_item [of i s q "fst v"] Cons.prems i by auto
  then show ?case using Cons.IH [of "s\<lparr>sel_items := sel_items s @ [i], sel_components := cs\<rparr>" is'] Cons.prems i vs by auto
qed

lemma columns_atomic: "atomic 44 0 (write_columns columns)"
proof (cases columns)
  case (SingleColumn name)
  then show ?thesis by (simp add: atomic_component)
next
  case (ColumnRange a b)
  have "atomic 44 0 [58]" by (rule atomic_plain) simp
  then have "atomic 44 0 ([58] @ write_structured_component b)" by (intro atomic_append atomic_component) simp_all
  then show ?thesis using ColumnRange atomic_append [OF atomic_component [of 44 a]] by simp
qed

lemma write_list_ends:
  "list_all (\<lambda>p. p \<noteq> [] \<and> hd p = 91 \<and> last p = 93) ps \<Longrightarrow> ps \<noteq> [] \<Longrightarrow>
    write_list ps \<noteq> [] \<and> hd (write_list ps) = 91 \<and> last (write_list ps) = 93"
  by (induction ps rule: write_list.induct) auto

lemma write_columns_ends: "write_columns c \<noteq> [] \<and> hd (write_columns c) = 91 \<and> last (write_columns c) = 93"
  by (cases c) (simp_all add: write_structured_component_def)

definition write_members :: "structured_item list \<Rightarrow> structured_columns option \<Rightarrow> ustring list" where
  "write_members is columns =
    map (\<lambda>i. [91] @ ascii (item_as_str i) @ [93]) is @ (case columns of None \<Rightarrow> [] | Some c \<Rightarrow> [write_columns c])"

lemma write_members_ends:
  "is \<noteq> [] \<or> columns \<noteq> None \<Longrightarrow> write_list (write_members is columns) \<noteq> [] \<and>
    hd (write_list (write_members is columns)) = 91 \<and> last (write_list (write_members is columns)) = 93"
  by (rule write_list_ends) (auto simp: write_members_def list_all_iff write_columns_ends split: option.splits)

text \<open>A selector list of items and columns in brackets.\<close>

lemma parse_selector_list:
  assumes "length is \<le> 1 \<or> is = [ItemHeaders, ItemData] \<or> is = [ItemData, ItemTotals]"
    "case columns of None \<Rightarrow> is \<noteq> [] | Some c \<Rightarrow> wf_columns c"
  shows "\<exists>cs'. parse_selector table (n, write_list (write_members is columns)) cs =
    Inr \<lparr>pst_reference = \<lparr>sr_table = table, sr_items = is, sr_columns = columns\<rparr>, pst_components = cs'\<rparr>"
proof -
  let ?ii = "map (\<lambda>i. [91] @ ascii (item_as_str i) @ [93]) is"
  let ?cc = "case columns of None \<Rightarrow> [] | Some c \<Rightarrow> [write_columns c]"
  define ps where "ps = write_members is columns"
  define s0 where "s0 = \<lparr>sel_items = [], sel_columns = None, sel_components = cs\<rparr>"
  have some: "is \<noteq> [] \<or> columns \<noteq> None" using assms(2) by (auto split: option.splits)
  have ps: "ps \<noteq> []" "list_all (atomic 44 0) ps"
    using assms(2) item_atomic(1) [of 44] columns_atomic by (auto simp: ps_def write_members_def list_all_iff split: option.splits)
  note hd = write_members_ends [OF some, folded ps_def]
  let ?vs = "split_top_level 44 n (write_list ps)"
  have vs: "map snd ?vs = ?ii @ ?cc" using split_write_list [OF ps(2,1), of n] by (simp add: ps_def write_members_def)
  define us ws where "us = take (length is) ?vs" and "ws = drop (length is) ?vs"
  have us: "map snd us = ?ii" and ws: "map snd ws = ?cc" and uw: "?vs = us @ ws"
    using vs by (simp_all add: us_def ws_def take_map [symmetric] drop_map [symmetric])
  have "distinct is" "length is \<le> 2" using assms(1) by (auto simp: le_Suc_eq length_Suc_conv)
  then obtain cs1 where m1: "selector_members (table \<noteq> None) True us s0 = Inr (s0\<lparr>sel_items := is, sel_components := cs1\<rparr>)"
    using members_items [of s0 "is" us "table \<noteq> None"] us by (auto simp: s0_def)
  have "\<exists>cs2. selector_members (table \<noteq> None) True ?vs s0 = Inr \<lparr>sel_items = is, sel_columns = columns, sel_components = cs2\<rparr>"
  proof (cases columns)
    case None
    then show ?thesis using m1 ws uw by (simp add: s0_def)
  next
    case (Some c)
    then obtain k where w: "ws = [(k, write_columns c)]" using ws by (cases ws) auto
    show ?thesis
      using member_columns [of c "s0\<lparr>sel_items := is, sel_components := cs1\<rparr>" "table \<noteq> None" k] assms(2) Some m1 w uw
      by (auto simp: members_append s0_def)
  qed
  then obtain cs2 where m2: "selector_members (table \<noteq> None) True ?vs s0 =
      Inr \<lparr>sel_items = is, sel_columns = columns, sel_components = cs2\<rparr>" by blast
  have "parse_selector table (n, write_list ps) cs =
      Inr \<lparr>pst_reference = \<lparr>sr_table = table, sr_items = is, sr_columns = columns\<rparr>, pst_components = cs2\<rparr>"
    using m2 hd some assms(1) unfolding parse_selector_def s0_def Let_def by simp
  then show ?thesis unfolding ps_def by blast
qed

text \<open>A selector without brackets: one item, or one column whose name needs none.\<close>

lemma parse_selector_plain:
  assumes "atomic 44 0 v" "atomic 58 0 v" "v \<noteq> []" "hd v \<noteq> 91"
    "case structured_item_of v of Some i \<Rightarrow> is = [i] \<and> columns = None
      | None \<Rightarrow> hd v \<noteq> 35 \<and> is = [] \<and> columns = Some (SingleColumn v) \<and> \<not> column_needs_grouping v"
  shows "\<exists>cs'. parse_selector table (n, v) cs =
    Inr \<lparr>pst_reference = \<lparr>sr_table = table, sr_items = is, sr_columns = columns\<rparr>, pst_components = cs'\<rparr>"
  using assms split_atomic [OF assms(1), of n] split_atomic [OF assms(2), of n]
    ungrouped_column_plain [of v column_character_needs_grouping]
    ungrouped_column_plain [of v simple_column_character_needs_grouping]
  by (auto simp: parse_selector_def Let_def selector_member_def split: option.splits)

text \<open>The text between the outer brackets means the items and the columns.\<close>

definition selects :: "ustring option \<Rightarrow> ustring \<Rightarrow> structured_item list \<Rightarrow> structured_columns option \<Rightarrow> bool" where
  "selects table s is columns \<longleftrightarrow> trimmed_name s \<and>
    (if hd s = 64 then is = [ItemThisRow] \<and>
       (if s = [64] then columns = None
        else \<forall>n. \<exists>c cs. this_row_columns (n, tl s) = Inr (c, cs) \<and> columns = Some c)
     else \<forall>n cs. \<exists>cs'. parse_selector table (n, s) cs =
       Inr \<lparr>pst_reference = \<lparr>sr_table = table, sr_items = is, sr_columns = columns\<rparr>, pst_components = cs'\<rparr>)"

lemma parse_from_brackets:
  assumes "case table of None \<Rightarrow> True | Some t \<Rightarrow> t \<noteq> [] \<and> 91 \<notin> set t" and sel: "selects table s is columns"
  shows "\<exists>p. parse_structured_reference ((case table of None \<Rightarrow> [] | Some t \<Rightarrow> t) @ [91] @ s @ [93]) = Inr p \<and>
    pst_reference p = \<lparr>sr_table = table, sr_items = is, sr_columns = columns\<rparr>"
proof -
  define t where "t = (case table of None \<Rightarrow> [] | Some t \<Rightarrow> t)"
  have t: "91 \<notin> set t" "(if utf8_len t > 0 then Some t else None) = table"
    using assms(1) by (auto simp: t_def split: option.splits)
  have tk: "takeWhile (\<lambda>c. c \<noteq> 91) (t @ [91] @ s @ [93]) = t" "dropWhile (\<lambda>c. c \<noteq> 91) (t @ [91] @ s @ [93]) = [91] @ s @ [93]"
  proof -
    have "list_all (\<lambda>c. c \<noteq> 91) t" using t(1) by (auto simp: list_all_iff)
    from takeWhile_split [OF this, of "[91] @ s @ [93]"]
    show "takeWhile (\<lambda>c. c \<noteq> 91) (t @ [91] @ s @ [93]) = t" "dropWhile (\<lambda>c. c \<noteq> 91) (t @ [91] @ s @ [93]) = [91] @ s @ [93]"
      by simp_all
  qed
  define n where "n = utf8_len t + 1"
  have s: "s \<noteq> []" using sel by (simp add: selects_def trimmed_name_def)
  have trim: "trim_syntax_spaces (n, s) = (n, s)" using sel by (simp add: trim_trimmed selects_def)
  have un: "unwrap_component (utf8_len t, [91] @ s @ [93]) = Inr (n, s)" using unwrap_brackets by (simp add: n_def)
  define cs0 where "cs0 = (if utf8_len t > 0 then [component_new StructuredTable (span_new 0 (utf8_len t))] else [])"
  have p: "parse_structured_reference (t @ [91] @ s @ [93]) =
    (if s = [64] then Inr \<lparr>pst_reference = \<lparr>sr_table = table, sr_items = [ItemThisRow], sr_columns = None\<rparr>,
        pst_components = cs0 @ [structured_component (StructuredItem 0) (n, s)]\<rparr>
     else if hd s = 64 then res_bind (this_row_columns (n + 1, tl s))
       (\<lambda>(columns, column_components).
         Inr \<lparr>pst_reference = \<lparr>sr_table = table, sr_items = [ItemThisRow], sr_columns = Some columns\<rparr>,
           pst_components = cs0 @ [structured_component (StructuredItem 0) (n, [64])] @ column_components\<rparr>)
     else parse_selector table (n, s) cs0)"
    unfolding parse_structured_reference_def Let_def tk un using s by (simp add: un [simplified] trim t(2) cs0_def trim_trimmed trimmed_name_def)
  have "\<exists>p. parse_structured_reference (t @ [91] @ s @ [93]) = Inr p \<and>
    pst_reference p = \<lparr>sr_table = table, sr_items = is, sr_columns = columns\<rparr>"
  proof (cases "hd s = 64 \<and> s \<noteq> [64]")
    case True
    then obtain c cs where "this_row_columns (n + 1, tl s) = Inr (c, cs)" "columns = Some c" "is = [ItemThisRow]"
      using sel unfolding selects_def by (metis (full_types))
    then show ?thesis using p True by simp
  next
    case False
    then consider "s = [64]" | "s \<noteq> [64]" "hd s \<noteq> 64" by blast
    then show ?thesis
    proof cases
      case 1
      then show ?thesis using p sel by (simp add: selects_def)
    next
      case 2
      then obtain cs' where "parse_selector table (n, s) cs0 =
          Inr \<lparr>pst_reference = \<lparr>sr_table = table, sr_items = is, sr_columns = columns\<rparr>, pst_components = cs'\<rparr>"
        using sel unfolding selects_def by metis
      then show ?thesis using p 2 by simp
    qed
  qed
  then show ?thesis by (simp only: t_def)
qed

lemma selects_this_row:
  assumes "case columns of None \<Rightarrow> True | Some c \<Rightarrow> wf_columns c"
  shows "selects table ([64] @ (case columns of None \<Rightarrow> []
      | Some (SingleColumn column) \<Rightarrow>
          if column_needs_grouping column then write_structured_component column else write_structured_name column
      | Some (ColumnRange first lst) \<Rightarrow> write_columns (ColumnRange first lst))) [ItemThisRow] columns"
    (is "selects table ([64] @ ?c) _ _")
proof (cases columns)
  case None
  then show ?thesis by (simp add: selects_def trimmed_name_def)
next
  case (Some cl)
  have "?c \<noteq> [] \<and> last ?c \<noteq> 32"
    using Some assms last_written
    by (auto simp: wf_columns_def trimmed_name_def write_structured_component_def split: structured_columns.splits)
  moreover have "\<exists>cs. this_row_columns (n, ?c) = Inr (cl, cs)" for n
    using this_row_written [of cl n] Some assms by (auto split: structured_columns.splits)
  ultimately show ?thesis using Some by (auto simp: selects_def trimmed_name_def)
qed

lemma selects_list:
  assumes "length is \<le> 1 \<or> is = [ItemHeaders, ItemData] \<or> is = [ItemData, ItemTotals]"
    "case columns of None \<Rightarrow> is \<noteq> [] | Some c \<Rightarrow> wf_columns c"
  shows "selects table (write_list (write_members is columns)) is columns"
proof -
  have "is \<noteq> [] \<or> columns \<noteq> None" using assms(2) by (auto split: option.splits)
  from write_members_ends [OF this] show ?thesis
    using parse_selector_list [OF assms] by (simp add: selects_def trimmed_name_def)
qed

lemma selects_item: "i \<noteq> ItemThisRow \<Longrightarrow> selects table (ascii (item_as_str i)) [i] None"
  using item_plain [of i] item_atomic(2) [of _ i]
  by (auto simp: selects_def item_of_written trimmed_name_def intro!: parse_selector_plain)

lemma selects_column:
  assumes "\<not> column_needs_grouping name" "trimmed_name name"
  shows "selects table (write_structured_name name) [] (Some (SingleColumn name))"
proof -
  have p: "list_all (\<lambda>c. c \<notin> {39, 91, 93, 44, 58, 35, 64}) name"
    using assms by (auto simp: column_needs_grouping_def list_ex_iff list_all_iff column_character_needs_grouping_def)
  have "name \<noteq> []" using assms(2) by (simp add: trimmed_name_def)
  moreover have "hd name \<notin> {91, 35, 64}" using p \<open>name \<noteq> []\<close> by (cases name) auto
  moreover have "atomic 44 0 name" "atomic 58 0 name"
    by (rule atomic_plain, use p in \<open>simp add: list_all_iff\<close>)+
  moreover have "structured_item_of name = None" using item_starts [of name] calculation by (cases "structured_item_of name") auto
  ultimately show ?thesis using assms
    by (auto simp: selects_def write_ungrouped intro!: parse_selector_plain split: option.splits)
qed

text \<open>C11: Structured references read back.  Whatever the table, the items and the columns, the printed form
of a well-formed reference parses to exactly that reference: special characters are escaped, names that
need brackets have them, and the printed selector list is split where it was joined.\<close>

theorem structured_reference_roundtrip:
  assumes wf: "wf_structured r"
  shows "map_sum id pst_reference (parse_structured_reference (write_structured_reference r)) = Inr r"
proof -
  obtain table "is" columns where r: "r = \<lparr>sr_table = table, sr_items = is, sr_columns = columns\<rparr>" by (cases r)
  have t: "case table of None \<Rightarrow> True | Some t \<Rightarrow> t \<noteq> [] \<and> 91 \<notin> set t"
    and i: "length is \<le> 1 \<or> is = [ItemHeaders, ItemData] \<or> is = [ItemData, ItemTotals]"
    and c: "case columns of None \<Rightarrow> is \<noteq> [] | Some c \<Rightarrow> wf_columns c"
    using wf by (auto simp: wf_structured_def r split: option.splits)
  have "\<exists>s. write_structured_reference r = (case table of None \<Rightarrow> [] | Some t \<Rightarrow> t) @ [91] @ s @ [93] \<and>
    selects table s is columns"
  proof (cases "is = [ItemThisRow]")
    case True
    then show ?thesis using selects_this_row [of columns table] c
      by (auto simp: write_structured_reference_def r split: option.splits)
  next
    case False
    then show ?thesis
      using selects_list [OF i c, of table] selects_item [of "hd is" table] selects_column [of _ table] c
      by (cases "is"; cases columns)
        (auto simp: write_structured_reference_def r Let_def write_members_def wf_columns_def split: structured_columns.splits)
  qed
  then obtain s where "write_structured_reference r = (case table of None \<Rightarrow> [] | Some t \<Rightarrow> t) @ [91] @ s @ [93]"
    and "selects table s is columns" by blast
  with parse_from_brackets [OF t, of s "is" columns] show ?thesis by (auto simp: r)
qed

theorem structured_reference_roundtrip_witness:
  "map_sum id pst_reference (parse_structured_reference (write_structured_reference
      \<lparr>sr_table = Some [84], sr_items = [ItemHeaders, ItemData], sr_columns = Some (SingleColumn [97, 93, 35])\<rparr>)) =
    Inr \<lparr>sr_table = Some [84], sr_items = [ItemHeaders, ItemData], sr_columns = Some (SingleColumn [97, 93, 35])\<rparr>"
  by (rule structured_reference_roundtrip) (simp add: wf_structured_def wf_columns_def trimmed_name_def)

end
