(* ===== verification/Expression.thy ===== *)
theory Expression
  imports Structured_Reference
begin

text \<open>
  The syntax trees of formulas (\<open>calculation/ast.rs\<close>), the checks of the parser on them
  (\<open>calculation/parser.rs\<close>) and the tree of source spans that mirrors them
  (\<open>calculation/syntax.rs\<close>).  Numbers are a type parameter; a built-in callable is its name.
\<close>

section \<open>Syntax trees\<close>

datatype unary_op = OpNegate | OpPlus | OpPercent

datatype binary_op =
    OpAdd | OpSubtract | OpMultiply | OpDivide | OpPower | OpConcat | OpEq | OpNe | OpLt | OpLe | OpGt | OpGe

record cell_ref =
  cr_column :: u32
  cr_row :: u32
  cr_column_absolute :: bool
  cr_row_absolute :: bool

record col_ref =
  colr_column :: u32
  colr_absolute :: bool

record row_ref =
  rowr_row :: u32
  rowr_absolute :: bool

datatype ref_body =
    RefCell cell_ref | RefArea cell_ref cell_ref | RefColumns col_ref col_ref | RefRows row_ref row_ref

record sheet_prefix =
  sp_name :: ustring
  sp_end_name :: "ustring option"
  sp_quoted :: bool

record reference =
  ref_sheet :: "sheet_prefix option"
  ref_body_of :: ref_body

datatype external_reference_target =
    TargetReference ref_body | TargetDefinedName ustring | TargetStructured structured_reference

record external_workbook_reference =
  ext_workbook :: ustring
  ext_sheet :: "ustring option"
  ext_sheet_end :: "ustring option"
  ext_sheet_quoted :: bool
  ext_quoted :: bool
  ext_target :: external_reference_target

datatype 'n expr =
    XNumber 'n
  | XText ustring
  | XLogical bool
  | XErrorLit error_kind
  | XRef reference
  | XStructuredRef structured_reference
  | XUnion "'n expr" "'n expr"
  | XIntersection "'n expr" "'n expr"
  | XSpillRef "'n expr"
  | XExternal external_workbook_reference
  | XQualifiedName sheet_prefix ustring
  | XRange "'n expr" "'n expr"
  | XName ustring
  | XBuiltin ustring
  | XCall ustring "'n expr list"
  | XInvoke "'n expr" "'n expr list"
  | XImplicit "'n expr"
  | XUnary unary_op "'n expr"
  | XBinary binary_op "'n expr" "'n expr"
  | XParen "'n expr"
  | XArray "'n expr list list"
  | XMissing

text \<open>The subexpressions in source order.\<close>

fun children :: "'n expr \<Rightarrow> 'n expr list" where
  "children (XUnion a b) = [a, b]"
| "children (XIntersection a b) = [a, b]"
| "children (XSpillRef a) = [a]"
| "children (XRange a b) = [a, b]"
| "children (XCall _ args) = args"
| "children (XInvoke callee args) = callee # args"
| "children (XImplicit a) = [a]"
| "children (XUnary _ a) = [a]"
| "children (XBinary _ a b) = [a, b]"
| "children (XParen a) = [a]"
| "children (XArray rows) = concat rows"
| "children _ = []"

fun direct_child_count :: "'n expr \<Rightarrow> nat" where
  "direct_child_count (XCall _ args) = length args"
| "direct_child_count (XInvoke _ args) = length args + 1"
| "direct_child_count (XImplicit _) = 1"
| "direct_child_count (XSpillRef _) = 1"
| "direct_child_count (XUnary _ _) = 1"
| "direct_child_count (XParen _) = 1"
| "direct_child_count (XBinary _ _ _) = 2"
| "direct_child_count (XUnion _ _) = 2"
| "direct_child_count (XIntersection _ _) = 2"
| "direct_child_count (XRange _ _) = 2"
| "direct_child_count (XArray rows) = sum_list (map length rows)"
| "direct_child_count _ = 0"

lemma direct_child_count: "direct_child_count e = length (children e)"
  by (cases e) (simp_all add: length_concat)

lemma subexpression_size: "c \<in> set (children e) \<Longrightarrow> size c < size e"
proof (cases e)
  case (XArray rows)
  assume "c \<in> set (children e)"
  then obtain row where row: "row \<in> set rows" "c \<in> set row" using XArray by auto
  have "size c \<le> size_list size row" using row(2) by (rule size_list_estimation') simp
  moreover have "size_list size row \<le> size_list (size_list size) rows" using row(1) by (rule size_list_estimation') simp
  ultimately show ?thesis using XArray by simp
qed (auto dest!: size_list_estimation' [of _ _ "size c" size, OF _ order_refl])

text \<open>The number of nodes of an expression and its depth.\<close>

function expr_nodes :: "'n expr \<Rightarrow> nat" where
  "expr_nodes e = 1 + sum_list (map expr_nodes (children e))"
  by pat_completeness auto
termination by (relation "measure size") (auto dest: subexpression_size)

function expr_depth :: "'n expr \<Rightarrow> nat" where
  "expr_depth e = 1 + fold max (map expr_depth (children e)) 0"
  by pat_completeness auto
termination by (relation "measure size") (auto dest: subexpression_size)

declare expr_nodes.simps [simp del] expr_depth.simps [simp del]

lemma nodes_children: "sum_list (map expr_nodes (children e)) < expr_nodes e"
  "Suc (2 * sum_list (map expr_nodes (children e))) < 2 * expr_nodes e" "0 < expr_nodes e"
  by (subst expr_nodes.simps, simp)+

lemma sum_map_rev: "sum_list (map f (rev xs)) = sum_list (map f xs)" for f :: "'a \<Rightarrow> nat"
  by (simp add: rev_map [symmetric] sum_list_rev)

section \<open>Kinds of expressions\<close>

fun can_be_reference_expression :: "'n expr \<Rightarrow> bool" where
  "can_be_reference_expression (XRef _) = True"
| "can_be_reference_expression (XStructuredRef _) = True"
| "can_be_reference_expression (XUnion _ _) = True"
| "can_be_reference_expression (XIntersection _ _) = True"
| "can_be_reference_expression (XSpillRef _) = True"
| "can_be_reference_expression (XExternal _) = True"
| "can_be_reference_expression (XQualifiedName _ _) = True"
| "can_be_reference_expression (XRange _ _) = True"
| "can_be_reference_expression (XName _) = True"
| "can_be_reference_expression (XCall _ _) = True"
| "can_be_reference_expression (XInvoke _ _) = True"
| "can_be_reference_expression (XErrorLit kind) = (kind = KRef)"
| "can_be_reference_expression (XParen inner) = can_be_reference_expression inner"
| "can_be_reference_expression (XImplicit inner) = can_be_reference_expression inner"
| "can_be_reference_expression _ = False"

text \<open>Whether a call stands for \<open>LAMBDA\<close> is looked up in the function registry.\<close>

fun can_be_postfix_invoked :: "(ustring \<Rightarrow> bool) \<Rightarrow> 'n expr \<Rightarrow> bool" where
  "can_be_postfix_invoked is_lambda_name (XCall name _) = is_lambda_name name"
| "can_be_postfix_invoked is_lambda_name (XBuiltin _) = True"
| "can_be_postfix_invoked is_lambda_name (XQualifiedName _ _) = True"
| "can_be_postfix_invoked is_lambda_name (XExternal r) =
    (case ext_target r of TargetDefinedName _ \<Rightarrow> True | _ \<Rightarrow> False)"
| "can_be_postfix_invoked is_lambda_name (XParen inner) = can_be_postfix_invoked is_lambda_name inner"
| "can_be_postfix_invoked is_lambda_name _ = False"

fun normalize_callable_argument :: "(ustring \<Rightarrow> ustring option) \<Rightarrow> 'n expr \<Rightarrow> 'n expr" where
  "normalize_callable_argument builtin_callable (XName name) =
    (case builtin_callable name of Some callable \<Rightarrow> XBuiltin callable | None \<Rightarrow> XName name)"
| "normalize_callable_argument builtin_callable (XParen inner) = XParen (normalize_callable_argument builtin_callable inner)"
| "normalize_callable_argument builtin_callable e = e"

section \<open>Limits\<close>

record parse_error =
  per_code :: parse_error_code
  per_span :: source_span
  per_limit :: "calculation_limit_kind option"

definition limit_error :: "source_span \<Rightarrow> calculation_limit_kind \<Rightarrow> parse_error" where
  "limit_error span limit = \<lparr>per_code = UnexpectedToken, per_span = span, per_limit = Some limit\<rparr>"

text \<open>The pending expressions with their depths, the last of the vector at the head.\<close>

function validate_loop ::
  "nat \<Rightarrow> nat \<Rightarrow> source_span \<Rightarrow> nat \<Rightarrow> ('n expr \<times> nat) list \<Rightarrow> parse_error option" where
  "validate_loop max_nodes max_depth span nodes [] = None"
| "validate_loop max_nodes max_depth span nodes ((current, depth) # pending) =
    (if nodes + 1 > max_nodes then Some (limit_error span FormulaAstNodes)
     else if depth > max_depth then Some (limit_error span FormulaNestingDepth)
     else validate_loop max_nodes max_depth span (nodes + 1)
       (rev (map (\<lambda>child. (child, depth + 1)) (children current)) @ pending))"
  by pat_completeness auto
termination
  by (relation "measure (\<lambda>(_, _, _, _, pending). sum_list (map (expr_nodes \<circ> fst) pending))")
    (auto simp: comp_def rev_map sum_map_rev nodes_children)

definition validate_ast_limits :: "nat \<Rightarrow> nat \<Rightarrow> 'n expr \<Rightarrow> source_span \<Rightarrow> parse_error option" where
  "validate_ast_limits max_nodes max_depth e span = validate_loop max_nodes max_depth span 0 [(e, 1)]"

section \<open>Trees of spans\<close>

record pending_node_source =
  pns_span :: source_span
  pns_components :: "source_component list"
  pns_depth :: nat
  pns_subtree_nodes :: nat

datatype node_span_tree = NodeSpanTree source_span "source_component list" "node_span_tree list"

text \<open>The tree of an expression from its nodes in reverse postorder, with the nodes left over.  The list
version takes the subexpressions last to first.\<close>

function (sequential) from_postorder ::
    "'n expr \<Rightarrow> pending_node_source list \<Rightarrow> (node_span_tree \<times> pending_node_source list) option"
  and from_postorder_list ::
    "'n expr list \<Rightarrow> pending_node_source list \<Rightarrow> (node_span_tree list \<times> pending_node_source list) option" where
  "from_postorder e [] = None"
| "from_postorder e (source # sources) =
    map_option (\<lambda>(trees, rest). (NodeSpanTree (pns_span source) (pns_components source) (rev trees), rest))
      (from_postorder_list (rev (children e)) sources)"
| "from_postorder_list [] sources = Some ([], sources)"
| "from_postorder_list (e # es) sources =
    Option.bind (from_postorder e sources)
      (\<lambda>(tree, rest). map_option (\<lambda>(trees, rest). (tree # trees, rest)) (from_postorder_list es rest))"
  by pat_completeness auto
termination
  by (relation "measure (\<lambda>x. case x of Inl (e, _) \<Rightarrow> 2 * expr_nodes e | Inr (es, _) \<Rightarrow> 1 + 2 * sum_list (map expr_nodes es))")
    (auto simp: sum_map_rev nodes_children)

end
