(* ===== verification/Lexer.thy ===== *)
theory Lexer
  imports Formula_Tokens
begin

text \<open>
  The formula lexer (\<open>calculation/lexer.rs\<close>).  Positions are character indices, as in the code, and
  spans are byte offsets; the cursor of a scan is an index into the vector of characters.

  Of the standard library, \<open>char::is_alphabetic\<close> and \<open>char::is_numeric\<close> (the Unicode tables) and the
  parsing and the finiteness test of \<open>f64\<close> are the fields of \<open>std_lib\<close>.
\<close>

section \<open>Characters\<close>

record 'n std_lib =
  std_alphabetic :: "uchar \<Rightarrow> bool"
  std_numeric :: "uchar \<Rightarrow> bool"
  std_parse_f64 :: "ustring \<Rightarrow> 'n option"
  std_is_finite :: "'n \<Rightarrow> bool"

text \<open>\<open>char::is_whitespace\<close>: the property \<open>White_Space\<close>.\<close>

definition is_whitespace :: "uchar \<Rightarrow> bool" where
  "is_whitespace c \<longleftrightarrow> 9 \<le> c \<and> c \<le> 13 \<or> c = 32 \<or> c = 133 \<or> c = 160 \<or> c = 5760 \<or> 8192 \<le> c \<and> c \<le> 8202 \<or>
    c = 8232 \<or> c = 8233 \<or> c = 8239 \<or> c = 8287 \<or> c = 12288"

definition is_alphanumeric :: "'n std_lib \<Rightarrow> uchar \<Rightarrow> bool" where
  "is_alphanumeric L c \<longleftrightarrow> std_alphabetic L c \<or> std_numeric L c"

definition is_ident_start :: "'n std_lib \<Rightarrow> uchar \<Rightarrow> bool" where
  "is_ident_start L c \<longleftrightarrow> std_alphabetic L c \<or> c = 95 \<or> c = 92"

definition is_ident_continue :: "'n std_lib \<Rightarrow> uchar \<Rightarrow> bool" where
  "is_ident_continue L c \<longleftrightarrow> is_alphanumeric L c \<or> c = 95 \<or> c = 46"

section \<open>Scans\<close>

definition get :: "'a list \<Rightarrow> nat \<Rightarrow> 'a option" where
  "get cs i = (if i < length cs then Some (cs ! i) else None)"

function skip_while :: "(uchar \<Rightarrow> bool) \<Rightarrow> ustring \<Rightarrow> nat \<Rightarrow> nat" where
  "skip_while p cs i = (if i < length cs \<and> p (cs ! i) then skip_while p cs (i + 1) else i)"
  by pat_completeness auto
termination by (relation "measure (\<lambda>(p, cs, i). length cs - i)") auto

declare skip_while.simps [simp del]

text \<open>The text of a literal between quotes, a doubled quote standing for one, and the index after it.\<close>

function scan_quoted :: "uchar \<Rightarrow> ustring \<Rightarrow> nat \<Rightarrow> ustring \<Rightarrow> (ustring \<times> nat) option" where
  "scan_quoted q cs i acc =
    (if i \<ge> length cs then None
     else if cs ! i = q
     then if get cs (i + 1) = Some q then scan_quoted q cs (i + 2) (acc @ [q]) else Some (acc, i + 1)
     else scan_quoted q cs (i + 1) (acc @ [cs ! i]))"
  by pat_completeness auto
termination by (relation "measure (\<lambda>(q, cs, i, acc). length cs - i)") auto

declare scan_quoted.simps [simp del]

function brackets_loop :: "ustring \<Rightarrow> nat \<Rightarrow> u32 \<Rightarrow> nat option" where
  "brackets_loop cs cursor depth =
    (if cursor \<ge> length cs then None
     else if cs ! cursor = 39 \<and> cursor + 1 < length cs then brackets_loop cs (cursor + 2) depth
     else if cs ! cursor = 91 then brackets_loop cs (cursor + 1) (u32_add depth 1)
     else if cs ! cursor = 93
     then if depth - 1 = 0 then Some (cursor + 1) else brackets_loop cs (cursor + 1) (depth - 1)
     else brackets_loop cs (cursor + 1) depth)"
  by pat_completeness auto
termination by (relation "measure (\<lambda>(cs, cursor, depth). length cs - cursor)") auto

declare brackets_loop.simps [simp del]

definition lex_fail :: "ustring \<Rightarrow> nat \<Rightarrow> nat \<Rightarrow> parse_error_code \<Rightarrow> lex_error failure" where
  "lex_fail cs start stop code =
    Fail \<lparr>le_span = span_new (byte_at (char_offsets cs) (utf8_len cs) start)
             (byte_at (char_offsets cs) (utf8_len cs) stop),
          le_code = code, le_limit = None\<rparr>"

definition consume_balanced_brackets :: "ustring \<Rightarrow> nat \<Rightarrow> lex_error failure + nat" where
  "consume_balanced_brackets cs open =
    (case brackets_loop cs open 0 of Some close \<Rightarrow> Inr close
     | None \<Rightarrow> Inl (lex_fail cs open (length cs) UnterminatedStructuredReference))"

function skip_apostrophes :: "ustring \<Rightarrow> nat \<Rightarrow> nat" where
  "skip_apostrophes cs cursor =
    (if cursor \<ge> length cs then cursor
     else if cs ! cursor = 39
     then if get cs (cursor + 1) = Some 39 then skip_apostrophes cs (cursor + 2) else cursor + 1
     else skip_apostrophes cs (cursor + 1))"
  by pat_completeness auto
termination by (relation "measure (\<lambda>(cs, cursor). length cs - cursor)") auto

declare skip_apostrophes.simps [simp del]

definition external_link_follows :: "'n std_lib \<Rightarrow> ustring \<Rightarrow> nat \<Rightarrow> bool" where
  "external_link_follows L cs cursor =
    (case get cs cursor of
      None \<Rightarrow> False
    | Some c \<Rightarrow>
        if c = 33 then True
        else if c = 39 then get cs (skip_apostrophes cs (cursor + 1)) = Some 33
        else if is_ident_start L c
        then let cursor = skip_while (is_ident_continue L) cs cursor
          in if get cs cursor = Some 58
             then (case get cs (cursor + 1) of
                 None \<Rightarrow> False
               | Some first \<Rightarrow> is_ident_start L first \<and>
                   get cs (skip_while (is_ident_continue L) cs (cursor + 2)) = Some 33)
             else get cs cursor = Some 33
        else False)"

section \<open>References\<close>

fun may_end_reference :: "'n token \<Rightarrow> bool" where
  "may_end_reference (TIdent _) = True"
| "may_end_reference (TQuotedSheet _) = True"
| "may_end_reference (TStructuredRef _) = True"
| "may_end_reference (TNumber _) = True"
| "may_end_reference (TErrorLit kind) = (kind = KRef)"
| "may_end_reference TRParen = True"
| "may_end_reference THash = True"
| "may_end_reference _ = False"

definition looks_like_cell_reference :: "ustring \<Rightarrow> bool" where
  "looks_like_cell_reference ident =
    (let column = takeWhile uchar_alphabetic ident; row = dropWhile uchar_alphabetic ident
     in column \<noteq> [] \<and> row \<noteq> [] \<and> column_number column \<noteq> None \<and>
        (case parse_u32 row of None \<Rightarrow> False | Some r \<Rightarrow> 0 < r \<and> r \<le> EXCEL_MAX_ROWS))"

text \<open>A vector of tokens, from its end: the last token, the one before it and so on.\<close>

definition ends_whole_column_reference :: "'n spanned_token list \<Rightarrow> bool" where
  "ends_whole_column_reference tokens =
    (case rev tokens of
      [] \<Rightarrow> False
    | lst # earlier \<Rightarrow>
        (case st_token lst of
          TIdent column \<Rightarrow>
            column_number column \<noteq> None \<and>
            (case earlier of
              [] \<Rightarrow> False
            | t # earlier' \<Rightarrow>
                if st_token t = TDollar then earlier' \<noteq> [] \<and> st_token (hd earlier') = TColon
                else st_token t = TColon)
        | _ \<Rightarrow> False))"

definition strip_dot :: "ustring \<Rightarrow> ustring option" where
  "strip_dot s = (if s \<noteq> [] \<and> last s = 46 then Some (butlast s) else None)"

definition shorten_token :: "'n std_lib \<Rightarrow> ustring \<Rightarrow> 'n spanned_token \<Rightarrow> lex_error failure + 'n token option" where
  "shorten_token L input previous =
    (case st_token previous of
      TIdent ident \<Rightarrow>
        Inr (Option.bind (strip_dot ident)
          (\<lambda>stem. if stem \<noteq> [] \<and> (looks_like_cell_reference stem \<or> column_number stem \<noteq> None)
            then Some (TIdent stem) else None))
    | TNumber _ \<Rightarrow>
        (case byte_slice input (span_start (st_span previous)) (span_end (st_span previous)) of
          None \<Rightarrow> Inl Panic
        | Some s \<Rightarrow>
            Inr (Option.bind (strip_dot s)
              (\<lambda>stem. if stem \<noteq> [] \<and> list_all uchar_digit stem
                then map_option TNumber (std_parse_f64 L (fifteen_digit_literal stem)) else None)))
    | _ \<Rightarrow> Inr None)"

definition drop_trailing_dot ::
  "'n std_lib \<Rightarrow> ustring \<Rightarrow> 'n spanned_token list \<Rightarrow> lex_error failure + 'n spanned_token list \<times> bool" where
  "drop_trailing_dot L input tokens =
    (if tokens = [] then Inr (tokens, False)
     else let previous = last tokens
       in res_bind (shorten_token L input previous)
         (\<lambda>shortened. case shortened of
             None \<Rightarrow> Inr (tokens, False)
           | Some token \<Rightarrow>
               if span_end (st_span previous) = 0 then Inl Panic
               else Inr (butlast tokens @
                 [\<lparr>st_token = token,
                   st_span = span_new (span_start (st_span previous)) (span_end (st_span previous) - 1)\<rparr>], True)))"

definition may_start_reference :: "'n spanned_token list \<Rightarrow> 'n token \<Rightarrow> bool" where
  "may_start_reference previous token =
    (previous \<noteq> [] \<and>
     (case token of
        TIdent _ \<Rightarrow> True
      | TQuotedSheet _ \<Rightarrow> True
      | TStructuredRef _ \<Rightarrow> True
      | TExternalWorkbook _ \<Rightarrow> True
      | TNumber _ \<Rightarrow> True
      | TDollar \<Rightarrow> True
      | TAt \<Rightarrow> True
      | TErrorLit kind \<Rightarrow> kind = KRef
      | TLParen \<Rightarrow>
          (case st_token (last previous) of
            TIdent ident \<Rightarrow> looks_like_cell_reference ident
          | TNumber _ \<Rightarrow> True
          | TStructuredRef _ \<Rightarrow> True
          | TRParen \<Rightarrow> True
          | THash \<Rightarrow> True
          | _ \<Rightarrow> False) \<or> ends_whole_column_reference previous
      | _ \<Rightarrow> False))"

section \<open>The steps of the lexer\<close>

record 'n lex_state =
  ls_tokens :: "'n spanned_token list"
  ls_trivia :: "source_span list"
  ls_index :: nat

definition lex_span :: "ustring \<Rightarrow> nat \<Rightarrow> nat \<Rightarrow> source_span" where
  "lex_span cs i j =
    span_new (byte_at (char_offsets cs) (utf8_len cs) i) (byte_at (char_offsets cs) (utf8_len cs) j)"

definition lex_slice :: "ustring \<Rightarrow> nat \<Rightarrow> nat \<Rightarrow> lex_error failure + ustring" where
  "lex_slice cs i j =
    (case byte_slice cs (byte_at (char_offsets cs) (utf8_len cs) i) (byte_at (char_offsets cs) (utf8_len cs) j) of
      None \<Rightarrow> Inl Panic | Some s \<Rightarrow> Inr s)"

text \<open>A step that pushes a token which starts at the index of the state and ends at \<open>j\<close>.\<close>

definition push_token :: "ustring \<Rightarrow> 'n token \<Rightarrow> nat \<Rightarrow> 'n lex_state \<Rightarrow> 'n lex_state" where
  "push_token cs token j s =
    s\<lparr>ls_tokens := ls_tokens s @ [\<lparr>st_token = token, st_span = lex_span cs (ls_index s) j\<rparr>], ls_index := j\<rparr>"

definition lex_trivia :: "ustring \<Rightarrow> 'n lex_state \<Rightarrow> 'n lex_state" where
  "lex_trivia cs s =
    (let j = skip_while is_whitespace cs (ls_index s + 1)
     in s\<lparr>ls_trivia := ls_trivia s @ [lex_span cs (ls_index s) j], ls_index := j\<rparr>)"

definition lex_quoted ::
  "uchar \<Rightarrow> parse_error_code \<Rightarrow> (ustring \<Rightarrow> 'n token) \<Rightarrow> ustring \<Rightarrow> 'n lex_state
    \<Rightarrow> lex_error failure + 'n lex_state" where
  "lex_quoted q code token cs s =
    (case scan_quoted q cs (ls_index s + 1) [] of
      None \<Rightarrow> Inl (lex_fail cs (ls_index s) (length cs) code)
    | Some (content, j) \<Rightarrow> Inr (push_token cs (token content) j s))"

definition ERROR_LITERALS :: "string list" where
  "ERROR_LITERALS =
    [''#UNSUPPORTED!'', ''#SPILL!'', ''#DIV/0!'', ''#VALUE!'', ''#NAME?'', ''#NULL!'', ''#CALC!'', ''#NUM!'',
     ''#REF!'', ''#N/A'']"

definition lex_hash :: "'n std_lib \<Rightarrow> ustring \<Rightarrow> 'n lex_state \<Rightarrow> lex_error failure + 'n lex_state" where
  "lex_hash L cs s =
    (let i = ls_index s; rest = drop i cs
     in case find (\<lambda>literal. eq_ignore_ascii_case (take (length literal) rest) (ascii literal)) ERROR_LITERALS of
       Some literal \<Rightarrow>
         (case error_kind_parse (ascii literal) of
           None \<Rightarrow> Inl Panic
         | Some kind \<Rightarrow> Inr (push_token cs (TErrorLit kind) (i + length literal) s))
     | None \<Rightarrow>
         if (case get cs (i + 1) of None \<Rightarrow> False | Some c \<Rightarrow> std_alphabetic L c)
         then Inl (lex_fail cs i (min (i + 1) (length cs)) UnknownErrorLiteral)
         else Inr (push_token cs THash (i + 1) s))"

function scan_mantissa :: "ustring \<Rightarrow> nat \<Rightarrow> bool \<Rightarrow> bool \<Rightarrow> nat \<times> bool" where
  "scan_mantissa cs cursor seen_digit seen_dot =
    (if cursor \<ge> length cs then (cursor, seen_digit)
     else if uchar_digit (cs ! cursor) then scan_mantissa cs (cursor + 1) True seen_dot
     else if cs ! cursor = 46 \<and> \<not> seen_dot then scan_mantissa cs (cursor + 1) seen_digit True
     else (cursor, seen_digit))"
  by pat_completeness auto
termination by (relation "measure (\<lambda>(cs, cursor, _). length cs - cursor)") auto

declare scan_mantissa.simps [simp del]

definition scan_exponent :: "ustring \<Rightarrow> nat \<Rightarrow> nat" where
  "scan_exponent cs cursor =
    (if get cs cursor = Some 101 \<or> get cs cursor = Some 69
     then let digits = (if get cs (cursor + 1) = Some 43 \<or> get cs (cursor + 1) = Some 45 then cursor + 2 else cursor + 1);
            exponent = skip_while uchar_digit cs digits
       in if exponent > digits then exponent else cursor
     else cursor)"

definition lex_number :: "'n std_lib \<Rightarrow> ustring \<Rightarrow> 'n lex_state \<Rightarrow> lex_error failure + 'n lex_state" where
  "lex_number L cs s =
    (let i = ls_index s; (mantissa, seen_digit) = scan_mantissa cs i False False
     in if \<not> seen_digit then Inl (lex_fail cs i (i + 1) UnexpectedCharacter)
        else let j = scan_exponent cs mantissa
          in res_bind (lex_slice cs i j)
            (\<lambda>literal. case std_parse_f64 L (fifteen_digit_literal literal) of
                None \<Rightarrow> Inl (lex_fail cs i j UnexpectedCharacter)
              | Some number \<Rightarrow>
                  Inr (push_token cs (if std_is_finite L number then TNumber number else TErrorLit KNum) j s)))"

definition lex_bracket :: "'n std_lib \<Rightarrow> ustring \<Rightarrow> 'n lex_state \<Rightarrow> lex_error failure + 'n lex_state" where
  "lex_bracket L cs s =
    res_bind (consume_balanced_brackets cs (ls_index s))
      (\<lambda>close. res_bind (lex_slice cs (ls_index s) close)
        (\<lambda>raw. Inr (push_token cs
          (if external_link_follows L cs close then TExternalWorkbook raw else TStructuredRef raw) close s)))"

definition lex_ident :: "'n std_lib \<Rightarrow> ustring \<Rightarrow> 'n lex_state \<Rightarrow> lex_error failure + 'n lex_state" where
  "lex_ident L cs s =
    (let j = skip_while (is_ident_continue L) cs (ls_index s + 1)
     in if get cs j = Some 91
        then res_bind (consume_balanced_brackets cs j)
          (\<lambda>close. res_bind (lex_slice cs (ls_index s) close)
            (\<lambda>raw. Inr (push_token cs (TStructuredRef raw) close s)))
        else res_bind (lex_slice cs (ls_index s) j) (\<lambda>ident. Inr (push_token cs (TIdent ident) j s)))"

text \<open>The colon, with its trim dots; the flag says whether the step ends with the limit check.\<close>

definition lex_colon :: "'n std_lib \<Rightarrow> ustring \<Rightarrow> 'n lex_state \<Rightarrow> lex_error failure + 'n lex_state \<times> bool" where
  "lex_colon L cs s =
    (let i = ls_index s;
       trailing = (get cs (i + 1) = Some 46 \<and>
         (case get cs (i + 2) of None \<Rightarrow> False | Some next \<Rightarrow> is_alphanumeric L next \<or> next = 36))
     in res_bind (if i > 0 \<and> cs ! (i - 1) = 46 then drop_trailing_dot L cs (ls_tokens s) else Inr (ls_tokens s, False))
       (\<lambda>(tokens, leading).
         let s' = s\<lparr>ls_tokens := tokens, ls_index := (if leading then i - 1 else i)\<rparr>;
           stop = i + 1 + (if trailing then 1 else 0)
         in Inr (if leading \<and> trailing then (push_token cs (TTrimColon TrimBoth) stop s', False)
            else if leading then (push_token cs (TTrimColon TrimLeading) stop s', False)
            else if trailing then (push_token cs (TTrimColon TrimTrailing) stop s', False)
            else (push_token cs TColon (i + 1) s', True))))"

text \<open>The one-character operators.\<close>

definition simple_token :: "uchar \<Rightarrow> 'n token option" where
  "simple_token c =
    map_of [(36, TDollar), (40, TLParen), (41, TRParen), (123, TLBrace), (125, TRBrace), (44, TComma), (59, TSemicolon),
     (33, TBang), (64, TAt), (38, TAmp), (43, TPlus), (45, TMinus), (42, TStar), (47, TSlash), (94, TCaret),
     (37, TPercent), (61, TEq)] c"

definition lex_operator :: "ustring \<Rightarrow> 'n lex_state \<Rightarrow> lex_error failure + 'n lex_state" where
  "lex_operator cs s =
    (let i = ls_index s; c = cs ! i; next = get cs (i + 1)
     in case simple_token c of
       Some token \<Rightarrow> Inr (push_token cs token (i + 1) s)
     | None \<Rightarrow>
         if c = 60 \<and> next = Some 62 then Inr (push_token cs TNe (i + 2) s)
         else if c = 60 \<and> next = Some 61 then Inr (push_token cs TLe (i + 2) s)
         else if c = 60 then Inr (push_token cs TLt (i + 1) s)
         else if c = 62 \<and> next = Some 61 then Inr (push_token cs TGe (i + 2) s)
         else if c = 62 then Inr (push_token cs TGt (i + 1) s)
         else Inl (lex_fail cs i (i + 1) UnexpectedCharacter))"

definition with_check :: "lex_error failure + 'n lex_state \<Rightarrow> lex_error failure + 'n lex_state \<times> bool" where
  "with_check r = res_bind r (\<lambda>s. Inr (s, True))"

definition lex_step :: "'n std_lib \<Rightarrow> ustring \<Rightarrow> 'n lex_state \<Rightarrow> lex_error failure + 'n lex_state \<times> bool" where
  "lex_step L cs s =
    (let c = cs ! ls_index s
     in if is_whitespace c then Inr (lex_trivia cs s, True)
        else if c = 34 then with_check (lex_quoted 34 UnterminatedString TStr cs s)
        else if c = 39 then with_check (lex_quoted 39 UnterminatedSheetName TQuotedSheet cs s)
        else if c = 35 then with_check (lex_hash L cs s)
        else if uchar_digit c \<or> c = 46 then with_check (lex_number L cs s)
        else if c = 91 then with_check (lex_bracket L cs s)
        else if is_ident_start L c then with_check (lex_ident L cs s)
        else if c = 58 then lex_colon L cs s
        else with_check (lex_operator cs s))"

definition token_limit_error :: "nat \<Rightarrow> lex_error failure" where
  "token_limit_error offset =
    Fail \<lparr>le_span = span_empty offset, le_code = UnexpectedToken, le_limit = Some FormulaTokens\<rparr>"

section \<open>Progress of the scans\<close>

lemma skip_while_eq: "skip_while p cs i = i + length (takeWhile p (drop i cs))"
proof (induction p cs i rule: skip_while.induct)
  case (1 p cs i)
  show ?case
  proof (cases "i < length cs \<and> p (cs ! i)")
    case True
    then have "drop i cs = cs ! i # drop (i + 1) cs" by (simp add: Cons_nth_drop_Suc)
    then show ?thesis using True 1 by (subst skip_while.simps) simp
  next
    case False
    have "takeWhile p (drop i cs) = []"
      using False by (cases "i < length cs") (auto simp: Cons_nth_drop_Suc [symmetric])
    then show ?thesis using False by (subst skip_while.simps) auto
  qed
qed

lemma skip_while_bounds: "i \<le> skip_while p cs i" "i \<le> length cs \<Longrightarrow> skip_while p cs i \<le> length cs"
  using length_takeWhile_le [of p "drop i cs"] by (auto simp: skip_while_eq)

definition slice :: "'a list \<Rightarrow> nat \<Rightarrow> nat \<Rightarrow> 'a list" where
  "slice cs i j = take (j - i) (drop i cs)"

lemma slice_step: "i < length cs \<Longrightarrow> i < j \<Longrightarrow> slice cs i j = cs ! i # slice cs (i + 1) j"
  by (simp add: slice_def Cons_nth_drop_Suc [symmetric] take_Cons' )

lemma slice_empty [simp]: "slice cs i i = []"
  by (simp add: slice_def)

lemma slice_last: "i < j \<Longrightarrow> j \<le> length cs \<Longrightarrow> slice cs i j = slice cs i (j - 1) @ [cs ! (j - 1)]"
  by (cases j) (auto simp: slice_def Suc_diff_le take_Suc_conv_app_nth)

lemma take_slice: "i \<le> j \<Longrightarrow> take i cs @ slice cs i j = take j cs"
  by (metis le_add_diff_inverse slice_def take_add)

lemma slice_takeWhile: "slice cs i (i + length (takeWhile p (drop i cs))) = takeWhile p (drop i cs)"
  using takeWhile_eq_take [of p "drop i cs"] by (simp add: slice_def)

lemma slice_skip_while: "i \<le> length cs \<Longrightarrow> list_all p (slice cs i (skip_while p cs i))"
  by (auto simp: skip_while_eq slice_takeWhile list_all_iff dest: set_takeWhileD)

text \<open>The text of a literal with its quotes doubled.\<close>

definition double_quotes :: "uchar \<Rightarrow> ustring \<Rightarrow> ustring" where
  "double_quotes q s = concat (map (\<lambda>c. if c = q then [q, q] else [c]) s)"

lemma double_quotes_simps [simp]: "double_quotes q [] = []"
  "double_quotes q (c # s) = (if c = q then [q, q] else [c]) @ double_quotes q s"
  by (auto simp: double_quotes_def)

lemma scan_quoted_Some:
  "scan_quoted q cs i acc = Some (s, j) \<Longrightarrow>
    i < j \<and> j \<le> length cs \<and> (\<exists>t. s = acc @ t \<and> slice cs i j = double_quotes q t @ [q])"
proof (induction q cs i acc rule: scan_quoted.induct)
  case (1 q cs i acc)
  note scan_quoted.simps [of q cs i acc, simp]
  have i: "i < length cs" using 1(3) by (auto split: if_splits)
  show ?case
  proof (cases "cs ! i = q")
    case False
    with 1(2) [OF _ False] 1(3) i obtain t where
      t: "i + 1 < j" "j \<le> length cs" "s = acc @ [cs ! i] @ t" "slice cs (i + 1) j = double_quotes q t @ [q]"
      by auto
    then show ?thesis using i False by (intro conjI exI [of _ "cs ! i # t"]) (auto simp: slice_step)
  next
    case q: True
    show ?thesis
    proof (cases "get cs (i + 1) = Some q")
      case False
      with q 1(3) i show ?thesis by (auto simp: slice_step)
    next
      case True
      with 1(1) [OF _ q] 1(3) i q obtain t where
        t: "i + 2 < j" "j \<le> length cs" "s = acc @ [q] @ t" "slice cs (i + 2) j = double_quotes q t @ [q]"
        by auto
      moreover have "i + 1 < length cs" "cs ! (i + 1) = q" using True by (auto simp: get_def split: if_splits)
      ultimately show ?thesis using i q
        by (intro conjI exI [of _ "q # t"]) (auto simp: slice_step [of i] slice_step [of "Suc i"])
    qed
  qed
qed

lemma brackets_loop_Some: "brackets_loop cs i depth = Some j \<Longrightarrow> i < j \<and> j \<le> length cs"
proof (induction cs i depth rule: brackets_loop.induct)
  case (1 cs i depth)
  then show ?case
    by (subst (asm) (5) brackets_loop.simps) (auto split: if_splits)
qed

lemma scan_mantissa_bounds:
  "scan_mantissa cs i d p = (j, d') \<Longrightarrow> i \<le> length cs \<Longrightarrow>
    i \<le> j \<and> j \<le> length cs \<and> (d' \<and> \<not> d \<longrightarrow> i < j)"
proof (induction cs i d p rule: scan_mantissa.induct)
  case (1 cs i d p)
  then show ?case
    by (subst (asm) (3) scan_mantissa.simps) (auto split: if_splits)
qed

lemma scan_exponent_bounds: "i \<le> length cs \<Longrightarrow> i \<le> scan_exponent cs i \<and> scan_exponent cs i \<le> length cs"
  using skip_while_bounds(1) [of "i + 1" uchar_digit cs] skip_while_bounds(2) [of "i + 1" cs uchar_digit]
    skip_while_bounds(1) [of "i + 2" uchar_digit cs] skip_while_bounds(2) [of "i + 2" cs uchar_digit]
  by (auto simp: scan_exponent_def get_def Let_def split: if_splits)

text \<open>A slice of the input between character indices never panics.\<close>

lemma lex_slice_eq: "i \<le> j \<Longrightarrow> j \<le> length cs \<Longrightarrow> lex_slice cs i j = Inr (slice cs i j)"
  using byte_slice_mid [of "take i cs" "slice cs i j" "drop j cs"]
    take_slice [of i j cs] utf8_simps(3) [of "take i cs" "slice cs i j"]
  by (simp add: lex_slice_def byte_at_utf8 flip: append.assoc)

lemma consume_brackets_Inr: "consume_balanced_brackets cs i = Inr j \<Longrightarrow> i < j \<and> j \<le> length cs"
  by (auto simp: consume_balanced_brackets_def brackets_loop_Some split: option.splits)

lemma push_token_simps [simp]: "ls_index (push_token cs t j s) = j"
  "ls_trivia (push_token cs t j s) = ls_trivia s"
  "ls_tokens (push_token cs t j s) = ls_tokens s @ [\<lparr>st_token = t, st_span = lex_span cs (ls_index s) j\<rparr>]"
  by (simp_all add: push_token_def)

text \<open>What a token spells in the source.\<close>

fun operator_text :: "'n token \<Rightarrow> ustring" where
  "operator_text TDollar = [36]"
| "operator_text TLParen = [40]"
| "operator_text TRParen = [41]"
| "operator_text TLBrace = [123]"
| "operator_text TRBrace = [125]"
| "operator_text TComma = [44]"
| "operator_text TSemicolon = [59]"
| "operator_text TColon = [58]"
| "operator_text (TTrimColon mode) =
    (case mode of TrimLeading \<Rightarrow> [46, 58] | TrimTrailing \<Rightarrow> [58, 46] | TrimBoth \<Rightarrow> [46, 58, 46])"
| "operator_text TBang = [33]"
| "operator_text TAt = [64]"
| "operator_text THash = [35]"
| "operator_text TAmp = [38]"
| "operator_text TPlus = [43]"
| "operator_text TMinus = [45]"
| "operator_text TStar = [42]"
| "operator_text TSlash = [47]"
| "operator_text TCaret = [94]"
| "operator_text TPercent = [37]"
| "operator_text TEq = [61]"
| "operator_text TNe = [60, 62]"
| "operator_text TLt = [60]"
| "operator_text TLe = [60, 61]"
| "operator_text TGt = [62]"
| "operator_text TGe = [62, 61]"
| "operator_text _ = []"

definition number_value :: "'n std_lib \<Rightarrow> ustring \<Rightarrow> 'n option" where
  "number_value L s = std_parse_f64 L (fifteen_digit_literal s)"

fun spells :: "'n std_lib \<Rightarrow> ustring \<Rightarrow> 'n token \<Rightarrow> bool" where
  "spells L s (TNumber v) = (number_value L s = Some v)"
| "spells L s (TStr t) = (s = [34] @ double_quotes 34 t @ [34])"
| "spells L s (TQuotedSheet t) = (s = [39] @ double_quotes 39 t @ [39])"
| "spells L s (TIdent t) = (s = t)"
| "spells L s (TStructuredRef t) = (s = t)"
| "spells L s (TExternalWorkbook t) = (s = t)"
| "spells L s (TErrorLit kind) =
    (error_kind_parse s = Some kind \<or>
     kind = KNum \<and> (case number_value L s of None \<Rightarrow> False | Some v \<Rightarrow> \<not> std_is_finite L v))"
| "spells L s TIntersection = False"
| "spells L s t = (s = operator_text t)"

definition lexes_token :: "'n std_lib \<Rightarrow> ustring \<Rightarrow> 'n lex_state \<Rightarrow> lex_error failure + 'n lex_state \<Rightarrow> bool" where
  "lexes_token L cs s r \<longleftrightarrow>
    (case r of
      Inr s' \<Rightarrow> \<exists>t j. s' = push_token cs t j s \<and> ls_index s < j \<and> j \<le> length cs \<and>
        spells L (slice cs (ls_index s) j) t
    | Inl e \<Rightarrow> \<exists>a b code. e = lex_fail cs a b code \<and> ls_index s \<le> a \<and> a < b \<and> b \<le> length cs)"

lemma lexes_tokenI:
  "ls_index s < j \<Longrightarrow> j \<le> length cs \<Longrightarrow> spells L (slice cs (ls_index s) j) t \<Longrightarrow>
    lexes_token L cs s (Inr (push_token cs t j s))"
  by (auto simp: lexes_token_def)

lemma lexes_token_fail:
  "ls_index s \<le> a \<Longrightarrow> a < b \<Longrightarrow> b \<le> length cs \<Longrightarrow> lexes_token L cs s (Inl (lex_fail cs a b code))"
  by (auto simp: lexes_token_def)

lemma slice_one: "i < length cs \<Longrightarrow> slice cs i (i + 1) = [cs ! i]"
  by (simp add: slice_step)

lemma slice_two: "i + 1 < length cs \<Longrightarrow> slice cs i (i + 2) = [cs ! i, cs ! (i + 1)]"
  by (simp add: slice_step [of i] slice_step [of "Suc i"])

lemma lex_quoted_token:
  assumes "ls_index s < length cs" "cs ! ls_index s = q"
    "\<And>t. spells L ([q] @ double_quotes q t @ [q]) (token t)"
  shows "lexes_token L cs s (lex_quoted q code token cs s)"
proof (cases "scan_quoted q cs (ls_index s + 1) []")
  case None
  then show ?thesis using assms by (simp add: lex_quoted_def lexes_token_fail)
next
  case (Some r)
  obtain t j where r: "r = (t, j)" by force
  from scan_quoted_Some [OF Some [unfolded r]] have
    "ls_index s + 1 < j" "j \<le> length cs" "slice cs (ls_index s + 1) j = double_quotes q t @ [q]" by auto
  then show ?thesis using Some r assms
    by (auto simp: lex_quoted_def slice_step [of "ls_index s" cs j] intro!: lexes_tokenI lexes_token_fail)
qed

lemma ERROR_LITERALS_known: "literal \<in> set ERROR_LITERALS \<Longrightarrow> error_kind_parse (ascii literal) \<noteq> None \<and> literal \<noteq> []"
  unfolding ERROR_LITERALS_def set_simps
  by (elim insertE emptyE) (simp_all add: error_kind_parse_def error_kind_texts_def ascii_def uchar_upper_def)

lemma eq_ignore_length: "eq_ignore_ascii_case s t \<Longrightarrow> length s = length t"
  unfolding eq_ignore_ascii_case_def by (metis length_map)

lemma length_ascii [simp]: "length (ascii s) = length s"
  by (simp add: ascii_def)

lemma find_set: "find P xs = Some x \<Longrightarrow> x \<in> set xs \<and> P x"
  by (auto simp: find_Some_iff)

lemma lex_hash_token:
  assumes i: "ls_index s < length cs" "cs ! ls_index s = 35"
  shows "lexes_token L cs s (lex_hash L cs s)"
proof (cases "find (\<lambda>literal. eq_ignore_ascii_case (take (length literal) (drop (ls_index s) cs)) (ascii literal)) ERROR_LITERALS")
  case None
  then show ?thesis using i slice_one [of "ls_index s" cs]
    by (auto simp: lex_hash_def Let_def intro!: lexes_tokenI lexes_token_fail split: option.splits)
next
  case (Some literal)
  note f = find_set [OF Some]
  note k = ERROR_LITERALS_known [OF conjunct1 [OF f]]
  let ?t = "take (length literal) (drop (ls_index s) cs)"
  have e: "eq_ignore_ascii_case ?t (ascii literal)" using f by simp
  have "length ?t = length literal" using eq_ignore_length [OF e] by simp
  then have l: "ls_index s + length literal \<le> length cs" using i(1) by auto
  have "error_kind_parse (slice cs (ls_index s) (ls_index s + length literal)) = error_kind_parse (ascii literal)"
    using e by (simp add: slice_def error_kind_parse_def eq_ignore_ascii_case_def)
  then show ?thesis using Some k l
    by (auto simp: lex_hash_def Let_def intro!: lexes_tokenI lexes_token_fail)
qed

lemma lex_number_token:
  assumes i: "ls_index s < length cs"
  shows "lexes_token L cs s (lex_number L cs s)"
proof -
  obtain m d where m: "scan_mantissa cs (ls_index s) False False = (m, d)" by force
  note b = scan_mantissa_bounds [OF m] scan_exponent_bounds [of m cs]
  show ?thesis
  proof (cases d)
    case False
    then show ?thesis using i by (simp add: lex_number_def m Let_def lexes_token_fail)
  next
    case True
    let ?j = "scan_exponent cs m"
    have j: "ls_index s < ?j" "?j \<le> length cs" using b True i by auto
    show ?thesis using j True
      by (auto simp: lex_number_def m Let_def lex_slice_eq less_imp_le number_value_def
          intro!: lexes_tokenI lexes_token_fail split: option.splits)
  qed
qed

lemma consume_brackets_Inl: "consume_balanced_brackets cs i = Inl e \<Longrightarrow> e = lex_fail cs i (length cs) UnterminatedStructuredReference"
  by (auto simp: consume_balanced_brackets_def split: option.splits)

lemma lex_bracket_token:
  assumes "ls_index s < length cs"
  shows "lexes_token L cs s (lex_bracket L cs s)"
proof (cases "consume_balanced_brackets cs (ls_index s)")
  case (Inl e)
  then show ?thesis using assms consume_brackets_Inl [OF Inl] by (simp add: lex_bracket_def lexes_token_fail)
next
  case (Inr j)
  then show ?thesis using consume_brackets_Inr [OF Inr]
    by (auto simp: lex_bracket_def lex_slice_eq intro!: lexes_tokenI lexes_token_fail)
qed

lemma lex_ident_token:
  assumes i: "ls_index s < length cs"
  shows "lexes_token L cs s (lex_ident L cs s)"
proof -
  let ?j = "skip_while (is_ident_continue L) cs (ls_index s + 1)"
  have j: "ls_index s < ?j" "?j \<le> length cs"
    using i skip_while_bounds(1) [of "ls_index s + 1" "is_ident_continue L" cs]
      skip_while_bounds(2) [of "ls_index s + 1" cs "is_ident_continue L"] by auto
  show ?thesis
  proof (cases "consume_balanced_brackets cs ?j")
    case (Inl e)
    then show ?thesis using j consume_brackets_Inl [OF Inl]
      by (auto simp: get_def lex_ident_def Let_def lex_slice_eq less_imp_le intro!: lexes_tokenI lexes_token_fail)
  next
    case (Inr k)
    then show ?thesis using j consume_brackets_Inr [OF Inr]
      by (auto simp: lex_ident_def Let_def lex_slice_eq less_imp_le intro!: lexes_tokenI lexes_token_fail)
  qed
qed

lemma simple_token_text: "simple_token c = Some t \<Longrightarrow> spells L [c] t"
  by (auto simp: simple_token_def split: if_splits)

lemma lex_operator_token:
  assumes "ls_index s < length cs"
  shows "lexes_token L cs s (lex_operator cs s)"
  using assms slice_one [of "ls_index s" cs] slice_two [of "ls_index s" cs]
  by (auto simp: lex_operator_def Let_def get_def simple_token_text
      intro!: lexes_tokenI lexes_token_fail split: option.splits if_splits)

definition advances :: "ustring \<Rightarrow> 'n lex_state \<Rightarrow> lex_error failure + 'n lex_state \<times> bool \<Rightarrow> bool" where
  "advances cs s r = (\<forall>s' checked. r = Inr (s', checked) \<longrightarrow> ls_index s < ls_index s' \<and> ls_index s' \<le> length cs)"

lemma advances_token: "lexes_token L cs s r \<Longrightarrow> advances cs s (with_check r)"
  by (cases r) (auto simp: advances_def with_check_def lexes_token_def)

lemma lex_colon_advances: "ls_index s < length cs \<Longrightarrow> advances cs s (lex_colon L cs s)"
  unfolding lex_colon_def Let_def get_def
  by (rule disjE [of "ls_index s + 1 < length cs" "\<not> ls_index s + 1 < length cs"])
    (auto simp: advances_def res_bind_eq_Inr simp del: length_greater_0_conv split: if_split_asm)

lemma lex_step_cases:
  assumes i: "ls_index s < length cs"
  shows "is_whitespace (cs ! ls_index s) \<and> lex_step L cs s = Inr (lex_trivia cs s, True) \<or>
    cs ! ls_index s = 58 \<and> lex_step L cs s = lex_colon L cs s \<or>
    (\<exists>r. lex_step L cs s = with_check r \<and> lexes_token L cs s r)"
proof -
  let ?c = "cs ! ls_index s"
  note step = lex_step_def [of L cs s, unfolded Let_def]
  note rules = lex_hash_token [OF i, of L] lex_number_token [OF i, of L] lex_bracket_token [OF i, of L]
    lex_ident_token [OF i, of L] lex_operator_token [OF i, of L]
    lex_quoted_token [OF i, of 34 L TStr UnterminatedString]
    lex_quoted_token [OF i, of 39 L TQuotedSheet UnterminatedSheetName]
  define P where "P r \<longleftrightarrow> is_whitespace ?c \<and> r = Inr (lex_trivia cs s, True) \<or> ?c = 58 \<and> r = lex_colon L cs s \<or>
    (\<exists>r'. r = with_check r' \<and> lexes_token L cs s r')" for r
  have token: "lexes_token L cs s r \<Longrightarrow> P (with_check r)" for r by (auto simp: P_def)
  have branch: "(b \<Longrightarrow> P x) \<Longrightarrow> (\<not> b \<Longrightarrow> P y) \<Longrightarrow> P (if b then x else y)" for b x y by simp
  have "P (lex_step L cs s)"
    unfolding step by (intro branch) (use rules in \<open>simp_all add: token\<close>, simp_all add: P_def)
  then show ?thesis by (simp add: P_def)
qed

lemma lex_step_advances:
  assumes i: "ls_index s < length cs"
  shows "advances cs s (lex_step L cs s)"
proof -
  have "advances cs s (Inr (lex_trivia cs s, True))"
    using i skip_while_bounds(1) [of "ls_index s + 1" is_whitespace cs] skip_while_bounds(2) [of "ls_index s + 1" cs is_whitespace]
    by (auto simp: advances_def lex_trivia_def Let_def)
  then show ?thesis
    using lex_step_cases [OF i, of L] lex_colon_advances [OF i, of L] advances_token by metis
qed

section \<open>The lexer\<close>

function lex_loop :: "'n std_lib \<Rightarrow> ustring \<Rightarrow> nat \<Rightarrow> 'n lex_state \<Rightarrow> lex_error failure + 'n lex_state" where
  "lex_loop L cs max_tokens s =
    (if ls_index s < length cs
     then case lex_step L cs s of
         Inl e \<Rightarrow> Inl e
       | Inr (s', checked) \<Rightarrow>
           if checked \<and> length (ls_tokens s') > max_tokens
           then Inl (token_limit_error (byte_at (char_offsets cs) (utf8_len cs) (ls_index s')))
           else lex_loop L cs max_tokens s'
     else Inr s)"
  by pat_completeness auto
termination
  using lex_step_advances
  by (relation "measure (\<lambda>(L, cs, m, s). length cs - ls_index s)") (fastforce simp: advances_def)+

declare lex_loop.simps [simp del]

definition add_semantic :: "'n spanned_token list \<Rightarrow> 'n spanned_token \<Rightarrow> 'n spanned_token list" where
  "add_semantic semantic token =
    (if semantic \<noteq> [] \<and> span_end (st_span (last semantic)) < span_start (st_span token) \<and>
        may_end_reference (st_token (last semantic)) \<and> may_start_reference semantic (st_token token)
     then semantic @ [\<lparr>st_token = TIntersection,
         st_span = span_new (span_end (st_span (last semantic))) (span_start (st_span token))\<rparr>, token]
     else semantic @ [token])"

definition lex_spanned :: "'n std_lib \<Rightarrow> ustring \<Rightarrow> nat \<Rightarrow> lex_error failure + 'n lexed_formula" where
  "lex_spanned L input max_tokens =
    res_bind (lex_loop L input max_tokens \<lparr>ls_tokens = [], ls_trivia = [], ls_index = 0\<rparr>)
      (\<lambda>s. let semantic = foldl add_semantic [] (ls_tokens s)
        in if length semantic > max_tokens then Inl (token_limit_error (utf8_len input))
           else Inr \<lparr>lf_tokens = semantic, lf_trivia_spans = ls_trivia s\<rparr>)"

section \<open>The pieces of the source\<close>

text \<open>A formula as a sequence of texts: a token, or white space.  The spans follow from the lengths.\<close>

fun piece_ok :: "'n std_lib \<Rightarrow> ustring \<times> 'n token option \<Rightarrow> bool" where
  "piece_ok L (s, None) = (s \<noteq> [] \<and> list_all is_whitespace s)"
| "piece_ok L (s, Some t) = (s \<noteq> [] \<and> spells L s t)"

fun piece_tokens :: "nat \<Rightarrow> (ustring \<times> 'n token option) list \<Rightarrow> 'n spanned_token list" where
  "piece_tokens n [] = []"
| "piece_tokens n ((s, None) # ps) = piece_tokens (n + utf8_len s) ps"
| "piece_tokens n ((s, Some t) # ps) =
    \<lparr>st_token = t, st_span = span_new n (n + utf8_len s)\<rparr> # piece_tokens (n + utf8_len s) ps"

fun piece_trivia :: "nat \<Rightarrow> (ustring \<times> 'n token option) list \<Rightarrow> source_span list" where
  "piece_trivia n [] = []"
| "piece_trivia n ((s, None) # ps) = span_new n (n + utf8_len s) # piece_trivia (n + utf8_len s) ps"
| "piece_trivia n ((s, Some t) # ps) = piece_trivia (n + utf8_len s) ps"

fun separated :: "(ustring \<times> 'n token option) list \<Rightarrow> bool" where
  "separated ((s, p) # (s', p') # ps) = (\<not> (p = None \<and> p' = None) \<and> separated ((s', p') # ps))"
| "separated ps = True"

definition pieces_text :: "(ustring \<times> 'n token option) list \<Rightarrow> ustring" where
  "pieces_text ps = concat (map fst ps)"

lemma pieces_text_simps [simp]: "pieces_text [] = []" "pieces_text (p # ps) = fst p @ pieces_text ps"
  "pieces_text (ps @ qs) = pieces_text ps @ pieces_text qs"
  by (simp_all add: pieces_text_def)

lemma piece_tokens_append [simp]:
  "piece_tokens n (ps @ qs) = piece_tokens n ps @ piece_tokens (n + utf8_len (pieces_text ps)) qs"
  by (induction n ps rule: piece_tokens.induct) (auto simp: add.assoc)

lemma piece_trivia_append [simp]:
  "piece_trivia n (ps @ qs) = piece_trivia n ps @ piece_trivia (n + utf8_len (pieces_text ps)) qs"
  by (induction n ps rule: piece_trivia.induct) (auto simp: add.assoc)

lemma separated_snoc: "separated (ps @ [(s, p)]) \<longleftrightarrow> separated ps \<and> \<not> (ps \<noteq> [] \<and> snd (last ps) = None \<and> p = None)"
  by (induction ps rule: separated.induct) auto

definition lex_inv :: "'n std_lib \<Rightarrow> ustring \<Rightarrow> 'n lex_state \<Rightarrow> (ustring \<times> 'n token option) list \<Rightarrow> bool" where
  "lex_inv L cs s ps \<longleftrightarrow>
    ls_index s \<le> length cs \<and> pieces_text ps = take (ls_index s) cs \<and> list_all (piece_ok L) ps \<and>
    ls_tokens s = piece_tokens 0 ps \<and> ls_trivia s = piece_trivia 0 ps \<and> separated ps \<and>
    (ps \<noteq> [] \<and> snd (last ps) = None \<and> ls_index s < length cs \<longrightarrow> \<not> is_whitespace (cs ! ls_index s))"

lemma lex_span_eq:
  "i \<le> j \<Longrightarrow> lex_span cs i j = span_new (utf8_len (take i cs)) (utf8_len (take i cs) + utf8_len (slice cs i j))"
  using take_slice [of i j cs] utf8_simps(3) [of "take i cs" "slice cs i j"]
  by (simp add: lex_span_def byte_at_utf8)

lemma slice_nonempty: "i < j \<Longrightarrow> j \<le> length cs \<Longrightarrow> slice cs i j \<noteq> []"
  by (simp add: slice_def)

lemma push_token_inv:
  assumes "lex_inv L cs s ps" "ls_index s < j" "j \<le> length cs" "spells L (slice cs (ls_index s) j) t"
  shows "lex_inv L cs (push_token cs t j s) (ps @ [(slice cs (ls_index s) j, Some t)])"
  using assms slice_nonempty [of "ls_index s" j cs] take_slice [of "ls_index s" j cs]
  by (simp add: lex_inv_def separated_snoc lex_span_eq)

lemma skip_while_stop: "skip_while p cs i < length cs \<Longrightarrow> \<not> p (cs ! skip_while p cs i)"
  using nth_length_takeWhile [of p "drop i cs"] by (auto simp: skip_while_eq)

lemma lex_trivia_inv:
  assumes inv: "lex_inv L cs s ps" and i: "ls_index s < length cs" and w: "is_whitespace (cs ! ls_index s)"
  shows "\<exists>ps'. lex_inv L cs (lex_trivia cs s) ps'"
proof -
  let ?i = "ls_index s"
  let ?j = "skip_while is_whitespace cs (?i + 1)"
  have j: "?i < ?j" "?j \<le> length cs"
    using i skip_while_bounds(1) [of "?i + 1" is_whitespace cs] skip_while_bounds(2) [of "?i + 1" cs is_whitespace] by auto
  have "list_all is_whitespace (slice cs ?i ?j)"
    using i j w slice_skip_while [of "?i + 1" cs is_whitespace] by (simp add: slice_step)
  then have "lex_inv L cs (lex_trivia cs s) (ps @ [(slice cs ?i ?j, None)])"
    using inv i j w slice_nonempty [of ?i ?j cs] take_slice [of ?i ?j cs] skip_while_stop [of is_whitespace cs "?i + 1"]
    by (auto simp: lex_inv_def separated_snoc lex_span_eq lex_trivia_def Let_def)
  then show ?thesis by blast
qed

lemma shorten_token_spells:
  assumes "shorten_token L input p = Inr (Some t)"
    "byte_slice input (span_start (st_span p)) (span_end (st_span p)) = Some s" "spells L s (st_token p)"
  shows "\<exists>stem. s = stem @ [46] \<and> stem \<noteq> [] \<and> spells L stem t"
  using assms
  by (auto simp: shorten_token_def strip_dot_def number_value_def bind_eq_Some_conv
      split: token.splits if_splits intro!: exI [of _ "butlast s"] dest: append_butlast_last_id)

lemma shorten_token_total:
  "byte_slice input (span_start (st_span p)) (span_end (st_span p)) \<noteq> None \<Longrightarrow> \<exists>r. shorten_token L input p = Inr r"
  by (auto simp: shorten_token_def split: token.splits)

text \<open>When a dot precedes the index, it ends the last token.\<close>

lemma last_piece_dot:
  assumes inv: "lex_inv L cs s ps" and dot: "0 < ls_index s" "cs ! (ls_index s - 1) = 46"
  obtains qs p t where "ps = qs @ [(p, Some t)]" "p \<noteq> []" "spells L p t" "last p = 46"
proof -
  let ?i = "ls_index s"
  have i: "?i \<le> length cs" "pieces_text ps = take ?i cs" and ok: "list_all (piece_ok L) ps"
    using inv by (auto simp: lex_inv_def)
  from i dot(1) have "pieces_text ps \<noteq> []" by auto
  then obtain qs q where ps: "ps = qs @ [q]" by (metis pieces_text_simps(1) rev_exhaust)
  obtain p o' where q: "q = (p, o')" by force
  have p: "p \<noteq> []" using ok ps q by (cases o') auto
  have "last p = last (take ?i cs)"
    using arg_cong [OF i(2), of last] ps q p by (simp add: last_append)
  also have "\<dots> = cs ! (?i - 1)" using i(1) dot(1) by (subst last_conv_nth) (auto simp: min_def)
  finally have l: "last p = 46" using dot(2) by simp
  show thesis
  proof (cases o')
    case None
    then have "is_whitespace (last p)" using ok ps q p by (auto simp: list_all_iff)
    then show thesis using l by (simp add: is_whitespace_def)
  next
    case (Some t)
    then show thesis using that [of qs p t] ok ps q p l by auto
  qed
qed

lemma drop_trailing_dot_inv:
  assumes inv: "lex_inv L cs s ps" and dot: "0 < ls_index s" "cs ! (ls_index s - 1) = 46"
  shows "\<exists>tokens leading. drop_trailing_dot L cs (ls_tokens s) = Inr (tokens, leading) \<and>
    (if leading then \<exists>ps'. lex_inv L cs (s\<lparr>ls_tokens := tokens, ls_index := ls_index s - 1\<rparr>) ps' else tokens = ls_tokens s)"
proof -
  let ?i = "ls_index s"
  obtain qs p t where ps: "ps = qs @ [(p, Some t)]" and p: "p \<noteq> []" "spells L p t" "last p = 46"
    using last_piece_dot [OF inv dot] .
  define n where "n = utf8_len (pieces_text qs)"
  define prev where "prev = \<lparr>st_token = t, st_span = span_new n (n + utf8_len p)\<rparr>"
  have i: "?i \<le> length cs" "pieces_text qs @ p = take ?i cs"
    and tokens: "ls_tokens s = piece_tokens 0 qs @ [prev]"
    using inv ps by (auto simp: lex_inv_def n_def prev_def)
  have "cs = pieces_text qs @ p @ drop ?i cs" using i(2) append_take_drop_id [of ?i cs] by (metis append.assoc)
  then have slice: "byte_slice cs (span_start (st_span prev)) (span_end (st_span prev)) = Some p"
    using byte_slice_mid [of "pieces_text qs" p "drop ?i cs"] by (simp add: prev_def n_def)
  obtain r where r: "shorten_token L cs prev = Inr r" using shorten_token_total [of cs prev L] slice by auto
  show ?thesis
  proof (cases r)
    case None
    then show ?thesis using r tokens by (intro exI [of _ "ls_tokens s"] exI [of _ False]) (simp add: drop_trailing_dot_def)
  next
    case (Some t')
    have "spells L p (st_token prev)" using p by (simp add: prev_def)
    from shorten_token_spells [OF r [unfolded Some] slice this] obtain stem
      where stem: "p = stem @ [46]" "stem \<noteq> []" "spells L stem t'" by blast
    have "length (pieces_text qs @ stem) = ?i - 1" using arg_cong [OF i(2), of length] i(1) stem(1) by simp
    then have stem_text: "pieces_text qs @ stem = take (?i - 1) cs"
      using arg_cong [OF i(2), of "take (?i - 1)"] stem(1) by (simp add: min_def)
    have "lex_inv L cs (s\<lparr>ls_tokens := piece_tokens 0 qs @ [\<lparr>st_token = t', st_span = span_new n (n + utf8_len stem)\<rparr>],
        ls_index := ?i - 1\<rparr>) (qs @ [(stem, Some t')])"
      using inv stem_text stem i(1) by (auto simp: lex_inv_def ps separated_snoc n_def)
    then show ?thesis using r Some tokens stem
      by (simp add: drop_trailing_dot_def prev_def char_utf8_def) blast
  qed
qed

lemma lex_colon_inv:
  assumes inv: "lex_inv L cs s ps" and i: "ls_index s < length cs" and c: "cs ! ls_index s = 58"
  shows "\<exists>s' checked ps'. lex_colon L cs s = Inr (s', checked) \<and> lex_inv L cs s' ps'"
proof -
  let ?i = "ls_index s"
  let ?trailing = "get cs (?i + 1) = Some 46 \<and>
    (case get cs (?i + 2) of None \<Rightarrow> False | Some next \<Rightarrow> is_alphanumeric L next \<or> next = 36)"
  define stop where "stop = ?i + 1 + (if ?trailing then 1 else 0)"
  have stop: "?i < stop" "stop \<le> length cs" using i by (auto simp: stop_def get_def split: if_splits)
  have after: "slice cs ?i stop = (if ?trailing then [58, 46] else [58])"
    using i c slice_one [of ?i cs] slice_two [of ?i cs] by (auto simp: stop_def get_def split: if_splits)
  let ?r = "if 0 < ?i \<and> cs ! (?i - 1) = 46 then drop_trailing_dot L cs (ls_tokens s) else Inr (ls_tokens s, False)"
  obtain tokens leading where r: "?r = Inr (tokens, leading)"
    and l: "if leading then 0 < ?i \<and> cs ! (?i - 1) = 46 \<and>
      (\<exists>ps'. lex_inv L cs (s\<lparr>ls_tokens := tokens, ls_index := ?i - 1\<rparr>) ps') else tokens = ls_tokens s"
  proof (cases "0 < ?i \<and> cs ! (?i - 1) = 46")
    case True
    then obtain tokens leading where "drop_trailing_dot L cs (ls_tokens s) = Inr (tokens, leading)"
      "if leading then \<exists>ps'. lex_inv L cs (s\<lparr>ls_tokens := tokens, ls_index := ?i - 1\<rparr>) ps' else tokens = ls_tokens s"
      using drop_trailing_dot_inv [OF inv] by blast
    then show thesis using that [of tokens leading] True by (cases leading) simp_all
  next
    case False
    then show thesis using that [of "ls_tokens s" False] by auto
  qed
  show ?thesis
  proof (cases leading)
    case True
    then obtain ps' where inv': "lex_inv L cs (s\<lparr>ls_tokens := tokens, ls_index := ?i - 1\<rparr>) ps'"
      and dot: "0 < ?i" "cs ! (?i - 1) = 46" using l by auto
    have lt: "?i - 1 < stop" using stop(1) by simp
    have "slice cs (?i - 1) stop = 46 # slice cs ?i stop"
      using slice_step [of "?i - 1" cs stop] dot i stop by simp
    then show ?thesis
      using lt push_token_inv [OF inv', of stop "TTrimColon (if ?trailing then TrimBoth else TrimLeading)"] stop after r True
      by (cases ?trailing) (auto simp: lex_colon_def Let_def stop_def)
  next
    case False
    then have "tokens = ls_tokens s" "s\<lparr>ls_tokens := tokens, ls_index := ?i\<rparr> = s" using l by simp_all
    then show ?thesis
      using push_token_inv [OF inv, of stop "if ?trailing then TTrimColon TrimTrailing else TColon"] stop after r False
      by (auto simp: lex_colon_def Let_def stop_def split: if_splits)
  qed
qed

definition lex_fails_inside :: "ustring \<Rightarrow> lex_error failure \<Rightarrow> bool" where
  "lex_fails_inside cs e \<longleftrightarrow> (\<exists>a b code. e = lex_fail cs a b code \<and> a < b \<and> b \<le> length cs)"

lemma lex_step_inv:
  assumes inv: "lex_inv L cs s ps" and i: "ls_index s < length cs"
  shows "case lex_step L cs s of Inl e \<Rightarrow> lex_fails_inside cs e | Inr (s', checked) \<Rightarrow> \<exists>ps'. lex_inv L cs s' ps'"
  using lex_step_cases [OF i, of L]
proof (elim disjE exE conjE)
  assume "is_whitespace (cs ! ls_index s)" "lex_step L cs s = Inr (lex_trivia cs s, True)"
  then show ?thesis using lex_trivia_inv [OF inv i] by simp
next
  assume "cs ! ls_index s = 58" "lex_step L cs s = lex_colon L cs s"
  then show ?thesis using lex_colon_inv [OF inv i] by auto
next
  fix r assume "lex_step L cs s = with_check r" "lexes_token L cs s r"
  then show ?thesis using push_token_inv [OF inv]
    by (cases r) (force simp: with_check_def lexes_token_def lex_fails_inside_def)+
qed

lemma lex_loop_inv:
  "lex_inv L cs s ps \<Longrightarrow>
    case lex_loop L cs m s of
      Inl e \<Rightarrow> lex_fails_inside cs e \<or> (\<exists>i\<le>length cs. e = token_limit_error (utf8_len (take i cs)))
    | Inr s' \<Rightarrow> \<exists>ps'. lex_inv L cs s' ps' \<and> ls_index s' = length cs"
proof (induction L cs m s arbitrary: ps rule: lex_loop.induct)
  case (1 L cs m s)
  show ?case
  proof (cases "ls_index s < length cs")
    case False
    then show ?thesis using 1(2) by (subst lex_loop.simps) (auto simp: lex_inv_def)
  next
    case True
    note step = lex_step_inv [OF 1(2) True]
    show ?thesis
    proof (cases "lex_step L cs s")
      case (Inl e)
      then show ?thesis using step True by (subst lex_loop.simps) simp
    next
      case (Inr r)
      obtain s' checked where r: "r = (s', checked)" by force
      obtain ps' where inv: "lex_inv L cs s' ps'" using step Inr r by auto
      then have "ls_index s' \<le> length cs" by (simp add: lex_inv_def)
      then show ?thesis using 1(1) [OF True Inr r [symmetric] _ inv] True Inr r
        by (subst lex_loop.simps) (auto simp: byte_at_utf8)
    qed
  qed
qed

section \<open>Intersections\<close>

definition not_intersection :: "'n spanned_token \<Rightarrow> bool" where
  "not_intersection t \<longleftrightarrow> st_token t \<noteq> TIntersection"

lemma add_semantic_tokens:
  "not_intersection t \<Longrightarrow> filter not_intersection (add_semantic ts t) = filter not_intersection ts @ [t]"
  by (auto simp: add_semantic_def not_intersection_def)

lemma semantic_tokens:
  "list_all not_intersection ts \<Longrightarrow>
    filter not_intersection (foldl add_semantic acc ts) = filter not_intersection acc @ ts"
  by (induction ts arbitrary: acc) (auto simp: add_semantic_tokens)

lemma piece_tokens_not_intersection: "list_all (piece_ok L) ps \<Longrightarrow> list_all not_intersection (piece_tokens n ps)"
  by (induction n ps rule: piece_tokens.induct) (auto simp: not_intersection_def)

lemma first_gap:
  "piece_tokens m ps = y # vs \<Longrightarrow> separated ps \<Longrightarrow> m < span_start (st_span y) \<Longrightarrow>
    span_new m (span_start (st_span y)) \<in> set (piece_trivia m ps)"
proof (induction m ps rule: piece_tokens.induct)
  case (2 n s ps)
  then show ?case by (cases ps rule: separated.cases) auto
qed auto

lemma token_gap:
  "piece_tokens n ps = us @ x # y # vs \<Longrightarrow> separated ps \<Longrightarrow> span_end (st_span x) < span_start (st_span y) \<Longrightarrow>
    span_new (span_end (st_span x)) (span_start (st_span y)) \<in> set (piece_trivia n ps)"
proof (induction n ps arbitrary: us rule: piece_tokens.induct)
  case (2 n s ps)
  then show ?case by (cases ps) auto
next
  case (3 n s t ps)
  have sep: "separated ps" using "3.prems" by (cases ps) auto
  show ?case
  proof (cases us)
    case Nil
    then show ?thesis using 3 sep first_gap [of "n + utf8_len s" ps y vs] by auto
  next
    case (Cons u us')
    then show ?thesis using "3.IH" [of us'] "3.prems" sep by auto
  qed
qed auto

definition intersections_in :: "source_span set \<Rightarrow> 'n spanned_token list \<Rightarrow> bool" where
  "intersections_in spans ts \<longleftrightarrow> (\<forall>t\<in>set ts. st_token t = TIntersection \<longrightarrow> st_span t \<in> spans)"

lemma last_add_semantic [simp]: "last (add_semantic ts t) = t" "add_semantic ts t \<noteq> []"
  by (auto simp: add_semantic_def)

lemma last_semantic: "ts \<noteq> [] \<Longrightarrow> last (foldl add_semantic acc ts) = last ts"
  by (cases ts rule: rev_cases) auto

lemma semantic_intersections:
  assumes "separated ps" "list_all not_intersection ts" "piece_tokens 0 ps = ts @ vs"
  shows "intersections_in (set (piece_trivia 0 ps)) (foldl add_semantic [] ts)"
  using assms(2,3)
proof (induction ts arbitrary: vs rule: rev_induct)
  case Nil
  then show ?case by (simp add: intersections_in_def)
next
  case (snoc t ts)
  have ih: "intersections_in (set (piece_trivia 0 ps)) (foldl add_semantic [] ts)" using snoc by simp
  show ?case
  proof (cases ts rule: rev_cases)
    case Nil
    then show ?thesis using snoc.prems by (auto simp: intersections_in_def add_semantic_def not_intersection_def)
  next
    case (snoc us x)
    have l: "last (foldl add_semantic [] ts) = x" using last_semantic [of ts "[]"] snoc by simp
    have t: "st_token t \<noteq> TIntersection" "piece_tokens 0 ps = us @ x # t # vs"
      using snoc.prems snoc by (simp_all add: not_intersection_def)
    define acc where "acc = foldl add_semantic [] ts"
    have "intersections_in (set (piece_trivia 0 ps)) (add_semantic acc t)"
      using ih t(1) token_gap [OF t(2) assms(1)] l
      by (auto simp: intersections_in_def add_semantic_def simp flip: acc_def)
    then show ?thesis by (simp add: acc_def)
  qed
qed

section \<open>Properties\<close>

text \<open>The source as tokens and white space: what the lexer promises about its result.\<close>

definition decomposes :: "'n std_lib \<Rightarrow> ustring \<Rightarrow> 'n lexed_formula \<Rightarrow> (ustring \<times> 'n token option) list \<Rightarrow> bool" where
  "decomposes L input f ps \<longleftrightarrow>
    pieces_text ps = input \<and> list_all (piece_ok L) ps \<and> separated ps \<and>
    filter not_intersection (lf_tokens f) = piece_tokens 0 ps \<and>
    lf_trivia_spans f = piece_trivia 0 ps \<and>
    intersections_in (set (lf_trivia_spans f)) (lf_tokens f)"

lemma lex_start_inv: "lex_inv L cs \<lparr>ls_tokens = [], ls_trivia = [], ls_index = 0\<rparr> []"
  by (simp add: lex_inv_def)

lemma lex_spanned_pieces:
  assumes "lex_spanned L input max_tokens = Inr f"
  obtains ps where "pieces_text ps = input" "list_all (piece_ok L) ps" "separated ps"
    "lf_tokens f = foldl add_semantic [] (piece_tokens 0 ps)" "lf_trivia_spans f = piece_trivia 0 ps"
proof -
  obtain s where loop: "lex_loop L input max_tokens \<lparr>ls_tokens = [], ls_trivia = [], ls_index = 0\<rparr> = Inr s"
    and f: "f = \<lparr>lf_tokens = foldl add_semantic [] (ls_tokens s), lf_trivia_spans = ls_trivia s\<rparr>"
    using assms by (auto simp: lex_spanned_def res_bind_eq_Inr Let_def split: if_splits)
  obtain ps where "lex_inv L input s ps" "ls_index s = length input"
    using lex_loop_inv [OF lex_start_inv [of L input], of max_tokens] loop by auto
  then show thesis using that [of ps] f by (auto simp: lex_inv_def)
qed

lemma lex_spanned_error:
  assumes "lex_spanned L input max_tokens = Inl e"
  shows "lex_fails_inside input e \<or> (\<exists>i\<le>length input. e = token_limit_error (utf8_len (take i input)))"
  using assms lex_loop_inv [OF lex_start_inv [of L input], of max_tokens]
  by (cases "lex_loop L input max_tokens \<lparr>ls_tokens = [], ls_trivia = [], ls_index = 0\<rparr>")
    (auto simp: lex_spanned_def Let_def split: if_splits)

text \<open>C19: Lexing loses nothing.  When the lexer succeeds, the source is a sequence of texts each of which
is white space or spells one token, white space is never split, the spans of the tokens and of the
white space are the byte positions of these texts in order, and every intersection operator that was
inserted lies exactly on white space.\<close>

theorem lex_lossless:
  assumes "lex_spanned L input max_tokens = Inr f"
  shows "\<exists>ps. decomposes L input f ps"
proof -
  obtain ps where ps: "pieces_text ps = input" "list_all (piece_ok L) ps" "separated ps"
    "lf_tokens f = foldl add_semantic [] (piece_tokens 0 ps)" "lf_trivia_spans f = piece_trivia 0 ps"
    using lex_spanned_pieces [OF assms] .
  note ni = piece_tokens_not_intersection [OF ps(2), of 0]
  have "decomposes L input f ps"
    using ps semantic_tokens [OF ni, of "[]"] semantic_intersections [OF ps(3) ni, of "[]"]
    by (simp add: decomposes_def)
  then show ?thesis by blast
qed

text \<open>C20: The lexer always ends with a result or an error and never panics: slices of the source are cut
at character boundaries, and an error points into the source, at a non-empty stretch of characters
unless it is the token limit.  A result respects the token limit.\<close>

theorem lex_total:
  "case lex_spanned L input max_tokens of
    Inr f \<Rightarrow> length (lf_tokens f) \<le> max_tokens
  | Inl Panic \<Rightarrow> False
  | Inl (Fail e) \<Rightarrow>
      (\<exists>a b. le_span e = span_new (utf8_len (take a input)) (utf8_len (take b input)) \<and>
        a \<le> b \<and> b \<le> length input \<and> (if le_limit e = None then a < b else a = b \<and> le_limit e = Some FormulaTokens))"
proof (cases "lex_spanned L input max_tokens")
  case (Inr f)
  then show ?thesis by (auto simp: lex_spanned_def res_bind_eq_Inr Let_def split: if_splits)
next
  case (Inl e)
  from lex_spanned_error [OF Inl] show ?thesis
  proof (elim disjE exE conjE)
    assume "lex_fails_inside input e"
    then obtain a b code where "e = lex_fail input a b code" "a < b" "b \<le> length input"
      by (auto simp: lex_fails_inside_def)
    then show ?thesis using Inl
      by (simp add: lex_fail_def byte_at_utf8) (metis less_imp_le)
  next
    fix i assume "i \<le> length input" "e = token_limit_error (utf8_len (take i input))"
    then show ?thesis using Inl by (auto simp: token_limit_error_def span_empty_def intro!: exI [of _ i])
  qed
qed

lemma scan_quoted_double:
  "drop i cs = double_quotes q t @ q # rest \<Longrightarrow> rest = [] \<or> hd rest \<noteq> q \<Longrightarrow>
    scan_quoted q cs i acc = Some (acc @ t, length cs - length rest)"
proof (induction t arbitrary: i acc)
  case Nil
  have i: "i < length cs" "cs ! i = q" using Nil by (auto simp: nth_via_drop intro: ccontr)
  then have rest: "drop (i + 1) cs = rest" using Nil by (simp add: Cons_nth_drop_Suc [symmetric])
  have "get cs (i + 1) \<noteq> Some q"
    using rest Nil(2) by (auto simp: get_def hd_drop_conv_nth split: if_splits)
  moreover have "i + 1 = length cs - length rest" using i(1) rest by auto
  ultimately show ?case using i by (subst scan_quoted.simps) simp
next
  case (Cons c t)
  have i: "i < length cs" "cs ! i = c"
    using Cons.prems(1) by (auto simp: nth_via_drop intro: ccontr split: if_splits)
  then have d: "drop (i + 1) cs = (if c = q then [q] else []) @ double_quotes q t @ q # rest"
    using Cons.prems(1) by (auto simp: Cons_nth_drop_Suc [symmetric])
  show ?case
  proof (cases "c = q")
    case False
    then show ?thesis using Cons.IH [of "i + 1" "acc @ [c]"] d i Cons.prems(2) by (subst scan_quoted.simps) simp
  next
    case True
    have n: "i + 1 < length cs" "cs ! (i + 1) = q" using d True by (auto simp: nth_via_drop intro: ccontr)
    then have "drop (i + 2) cs = double_quotes q t @ q # rest" using d True
      by (simp add: Cons_nth_drop_Suc [symmetric])
    then show ?thesis using Cons.IH [of "i + 2" "acc @ [q]"] i n True Cons.prems(2)
      by (subst scan_quoted.simps) (simp add: get_def)
  qed
qed

text \<open>A text literal and a quoted sheet name read back: whatever the text, writing it between quotes
with every quote doubled gives a source that lexes to one token with exactly that text.\<close>

theorem quoted_literal_roundtrip:
  assumes "1 \<le> max_tokens"
  shows "lex_spanned L ([34] @ double_quotes 34 s @ [34]) max_tokens =
      Inr \<lparr>lf_tokens = [\<lparr>st_token = TStr s, st_span = span_new 0 (utf8_len (double_quotes 34 s) + 2)\<rparr>], lf_trivia_spans = []\<rparr> \<and>
    lex_spanned L ([39] @ double_quotes 39 s @ [39]) max_tokens =
      Inr \<lparr>lf_tokens = [\<lparr>st_token = TQuotedSheet s, st_span = span_new 0 (utf8_len (double_quotes 39 s) + 2)\<rparr>], lf_trivia_spans = []\<rparr>"
proof -
  have "lex_spanned L cs max_tokens =
      Inr \<lparr>lf_tokens = [\<lparr>st_token = token s, st_span = span_new 0 (utf8_len cs)\<rparr>], lf_trivia_spans = []\<rparr>"
    if cs: "cs = [q] @ double_quotes q s @ [q]" and q: "q = 34 \<and> token = TStr \<or> q = 39 \<and> token = TQuotedSheet"
    for cs q and token :: "ustring \<Rightarrow> 'a token"
  proof -
    have scan: "scan_quoted q cs 1 [] = Some (s, length cs)"
      using scan_quoted_double [of 1 cs q s "[]" "[]"] cs by simp
    let ?s = "\<lparr>ls_tokens = [], ls_trivia = [], ls_index = 0\<rparr> :: 'a lex_state"
    have "lex_step L cs ?s = Inr (push_token cs (token s) (length cs) ?s, True)"
      using q scan cs by (auto simp: lex_step_def with_check_def lex_quoted_def is_whitespace_def)
    then have "lex_loop L cs max_tokens ?s = Inr (push_token cs (token s) (length cs) ?s)"
      using assms cs by (subst lex_loop.simps) (simp add: lex_loop.simps)
    then show ?thesis using assms
      by (simp add: lex_spanned_def add_semantic_def lex_span_def byte_at_utf8)
  qed
  from this [of _ 34 TStr] this [of _ 39 TQuotedSheet] show ?thesis
    by (simp add: char_utf8_def)
qed

section \<open>Examples\<close>

text \<open>A table of the standard library that knows ASCII letters and reads digits.\<close>

definition ascii_std :: "nat std_lib" where
  "ascii_std = \<lparr>std_alphabetic = uchar_alphabetic, std_numeric = uchar_digit,
    std_parse_f64 = (\<lambda>s. if s \<noteq> [] \<and> list_all uchar_digit s then Some (decimal_value s) else None),
    std_is_finite = (\<lambda>_. True)\<rparr>"

lemmas lex_eval = lex_spanned_def lex_loop.simps lex_step_def lex_trivia_def lex_ident_def lex_slice_eq with_check_def
  skip_while.simps push_token_def lex_span_def byte_at_def char_offsets_def Let_def slice_def char_utf8_def add_semantic_def is_whitespace_def
  is_ident_start_def is_ident_continue_def is_alphanumeric_def uchar_alphabetic_def uchar_digit_def ascii_std_def get_def
  may_start_reference_def

theorem lex_lossless_witness:
  "\<exists>f ps. lex_spanned ascii_std [65, 49, 32, 66, 50] 9 = Inr f \<and>
    map st_token (lf_tokens f) = [TIdent [65, 49], TIntersection, TIdent [66, 50]] \<and>
    decomposes ascii_std [65, 49, 32, 66, 50] f ps"
proof -
  obtain f where f: "lex_spanned ascii_std [65, 49, 32, 66, 50] 9 = Inr f"
    and t: "map st_token (lf_tokens f) = [TIdent [65, 49], TIntersection, TIdent [66, 50]]"
    by (simp add: lex_eval)
  from lex_lossless [OF f] obtain ps where "decomposes ascii_std [65, 49, 32, 66, 50] f ps" by (rule exE)
  with f t show ?thesis by (intro exI [of _ f] exI [of _ ps] conjI)
qed

theorem quoted_literal_roundtrip_witness:
  "lex_spanned ascii_std [34, 97, 34, 34, 34] 1 =
    Inr \<lparr>lf_tokens = [\<lparr>st_token = TStr [97, 34], st_span = span_new 0 5\<rparr>], lf_trivia_spans = []\<rparr>"
  using quoted_literal_roundtrip [of 1 ascii_std "[97, 34]"] by (simp add: char_utf8_def)

end
