(* ===== verification/Parser.thy ===== *)
theory Parser
  imports Expression Lexer
begin

text \<open>
  The formula parser (\<open>calculation/parser.rs\<close>): precedence climbing over the tokens of the lexer, with
  the source of every node recorded in postorder beside the expression.

  The mutable parser is a state that every operation takes and returns; what a formula fixes (the
  source, the tokens and the limits) is the environment.  All recursion goes through
  \<open>Parser::parse_expr\<close>, which counts its depth up to \<open>max_parse_depth\<close>: here it recurs on the depth that
  is left, so that depth is not part of the state, and the other operations take it as an argument.
  The three loops (operators, arguments, array elements) have as fuel the number of tokens, plus one;
  a theorem shows that this is enough.

  The function registry (\<open>calculation/functions\<close>) and the arithmetic of \<open>f64\<close> are parameters.
\<close>

section \<open>State and environment\<close>

datatype parse_stop = ParsePanic | ParseFail parse_error | OutOfFuel

record 'n parse_host =
  ph_std :: "'n std_lib"
  ph_as_u32 :: "'n \<Rightarrow> u32"
  ph_has_fract :: "'n \<Rightarrow> bool"
  ph_of_nat :: "nat \<Rightarrow> 'n"
  ph_builtin_callable :: "ustring \<Rightarrow> ustring option"
  ph_argument_is_callable :: "ustring \<Rightarrow> nat \<Rightarrow> nat \<Rightarrow> bool"
  ph_is_lambda_name :: "ustring \<Rightarrow> bool"

record 'n parse_env =
  pe_host :: "'n parse_host"
  pe_input :: ustring
  pe_tokens :: "'n spanned_token list"
  pe_max_parse_depth :: nat
  pe_max_ast_depth :: nat
  pe_max_ast_nodes :: nat

record parse_state =
  pt_cursor :: nat
  pt_node_sources :: "pending_node_source list"
  pt_pending_trim :: "trim_mode option"

type_synonym 'a parser = "parse_state \<Rightarrow> parse_stop + 'a \<times> parse_state"

definition preturn :: "'a \<Rightarrow> 'a parser" where
  "preturn a s = Inr (a, s)"

definition pfail :: "parse_error \<Rightarrow> 'a parser" where
  "pfail e s = Inl (ParseFail e)"

definition pbind :: "'a parser \<Rightarrow> ('a \<Rightarrow> 'b parser) \<Rightarrow> 'b parser" where
  "pbind m f s = (case m s of Inl e \<Rightarrow> Inl e | Inr (a, s') \<Rightarrow> f a s')"

text \<open>A partial operation that panics where it has no value.\<close>

definition ppanic :: "'a option \<Rightarrow> 'a parser" where
  "ppanic r s = (case r of None \<Rightarrow> Inl ParsePanic | Some a \<Rightarrow> Inr (a, s))"

definition skip_tokens :: "nat \<Rightarrow> unit parser" where
  "skip_tokens n s = Inr ((), s\<lparr>pt_cursor := pt_cursor s + n\<rparr>)"

definition code_error :: "parse_error_code \<Rightarrow> source_span \<Rightarrow> parse_error" where
  "code_error code span = \<lparr>per_code = code, per_span = span, per_limit = None\<rparr>"

definition peek :: "'n parse_env \<Rightarrow> nat \<Rightarrow> parse_state \<Rightarrow> 'n token option" where
  "peek E offset s = map_option st_token (get (pe_tokens E) (pt_cursor s + offset))"

definition span_at :: "'n parse_env \<Rightarrow> nat \<Rightarrow> parse_state \<Rightarrow> source_span" where
  "span_at E offset s =
    (case get (pe_tokens E) (pt_cursor s + offset) of
      Some t \<Rightarrow> st_span t | None \<Rightarrow> span_empty (utf8_len (pe_input E)))"

definition error_at :: "'n parse_env \<Rightarrow> parse_error_code \<Rightarrow> 'a parser" where
  "error_at E code s = Inl (ParseFail (code_error code (span_at E 0 s)))"

definition advance :: "'n parse_env \<Rightarrow> 'n spanned_token option parser" where
  "advance E s =
    (case get (pe_tokens E) (pt_cursor s) of
      Some t \<Rightarrow> Inr (Some t, s\<lparr>pt_cursor := pt_cursor s + 1\<rparr>) | None \<Rightarrow> Inr (None, s))"

definition eat :: "'n parse_env \<Rightarrow> 'n token \<Rightarrow> source_span option parser" where
  "eat E expected s =
    (if peek E 0 s = Some expected then Inr (Some (span_at E 0 s), s\<lparr>pt_cursor := pt_cursor s + 1\<rparr>) else Inr (None, s))"

definition expect :: "'n parse_env \<Rightarrow> 'n token \<Rightarrow> source_span parser" where
  "expect E expected =
    pbind (eat E expected) (\<lambda>r. case r of Some span \<Rightarrow> preturn span | None \<Rightarrow> error_at E UnexpectedToken)"

section \<open>Recording nodes\<close>

abbreviation u64_max :: nat where
  "u64_max \<equiv> 18446744073709551615"

definition saturating_add :: "nat \<Rightarrow> nat \<Rightarrow> nat" where
  "saturating_add a b = min (a + b) u64_max"

text \<open>The nodes and the greatest depth of the last \<open>k\<close> subtrees before \<open>remaining\<close>; \<open>None\<close> when the
recorded nodes do not hold that many.\<close>

fun child_loop :: "nat \<Rightarrow> pending_node_source list \<Rightarrow> nat \<Rightarrow> nat \<Rightarrow> nat \<Rightarrow> (nat \<times> nat) option" where
  "child_loop 0 ns remaining nodes depth = Some (nodes, depth)"
| "child_loop (Suc k) ns remaining nodes depth =
    (if remaining = 0 then None
     else let child = ns ! (remaining - 1)
       in if remaining < pns_subtree_nodes child then None
          else child_loop k ns (remaining - pns_subtree_nodes child)
            (saturating_add nodes (pns_subtree_nodes child)) (max depth (pns_depth child)))"

definition track_node :: "'n parse_env \<Rightarrow> 'n expr \<Rightarrow> source_span \<Rightarrow> source_component list \<Rightarrow> ('n expr \<times> source_span) parser" where
  "track_node E e span components s =
    (if length (pt_node_sources s) \<ge> pe_max_ast_nodes E then Inl (ParseFail (limit_error span FormulaAstNodes))
     else case child_loop (direct_child_count e) (pt_node_sources s) (length (pt_node_sources s)) 0 0 of
         None \<Rightarrow> Inl (ParseFail (code_error UnexpectedToken span))
       | Some (child_nodes, max_child_depth) \<Rightarrow>
           let depth = saturating_add max_child_depth 1
           in if depth > pe_max_ast_depth E then Inl (ParseFail (limit_error span FormulaNestingDepth))
              else Inr ((e, span), s\<lparr>pt_node_sources := pt_node_sources s @
                [\<lparr>pns_span = span, pns_components = components, pns_depth = depth,
                  pns_subtree_nodes = saturating_add child_nodes 1\<rparr>]\<rparr>))"

definition trim_mode_value :: "'n parse_env \<Rightarrow> trim_mode \<Rightarrow> 'n" where
  "trim_mode_value E mode =
    ph_of_nat (pe_host E) (case mode of TrimLeading \<Rightarrow> 1 | TrimTrailing \<Rightarrow> 2 | TrimBoth \<Rightarrow> 3)"

definition TRIM_RANGE :: ustring where
  "TRIM_RANGE = ascii ''TRIMRANGE''"

text \<open>The nodes recorded here are no references, so recording them does not look at the pending trim mode.\<close>

definition trimmed :: "'n parse_env \<Rightarrow> 'n expr \<times> source_span \<Rightarrow> trim_mode \<Rightarrow> ('n expr \<times> source_span) parser" where
  "trimmed E rng mode =
    (let stop = span_empty (span_end (snd rng)); literal = XNumber (trim_mode_value E mode)
     in pbind (track_node E literal stop []) (\<lambda>_.
        pbind (track_node E literal stop []) (\<lambda>_.
        track_node E (XCall TRIM_RANGE [fst rng, literal, literal]) (snd rng) [])))"

definition take_trim :: "trim_mode option parser" where
  "take_trim s = Inr (pt_pending_trim s, s\<lparr>pt_pending_trim := None\<rparr>)"

definition track_with_components ::
  "'n parse_env \<Rightarrow> 'n expr \<Rightarrow> source_span \<Rightarrow> source_component list \<Rightarrow> ('n expr \<times> source_span) parser" where
  "track_with_components E e span components =
    pbind (track_node E e span components) (\<lambda>r.
      case e of
        XRef _ \<Rightarrow> pbind take_trim (\<lambda>m. case m of Some mode \<Rightarrow> trimmed E (e, span) mode | None \<Rightarrow> preturn r)
      | _ \<Rightarrow> preturn r)"

definition track :: "'n parse_env \<Rightarrow> 'n expr \<Rightarrow> source_span \<Rightarrow> ('n expr \<times> source_span) parser" where
  "track E e span = track_with_components E e span []"

definition track_missing :: "'n parse_env \<Rightarrow> source_span \<Rightarrow> unit parser" where
  "track_missing E span = pbind (track E XMissing span) (\<lambda>_. preturn ())"

fun strip_parens :: "'n expr \<Rightarrow> 'n expr parser" where
  "strip_parens (XParen inner) s = strip_parens inner (s\<lparr>pt_node_sources := butlast (pt_node_sources s)\<rparr>)"
| "strip_parens e s = Inr (e, s)"

section \<open>References\<close>

datatype endpoint = EndCell cell_ref | EndColumn col_ref | EndRow row_ref

definition split_cell_ident :: "ustring \<Rightarrow> (ustring \<times> u32 option) option" where
  "split_cell_ident ident =
    (let letters = takeWhile uchar_alphabetic ident; rest = dropWhile uchar_alphabetic ident
     in if letters = [] then None
        else if rest = [] then Some (letters, None)
        else if \<not> list_all uchar_digit rest then None
        else Option.bind (parse_u32 rest)
          (\<lambda>row. if 0 < row \<and> row \<le> EXCEL_MAX_ROWS then Some (letters, Some row) else None))"

definition row_of_number :: "'n parse_env \<Rightarrow> 'n \<Rightarrow> u32 option" where
  "row_of_number E number =
    (let row = ph_as_u32 (pe_host E) number
     in if ph_has_fract (pe_host E) number \<or> row = 0 \<or> row > EXCEL_MAX_ROWS then None else Some row)"

text \<open>The part of an endpoint after its column letters: a row after a dollar sign, or nothing.\<close>

definition parse_column_endpoint ::
  "'n parse_env \<Rightarrow> u32 \<Rightarrow> bool \<Rightarrow> source_span \<Rightarrow> source_span \<Rightarrow> (endpoint \<times> source_span) parser" where
  "parse_column_endpoint E column absolute start ident_span =
    pbind (eat E TDollar) (\<lambda>dollar s.
      case (dollar, peek E 0 s) of
        (Some dollar, Some (TNumber number)) \<Rightarrow>
          (let number_span = span_at E 0 s; s' = s\<lparr>pt_cursor := pt_cursor s + 1\<rparr>
           in case row_of_number E number of
               None \<Rightarrow> Inl (ParseFail (code_error InvalidReference number_span))
             | Some row \<Rightarrow> Inr ((EndCell \<lparr>cr_column = column, cr_row = row, cr_column_absolute = absolute, cr_row_absolute = True\<rparr>,
                 span_merge (span_merge start dollar) number_span), s'))
      | _ \<Rightarrow> Inr ((EndColumn \<lparr>colr_column = column, colr_absolute = absolute\<rparr>, span_merge start ident_span), s))"

definition parse_endpoint :: "'n parse_env \<Rightarrow> (endpoint \<times> source_span) parser" where
  "parse_endpoint E =
    pbind (eat E TDollar) (\<lambda>leading s.
      let start = (case leading of Some span \<Rightarrow> span | None \<Rightarrow> span_at E 0 s); absolute = (leading \<noteq> None)
      in case peek E 0 s of
          Some (TNumber number) \<Rightarrow>
            (case row_of_number E number of
              None \<Rightarrow> error_at E InvalidReference s
            | Some row \<Rightarrow> Inr ((EndRow \<lparr>rowr_row = row, rowr_absolute = absolute\<rparr>, span_merge start (span_at E 0 s)),
                s\<lparr>pt_cursor := pt_cursor s + 1\<rparr>))
        | Some (TIdent ident) \<Rightarrow>
            (case split_cell_ident ident of
              None \<Rightarrow> error_at E InvalidReference s
            | Some (letters, row) \<Rightarrow>
                (case column_number letters of
                  None \<Rightarrow> error_at E InvalidReference s
                | Some column \<Rightarrow>
                    (let ident_span = span_at E 0 s; s' = s\<lparr>pt_cursor := pt_cursor s + 1\<rparr>
                     in case row of
                         Some row \<Rightarrow> Inr ((EndCell \<lparr>cr_column = column, cr_row = row, cr_column_absolute = absolute,
                             cr_row_absolute = False\<rparr>, span_merge start ident_span), s')
                       | None \<Rightarrow> parse_column_endpoint E column absolute start ident_span s')))
        | _ \<Rightarrow> error_at E InvalidReference s)"

fun endpoints_body :: "endpoint \<Rightarrow> endpoint \<Rightarrow> ref_body option" where
  "endpoints_body (EndCell a) (EndCell b) = Some (RefArea a b)"
| "endpoints_body (EndColumn a) (EndColumn b) = Some (RefColumns a b)"
| "endpoints_body (EndRow a) (EndRow b) = Some (RefRows a b)"
| "endpoints_body _ _ = None"

text \<open>After the colon of a reference.\<close>

definition parse_second_endpoint ::
  "'n parse_env \<Rightarrow> endpoint \<Rightarrow> source_span \<Rightarrow> trim_mode option \<Rightarrow> nat \<Rightarrow> (ref_body \<times> source_span) parser" where
  "parse_second_endpoint E first first_span trim colon_cursor s =
    (case parse_endpoint E s of
      Inl stop \<Rightarrow>
        (case (first, stop) of
          (EndCell cell, ParseFail _) \<Rightarrow> Inr ((RefCell cell, first_span), s\<lparr>pt_cursor := colon_cursor\<rparr>)
        | _ \<Rightarrow> Inl stop)
    | Inr ((second, second_span), s') \<Rightarrow>
        (let span = span_merge first_span second_span
         in case endpoints_body first second of
             Some body \<Rightarrow> Inr ((body, span), s'\<lparr>pt_pending_trim := trim\<rparr>)
           | None \<Rightarrow>
               (case first of
                 EndCell cell \<Rightarrow> Inr ((RefCell cell, first_span), s'\<lparr>pt_cursor := colon_cursor\<rparr>)
               | _ \<Rightarrow> Inl (ParseFail (code_error MismatchedRange span)))))"

definition parse_ref_body :: "'n parse_env \<Rightarrow> (ref_body \<times> source_span) parser" where
  "parse_ref_body E s =
    pbind (parse_endpoint E) (\<lambda>(first, first_span) s.
      let colon_cursor = pt_cursor s
      in case peek E 0 s of
          Some (TTrimColon mode) \<Rightarrow>
            parse_second_endpoint E first first_span (Some mode) colon_cursor (s\<lparr>pt_cursor := pt_cursor s + 1\<rparr>)
        | Some TColon \<Rightarrow>
            parse_second_endpoint E first first_span None colon_cursor (s\<lparr>pt_cursor := pt_cursor s + 1\<rparr>)
        | _ \<Rightarrow> (case first of EndCell cell \<Rightarrow> Inr ((RefCell cell, first_span), s) | _ \<Rightarrow> error_at E InvalidReference s))
      (s\<lparr>pt_pending_trim := None\<rparr>)"

text \<open>\<open>if let Ok(..) = self.parse_ref_body()\<close>: after an error the cursor is set back to \<open>snapshot\<close> and the
pending trim mode, which the attempt cleared, stays cleared.\<close>

definition try_ref_body :: "'n parse_env \<Rightarrow> (ref_body \<times> source_span) option parser" where
  "try_ref_body E s =
    (case parse_ref_body E s of
      Inr (r, s') \<Rightarrow> Inr (Some r, s')
    | Inl (ParseFail _) \<Rightarrow> Inr (None, s\<lparr>pt_pending_trim := None\<rparr>)
    | Inl stop \<Rightarrow> Inl stop)"

definition track_reference ::
  "'n parse_env \<Rightarrow> sheet_prefix option \<Rightarrow> ref_body \<Rightarrow> source_span \<Rightarrow> source_component list \<Rightarrow> ('n expr \<times> source_span) parser" where
  "track_reference E sheet body span components =
    track_with_components E (XRef \<lparr>ref_sheet = sheet, ref_body_of = body\<rparr>) span components"

section \<open>Sheet prefixes and other workbooks\<close>

definition peek_sheet_range_end :: "'n parse_env \<Rightarrow> parse_state \<Rightarrow> (ustring \<times> bool \<times> source_span) option" where
  "peek_sheet_range_end E s =
    (if peek E 1 s \<noteq> Some TColon \<or> peek E 3 s \<noteq> Some TBang then None
     else case peek E 2 s of
         Some (TIdent e) \<Rightarrow> Some (e, False, span_at E 2 s)
       | Some (TQuotedSheet e) \<Rightarrow> Some (e, True, span_at E 2 s)
       | _ \<Rightarrow> None)"

definition starts_quoted :: "ustring \<Rightarrow> nat" where
  "starts_quoted source = (if source \<noteq> [] \<and> hd source = 39 then 1 else 0)"

definition ends_quoted :: "ustring \<Rightarrow> nat" where
  "ends_quoted source = (if source \<noteq> [] \<and> last source = 39 then 1 else 0)"

text \<open>\<open>str::find\<close> and \<open>str::rfind\<close> of one character, as byte offsets, and \<open>str::split_once\<close>.\<close>

definition find_char :: "uchar \<Rightarrow> ustring \<Rightarrow> nat option" where
  "find_char c s = (if c \<in> set s then Some (utf8_len (takeWhile (\<lambda>x. x \<noteq> c) s)) else None)"

definition split_once :: "uchar \<Rightarrow> ustring \<Rightarrow> (ustring \<times> ustring) option" where
  "split_once c s = (if c \<in> set s then Some (takeWhile (\<lambda>x. x \<noteq> c) s, tl (dropWhile (\<lambda>x. x \<noteq> c) s)) else None)"

definition rsplit_after :: "uchar \<Rightarrow> ustring \<Rightarrow> (ustring \<times> ustring) option" where
  "rsplit_after c s =
    (if c \<in> set s then Some (rev (dropWhile (\<lambda>x. x \<noteq> c) (rev s)), rev (takeWhile (\<lambda>x. x \<noteq> c) (rev s))) else None)"

definition quoted_sheet_prefix_components :: "'n parse_env \<Rightarrow> source_span \<Rightarrow> source_component list option" where
  "quoted_sheet_prefix_components E span =
    Option.bind (byte_slice (pe_input E) (span_start span) (span_end span)) (\<lambda>source.
      let inner_start = span_start span + starts_quoted source; inner_end = span_end span - ends_quoted source
      in map_option (\<lambda>inner. case find_char 58 inner of
          Some colon \<Rightarrow>
            [component_new SheetQualifier (span_new inner_start (inner_start + colon)),
             component_new SheetRangeEnd (span_new (inner_start + colon + 1) inner_end)]
        | None \<Rightarrow> [component_new SheetQualifier (span_new inner_start inner_end)])
        (byte_slice (pe_input E) inner_start inner_end))"

definition sheet_token_content_span :: "source_span \<Rightarrow> bool \<Rightarrow> source_span" where
  "sheet_token_content_span span quoted =
    (if quoted then span_new (span_start span + 1) (span_end span - 1) else span)"

definition quoted_external_prefix_components :: "'n parse_env \<Rightarrow> source_span \<Rightarrow> source_component list option" where
  "quoted_external_prefix_components E span =
    Option.bind (byte_slice (pe_input E) (span_start span) (span_end span)) (\<lambda>source.
      let inner_start = starts_quoted source
      in Option.bind (byte_slice source inner_start (utf8_len source - ends_quoted source)) (\<lambda>inner.
        Some (case rsplit_after 93 inner of
          None \<Rightarrow> [component_new ExternalWorkbook span]
        | Some (workbook, sheet) \<Rightarrow>
            let base = span_start span + inner_start; sheet_start = base + utf8_len workbook;
              stop = base + utf8_len inner; book = component_new ExternalWorkbook (span_new base sheet_start)
            in if sheet = [] then [book]
               else case find_char 58 sheet of
                   Some colon \<Rightarrow>
                     [book, component_new ExternalSheet (span_new sheet_start (sheet_start + colon)),
                      component_new ExternalSheetRangeEnd (span_new (sheet_start + colon + 1) stop)]
                 | None \<Rightarrow> [book, component_new ExternalSheet (span_new sheet_start stop)])))"

definition parse_qualified_target ::
  "'n parse_env \<Rightarrow> sheet_prefix \<Rightarrow> source_span \<Rightarrow> source_component list \<Rightarrow> ('n expr \<times> source_span) parser" where
  "parse_qualified_target E sheet start components =
    pbind (try_ref_body E) (\<lambda>r.
      case r of
        Some (body, body_span) \<Rightarrow>
          track_reference E (Some sheet) body (span_merge start body_span) (components @ [component_new ReferenceBody body_span])
      | None \<Rightarrow> (\<lambda>s.
          if peek E 0 s = Some (TErrorLit KRef)
          then track_with_components E (XErrorLit KRef) (span_merge start (span_at E 0 s)) components
            (s\<lparr>pt_cursor := pt_cursor s + 1\<rparr>)
          else case peek E 0 s of
              Some (TIdent name) \<Rightarrow>
                track_with_components E (XQualifiedName sheet name) (span_merge start (span_at E 0 s))
                  (components @ [component_new DefinedName (span_at E 0 s)]) (s\<lparr>pt_cursor := pt_cursor s + 1\<rparr>)
            | _ \<Rightarrow> Inl (ParseFail (code_error InvalidReference (span_at E 0 s)))))"

text \<open>The sheet of an external reference whose workbook is written before it.\<close>

definition external_sheet ::
  "'n parse_env \<Rightarrow> (ustring option \<times> ustring option \<times> bool \<times> source_component list) parser" where
  "external_sheet E s =
    (case (peek E 0 s, peek E 1 s, peek E 2 s, peek E 3 s) of
      (Some (TIdent name), Some TColon, Some (TIdent end_name), Some TBang) \<Rightarrow>
        Inr ((Some name, Some end_name, False,
          [component_new ExternalSheet (span_at E 0 s), component_new ExternalSheetRangeEnd (span_at E 2 s)]),
          s\<lparr>pt_cursor := pt_cursor s + 3\<rparr>)
    | (Some (TIdent name), Some TBang, _, _) \<Rightarrow>
        Inr ((Some name, None, False, [component_new ExternalSheet (span_at E 0 s)]), s\<lparr>pt_cursor := pt_cursor s + 1\<rparr>)
    | (Some (TQuotedSheet name), Some TBang, _, _) \<Rightarrow>
        (let content = span_new (span_start (span_at E 0 s) + 1) (span_end (span_at E 0 s) - 1);
             s' = s\<lparr>pt_cursor := pt_cursor s + 1\<rparr>
         in case split_once 58 name of
             Some (first, lst) \<Rightarrow>
               (case byte_slice (pe_input E) (span_start content) (span_end content) of
                 None \<Rightarrow> Inl ParsePanic
               | Some source \<Rightarrow>
                   let colon = (case find_char 58 source of Some colon \<Rightarrow> colon | None \<Rightarrow> utf8_len source)
                   in Inr ((Some first, Some lst, True,
                      [component_new ExternalSheet (span_new (span_start content) (span_start content + colon)),
                       component_new ExternalSheetRangeEnd (span_new (span_start content + colon + 1) (span_end content))]), s'))
           | None \<Rightarrow> Inr ((Some name, None, True, [component_new ExternalSheet content]), s'))
    | _ \<Rightarrow> Inr ((None, None, False, []), s))"

definition parse_structured :: "ustring \<Rightarrow> source_span \<Rightarrow> (structured_reference \<times> source_component list) parser" where
  "parse_structured raw span =
    (case parse_structured_reference raw of
      Inl _ \<Rightarrow> pfail (code_error InvalidStructuredReference span)
    | Inr p \<Rightarrow> preturn (pst_reference p, map (component_shifted (span_start span)) (pst_components p)))"

text \<open>What an external reference refers to in its workbook.\<close>

definition external_target ::
  "'n parse_env \<Rightarrow> (external_reference_target \<times> source_span \<times> source_component list) parser" where
  "external_target E =
    pbind (try_ref_body E) (\<lambda>r.
      case r of
        Some (body, span) \<Rightarrow> preturn (TargetReference body, span, [component_new ReferenceBody span])
      | None \<Rightarrow> (\<lambda>s. let invalid_span = span_at E 0 s in
          pbind (advance E) (\<lambda>t.
            case t of
              Some t \<Rightarrow>
                (let span = st_span t
                 in case st_token t of
                     TIdent name \<Rightarrow> preturn (TargetDefinedName name, span, [component_new DefinedName span])
                   | TStructuredRef raw \<Rightarrow>
                       pbind (parse_structured raw span) (\<lambda>(reference, cs).
                         if sr_table reference = None then pfail (code_error InvalidExternalReference span)
                         else preturn (TargetStructured reference, span, cs))
                   | _ \<Rightarrow> pfail (code_error InvalidExternalReference invalid_span))
            | None \<Rightarrow> pfail (code_error InvalidExternalReference invalid_span)) s))"

definition parse_external ::
  "'n parse_env \<Rightarrow> ustring \<Rightarrow> ustring option \<Rightarrow> ustring option \<Rightarrow> bool \<Rightarrow> bool \<Rightarrow> source_span \<Rightarrow> ('n expr \<times> source_span) parser" where
  "parse_external E workbook supplied_sheet supplied_sheet_end supplied_sheet_quoted quoted start =
    pbind (if quoted then ppanic (quoted_external_prefix_components E start)
        else preturn [component_new ExternalWorkbook start]) (\<lambda>components.
    pbind (if supplied_sheet \<noteq> None then preturn (supplied_sheet, supplied_sheet_end, supplied_sheet_quoted, [])
        else external_sheet E) (\<lambda>(sheet, sheet_end, sheet_quoted, sheet_components).
    pbind (if quoted then preturn () else pbind (expect E TBang) (\<lambda>_. preturn ())) (\<lambda>_.
    pbind (external_target E) (\<lambda>(target, stop, target_components).
      track_with_components E
        (XExternal \<lparr>ext_workbook = workbook, ext_sheet = sheet, ext_sheet_end = sheet_end, ext_sheet_quoted = sheet_quoted,
          ext_quoted = quoted, ext_target = target\<rparr>)
        (span_merge start stop) (components @ sheet_components @ target_components)))))"

text \<open>A sheet name in quotes, which may hold the workbook and a second sheet.\<close>

definition parse_quoted_prefix :: "'n parse_env \<Rightarrow> ustring \<Rightarrow> source_span \<Rightarrow> ('n expr \<times> source_span) parser" where
  "parse_quoted_prefix E name start s =
    (case peek_sheet_range_end E s of
      Some (end_name, end_quoted, end_sheet_span) \<Rightarrow>
        pbind (skip_tokens 4) (\<lambda>_. pbind (parse_ref_body E) (\<lambda>(body, body_span).
          pbind (ppanic (quoted_sheet_prefix_components E start)) (\<lambda>components.
            track_reference E (Some \<lparr>sp_name = name, sp_end_name = Some end_name, sp_quoted = True\<rparr>) body
              (span_merge start body_span)
              (components @ [component_new SheetRangeEnd (sheet_token_content_span end_sheet_span end_quoted),
                component_new ReferenceBody body_span])))) s
    | None \<Rightarrow>
        pbind (skip_tokens 1) (\<lambda>_. pbind (expect E TBang) (\<lambda>_.
          case rsplit_after 93 name of
            Some (workbook, sheet) \<Rightarrow>
              (case split_once 58 sheet of
                Some (first, lst) \<Rightarrow> parse_external E workbook (Some first) (Some lst) False True start
              | None \<Rightarrow> parse_external E workbook (if sheet \<noteq> [] then Some sheet else None) None False True start)
          | None \<Rightarrow>
              pbind (ppanic (quoted_sheet_prefix_components E start)) (\<lambda>components.
                case split_once 58 name of
                  Some (first, lst) \<Rightarrow>
                    parse_qualified_target E \<lparr>sp_name = first, sp_end_name = Some lst, sp_quoted = True\<rparr> start components
                | None \<Rightarrow>
                    parse_qualified_target E \<lparr>sp_name = name, sp_end_name = None, sp_quoted = True\<rparr> start components))) s)"

section \<open>Expressions\<close>

text \<open>Binding power and whether unions are allowed.\<close>

type_synonym 'n parse_rec = "nat \<Rightarrow> bool \<Rightarrow> ('n expr \<times> source_span) parser"

definition fuel_of :: "'n parse_env \<Rightarrow> nat" where
  "fuel_of E = length (pe_tokens E) + 1"

fun call_args_loop ::
  "'n parse_env \<Rightarrow> 'n parse_rec \<Rightarrow> nat \<Rightarrow> 'n expr list \<Rightarrow> ('n expr list \<times> source_span) parser" where
  "call_args_loop E parse_expr 0 args s = Inl OutOfFuel"
| "call_args_loop E parse_expr (Suc fuel) args s =
    pbind (eat E TComma) (\<lambda>comma.
      case comma of
        Some span \<Rightarrow> pbind (track_missing E span) (\<lambda>_. call_args_loop E parse_expr fuel (args @ [XMissing]))
      | None \<Rightarrow>
          pbind (eat E TRParen) (\<lambda>close.
            case close of
              Some stop \<Rightarrow> pbind (track_missing E stop) (\<lambda>_. preturn (args @ [XMissing], stop))
            | None \<Rightarrow>
                pbind (parse_expr 0 False) (\<lambda>(arg, _).
                pbind (eat E TComma) (\<lambda>comma.
                  case comma of
                    Some _ \<Rightarrow> call_args_loop E parse_expr fuel (args @ [arg])
                  | None \<Rightarrow> pbind (expect E TRParen) (\<lambda>stop. preturn (args @ [arg], stop)))))) s"

definition parse_call_args :: "'n parse_env \<Rightarrow> 'n parse_rec \<Rightarrow> ('n expr list \<times> source_span) parser" where
  "parse_call_args E parse_expr =
    pbind (eat E TRParen) (\<lambda>close.
      case close of Some stop \<Rightarrow> preturn ([], stop) | None \<Rightarrow> call_args_loop E parse_expr (fuel_of E) [])"

fun array_loop ::
  "'n parse_env \<Rightarrow> 'n parse_rec \<Rightarrow> source_span \<Rightarrow> nat \<Rightarrow> 'n expr list list \<Rightarrow> 'n expr list \<Rightarrow> ('n expr \<times> source_span) parser" where
  "array_loop E parse_expr start 0 rows current s = Inl OutOfFuel"
| "array_loop E parse_expr start (Suc fuel) rows current s =
    pbind (parse_expr 0 False) (\<lambda>(element, _).
    pbind (advance E) (\<lambda>t.
      case t of
        None \<Rightarrow> error_at E UnexpectedToken
      | Some t \<Rightarrow>
          (case st_token t of
            TComma \<Rightarrow> array_loop E parse_expr start fuel rows (current @ [element])
          | TSemicolon \<Rightarrow> array_loop E parse_expr start fuel (rows @ [current @ [element]]) []
          | TRBrace \<Rightarrow> track E (XArray (rows @ [current @ [element]])) (span_merge start (st_span t))
          | _ \<Rightarrow> pfail (code_error UnexpectedToken (st_span t))))) s"

definition parse_array_literal :: "'n parse_env \<Rightarrow> 'n parse_rec \<Rightarrow> ('n expr \<times> source_span) parser" where
  "parse_array_literal E parse_expr =
    pbind (expect E TLBrace) (\<lambda>start. array_loop E parse_expr start (fuel_of E) [] [])"

text \<open>\<open>functions/mod.rs\<close>: the storage prefixes before the name of a built-in callable.\<close>

definition strip_prefix_text :: "string \<Rightarrow> ustring \<Rightarrow> ustring option" where
  "strip_prefix_text p s = (if take (length p) s = ascii p then Some (drop (length p) s) else None)"

lemma strip_prefix_shorter: "strip_prefix_text (c # p) s = Some t \<Longrightarrow> length t < length s"
  by (cases s) (auto simp: strip_prefix_text_def ascii_def split: if_splits)

function strip_storage_prefixes :: "ustring \<Rightarrow> ustring" where
  "strip_storage_prefixes spelling =
    (case strip_prefix_text ''_XLFN.'' spelling of
      Some stripped \<Rightarrow> strip_storage_prefixes stripped
    | None \<Rightarrow>
        (case strip_prefix_text ''_XLUDF.'' spelling of
          Some stripped \<Rightarrow> strip_storage_prefixes stripped
        | None \<Rightarrow>
            (case strip_prefix_text ''_XLWS.'' spelling of
              Some stripped \<Rightarrow> strip_storage_prefixes stripped
            | None \<Rightarrow> spelling)))"
  by pat_completeness auto
termination by (relation "measure length") (auto dest: strip_prefix_shorter)

declare strip_storage_prefixes.simps [simp del]

definition storage_builtin_callable :: "'n parse_env \<Rightarrow> ustring \<Rightarrow> ustring option" where
  "storage_builtin_callable E name =
    Option.bind (strip_prefix_text ''_XLETA.'' (strip_storage_prefixes (map uchar_upper name)))
      (ph_builtin_callable (pe_host E))"

definition normalize_arguments :: "'n parse_env \<Rightarrow> ustring \<Rightarrow> 'n expr list \<Rightarrow> 'n expr list" where
  "normalize_arguments E name args =
    map (\<lambda>(i, arg). if ph_argument_is_callable (pe_host E) name i (length args)
        then normalize_callable_argument (ph_builtin_callable (pe_host E)) arg else arg)
      (enumerate 0 args)"

text \<open>A call by name, after its opening parenthesis.\<close>

definition is_spill :: "'n expr \<Rightarrow> bool" where
  "is_spill e = (case e of XSpillRef _ \<Rightarrow> True | _ \<Rightarrow> False)"

definition parse_call ::
  "'n parse_env \<Rightarrow> 'n parse_rec \<Rightarrow> ustring \<Rightarrow> source_span \<Rightarrow> ('n expr \<times> source_span) parser" where
  "parse_call E parse_expr ident start =
    pbind (parse_call_args E parse_expr) (\<lambda>(args, stop).
      let span = span_merge start stop
      in if eq_ignore_ascii_case ident (ascii ''_xlfn.SINGLE'') \<and> length args = 1
         then pbind (strip_parens (hd args)) (\<lambda>operand. track E (XImplicit operand) span)
         else if eq_ignore_ascii_case ident (ascii ''_xlfn.ANCHORARRAY'') \<and> length args = 1
         then pbind (strip_parens (hd args)) (\<lambda>anchor.
           if is_spill anchor \<or> \<not> can_be_reference_expression anchor then pfail (code_error UnexpectedToken start)
           else track E (XSpillRef anchor) span)
         else track E (XCall ident (normalize_arguments E ident args)) span)"

definition parse_ident ::
  "'n parse_env \<Rightarrow> 'n parse_rec \<Rightarrow> ustring \<Rightarrow> source_span \<Rightarrow> ('n expr \<times> source_span) parser" where
  "parse_ident E parse_expr ident start s =
    (if peek E 1 s = Some TBang
     then pbind (skip_tokens 2) (\<lambda>_. parse_qualified_target E
         \<lparr>sp_name = ident, sp_end_name = None, sp_quoted = False\<rparr> start [component_new SheetQualifier start]) s
     else case peek_sheet_range_end E s of
       Some (end_name, end_quoted, end_sheet_span) \<Rightarrow>
         pbind (skip_tokens 4) (\<lambda>_. pbind (parse_ref_body E) (\<lambda>(body, body_span).
           track_reference E (Some \<lparr>sp_name = ident, sp_end_name = Some end_name, sp_quoted = end_quoted\<rparr>) body
             (span_merge start body_span)
             [component_new SheetQualifier start,
              component_new SheetRangeEnd (sheet_token_content_span end_sheet_span end_quoted),
              component_new ReferenceBody body_span])) s
     | None \<Rightarrow>
         (case storage_builtin_callable E ident of
           Some callable \<Rightarrow> pbind (skip_tokens 1) (\<lambda>_. track E (XBuiltin callable) start) s
         | None \<Rightarrow>
             if peek E 1 s = Some TLParen
             then pbind (skip_tokens 2) (\<lambda>_. parse_call E parse_expr ident start) s
             else pbind (try_ref_body E) (\<lambda>r.
               case r of
                 Some (body, span) \<Rightarrow> track_reference E None body span [component_new ReferenceBody span]
               | None \<Rightarrow> pbind (skip_tokens 1) (\<lambda>_.
                   if eq_ignore_ascii_case ident (ascii ''TRUE'') then track E (XLogical True) start
                   else if eq_ignore_ascii_case ident (ascii ''FALSE'') then track E (XLogical False) start
                   else track_with_components E (XName ident) start [component_new DefinedName start])) s))"

definition is_colon :: "'n token option \<Rightarrow> bool" where
  "is_colon t = (case t of Some TColon \<Rightarrow> True | Some (TTrimColon _) \<Rightarrow> True | _ \<Rightarrow> False)"

definition parse_plain_reference :: "'n parse_env \<Rightarrow> ('n expr \<times> source_span) parser" where
  "parse_plain_reference E =
    pbind (parse_ref_body E) (\<lambda>(body, span). track_reference E None body span [component_new ReferenceBody span])"

definition parse_primary :: "'n parse_env \<Rightarrow> 'n parse_rec \<Rightarrow> ('n expr \<times> source_span) parser" where
  "parse_primary E parse_expr s =
    (case get (pe_tokens E) (pt_cursor s) of
      None \<Rightarrow> error_at E UnexpectedEnd s
    | Some current \<Rightarrow>
        (let span = st_span current
         in case st_token current of
             TNumber number \<Rightarrow>
               if is_colon (peek E 1 s) \<and>
                 (case peek E 2 s of Some (TNumber _) \<Rightarrow> True | Some TDollar \<Rightarrow> True | _ \<Rightarrow> False)
               then parse_plain_reference E s
               else pbind (skip_tokens 1) (\<lambda>_. track E (XNumber number) span) s
           | TStr t \<Rightarrow> pbind (skip_tokens 1) (\<lambda>_. track E (XText t) span) s
           | TErrorLit kind \<Rightarrow> pbind (skip_tokens 1) (\<lambda>_. track E (XErrorLit kind) span) s
           | TStructuredRef raw \<Rightarrow>
               pbind (skip_tokens 1) (\<lambda>_. pbind (parse_structured raw span) (\<lambda>(reference, components).
                 track_with_components E (XStructuredRef reference) span components)) s
           | TExternalWorkbook workbook \<Rightarrow>
               pbind (skip_tokens 1) (\<lambda>_. parse_external E workbook None None False False span) s
           | TLParen \<Rightarrow>
               pbind (skip_tokens 1) (\<lambda>_. pbind (parse_expr 0 True) (\<lambda>(inner, _).
                 pbind (expect E TRParen) (\<lambda>stop. track E (XParen inner) (span_merge span stop)))) s
           | TLBrace \<Rightarrow> parse_array_literal E parse_expr s
           | TQuotedSheet name \<Rightarrow> parse_quoted_prefix E name span s
           | TDollar \<Rightarrow> parse_plain_reference E s
           | TIdent ident \<Rightarrow> parse_ident E parse_expr ident span s
           | _ \<Rightarrow> error_at E UnexpectedToken s))"

definition parse_prefix :: "'n parse_env \<Rightarrow> 'n parse_rec \<Rightarrow> bool \<Rightarrow> ('n expr \<times> source_span) parser" where
  "parse_prefix E parse_expr allow_union s =
    (let operator = (\<lambda>build. pbind (skip_tokens 1) (\<lambda>_. pbind (parse_expr 61 allow_union)
        (\<lambda>(operand, operand_span). track E (build operand) (span_merge (span_at E 0 s) operand_span))) s)
     in case peek E 0 s of
         Some TMinus \<Rightarrow> operator (XUnary OpNegate)
       | Some TPlus \<Rightarrow> operator (XUnary OpPlus)
       | Some TAt \<Rightarrow> operator XImplicit
       | _ \<Rightarrow> parse_primary E parse_expr s)"

section \<open>Operators\<close>

fun binary_operator :: "'n token \<Rightarrow> (binary_op \<times> nat) option" where
  "binary_operator TEq = Some (OpEq, 10)"
| "binary_operator TNe = Some (OpNe, 10)"
| "binary_operator TLt = Some (OpLt, 10)"
| "binary_operator TLe = Some (OpLe, 10)"
| "binary_operator TGt = Some (OpGt, 10)"
| "binary_operator TGe = Some (OpGe, 10)"
| "binary_operator TAmp = Some (OpConcat, 20)"
| "binary_operator TPlus = Some (OpAdd, 30)"
| "binary_operator TMinus = Some (OpSubtract, 30)"
| "binary_operator TStar = Some (OpMultiply, 40)"
| "binary_operator TSlash = Some (OpDivide, 40)"
| "binary_operator TCaret = Some (OpPower, 50)"
| "binary_operator _ = None"

text \<open>A reference operator: both operands must be able to be references.\<close>

definition reference_operator ::
  "'n parse_env \<Rightarrow> 'n parse_rec \<Rightarrow> nat \<Rightarrow> bool \<Rightarrow> ('n expr \<Rightarrow> 'n expr \<Rightarrow> 'n expr) \<Rightarrow> 'n expr \<times> source_span
    \<Rightarrow> ('n expr \<times> source_span) parser" where
  "reference_operator E parse_expr bp allow_union build left s =
    (let operator = span_at E 0 s
     in pbind (skip_tokens 1) (\<lambda>_. pbind (parse_expr bp allow_union) (\<lambda>right.
        if \<not> can_be_reference_expression (fst left) \<or> \<not> can_be_reference_expression (fst right)
        then pfail (code_error UnexpectedToken operator)
        else track E (build (fst left) (fst right)) (span_merge (snd left) (snd right)))) s)"

text \<open>One turn of the loop over the operators after an operand: \<open>None\<close> leaves the loop.\<close>

definition operator_step ::
  "'n parse_env \<Rightarrow> 'n parse_rec \<Rightarrow> nat \<Rightarrow> bool \<Rightarrow> 'n expr \<times> source_span \<Rightarrow> ('n expr \<times> source_span) option parser" where
  "operator_step E parse_expr min_bp allow_union left s =
    (let continue = (\<lambda>m. pbind m (\<lambda>r. preturn (Some r))); t = peek E 0 s
     in if t = Some THash \<and> 90 \<ge> min_bp
        then continue (pbind (expect E THash) (\<lambda>stop.
          if \<not> can_be_reference_expression (fst left) then pfail (code_error UnexpectedToken stop)
          else pbind (strip_parens (fst left)) (\<lambda>anchor.
            if is_spill anchor then pfail (code_error UnexpectedToken stop)
            else track E (XSpillRef anchor) (span_merge (snd left) stop)))) s
        else if t = Some TPercent \<and> 60 \<ge> min_bp
        then continue (pbind (expect E TPercent) (\<lambda>stop.
          track E (XUnary OpPercent (fst left)) (span_merge (snd left) stop))) s
        else if t = Some TLParen \<and> 90 \<ge> min_bp
        then if \<not> can_be_postfix_invoked (ph_is_lambda_name (pe_host E)) (fst left) then preturn None s
          else continue (pbind (skip_tokens 1) (\<lambda>_. pbind (parse_call_args E parse_expr) (\<lambda>(args, stop).
            track E (XInvoke (fst left) args) (span_merge (snd left) stop)))) s
        else if is_colon t \<and> 80 \<ge> min_bp
        then continue (pbind (reference_operator E parse_expr 81 allow_union XRange left) (\<lambda>r.
          case t of Some (TTrimColon mode) \<Rightarrow> trimmed E r mode | _ \<Rightarrow> preturn r)) s
        else if t = Some TIntersection \<and> 75 \<ge> min_bp
        then continue (reference_operator E parse_expr 76 allow_union XIntersection left) s
        else if allow_union \<and> t = Some TComma \<and> 65 \<ge> min_bp
        then continue (reference_operator E parse_expr 66 True XUnion left) s
        else case Option.bind t binary_operator of
            None \<Rightarrow> preturn None s
          | Some (op, bp) \<Rightarrow>
              if bp < min_bp then preturn None s
              else continue (pbind (skip_tokens 1) (\<lambda>_. pbind (parse_expr (bp + 1) allow_union) (\<lambda>right.
                track E (XBinary op (fst left) (fst right)) (span_merge (snd left) (snd right))))) s)"

fun operator_loop ::
  "'n parse_env \<Rightarrow> 'n parse_rec \<Rightarrow> nat \<Rightarrow> nat \<Rightarrow> bool \<Rightarrow> 'n expr \<times> source_span \<Rightarrow> ('n expr \<times> source_span) parser" where
  "operator_loop E parse_expr 0 min_bp allow_union left s = Inl OutOfFuel"
| "operator_loop E parse_expr (Suc fuel) min_bp allow_union left s =
    pbind (operator_step E parse_expr min_bp allow_union left) (\<lambda>r.
      case r of None \<Rightarrow> preturn left | Some left' \<Rightarrow> operator_loop E parse_expr fuel min_bp allow_union left') s"

definition parse_expr_inner :: "'n parse_env \<Rightarrow> 'n parse_rec \<Rightarrow> 'n parse_rec" where
  "parse_expr_inner E parse_expr min_bp allow_union =
    pbind (parse_prefix E parse_expr allow_union) (\<lambda>left.
      operator_loop E parse_expr (fuel_of E) min_bp allow_union left)"

text \<open>The first argument is the depth that is left: \<open>max_parse_depth - parse_depth\<close>.\<close>

primrec parse_expr :: "'n parse_env \<Rightarrow> nat \<Rightarrow> 'n parse_rec" where
  "parse_expr E 0 = (\<lambda>min_bp allow_union s. Inl (ParseFail (limit_error (span_at E 0 s) FormulaNestingDepth)))"
| "parse_expr E (Suc depth) = parse_expr_inner E (parse_expr E depth)"

section \<open>Formulas\<close>

record calculation_limits =
  max_formula_tokens :: nat
  max_formula_source_bytes :: nat
  max_formula_ast_nodes :: nat
  max_formula_nesting_depth :: nat

definition SAFE_FORMULA_NESTING_DEPTH :: nat where
  "SAFE_FORMULA_NESTING_DEPTH = 256"

record 'n parsed_formula =
  pf_original :: ustring
  pf_root :: "'n expr"
  pf_token_spans :: "source_span list"
  pf_trivia_spans :: "source_span list"
  pf_node_tree :: node_span_tree

definition lex_parse_stop :: "lex_error failure \<Rightarrow> parse_stop" where
  "lex_parse_stop e =
    (case e of Panic \<Rightarrow> ParsePanic
     | Fail e \<Rightarrow> ParseFail \<lparr>per_code = le_code e, per_span = le_span e, per_limit = le_limit e\<rparr>)"

definition formula_env :: "'n parse_host \<Rightarrow> calculation_limits \<Rightarrow> ustring \<Rightarrow> 'n spanned_token list \<Rightarrow> 'n parse_env" where
  "formula_env H limits input tokens =
    (let depth = min (max_formula_nesting_depth limits) SAFE_FORMULA_NESTING_DEPTH
     in \<lparr>pe_host = H, pe_input = input, pe_tokens = tokens, pe_max_parse_depth = depth, pe_max_ast_depth = depth,
         pe_max_ast_nodes = max_formula_ast_nodes limits\<rparr>)"

text \<open>The whole expression, with the sign before it merged into the span of its root.\<close>

definition parse_root :: "'n parse_env \<Rightarrow> ('n expr \<times> source_span) parser" where
  "parse_root E =
    pbind (eat E TPlus) (\<lambda>prefix.
    pbind (parse_expr E (pe_max_parse_depth E) 0 True) (\<lambda>(root, span) s.
      case prefix of
        None \<Rightarrow> Inr ((root, span), s)
      | Some prefix_span \<Rightarrow>
          let span' = span_merge prefix_span span; ns = pt_node_sources s
          in Inr ((root, span'), s\<lparr>pt_node_sources :=
               (if ns = [] then ns else butlast ns @ [(last ns)\<lparr>pns_span := span'\<rparr>])\<rparr>)))"

definition parse_formula_with_limits ::
  "'n parse_host \<Rightarrow> ustring \<Rightarrow> calculation_limits \<Rightarrow> parse_stop + 'n parsed_formula" where
  "parse_formula_with_limits H input limits =
    (if utf8_len input > max_formula_source_bytes limits
     then Inl (ParseFail (limit_error (span_new 0 (utf8_len input)) FormulaSourceBytes))
     else case lex_spanned (ph_std H) input (max_formula_tokens limits) of
         Inl e \<Rightarrow> Inl (lex_parse_stop e)
       | Inr lexed \<Rightarrow>
           let E = formula_env H limits input (lf_tokens lexed)
           in res_bind (parse_root E \<lparr>pt_cursor = 0, pt_node_sources = [], pt_pending_trim = None\<rparr>) (\<lambda>((root, span), s).
             if pt_cursor s \<noteq> length (pe_tokens E) then Inl (ParseFail (code_error UnexpectedToken (span_at E 0 s)))
             else case validate_ast_limits (max_formula_ast_nodes limits) (max_formula_nesting_depth limits) root span of
                 Some e \<Rightarrow> Inl (ParseFail e)
               | None \<Rightarrow>
                   (case from_postorder root (rev (pt_node_sources s)) of
                     None \<Rightarrow> Inl (ParseFail (code_error UnexpectedToken span))
                   | Some (tree, rest) \<Rightarrow>
                       if rest \<noteq> [] then Inl (ParseFail (code_error UnexpectedToken span))
                       else Inr \<lparr>pf_original = input, pf_root = root, pf_token_spans = map st_span (lf_tokens lexed),
                              pf_trivia_spans = lf_trivia_spans lexed, pf_node_tree = tree\<rparr>)))"

end
