(* ===== verification/Parser_Laws.thy ===== *)
theory Parser_Laws
  imports Parser
begin

text \<open>
  What the formula parser guarantees: it never panics and its fuel is enough, and the nodes it records
  beside an expression are exactly the nodes of that expression in postorder, each with its depth, the
  size of its subtree and a span that contains the spans of its subexpressions.
\<close>

section \<open>Results of parsers\<close>

text \<open>An operation ends with an ordinary error, or with a result and a state that satisfy \<open>Q\<close>.\<close>

definition ok_parse :: "parse_stop + 'a \<times> parse_state \<Rightarrow> ('a \<Rightarrow> parse_state \<Rightarrow> bool) \<Rightarrow> bool" where
  "ok_parse r Q = (case r of Inl stop \<Rightarrow> \<exists>e. stop = ParseFail e | Inr (a, s) \<Rightarrow> Q a s)"

lemma ok_bind:
  assumes "ok_parse (m s) R" "\<And>a s'. R a s' \<Longrightarrow> ok_parse (f a s') Q"
  shows "ok_parse (pbind m f s) Q"
proof (cases "m s")
  case (Inl stop)
  then show ?thesis using assms(1) by (simp add: ok_parse_def pbind_def)
next
  case (Inr r)
  then show ?thesis using assms(1) assms(2) [of "fst r" "snd r"] by (cases r) (simp add: ok_parse_def pbind_def)
qed

lemma ok_weaken: "ok_parse r R \<Longrightarrow> (\<And>a s. R a s \<Longrightarrow> Q a s) \<Longrightarrow> ok_parse r Q"
  by (auto simp: ok_parse_def split: sum.splits)

lemma ok_simps [simp]: "ok_parse (Inl (ParseFail e)) Q" "ok_parse (Inr (a, s)) Q = Q a s"
  "ok_parse (preturn a s) Q = Q a s" "ok_parse (pfail e s) Q" "ok_parse (error_at E code s) Q'"
  "ok_parse (skip_tokens n s) R = R () (s\<lparr>pt_cursor := pt_cursor s + n\<rparr>)"
  by (simp_all add: ok_parse_def preturn_def pfail_def error_at_def skip_tokens_def)

lemma ok_skip: "ok_parse (f () (s\<lparr>pt_cursor := pt_cursor s + n\<rparr>)) Q \<Longrightarrow> ok_parse (pbind (skip_tokens n) f s) Q"
  by (rule ok_bind [of _ _ "\<lambda>_ s'. s' = s\<lparr>pt_cursor := pt_cursor s + n\<rparr>"]) auto

section \<open>Spans\<close>

definition within :: "source_span \<Rightarrow> source_span \<Rightarrow> bool" where
  "within a b \<longleftrightarrow> span_start b \<le> span_start a \<and> span_start a \<le> span_end a \<and> span_end a \<le> span_end b"

lemma within_trans: "within a b \<Longrightarrow> within b c \<Longrightarrow> within a c"
  by (auto simp: within_def)

lemma within_refl: "span_start a \<le> span_end a \<Longrightarrow> within a a"
  by (simp add: within_def)

definition tok_span :: "'n parse_env \<Rightarrow> nat \<Rightarrow> source_span" where
  "tok_span E i = st_span (pe_tokens E ! i)"

text \<open>The tokens of a lexed formula: in order, with the text of a quoted sheet name at its span.\<close>

definition ordered_tokens :: "'n spanned_token list \<Rightarrow> bool" where
  "ordered_tokens ts \<longleftrightarrow>
    (\<forall>t\<in>set ts. span_start (st_span t) \<le> span_end (st_span t)) \<and>
    sorted_wrt (\<lambda>t u. span_end (st_span t) \<le> span_start (st_span u)) ts"

definition quoted_tokens :: "ustring \<Rightarrow> 'n spanned_token list \<Rightarrow> bool" where
  "quoted_tokens input ts \<longleftrightarrow>
    (\<forall>t\<in>set ts. \<forall>name. st_token t = TQuotedSheet name \<longrightarrow>
      byte_slice input (span_start (st_span t)) (span_end (st_span t)) = Some ([39] @ double_quotes 39 name @ [39]))"

text \<open>A stretch of the source: not empty, and cut at the boundaries of characters.\<close>

definition is_char_boundary :: "ustring \<Rightarrow> nat \<Rightarrow> bool" where
  "is_char_boundary s n \<longleftrightarrow> byte_drop n s \<noteq> None"

definition stretch :: "ustring \<Rightarrow> source_span \<Rightarrow> bool" where
  "stretch s span \<longleftrightarrow>
    span_start span < span_end span \<and> is_char_boundary s (span_start span) \<and> is_char_boundary s (span_end span)"

lemma stretch_merge: "stretch s a \<Longrightarrow> stretch s b \<Longrightarrow> stretch s (span_merge a b)"
  by (auto simp: stretch_def span_merge_def)

lemma stretch_le: "stretch s a \<Longrightarrow> span_start a \<le> span_end a"
  by (simp add: stretch_def)

definition env_ok :: "'n parse_env \<Rightarrow> bool" where
  "env_ok E \<longleftrightarrow> pe_max_ast_nodes E \<le> u64_max \<and> ordered_tokens (pe_tokens E) \<and> quoted_tokens (pe_input E) (pe_tokens E) \<and>
    (\<forall>t\<in>set (pe_tokens E). stretch (pe_input E) (st_span t))"

text \<open>A span that lies in the tokens from \<open>c\<close> up to but not including \<open>c'\<close>.\<close>

definition in_range :: "'n parse_env \<Rightarrow> nat \<Rightarrow> nat \<Rightarrow> source_span \<Rightarrow> bool" where
  "in_range E c c' span \<longleftrightarrow> c < c' \<and> c' \<le> length (pe_tokens E) \<and>
    span_start (tok_span E c) \<le> span_start span \<and> span_start span \<le> span_end span \<and>
    span_end span \<le> span_end (tok_span E (c' - 1))"

definition in_tokens :: "'n parse_env \<Rightarrow> nat \<Rightarrow> nat \<Rightarrow> source_span \<Rightarrow> bool" where
  "in_tokens E c c' span \<longleftrightarrow> in_range E c c' span \<and> stretch (pe_input E) span"

lemmas in_tokens_defs = in_tokens_def in_range_def

lemma tok_stretch: "env_ok E \<Longrightarrow> i < length (pe_tokens E) \<Longrightarrow> stretch (pe_input E) (tok_span E i)"
  by (simp add: env_ok_def tok_span_def)

lemma tok_order:
  assumes "env_ok E" "i < j" "j < length (pe_tokens E)"
  shows "span_end (tok_span E i) \<le> span_start (tok_span E j)"
  using assms by (auto simp: env_ok_def ordered_tokens_def tok_span_def sorted_wrt_iff_nth_less)

lemma tok_ordered: "env_ok E \<Longrightarrow> i < length (pe_tokens E) \<Longrightarrow> span_start (tok_span E i) \<le> span_end (tok_span E i)"
  by (simp add: env_ok_def ordered_tokens_def tok_span_def)

lemma tok_start_mono:
  "env_ok E \<Longrightarrow> i \<le> j \<Longrightarrow> j < length (pe_tokens E) \<Longrightarrow> span_start (tok_span E i) \<le> span_start (tok_span E j)"
  using tok_order [of E i j] tok_ordered [of E i] by (cases "i = j") auto

lemma tok_end_mono:
  "env_ok E \<Longrightarrow> i \<le> j \<Longrightarrow> j < length (pe_tokens E) \<Longrightarrow> span_end (tok_span E i) \<le> span_end (tok_span E j)"
  using tok_order [of E i j] tok_ordered [of E j] by (cases "i = j") auto

lemma in_range_mono:
  assumes "env_ok E" "in_range E c c' span" "d \<le> c" "c' \<le> d'" "d' \<le> length (pe_tokens E)"
  shows "in_range E d d' span"
proof -
  have "c < c'" "c' - 1 \<le> d' - 1" "d' - 1 < length (pe_tokens E)" "c < length (pe_tokens E)"
    using assms by (auto simp: in_range_def)
  then show ?thesis
    using assms tok_start_mono [of E d c] tok_end_mono [of E "c' - 1" "d' - 1"] unfolding in_range_def by auto
qed

lemma in_tokens_mono:
  "env_ok E \<Longrightarrow> in_tokens E c c' span \<Longrightarrow> d \<le> c \<Longrightarrow> c' \<le> d' \<Longrightarrow> d' \<le> length (pe_tokens E) \<Longrightarrow> in_tokens E d d' span"
  unfolding in_tokens_def by (blast intro: in_range_mono)

lemma in_tokens_one: "env_ok E \<Longrightarrow> c < length (pe_tokens E) \<Longrightarrow> in_tokens E c (Suc c) (tok_span E c)"
  by (simp add: in_tokens_defs tok_ordered tok_stretch)

lemma in_tokens_merge:
  "in_tokens E c c' a \<Longrightarrow> in_tokens E c c' b \<Longrightarrow> in_tokens E c c' (span_merge a b)"
  using stretch_merge [of "pe_input E" a b] by (auto simp: in_tokens_defs span_merge_def)

lemma in_tokens_join:
  assumes "env_ok E" "in_tokens E c c1 a" "in_tokens E d c2 b" "c \<le> d" "c1 \<le> c2"
  shows "in_tokens E c c2 (span_merge a b)"
proof (rule in_tokens_merge)
  have "c2 \<le> length (pe_tokens E)" using assms(3) by (simp add: in_tokens_defs)
  then show "in_tokens E c c2 a" "in_tokens E c c2 b"
    using assms in_tokens_mono [OF assms(1,2), of c c2] in_tokens_mono [OF assms(1,3), of c c2] by auto
qed

lemma merge_within: "span_start a \<le> span_end a \<Longrightarrow> within a (span_merge a b)"
  "span_start b \<le> span_end b \<Longrightarrow> within b (span_merge a b)"
  by (auto simp: within_def span_merge_def)

text \<open>What lies between the first and the last token of a construct lies within its span.\<close>

lemma between_within:
  assumes "env_ok E" "in_tokens E c c' span" "a < c" "c' \<le> b" "b < length (pe_tokens E)"
  shows "within span (span_merge (tok_span E a) (tok_span E b))"
proof -
  have c: "c < c'" "c' - 1 \<le> b" "c < length (pe_tokens E)" "a \<le> c" using assms by (auto simp: in_tokens_defs)
  show ?thesis
    using assms c tok_start_mono [OF assms(1) c(4,3)] tok_end_mono [OF assms(1) c(2) assms(5)]
    by (simp add: in_tokens_defs within_def span_merge_def)
qed

section \<open>Recorded nodes\<close>

text \<open>The text of a reference is recorded for the references the formula writes out.\<close>

fun has_body :: "'n expr \<Rightarrow> bool" where
  "has_body (XRef _) = True"
| "has_body (XExternal r) = (case ext_target r of TargetReference _ \<Rightarrow> True | _ \<Rightarrow> False)"
| "has_body _ = False"

definition parts_ok :: "ustring \<Rightarrow> source_span \<Rightarrow> source_component list \<Rightarrow> bool" where
  "parts_ok input span cs \<longleftrightarrow>
    (\<forall>c\<in>set cs. sc_kind c = ReferenceBody \<longrightarrow> stretch input (sc_span c) \<and> within (sc_span c) span)"

definition bodies_ok :: "ustring \<Rightarrow> 'n expr \<Rightarrow> source_span \<Rightarrow> source_component list \<Rightarrow> bool" where
  "bodies_ok input e span cs \<longleftrightarrow>
    (has_body e \<longrightarrow> parts_ok input span cs)"

text \<open>A node of the source map: only the literals that stand for a trim mode have no text.\<close>

definition node_ok :: "ustring \<Rightarrow> 'n expr \<Rightarrow> source_span \<Rightarrow> source_component list \<Rightarrow> bool" where
  "node_ok input e span cs \<longleftrightarrow>
    span_start span \<le> span_end span \<and> (stretch input span \<or> (\<exists>n. e = XNumber n)) \<and> bodies_ok input e span cs"

definition in_order :: "source_span list \<Rightarrow> bool" where
  "in_order spans \<longleftrightarrow> sorted_wrt (\<lambda>a b. span_end a \<le> span_start b) spans"

inductive sourced :: "ustring \<Rightarrow> 'n expr \<Rightarrow> pending_node_source list \<Rightarrow> bool" for input where
  "list_all2 (sourced input) (children e) xss \<Longrightarrow>
    \<forall>xs\<in>set xss. within (pns_span (last xs)) (pns_span r) \<Longrightarrow>
    in_order (map (pns_span \<circ> last) xss) \<Longrightarrow>
    node_ok input e (pns_span r) (pns_components r) \<Longrightarrow>
    pns_depth r = expr_depth e \<Longrightarrow> pns_subtree_nodes r = expr_nodes e \<Longrightarrow> sourced input e (concat xss @ [r])"
monos list.rel_mono

lemma sourced_length: "sourced input e xs \<Longrightarrow> length xs = expr_nodes e"
proof (induction rule: sourced.induct)
  case (1 e xss r)
  have "map length xss = map expr_nodes (children e)"
    using 1(1) by (auto simp: list_eq_iff_nth_eq list_all2_conv_all_nth)
  then show ?case by (subst expr_nodes.simps) (simp add: length_concat)
qed

lemma sourced_last:
  assumes "sourced input e xs"
  shows "xs \<noteq> []" "pns_depth (last xs) = expr_depth e" "pns_subtree_nodes (last xs) = expr_nodes e"
    "span_start (pns_span (last xs)) \<le> span_end (pns_span (last xs))"
  using assms by (auto simp: node_ok_def elim: sourced.cases)

lemma fold_max: "fold max (map f xs) (m :: nat) = max m (fold max (map f xs) 0)"
proof -
  have "fold max ys n = max n (fold max ys 0)" for ys and n :: nat
  proof (induction ys arbitrary: n)
    case (Cons y ys)
    show ?case using Cons [of "max y n"] Cons [of "max y 0"] by (simp add: max.assoc max.left_commute max.commute)
  qed simp
  then show ?thesis .
qed

lemma fold_max_le_sum:
  "(\<And>x. x \<in> set xs \<Longrightarrow> f x \<le> g x) \<Longrightarrow> fold max (map f xs) 0 \<le> sum_list (map g xs)" for g :: "'a \<Rightarrow> nat"
proof (induction xs)
  case (Cons x xs)
  have "fold max (map f xs) (max (f x) 0) = max (f x) (fold max (map f xs) 0)" using fold_max [of f xs "f x"] by simp
  then show ?case using Cons(1) Cons(2) [of x] Cons(2) by (simp add: trans_le_add1 trans_le_add2)
qed simp

lemma expr_depth_le: "expr_depth e \<le> expr_nodes e"
proof (induction e rule: expr_depth.induct)
  case (1 e)
  then show ?case
    using fold_max_le_sum [of "children e" expr_depth expr_nodes] by (simp add: expr_depth.simps [of e] expr_nodes.simps [of e])
qed

lemma sourced_list_length: "list_all2 (sourced input) es xss \<Longrightarrow> sum_list (map expr_nodes es) = length (concat xss)"
  by (induction rule: list_all2_induct) (auto dest: sourced_length)

lemma child_loop_sourced:
  assumes "list_all2 (sourced input) es xss" "nodes + length (concat xss) \<le> u64_max"
  shows "child_loop (length es) (ns @ concat xss @ tail) (length ns + length (concat xss)) nodes depth =
    Some (nodes + sum_list (map expr_nodes es), max depth (fold max (map expr_depth es) 0))"
  using assms
proof (induction es arbitrary: xss tail nodes depth rule: rev_induct)
  case Nil
  then show ?case by simp
next
  case (snoc e es)
  obtain yss xs where xss: "xss = yss @ [xs]" and yss: "list_all2 (sourced input) es yss" and xs: "sourced input e xs"
    using snoc.prems(1) by (auto simp: list_all2_append1 list_all2_Cons1)
  note l = sourced_last [OF xs] sourced_length [OF xs]
  let ?ns = "ns @ concat (yss @ [xs]) @ tail"
  have at: "?ns ! (length ns + length (concat (yss @ [xs])) - 1) = last xs"
    using l(1) by (cases xs rule: rev_cases) (auto simp: nth_append)
  have "nodes + expr_nodes e + length (concat yss) \<le> u64_max" using snoc.prems(2) l xss by simp
  from snoc.IH [OF yss this, of "xs @ tail" "max depth (expr_depth e)"]
  show ?case using xss at l snoc.prems(2) nodes_children(3) [of e]
    by (simp add: Let_def saturating_add_def max.assoc max.commute fold_max [of _ _ "expr_depth e"] max.left_commute)
qed

text \<open>The nodes recorded since \<open>ns0\<close> are those of the expressions \<open>es\<close>, in order within the span and before
the offset \<open>m\<close>.\<close>

definition built ::
  "ustring \<Rightarrow> pending_node_source list \<Rightarrow> 'n expr list \<Rightarrow> source_span \<Rightarrow> nat \<Rightarrow> parse_state \<Rightarrow> bool" where
  "built input ns0 es span m s \<longleftrightarrow>
    (\<exists>xss. pt_node_sources s = ns0 @ concat xss \<and> list_all2 (sourced input) es xss \<and>
      in_order (map (pns_span \<circ> last) xss) \<and>
      (\<forall>xs\<in>set xss. within (pns_span (last xs)) span \<and> span_end (pns_span (last xs)) \<le> m))"

text \<open>The result of parsing one expression: its nodes are recorded, the last of them with its span, and it
lies in the tokens it has consumed.\<close>

definition node_post ::
  "'n parse_env \<Rightarrow> nat \<Rightarrow> pending_node_source list \<Rightarrow> 'n expr \<times> source_span \<Rightarrow> parse_state \<Rightarrow> bool" where
  "node_post E c ns r s \<longleftrightarrow>
    in_tokens E c (pt_cursor s) (snd r) \<and>
    (\<exists>xs. pt_node_sources s = ns @ xs \<and> sourced (pe_input E) (fst r) xs \<and> pns_span (last xs) = snd r) \<and>
    length (pt_node_sources s) \<le> pe_max_ast_nodes E \<and> expr_depth (fst r) \<le> pe_max_ast_depth E"

lemma built_nil [simp]: "built input ns0 [] span m s \<longleftrightarrow> pt_node_sources s = ns0"
  by (auto simp: built_def in_order_def)

lemma in_order_append:
  "in_order as \<Longrightarrow> in_order bs \<Longrightarrow> (\<And>a b. a \<in> set as \<Longrightarrow> b \<in> set bs \<Longrightarrow> span_end a \<le> span_start b) \<Longrightarrow> in_order (as @ bs)"
  by (simp add: in_order_def sorted_wrt_append)

lemma in_order_one [simp]: "in_order [a]" "in_order []"
  by (simp_all add: in_order_def)

lemma built_snoc:
  assumes "built input ns0 es span m s" "pt_node_sources s' = pt_node_sources s @ xs" "sourced input e xs" "within (pns_span (last xs)) span"
    "m \<le> span_start (pns_span (last xs))"
  shows "built input ns0 (es @ [e]) span (span_end (pns_span (last xs))) s'"
proof -
  obtain xss where x: "pt_node_sources s = ns0 @ concat xss" "list_all2 (sourced input) es xss" "in_order (map (pns_span \<circ> last) xss)"
    "\<forall>xs\<in>set xss. within (pns_span (last xs)) span \<and> span_end (pns_span (last xs)) \<le> m"
    using assms(1) by (auto simp: built_def)
  have "span_end (pns_span (last ys)) \<le> span_start (pns_span (last xs))" if "ys \<in> set xss" for ys
    using that x(4) assms(5) order_trans by blast
  then have "in_order (map (pns_span \<circ> last) (xss @ [xs]))" using x(3) by (auto intro!: in_order_append)
  moreover have "\<forall>ys\<in>set (xss @ [xs]). within (pns_span (last ys)) span \<and> span_end (pns_span (last ys)) \<le> span_end (pns_span (last xs))"
    using x(4) assms(4,5) sourced_last(4) [OF assms(3)] by auto
  ultimately show ?thesis using x(1,2) assms(2,3) unfolding built_def
    by (intro exI [of _ "xss @ [xs]"]) (auto intro: list_all2_appendI)
qed

lemma built_state: "pt_node_sources s' = pt_node_sources s \<Longrightarrow> built input ns0 es span m s' = built input ns0 es span m s"
  by (simp add: built_def)

lemma built_add:
  assumes "built (pe_input E) ns0 es span m s" "node_post E c (pt_node_sources s) r s'" "within (snd r) span" "m \<le> span_start (snd r)"
  shows "built (pe_input E) ns0 (es @ [fst r]) span (span_end (snd r)) s'"
  using built_snoc [OF assms(1), of s' _ "fst r"] assms(2-4) by (auto simp: node_post_def)

lemma node_post_built: "node_post E c ns r s \<Longrightarrow> within (snd r) span \<Longrightarrow> built (pe_input E) ns [fst r] span (span_end (snd r)) s"
  unfolding node_post_def built_def by (elim conjE exE, rule_tac x = "[xs]" in exI) simp

text \<open>Recording a node records exactly it.\<close>

lemma track_node_records:
  assumes E: "env_ok E" and b: "built (pe_input E) ns0 (children e) span m s" and n: "node_ok (pe_input E) e span cs"
  shows "ok_parse (track_node E e span cs s) (\<lambda>r s'. r = (e, span) \<and> pt_cursor s' = pt_cursor s \<and>
    (\<exists>xs. pt_node_sources s' = ns0 @ xs \<and> sourced (pe_input E) e xs \<and> pns_span (last xs) = span) \<and>
    length (pt_node_sources s') \<le> pe_max_ast_nodes E \<and> expr_depth e \<le> pe_max_ast_depth E)"
proof (cases "length (pt_node_sources s) \<ge> pe_max_ast_nodes E")
  case True
  then show ?thesis by (simp add: track_node_def)
next
  case False
  obtain xss where x: "pt_node_sources s = ns0 @ concat xss" "list_all2 (sourced (pe_input E)) (children e) xss"
    "\<forall>xs\<in>set xss. within (pns_span (last xs)) span" "in_order (map (pns_span \<circ> last) xss)" using b by (auto simp: built_def)
  have big: "length (concat xss) < u64_max" using False E x(1) by (auto simp: env_ok_def)
  have cl: "child_loop (direct_child_count e) (pt_node_sources s) (length (pt_node_sources s)) 0 0 =
      Some (sum_list (map expr_nodes (children e)), fold max (map expr_depth (children e)) 0)"
    using child_loop_sourced [OF x(2), of 0 ns0 "[]" 0] big x(1) by (simp add: direct_child_count)
  have nodes: "sum_list (map expr_nodes (children e)) = length (concat xss)"
    by (rule sourced_list_length [OF x(2)])
  have depth: "fold max (map expr_depth (children e)) 0 \<le> length (concat xss)"
    unfolding nodes [symmetric] by (rule fold_max_le_sum) (rule expr_depth_le)
  define r where "r = \<lparr>pns_span = span, pns_components = cs,
    pns_depth = saturating_add (fold max (map expr_depth (children e)) 0) 1,
    pns_subtree_nodes = saturating_add (sum_list (map expr_nodes (children e))) 1\<rparr>"
  have "pns_depth r = expr_depth e" "pns_subtree_nodes r = expr_nodes e"
    using big nodes depth by (simp_all add: r_def saturating_add_def expr_depth.simps [of e] expr_nodes.simps [of e])
  then have src: "sourced (pe_input E) e (concat xss @ [r])"
    using x(2-4) n by (intro sourced.intros) (auto simp: r_def)
  show ?thesis
    using False cl src x(1) \<open>pns_depth r = expr_depth e\<close>
    by (auto simp: track_node_def Let_def r_def intro!: exI [of _ "concat xss @ [r]"])
qed

lemma track_node_ok:
  assumes E: "env_ok E" and b: "built (pe_input E) ns0 (children e) span m s" and span: "in_tokens E c (pt_cursor s) span"
    and cs: "bodies_ok (pe_input E) e span cs"
  shows "ok_parse (track_node E e span cs s) (\<lambda>r s'. r = (e, span) \<and> node_post E c ns0 r s' \<and> pt_cursor s' = pt_cursor s)"
proof (rule ok_weaken, rule track_node_records [OF E b])
  show "node_ok (pe_input E) e span cs" using span cs by (simp add: node_ok_def in_tokens_defs)
qed (use span in \<open>auto simp: node_post_def\<close>)

lemma node_post_frame:
  assumes "node_post E c ns r s" "pt_cursor s' = pt_cursor s" "pt_node_sources s' = pt_node_sources s"
  shows "node_post E c ns r s'"
  using assms by (simp add: node_post_def)

text \<open>A literal without text after the expressions recorded.\<close>

lemma track_literal_ok:
  assumes E: "env_ok E" and b: "built (pe_input E) ns0 es span (span_end span) s" and span: "span_start span \<le> span_end span"
  shows "ok_parse (track_node E (XNumber n) (span_empty (span_end span)) [] s)
    (\<lambda>_ s'. built (pe_input E) ns0 (es @ [XNumber n]) span (span_end span) s' \<and> pt_cursor s' = pt_cursor s)"
proof (rule ok_weaken, rule track_node_records [OF E])
  let ?stop = "span_empty (span_end span)"
  show "built (pe_input E) (pt_node_sources s) (children (XNumber n)) ?stop 0 s" by simp
  show "node_ok (pe_input E) (XNumber n) ?stop []" by (simp add: node_ok_def bodies_ok_def span_empty_def)
  fix r and s' :: parse_state assume "r = (XNumber n, ?stop) \<and> pt_cursor s' = pt_cursor s \<and>
    (\<exists>xs. pt_node_sources s' = pt_node_sources s @ xs \<and> sourced (pe_input E) (XNumber n) xs \<and> pns_span (last xs) = ?stop) \<and>
    length (pt_node_sources s') \<le> pe_max_ast_nodes E \<and> expr_depth (XNumber n) \<le> pe_max_ast_depth E"
  then show "built (pe_input E) ns0 (es @ [XNumber n]) span (span_end span) s' \<and> pt_cursor s' = pt_cursor s"
    using built_snoc [OF b, of s' _ "XNumber n"] span by (auto simp: span_empty_def within_def)
qed

lemma bodies_ok_nil [simp]: "bodies_ok input e span []"
  by (simp add: bodies_ok_def parts_ok_def)

lemma trimmed_ok:
  assumes E: "env_ok E" and p: "node_post E c ns r s"
  shows "ok_parse (trimmed E r mode s) (node_post E c ns)"
proof -
  let ?stop = "span_empty (span_end (snd r))" and ?lit = "XNumber (trim_mode_value E mode)"
  have span: "in_tokens E c (pt_cursor s) (snd r)" using p by (simp add: node_post_def)
  have le: "span_start (snd r) \<le> span_end (snd r)" using span by (simp add: in_tokens_defs)
  note literal = track_literal_ok [OF E _ le, of _ _ _ "trim_mode_value E mode"]
  show ?thesis
    unfolding trimmed_def Let_def
  proof (rule ok_bind, rule literal, rule node_post_built [OF p within_refl [OF le]])
    fix s1 assume b: "built (pe_input E) ns ([fst r] @ [?lit]) (snd r) (span_end (snd r)) s1 \<and> pt_cursor s1 = pt_cursor s"
    show "ok_parse (pbind (track_node E ?lit ?stop []) (\<lambda>_. track_node E (XCall TRIM_RANGE [fst r, ?lit, ?lit]) (snd r) []) s1)
      (node_post E c ns)"
    proof (rule ok_bind, rule literal, rule conjunct1 [OF b])
      fix s2 assume "built (pe_input E) ns (([fst r] @ [?lit]) @ [?lit]) (snd r) (span_end (snd r)) s2 \<and> pt_cursor s2 = pt_cursor s1"
      then have "ok_parse (track_node E (XCall TRIM_RANGE [fst r, ?lit, ?lit]) (snd r) [] s2)
          (\<lambda>r' s'. r' = (XCall TRIM_RANGE [fst r, ?lit, ?lit], snd r) \<and> node_post E c ns r' s' \<and> pt_cursor s' = pt_cursor s2)"
        using span b by (intro track_node_ok [OF E, where m = "span_end (snd r)"]) simp_all
      then show "ok_parse (track_node E (XCall TRIM_RANGE [fst r, ?lit, ?lit]) (snd r) [] s2) (node_post E c ns)"
        by (rule ok_weaken) simp
    qed
  qed
qed

lemma track_with_components_ok:
  assumes E: "env_ok E" and b: "built (pe_input E) ns (children e) span m s" "in_tokens E c (pt_cursor s) span" "bodies_ok (pe_input E) e span cs"
  shows "ok_parse (track_with_components E e span cs s) (node_post E c ns)"
  unfolding track_with_components_def
proof (rule ok_bind, rule track_node_ok [OF E b])
  fix r s'
  assume r: "r = (e, span) \<and> node_post E c ns r s' \<and> pt_cursor s' = pt_cursor s"
  have "ok_parse (pbind take_trim (\<lambda>m. case m of Some mode \<Rightarrow> trimmed E (e, span) mode | None \<Rightarrow> preturn r) s') (node_post E c ns)"
  proof (rule ok_bind [of _ _ "\<lambda>m s2. s2 = s'\<lparr>pt_pending_trim := None\<rparr>"])
    fix m s2 assume s2: "s2 = s'\<lparr>pt_pending_trim := None\<rparr>"
    have p: "node_post E c ns r s2" using r s2 by (auto intro: node_post_frame)
    then show "ok_parse ((case m of Some mode \<Rightarrow> trimmed E (e, span) mode | None \<Rightarrow> preturn r) s2) (node_post E c ns)"
      using trimmed_ok [OF E p] r by (cases m) auto
  qed (simp add: take_trim_def)
  then show "ok_parse ((case e of XRef _ \<Rightarrow> pbind take_trim (\<lambda>m. case m of Some mode \<Rightarrow> trimmed E (e, span) mode | None \<Rightarrow> preturn r)
      | _ \<Rightarrow> preturn r) s') (node_post E c ns)"
    using r by (cases e) auto
qed

lemma track_ok:
  assumes "env_ok E" "built (pe_input E) ns (children e) span m s" "in_tokens E c (pt_cursor s) span"
  shows "ok_parse (track E e span s) (node_post E c ns)"
  unfolding track_def by (rule track_with_components_ok [OF assms]) simp

lemma track_leaf_ok:
  assumes "env_ok E" "children e = []" "in_tokens E c (pt_cursor s) span"
  shows "bodies_ok (pe_input E) e span cs \<Longrightarrow> ok_parse (track_with_components E e span cs s) (node_post E c (pt_node_sources s))"
    "ok_parse (track E e span s) (node_post E c (pt_node_sources s))"
  using assms by (auto intro!: track_with_components_ok [where m = 0] track_ok [where m = 0])

text \<open>Removing the parentheses around an expression removes exactly their nodes.\<close>

lemma strip_parens_sourced:
  assumes "sourced input e xs" "pt_node_sources s = ns @ xs"
  shows "\<exists>e' s' xs'. strip_parens e s = Inr (e', s') \<and> sourced input e' xs' \<and> pt_node_sources s' = ns @ xs' \<and>
    within (pns_span (last xs')) (pns_span (last xs)) \<and> pt_cursor s' = pt_cursor s"
  using assms
proof (induction e s arbitrary: xs rule: strip_parens.induct)
  case (1 inner s)
  from "1.prems"(1) obtain ys r where ys: "xs = ys @ [r]" "sourced input inner ys" "within (pns_span (last ys)) (pns_span r)"
  proof (cases rule: sourced.cases)
    case (1 xss r)
    then show thesis using that by (auto simp: list_all2_Cons1)
  qed
  have "pt_node_sources (s\<lparr>pt_node_sources := butlast (pt_node_sources s)\<rparr>) = ns @ ys"
    using "1.prems"(2) ys by (simp add: butlast_append)
  from "1.IH" [OF ys(2) this] show ?case using ys by (auto intro: within_trans)
qed (use sourced_last in \<open>auto simp: within_def\<close>)

section \<open>Tokens and references\<close>

lemma peek_Some: "peek E n s = Some t \<Longrightarrow> pt_cursor s + n < length (pe_tokens E)"
  by (auto simp: peek_def get_def split: if_splits)

lemma span_at_tok: "pt_cursor s + n < length (pe_tokens E) \<Longrightarrow> span_at E n s = tok_span E (pt_cursor s + n)"
  by (simp add: span_at_def get_def tok_span_def)

lemma eat_ok:
  "ok_parse (eat E t s) (\<lambda>r s'. case r of
      None \<Rightarrow> s' = s \<and> peek E 0 s \<noteq> Some t
    | Some span \<Rightarrow> s' = s\<lparr>pt_cursor := pt_cursor s + 1\<rparr> \<and> pt_cursor s < length (pe_tokens E) \<and> span = tok_span E (pt_cursor s))"
  using peek_Some [of E 0 s t] span_at_tok [of s 0 E] by (auto simp: eat_def)

lemma expect_ok:
  "ok_parse (expect E t s) (\<lambda>span s'. s' = s\<lparr>pt_cursor := pt_cursor s + 1\<rparr> \<and> pt_cursor s < length (pe_tokens E) \<and>
    span = tok_span E (pt_cursor s))"
  unfolding expect_def by (rule ok_bind, rule eat_ok) (auto split: option.splits)

text \<open>An operation that consumes tokens and records no nodes.\<close>

definition consumes :: "'n parse_env \<Rightarrow> parse_state \<Rightarrow> source_span \<Rightarrow> parse_state \<Rightarrow> bool" where
  "consumes E s span s' \<longleftrightarrow> pt_node_sources s' = pt_node_sources s \<and> in_tokens E (pt_cursor s) (pt_cursor s') span"

lemma consumes_one:
  "env_ok E \<Longrightarrow> pt_cursor s < length (pe_tokens E) \<Longrightarrow> consumes E s (tok_span E (pt_cursor s)) (s\<lparr>pt_cursor := pt_cursor s + 1\<rparr>)"
  by (simp add: consumes_def in_tokens_one)

lemma consumes_merge:
  assumes E: "env_ok E" and "consumes E s a s1" "consumes E s1 b s2"
  shows "consumes E s (span_merge a b) s2"
  using assms in_tokens_join [OF E, of "pt_cursor s" "pt_cursor s1" a "pt_cursor s1" "pt_cursor s2" b]
  by (simp add: consumes_def in_tokens_defs)

lemma consumes_frame: "consumes E s span s' \<Longrightarrow> pt_node_sources t = pt_node_sources s' \<Longrightarrow> pt_cursor t = pt_cursor s' \<Longrightarrow> consumes E s span t"
  by (simp add: consumes_def)

lemma column_endpoint_ok:
  assumes E: "env_ok E" and st: "consumes E s0 start s" "consumes E s0 ident_span s"
  shows "ok_parse (parse_column_endpoint E column absolute start ident_span s) (\<lambda>r s'. consumes E s0 (snd r) s')"
  unfolding parse_column_endpoint_def
proof (rule ok_bind, rule eat_ok, goal_cases)
  case d: (1 dollar s1)
  have same: "consumes E s0 (span_merge start ident_span) s1"
  proof (cases dollar)
    case None
    then show ?thesis using d st by (auto simp: consumes_def intro: in_tokens_merge)
  next
    case (Some span)
    then show ?thesis using d st in_tokens_join [OF E, of "pt_cursor s0" "pt_cursor s" start "pt_cursor s0" "pt_cursor s" ident_span]
      in_tokens_mono [OF E, of "pt_cursor s0" "pt_cursor s" "span_merge start ident_span" "pt_cursor s0" "pt_cursor s1"]
      by (simp add: consumes_def)
  qed
  have num: "consumes E s0 (span_merge (span_merge start d1) (span_at E 0 s1)) (s1\<lparr>pt_cursor := pt_cursor s1 + 1\<rparr>)"
    if "dollar = Some d1" "peek E 0 s1 = Some (TNumber n)" for d1 n
  proof -
    have c: "consumes E s0 (span_merge start d1) s1"
      using that(1) d st(1) consumes_one [OF E, of s] consumes_merge [OF E st(1), of d1 s1] by simp
    have "pt_cursor s1 < length (pe_tokens E)" using peek_Some [OF that(2)] by simp
    then show ?thesis using consumes_merge [OF E c consumes_one [OF E]] span_at_tok [of s1 0 E] by simp
  qed
  show ?case
    using same num by (auto simp: Let_def split: option.splits token.splits)
qed

lemma parse_endpoint_ok:
  assumes E: "env_ok E"
  shows "ok_parse (parse_endpoint E s) (\<lambda>r s'. consumes E s (snd r) s')"
  unfolding parse_endpoint_def
proof (rule ok_bind, rule eat_ok, goal_cases)
  case l: (1 leading s1)
  define start where "start = (case leading of Some span \<Rightarrow> span | None \<Rightarrow> span_at E 0 s1)"
  have one: "consumes E s (span_merge start (span_at E 0 s1)) (s1\<lparr>pt_cursor := pt_cursor s1 + 1\<rparr>) \<and>
      consumes E s start (s1\<lparr>pt_cursor := pt_cursor s1 + 1\<rparr>) \<and>
      consumes E s (span_at E 0 s1) (s1\<lparr>pt_cursor := pt_cursor s1 + 1\<rparr>)"
    if "peek E 0 s1 = Some t" for t
  proof -
    have c: "pt_cursor s1 < length (pe_tokens E)" using peek_Some [OF that] by simp
    note one = consumes_one [OF E c, folded span_at_tok [of s1 0 E, simplified, OF c]]
    show ?thesis
    proof (cases leading)
      case None
      then show ?thesis using l one by (simp add: start_def consumes_def in_tokens_merge)
    next
      case (Some span)
      then have s: "consumes E s start s1" "pt_cursor s1 = Suc (pt_cursor s)" "pt_node_sources s1 = pt_node_sources s"
        using l consumes_one [OF E, of s] by (simp_all add: start_def)
      have "in_tokens E (pt_cursor s) (Suc (pt_cursor s1)) start" "in_tokens E (pt_cursor s) (Suc (pt_cursor s1)) (span_at E 0 s1)"
        using s(1) one c s(2) in_tokens_mono [OF E, of "pt_cursor s" "pt_cursor s1" start "pt_cursor s" "Suc (pt_cursor s1)"]
          in_tokens_mono [OF E, of "pt_cursor s1" "Suc (pt_cursor s1)" "span_at E 0 s1" "pt_cursor s" "Suc (pt_cursor s1)"]
        by (simp_all add: consumes_def)
      then show ?thesis using s by (simp add: consumes_def in_tokens_merge)
    qed
  qed
  note col = column_endpoint_ok [OF E, of s start "s1\<lparr>pt_cursor := pt_cursor s1 + 1\<rparr>" "span_at E 0 s1"]
  show ?case
    unfolding Let_def start_def [symmetric]
    using one col by (simp split: option.splits token.splits prod.splits)
qed

lemma second_endpoint_ok:
  assumes E: "env_ok E" and f: "consumes E s0 first_span s1" "s = s1\<lparr>pt_cursor := pt_cursor s1 + 1\<rparr>" and c: "colon_cursor = pt_cursor s1"
  shows "ok_parse (parse_second_endpoint E first first_span trim colon_cursor s) (\<lambda>r s'. consumes E s0 (snd r) s')"
proof (cases "parse_endpoint E s")
  case (Inl stop)
  obtain e where "stop = ParseFail e" using parse_endpoint_ok [OF E, of s] Inl by (auto simp: ok_parse_def)
  moreover have "consumes E s0 first_span (s\<lparr>pt_cursor := colon_cursor\<rparr>)" using f c by (simp add: consumes_def)
  ultimately show ?thesis using Inl by (cases first) (simp_all add: parse_second_endpoint_def)
next
  case (Inr r)
  obtain second second_span s' where r: "r = ((second, second_span), s')" by (metis prod.exhaust)
  have "consumes E s second_span s'" using parse_endpoint_ok [OF E, of s] Inr r by simp
  then have "in_tokens E (pt_cursor s) (pt_cursor s') second_span" "pt_node_sources s' = pt_node_sources s0"
    using f by (simp_all add: consumes_def)
  moreover have "pt_cursor s0 < pt_cursor s1" "pt_cursor s = Suc (pt_cursor s1)" using f by (simp_all add: consumes_def in_tokens_defs)
  ultimately have "consumes E s0 (span_merge first_span second_span) s'"
    using f(1) in_tokens_join [OF E, of "pt_cursor s0" "pt_cursor s1" first_span "pt_cursor s" "pt_cursor s'" second_span]
    by (simp add: consumes_def in_tokens_defs)
  then have "consumes E s0 (span_merge first_span second_span) (s'\<lparr>pt_pending_trim := trim\<rparr>)"
    "consumes E s0 first_span (s'\<lparr>pt_cursor := colon_cursor\<rparr>)"
    using f(1) c by (simp_all add: consumes_def)
  then show ?thesis using Inr r by (auto simp: parse_second_endpoint_def Let_def split: option.splits endpoint.splits)
qed

lemma parse_ref_body_ok:
  assumes E: "env_ok E"
  shows "ok_parse (parse_ref_body E s) (\<lambda>r s'. consumes E s (snd r) s')"
proof -
  let ?s = "s\<lparr>pt_pending_trim := None\<rparr>"
  have frame: "consumes E ?s span t = consumes E s span t" for span t by (simp add: consumes_def)
  show ?thesis
    unfolding parse_ref_body_def
  proof (rule ok_bind, rule parse_endpoint_ok [OF E], goal_cases)
    case (1 r s1)
    obtain first first_span where r: "r = (first, first_span)" by (cases r)
    note c = 1 [unfolded frame r snd_conv]
    note second = second_endpoint_ok [OF E c refl refl, of first]
    show ?case using r c second by (auto simp: Let_def split: option.splits token.splits endpoint.splits)
  qed
qed

lemma try_ref_body_ok:
  assumes E: "env_ok E"
  shows "ok_parse (try_ref_body E s) (\<lambda>r s'. case r of
      None \<Rightarrow> s' = s\<lparr>pt_pending_trim := None\<rparr>
    | Some (body, span) \<Rightarrow> consumes E s span s')"
  using parse_ref_body_ok [OF E, of s] by (auto simp: try_ref_body_def ok_parse_def split: sum.splits parse_stop.splits)

lemma track_reference_ok:
  assumes "env_ok E" "in_tokens E c (pt_cursor s) span" "parts_ok (pe_input E) span components"
  shows "ok_parse (track_reference E sheet body span components s) (node_post E c (pt_node_sources s))"
  unfolding track_reference_def using assms by (intro track_leaf_ok) (simp_all add: bodies_ok_def)

definition no_body :: "source_component list \<Rightarrow> bool" where
  "no_body cs \<longleftrightarrow> (\<forall>c\<in>set cs. sc_kind c \<noteq> ReferenceBody)"

lemma no_body_simps [simp]: "no_body []" "no_body (component_new kind span # cs) \<longleftrightarrow> kind \<noteq> ReferenceBody \<and> no_body cs"
  "no_body (as @ bs) \<longleftrightarrow> no_body as \<and> no_body bs"
  by (auto simp: no_body_def component_new_def)

lemma parts_ok_body:
  assumes "no_body cs" "in_tokens E c c' body"
  shows "parts_ok (pe_input E) (span_merge start body) (cs @ [component_new ReferenceBody body])"
  using assms merge_within(2) [of body start] by (auto simp: parts_ok_def no_body_def component_new_def in_tokens_defs)

lemma parts_ok_plain:
  assumes "in_tokens E c c' body"
  shows "parts_ok (pe_input E) body [component_new ReferenceBody body]"
  using assms within_refl by (simp add: parts_ok_def component_new_def in_tokens_defs)

lemma plain_reference_ok:
  assumes E: "env_ok E"
  shows "ok_parse (parse_plain_reference E s) (node_post E (pt_cursor s) (pt_node_sources s))"
  unfolding parse_plain_reference_def
proof (rule ok_bind, rule parse_ref_body_ok [OF E], goal_cases)
  case (1 r s1)
  then show ?case using track_reference_ok [OF E, of "pt_cursor s" s1 "snd r"] parts_ok_plain [of E _ _ "snd r"]
    by (cases r) (auto simp: consumes_def)
qed

section \<open>Qualified names and other workbooks\<close>

lemma started_one:
  assumes "env_ok E" "in_tokens E c (pt_cursor s) start" "pt_cursor s < length (pe_tokens E)"
  shows "in_tokens E c (Suc (pt_cursor s)) (span_merge start (span_at E 0 s))"
  using assms in_tokens_join [OF assms(1,2) in_tokens_one [OF assms(1,3)]] span_at_tok [of s 0 E]
  by (simp add: in_tokens_defs)

lemma started_consumes:
  assumes "env_ok E" "in_tokens E c (pt_cursor s) start" "consumes E s span s'"
  shows "in_tokens E c (pt_cursor s') (span_merge start span)"
  using assms in_tokens_join [OF assms(1,2), of "pt_cursor s" "pt_cursor s'" span] by (simp add: consumes_def in_tokens_defs)

lemma qualified_target_ok:
  assumes E: "env_ok E" and start: "in_tokens E c (pt_cursor s) start" and cs: "no_body components"
  shows "ok_parse (parse_qualified_target E sheet start components s) (node_post E c (pt_node_sources s))"
  unfolding parse_qualified_target_def
proof (rule ok_bind, rule try_ref_body_ok [OF E], goal_cases)
  case (1 r s1)
  show ?case
  proof (cases r)
    case (Some p)
    obtain body span where p: "p = (body, span)" by (cases p)
    then have c: "consumes E s span s1" using 1 Some by simp
    then have i: "in_tokens E (pt_cursor s) (pt_cursor s1) span" "pt_node_sources s1 = pt_node_sources s" by (simp_all add: consumes_def)
    from track_reference_ok [OF E started_consumes [OF E start c] parts_ok_body [OF cs i(1)]] show ?thesis using Some p i(2) by simp
  next
    case None
    then have s1: "s1 = s\<lparr>pt_pending_trim := None\<rparr>" using 1 by simp
    have leaf: "ok_parse (track_with_components E e (span_merge start (span_at E 0 s1)) cs (s1\<lparr>pt_cursor := pt_cursor s1 + 1\<rparr>))
        (node_post E c (pt_node_sources s))"
      if "peek E 0 s1 = Some t" "children e = []" "\<not> has_body e" for e cs t
      using track_leaf_ok(1) [OF E that(2), of c "s1\<lparr>pt_cursor := pt_cursor s1 + 1\<rparr>"] started_one [OF E, of c s1 start]
        start s1 peek_Some [OF that(1)] that(3) by (simp add: bodies_ok_def)
    show ?thesis using None leaf by (auto split: option.splits token.splits)
  qed
qed

lemma byte_drop_Some: "byte_drop n s = Some t \<Longrightarrow> \<exists>p. s = p @ t \<and> utf8_len p = n"
proof (induction n s rule: byte_drop.induct)
  case (1 n s)
  show ?case
  proof (cases "n = 0")
    case True
    then show ?thesis using "1.prems" by (simp add: byte_drop.simps)
  next
    case False
    then obtain c s' where s: "s = c # s'" "char_utf8 c \<le> n" "byte_drop (n - char_utf8 c) s' = Some t"
      using "1.prems" by (subst (asm) byte_drop.simps) (auto split: list.splits if_splits)
    then obtain p where "s' = p @ t" "utf8_len p = n - char_utf8 c" using "1.IH" [OF False s(1,2)] by blast
    then show ?thesis using s by (intro exI [of _ "c # p"]) simp
  qed
qed

lemma byte_take_Some: "byte_take n s = Some m \<Longrightarrow> \<exists>q. s = m @ q \<and> utf8_len m = n"
proof (induction n s arbitrary: m rule: byte_take.induct)
  case (1 n s)
  show ?case
  proof (cases "n = 0")
    case True
    then show ?thesis using "1.prems" by (simp add: byte_take.simps)
  next
    case False
    then obtain c s' m' where s: "s = c # s'" "char_utf8 c \<le> n" "byte_take (n - char_utf8 c) s' = Some m'" "m = c # m'"
      using "1.prems" by (subst (asm) byte_take.simps) (auto split: list.splits if_splits)
    then obtain q where "s' = m' @ q" "utf8_len m' = n - char_utf8 c" using "1.IH" [OF False s(1,2,3)] by blast
    then show ?thesis using s by simp
  qed
qed

lemma byte_slice_Some:
  "byte_slice s a b = Some m \<Longrightarrow> \<exists>p q. s = p @ m @ q \<and> utf8_len p = a \<and> b = a + utf8_len m"
  by (auto simp: byte_slice_def bind_eq_Some_conv split: if_splits dest!: byte_drop_Some byte_take_Some)

lemma byte_slice_inner:
  assumes "byte_slice s a b = Some ([x] @ m @ [y])" "char_utf8 x = 1" "char_utf8 y = 1"
  shows "byte_slice s (a + 1) (b - 1) = Some m"
proof -
  obtain p q where s: "s = p @ ([x] @ m @ [y]) @ q" "utf8_len p = a" "b = a + utf8_len ([x] @ m @ [y])"
    using byte_slice_Some [OF assms(1)] by blast
  have "byte_slice ((p @ [x]) @ m @ ([y] @ q)) (utf8_len (p @ [x])) (utf8_len (p @ [x]) + utf8_len m) = Some m"
    by (rule byte_slice_mid)
  then show ?thesis using s assms by simp
qed

lemma quoted_source:
  assumes "env_ok E" "i < length (pe_tokens E)" "st_token (pe_tokens E ! i) = TQuotedSheet name"
  shows "byte_slice (pe_input E) (span_start (tok_span E i)) (span_end (tok_span E i)) = Some ([39] @ double_quotes 39 name @ [39])"
  using assms by (simp add: env_ok_def quoted_tokens_def tok_span_def)

lemma quoted_components_total:
  assumes "env_ok E" "i < length (pe_tokens E)" "st_token (pe_tokens E ! i) = TQuotedSheet name"
  shows "quoted_sheet_prefix_components E (tok_span E i) \<noteq> None" "quoted_external_prefix_components E (tok_span E i) \<noteq> None"
    "byte_slice (pe_input E) (span_start (tok_span E i) + 1) (span_end (tok_span E i) - 1) \<noteq> None"
proof -
  let ?d = "double_quotes 39 name"
  note src = quoted_source [OF assms]
  have inner: "byte_slice (pe_input E) (span_start (tok_span E i) + 1) (span_end (tok_span E i) - 1) = Some ?d"
    using byte_slice_inner [OF src] by (simp add: char_utf8_def)
  have own: "byte_slice ([39] @ ?d @ [39]) 1 (utf8_len ([39] @ ?d @ [39]) - 1) = Some ?d"
    using byte_slice_mid [of "[39]" ?d "[39]"] by (simp add: char_utf8_def)
  show "byte_slice (pe_input E) (span_start (tok_span E i) + 1) (span_end (tok_span E i) - 1) \<noteq> None" using inner by simp
  show "quoted_sheet_prefix_components E (tok_span E i) \<noteq> None"
    using src inner by (simp add: quoted_sheet_prefix_components_def Let_def starts_quoted_def ends_quoted_def)
  show "quoted_external_prefix_components E (tok_span E i) \<noteq> None"
    using src own by (simp add: quoted_external_prefix_components_def Let_def starts_quoted_def ends_quoted_def)
qed

lemma peek_token: "peek E n s = Some t \<Longrightarrow> st_token (pe_tokens E ! (pt_cursor s + n)) = t"
  by (auto simp: peek_def get_def split: if_splits)

text \<open>Operations that record no nodes and may consume no tokens.\<close>

definition stays :: "'n parse_env \<Rightarrow> parse_state \<Rightarrow> parse_state \<Rightarrow> bool" where
  "stays E s s' \<longleftrightarrow> pt_node_sources s' = pt_node_sources s \<and> pt_cursor s \<le> pt_cursor s' \<and> pt_cursor s' \<le> length (pe_tokens E)"

lemma external_sheet_ok:
  assumes E: "env_ok E" and c: "pt_cursor s \<le> length (pe_tokens E)"
  shows "ok_parse (external_sheet E s) (\<lambda>r s'. stays E s s' \<and> no_body (snd (snd (snd r))))"
proof (cases "\<exists>name. peek E 0 s = Some (TQuotedSheet name)")
  case True
  then obtain name where n: "peek E 0 s = Some (TQuotedSheet name)" by blast
  have "byte_slice (pe_input E) (span_start (span_at E 0 s) + 1) (span_end (span_at E 0 s) - 1) \<noteq> None"
    using quoted_components_total(3) [OF E, of "pt_cursor s"] peek_token [OF n] peek_Some [OF n] span_at_tok [of s 0 E] by simp
  then show ?thesis using n c peek_Some [OF n]
    by (auto simp: external_sheet_def Let_def stays_def split: option.splits token.splits)
next
  case False
  then show ?thesis using c peek_Some [of E 0 s] peek_Some [of E 1 s] peek_Some [of E 3 s]
    by (auto simp: external_sheet_def stays_def split: option.splits token.splits)
qed

lemma parse_structured_ok: "ok_parse (parse_structured raw span s) (\<lambda>_ s'. s' = s)"
  by (auto simp: parse_structured_def split: sum.splits)

lemma external_target_ok:
  assumes E: "env_ok E"
  shows "ok_parse (external_target E s) (\<lambda>(target, span, cs) s'. consumes E s span s' \<and>
    ((\<exists>body. target = TargetReference body) \<longrightarrow> cs = [component_new ReferenceBody span]))"
  unfolding external_target_def
proof (rule ok_bind, rule try_ref_body_ok [OF E], goal_cases)
  case (1 r s1)
  show ?case
  proof (cases r)
    case (Some p)
    then show ?thesis using 1 by (cases p) simp
  next
    case None
    then have s1: "s1 = s\<lparr>pt_pending_trim := None\<rparr>" using 1 by simp
    have "ok_parse (advance E s1) (\<lambda>t s2. \<forall>t'. t = Some t' \<longrightarrow> consumes E s (st_span t') s2)"
      using consumes_one [OF E, of s1] s1 by (auto simp: advance_def get_def consumes_def tok_span_def)
    then show ?thesis unfolding None option.case Let_def
    proof (rule ok_bind, goal_cases)
      case (1 t s2)
      then show ?case
        by (cases t) (auto split: token.splits intro!: ok_bind [OF parse_structured_ok])
    qed
  qed
qed

lemma ok_panic: "r \<noteq> None \<Longrightarrow> ok_parse (ppanic r s) (\<lambda>_ s'. s' = s)"
  by (auto simp: ppanic_def)

lemma ok_bind_panic: "r \<noteq> None \<Longrightarrow> (\<And>a. r = Some a \<Longrightarrow> ok_parse (f a s) Q) \<Longrightarrow> ok_parse (pbind (ppanic r) f s) Q"
  by (auto simp: pbind_def ppanic_def)

lemma prefix_components_no_body:
  shows "quoted_sheet_prefix_components E span = Some cs \<Longrightarrow> no_body cs"
    and "quoted_external_prefix_components E span = Some cs \<Longrightarrow> no_body cs"
proof -
  show "quoted_sheet_prefix_components E span = Some cs \<Longrightarrow> no_body cs"
    by (auto simp: quoted_sheet_prefix_components_def bind_eq_Some_conv Let_def split: option.splits)
  have parts: "no_body (case r of None \<Rightarrow> [component_new ExternalWorkbook span]
      | Some (workbook, sheet) \<Rightarrow>
          let base = b; sheet_start = base + utf8_len workbook; stop = base + n; book = component_new ExternalWorkbook (span_new base sheet_start)
          in if sheet = [] then [book]
             else case find_char 58 sheet of
                 Some colon \<Rightarrow>
                   [book, component_new ExternalSheet (span_new sheet_start (sheet_start + colon)),
                    component_new ExternalSheetRangeEnd (span_new (sheet_start + colon + 1) stop)]
               | None \<Rightarrow> [book, component_new ExternalSheet (span_new sheet_start stop)])" for r b n
    by (simp add: Let_def split: option.splits prod.splits)
  show "no_body cs" if "quoted_external_prefix_components E span = Some cs"
    using that parts by (auto simp: quoted_external_prefix_components_def bind_eq_Some_conv Let_def)
qed

lemma in_tokens_extend: "env_ok E \<Longrightarrow> in_tokens E c c' span \<Longrightarrow> c' \<le> d \<Longrightarrow> d \<le> length (pe_tokens E) \<Longrightarrow> in_tokens E c d span"
  by (rule in_tokens_mono) auto

lemma parse_external_ok:
  assumes E: "env_ok E" and start: "in_tokens E c (pt_cursor s) start"
    and q: "quoted \<Longrightarrow> quoted_external_prefix_components E start \<noteq> None"
  shows "ok_parse (parse_external E workbook sheet sheet_end sheet_quoted quoted start s) (node_post E c (pt_node_sources s))"
proof -
  have c: "pt_cursor s \<le> length (pe_tokens E)" using start by (simp add: in_tokens_defs)
  have cs: "ok_parse ((if quoted then ppanic (quoted_external_prefix_components E start)
      else preturn [component_new ExternalWorkbook start]) s) (\<lambda>cs s'. s' = s \<and> no_body cs)"
    using q prefix_components_no_body(2) by (auto simp: ppanic_def)
  have sheet: "ok_parse ((if sheet \<noteq> None then preturn (sheet, sheet_end, sheet_quoted, []) else external_sheet E) s)
      (\<lambda>r s'. stays E s s' \<and> no_body (snd (snd (snd r))))"
    using external_sheet_ok [OF E c] c by (simp add: stays_def)
  have bang: "ok_parse ((if quoted then preturn () else pbind (expect E TBang) (\<lambda>_. preturn ())) s1) (\<lambda>_ s'. stays E s s')"
    if "stays E s s1" for s1
    using that by (auto simp: stays_def intro!: ok_bind [OF expect_ok])
  show ?thesis
    unfolding parse_external_def
  proof (rule ok_bind, rule cs, elim conjE, hypsubst, rule ok_bind, rule sheet, goal_cases)
    case sheet_case: (1 cs1 u sh s2)
    note st2 = conjunct1 [OF sheet_case(2)]
    show ?case
    proof (simp only: split_beta, rule ok_bind, rule bang [OF st2], rule ok_bind, rule external_target_ok [OF E], goal_cases)
      case (1 u s3 r s4)
      obtain target stop cs' where r: "r = (target, stop, cs')" by (cases r)
      have st: "stays E s s3" "consumes E s3 stop s4" using 1 r by simp_all
      have "in_tokens E c (pt_cursor s3) start" using in_tokens_extend [OF E start] st(1) by (simp add: stays_def)
      note span = started_consumes [OF E this st(2)]
      have i: "in_tokens E (pt_cursor s3) (pt_cursor s4) stop" "pt_node_sources s4 = pt_node_sources s"
        using st by (simp_all add: consumes_def stays_def)
      have "parts_ok (pe_input E) (span_merge start stop) (cs1 @ snd (snd (snd sh)) @ cs')" if "target = TargetReference body" for body
        using parts_ok_body [OF _ i(1), of "cs1 @ snd (snd (snd sh))" start] that 1 r sheet_case by simp
      then have "bodies_ok (pe_input E) (XExternal \<lparr>ext_workbook = workbook, ext_sheet = fst sh, ext_sheet_end = fst (snd sh),
          ext_sheet_quoted = fst (snd (snd sh)), ext_quoted = quoted, ext_target = target\<rparr>) (span_merge start stop)
          (cs1 @ snd (snd (snd sh)) @ cs')"
        by (auto simp: bodies_ok_def split: external_reference_target.splits)
      from track_leaf_ok(1) [OF E _ span this] show ?case using r i(2) by simp
    qed
  qed
qed

lemma quoted_prefix_ok:
  assumes E: "env_ok E" and t: "peek E 0 s = Some (TQuotedSheet name)"
  shows "ok_parse (parse_quoted_prefix E name (tok_span E (pt_cursor s)) s) (node_post E (pt_cursor s) (pt_node_sources s))"
proof -
  let ?start = "tok_span E (pt_cursor s)"
  have c: "pt_cursor s < length (pe_tokens E)" using peek_Some [OF t] by simp
  note total = quoted_components_total [OF E c, of name]
  have total: "quoted_sheet_prefix_components E ?start \<noteq> None" "quoted_external_prefix_components E ?start \<noteq> None"
    using total peek_token [OF t] by simp_all
  have start: "in_tokens E (pt_cursor s) (Suc (pt_cursor s)) ?start" using in_tokens_one [OF E c] .
  show ?thesis
  proof (cases "peek_sheet_range_end E s")
    case (Some r)
    obtain end_name end_quoted end_span where r: "r = (end_name, end_quoted, end_span)" by (cases r)
    have "peek E 3 s = Some TBang" using Some by (auto simp: peek_sheet_range_end_def split: if_splits)
    from peek_Some [OF this] have four: "pt_cursor s + 4 \<le> length (pe_tokens E)" by simp
    show ?thesis
      unfolding parse_quoted_prefix_def Some r option.case prod.case
    proof (rule ok_skip, rule ok_bind, rule parse_ref_body_ok [OF E], goal_cases)
      case (1 b s1)
      obtain body body_span where b: "b = (body, body_span)" by (cases b)
      have "in_tokens E (pt_cursor s) (pt_cursor (s\<lparr>pt_cursor := pt_cursor s + 4\<rparr>)) ?start"
        using in_tokens_extend [OF E start, of "pt_cursor s + 4"] four by simp
      from started_consumes [OF E this] 1 b
      have i: "in_tokens E (pt_cursor s) (pt_cursor s1) (span_merge ?start body_span)" "pt_node_sources s1 = pt_node_sources s"
        by (auto simp: consumes_def)
      have body: "in_tokens E (pt_cursor s + 4) (pt_cursor s1) body_span" using 1 b by (simp add: consumes_def)
      note ref = track_reference_ok [OF E i(1), unfolded i(2)]
      have "parts_ok (pe_input E) (span_merge ?start body_span) (cs @ [component_new SheetRangeEnd (sheet_token_content_span end_span end_quoted),
          component_new ReferenceBody body_span])" if "quoted_sheet_prefix_components E ?start = Some cs" for cs
        using parts_ok_body [OF _ body, of "cs @ [component_new SheetRangeEnd (sheet_token_content_span end_span end_quoted)]" ?start]
          prefix_components_no_body(1) [OF that] by simp
      then show ?case using b ref by (auto intro!: ok_bind_panic [OF total(1)])
    qed
  next
    case None
    show ?thesis
      unfolding parse_quoted_prefix_def None option.case
    proof (rule ok_skip, rule ok_bind, rule expect_ok, goal_cases)
      case (1 b s2)
      then have "in_tokens E (pt_cursor s) (pt_cursor s2) ?start" "pt_node_sources s2 = pt_node_sources s"
        using in_tokens_extend [OF E start, of "pt_cursor s + 2"] by simp_all
      note ext = parse_external_ok [OF E this(1) total(2), unfolded this(2)] and qual = qualified_target_ok [OF E this(1), unfolded this(2)]
      show ?case using ext qual
        by (auto split: option.splits prod.splits intro!: ok_bind_panic [OF total(1)] dest: prefix_components_no_body(1))
    qed
  qed
qed

end
