(* ===== verification/Parser_Correct.thy ===== *)
theory Parser_Correct
  imports Parser_Laws
begin

text \<open>
  The correctness of the formula parser: by induction on the depth that is left, every operation of the
  parser ends with an ordinary error or with an expression whose nodes are recorded exactly; and the
  final checks of \<open>parse_formula_with_limits\<close> succeed on every parsed expression.
\<close>

section \<open>Arguments and elements\<close>

definition rec_ok :: "'n parse_env \<Rightarrow> 'n parse_rec \<Rightarrow> bool" where
  "rec_ok E pe \<longleftrightarrow> (\<forall>bp u s. ok_parse (pe bp u s) (node_post E (pt_cursor s) (pt_node_sources s)))"

lemma rec_okD: "rec_ok E pe \<Longrightarrow> ok_parse (pe bp u s) (node_post E (pt_cursor s) (pt_node_sources s))"
  by (simp add: rec_ok_def)

text \<open>The nodes recorded since \<open>ns0\<close> are those of \<open>es\<close>, which lie in the tokens from \<open>c\<close> on.\<close>

definition listed :: "'n parse_env \<Rightarrow> pending_node_source list \<Rightarrow> nat \<Rightarrow> 'n expr list \<Rightarrow> parse_state \<Rightarrow> bool" where
  "listed E ns0 c es s \<longleftrightarrow> c \<le> pt_cursor s \<and> pt_cursor s \<le> length (pe_tokens E) \<and>
    (\<exists>xss. pt_node_sources s = ns0 @ concat xss \<and> list_all2 (sourced (pe_input E)) es xss \<and>
      in_order (map (pns_span \<circ> last) xss) \<and> (\<forall>xs\<in>set xss. in_range E c (pt_cursor s) (pns_span (last xs))))"

text \<open>What is consumed later comes later in the source.\<close>

lemma in_range_before:
  assumes E: "env_ok E" and "in_range E c c' x" "in_range E d d' y" "c' \<le> d"
  shows "span_end x \<le> span_start y"
proof -
  have "c' - 1 < d" "d < length (pe_tokens E)" using assms by (auto simp: in_tokens_defs)
  from tok_order [OF E this] show ?thesis using assms(2,3) by (auto simp: in_tokens_defs)
qed

lemma listed_skip:
  assumes E: "env_ok E" and "listed E ns0 c es s" "pt_node_sources s' = pt_node_sources s" "pt_cursor s \<le> pt_cursor s'"
    "pt_cursor s' \<le> length (pe_tokens E)"
  shows "listed E ns0 c es s'"
  using assms in_range_mono [OF E, of c "pt_cursor s" _ c "pt_cursor s'"] unfolding listed_def by fastforce

lemma listed_add:
  assumes E: "env_ok E" and l: "listed E ns0 c es s" and p: "node_post E (pt_cursor s) (pt_node_sources s) r s'"
  shows "listed E ns0 c (es @ [fst r]) s'"
proof -
  obtain xs where xs: "pt_node_sources s' = pt_node_sources s @ xs" "sourced (pe_input E) (fst r) xs"
    "in_range E (pt_cursor s) (pt_cursor s') (pns_span (last xs))" using p by (auto simp: node_post_def in_tokens_def)
  obtain xss where xss: "pt_node_sources s = ns0 @ concat xss" "list_all2 (sourced (pe_input E)) es xss"
    "\<forall>xs\<in>set xss. in_range E c (pt_cursor s) (pns_span (last xs))" "c \<le> pt_cursor s" "in_order (map (pns_span \<circ> last) xss)"
    using l by (auto simp: listed_def)
  have "span_end (pns_span (last ys)) \<le> span_start (pns_span (last xs))" if "ys \<in> set xss" for ys
    using that xss(3) in_range_before [OF E _ xs(3) order_refl] by blast
  then have order: "in_order (map (pns_span \<circ> last) (xss @ [xs]))" using xss(5) by (auto intro!: in_order_append)
  have s': "pt_cursor s < pt_cursor s'" "pt_cursor s' \<le> length (pe_tokens E)" using xs(3) by (simp_all add: in_tokens_defs)
  have "\<forall>ys\<in>set (xss @ [xs]). in_range E c (pt_cursor s') (pns_span (last ys))"
    using xss(3,4) xs(3) s' by (auto intro: in_range_mono [OF E])
  with order show ?thesis using xs xss s' unfolding listed_def
    by (intro conjI exI [of _ "xss @ [xs]"]) (auto intro: list_all2_appendI)
qed

lemma listed_empty: "pt_cursor s \<le> length (pe_tokens E) \<Longrightarrow> listed E (pt_node_sources s) (pt_cursor s) [] s"
  by (simp add: listed_def)

text \<open>What lies in a construct that ends with token \<open>b\<close> lies within its span.\<close>

lemma closing_within:
  assumes E: "env_ok E" and "in_tokens E c c' x" "in_range E d (Suc b) y" "c' \<le> d"
  shows "within y (span_merge x (tok_span E b))"
proof -
  have i: "c < c'" "c' - 1 < d" "d < length (pe_tokens E)" using assms by (auto simp: in_tokens_defs)
  show ?thesis using tok_order [OF E i(2,3)] assms by (auto simp: within_def span_merge_def in_tokens_defs)
qed

lemma listed_close:
  assumes E: "env_ok E" and l: "listed E ns0 d es s" and b: "pt_cursor s = Suc b" and x: "in_tokens E c c' x" "c' \<le> d"
  shows "built (pe_input E) ns0 es (span_merge x (tok_span E b)) (span_end (tok_span E b)) s"
proof -
  have "within y (span_merge x (tok_span E b)) \<and> span_end y \<le> span_end (tok_span E b)" if "in_range E d (Suc b) y" for y
    using closing_within [OF E x(1) that x(2)] that by (simp add: in_range_def)
  then show ?thesis using l unfolding listed_def built_def b by blast
qed

lemma track_missing_ok:
  assumes "env_ok E" "in_tokens E c (pt_cursor s) span"
  shows "ok_parse (track_missing E span s) (\<lambda>_ s'. node_post E c (pt_node_sources s) (XMissing, span) s' \<and> pt_cursor s' = pt_cursor s)"
proof -
  have b: "built (pe_input E) (pt_node_sources s) (children XMissing) span 0 s" by simp
  show ?thesis
    unfolding track_missing_def track_def track_with_components_def expr.case
    by (rule ok_bind, rule ok_bind, rule track_node_ok [OF assms(1) b assms(2) bodies_ok_nil]) auto
qed

text \<open>The arguments of a call, up to the closing parenthesis \<open>b\<close>.\<close>

definition args_post ::
  "'n parse_env \<Rightarrow> pending_node_source list \<Rightarrow> nat \<Rightarrow> 'n expr list \<times> source_span \<Rightarrow> parse_state \<Rightarrow> bool" where
  "args_post E ns0 c r s \<longleftrightarrow> listed E ns0 c (fst r) s \<and> (\<exists>b. snd r = tok_span E b \<and> pt_cursor s = Suc b \<and> c \<le> b)"

lemma listed_post:
  assumes E: "env_ok E" and l: "listed E ns0 c es s" and p: "node_post E (pt_cursor s) (pt_node_sources s) r s1"
    and s': "pt_node_sources s' = pt_node_sources s1" "pt_cursor s1 \<le> pt_cursor s'" "pt_cursor s' \<le> length (pe_tokens E)"
  shows "listed E ns0 c (es @ [fst r]) s'"
  by (rule listed_skip [OF E listed_add [OF E l p] s'])

lemma call_args_loop_ok:
  assumes E: "env_ok E" and rec: "rec_ok E pe"
  shows "listed E ns0 c args s \<Longrightarrow> length (pe_tokens E) - pt_cursor s < fuel \<Longrightarrow>
    ok_parse (call_args_loop E pe fuel args s) (args_post E ns0 c)"
proof (induction fuel arbitrary: args s)
  case (Suc fuel)
  note l = Suc.prems(1)
  have cur: "pt_cursor s \<le> length (pe_tokens E)" using l by (simp add: listed_def)
  let ?s1 = "s\<lparr>pt_cursor := pt_cursor s + 1\<rparr>"
  have missing: "ok_parse (track_missing E (tok_span E (pt_cursor s)) ?s1)
      (\<lambda>_ s'. listed E ns0 c (args @ [XMissing]) s' \<and> pt_cursor s' = Suc (pt_cursor s))"
    if "pt_cursor s < length (pe_tokens E)"
  proof (rule ok_weaken, rule track_missing_ok [OF E])
    show "in_tokens E (pt_cursor s) (pt_cursor ?s1) (tok_span E (pt_cursor s))" using in_tokens_one [OF E that] by simp
    fix u s' assume "node_post E (pt_cursor s) (pt_node_sources ?s1) (XMissing, tok_span E (pt_cursor s)) s' \<and> pt_cursor s' = pt_cursor ?s1"
    then show "listed E ns0 c (args @ [XMissing]) s' \<and> pt_cursor s' = Suc (pt_cursor s)"
      using listed_add [OF E l, of "(XMissing, tok_span E (pt_cursor s))" s'] by simp
  qed
  have arg: "ok_parse (pbind (pe 0 False) (\<lambda>(arg, _). pbind (eat E TComma) (\<lambda>comma. case comma of
      Some _ \<Rightarrow> call_args_loop E pe fuel (args @ [arg])
    | None \<Rightarrow> pbind (expect E TRParen) (\<lambda>stop. preturn (args @ [arg], stop)))) s) (args_post E ns0 c)"
  proof (rule ok_bind, rule rec_okD [OF rec], goal_cases)
    case (1 r s1)
    then have c1: "pt_cursor s < pt_cursor s1" by (simp add: node_post_def in_tokens_defs)
    note post = listed_post [OF E l 1]
    show ?case unfolding split_beta
    proof (rule ok_bind, rule eat_ok, goal_cases)
      case (1 comma s2)
      show ?case
      proof (cases comma)
        case None
        then show ?thesis using 1 post c1 l
          by (auto simp: args_post_def listed_def [of _ _ _ args] intro!: ok_bind [OF expect_ok])
      next
        case (Some span)
        then have "pt_cursor s2 = Suc (pt_cursor s1)" "pt_cursor s1 < length (pe_tokens E)" "pt_node_sources s2 = pt_node_sources s1"
          using 1 by simp_all
        then show ?thesis using Suc.IH [OF post, of s2] Some Suc.prems(2) c1 by simp
      qed
    qed
  qed
  show ?case
    unfolding call_args_loop.simps
  proof (rule ok_bind, rule eat_ok, goal_cases)
    case (1 comma s1)
    show ?case
    proof (cases comma)
      case (Some span)
      then have s1: "s1 = ?s1" "span = tok_span E (pt_cursor s)" "pt_cursor s < length (pe_tokens E)" using 1 by simp_all
      show ?thesis unfolding Some option.case s1(1,2)
        by (rule ok_bind, rule missing [OF s1(3)]) (use Suc.IH Suc.prems(2) s1(3) in auto)
    next
      case None
      then have s1: "s1 = s" using 1 by simp
      show ?thesis unfolding None option.case s1
      proof (rule ok_bind, rule eat_ok, goal_cases)
        case (1 close s2)
        show ?case
        proof (cases close)
          case None
          then show ?thesis using 1 arg by simp
        next
          case (Some stop)
          then have s2: "s2 = ?s1" "stop = tok_span E (pt_cursor s)" "pt_cursor s < length (pe_tokens E)" using 1 by simp_all
          show ?thesis unfolding Some option.case s2(1,2)
            by (rule ok_bind, rule missing [OF s2(3)]) (use l in \<open>auto simp: args_post_def listed_def [of _ _ _ args]\<close>)
        qed
      qed
    qed
  qed
qed simp

lemma parse_call_args_ok:
  assumes E: "env_ok E" and rec: "rec_ok E pe" and c: "pt_cursor s \<le> length (pe_tokens E)"
  shows "ok_parse (parse_call_args E pe s) (args_post E (pt_node_sources s) (pt_cursor s))"
  unfolding parse_call_args_def
proof (rule ok_bind, rule eat_ok, goal_cases)
  case (1 close s1)
  show ?case
  proof (cases close)
    case None
    then show ?thesis using 1 call_args_loop_ok [OF E rec listed_empty [OF c], of "fuel_of E"] by (simp add: fuel_of_def)
  next
    case (Some stop)
    then show ?thesis using 1 listed_skip [OF E listed_empty [OF c], of s1] by (auto simp: args_post_def)
  qed
qed

lemma advance_ok:
  "ok_parse (advance E s) (\<lambda>r s'. case r of
      None \<Rightarrow> s' = s
    | Some t \<Rightarrow> s' = s\<lparr>pt_cursor := pt_cursor s + 1\<rparr> \<and> pt_cursor s < length (pe_tokens E) \<and> st_span t = tok_span E (pt_cursor s))"
  by (auto simp: advance_def get_def tok_span_def)

lemma closing_in_tokens:
  assumes E: "env_ok E" and "in_tokens E c c' x" "c' \<le> b" "b < length (pe_tokens E)"
  shows "in_tokens E c (Suc b) (span_merge x (tok_span E b))"
  using in_tokens_join [OF E assms(2) in_tokens_one [OF E assms(4)]] assms(2,3) by (simp add: in_tokens_defs)

lemma track_closed_ok:
  assumes E: "env_ok E" and l: "listed E ns d (children e) s" and b: "pt_cursor s = Suc b" and x: "in_tokens E c c' x" "c' \<le> d"
    and d: "d \<le> b"
  shows "ok_parse (track E e (span_merge x (tok_span E b)) s) (node_post E c ns)"
proof (rule track_ok [OF E listed_close [OF E l b x]])
  have "b < length (pe_tokens E)" using l b by (simp add: listed_def)
  then show "in_tokens E c (pt_cursor s) (span_merge x (tok_span E b))"
    using closing_in_tokens [OF E x(1), of b] x(2) d b by simp
qed

lemma array_loop_ok:
  assumes E: "env_ok E" and rec: "rec_ok E pe" and x: "in_tokens E c c' start" "c' \<le> d"
  shows "listed E ns0 d (concat rows @ current) s \<Longrightarrow> length (pe_tokens E) - pt_cursor s < fuel \<Longrightarrow>
    ok_parse (array_loop E pe start fuel rows current s) (node_post E c ns0)"
proof (induction fuel arbitrary: rows current s)
  case (Suc fuel)
  show ?case
    unfolding array_loop.simps
  proof (rule ok_bind, rule rec_okD [OF rec], unfold split_beta, rule ok_bind, rule advance_ok, goal_cases)
    case (1 r s1 t s2)
    have d: "d \<le> pt_cursor s" "pt_cursor s < pt_cursor s1"
      using Suc.prems(1) 1(1) by (simp_all add: listed_def node_post_def in_tokens_defs)
    show ?case
    proof (cases t)
      case (Some tok)
      then have s2: "pt_cursor s2 = Suc (pt_cursor s1)" "pt_node_sources s2 = pt_node_sources s1" "pt_cursor s1 < length (pe_tokens E)"
        and tok: "st_span tok = tok_span E (pt_cursor s1)" using 1(2) by simp_all
      have l: "listed E ns0 d ((concat rows @ current) @ [fst r]) s2"
        using listed_post [OF E Suc.prems(1) 1(1)] s2 by simp
      have fuel: "length (pe_tokens E) - pt_cursor s2 < fuel" using Suc.prems(2) s2 d by simp
      have "ok_parse (track E (XArray (rows @ [current @ [fst r]])) (span_merge start (tok_span E (pt_cursor s1))) s2) (node_post E c ns0)"
        using d l by (intro track_closed_ok [OF E _ s2(1) x]) simp_all
      then show ?thesis using Some tok Suc.IH [OF _ fuel, of rows "current @ [fst r]"] l
        Suc.IH [OF _ fuel, of "rows @ [current @ [fst r]]" "[]"] by (auto split: token.splits)
    qed simp
  qed
qed simp

lemma array_literal_ok:
  assumes E: "env_ok E" and rec: "rec_ok E pe"
  shows "ok_parse (parse_array_literal E pe s) (node_post E (pt_cursor s) (pt_node_sources s))"
  unfolding parse_array_literal_def
proof (rule ok_bind, rule expect_ok, goal_cases)
  case (1 start s1)
  have i: "in_tokens E (pt_cursor s) (pt_cursor s1) start" "pt_node_sources s1 = pt_node_sources s"
    using 1 in_tokens_one [OF E, of "pt_cursor s"] by auto
  then have "listed E (pt_node_sources s) (pt_cursor s1) (concat [] @ []) s1"
    using listed_empty [of s1 E] by (simp add: in_tokens_defs)
  from array_loop_ok [OF E rec i(1) order_refl this, of "fuel_of E"] show ?case
    by (simp add: fuel_of_def del: array_loop.simps)
qed

section \<open>Calls\<close>

lemma normalize_node_ok: "node_ok input (XName name) span cs \<Longrightarrow> node_ok input (XBuiltin callable) span cs"
  by (simp add: node_ok_def bodies_ok_def)

lemma paren_node_ok: "node_ok input (XParen a) span cs \<longleftrightarrow> node_ok input (XParen b) span cs"
  by (simp add: node_ok_def bodies_ok_def)

lemma normalize_sourced: "sourced input e xs \<Longrightarrow> sourced input (normalize_callable_argument f e) xs"
proof (induction f e arbitrary: xs rule: normalize_callable_argument.induct)
  case (1 f name)
  then show ?case
    by (cases rule: sourced.cases)
      (auto simp: expr_depth.simps expr_nodes.simps split: option.splits intro!: sourced.intros [of _ _ "[]", simplified] intro: normalize_node_ok)
next
  case (2 f inner)
  from "2.prems" show ?case
  proof (cases rule: sourced.cases)
    case (1 xss r)
    then obtain ys where ys: "xss = [ys]" "sourced input inner ys" by (auto simp: list_all2_Cons1)
    note n = "2.IH" [OF ys(2)]
    note eqs = sourced_last(2,3) [OF n] sourced_last(2,3) [OF ys(2)]
    show ?thesis using 1 ys n eqs sourced.intros [of input "XParen (normalize_callable_argument f inner)" "[ys]" r]
      paren_node_ok [of input inner _ _ "normalize_callable_argument f inner"]
      by (simp add: expr_depth.simps [of "XParen e" for e] expr_nodes.simps [of "XParen e" for e])
  qed
qed simp_all

lemma normalize_arguments_sourced: "list_all2 (sourced input) es xss \<Longrightarrow> list_all2 (sourced input) (normalize_arguments E name es) xss"
  by (auto simp: normalize_arguments_def list_all2_conv_all_nth nth_enumerate_eq intro: normalize_sourced)

lemma listed_normalize: "listed E ns c es s \<Longrightarrow> listed E ns c (normalize_arguments E name es) s"
  unfolding listed_def using normalize_arguments_sourced by blast

lemma listed_strip:
  assumes "listed E ns c [e] s"
  shows "ok_parse (strip_parens e s) (\<lambda>e' s'. listed E ns c [e'] s' \<and> pt_cursor s' = pt_cursor s)"
proof -
  obtain xs where xs: "pt_node_sources s = ns @ xs" "sourced (pe_input E) e xs" "in_range E c (pt_cursor s) (pns_span (last xs))"
    using assms by (auto simp: listed_def list_all2_Cons1)
  obtain e' s' xs' where r: "strip_parens e s = Inr (e', s')" "sourced (pe_input E) e' xs'" "pt_node_sources s' = ns @ xs'"
    "within (pns_span (last xs')) (pns_span (last xs))" "pt_cursor s' = pt_cursor s"
    using strip_parens_sourced [OF xs(2,1)] by blast
  have "in_range E c (pt_cursor s') (pns_span (last xs'))" using xs(3) r(4,5) by (auto simp: in_range_def within_def)
  then have "listed E ns c [e'] s'" using r assms unfolding listed_def by (intro conjI exI [of _ "[xs']"]) simp_all
  then show ?thesis using r by simp
qed

lemma parse_call_ok:
  assumes E: "env_ok E" and rec: "rec_ok E pe" and x: "in_tokens E c (pt_cursor s) start"
  shows "ok_parse (parse_call E pe ident start s) (node_post E c (pt_node_sources s))"
proof -
  have cur: "pt_cursor s \<le> length (pe_tokens E)" using x by (simp add: in_tokens_defs)
  show ?thesis
    unfolding parse_call_def
  proof (rule ok_bind, rule parse_call_args_ok [OF E rec cur], unfold split_beta Let_def, goal_cases)
    case (1 r s1)
    then obtain b where l: "listed E (pt_node_sources s) (pt_cursor s) (fst r) s1" and b: "snd r = tok_span E b" "pt_cursor s1 = Suc b" "pt_cursor s \<le> b"
      by (auto simp: args_post_def)
    have closed: "ok_parse (track E e (span_merge start (snd r)) s2) (node_post E c (pt_node_sources s))"
      if "listed E (pt_node_sources s) (pt_cursor s) (children e) s2" "pt_cursor s2 = pt_cursor s1" for e s2
      unfolding b(1) using that b by (intro track_closed_ok [OF E that(1) _ x order_refl]) simp_all
    have strip: "ok_parse (pbind (strip_parens (hd (fst r))) f s1) (node_post E c (pt_node_sources s))"
      if "length (fst r) = 1" "\<And>e s2. listed E (pt_node_sources s) (pt_cursor s) [e] s2 \<Longrightarrow> pt_cursor s2 = pt_cursor s1 \<Longrightarrow>
        ok_parse (f e s2) (node_post E c (pt_node_sources s))" for f :: "'a expr \<Rightarrow> ('a expr \<times> source_span) parser"
      using l that by (intro ok_bind [OF listed_strip [of E "pt_node_sources s" "pt_cursor s"]]) (auto simp: length_Suc_conv)
    have "ok_parse (track E (XCall ident (normalize_arguments E ident (fst r))) (span_merge start (snd r)) s1) (node_post E c (pt_node_sources s))"
      using closed [of "XCall ident (normalize_arguments E ident (fst r))" s1] listed_normalize [OF l] by simp
    then show ?case using closed by (auto intro!: strip)
  qed
qed

section \<open>Operands\<close>

lemma range_reference_ok:
  assumes E: "env_ok E" and r: "peek_sheet_range_end E s = Some r" and cs: "no_body cs"
  shows "ok_parse (pbind (skip_tokens 4) (\<lambda>_. pbind (parse_ref_body E) (\<lambda>(body, body_span).
      track_reference E sheet body (span_merge (tok_span E (pt_cursor s)) body_span) (cs @ [component_new ReferenceBody body_span]))) s)
    (node_post E (pt_cursor s) (pt_node_sources s))"
proof (rule ok_skip, rule ok_bind, rule parse_ref_body_ok [OF E], goal_cases)
  case (1 b s1)
  let ?start = "tok_span E (pt_cursor s)" and ?s = "s\<lparr>pt_cursor := pt_cursor s + 4\<rparr>"
  have "peek E 3 s = Some TBang" using r by (auto simp: peek_sheet_range_end_def split: if_splits)
  from peek_Some [OF this] have "in_tokens E (pt_cursor s) (pt_cursor ?s) ?start"
    using in_tokens_extend [OF E in_tokens_one [OF E, of "pt_cursor s"], of "pt_cursor s + 4"] by simp
  from started_consumes [OF E this, of "snd b" s1] show ?case
    using 1 track_reference_ok [OF E, of "pt_cursor s" s1] parts_ok_body [OF cs, of E _ _ "snd b"] by (auto simp: split_beta consumes_def)
qed

lemma skip_leaf_ok:
  assumes E: "env_ok E" and "children e = []" "pt_cursor s < length (pe_tokens E)"
  shows "\<not> has_body e \<Longrightarrow> ok_parse (pbind (skip_tokens 1) (\<lambda>_. track_with_components E e (tok_span E (pt_cursor s)) cs) s)
      (node_post E (pt_cursor s) (pt_node_sources s))"
    "ok_parse (pbind (skip_tokens 1) (\<lambda>_. track E e (tok_span E (pt_cursor s))) s) (node_post E (pt_cursor s) (pt_node_sources s))"
  using track_leaf_ok [OF E assms(2), of "pt_cursor s" "s\<lparr>pt_cursor := pt_cursor s + 1\<rparr>"] in_tokens_one [OF E assms(3)]
  by (auto simp: bodies_ok_def intro!: ok_skip)

lemma parse_ident_ok:
  assumes E: "env_ok E" and rec: "rec_ok E pe" and c: "pt_cursor s < length (pe_tokens E)"
  shows "ok_parse (parse_ident E pe ident (tok_span E (pt_cursor s)) s) (node_post E (pt_cursor s) (pt_node_sources s))"
proof -
  let ?start = "tok_span E (pt_cursor s)" and ?Q = "node_post E (pt_cursor s) (pt_node_sources s)"
  let ?s2 = "s\<lparr>pt_cursor := pt_cursor s + 2\<rparr>"
  have two: "in_tokens E (pt_cursor s) (pt_cursor ?s2) ?start" if "peek E 1 s = Some t" for t
    using in_tokens_extend [OF E in_tokens_one [OF E c], of "pt_cursor s + 2"] peek_Some [OF that] by simp
  have qual: "ok_parse (pbind (skip_tokens 2) (\<lambda>_. parse_qualified_target E sheet ?start cs) s) ?Q"
    if "peek E 1 s = Some t" "no_body cs" for t sheet cs
    using qualified_target_ok [OF E two [OF that(1)] that(2)] by (intro ok_skip) simp
  have call: "ok_parse (pbind (skip_tokens 2) (\<lambda>_. parse_call E pe ident ?start) s) ?Q" if "peek E 1 s = Some t" for t
    using parse_call_ok [OF E rec two [OF that]] by (intro ok_skip) simp
  have name: "ok_parse (pbind (try_ref_body E) (\<lambda>r. case r of
        Some (body, span) \<Rightarrow> track_reference E None body span [component_new ReferenceBody span]
      | None \<Rightarrow> pbind (skip_tokens 1) (\<lambda>_.
          if eq_ignore_ascii_case ident (ascii ''TRUE'') then track E (XLogical True) ?start
          else if eq_ignore_ascii_case ident (ascii ''FALSE'') then track E (XLogical False) ?start
          else track_with_components E (XName ident) ?start [component_new DefinedName ?start])) s) ?Q"
  proof (rule ok_bind, rule try_ref_body_ok [OF E], goal_cases)
    case (1 r s1)
    show ?case
    proof (cases r)
      case None
      then have "pt_cursor s1 = pt_cursor s" "pt_node_sources s1 = pt_node_sources s" using 1 by simp_all
      then show ?thesis using None skip_leaf_ok [OF E, of _ s1] c by auto
    next
      case (Some p)
      then show ?thesis using 1 track_reference_ok [OF E, of "pt_cursor s" s1] parts_ok_plain [of E "pt_cursor s" "pt_cursor s1"]
        by (cases p) (auto simp: consumes_def)
    qed
  qed
  show ?thesis
  proof (cases "peek E 1 s = Some TBang")
    case True
    then show ?thesis unfolding parse_ident_def if_P [OF True] by (rule qual) simp
  next
    case bang: False
    show ?thesis
    proof (cases "peek_sheet_range_end E s")
      case (Some r)
      obtain a b d where r: "r = (a, b, d)" by (cases r)
      show ?thesis unfolding parse_ident_def if_not_P [OF bang] Some option.case r prod.case
        using range_reference_ok [OF E Some, of "[component_new SheetQualifier ?start, component_new SheetRangeEnd (sheet_token_content_span d b)]"]
        by simp
    next
      case None
      show ?thesis
        unfolding parse_ident_def if_not_P [OF bang] None option.case
        using call name skip_leaf_ok(2) [OF E _ c, of "XBuiltin callable" for callable]
        by (cases "storage_builtin_callable E ident"; cases "peek E 1 s = Some TLParen") (simp_all only: option.case if_True if_False children.simps simp_thms)
    qed
  qed
qed

lemma parse_primary_ok:
  assumes E: "env_ok E" and rec: "rec_ok E pe"
  shows "ok_parse (parse_primary E pe s) (node_post E (pt_cursor s) (pt_node_sources s))"
proof (cases "pt_cursor s < length (pe_tokens E)")
  case False
  then show ?thesis by (simp add: parse_primary_def get_def)
next
  case c: True
  let ?t = "pe_tokens E ! pt_cursor s" and ?Q = "node_post E (pt_cursor s) (pt_node_sources s)" and ?span = "tok_span E (pt_cursor s)"
  let ?s1 = "s\<lparr>pt_cursor := pt_cursor s + 1\<rparr>"
  have one: "in_tokens E (pt_cursor s) (pt_cursor ?s1) ?span" using in_tokens_one [OF E c] by simp
  have "ok_parse (pbind (parse_structured raw ?span) (\<lambda>(reference, components).
      track_with_components E (XStructuredRef reference) ?span components) ?s1) ?Q" for raw
    by (rule ok_bind, rule parse_structured_ok) (use track_leaf_ok(1) [OF E _ one] in \<open>auto simp: bodies_ok_def\<close>)
  then have structured: "ok_parse (pbind (skip_tokens 1) (\<lambda>_. pbind (parse_structured raw ?span) (\<lambda>(reference, components).
      track_with_components E (XStructuredRef reference) ?span components)) s) ?Q" for raw
    by (intro ok_skip) simp
  have ext: "ok_parse (pbind (skip_tokens 1) (\<lambda>_. parse_external E workbook None None False False ?span) s) ?Q" for workbook
    using parse_external_ok [OF E one, of False] by (intro ok_skip) simp
  have "ok_parse (pbind (pe 0 True) (\<lambda>(inner, _). pbind (expect E TRParen) (\<lambda>stop. track E (XParen inner) (span_merge ?span stop))) ?s1) ?Q"
  proof (rule ok_bind, rule rec_okD [OF rec], unfold split_beta, rule ok_bind, rule expect_ok, goal_cases)
    case (1 r s2 stop s3)
    have l: "listed E (pt_node_sources s) (pt_cursor ?s1) (children (XParen (fst r))) s3"
      using listed_post [OF E listed_empty [of ?s1 E] 1(1), of s3] 1(2) c by simp
    have b: "pt_cursor s3 = Suc (pt_cursor s2)" "stop = tok_span E (pt_cursor s2)" "pt_cursor ?s1 \<le> pt_cursor s2"
      using 1 by (auto simp: node_post_def in_tokens_defs)
    show ?case unfolding b(2) by (rule track_closed_ok [OF E l b(1) one order_refl b(3)])
  qed
  then have paren: "ok_parse (pbind (skip_tokens 1) (\<lambda>_. pbind (pe 0 True) (\<lambda>(inner, _).
      pbind (expect E TRParen) (\<lambda>stop. track E (XParen inner) (span_merge ?span stop)))) s) ?Q"
    by (intro ok_skip) simp
  have quoted: "ok_parse (parse_quoted_prefix E name ?span s) ?Q" if "st_token ?t = TQuotedSheet name" for name
    using that c quoted_prefix_ok [OF E, of s name] by (simp add: peek_def get_def)
  have get: "get (pe_tokens E) (pt_cursor s) = Some ?t" using c by (simp add: get_def)
  show ?thesis
    unfolding parse_primary_def get option.case Let_def tok_span_def [symmetric]
    using structured ext paren quoted skip_leaf_ok(2) [OF E _ c] plain_reference_ok [OF E] array_literal_ok [OF E rec]
      parse_ident_ok [OF E rec c]
    by (cases "st_token ?t") simp_all
qed

lemma parse_prefix_ok:
  assumes E: "env_ok E" and rec: "rec_ok E pe"
  shows "ok_parse (parse_prefix E pe allow_union s) (node_post E (pt_cursor s) (pt_node_sources s))"
proof -
  have operator: "ok_parse (pbind (skip_tokens 1) (\<lambda>_. pbind (pe 61 allow_union) (\<lambda>(operand, operand_span).
      track E (build operand) (span_merge (span_at E 0 s) operand_span))) s) (node_post E (pt_cursor s) (pt_node_sources s))"
    if t: "peek E 0 s = Some t" and build: "\<And>e. children (build e) = [e]" for t build
  proof (rule ok_skip, rule ok_bind, rule rec_okD [OF rec], unfold split_beta, goal_cases)
    case (1 r s1)
    have c: "pt_cursor s < length (pe_tokens E)" using peek_Some [OF t] by simp
    have span: "span_at E 0 s = tok_span E (pt_cursor s)" using span_at_tok [of s 0 E] c by simp
    have r: "in_tokens E (Suc (pt_cursor s)) (pt_cursor s1) (snd r)" using 1 by (simp add: node_post_def)
    have "within (snd r) (span_merge (tok_span E (pt_cursor s)) (snd r))" using r by (intro merge_within) (simp add: in_tokens_defs)
    from node_post_built [OF 1 this] have b: "built (pe_input E) (pt_node_sources s) (children (build (fst r))) (span_merge (tok_span E (pt_cursor s)) (snd r)) (span_end (snd r)) s1"
      using build by simp
    have "in_tokens E (pt_cursor s) (pt_cursor s1) (span_merge (tok_span E (pt_cursor s)) (snd r))"
      using in_tokens_join [OF E in_tokens_one [OF E c] r] r by (simp add: in_tokens_defs)
    then show ?case unfolding span by (rule track_ok [OF E b])
  qed
  show ?thesis
  proof (cases "peek E 0 s")
    case None
    then show ?thesis using parse_primary_ok [OF E rec] by (simp add: parse_prefix_def)
  next
    case (Some t)
    then show ?thesis
      using operator [OF Some, of "XUnary op" for op] operator [OF Some, of XImplicit] parse_primary_ok [OF E rec, of s]
      by (cases t) (simp_all add: parse_prefix_def Let_def)
  qed
qed

section \<open>Operators\<close>

lemma track_node_cursor: "track_node E e span cs s = Inr (r, s') \<Longrightarrow> pt_cursor s' = pt_cursor s"
  by (auto simp: track_node_def Let_def split: if_splits option.splits)

lemma bind_Inr: "pbind m f s = Inr r \<Longrightarrow> \<exists>a s'. m s = Inr (a, s') \<and> f a s' = Inr r"
  by (auto simp: pbind_def split: sum.splits)

lemma trimmed_cursor: "trimmed E e mode s = Inr (r, s') \<Longrightarrow> pt_cursor s' = pt_cursor s"
  by (auto simp: trimmed_def Let_def dest!: bind_Inr track_node_cursor)

lemma track_cursor: "track E e span s = Inr (r, s') \<Longrightarrow> pt_cursor s' = pt_cursor s"
  by (auto simp: track_def track_with_components_def take_trim_def preturn_def split: expr.splits option.splits
    dest!: bind_Inr track_node_cursor trimmed_cursor)

lemma ok_and: "ok_parse r Q \<Longrightarrow> (\<And>a s. r = Inr (a, s) \<Longrightarrow> P a s) \<Longrightarrow> ok_parse r (\<lambda>a s. Q a s \<and> P a s)"
  by (auto simp: ok_parse_def split: sum.splits)

text \<open>One turn of the loop: the nodes recorded are those of the new operand, and a token was consumed.\<close>

definition grown :: "'n parse_env \<Rightarrow> nat \<Rightarrow> pending_node_source list \<Rightarrow> parse_state \<Rightarrow> 'n expr \<times> source_span \<Rightarrow> parse_state \<Rightarrow> bool" where
  "grown E c ns s r s' \<longleftrightarrow> node_post E c ns r s' \<and> pt_cursor s < pt_cursor s'"

lemma track_grown:
  assumes "ok_parse (track E e span s1) (node_post E c ns)" "pt_cursor s < pt_cursor s1"
  shows "ok_parse (track E e span s1) (grown E c ns s)"
  unfolding grown_def using assms(2) by (intro ok_and [OF assms(1)]) (auto dest: track_cursor)

lemma ok_if: "(b \<Longrightarrow> ok_parse x Q) \<Longrightarrow> (\<not> b \<Longrightarrow> ok_parse y Q) \<Longrightarrow> ok_parse (if b then x else y) Q"
  by simp

lemma ok_continue:
  "ok_parse (m s) (grown E c ns s) \<Longrightarrow> ok_parse (pbind m (\<lambda>r. preturn (Some r)) s)
    (\<lambda>r s'. case r of None \<Rightarrow> s' = s | Some left' \<Rightarrow> grown E c ns s left' s')"
  by (rule ok_bind) auto

text \<open>The arguments after the operand that is called.\<close>

lemma built_args:
  assumes E: "env_ok E" and b: "built (pe_input E) ns [e] (span_merge x (tok_span E b)) (span_end x) s" and x: "in_tokens E c c' x" "c' \<le> d"
    and l: "listed E (pt_node_sources s) d es s'" "pt_cursor s' = Suc b"
  shows "built (pe_input E) ns (e # es) (span_merge x (tok_span E b)) (max (span_end x) (span_end (tok_span E b))) s'"
proof -
  obtain xs where xs: "pt_node_sources s = ns @ xs" "sourced (pe_input E) e xs" "within (pns_span (last xs)) (span_merge x (tok_span E b))"
    "span_end (pns_span (last xs)) \<le> span_end x" using b by (auto simp: built_def list_all2_Cons1)
  obtain yss where ys: "pt_node_sources s' = pt_node_sources s @ concat yss" "list_all2 (sourced (pe_input E)) es yss"
    "in_order (map (pns_span \<circ> last) yss)" "\<And>ys. ys \<in> set yss \<Longrightarrow> in_range E d (Suc b) (pns_span (last ys))"
    using l by (auto simp: listed_def)
  have xr: "in_range E c c' x" using x(1) by (simp add: in_tokens_def)
  have sep: "span_end (pns_span (last xs)) \<le> span_start (pns_span (last ys))" if "ys \<in> set yss" for ys
    using in_range_before [OF E xr ys(4) [OF that] x(2)] xs(4) by simp
  then have ord: "in_order (map (pns_span \<circ> last) ([xs] @ yss))" using ys(3) by (simp add: in_order_def)
  have "within (pns_span (last ys)) (span_merge x (tok_span E b)) \<and> span_end (pns_span (last ys)) \<le> max (span_end x) (span_end (tok_span E b))"
    if "ys \<in> set ([xs] @ yss)" for ys
  proof (cases "ys \<in> set yss")
    case True
    then show ?thesis using closing_within [OF E x(1) ys(4) x(2)] ys(4) [OF True] by (auto simp: in_range_def)
  next
    case False
    then show ?thesis using that xs(3,4) by simp
  qed
  then show ?thesis unfolding built_def
    using xs(1,2) ys(1,2) ord by (intro exI [of _ "[xs] @ yss"]) simp
qed

lemma built_strip:
  assumes "built input ns [e] span m s"
  shows "ok_parse (strip_parens e s) (\<lambda>e' s'. built input ns [e'] span m s' \<and> pt_cursor s' = pt_cursor s)"
proof -
  obtain xs where xs: "pt_node_sources s = ns @ xs" "sourced input e xs" "within (pns_span (last xs)) span" "span_end (pns_span (last xs)) \<le> m"
    using assms by (auto simp: built_def list_all2_Cons1)
  obtain e' s' xs' where r: "strip_parens e s = Inr (e', s')" "sourced input e' xs'" "pt_node_sources s' = ns @ xs'"
    "within (pns_span (last xs')) (pns_span (last xs))" "pt_cursor s' = pt_cursor s"
    using strip_parens_sourced [OF xs(2,1)] by blast
  have "built input ns [e'] span m s'" unfolding built_def
    using r(2,3) r(4) [unfolded within_def] xs(4) within_trans [OF r(4) xs(3)] by (intro exI [of _ "[xs']"]) simp
  then show ?thesis using r by simp
qed

text \<open>The operand on the left, seen from within the span of the new expression.\<close>

lemma left_built:
  assumes p: "node_post E c ns left s" and s': "pt_node_sources s' = pt_node_sources s"
  shows "built (pe_input E) ns [fst left] (span_merge (snd left) span) (span_end (snd left)) s'" "in_tokens E c (pt_cursor s) (snd left)"
proof -
  show i: "in_tokens E c (pt_cursor s) (snd left)" using p by (simp add: node_post_def)
  then have "within (snd left) (span_merge (snd left) span)" by (intro merge_within) (simp add: in_tokens_defs)
  from node_post_built [OF p this] show "built (pe_input E) ns [fst left] (span_merge (snd left) span) (span_end (snd left)) s'" using built_state [OF s'] by blast
qed

lemma postfix_grown:
  assumes E: "env_ok E" and p: "node_post E c ns left s" and s1: "pt_cursor s1 = Suc (pt_cursor s)" "pt_cursor s < length (pe_tokens E)"
    and b: "built (pe_input E) ns (children e) (span_merge (snd left) (tok_span E (pt_cursor s))) m s1"
  shows "ok_parse (track E e (span_merge (snd left) (tok_span E (pt_cursor s))) s1) (grown E c ns s)"
proof (rule track_grown [OF track_ok [OF E b]])
  show "in_tokens E c (pt_cursor s1) (span_merge (snd left) (tok_span E (pt_cursor s)))"
    using closing_in_tokens [OF E left_built(2) [OF p refl] order_refl s1(2)] s1(1) by simp
qed (use s1 in simp)

lemma two_grown:
  assumes E: "env_ok E" and l: "node_post E c ns left s" and s1: "pt_cursor (s1 :: parse_state) = Suc (pt_cursor s)" "pt_node_sources s1 = pt_node_sources s"
    and r: "node_post E (pt_cursor s1) (pt_node_sources s1) right s2" and e: "children e = [fst left, fst right]"
  shows "ok_parse (track E e (span_merge (snd left) (snd right)) s2) (grown E c ns s)"
proof (rule track_grown [OF track_ok [OF E]])
  let ?span = "span_merge (snd left) (snd right)"
  have i: "in_tokens E (pt_cursor s1) (pt_cursor s2) (snd right)" using r by (simp add: node_post_def)
  then have "within (snd right) ?span" by (intro merge_within) (simp add: in_tokens_defs)
  have "span_end (snd left) \<le> span_start (snd right)"
    using in_range_before [OF E, of c "pt_cursor s" "snd left" "pt_cursor s1" "pt_cursor s2" "snd right"] left_built(2) [OF l refl] i s1(1)
    by (simp add: in_tokens_def)
  from built_add [OF left_built(1) [OF l s1(2)] r \<open>within _ _\<close> this]
  show "built (pe_input E) ns (children e) ?span (span_end (snd right)) s2" using e by simp
  show "pt_cursor s < pt_cursor s2" using i s1 by (simp add: in_tokens_defs)
  then show "in_tokens E c (pt_cursor s2) ?span"
    using in_tokens_join [OF E left_built(2) [OF l refl] i] s1 left_built(2) [OF l refl] by (simp add: in_tokens_defs)
qed

lemma reference_operator_ok:
  assumes E: "env_ok E" and rec: "rec_ok E pe" and p: "node_post E c ns left s" and build: "\<And>a b. children (build a b) = [a, b]"
  shows "ok_parse (reference_operator E pe bp allow_union build left s) (grown E c ns s)"
  unfolding reference_operator_def Let_def
proof (rule ok_skip, rule ok_bind, rule rec_okD [OF rec], goal_cases)
  case (1 right s2)
  show ?case using two_grown [OF E p _ _ 1, of "build (fst left) (fst right)"] build by auto
qed

lemma invoke_ok:
  assumes E: "env_ok E" and rec: "rec_ok E pe" and p: "node_post E c ns left s" and t: "pt_cursor s < length (pe_tokens E)"
  shows "ok_parse (pbind (skip_tokens 1) (\<lambda>_. pbind (parse_call_args E pe) (\<lambda>(args, stop).
      track E (XInvoke (fst left) args) (span_merge (snd left) stop))) s) (grown E c ns s)"
proof (rule ok_skip, rule ok_bind, rule parse_call_args_ok [OF E rec], goal_cases)
  case (2 r s1)
  let ?s = "s\<lparr>pt_cursor := pt_cursor s + 1\<rparr>"
  obtain b where l: "listed E (pt_node_sources ?s) (pt_cursor ?s) (fst r) s1" and b: "snd r = tok_span E b" "pt_cursor s1 = Suc b" "Suc (pt_cursor s) \<le> b"
    using 2 by (auto simp: args_post_def)
  note span = left_built(2) [OF p refl]
  have "built (pe_input E) ns (children (XInvoke (fst left) (fst r))) (span_merge (snd left) (snd r))
      (max (span_end (snd left)) (span_end (tok_span E b))) s1"
    using built_args [OF E left_built(1) [OF p, of ?s] span _ l b(2)] b(1) by simp
  moreover have "in_tokens E c (pt_cursor s1) (span_merge (snd left) (snd r))"
    using closing_in_tokens [OF E span, of b] l b by (simp add: listed_def)
  ultimately show ?case using track_grown [OF track_ok [OF E]] b by (auto simp: split_beta)
qed (use t in simp)

lemma operator_step_ok:
  assumes E: "env_ok E" and rec: "rec_ok E pe" and p: "node_post E c ns left s"
  shows "ok_parse (operator_step E pe min_bp allow_union left s)
    (\<lambda>r s'. case r of None \<Rightarrow> s' = s | Some left' \<Rightarrow> grown E c ns s left' s')"
proof -
  let ?s1 = "s\<lparr>pt_cursor := pt_cursor s + 1\<rparr>"
  have hash: "ok_parse (pbind (expect E THash) (\<lambda>stop.
      if \<not> can_be_reference_expression (fst left) then pfail (code_error UnexpectedToken stop)
      else pbind (strip_parens (fst left)) (\<lambda>anchor.
        if is_spill anchor then pfail (code_error UnexpectedToken stop)
        else track E (XSpillRef anchor) (span_merge (snd left) stop))) s) (grown E c ns s)"
  proof (rule ok_bind, rule expect_ok, goal_cases)
    case (1 stop s1)
    have "ok_parse (pbind (strip_parens (fst left)) (\<lambda>anchor.
        if is_spill anchor then pfail (code_error UnexpectedToken stop)
        else track E (XSpillRef anchor) (span_merge (snd left) stop)) s1) (grown E c ns s)"
      by (rule ok_bind, rule built_strip, rule left_built(1) [OF p, where span = stop]) (use 1 postfix_grown [OF E p] in auto)
    then show ?case by simp
  qed
  have percent: "ok_parse (pbind (expect E TPercent) (\<lambda>stop. track E (XUnary OpPercent (fst left)) (span_merge (snd left) stop)) s) (grown E c ns s)"
    by (rule ok_bind, rule expect_ok) (use postfix_grown [OF E p, of ?s1 "XUnary OpPercent (fst left)" "span_end (snd left)"] left_built(1) [OF p, of ?s1] in auto)
  have binary: "ok_parse (pbind (skip_tokens 1) (\<lambda>_. pbind (pe bp allow_union) (\<lambda>right.
      track E (XBinary op (fst left) (fst right)) (span_merge (snd left) (snd right)))) s) (grown E c ns s)" for op bp
    by (rule ok_skip, rule ok_bind, rule rec_okD [OF rec]) (use two_grown [OF E p, of ?s1] in auto)
  have colon: "ok_parse (pbind (reference_operator E pe 81 allow_union XRange left) (\<lambda>r.
      case t of Some (TTrimColon mode) \<Rightarrow> trimmed E r mode | _ \<Rightarrow> preturn r) s) (grown E c ns s)" for t :: "'a token option"
  proof (rule ok_bind, rule reference_operator_ok [OF E rec p], simp, goal_cases)
    case (1 r s1)
    have "ok_parse (trimmed E r mode s1) (grown E c ns s)" for mode
      unfolding grown_def using 1 by (intro ok_and [OF trimmed_ok [OF E]]) (auto simp: grown_def dest: trimmed_cursor)
    then show ?case using 1 by (auto split: option.splits token.splits)
  qed
  note refop = reference_operator_ok [OF E rec p]
  have invoke: "ok_parse (pbind (skip_tokens 1) (\<lambda>_. pbind (parse_call_args E pe) (\<lambda>(args, stop).
      track E (XInvoke (fst left) args) (span_merge (snd left) stop))) s) (grown E c ns s)" if "peek E 0 s = Some TLParen"
    using invoke_ok [OF E rec p] peek_Some [OF that] by simp
  show ?thesis
    unfolding operator_step_def Let_def
  proof (intro ok_if, goal_cases)
    case 8
    show ?case
    proof (cases "Option.bind (peek E 0 s) binary_operator")
      case (Some r)
      then show ?thesis unfolding Some option.case split_beta by (intro ok_if) (simp, rule ok_continue, rule binary)
    qed simp
  qed (rule ok_continue hash percent colon refop invoke | simp)+
qed

lemma operator_loop_ok:
  assumes E: "env_ok E" and rec: "rec_ok E pe"
  shows "node_post E c ns left s \<Longrightarrow> length (pe_tokens E) - pt_cursor s < fuel \<Longrightarrow>
    ok_parse (operator_loop E pe fuel min_bp allow_union left s) (node_post E c ns)"
proof (induction fuel arbitrary: left s)
  case (Suc fuel)
  show ?case
    unfolding operator_loop.simps
  proof (rule ok_bind, rule operator_step_ok [OF E rec Suc.prems(1)], goal_cases)
    case (1 r s')
    show ?case
    proof (cases r)
      case None
      then show ?thesis using 1 Suc.prems(1) by simp
    next
      case (Some left')
      then have g: "node_post E c ns left' s'" "pt_cursor s < pt_cursor s'" using 1 by (simp_all add: grown_def)
      then have "pt_cursor s' \<le> length (pe_tokens E)" by (simp add: node_post_def in_tokens_defs)
      then show ?thesis using Some Suc.IH [OF g(1)] g(2) Suc.prems(2) by simp
    qed
  qed
qed simp

lemma parse_expr_ok: "env_ok E \<Longrightarrow> rec_ok E (parse_expr E n)"
proof (induction n)
  case (Suc n)
  have "ok_parse (parse_expr_inner E (parse_expr E n) bp u s) (node_post E (pt_cursor s) (pt_node_sources s))" for bp u s
    unfolding parse_expr_inner_def
  proof (rule ok_bind, rule parse_prefix_ok [OF Suc.prems Suc.IH [OF Suc.prems]], goal_cases)
    case (1 left s1)
    have "length (pe_tokens E) - pt_cursor s1 < fuel_of E" by (simp add: fuel_of_def)
    from operator_loop_ok [OF Suc.prems Suc.IH [OF Suc.prems] 1 this] show ?case .
  qed
  then show ?case by (simp add: rec_ok_def)
qed (simp add: rec_ok_def)

lemma sourced_extend:
  assumes "sourced input e xs" "within (pns_span (last xs)) span" "stretch input span"
  shows "sourced input e (butlast xs @ [(last xs)\<lparr>pns_span := span\<rparr>])"
  using assms
proof (cases rule: sourced.cases)
  case (1 xss r)
  have "parts_ok input (pns_span r) cs \<Longrightarrow> parts_ok input span cs" for cs
    using 1(1) assms(2) within_trans by (auto simp: parts_ok_def)
  then have "node_ok input e span (pns_components r)"
    using 1(5) assms(3) by (auto simp: node_ok_def bodies_ok_def stretch_def)
  then show ?thesis using 1 assms(2) sourced.intros [of input e xss "r\<lparr>pns_span := span\<rparr>"] within_trans
    by auto
qed

text \<open>The expression of a formula, which the nodes recorded describe.\<close>

definition root_post :: "'n parse_env \<Rightarrow> nat \<Rightarrow> 'n expr \<times> source_span \<Rightarrow> parse_state \<Rightarrow> bool" where
  "root_post E c r s \<longleftrightarrow> in_tokens E c (pt_cursor s) (snd r) \<and>
    sourced (pe_input E) (fst r) (pt_node_sources s) \<and> pns_span (last (pt_node_sources s)) = snd r \<and>
    length (pt_node_sources s) \<le> pe_max_ast_nodes E \<and> expr_depth (fst r) \<le> pe_max_ast_depth E"

lemma parse_root_ok:
  assumes E: "env_ok E" and s: "pt_node_sources s = []"
  shows "ok_parse (parse_root E s) (root_post E (pt_cursor s))"
  unfolding parse_root_def
proof (rule ok_bind, rule eat_ok, rule ok_bind, rule rec_okD [OF parse_expr_ok [OF E]], goal_cases)
  case (1 prefix s1 r s2)
  have s1: "pt_node_sources s1 = []" using 1(1) s by (auto split: option.splits)
  then have post: "root_post E (pt_cursor s1) r s2" using 1(2) by (auto simp: node_post_def root_post_def)
  then have r: "sourced (pe_input E) (fst r) (pt_node_sources s2)" and i: "in_tokens E (pt_cursor s1) (pt_cursor s2) (snd r)"
    by (simp_all add: root_post_def)
  show ?case
  proof (cases prefix)
    case None
    then show ?thesis using post 1(1) by (cases r) simp
  next
    case (Some span)
    then have p: "in_tokens E (pt_cursor s) (pt_cursor s1) span" using 1(1) in_tokens_one [OF E, of "pt_cursor s"] by simp
    have "within (snd r) (span_merge span (snd r))" using i by (intro merge_within) (simp add: in_tokens_defs)
    moreover have "in_tokens E (pt_cursor s) (pt_cursor s2) (span_merge span (snd r))"
      using in_tokens_join [OF E p i] p i by (simp add: in_tokens_defs)
    ultimately show ?thesis using Some post sourced_extend [OF r, of "span_merge span (snd r)"] sourced_last [OF r]
      by (cases r) (auto simp: root_post_def in_tokens_def Let_def)
  qed
qed

section \<open>The tokens of a lexed formula\<close>

lemma ordered_snoc:
  "ordered_tokens (ts @ [t]) \<longleftrightarrow> ordered_tokens ts \<and> span_start (st_span t) \<le> span_end (st_span t) \<and>
    (ts \<noteq> [] \<longrightarrow> span_end (st_span (last ts)) \<le> span_start (st_span t))"
  by (cases ts rule: rev_cases) (fastforce simp: ordered_tokens_def sorted_wrt_append)+

lemma ordered_Cons:
  "ordered_tokens (t # ts) \<Longrightarrow> ordered_tokens ts \<and> span_start (st_span t) \<le> span_end (st_span t) \<and>
    (ts \<noteq> [] \<longrightarrow> span_end (st_span t) \<le> span_start (st_span (hd ts)))"
  by (auto simp: ordered_tokens_def)

lemma semantic_ordered:
  assumes "ordered_tokens acc" "ordered_tokens ts"
    "acc \<noteq> [] \<Longrightarrow> ts \<noteq> [] \<Longrightarrow> span_end (st_span (last acc)) \<le> span_start (st_span (hd ts))"
  shows "ordered_tokens (foldl add_semantic acc ts)"
  using assms
proof (induction ts arbitrary: acc)
  case (Cons t ts)
  note t = ordered_Cons [OF Cons.prems(2)]
  have "ordered_tokens (acc @ [t])" using Cons.prems(1,3) t by (auto simp: ordered_snoc)
  moreover have "ordered_tokens ((acc @ [\<lparr>st_token = TIntersection,
      st_span = span_new (span_end (st_span (last acc))) (span_start (st_span t))\<rparr>]) @ [t])"
    if "acc \<noteq> []" unfolding ordered_snoc using that Cons.prems(1,3) t by simp
  ultimately have "ordered_tokens (add_semantic acc t)" by (simp add: add_semantic_def)
  then show ?case using Cons.IH [of "add_semantic acc t"] t by simp
qed simp

lemma piece_token_place:
  "t \<in> set (piece_tokens n ps) \<Longrightarrow> \<exists>p s q. pieces_text ps = p @ s @ q \<and> (s, Some (st_token t)) \<in> set ps \<and>
    st_span t = span_new (n + utf8_len p) (n + utf8_len p + utf8_len s)"
proof (induction n ps rule: piece_tokens.induct)
  case (2 n s ps)
  then obtain p u q where "pieces_text ps = p @ u @ q" "(u, Some (st_token t)) \<in> set ps"
    "st_span t = span_new (n + utf8_len s + utf8_len p) (n + utf8_len s + utf8_len p + utf8_len u)" by auto
  then show ?case by (intro exI [of _ "s @ p"] exI [of _ u] exI [of _ q]) (simp add: add.assoc)
next
  case (3 n s u ps)
  show ?case
  proof (cases "t \<in> set (piece_tokens (n + utf8_len s) ps)")
    case True
    then obtain p v q where "pieces_text ps = p @ v @ q" "(v, Some (st_token t)) \<in> set ps"
      "st_span t = span_new (n + utf8_len s + utf8_len p) (n + utf8_len s + utf8_len p + utf8_len v)" using 3 by auto
    then show ?thesis by (intro exI [of _ "s @ p"] exI [of _ v] exI [of _ q]) (simp add: add.assoc)
  next
    case False
    then show ?thesis using "3.prems" by (intro exI [of _ "[]"] exI [of _ s] exI [of _ "pieces_text ps"]) auto
  qed
qed simp

lemma piece_tokens_ordered: "ordered_tokens (piece_tokens n ps)"
proof (induction n ps rule: piece_tokens.induct)
  case (3 n s u ps)
  have "n + utf8_len s \<le> span_start (st_span t)" if "t \<in> set (piece_tokens (n + utf8_len s) ps)" for t
    using piece_token_place [OF that] by auto
  then show ?case using 3 by (auto simp: ordered_tokens_def)
qed (simp_all add: ordered_tokens_def)

lemma boundary_append: "is_char_boundary (p @ q) (utf8_len p)"
  by (simp add: is_char_boundary_def byte_drop_append)

lemma stretch_mid: "s \<noteq> [] \<Longrightarrow> stretch (p @ s @ q) (span_new (utf8_len p) (utf8_len p + utf8_len s))"
  using boundary_append [of p "s @ q"] boundary_append [of "p @ s" q] by (cases s) (simp_all add: stretch_def)

lemma piece_tokens_stretch:
  assumes "list_all (piece_ok L) ps" "t \<in> set (piece_tokens 0 ps)"
  shows "stretch (pieces_text ps) (st_span t)"
proof -
  obtain p s q where p: "pieces_text ps = p @ s @ q" "(s, Some (st_token t)) \<in> set ps" "st_span t = span_new (0 + utf8_len p) (0 + utf8_len p + utf8_len s)"
    using piece_token_place [OF assms(2)] by blast
  have "s \<noteq> []" using assms(1) p(2) by (auto simp: list_all_iff)
  then show ?thesis using stretch_mid [of s p q] p by simp
qed

lemma semantic_stretch:
  "\<forall>t\<in>set acc. stretch s (st_span t) \<Longrightarrow> \<forall>t\<in>set ts. stretch s (st_span t) \<Longrightarrow>
    \<forall>t\<in>set (foldl add_semantic acc ts). stretch s (st_span t)"
proof (induction ts arbitrary: acc)
  case (Cons t ts)
  have "stretch s (span_new (span_end (st_span (last acc))) (span_start (st_span t)))"
    if "acc \<noteq> []" "span_end (st_span (last acc)) < span_start (st_span t)"
  proof -
    have "stretch s (st_span (last acc))" "stretch s (st_span t)" using Cons.prems that(1) by simp_all
    then show ?thesis using that(2) by (simp add: stretch_def)
  qed
  then have "\<forall>u\<in>set (add_semantic acc t). stretch s (st_span u)"
    using Cons.prems by (simp add: add_semantic_def)
  from Cons.IH [OF this] show ?case using Cons.prems(2) by simp
qed simp

lemma lexed_tokens_ok:
  assumes "lex_spanned L input max_tokens = Inr f"
  shows "ordered_tokens (lf_tokens f)" "quoted_tokens input (lf_tokens f)"
    "\<And>t. t \<in> set (lf_tokens f) \<Longrightarrow> span_end (st_span t) \<le> utf8_len input"
    "\<forall>t\<in>set (lf_tokens f). stretch input (st_span t)"
proof -
  obtain ps where ps: "pieces_text ps = input" "list_all (piece_ok L) ps" "lf_tokens f = foldl add_semantic [] (piece_tokens 0 ps)"
    using lex_spanned_pieces [OF assms] .
  note ni = piece_tokens_not_intersection [OF ps(2), of 0]
  have src: "t \<in> set (piece_tokens 0 ps)" if "t \<in> set (lf_tokens f)" "st_token t \<noteq> TIntersection" for t
  proof -
    have "t \<in> set (filter not_intersection (lf_tokens f))" using that by (simp add: not_intersection_def)
    then show ?thesis using semantic_tokens [OF ni, of "[]"] ps(3) by simp
  qed
  show "\<forall>t\<in>set (lf_tokens f). stretch input (st_span t)"
    unfolding ps(3) using piece_tokens_stretch [OF ps(2)] ps(1) by (intro semantic_stretch) simp_all
  show o: "ordered_tokens (lf_tokens f)"
    unfolding ps(3) by (rule semantic_ordered) (simp_all add: piece_tokens_ordered, simp add: ordered_tokens_def)
  show "quoted_tokens input (lf_tokens f)"
    unfolding quoted_tokens_def
  proof (intro ballI allI impI)
    fix t name assume t: "t \<in> set (lf_tokens f)" "st_token t = TQuotedSheet name"
    have "t \<in> set (piece_tokens 0 ps)" using src t by simp
    from piece_token_place [OF this] obtain p s q where p: "pieces_text ps = p @ s @ q" "(s, Some (st_token t)) \<in> set ps"
      "st_span t = span_new (0 + utf8_len p) (0 + utf8_len p + utf8_len s)" by blast
    have "piece_ok L (s, Some (st_token t))" using ps(2) p(2) by (auto simp: list_all_iff)
    then show "byte_slice input (span_start (st_span t)) (span_end (st_span t)) = Some ([39] @ double_quotes 39 name @ [39])"
      using t(2) p ps(1) byte_slice_mid [of p s q] by simp
  qed
  have last_end: "span_end (st_span t) \<le> utf8_len input" if "t \<in> set (piece_tokens 0 ps)" for t
    using piece_token_place [OF that] ps(1) by auto
  show "span_end (st_span t) \<le> utf8_len input" if t: "t \<in> set (lf_tokens f)" for t
  proof (cases "piece_tokens 0 ps = []")
    case True
    then show ?thesis using ps(3) t by simp
  next
    case False
    have "last (lf_tokens f) \<in> set (piece_tokens 0 ps)" using False last_semantic [OF False, of "[]"] ps(3) by simp
    moreover have "span_end (st_span t) \<le> span_end (st_span (last (lf_tokens f)))"
      using t o by (cases "lf_tokens f" rule: rev_cases) (auto simp: ordered_tokens_def sorted_wrt_append intro: order_trans)
    ultimately show ?thesis using last_end order_trans by blast
  qed
qed

section \<open>The final checks\<close>

lemma fold_max_le: "fold max (map f xs) 0 \<le> (m :: nat) \<longleftrightarrow> (\<forall>x\<in>set xs. f x \<le> m)"
proof (induction xs)
  case (Cons x xs)
  then show ?case using fold_max [of f xs "f x"] by simp
qed simp

lemma validate_loop_iff:
  "validate_loop max_nodes max_depth span nodes pending = None \<longleftrightarrow>
    (pending \<noteq> [] \<longrightarrow> nodes + sum_list (map (\<lambda>p. expr_nodes (fst p)) pending) \<le> max_nodes) \<and>
    (\<forall>p\<in>set pending. snd p + expr_depth (fst p) \<le> Suc max_depth)"
proof (induction max_nodes max_depth span nodes pending rule: validate_loop.induct)
  case (2 max_nodes max_depth span nodes current depth pending)
  let ?next = "rev (map (\<lambda>child. (child, depth + 1)) (children current)) @ pending"
  have n: "expr_nodes current = Suc (sum_list (map expr_nodes (children current)))" by (simp add: expr_nodes.simps [of current])
  have d: "depth + expr_depth current \<le> Suc max_depth \<longleftrightarrow> depth \<le> max_depth \<and> (\<forall>c\<in>set (children current). depth + expr_depth c \<le> max_depth)"
    using fold_max_le [of expr_depth "children current" "max_depth - depth"] by (auto simp: expr_depth.simps [of current])
  show ?case
  proof (cases "nodes + 1 > max_nodes \<or> depth > max_depth")
    case True
    then show ?thesis using n d by auto
  next
    case False
    then have "\<not> nodes + 1 > max_nodes" "\<not> depth > max_depth" by simp_all
    note ih = 2 [OF this]
    have sum: "sum_list (map (\<lambda>p. expr_nodes (fst p)) ?next) =
        sum_list (map expr_nodes (children current)) + sum_list (map (\<lambda>p. expr_nodes (fst p)) pending)"
      by (simp add: rev_map [symmetric] sum_list_rev comp_def)
    have empty: "?next = [] \<longrightarrow> sum_list (map expr_nodes (children current)) + sum_list (map (\<lambda>p. expr_nodes (fst p)) pending) = 0"
      by simp
    have step: "validate_loop max_nodes max_depth span nodes ((current, depth) # pending) =
        validate_loop max_nodes max_depth span (nodes + 1) ?next"
      using False by simp
    show ?thesis unfolding step ih sum using empty False by (auto simp: n d ball_Un)
  qed
qed simp

lemma validate_ast_limits_iff:
  "validate_ast_limits max_nodes max_depth e span = None \<longleftrightarrow> expr_nodes e \<le> max_nodes \<and> expr_depth e \<le> max_depth"
  unfolding validate_ast_limits_def validate_loop_iff by simp

fun tree_span :: "node_span_tree \<Rightarrow> source_span" where
  "tree_span (NodeSpanTree span _ _) = span"

text \<open>The tree has the shape of the expression: the span of a node is a stretch of the source and contains
those of its children, which follow each other.\<close>

inductive mirrors :: "ustring \<Rightarrow> 'n expr \<Rightarrow> node_span_tree \<Rightarrow> bool" for input where
  "list_all2 (mirrors input) (children e) trees \<Longrightarrow> \<forall>t\<in>set trees. within (tree_span t) span \<Longrightarrow>
    in_order (map tree_span trees) \<Longrightarrow> node_ok input e span components \<Longrightarrow>
    mirrors input e (NodeSpanTree span components trees)"
monos list.rel_mono

text \<open>Reading the nodes of an expression back gives a tree that mirrors it, whatever comes after them.\<close>

definition reads_back :: "ustring \<Rightarrow> 'n expr \<Rightarrow> pending_node_source list \<Rightarrow> node_span_tree \<Rightarrow> bool" where
  "reads_back input e xs t \<longleftrightarrow>
    (\<forall>rest. from_postorder e (rev xs @ rest) = Some (t, rest)) \<and> mirrors input e t \<and> tree_span t = pns_span (last xs)"

lemma from_postorder_list_append:
  "from_postorder_list (es @ [e]) sources =
    Option.bind (from_postorder_list es sources)
      (\<lambda>(trees, rest). map_option (\<lambda>(tree, rest). (trees @ [tree], rest)) (from_postorder e rest))"
  by (induction es arbitrary: sources) (auto simp: option.map_comp comp_def split_beta' split: Option.bind_splits intro!: option.map_cong)

lemma reads_back_list:
  assumes "list_all2 (\<lambda>e xs. \<exists>t. reads_back input e xs t) es xss"
  shows "\<exists>ts. (\<forall>rest. from_postorder_list (rev es) (rev (concat xss) @ rest) = Some (rev ts, rest)) \<and>
    list_all2 (mirrors input) es ts \<and> map tree_span ts = map (pns_span \<circ> last) xss"
  using assms
proof (induction rule: list_all2_induct)
  case (Cons e es xs xss)
  then obtain t ts where "reads_back input e xs t" "\<And>rest. from_postorder_list (rev es) (rev (concat xss) @ rest) = Some (rev ts, rest)"
    "list_all2 (mirrors input) es ts" "map tree_span ts = map (pns_span \<circ> last) xss" by blast
  then show ?case by (intro exI [of _ "t # ts"]) (simp add: reads_back_def from_postorder_list_append)
qed simp

lemma from_postorder_sourced: "sourced input e xs \<Longrightarrow> \<exists>t. reads_back input e xs t"
proof (induction rule: sourced.induct)
  case (1 e xss r)
  from 1(1) have "list_all2 (\<lambda>e xs. \<exists>t. reads_back input e xs t) (children e) xss" by (rule list.rel_mono_strong) simp
  from reads_back_list [OF this] obtain ts where
    ts: "\<And>rest. from_postorder_list (rev (children e)) (rev (concat xss) @ rest) = Some (rev ts, rest)"
      "list_all2 (mirrors input) (children e) ts" "map tree_span ts = map (pns_span \<circ> last) xss" by blast
  have "set (map tree_span ts) = set (map (pns_span \<circ> last) xss)" using ts(3) by simp
  then have "\<forall>t\<in>set ts. within (tree_span t) (pns_span r)" using 1(2) by (auto simp: image_iff set_eq_iff) (metis image_iff comp_apply)
  then have "mirrors input e (NodeSpanTree (pns_span r) (pns_components r) ts)" using ts(2,3) 1(3,4) by (intro mirrors.intros) simp_all
  then show ?case using ts(1) by (intro exI [of _ "NodeSpanTree (pns_span r) (pns_components r) ts"]) (simp add: reads_back_def)
qed

section \<open>Properties\<close>

lemma formula_env_ok:
  assumes "lex_spanned L input max_tokens = Inr f" "max_formula_ast_nodes limits \<le> u64_max"
  shows "env_ok (formula_env H limits input (lf_tokens f))"
  using lexed_tokens_ok(1,2,4) [OF assms(1)] assms(2) by (simp add: env_ok_def formula_env_def Let_def)

definition start_state :: parse_state where
  "start_state = \<lparr>pt_cursor = 0, pt_node_sources = [], pt_pending_trim = None\<rparr>"

text \<open>The facts behind a formula whose root is parsed: the checks that follow succeed.\<close>

lemma root_checked:
  assumes lex: "lex_spanned L input max_tokens = Inr f" and limit: "max_formula_ast_nodes limits \<le> u64_max"
    and root: "parse_root (formula_env H limits input (lf_tokens f)) start_state = Inr ((root, span), s)"
  obtains tree where "from_postorder root (rev (pt_node_sources s)) = Some (tree, [])" "mirrors input root tree" "tree_span tree = span"
    "validate_ast_limits (max_formula_ast_nodes limits) (max_formula_nesting_depth limits) root span = None"
    "expr_nodes root \<le> max_formula_ast_nodes limits"
    "expr_depth root \<le> min (max_formula_nesting_depth limits) SAFE_FORMULA_NESTING_DEPTH" "span_end span \<le> utf8_len input"
proof -
  let ?E = "formula_env H limits input (lf_tokens f)"
  have post: "root_post ?E 0 (root, span) s"
    using parse_root_ok [OF formula_env_ok [OF lex limit, where H = H], of start_state] root by (simp add: start_state_def)
  then have src: "sourced input root (pt_node_sources s)" and sp: "pns_span (last (pt_node_sources s)) = span"
    and nodes: "expr_nodes root \<le> max_formula_ast_nodes limits"
    and depth: "expr_depth root \<le> min (max_formula_nesting_depth limits) SAFE_FORMULA_NESTING_DEPTH"
    using sourced_length [of input root "pt_node_sources s"] by (auto simp: root_post_def formula_env_def Let_def)
  obtain tree where "reads_back input root (pt_node_sources s) tree" using from_postorder_sourced [OF src] ..
  then have "from_postorder root (rev (pt_node_sources s) @ []) = Some (tree, [])" "mirrors input root tree" "tree_span tree = span"
    using sp unfolding reads_back_def by (blast, simp_all)
  moreover have "validate_ast_limits (max_formula_ast_nodes limits) (max_formula_nesting_depth limits) root span = None"
    using nodes depth by (simp add: validate_ast_limits_iff)
  moreover have "span_end span \<le> utf8_len input"
  proof -
    have i: "in_tokens ?E 0 (pt_cursor s) span" using post by (simp add: root_post_def)
    then have "lf_tokens f ! (pt_cursor s - 1) \<in> set (lf_tokens f)" by (intro nth_mem) (auto simp: in_tokens_defs formula_env_def Let_def)
    from lexed_tokens_ok(3) [OF lex this] i show ?thesis
      by (simp add: in_tokens_defs tok_span_def formula_env_def Let_def)
  qed
  ultimately show thesis using that nodes depth by simp
qed

lemma lex_never_panics: "lex_spanned L input max_tokens = Inl e \<Longrightarrow> e \<noteq> Panic"
  by (drule lex_spanned_error) (auto simp: lex_fails_inside_def lex_fail_def token_limit_error_def)

lemma parse_total:
  assumes "max_formula_ast_nodes limits \<le> u64_max"
  shows "parse_formula_with_limits H input limits \<noteq> Inl ParsePanic \<and> parse_formula_with_limits H input limits \<noteq> Inl OutOfFuel"
proof (cases "lex_spanned (ph_std H) input (max_formula_tokens limits)")
  case (Inl e)
  then show ?thesis using lex_never_panics [OF Inl]
    by (auto simp: parse_formula_with_limits_def lex_parse_stop_def split: failure.splits)
next
  case (Inr f)
  have "ok_parse (parse_root (formula_env H limits input (lf_tokens f)) start_state) (\<lambda>_ _. True)"
    by (rule ok_weaken [OF parse_root_ok [OF formula_env_ok [OF Inr assms]]]) (simp_all add: start_state_def)
  then show ?thesis using Inr
    by (auto simp: parse_formula_with_limits_def Let_def start_state_def [symmetric] ok_parse_def
      split: sum.splits option.splits if_splits)
qed

text \<open>C9: Parsing a formula always ends with an expression or an ordinary error: no slice of the source
panics and no loop runs out of its fuel, whatever the text and the limits.\<close>

theorem parse_formula_total:
  assumes "max_formula_ast_nodes limits \<le> u64_max"
  shows "parse_formula_with_limits H input limits \<noteq> Inl ParsePanic \<and> parse_formula_with_limits H input limits \<noteq> Inl OutOfFuel"
  by (rule parse_total [OF assms])

text \<open>C13: The checks after parsing are redundant: when the whole text is one expression, neither the limits
nor the source map can turn it into an error.\<close>

theorem parse_formula_complete:
  assumes "utf8_len input \<le> max_formula_source_bytes limits" "max_formula_ast_nodes limits \<le> u64_max"
    "lex_spanned (ph_std H) input (max_formula_tokens limits) = Inr f"
    "parse_root (formula_env H limits input (lf_tokens f)) start_state = Inr ((root, span), s)"
    "pt_cursor s = length (lf_tokens f)"
  shows "\<exists>tree. parse_formula_with_limits H input limits =
    Inr \<lparr>pf_original = input, pf_root = root, pf_token_spans = map st_span (lf_tokens f),
      pf_trivia_spans = lf_trivia_spans f, pf_node_tree = tree\<rparr> \<and> mirrors input root tree \<and> tree_span tree = span"
proof -
  obtain tree where "from_postorder root (rev (pt_node_sources s)) = Some (tree, [])" "mirrors input root tree" "tree_span tree = span"
    "validate_ast_limits (max_formula_ast_nodes limits) (max_formula_nesting_depth limits) root span = None"
    using root_checked [OF assms(3,2,4)] .
  then show ?thesis using assms
    by (simp add: parse_formula_with_limits_def Let_def start_state_def [symmetric] formula_env_def)
qed

lemma parsed_mirrors:
  assumes "max_formula_ast_nodes limits \<le> u64_max" "parse_formula_with_limits H input limits = Inr f"
  shows "mirrors input (pf_root f) (pf_node_tree f) \<and> span_end (tree_span (pf_node_tree f)) \<le> utf8_len input \<and>
    expr_nodes (pf_root f) \<le> max_formula_ast_nodes limits \<and>
    expr_depth (pf_root f) \<le> min (max_formula_nesting_depth limits) SAFE_FORMULA_NESTING_DEPTH"
proof -
  obtain lexed where lex: "lex_spanned (ph_std H) input (max_formula_tokens limits) = Inr lexed"
    using assms(2) by (auto simp: parse_formula_with_limits_def split: if_splits sum.splits)
  obtain root span s where root: "parse_root (formula_env H limits input (lf_tokens lexed)) start_state = Inr ((root, span), s)"
    using assms(2) lex by (auto simp: parse_formula_with_limits_def Let_def res_bind_eq_Inr start_state_def split: if_splits)
  obtain tree where "from_postorder root (rev (pt_node_sources s)) = Some (tree, [])" "mirrors input root tree" "tree_span tree = span"
    "expr_nodes root \<le> max_formula_ast_nodes limits" "span_end span \<le> utf8_len input"
    "expr_depth root \<le> min (max_formula_nesting_depth limits) SAFE_FORMULA_NESTING_DEPTH"
    using root_checked [OF lex assms(1) root] .
  then show ?thesis using assms(2) lex root
    by (auto simp: parse_formula_with_limits_def Let_def start_state_def [symmetric] split: if_splits option.splits)
qed

text \<open>C8: The source map of a parsed formula mirrors its expression: every node of the tree of spans is a
node of the expression, its span is a stretch of the source that contains the spans of its subexpressions
in their order, and the expression respects the limits on nodes and depth.\<close>

theorem parse_formula_source_map:
  assumes "max_formula_ast_nodes limits \<le> u64_max" "parse_formula_with_limits H input limits = Inr f"
  shows "mirrors input (pf_root f) (pf_node_tree f) \<and> span_end (tree_span (pf_node_tree f)) \<le> utf8_len input \<and>
    expr_nodes (pf_root f) \<le> max_formula_ast_nodes limits \<and>
    expr_depth (pf_root f) \<le> min (max_formula_nesting_depth limits) SAFE_FORMULA_NESTING_DEPTH"
  by (rule parsed_mirrors [OF assms])

section \<open>Examples\<close>

text \<open>A function registry without functions, and natural numbers for \<open>f64\<close>.\<close>

definition plain_host :: "nat parse_host" where
  "plain_host = \<lparr>ph_std = ascii_std, ph_as_u32 = (\<lambda>n. of_nat n), ph_has_fract = (\<lambda>_. False), ph_of_nat = id,
    ph_builtin_callable = (\<lambda>_. None), ph_argument_is_callable = (\<lambda>_ _ _. False), ph_is_lambda_name = (\<lambda>_. False)\<rparr>"

definition small_limits :: calculation_limits where
  "small_limits = \<lparr>max_formula_tokens = 16, max_formula_source_bytes = 64, max_formula_ast_nodes = 16, max_formula_nesting_depth = 8\<rparr>"


lemmas lex_number_eval = lex_number_def scan_mantissa.simps scan_exponent_def lex_operator_def simple_token_def is_whitespace_def
  decimal_value_def fifteen_digit_literal_def EXCEL_SIGNIFICANT_DIGITS_def

lemma parse_numerals:
  "parse_expr E (numeral n) = parse_expr_inner E (parse_expr E (pred_numeral n))"
  "operator_loop E pe (numeral n) min_bp u left s =
    pbind (operator_step E pe min_bp u left) (\<lambda>r.
      case r of None \<Rightarrow> preturn left | Some left' \<Rightarrow> operator_loop E pe (pred_numeral n) min_bp u left') s"
  "child_loop (numeral n) ns remaining nodes depth =
    (if remaining = 0 then None
     else let child = ns ! (remaining - 1)
       in if remaining < pns_subtree_nodes child then None
          else child_loop (pred_numeral n) ns (remaining - pns_subtree_nodes child)
            (saturating_add nodes (pns_subtree_nodes child)) (max depth (pns_depth child)))"
  by (simp_all add: numeral_eq_Suc)

lemmas parse_eval = parse_root_def pbind_def eat_def peek_def get_def parse_expr_inner_def parse_prefix_def parse_primary_def is_colon_def
  skip_tokens_def track_def track_with_components_def track_node_def saturating_add_def preturn_def operator_step_def fuel_of_def
  Let_def span_at_def span_merge_def formula_env_def SAFE_FORMULA_NESTING_DEPTH_def parse_numerals

text \<open>The formula \<open>1+2*3\<close>.\<close>

definition sum_source :: ustring where
  "sum_source = [49, 43, 50, 42, 51]"

definition sum_tokens :: "nat spanned_token list" where
  "sum_tokens = map (\<lambda>(i, t). \<lparr>st_token = t, st_span = span_new i (i + 1)\<rparr>)
    [(0, TNumber 1), (1, TPlus), (2, TNumber 2), (3, TStar), (4, TNumber 3)]"

definition sum_expr :: "nat expr" where
  "sum_expr = XBinary OpAdd (XNumber 1) (XBinary OpMultiply (XNumber 2) (XNumber 3))"

lemma sum_lexed: "lex_spanned (ph_std plain_host) sum_source (max_formula_tokens small_limits) =
    Inr \<lparr>lf_tokens = sum_tokens, lf_trivia_spans = []\<rparr>"
  by (simp add: plain_host_def small_limits_def sum_source_def sum_tokens_def lex_eval lex_number_eval)

lemma sum_parsed:
  "\<exists>s. parse_root (formula_env plain_host small_limits sum_source sum_tokens) start_state = Inr ((sum_expr, span_new 0 5), s) \<and>
    pt_cursor s = 5"
  by (simp add: small_limits_def start_state_def sum_tokens_def sum_expr_def parse_eval
    cong: sum.case_cong_weak option.case_cong_weak prod.case_cong_weak token.case_cong_weak)

lemma sum_limits: "utf8_len sum_source \<le> max_formula_source_bytes small_limits" "max_formula_ast_nodes small_limits \<le> u64_max"
  by (simp_all add: sum_source_def small_limits_def char_utf8_def)

lemma sum_formula: "\<exists>f. parse_formula_with_limits plain_host sum_source small_limits = Inr f \<and> pf_root f = sum_expr"
proof -
  obtain s where s: "parse_root (formula_env plain_host small_limits sum_source sum_tokens) start_state = Inr ((sum_expr, span_new 0 5), s)"
    "pt_cursor s = 5" using sum_parsed by blast
  obtain tree where "from_postorder sum_expr (rev (pt_node_sources s)) = Some (tree, [])"
    "validate_ast_limits (max_formula_ast_nodes small_limits) (max_formula_nesting_depth small_limits) sum_expr (span_new 0 5) = None"
    using root_checked [OF sum_lexed sum_limits(2), where root = sum_expr and span = "span_new 0 5" and s = s and H = plain_host] s(1)
    by simp blast
  moreover have "length (pe_tokens (formula_env plain_host small_limits sum_source sum_tokens)) = 5"
    by (simp add: formula_env_def sum_tokens_def Let_def)
  ultimately show ?thesis using s sum_lexed sum_limits
    by (simp add: parse_formula_with_limits_def Let_def start_state_def [symmetric])
qed

theorem parse_formula_total_witness:
  "parse_formula_with_limits plain_host [39, 43] small_limits \<noteq> Inl ParsePanic \<and>
    parse_formula_with_limits plain_host [39, 43] small_limits \<noteq> Inl OutOfFuel"
  by (rule parse_formula_total [OF sum_limits(2)])

theorem parse_formula_complete_witness:
  "\<exists>f. parse_formula_with_limits plain_host sum_source small_limits = Inr f \<and> pf_root f = sum_expr \<and>
    tree_span (pf_node_tree f) = span_new 0 5"
proof -
  obtain s where s: "parse_root (formula_env plain_host small_limits sum_source sum_tokens) start_state = Inr ((sum_expr, span_new 0 5), s)"
    "pt_cursor s = length sum_tokens" using sum_parsed by (auto simp: sum_tokens_def)
  show ?thesis using parse_formula_complete [OF sum_limits sum_lexed, of sum_expr "span_new 0 5" s] s by auto
qed

theorem parse_formula_source_map_witness:
  "\<exists>f. parse_formula_with_limits plain_host sum_source small_limits = Inr f \<and> pf_root f = sum_expr \<and>
    mirrors sum_source (pf_root f) (pf_node_tree f) \<and> expr_nodes (pf_root f) \<le> 16"
proof -
  obtain f where f: "parse_formula_with_limits plain_host sum_source small_limits = Inr f" "pf_root f = sum_expr"
    using sum_formula by blast
  show ?thesis using parse_formula_source_map [OF sum_limits(2) f(1)] f by (auto simp: small_limits_def)
qed

end
