(* ===== verification/Source_Edits.thy ===== *)
theory Source_Edits
  imports Parser_Correct "HOL-Library.Product_Lexorder"
begin

text \<open>
  Edits of the source of a formula (\<open>calculation/syntax.rs\<close>): replacements at byte spans, checked and
  then applied from the end of the text to its start.
\<close>

record source_edit =
  se_span :: source_span
  se_replacement :: ustring

datatype source_edit_error = InvalidSpan | NonUtf8Boundary | OverlappingEdits

text \<open>\<open>String::replace_range\<close>; \<open>None\<close> is the panic outside the text or inside a character.\<close>

definition replace_range :: "ustring \<Rightarrow> source_span \<Rightarrow> ustring \<Rightarrow> ustring option" where
  "replace_range s span replacement =
    (if span_start span \<le> span_end span
     then Option.bind (byte_take (span_start span) s) (\<lambda>p.
       Option.bind (byte_drop (span_end span) s) (\<lambda>q. Some (p @ replacement @ q)))
     else None)"

fun check_edits :: "ustring \<Rightarrow> source_span option \<Rightarrow> source_edit list \<Rightarrow> source_edit_error option" where
  "check_edits original previous [] = None"
| "check_edits original previous (edit # edits) =
    (let span = se_span edit
     in if span_start span > span_end span \<or> span_end span > utf8_len original then Some InvalidSpan
        else if \<not> is_char_boundary original (span_start span) \<or> \<not> is_char_boundary original (span_end span)
        then Some NonUtf8Boundary
        else if (case previous of None \<Rightarrow> False
          | Some p \<Rightarrow> span_start span < span_end p \<or>
              (span_start p = span_end p \<and> span_start span = span_end span \<and> span_start p = span_start span))
        then Some OverlappingEdits
        else check_edits original (Some span) edits)"

fun replace_all :: "ustring \<Rightarrow> source_edit list \<Rightarrow> ustring option" where
  "replace_all s [] = Some s"
| "replace_all s (edit # edits) =
    Option.bind (replace_range s (se_span edit) (se_replacement edit)) (\<lambda>s. replace_all s edits)"

definition edit_key :: "source_edit \<Rightarrow> nat \<times> nat" where
  "edit_key edit = (span_start (se_span edit), span_end (se_span edit))"

definition apply_source_edits :: "ustring \<Rightarrow> source_edit list \<Rightarrow> source_edit_error failure + ustring" where
  "apply_source_edits original edits =
    (let ordered = sort_key edit_key edits
     in case check_edits original None ordered of
         Some e \<Rightarrow> Inl (Fail e)
       | None \<Rightarrow> (case replace_all original (rev ordered) of None \<Rightarrow> Inl Panic | Some s \<Rightarrow> Inr s))"

section \<open>What edits do\<close>

text \<open>The text as kept stretches and replaced ones: each piece is a kept text and then an edit with the
text it replaces.\<close>

fun old_text :: "(ustring \<times> ustring \<times> source_edit) list \<Rightarrow> ustring" where
  "old_text [] = []"
| "old_text ((kept, old, _) # ps) = kept @ old @ old_text ps"

fun new_text :: "(ustring \<times> ustring \<times> source_edit) list \<Rightarrow> ustring" where
  "new_text [] = []"
| "new_text ((kept, _, edit) # ps) = kept @ se_replacement edit @ new_text ps"

fun placed :: "nat \<Rightarrow> (ustring \<times> ustring \<times> source_edit) list \<Rightarrow> bool" where
  "placed n [] = True"
| "placed n ((kept, old, edit) # ps) =
    (se_span edit = span_new (n + utf8_len kept) (n + utf8_len kept + utf8_len old) \<and>
     placed (n + utf8_len kept + utf8_len old) ps)"

lemma boundaryE:
  assumes "is_char_boundary s n"
  obtains p q where "s = p @ q" "utf8_len p = n"
proof -
  obtain q where "byte_drop n s = Some q" using assms by (auto simp: is_char_boundary_def)
  from byte_drop_Some [OF this] show thesis using that by blast
qed

lemma utf8_prefix:
  assumes "p @ q = p' @ q'" "utf8_len p \<le> utf8_len p'"
  obtains m where "p' = p @ m" "q = m @ q'"
proof -
  consider m where "p' = p @ m" "q = m @ q'" | m where "p = p' @ m" "q' = m @ q"
    using assms(1) by (auto simp: append_eq_append_conv2)
  then show thesis
  proof cases
    case (2 m)
    then show thesis using assms(2) that [of "[]"] by simp
  qed (rule that)
qed

lemma check_edits_pieces:
  assumes "check_edits (pre @ rest) previous edits = None" "utf8_len pre = n"
    "n = 0 \<and> previous = None \<or> (\<exists>p. previous = Some p \<and> span_end p = n)"
  shows "\<exists>ps tail. rest = old_text ps @ tail \<and> map (snd \<circ> snd) ps = edits \<and> placed n ps"
  using assms
proof (induction edits arbitrary: pre rest previous n)
  case Nil
  then show ?case by (intro exI [of _ "[]"] exI [of _ rest]) simp
next
  case (Cons edit edits)
  let ?a = "span_start (se_span edit)" and ?b = "span_end (se_span edit)" and ?s = "pre @ rest"
  have c: "?a \<le> ?b" "is_char_boundary ?s ?a" "is_char_boundary ?s ?b" "n \<le> ?a" "check_edits ?s (Some (se_span edit)) edits = None"
    using Cons.prems(1,3) by (auto simp: Let_def not_less split: if_splits option.splits)
  obtain p q where p: "?s = p @ q" "utf8_len p = ?a" using c(2) by (rule boundaryE)
  obtain p' q' where p': "?s = p' @ q'" "utf8_len p' = ?b" using c(3) by (rule boundaryE)
  obtain kept where kept: "p = pre @ kept" "rest = kept @ q"
    using utf8_prefix [of pre rest p q] p Cons.prems(2) c(4) by metis
  obtain old where old: "p' = p @ old" "q = old @ q'" using utf8_prefix [of p q p' q'] p p' c(1) by metis
  have "check_edits (p' @ q') (Some (se_span edit)) edits = None" using c(5) p'(1) by simp
  from Cons.IH [OF this p'(2)] obtain ps tail where ps: "q' = old_text ps @ tail" "map (snd \<circ> snd) ps = edits" "placed ?b ps" by auto
  have "?a = n + utf8_len kept" "?b = n + utf8_len kept + utf8_len old"
    using p p' kept old Cons.prems(2) by (auto simp: old(1))
  then show ?case using ps kept old
    by (intro exI [of _ "(kept, old, edit) # ps"] exI [of _ tail]) (simp add: span_new_def comp_def)
qed

lemma old_text_append [simp]: "old_text (ps @ qs) = old_text ps @ old_text qs"
  by (induction ps rule: old_text.induct) auto

lemma new_text_append [simp]: "new_text (ps @ qs) = new_text ps @ new_text qs"
  by (induction ps rule: new_text.induct) auto

lemma placed_append [simp]: "placed n (ps @ qs) \<longleftrightarrow> placed n ps \<and> placed (n + utf8_len (old_text ps)) qs"
  by (induction n ps rule: placed.induct) (auto simp: add.assoc)

lemma replace_range_mid: "replace_range (p @ old @ q) (span_new (utf8_len p) (utf8_len p + utf8_len old)) r = Some (p @ r @ q)"
  using byte_take_append [of p "old @ q"] byte_drop_append [of "p @ old" q] by (simp add: replace_range_def)

lemma replace_all_placed:
  "placed 0 ps \<Longrightarrow> replace_all (old_text ps @ tail) (rev (map (snd \<circ> snd) ps)) = Some (new_text ps @ tail)"
proof (induction ps arbitrary: tail rule: rev_induct)
  case (snoc x ps)
  obtain kept old edit where x: "x = (kept, old, edit)" by (cases x)
  have "se_span edit = span_new (utf8_len (old_text ps @ kept)) (utf8_len (old_text ps @ kept) + utf8_len old)"
    using snoc.prems x by simp
  then have "replace_range (old_text (ps @ [x]) @ tail) (se_span edit) (se_replacement edit) =
      Some (old_text ps @ (kept @ se_replacement edit @ tail))"
    using x replace_range_mid [of "old_text ps @ kept" old tail "se_replacement edit"] by simp
  then show ?case using snoc.IH [of "kept @ se_replacement edit @ tail"] snoc.prems x by simp
qed simp

text \<open>The edits, in the order of their spans, are placed in the text; the result has their replacements in
the place of the texts at their spans.\<close>

definition replaces :: "ustring \<Rightarrow> source_edit list \<Rightarrow> ustring \<Rightarrow> bool" where
  "replaces original edits result \<longleftrightarrow>
    (\<exists>ps tail. original = old_text ps @ tail \<and> result = new_text ps @ tail \<and> placed 0 ps \<and>
      map (snd \<circ> snd) ps = sort_key edit_key edits)"

lemma apply_checked:
  assumes "check_edits original None (sort_key edit_key edits) = None"
  shows "\<exists>result. apply_source_edits original edits = Inr result \<and> replaces original edits result"
proof -
  obtain ps tail where ps: "original = old_text ps @ tail" "map (snd \<circ> snd) ps = sort_key edit_key edits" "placed 0 ps"
    using check_edits_pieces [of "[]" original None "sort_key edit_key edits" 0] assms by auto
  have "replace_all original (rev (sort_key edit_key edits)) = Some (new_text ps @ tail)"
    using replace_all_placed [OF ps(3), of tail] ps(1,2) by simp
  then show ?thesis using assms ps by (auto simp: apply_source_edits_def Let_def replaces_def)
qed

section \<open>Edits that can be applied\<close>

definition apart :: "source_span \<Rightarrow> source_span \<Rightarrow> bool" where
  "apart a b \<longleftrightarrow> span_end a \<le> span_start b \<or> span_end b \<le> span_start a"

definition edit_ok :: "ustring \<Rightarrow> source_edit \<Rightarrow> bool" where
  "edit_ok s e \<longleftrightarrow> stretch s (se_span e)"

definition edits_ok :: "ustring \<Rightarrow> source_edit list \<Rightarrow> bool" where
  "edits_ok s es \<longleftrightarrow> list_all (edit_ok s) es \<and> sorted_wrt (\<lambda>a b. apart (se_span a) (se_span b)) es"

lemma sorted_wrt_distinct:
  assumes "\<And>x y. P x y \<Longrightarrow> P y x" "\<And>x. x \<in> set xs \<Longrightarrow> \<not> P x x"
  shows "sorted_wrt P xs \<longleftrightarrow> distinct xs \<and> (\<forall>x\<in>set xs. \<forall>y\<in>set xs. x \<noteq> y \<longrightarrow> P x y)"
  using assms(2)
proof (induction xs)
  case (Cons x xs)
  then show ?case using assms(1) by auto
qed simp

lemma boundary_le: "is_char_boundary s n \<Longrightarrow> n \<le> utf8_len s"
  by (erule boundaryE) auto

lemma check_edits_ordered:
  assumes "list_all (edit_ok s) es" "sorted_wrt (\<lambda>a b. span_end (se_span a) \<le> span_start (se_span b)) es"
    "\<And>p. previous = Some p \<Longrightarrow> es \<noteq> [] \<Longrightarrow> span_end p \<le> span_start (se_span (hd es))"
  shows "check_edits s previous es = None"
  using assms
proof (induction es arbitrary: previous)
  case (Cons e es)
  have ok: "edit_ok s e" "\<not> utf8_len s < span_end (se_span e)" using Cons.prems(1) boundary_le by (auto simp: edit_ok_def stretch_def not_less)
  have "check_edits s (Some (se_span e)) es = None" using Cons.prems by (intro Cons.IH) auto
  then show ?case using ok Cons.prems(3) by (auto simp: edit_ok_def stretch_def Let_def split: option.splits)
qed simp

lemma apply_edits_ok:
  assumes "edits_ok s es"
  shows "\<exists>result. apply_source_edits s es = Inr result \<and> replaces s es result"
proof (rule apply_checked, rule check_edits_ordered)
  let ?es = "sort_key edit_key es" and ?P = "\<lambda>a b. apart (se_span a) (se_span b)"
  have ok: "list_all (edit_ok s) es" and apart: "sorted_wrt ?P es" using assms by (auto simp: edits_ok_def)
  show ok': "list_all (edit_ok s) ?es" using ok by (simp add: list_all_iff)
  have irr: "\<not> ?P x x" if "edit_ok s x" for x using that by (auto simp: apart_def edit_ok_def stretch_def)
  have "distinct ?es \<and> (\<forall>x\<in>set ?es. \<forall>y\<in>set ?es. x \<noteq> y \<longrightarrow> ?P x y)"
    using apart sorted_wrt_distinct [of ?P es] irr ok by (simp add: apart_def list_all_iff) blast
  then have "sorted_wrt ?P ?es" using sorted_wrt_distinct [of ?P ?es] irr ok' by (simp add: apart_def list_all_iff) blast
  moreover have "sorted_wrt (\<lambda>a b. edit_key a \<le> edit_key b) ?es" using sorted_sort_key [of edit_key es] by (simp add: sorted_map)
  ultimately show "sorted_wrt (\<lambda>a b. span_end (se_span a) \<le> span_start (se_span b)) ?es"
    using ok' by (auto simp: sorted_wrt_iff_nth_less list_all_length apart_def edit_ok_def stretch_def edit_key_def less_eq_prod_def; fastforce)
qed simp

section \<open>Properties\<close>

text \<open>C21: Applying source edits never panics: it reports an error, or it replaces exactly the texts at
the spans of the edits, each once, and keeps everything between them.\<close>

theorem source_edits_exact:
  "case apply_source_edits original edits of
    Inl e \<Rightarrow> \<exists>code. e = Fail code \<and> check_edits original None (sort_key edit_key edits) = Some code
  | Inr result \<Rightarrow> replaces original edits result"
proof (cases "check_edits original None (sort_key edit_key edits)")
  case None
  from apply_checked [OF this] show ?thesis by auto
qed (simp add: apply_source_edits_def)

end
