(* ===== verification/Grid_Rewrite.thy ===== *)
theory Grid_Rewrite
  imports Grid_Laws Source_Edits
begin

text \<open>
  How formulas follow structural edits and copies (\<open>calculation/grid_rewrite.rs\<close>): the fate of a
  reference body under an edit and the shift of its relative parts by a copy.  \<open>None\<close> is a panic: the
  \<open>expect\<close> of a shift.
\<close>

section \<open>Reference bodies\<close>

record grid_change =
  gc_sheet :: ustring
  gc_host_is_sheet :: bool
  gc_edit :: grid_edit

record copy_offset =
  co_rows :: int
  co_columns :: int

datatype node_plan = PlanDone | PlanDescend

datatype ref_outcome = Unchanged | Changed ref_body | Deleted

definition ordered :: "u32 \<Rightarrow> u32 \<Rightarrow> u32 \<times> u32" where
  "ordered first lst = (if first \<le> lst then (first, lst) else (lst, first))"

fun cell_coordinate :: "grid_axis \<Rightarrow> cell_ref \<Rightarrow> u32" where
  "cell_coordinate Rows cell = cr_row cell"
| "cell_coordinate Columns cell = cr_column cell"

fun with_coordinate :: "grid_axis \<Rightarrow> cell_ref \<Rightarrow> u32 \<Rightarrow> cell_ref" where
  "with_coordinate Rows cell v = cell\<lparr>cr_row := v\<rparr>"
| "with_coordinate Columns cell v = cell\<lparr>cr_column := v\<rparr>"

definition mapped_ordered :: "grid_edit \<Rightarrow> u32 \<Rightarrow> u32 \<Rightarrow> (u32 \<times> u32) option" where
  "mapped_ordered edit first lst =
    (let (low, high) = ordered first lst
     in map_option (\<lambda>(low, high). if first \<le> lst then (low, high) else (high, low))
       (map_interval edit low high Reference))"

definition line_changed :: "ref_body \<Rightarrow> grid_edit \<Rightarrow> grid_axis \<Rightarrow> ref_body option" where
  "line_changed body edit axis =
    (case body of
      RefCell cell \<Rightarrow> map_option (\<lambda>v. RefCell (with_coordinate axis cell v)) (map_line edit (cell_coordinate axis cell))
    | RefArea first lst \<Rightarrow>
        map_option (\<lambda>(a, b). RefArea (with_coordinate axis first a) (with_coordinate axis lst b))
          (mapped_ordered edit (cell_coordinate axis first) (cell_coordinate axis lst))
    | RefColumns first lst \<Rightarrow>
        if axis = Columns
        then map_option (\<lambda>(a, b). RefColumns (first\<lparr>colr_column := a\<rparr>) (lst\<lparr>colr_column := b\<rparr>))
          (mapped_ordered edit (colr_column first) (colr_column lst))
        else Some body
    | RefRows first lst \<Rightarrow>
        if axis = Rows
        then map_option (\<lambda>(a, b). RefRows (first\<lparr>rowr_row := a\<rparr>) (lst\<lparr>rowr_row := b\<rparr>))
          (mapped_ordered edit (rowr_row first) (rowr_row lst))
        else Some body)"

definition line_outcome :: "ref_body \<Rightarrow> grid_edit \<Rightarrow> grid_axis \<Rightarrow> ref_outcome" where
  "line_outcome body edit axis =
    (case line_changed body edit axis of
      None \<Rightarrow> Deleted
    | Some changed \<Rightarrow> if changed = body then Unchanged else Changed changed)"

fun body_corners :: "ref_body \<Rightarrow> u32 \<times> u32 \<times> u32 \<times> u32" where
  "body_corners (RefCell cell) = (cr_row cell, cr_column cell, cr_row cell, cr_column cell)"
| "body_corners (RefArea first lst) =
    (let (upper, lower_row) = ordered (cr_row first) (cr_row lst); (left, right) = ordered (cr_column first) (cr_column lst)
     in (upper, left, lower_row, right))"
| "body_corners (RefColumns first lst) =
    (let (left, right) = ordered (colr_column first) (colr_column lst) in (1, left, EXCEL_MAX_ROWS, right))"
| "body_corners (RefRows first lst) =
    (let (upper, lower_row) = ordered (rowr_row first) (rowr_row lst) in (upper, 1, lower_row, EXCEL_MAX_COLUMNS))"

definition body_area :: "ref_body \<Rightarrow> cell_range option" where
  "body_area body =
    (let (upper, left, lower_row, right) = body_corners body
     in do { s \<leftarrow> ok (from_indices upper left); e \<leftarrow> ok (from_indices lower_row right); Some (from_ordered s e) })"

definition shrunk :: "u32 \<Rightarrow> u32 \<Rightarrow> u32 \<Rightarrow> u32 \<Rightarrow> u32 \<times> u32" where
  "shrunk start stop first lst =
    (if start < first \<and> first \<le> stop \<and> stop < lst then (start, u32_sub first 1)
     else if first < start \<and> start \<le> lst \<and> lst < stop then (u32_add lst 1, stop)
     else (start, stop))"

text \<open>The area left after the overwritten pieces; \<open>None\<close> when a piece covers it.\<close>

fun shrink_loop :: "cell_range list \<Rightarrow> u32 \<times> u32 \<times> u32 \<times> u32 \<Rightarrow> (u32 \<times> u32 \<times> u32 \<times> u32) option" where
  "shrink_loop [] corners = Some corners"
| "shrink_loop (p # ps) (upper, left, lower_row, right) =
    (let piece_top = addr_row (rng_start p); piece_left = addr_column (rng_start p);
         piece_bottom = addr_row (rng_end p); piece_right = addr_column (rng_end p)
     in if piece_top \<le> upper \<and> lower_row \<le> piece_bottom \<and> piece_left \<le> left \<and> right \<le> piece_right then None
        else if piece_left \<le> left \<and> right \<le> piece_right
        then let (upper', lower_row') = shrunk upper lower_row piece_top piece_bottom in shrink_loop ps (upper', left, lower_row', right)
        else if piece_top \<le> upper \<and> lower_row \<le> piece_bottom
        then let (left', right') = shrunk left right piece_left piece_right in shrink_loop ps (upper, left', lower_row, right')
        else shrink_loop ps (upper, left, lower_row, right))"

definition shift_cell :: "int \<times> int \<Rightarrow> cell_ref \<Rightarrow> cell_ref option" where
  "shift_cell d cell = do {
     row \<leftarrow> u32_try_from (int (cr_row cell) + fst d);
     column \<leftarrow> u32_try_from (int (cr_column cell) + snd d);
     Some (cell\<lparr>cr_row := row, cr_column := column\<rparr>) }"

definition follow_body :: "int \<times> int \<Rightarrow> ref_body \<Rightarrow> ref_body option" where
  "follow_body d body =
    (case body of
      RefCell cell \<Rightarrow> map_option RefCell (shift_cell d cell)
    | RefArea first lst \<Rightarrow> do { a \<leftarrow> shift_cell d first; b \<leftarrow> shift_cell d lst; Some (RefArea a b) }
    | RefColumns first lst \<Rightarrow> do {
        a \<leftarrow> u32_try_from (int (colr_column first) + snd d); b \<leftarrow> u32_try_from (int (colr_column lst) + snd d);
        Some (RefColumns (first\<lparr>colr_column := a\<rparr>) (lst\<lparr>colr_column := b\<rparr>)) }
    | RefRows first lst \<Rightarrow> do {
        a \<leftarrow> u32_try_from (int (rowr_row first) + fst d); b \<leftarrow> u32_try_from (int (rowr_row lst) + fst d);
        Some (RefRows (first\<lparr>rowr_row := a\<rparr>) (lst\<lparr>rowr_row := b\<rparr>)) })"

text \<open>Each end of an area keeps its own side.\<close>

definition shrunk_area :: "cell_ref \<Rightarrow> cell_ref \<Rightarrow> u32 \<times> u32 \<times> u32 \<times> u32 \<Rightarrow> ref_body" where
  "shrunk_area first lst corners =
    (let (upper, left, lower_row, right) = corners;
         (first_row, last_row) = (if cr_row first \<le> cr_row lst then (upper, lower_row) else (lower_row, upper));
         (first_column, last_column) = (if cr_column first \<le> cr_column lst then (left, right) else (right, left))
     in RefArea (first\<lparr>cr_row := first_row, cr_column := first_column\<rparr>) (lst\<lparr>cr_row := last_row, cr_column := last_column\<rparr>))"

fun moved_range_outcome :: "ref_body \<Rightarrow> grid_edit \<Rightarrow> ref_outcome option" where
  "moved_range_outcome body (MoveRange source destination) =
    (let edit = MoveRange source destination
     in case body_area body of
         None \<Rightarrow> Some Unchanged
       | Some area \<Rightarrow>
           if range_contains source area then map_option Changed (follow_body (range_offset edit) body)
           else let corners = (addr_row (rng_start area), addr_column (rng_start area), addr_row (rng_end area), addr_column (rng_end area))
             in (case body of
                 RefCell _ \<Rightarrow> Some (if shrink_loop (overwritten edit) corners = None then Deleted else Unchanged)
               | RefArea first lst \<Rightarrow>
                   Some (case shrink_loop (overwritten edit) corners of
                     None \<Rightarrow> Deleted
                   | Some corners' \<Rightarrow> if corners' = corners then Unchanged else Changed (shrunk_area first lst corners'))
               | _ \<Rightarrow> Some Unchanged))"
| "moved_range_outcome body _ = Some Unchanged"

definition outcome :: "ref_body \<Rightarrow> grid_edit \<Rightarrow> ref_outcome option" where
  "outcome body edit =
    (case line_axis edit of
      Some axis \<Rightarrow> Some (line_outcome body edit axis)
    | None \<Rightarrow> moved_range_outcome body edit)"

section \<open>Copies\<close>

text \<open>The wrap of an \<open>i64\<close> result.\<close>

definition i64 :: "int \<Rightarrow> int" where
  "i64 n = (n + 2 ^ 63) mod 2 ^ 64 - 2 ^ 63"

definition shift_coordinate :: "u32 \<Rightarrow> int \<Rightarrow> bool \<Rightarrow> u32 \<Rightarrow> u32 option" where
  "shift_coordinate v delta absolute maximum =
    (if absolute then Some v
     else let shifted = i64 (int v + delta) in if 1 \<le> shifted \<and> shifted \<le> int maximum then Some (nat shifted) else None)"

text \<open>\<open>None\<close> is \<open>OffGrid\<close>: a relative part leaves the grid.\<close>

definition copy_cell :: "copy_offset \<Rightarrow> cell_ref \<Rightarrow> cell_ref option" where
  "copy_cell d cell = do {
     row \<leftarrow> shift_coordinate (cr_row cell) (co_rows d) (cr_row_absolute cell) EXCEL_MAX_ROWS;
     column \<leftarrow> shift_coordinate (cr_column cell) (co_columns d) (cr_column_absolute cell) EXCEL_MAX_COLUMNS;
     Some (cell\<lparr>cr_row := row, cr_column := column\<rparr>) }"

definition copy_column :: "copy_offset \<Rightarrow> col_ref \<Rightarrow> col_ref option" where
  "copy_column d c = map_option (\<lambda>v. c\<lparr>colr_column := v\<rparr>)
    (shift_coordinate (colr_column c) (co_columns d) (colr_absolute c) EXCEL_MAX_COLUMNS)"

definition copy_row :: "copy_offset \<Rightarrow> row_ref \<Rightarrow> row_ref option" where
  "copy_row d r = map_option (\<lambda>v. r\<lparr>rowr_row := v\<rparr>)
    (shift_coordinate (rowr_row r) (co_rows d) (rowr_absolute r) EXCEL_MAX_ROWS)"

definition shift_body :: "ref_body \<Rightarrow> copy_offset \<Rightarrow> ref_body option" where
  "shift_body body d =
    (case body of
      RefCell cell \<Rightarrow> map_option RefCell (copy_cell d cell)
    | RefArea first lst \<Rightarrow> do { a \<leftarrow> copy_cell d first; b \<leftarrow> copy_cell d lst; Some (RefArea a b) }
    | RefColumns first lst \<Rightarrow> do { a \<leftarrow> copy_column d first; b \<leftarrow> copy_column d lst; Some (RefColumns a b) }
    | RefRows first lst \<Rightarrow> do { a \<leftarrow> copy_row d first; b \<leftarrow> copy_row d lst; Some (RefRows a b) })"

end
