(* ===== verification/Sheet_Changes.thy ===== *)
theory Sheet_Changes
  imports Lexer
begin

text \<open>
  Renamed, deleted, moved and copied sheets as formulas see them (\<open>calculation/sheet_changes.rs\<close>): a sheet
  name of a formula resolves to the identity of its sheet and follows it to its new name, and the two ends
  of a 3-D reference follow the deletions and moves of tabs.  A sheet identity is its number.  Where an
  index may be out of range the outer option is the panic; \<open>try_some\<close> is the operator \<open>?\<close> under it.
\<close>

section \<open>Names\<close>

text \<open>\<open>char::to_lowercase\<close> is the parameter \<open>lower\<close>.\<close>

definition case_insensitive_eq :: "(uchar \<Rightarrow> ustring) \<Rightarrow> ustring \<Rightarrow> ustring \<Rightarrow> bool" where
  "case_insensitive_eq lower left right \<longleftrightarrow> concat (map lower left) = concat (map lower right)"

fun try_some :: "'a option option \<Rightarrow> ('a \<Rightarrow> 'b option option) \<Rightarrow> 'b option option" where
  "try_some None f = None"
| "try_some (Some None) f = Some None"
| "try_some (Some (Some a)) f = f a"

section \<open>Tabs\<close>

record tab_entry =
  te_id :: nat
  te_worksheet :: bool

datatype tab_step = TabDelete "tab_entry list" nat | TabMove "tab_entry list" nat nat

fun mentions :: "tab_step \<Rightarrow> nat \<Rightarrow> bool option" where
  "mentions (TabDelete tabs deleted) i = Some (deleted = i)"
| "mentions (TabMove tabs source target) i = map_option (\<lambda>tab. te_id tab = i) (get tabs source)"

fun position :: "tab_entry list \<Rightarrow> nat \<Rightarrow> nat option" where
  "position [] i = None"
| "position (tab # tabs) i = (if te_id tab = i then Some 0 else map_option Suc (position tabs i))"

definition moved_position :: "nat \<Rightarrow> nat \<Rightarrow> nat \<Rightarrow> nat" where
  "moved_position p source target =
    (if p = source then target
     else let without = (if p > source then p - 1 else p) in if without \<ge> target then without + 1 else without)"

text \<open>Every caller has \<open>p \<noteq> toward\<close>, so that nothing is subtracted from zero.\<close>

definition step_toward :: "nat \<Rightarrow> nat \<Rightarrow> nat" where
  "step_toward p toward = (if p < toward then p + 1 else p - 1)"

definition distance :: "nat \<Rightarrow> nat \<Rightarrow> nat" where
  "distance a b = (a - b) + (b - a)"

lemma step_closer: "p \<noteq> q \<Longrightarrow> distance (step_toward p q) q < distance p q"
  by (auto simp: distance_def step_toward_def)

function nearest_worksheet :: "tab_entry list \<Rightarrow> nat \<Rightarrow> nat \<Rightarrow> nat \<Rightarrow> nat option option" where
  "nearest_worksheet tabs p q deleted =
    (case get tabs p of
      None \<Rightarrow> None
    | Some tab \<Rightarrow>
        if te_id tab \<noteq> deleted \<and> te_worksheet tab then Some (Some (te_id tab))
        else if p = q then Some None
        else nearest_worksheet tabs (step_toward p q) q deleted)"
  by pat_completeness auto
termination by (relation "measure (\<lambda>(_, p, q, _). distance p q)") (auto simp: step_closer)

declare nearest_worksheet.simps [simp del]

function neighbour_from :: "tab_entry list \<Rightarrow> nat \<Rightarrow> nat \<Rightarrow> nat option" where
  "neighbour_from tabs p q =
    (case get tabs p of
      None \<Rightarrow> None
    | Some tab \<Rightarrow> if p = q \<or> te_worksheet tab then Some (te_id tab) else neighbour_from tabs (step_toward p q) q)"
  by pat_completeness auto
termination by (relation "measure (\<lambda>(_, p, q). distance p q)") (auto simp: step_closer)

declare neighbour_from.simps [simp del]

definition neighbour :: "tab_entry list \<Rightarrow> nat \<Rightarrow> nat \<Rightarrow> nat option" where
  "neighbour tabs p q = neighbour_from tabs (step_toward p q) q"

text \<open>One step of \<open>span_after\<close>; the inner \<open>None\<close> means that no worksheet remains.\<close>

fun span_step :: "tab_step \<Rightarrow> nat \<times> nat \<Rightarrow> (nat \<times> nat) option option" where
  "span_step (TabDelete tabs deleted) (start, stop) =
    (if start \<noteq> deleted \<and> stop \<noteq> deleted then Some (Some (start, stop))
     else try_some (Some (position tabs start)) (\<lambda>first.
       try_some (Some (position tabs stop)) (\<lambda>lst.
       try_some (if start = deleted then nearest_worksheet tabs first lst deleted else Some (Some start)) (\<lambda>start'.
       try_some (if stop = deleted then nearest_worksheet tabs lst first deleted else Some (Some stop)) (\<lambda>stop'.
         Some (Some (start', stop')))))))"
| "span_step (TabMove tabs source target) (start, stop) =
    (case get tabs source of
      None \<Rightarrow> None
    | Some tab \<Rightarrow>
        let moved = te_id tab
        in if start = stop \<or> moved \<noteq> start \<and> moved \<noteq> stop then Some (Some (start, stop))
           else try_some (Some (position tabs start)) (\<lambda>first.
             try_some (Some (position tabs stop)) (\<lambda>lst.
               if (first < lst) = (moved_position first source target < moved_position lst source target)
               then Some (Some (start, stop))
               else if moved = start then map_option (\<lambda>start'. Some (start', stop)) (neighbour tabs first lst)
               else map_option (\<lambda>stop'. Some (start, stop')) (neighbour tabs lst first))))"

fun span_after :: "tab_step list \<Rightarrow> nat \<times> nat \<Rightarrow> (nat \<times> nat) option option" where
  "span_after [] ends = Some (Some ends)"
| "span_after (step # steps) ends = try_some (span_step step ends) (span_after steps)"

section \<open>Changes\<close>

record sheet_changes =
  shc_before :: "(ustring \<times> nat) list"
  shc_after :: "(nat \<times> ustring) list"
  shc_steps :: "tab_step list"
  shc_retarget :: "(nat \<times> nat) option"
  shc_deleted_tables :: "ustring list"

datatype sheet_outcome = SheetUnchanged | SheetRenamed ustring | SheetDeleted

datatype span_outcome = SpanUnchanged | SpanDeleted | SpanEnds "ustring option" "ustring option" | SpanCollapsed ustring

definition sheet_id_of :: "(uchar \<Rightarrow> ustring) \<Rightarrow> sheet_changes \<Rightarrow> ustring \<Rightarrow> nat option" where
  "sheet_id_of lower c name = map_option snd (find (\<lambda>(b, _). case_insensitive_eq lower name b) (shc_before c))"

definition before_name :: "sheet_changes \<Rightarrow> nat \<Rightarrow> ustring option" where
  "before_name c i = map_option fst (find (\<lambda>(_, b). b = i) (shc_before c))"

definition after_name :: "sheet_changes \<Rightarrow> nat \<Rightarrow> ustring option" where
  "after_name c i = map_option snd (find (\<lambda>(a, _). a = i) (shc_after c))"

definition renamed :: "sheet_changes \<Rightarrow> nat \<Rightarrow> ustring option" where
  "renamed c i = Option.bind (after_name c i) (\<lambda>a. if before_name c i \<noteq> Some a then Some a else None)"

definition is_deleted_table :: "(uchar \<Rightarrow> ustring) \<Rightarrow> sheet_changes \<Rightarrow> ustring \<Rightarrow> bool" where
  "is_deleted_table lower c name \<longleftrightarrow> list_ex (case_insensitive_eq lower name) (shc_deleted_tables c)"

definition single :: "(uchar \<Rightarrow> ustring) \<Rightarrow> sheet_changes \<Rightarrow> ustring \<Rightarrow> sheet_outcome" where
  "single lower c name =
    (case sheet_id_of lower c name of
      None \<Rightarrow> SheetUnchanged
    | Some i \<Rightarrow>
        let target = (case shc_retarget c of Some (source, copy) \<Rightarrow> if source = i then copy else i | None \<Rightarrow> i)
        in case after_name c target of
            None \<Rightarrow> SheetDeleted
          | Some a \<Rightarrow> if target \<noteq> i \<or> before_name c i \<noteq> Some a then SheetRenamed a else SheetUnchanged)"

definition ends_outcome :: "ustring option \<Rightarrow> ustring option \<Rightarrow> span_outcome" where
  "ends_outcome start stop = (if start = None \<and> stop = None then SpanUnchanged else SpanEnds start stop)"

definition unplaced_span :: "(uchar \<Rightarrow> ustring) \<Rightarrow> sheet_changes \<Rightarrow> ustring \<Rightarrow> ustring \<Rightarrow> span_outcome" where
  "unplaced_span lower c start stop =
    (let known = (case sheet_id_of lower c start of Some i \<Rightarrow> Some i | None \<Rightarrow> sheet_id_of lower c stop)
     in if (case known of Some i \<Rightarrow> after_name c i = None | None \<Rightarrow> False) then SpanDeleted
        else ends_outcome (Option.bind (sheet_id_of lower c start) (renamed c)) (Option.bind (sheet_id_of lower c stop) (renamed c)))"

definition placed_span :: "sheet_changes \<Rightarrow> nat \<times> nat \<Rightarrow> nat \<times> nat \<Rightarrow> span_outcome" where
  "placed_span c old new =
    (case (after_name c (fst new), after_name c (snd new)) of
      (Some start_name, Some stop_name) \<Rightarrow>
        if fst new = snd new \<and> fst old \<noteq> snd old then SpanCollapsed start_name
        else ends_outcome
          (if fst new \<noteq> fst old \<or> renamed c (fst old) \<noteq> None then Some start_name else None)
          (if snd new \<noteq> snd old \<or> renamed c (snd old) \<noteq> None then Some stop_name else None)
    | _ \<Rightarrow> SpanDeleted)"

text \<open>\<open>SheetChanges::span\<close>; \<open>None\<close> is a panic.\<close>

definition span_change :: "(uchar \<Rightarrow> ustring) \<Rightarrow> sheet_changes \<Rightarrow> ustring \<Rightarrow> ustring \<Rightarrow> span_outcome option" where
  "span_change lower c start stop =
    (case (sheet_id_of lower c start, sheet_id_of lower c stop) of
      (Some first, Some lst) \<Rightarrow>
        map_option (\<lambda>r. case r of None \<Rightarrow> SpanDeleted | Some new \<Rightarrow> placed_span c (first, lst) new)
          (span_after (shc_steps c) (first, lst))
    | _ \<Rightarrow> Some (unplaced_span lower c start stop))"

fun any_mentions :: "tab_step list \<Rightarrow> nat \<Rightarrow> bool option" where
  "any_mentions [] i = Some False"
| "any_mentions (step # steps) i = Option.bind (mentions step i) (\<lambda>b. if b then Some True else any_mentions steps i)"

definition changes_target :: "(uchar \<Rightarrow> ustring) \<Rightarrow> sheet_changes \<Rightarrow> ustring \<Rightarrow> bool option" where
  "changes_target lower c name =
    (case sheet_id_of lower c name of
      None \<Rightarrow> Some False
    | Some i \<Rightarrow> if single lower c name \<noteq> SheetUnchanged then Some True else any_mentions (shc_steps c) i)"

section \<open>The sheets a 3-D reference spans\<close>

definition between :: "nat \<Rightarrow> nat \<Rightarrow> nat \<Rightarrow> bool" where
  "between a x b \<longleftrightarrow> a \<le> x \<and> x \<le> b \<or> b \<le> x \<and> x \<le> a"

definition place :: "tab_entry list \<Rightarrow> nat \<Rightarrow> nat" where
  "place tabs i = the (position tabs i)"

definition tab_ids :: "tab_entry list \<Rightarrow> nat set" where
  "tab_ids tabs = te_id ` set tabs"

text \<open>The worksheets from the tab \<open>start\<close> through the tab \<open>stop\<close>, whichever comes first.\<close>

definition sheets :: "tab_entry list \<Rightarrow> nat \<times> nat \<Rightarrow> nat set" where
  "sheets tabs ends =
    {te_id t | t. t \<in> set tabs \<and> te_worksheet t \<and> between (place tabs (fst ends)) (place tabs (te_id t)) (place tabs (snd ends))}"

definition is_worksheet :: "tab_entry list \<Rightarrow> nat \<Rightarrow> bool" where
  "is_worksheet tabs i \<longleftrightarrow> (\<exists>t\<in>set tabs. te_id t = i \<and> te_worksheet t)"

text \<open>The tab \<open>x\<close> takes the place of the end \<open>gone\<close> of a reference whose other end is \<open>stop\<close>: it lies between them, and
no worksheet between them but \<open>gone\<close> lies before it.\<close>

definition nearest_inside :: "tab_entry list \<Rightarrow> nat \<Rightarrow> nat \<Rightarrow> nat \<Rightarrow> bool" where
  "nearest_inside tabs gone stop x \<longleftrightarrow> x \<in> tab_ids tabs \<and> x \<noteq> gone \<and> between (place tabs gone) (place tabs x) (place tabs stop) \<and>
    (\<forall>y. is_worksheet tabs y \<and> y \<noteq> gone \<and> between (place tabs gone) (place tabs y) (place tabs stop) \<longrightarrow>
      between (place tabs x) (place tabs y) (place tabs stop))"

fun tabs_before :: "tab_step \<Rightarrow> tab_entry list" where
  "tabs_before (TabDelete tabs _) = tabs"
| "tabs_before (TabMove tabs _ _) = tabs"

fun tabs_after :: "tab_step \<Rightarrow> tab_entry list" where
  "tabs_after (TabDelete tabs deleted) = filter (\<lambda>t. te_id t \<noteq> deleted) tabs"
| "tabs_after (TabMove tabs source target) =
    (let rest = take source tabs @ drop (Suc source) tabs in take target rest @ [tabs ! source] @ drop target rest)"

declare tabs_after.simps(2) [simp del]

fun affected :: "tab_step \<Rightarrow> nat" where
  "affected (TabDelete _ deleted) = deleted"
| "affected (TabMove tabs source _) = te_id (tabs ! source)"

fun wf_step :: "tab_step \<Rightarrow> bool" where
  "wf_step (TabDelete tabs deleted) \<longleftrightarrow> distinct (map te_id tabs)"
| "wf_step (TabMove tabs source target) \<longleftrightarrow> distinct (map te_id tabs) \<and> source < length tabs \<and> target < length tabs"

lemma tab_ids_simps [simp]: "tab_ids [] = {}" "tab_ids (t # tabs) = insert (te_id t) (tab_ids tabs)"
  by (simp_all add: tab_ids_def)

lemma position_None: "position tabs i = None \<longleftrightarrow> i \<notin> tab_ids tabs"
  by (induction tabs) auto

lemma position_Some: "i \<in> tab_ids tabs \<Longrightarrow> position tabs i = Some (place tabs i)"
  using position_None [of tabs i] by (auto simp: place_def)

lemma place_Cons: "place (t # tabs) (te_id t) = 0"
  "i \<in> tab_ids tabs \<Longrightarrow> te_id t \<noteq> i \<Longrightarrow> place (t # tabs) i = Suc (place tabs i)"
  using position_None [of tabs i] by (auto simp: place_def)

lemma place_nth: "i \<in> tab_ids tabs \<Longrightarrow> place tabs i < length tabs \<and> te_id (tabs ! place tabs i) = i"
proof (induction tabs)
  case (Cons t tabs)
  show ?case
  proof (cases "te_id t = i")
    case True
    then show ?thesis using place_Cons(1) [of t tabs] by simp
  next
    case False
    then have i: "i \<in> tab_ids tabs" using Cons.prems by (auto simp: tab_ids_def)
    then have "place (t # tabs) i = Suc (place tabs i)" using False by (simp add: place_Cons)
    then show ?thesis using Cons.IH [OF i] by simp
  qed
qed (simp add: tab_ids_def)

lemma place_of_nth:
  assumes "distinct (map te_id tabs)" "k < length tabs"
  shows "place tabs (te_id (tabs ! k)) = k"
proof -
  have "te_id (tabs ! k) \<in> tab_ids tabs" using assms(2) by (auto simp: tab_ids_def)
  from place_nth [OF this] show ?thesis using assms by (metis distinct_conv_nth length_map nth_map)
qed

text \<open>Removing tabs keeps the order of the others.\<close>

lemma tab_ids_filter: "i \<in> tab_ids (filter P tabs) \<Longrightarrow> i \<in> tab_ids tabs"
  by (auto simp: tab_ids_def)

lemma place_filter:
  assumes "distinct (map te_id tabs)" "i \<in> tab_ids (filter P tabs)" "j \<in> tab_ids (filter P tabs)"
  shows "place (filter P tabs) i < place (filter P tabs) j \<longleftrightarrow> place tabs i < place tabs j"
  using assms
proof (induction tabs)
  case (Cons t tabs)
  have new: "te_id t \<notin> tab_ids tabs" using Cons.prems(1) by (simp add: tab_ids_def)
  note f = tab_ids_filter [of _ P tabs]
  show ?case
  proof (cases "P t")
    case True
    have old: "k \<in> tab_ids (filter P tabs)" "k \<in> tab_ids tabs" "te_id t \<noteq> k" if "k \<in> tab_ids (filter P (t # tabs))" "k \<noteq> te_id t" for k
      using that True f by auto
    show ?thesis
    proof (cases "i = te_id t \<or> j = te_id t")
      case True
      then show ?thesis using old [OF Cons.prems(2)] old [OF Cons.prems(3)] \<open>P t\<close>
        by (cases "i = te_id t"; cases "j = te_id t") (simp_all add: place_Cons)
    next
      case False
      then show ?thesis using Cons.IH Cons.prems(1) old [OF Cons.prems(2)] old [OF Cons.prems(3)] \<open>P t\<close> by (simp add: place_Cons)
    qed
  next
    case False
    then have "i \<in> tab_ids (filter P tabs)" "j \<in> tab_ids (filter P tabs)" using Cons.prems by simp_all
    moreover from this f new have "te_id t \<noteq> i" "te_id t \<noteq> j" "i \<in> tab_ids tabs" "j \<in> tab_ids tabs" by auto
    ultimately show ?thesis using Cons.IH Cons.prems(1) False by (simp add: place_Cons)
  qed
qed simp

section \<open>The walks\<close>

definition ranges_over :: "tab_entry list \<Rightarrow> nat \<Rightarrow> nat \<Rightarrow> bool" where
  "ranges_over tabs p q \<longleftrightarrow> p < length tabs \<and> q < length tabs"

definition hit :: "tab_entry list \<Rightarrow> nat \<Rightarrow> nat \<Rightarrow> bool" where
  "hit tabs d j \<longleftrightarrow> te_id (tabs ! j) \<noteq> d \<and> te_worksheet (tabs ! j)"

lemma between_step:
  assumes "p \<noteq> q"
  shows "between p j q \<longleftrightarrow> j = p \<or> between (step_toward p q) j q"
    "between (step_toward p q) i q \<Longrightarrow> between p j i \<longleftrightarrow> j = p \<or> between (step_toward p q) j i"
    "p < n \<Longrightarrow> q < n \<Longrightarrow> step_toward p q < n"
  using assms by (auto simp: between_def step_toward_def)

text \<open>The first position of a walk from \<open>p\<close> to \<open>q\<close> that satisfies \<open>P\<close>.\<close>

definition first_on :: "(nat \<Rightarrow> bool) \<Rightarrow> nat \<Rightarrow> nat \<Rightarrow> nat \<Rightarrow> bool" where
  "first_on P p q i \<longleftrightarrow> between p i q \<and> P i \<and> (\<forall>j. between p j i \<and> j \<noteq> i \<longrightarrow> \<not> P j)"

lemma first_on_here: "P p \<Longrightarrow> first_on P p q p"
  by (auto simp: first_on_def between_def)

lemma first_on_step: "p \<noteq> q \<Longrightarrow> \<not> P p \<Longrightarrow> first_on P (step_toward p q) q i \<Longrightarrow> first_on P p q i"
  using between_step(1) [of p q i] between_step(2) [of p q i] by (auto simp: first_on_def)

lemma nearest_worksheet_found:
  assumes "p < length tabs" "q < length tabs"
  shows "\<exists>r. nearest_worksheet tabs p q d = Some r \<and>
    (case r of None \<Rightarrow> \<forall>j. between p j q \<longrightarrow> \<not> hit tabs d j
     | Some x \<Rightarrow> \<exists>i. x = te_id (tabs ! i) \<and> first_on (hit tabs d) p q i)"
  using assms
proof (induction tabs p q d rule: nearest_worksheet.induct)
  case (1 tabs p q d)
  have g: "get tabs p = Some (tabs ! p)" using "1.prems" by (simp add: get_def)
  show ?case
  proof (cases "hit tabs d p \<or> p = q")
    case True
    then show ?thesis using g first_on_here [of "hit tabs d" p q]
      by (auto simp: nearest_worksheet.simps [of tabs p] hit_def between_def intro!: exI [of _ p])
  next
    case False
    then have step: "nearest_worksheet tabs p q d = nearest_worksheet tabs (step_toward p q) q d"
      using g by (auto simp: nearest_worksheet.simps [of tabs p] hit_def)
    have "\<exists>r. nearest_worksheet tabs (step_toward p q) q d = Some r \<and>
      (case r of None \<Rightarrow> \<forall>j. between (step_toward p q) j q \<longrightarrow> \<not> hit tabs d j
       | Some x \<Rightarrow> \<exists>i. x = te_id (tabs ! i) \<and> first_on (hit tabs d) (step_toward p q) q i)"
      using "1.IH" [OF g] False "1.prems" between_step(3) [of p q] by (auto simp: hit_def)
    then show ?thesis using step False first_on_step [of p q "hit tabs d"] between_step(1) [of p q]
      by (fastforce split: option.splits)
  qed
qed

lemma neighbour_from_found:
  assumes "p < length tabs" "q < length tabs"
  shows "\<exists>i. neighbour_from tabs p q = Some (te_id (tabs ! i)) \<and> first_on (\<lambda>j. j = q \<or> te_worksheet (tabs ! j)) p q i"
  using assms
proof (induction tabs p q rule: neighbour_from.induct)
  case (1 tabs p q)
  let ?P = "\<lambda>j. j = q \<or> te_worksheet (tabs ! j)"
  have g: "get tabs p = Some (tabs ! p)" using "1.prems" by (simp add: get_def)
  show ?case
  proof (cases "?P p")
    case True
    then show ?thesis using g first_on_here [of ?P p q] by (auto simp: neighbour_from.simps [of tabs p])
  next
    case False
    then have "neighbour_from tabs p q = neighbour_from tabs (step_toward p q) q"
      using g by (auto simp: neighbour_from.simps [of tabs p])
    then show ?thesis using "1.IH" [OF g] False "1.prems" between_step(3) [of p q] first_on_step [of p q ?P] by auto
  qed
qed

lemma first_on_same: "first_on P p q i \<Longrightarrow> P k \<Longrightarrow> between i k q \<longleftrightarrow> between p k q"
  by (fastforce simp: first_on_def between_def)

lemma between_sym: "between a x b \<longleftrightarrow> between b x a"
  by (auto simp: between_def)

section \<open>What a step does to a 3-D reference\<close>

lemma nearest_insideI:
  assumes dist: "distinct (map te_id tabs)" and i: "i < length tabs" "te_id (tabs ! i) \<noteq> gone" "between (place tabs gone) i (place tabs stop)"
    and same: "\<And>k. k < length tabs \<Longrightarrow> hit tabs gone k \<Longrightarrow> between i k (place tabs stop) \<longleftrightarrow> between (place tabs gone) k (place tabs stop)"
  shows "nearest_inside tabs gone stop (te_id (tabs ! i))"
proof -
  have "between i (place tabs y) (place tabs stop)"
    if y: "is_worksheet tabs y" "y \<noteq> gone" "between (place tabs gone) (place tabs y) (place tabs stop)" for y
  proof -
    obtain k where k: "k < length tabs" "te_id (tabs ! k) = y" "te_worksheet (tabs ! k)"
      using y(1) by (auto simp: is_worksheet_def in_set_conv_nth)
    then show ?thesis using same [of k] y place_of_nth [OF dist k(1)] by (simp add: hit_def)
  qed
  then show ?thesis using i place_of_nth [OF dist i(1)] by (auto simp: nearest_inside_def tab_ids_def)
qed

lemma nearest_worksheet_inside:
  assumes dist: "distinct (map te_id tabs)" and ends: "d \<in> tab_ids tabs" "stop \<in> tab_ids tabs"
    and x: "nearest_worksheet tabs (place tabs d) (place tabs stop) d = Some (Some x)"
  shows "is_worksheet tabs x \<and> nearest_inside tabs d stop x"
proof -
  note p = place_nth [OF ends(1)] and q = place_nth [OF ends(2)]
  obtain i where i: "x = te_id (tabs ! i)" "first_on (hit tabs d) (place tabs d) (place tabs stop) i"
    using nearest_worksheet_found [of "place tabs d" tabs "place tabs stop" d] p q x by auto
  have h: "between (place tabs d) i (place tabs stop)" "te_id (tabs ! i) \<noteq> d" "te_worksheet (tabs ! i)"
    using i(2) by (simp_all add: first_on_def hit_def)
  then have len: "i < length tabs" using p q by (auto simp: between_def)
  have "nearest_inside tabs d stop x" unfolding i(1) by (rule nearest_insideI [OF dist len h(2,1) first_on_same [OF i(2)]])
  moreover have "is_worksheet tabs x" using len h(3) i(1) by (auto simp: is_worksheet_def)
  ultimately show ?thesis by simp
qed

text \<open>Two tab orders that differ in the tab \<open>d\<close> only.\<close>

definition differ_in :: "nat \<Rightarrow> tab_entry list \<Rightarrow> tab_entry list \<Rightarrow> bool" where
  "differ_in d tabs tabs' \<longleftrightarrow> distinct (map te_id tabs) \<and> distinct (map te_id tabs') \<and>
    filter (\<lambda>t. te_id t \<noteq> d) tabs' = filter (\<lambda>t. te_id t \<noteq> d) tabs"

lemma differ_set: "differ_in d tabs tabs' \<Longrightarrow> te_id t \<noteq> d \<Longrightarrow> t \<in> set tabs' \<longleftrightarrow> t \<in> set tabs"
proof -
  assume "differ_in d tabs tabs'" "te_id t \<noteq> d"
  then have "t \<in> set (filter (\<lambda>t. te_id t \<noteq> d) tabs') \<longleftrightarrow> t \<in> set (filter (\<lambda>t. te_id t \<noteq> d) tabs)" by (simp only: differ_in_def)
  then show ?thesis using \<open>te_id t \<noteq> d\<close> by simp
qed

lemma differ_ids: "differ_in d tabs tabs' \<Longrightarrow> i \<noteq> d \<Longrightarrow> i \<in> tab_ids tabs' \<longleftrightarrow> i \<in> tab_ids tabs"
  using differ_set [of d tabs tabs'] by (auto simp: tab_ids_def)

lemma differ_order:
  assumes "differ_in d tabs tabs'" "i \<in> tab_ids tabs" "j \<in> tab_ids tabs" "i \<noteq> d" "j \<noteq> d"
  shows "place tabs' i < place tabs' j \<longleftrightarrow> place tabs i < place tabs j"
proof -
  let ?P = "\<lambda>t. te_id t \<noteq> d"
  have "i \<in> tab_ids (filter ?P tabs)" "j \<in> tab_ids (filter ?P tabs)" using assms(2-5) by (auto simp: tab_ids_def)
  then show ?thesis using assms(1) place_filter [of tabs i ?P j] place_filter [of tabs' i ?P j] by (simp add: differ_in_def)
qed

lemma differ_between:
  assumes "differ_in d tabs tabs'" "{i, j, k} \<subseteq> tab_ids tabs - {d}"
  shows "between (place tabs' i) (place tabs' j) (place tabs' k) \<longleftrightarrow> between (place tabs i) (place tabs j) (place tabs k)"
  using assms differ_order [OF assms(1), of i j] differ_order [OF assms(1), of j i] differ_order [OF assms(1), of j k]
    differ_order [OF assms(1), of k j] by (auto simp: between_def not_less [symmetric])

lemma sheets_without:
  assumes d: "differ_in d tabs tabs'" and ends: "{a', b'} \<subseteq> tab_ids tabs - {d}"
    and out: "d \<in> tab_ids tabs' \<Longrightarrow> \<not> between (place tabs' a') (place tabs' d) (place tabs' b')"
    and same: "\<And>k. k < length tabs \<Longrightarrow> hit tabs d k \<Longrightarrow>
      between (place tabs a') k (place tabs b') \<longleftrightarrow> between (place tabs a) k (place tabs b)"
  shows "sheets tabs' (a', b') = sheets tabs (a, b) - {d}"
proof -
  have "between (place tabs' a') (place tabs' (te_id t)) (place tabs' b') \<longleftrightarrow>
      between (place tabs a) (place tabs (te_id t)) (place tabs b)"
    if t: "t \<in> set tabs" "te_worksheet t" "te_id t \<noteq> d" for t
  proof -
    obtain k where k: "k < length tabs" "t = tabs ! k" using t(1) by (auto simp: in_set_conv_nth)
    then have "place tabs (te_id t) = k" using place_of_nth d by (auto simp: differ_in_def)
    moreover have "te_id t \<in> tab_ids tabs - {d}" using t by (auto simp: tab_ids_def)
    ultimately show ?thesis using same [OF k(1)] differ_between [OF d, of a' "te_id t" b'] ends t k by (simp add: hit_def)
  qed
  moreover have "te_id t \<noteq> d" if "t \<in> set tabs'" "between (place tabs' a') (place tabs' (te_id t)) (place tabs' b')" for t
    using out that by (auto simp: tab_ids_def)
  ultimately show ?thesis using differ_set [OF d] unfolding sheets_def fst_conv snd_conv by blast
qed

lemma place_inj: "i \<in> tab_ids tabs \<Longrightarrow> j \<in> tab_ids tabs \<Longrightarrow> place tabs i = place tabs j \<Longrightarrow> i = j"
  by (metis place_nth)

lemma delete_differs: "distinct (map te_id tabs) \<Longrightarrow> differ_in d tabs (filter (\<lambda>t. te_id t \<noteq> d) tabs)"
  by (simp add: differ_in_def distinct_map_filter)

lemma delete_step:
  assumes dist: "distinct (map te_id tabs)" and ends: "start \<in> tab_ids tabs" "stop \<in> tab_ids tabs"
  shows "\<exists>r. span_step (TabDelete tabs d) (start, stop) = Some r \<and>
    (case r of None \<Rightarrow> sheets tabs (start, stop) \<subseteq> {d}
     | Some (a, b) \<Rightarrow> {a, b} \<subseteq> tab_ids tabs - {d} \<and> sheets (tabs_after (TabDelete tabs d)) (a, b) = sheets tabs (start, stop) - {d})"
proof -
  let ?p = "place tabs start" and ?q = "place tabs stop"
  note pos = position_Some [OF ends(1)] position_Some [OF ends(2)]
  note p = place_nth [OF ends(1)] and q = place_nth [OF ends(2)]
  note diff = delete_differs [OF dist, of d]
  have out: "d \<notin> tab_ids (filter (\<lambda>t. te_id t \<noteq> d) tabs)" by (auto simp: tab_ids_def)
  have same: "sheets (tabs_after (TabDelete tabs d)) (a, b) = sheets tabs (start, stop) - {d}"
    if "{a, b} \<subseteq> tab_ids tabs - {d}" "\<And>k. hit tabs d k \<Longrightarrow> between (place tabs a) k (place tabs b) \<longleftrightarrow> between ?p k ?q" for a b
    using sheets_without [OF diff that(1)] out that(2) by simp
  have none: "sheets tabs (start, stop) \<subseteq> {d}" if none: "\<And>j. between ?p j ?q \<Longrightarrow> \<not> hit tabs d j"
  proof
    fix x assume "x \<in> sheets tabs (start, stop)"
    then obtain t where t: "x = te_id t" "t \<in> set tabs" "te_worksheet t" "between ?p (place tabs x) ?q" by (auto simp: sheets_def)
    then have "tabs ! place tabs x = t" using dist place_of_nth by (metis in_set_conv_nth)
    then show "x \<in> {d}" using none [OF t(4)] t by (simp add: hit_def)
  qed
  have at: "te_id (tabs ! i) \<in> tab_ids tabs - {d} \<and> place tabs (te_id (tabs ! i)) = i"
    if "first_on (hit tabs d) x y i" "x < length tabs" "y < length tabs" for i x y
    using that place_of_nth [OF dist, of i] by (auto simp: first_on_def hit_def between_def tab_ids_def)
  consider (keep) "start \<noteq> d" "stop \<noteq> d" | (both) "start = d" "stop = d" | (first) "start = d" "stop \<noteq> d" | (second) "start \<noteq> d" "stop = d"
    by blast
  then show ?thesis
  proof cases
    case keep
    then show ?thesis using same [of start stop] ends by simp
  next
    case both
    have "\<not> hit tabs d ?p" using p both by (simp add: hit_def)
    then have "nearest_worksheet tabs ?p ?p d = Some None"
      using p by (simp add: nearest_worksheet.simps [of tabs ?p] get_def hit_def)
    moreover have "sheets tabs (start, stop) \<subseteq> {d}" using p both by (intro none) (auto simp: hit_def between_def dest: le_antisym)
    ultimately show ?thesis using both pos by simp
  next
    case first
    obtain r where r: "nearest_worksheet tabs ?p ?q d = Some r"
      "case r of None \<Rightarrow> \<forall>j. between ?p j ?q \<longrightarrow> \<not> hit tabs d j | Some x \<Rightarrow> \<exists>i. x = te_id (tabs ! i) \<and> first_on (hit tabs d) ?p ?q i"
      using nearest_worksheet_found [of ?p tabs ?q d] p q by blast
    show ?thesis
    proof (cases r)
      case None
      then show ?thesis using r first pos none by simp
    next
      case (Some x)
      then obtain i where i: "x = te_id (tabs ! i)" "first_on (hit tabs d) ?p ?q i" using r by auto
      have "sheets (tabs_after (TabDelete tabs d)) (x, stop) = sheets tabs (start, stop) - {d}"
        using at [OF i(2)] p q i(1) first ends first_on_same [OF i(2)] by (intro same) simp_all
      then show ?thesis using r Some first pos at [OF i(2)] p q i(1) ends by simp
    qed
  next
    case second
    obtain r where r: "nearest_worksheet tabs ?q ?p d = Some r"
      "case r of None \<Rightarrow> \<forall>j. between ?q j ?p \<longrightarrow> \<not> hit tabs d j | Some x \<Rightarrow> \<exists>i. x = te_id (tabs ! i) \<and> first_on (hit tabs d) ?q ?p i"
      using nearest_worksheet_found [of ?q tabs ?p d] p q by blast
    show ?thesis
    proof (cases r)
      case None
      then show ?thesis using r second pos none between_sym by auto
    next
      case (Some x)
      then obtain i where i: "x = te_id (tabs ! i)" "first_on (hit tabs d) ?q ?p i" using r by auto
      have "sheets (tabs_after (TabDelete tabs d)) (start, x) = sheets tabs (start, stop) - {d}"
        using at [OF i(2)] p q i(1) second ends first_on_same [OF i(2)] between_sym [of ?p] by (intro same) simp_all
      then show ?thesis using r Some second pos at [OF i(2)] p q i(1) ends by simp
    qed
  qed
qed

text \<open>Each end of a reference after a deletion.\<close>

lemma delete_ends:
  assumes dist: "distinct (map te_id tabs)" and ends: "start \<in> tab_ids tabs" "stop \<in> tab_ids tabs"
    and step: "span_step (TabDelete tabs d) (start, stop) = Some (Some (a, b))"
  shows "(if start = d then is_worksheet tabs a \<and> nearest_inside tabs d stop a else a = start) \<and>
    (if stop = d then is_worksheet tabs b \<and> nearest_inside tabs d start b else b = stop)"
proof -
  note pos = position_Some [OF ends(1)] position_Some [OF ends(2)]
  have inv: "\<exists>x. m = Some (Some x) \<and> f x = Some (Some r)" if "try_some m f = Some (Some r)" for m :: "nat option option" and f r
    using that by (cases m; cases "the m") auto
  have "start = d \<Longrightarrow> nearest_worksheet tabs (place tabs d) (place tabs stop) d = Some (Some a)" "start \<noteq> d \<Longrightarrow> a = start"
    "stop = d \<Longrightarrow> nearest_worksheet tabs (place tabs d) (place tabs start) d = Some (Some b)" "stop \<noteq> d \<Longrightarrow> b = stop"
    using step pos by (auto split: if_splits dest!: inv)
  then show ?thesis using nearest_worksheet_inside [OF dist] ends by auto
qed

lemma move_after:
  assumes dist: "distinct (map te_id tabs)" and range: "source < length tabs" "target < length tabs"
  shows "differ_in (te_id (tabs ! source)) tabs (tabs_after (TabMove tabs source target))"
    "k < length tabs \<Longrightarrow> place (tabs_after (TabMove tabs source target)) (te_id (tabs ! k)) = moved_position k source target"
    "set (tabs_after (TabMove tabs source target)) = set tabs"
proof -
  let ?m = "tabs ! source" and ?after = "tabs_after (TabMove tabs source target)"
  define rest where "rest = take source tabs @ drop (Suc source) tabs"
  have tabs: "tabs = take source tabs @ ?m # drop (Suc source) tabs" by (rule id_take_nth_drop [OF range(1)])
  then have set_tabs: "set tabs = insert ?m (set rest)" unfolding rest_def by (metis Un_insert_right list.simps(15) set_append)
  have dr: "te_id ?m \<notin> te_id ` set rest"
    using dist arg_cong [OF tabs, of "\<lambda>ts. distinct (map te_id ts)"] by (auto simp: rest_def)
  have after: "?after = take target rest @ ?m # drop target rest" by (simp add: Let_def tabs_after.simps rest_def)
  have cut: "set (take target rest) \<union> set (drop target rest) = set rest" by (metis append_take_drop_id set_append)
  show sets: "set ?after = set tabs" unfolding after set_tabs using cut by auto
  have lr: "length rest = length tabs - 1" using range(1) by (simp add: rest_def)
  have rest_nth: "rest ! j = tabs ! (if j < source then j else Suc j)" if "Suc j < length tabs" for j
    using that range(1) by (simp add: rest_def nth_append)
  have after_nth: "?after ! j = (if j < target then rest ! j else if j = target then ?m else rest ! (j - 1))" if "j < length tabs" for j
    using that range(2) lr unfolding after by (simp add: nth_append nth_Cons')
  from lr have len: "length ?after = length tabs" unfolding after using range by simp
  have "card (te_id ` set ?after) = length ?after" using dist sets len by (metis distinct_card length_map list.set_map)
  then have da: "distinct (map te_id ?after)" by (metis card_distinct length_map list.set_map)
  have keep: "filter (\<lambda>t. te_id t \<noteq> te_id ?m) ts = ts" if "set ts \<subseteq> set rest" for ts
  proof (rule filter_True, rule ballI)
    fix t assume "t \<in> set ts"
    then have "te_id t \<in> te_id ` set rest" using that by blast
    then show "te_id t \<noteq> te_id ?m" using dr by auto
  qed
  have "filter (\<lambda>t. te_id t \<noteq> te_id ?m) ?after = rest"
    unfolding after using keep [OF set_take_subset] keep [OF set_drop_subset] by simp
  moreover have "filter (\<lambda>t. te_id t \<noteq> te_id ?m) tabs = rest"
    by (subst tabs) (use keep [of "take source tabs"] keep [of "drop (Suc source) tabs"] in \<open>simp add: rest_def\<close>)
  ultimately show "differ_in (te_id ?m) tabs ?after" using dist da by (simp add: differ_in_def)
  show "place ?after (te_id (tabs ! k)) = moved_position k source target" if k: "k < length tabs"
  proof -
    define j where "j = (if k > source then k - 1 else k)"
    have m: "moved_position k source target = (if k = source then target else if j \<ge> target then j + 1 else j)"
      by (simp add: moved_position_def Let_def j_def)
    have lt: "moved_position k source target < length tabs" unfolding m using k range by (simp add: j_def)
    have "rest ! j = tabs ! k" "Suc j < length tabs" if "k \<noteq> source"
      using rest_nth [of j] that k range(1) by (auto simp: j_def split: if_splits)
    then have "?after ! moved_position k source target = tabs ! k" using after_nth [OF lt] m by (simp split: if_splits)
    then show ?thesis using place_of_nth [OF da, of "moved_position k source target"] lt len by simp
  qed
qed

text \<open>The walk to the neighbour of a moved end leaves out that end only.\<close>

lemma neighbour_found:
  assumes dist: "distinct (map te_id tabs)" and range: "p < length tabs" "q < length tabs" "p \<noteq> q"
  shows "\<exists>i. neighbour tabs p q = Some (te_id (tabs ! i)) \<and> i < length tabs \<and> i \<noteq> p \<and> between p i q \<and>
    (i = q \<or> te_worksheet (tabs ! i)) \<and>
    (\<forall>k < length tabs. hit tabs (te_id (tabs ! p)) k \<longrightarrow> (between i k q \<longleftrightarrow> between p k q))"
proof -
  let ?P = "\<lambda>j. j = q \<or> te_worksheet (tabs ! j)" and ?s = "step_toward p q"
  obtain i where i: "neighbour_from tabs ?s q = Some (te_id (tabs ! i))" "first_on ?P ?s q i"
    using neighbour_from_found [of ?s tabs q] between_step(3) [OF range(3,1,2)] range(2) by blast
  have "between ?s i q" "?P i" using i(2) by (simp_all add: first_on_def)
  moreover have "between i k q \<longleftrightarrow> between p k q" if "hit tabs (te_id (tabs ! p)) k" for k
    using first_on_same [OF i(2), of k] between_step(1) [OF range(3), of k] that by (auto simp: hit_def)
  ultimately show ?thesis using i(1) range
    by (intro exI [of _ i]) (auto simp: neighbour_def between_def step_toward_def split: if_splits)
qed

text \<open>What takes the place of a moved end: the nearest worksheet inside, or the other end.\<close>

definition inner_end :: "tab_entry list \<Rightarrow> nat \<Rightarrow> nat \<Rightarrow> nat \<Rightarrow> bool" where
  "inner_end tabs gone stop x \<longleftrightarrow> (is_worksheet tabs x \<or> x = stop) \<and> nearest_inside tabs gone stop x"

lemma move_step_reversed:
  fixes tabs source target
  defines "after \<equiv> tabs_after (TabMove tabs source target)" and "m \<equiv> te_id (tabs ! source)"
  assumes dist: "distinct (map te_id tabs)" and range: "source < length tabs" "target < length tabs"
    and other: "other \<in> tab_ids tabs" "other \<noteq> m"
    and turned: "(source < place tabs other) \<noteq> (place after m < place after other)"
  shows "\<exists>x. neighbour tabs source (place tabs other) = Some x \<and> x \<in> tab_ids tabs - {m} \<and>
    sheets after (x, other) = sheets tabs (m, other) - {m} \<and> inner_end tabs m other x"
proof -
  let ?q = "place tabs other"
  have q: "?q < length tabs" "te_id (tabs ! ?q) = other" using place_nth [OF other(1)] by auto
  have m: "place tabs m = source" unfolding m_def by (rule place_of_nth [OF dist range(1)])
  have "source \<noteq> ?q" using q other(2) by (auto simp: m_def)
  from neighbour_found [OF dist range(1) q(1) this] obtain i where i: "neighbour tabs source ?q = Some (te_id (tabs ! i))"
    "i < length tabs" "i \<noteq> source" "between source i ?q" "i = ?q \<or> te_worksheet (tabs ! i)"
    "\<And>k. k < length tabs \<Longrightarrow> hit tabs m k \<Longrightarrow> between i k ?q \<longleftrightarrow> between source k ?q"
    by (auto simp: m_def)
  let ?x = "te_id (tabs ! i)"
  have px: "place tabs ?x = i" by (rule place_of_nth [OF dist i(2)])
  have x: "?x \<in> tab_ids tabs - {m}" using i(2,3) m px by (auto simp: tab_ids_def)
  note diff = move_after(1) [OF dist range, folded after_def m_def]
  have "place after ?x < place after other \<longleftrightarrow> i < ?q" "place after other < place after ?x \<longleftrightarrow> ?q < i"
    using differ_order [OF diff, of ?x other] differ_order [OF diff, of other ?x] x other px by auto
  moreover have "tab_ids after = tab_ids tabs" "m \<in> tab_ids tabs"
    using move_after(3) [OF dist range] range(1) by (simp_all add: tab_ids_def after_def m_def)
  then have "place after m \<noteq> place after other" "place after m \<noteq> place after ?x"
    using x other place_inj [of m after] by blast+
  ultimately have "\<not> between (place after ?x) (place after m) (place after other)"
    using turned i(4) by (auto simp: between_def)
  then have "sheets after (?x, other) = sheets tabs (m, other) - {m}"
    using x other i(6) px m by (intro sheets_without [OF diff]) auto
  moreover have "nearest_inside tabs m other ?x"
    by (rule nearest_insideI [OF dist i(2)]) (use i(4,6) x m in auto)
  moreover have "is_worksheet tabs ?x \<or> ?x = other" using i(2,5) q(2) by (auto simp: is_worksheet_def)
  ultimately show ?thesis using i(1) x by (auto simp: inner_end_def)
qed

section \<open>Properties\<close>

definition is_delete :: "tab_step \<Rightarrow> bool" where
  "is_delete step = (case step of TabDelete _ _ \<Rightarrow> True | TabMove _ _ _ \<Rightarrow> False)"

definition same_direction :: "tab_step \<Rightarrow> nat \<times> nat \<Rightarrow> bool" where
  "same_direction step ends \<longleftrightarrow>
    (place (tabs_after step) (fst ends) < place (tabs_after step) (snd ends)) =
    (place (tabs_before step) (fst ends) < place (tabs_before step) (snd ends))"

lemma move_step:
  assumes wf: "wf_step (TabMove tabs source target)" and ends: "start \<in> tab_ids tabs" "stop \<in> tab_ids tabs"
  shows "\<exists>a b. span_step (TabMove tabs source target) (start, stop) = Some (Some (a, b)) \<and> {a, b} \<subseteq> tab_ids tabs \<and>
    (if same_direction (TabMove tabs source target) (start, stop) then (a, b) = (start, stop)
     else (if start = te_id (tabs ! source) then inner_end tabs start stop a \<and> b = stop
         else stop = te_id (tabs ! source) \<and> a = start \<and> inner_end tabs stop start b) \<and>
       sheets (tabs_after (TabMove tabs source target)) (a, b) = sheets tabs (start, stop) - {te_id (tabs ! source)})"
proof -
  let ?after = "tabs_after (TabMove tabs source target)" and ?m = "te_id (tabs ! source)" and ?p = "place tabs start" and ?q = "place tabs stop"
  have wf: "distinct (map te_id tabs)" "source < length tabs" "target < length tabs" using wf by simp_all
  note pos = position_Some [OF ends(1)] position_Some [OF ends(2)]
  have get: "get tabs source = Some (tabs ! source)" using wf(2) by (simp add: get_def)
  have moved: "moved_position (place tabs x) source target = place ?after x" if "x \<in> tab_ids tabs" for x
    using move_after(2) [OF wf, of "place tabs x"] place_nth [OF that] by simp
  have m: "place tabs ?m = source" by (rule place_of_nth [OF wf(1,2)])
  consider (same) "start = stop" | (other) "start \<noteq> stop" "?m \<noteq> start" "?m \<noteq> stop"
    | (kept) "start \<noteq> stop" "?m = start \<or> ?m = stop" "(?p < ?q) = (place ?after start < place ?after stop)"
    | (first) "start \<noteq> stop" "?m = start" "(?p < ?q) \<noteq> (place ?after start < place ?after stop)"
    | (second) "start \<noteq> stop" "?m \<noteq> start" "?m = stop" "(?p < ?q) \<noteq> (place ?after start < place ?after stop)"
    by blast
  then show ?thesis
  proof cases
    case same
    then show ?thesis using get ends by (simp add: Let_def same_direction_def)
  next
    case other
    then show ?thesis
      using get ends differ_order [OF move_after(1) [OF wf], of start stop] by (simp add: Let_def same_direction_def)
  next
    case kept
    then show ?thesis using get pos ends moved by (simp add: Let_def same_direction_def)
  next
    case first
    obtain x where x: "neighbour tabs ?p ?q = Some x" "x \<in> tab_ids tabs - {?m}" "sheets ?after (x, stop) = sheets tabs (start, stop) - {?m}"
      "inner_end tabs ?m stop x" using move_step_reversed [OF wf ends(2)] first m by auto
    then show ?thesis using get pos moved ends first by (simp add: Let_def same_direction_def)
  next
    case second
    have "tab_ids ?after = tab_ids tabs" unfolding tab_ids_def move_after(3) [OF wf] ..
    then have ne: "?p \<noteq> ?q" "place ?after start \<noteq> place ?after stop" using second(1) ends place_inj by blast+
    moreover have "(q < p) \<noteq> (b < a)" if "p \<noteq> q" "a \<noteq> b" "(p < q) \<noteq> (a < b)" for a b p q :: nat using that by auto
    ultimately have "(?q < ?p) \<noteq> (place ?after stop < place ?after start)" using second(4) by blast
    then obtain x where x: "neighbour tabs ?q ?p = Some x" "x \<in> tab_ids tabs - {?m}" "sheets ?after (x, start) = sheets tabs (stop, start) - {?m}"
      "inner_end tabs ?m start x" using move_step_reversed [OF wf ends(1)] second m by auto
    moreover have "sheets ts (a, b) = sheets ts (b, a)" for ts a b by (auto simp: sheets_def between_sym)
    ultimately show ?thesis using get pos moved ends second by (simp add: Let_def same_direction_def)
  qed
qed

text \<open>C16: A 3-D reference follows its sheets through a change of the tabs.  After a deletion it spans exactly the
worksheets it spanned that are left, and becomes an error only when there are none; an end that was deleted becomes
the nearest worksheet inside, and an end that was not stays.  A move that leaves the ends in their order keeps both.
A move that turns them around replaces the moved end, and only it, by the nearest worksheet inside, or by the other
end when there is none, and the reference spans exactly what it spanned without the moved tab.  No index is out of
range.\<close>

theorem span_follows_tabs:
  assumes "wf_step step" "start \<in> tab_ids (tabs_before step)" "stop \<in> tab_ids (tabs_before step)"
  shows "\<exists>r. span_step step (start, stop) = Some r \<and>
    (case r of
      None \<Rightarrow> is_delete step \<and> sheets (tabs_before step) (start, stop) \<subseteq> {affected step}
    | Some (a, b) \<Rightarrow> {a, b} \<subseteq> tab_ids (tabs_after step) \<and>
        (if is_delete step
         then (if start = affected step then is_worksheet (tabs_before step) a \<and> nearest_inside (tabs_before step) start stop a else a = start) \<and>
           (if stop = affected step then is_worksheet (tabs_before step) b \<and> nearest_inside (tabs_before step) stop start b else b = stop) \<and>
           sheets (tabs_after step) (a, b) = sheets (tabs_before step) (start, stop) - {affected step}
         else if same_direction step (start, stop) then (a, b) = (start, stop)
         else (if start = affected step then inner_end (tabs_before step) start stop a \<and> b = stop
             else stop = affected step \<and> a = start \<and> inner_end (tabs_before step) stop start b) \<and>
           sheets (tabs_after step) (a, b) = sheets (tabs_before step) (start, stop) - {affected step}))"
proof (cases step)
  case (TabDelete tabs d)
  have ids: "tab_ids (filter (\<lambda>t. te_id t \<noteq> d) tabs) = tab_ids tabs - {d}" by (auto simp: tab_ids_def)
  have wf: "distinct (map te_id tabs)" "start \<in> tab_ids tabs" "stop \<in> tab_ids tabs" using assms TabDelete by simp_all
  obtain r where r: "span_step (TabDelete tabs d) (start, stop) = Some r" "case r of None \<Rightarrow> sheets tabs (start, stop) \<subseteq> {d}
     | Some (a, b) \<Rightarrow> {a, b} \<subseteq> tab_ids tabs - {d} \<and> sheets (tabs_after (TabDelete tabs d)) (a, b) = sheets tabs (start, stop) - {d}"
    using delete_step [OF wf] by auto
  show ?thesis
  proof (cases r)
    case None
    then show ?thesis using r unfolding TabDelete by (simp add: is_delete_def del: span_step.simps)
  next
    case (Some p)
    obtain a b where ab: "p = (a, b)" by (cases p)
    then have step: "span_step (TabDelete tabs d) (start, stop) = Some (Some (a, b))" using r(1) Some by simp
    have "{a, b} \<subseteq> tab_ids tabs - {d}" "sheets (tabs_after (TabDelete tabs d)) (a, b) = sheets tabs (start, stop) - {d}"
      using r(2) Some ab by simp_all
    then show ?thesis unfolding TabDelete step using delete_ends [OF wf step] ids
      by (cases "start = d"; cases "stop = d") (simp_all add: is_delete_def del: span_step.simps)
  qed
next
  case (TabMove tabs source target)
  have "tab_ids (tabs_after step) = tab_ids tabs" using move_after(3) [of tabs source target] assms TabMove by (simp add: tab_ids_def)
  then show ?thesis using move_step [of tabs source target start stop] assms TabMove
    by (auto simp: is_delete_def split: if_splits)
qed

text \<open>Three worksheets with a chart sheet after the first.\<close>

definition sample_tabs :: "tab_entry list" where
  "sample_tabs = [\<lparr>te_id = 1, te_worksheet = True\<rparr>, \<lparr>te_id = 7, te_worksheet = False\<rparr>, \<lparr>te_id = 2, te_worksheet = True\<rparr>,
    \<lparr>te_id = 3, te_worksheet = True\<rparr>]"

theorem span_follows_tabs_witness:
  "span_step (TabDelete sample_tabs 1) (1, 3) = Some (Some (2, 3)) \<and>
    sheets (tabs_after (TabDelete sample_tabs 1)) (2, 3) = sheets sample_tabs (1, 3) - {1}"
proof -
  have step: "span_step (TabDelete sample_tabs 1) (1, 3) = Some (Some (2, 3))"
    by (simp add: sample_tabs_def nearest_worksheet.simps step_toward_def get_def)
  show ?thesis using span_follows_tabs [of "TabDelete sample_tabs 1" 1 3] unfolding step
    by (simp add: sample_tabs_def is_delete_def)
qed

end
