(* ===== verification/Grid_Planner.thy ===== *)
theory Grid_Planner
  imports Grid_Rewrite Sheet_Changes
begin

text \<open>
  The source edits a structural edit or a copy makes to one node of a formula
  (\<open>calculation/grid_rewrite.rs\<close>), with the texts of references they write (\<open>calculation/ast.rs\<close>).  The edits a
  planner pushes are part of its result; \<open>None\<close> is a panic: an outcome that cannot be computed or a slice of the
  source.
\<close>

section \<open>The text of a reference\<close>

function label_loop :: "u32 \<Rightarrow> string \<Rightarrow> string" where
  "label_loop remaining label =
    (if remaining > 0 then label_loop ((remaining - 1) div 26) (char_of (65 + (remaining - 1) mod 26) # label) else label)"
  by pat_completeness auto
termination
proof (relation "measure fst")
  fix remaining :: nat and label :: string assume "0 < remaining"
  then have "(remaining - 1) div 26 < remaining" by (cases remaining) (auto simp: less_Suc_eq_le)
  then show "(((remaining - 1) div 26, char_of (65 + (remaining - 1) mod 26) # label), remaining, label) \<in> measure fst" by simp
qed simp

declare label_loop.simps [simp del]

definition ref_column_label :: "u32 \<Rightarrow> string" where
  "ref_column_label column = label_loop column []"

definition dollar_if :: "bool \<Rightarrow> ustring" where
  "dollar_if absolute = (if absolute then [36] else [])"

definition write_cell :: "cell_ref \<Rightarrow> ustring" where
  "write_cell cell = dollar_if (cr_column_absolute cell) @ ascii (ref_column_label (cr_column cell)) @
    dollar_if (cr_row_absolute cell) @ ascii (show_nat (cr_row cell))"

definition write_sheet_prefix :: "sheet_prefix \<Rightarrow> ustring" where
  "write_sheet_prefix sheet =
    (let label = (case sp_end_name sheet of Some stop \<Rightarrow> sp_name sheet @ [58] @ stop | None \<Rightarrow> sp_name sheet)
     in if sp_quoted sheet then [39] @ double_quotes 39 label @ [39, 33] else label @ [33])"

fun write_body :: "ref_body \<Rightarrow> ustring" where
  "write_body (RefCell cell) = write_cell cell"
| "write_body (RefArea start stop) = write_cell start @ [58] @ write_cell stop"
| "write_body (RefColumns start stop) =
    dollar_if (colr_absolute start) @ ascii (ref_column_label (colr_column start)) @ [58] @
    dollar_if (colr_absolute stop) @ ascii (ref_column_label (colr_column stop))"
| "write_body (RefRows start stop) =
    dollar_if (rowr_absolute start) @ ascii (show_nat (rowr_row start)) @ [58] @
    dollar_if (rowr_absolute stop) @ ascii (show_nat (rowr_row stop))"

definition write_reference :: "reference \<Rightarrow> ustring" where
  "write_reference r = (case ref_sheet r of Some sheet \<Rightarrow> write_sheet_prefix sheet | None \<Rightarrow> []) @ write_body (ref_body_of r)"

definition render_body :: "ref_body \<Rightarrow> ustring" where
  "render_body body = write_reference \<lparr>ref_sheet = None, ref_body_of = body\<rparr>"

fun replace_first :: "uchar \<Rightarrow> ustring \<Rightarrow> ustring \<Rightarrow> ustring" where
  "replace_first c new [] = []"
| "replace_first c new (x # s) = (if x = c then new @ s else x # replace_first c new s)"

text \<open>The colon of the text at the span, with the dots of a trim colon.\<close>

definition written_colon :: "ustring \<Rightarrow> ustring option" where
  "written_colon written =
    map_option (\<lambda>(pre, post).
        (if butlast pre \<noteq> [] \<and> last (butlast pre) = 46 then [46] else []) @ [58] @
        (if post \<noteq> [] \<and> hd post = 46 then [46] else []))
      (rsplit_after 58 written)"

definition render_body_over :: "ustring \<Rightarrow> source_span \<Rightarrow> ref_body \<Rightarrow> ustring option" where
  "render_body_over source span body =
    map_option (\<lambda>written. case written_colon written of
        None \<Rightarrow> render_body body
      | Some colon \<Rightarrow> replace_first 58 colon (render_body body))
      (byte_slice source (span_start span) (span_end span))"

section \<open>Nodes\<close>

definition DELETED_REFERENCE :: ustring where
  "DELETED_REFERENCE = ascii ''#REF!''"

definition source_edit_new :: "source_span \<Rightarrow> ustring \<Rightarrow> source_edit" where
  "source_edit_new span replacement = \<lparr>se_span = span, se_replacement = replacement\<rparr>"

fun tree_components :: "node_span_tree \<Rightarrow> source_component list" where
  "tree_components (NodeSpanTree _ cs _) = cs"

fun tree_children :: "node_span_tree \<Rightarrow> node_span_tree list" where
  "tree_children (NodeSpanTree _ _ trees) = trees"

definition body_span :: "source_component list \<Rightarrow> source_span option" where
  "body_span components = map_option sc_span (find (\<lambda>c. sc_kind c = ReferenceBody) components)"

definition deleted_reference :: "node_span_tree \<Rightarrow> source_edit" where
  "deleted_reference node =
    (case body_span (tree_components node) of
      Some span \<Rightarrow>
        if span_start span > span_start (tree_span node) then source_edit_new span DELETED_REFERENCE
        else source_edit_new (tree_span node) DELETED_REFERENCE
    | None \<Rightarrow> source_edit_new (tree_span node) DELETED_REFERENCE)"

definition qualifier_text :: "ustring \<Rightarrow> node_span_tree \<Rightarrow> ustring" where
  "qualifier_text source node =
    (case body_span (tree_components node) of
      Some span \<Rightarrow>
        if span_start span > span_start (tree_span node)
        then (case byte_slice source (span_start (tree_span node)) (span_start span) of Some t \<Rightarrow> t | None \<Rightarrow> [])
        else []
    | None \<Rightarrow> [])"

text \<open>The edit that turns a whole node into an error, with the sheet of one of its references.\<close>

definition deleted_node :: "ustring \<Rightarrow> node_span_tree \<Rightarrow> node_span_tree \<Rightarrow> source_edit" where
  "deleted_node source node child = source_edit_new (tree_span node) (qualifier_text source child @ DELETED_REFERENCE)"

definition external_workbook_detail :: "sheet_prefix \<Rightarrow> ustring option" where
  "external_workbook_detail prefix =
    find (\<lambda>name. 91 \<in> set name) (sp_name prefix # (case sp_end_name prefix of Some stop \<Rightarrow> [stop] | None \<Rightarrow> []))"

definition targets :: "(uchar \<Rightarrow> ustring) \<Rightarrow> grid_change \<Rightarrow> reference \<Rightarrow> bool" where
  "targets lower change reference =
    (case ref_sheet reference of
      None \<Rightarrow> gc_host_is_sheet change
    | Some prefix \<Rightarrow> sp_end_name prefix = None \<and> external_workbook_detail prefix = None \<and>
        case_insensitive_eq lower (sp_name prefix) (gc_sheet change))"

fun unparenthesized :: "'n expr \<Rightarrow> node_span_tree \<Rightarrow> node_span_tree" where
  "unparenthesized (XParen inner) (NodeSpanTree span cs (child # rest)) = unparenthesized inner child"
| "unparenthesized _ node = node"

fun targeted_reference :: "(uchar \<Rightarrow> ustring) \<Rightarrow> grid_change \<Rightarrow> 'n expr \<Rightarrow> reference option" where
  "targeted_reference lower change (XParen inner) = targeted_reference lower change inner"
| "targeted_reference lower change (XRef reference) = (if targets lower change reference then Some reference else None)"
| "targeted_reference lower change _ = None"

section \<open>Structural edits\<close>

text \<open>Whether an operand is a reference to deleted cells.\<close>

definition operand_deleted :: "grid_change \<Rightarrow> reference option \<Rightarrow> bool option" where
  "operand_deleted change reference =
    (case reference of None \<Rightarrow> Some False | Some r \<Rightarrow> map_option (\<lambda>o'. o' = Deleted) (outcome (ref_body_of r) (gc_edit change)))"

definition replace_body :: "source_span option \<Rightarrow> ustring \<Rightarrow> source_edit list" where
  "replace_body span replacement = (case span of Some span \<Rightarrow> [source_edit_new span replacement] | None \<Rightarrow> [])"

definition plan_reference ::
  "(uchar \<Rightarrow> ustring) \<Rightarrow> ustring \<Rightarrow> reference \<Rightarrow> node_span_tree \<Rightarrow> grid_change \<Rightarrow> source_edit list option" where
  "plan_reference lower source reference node change =
    (if \<not> targets lower change reference then Some []
     else Option.bind (outcome (ref_body_of reference) (gc_edit change)) (\<lambda>o'.
       case o' of
         Unchanged \<Rightarrow> Some []
       | Changed body \<Rightarrow>
           (case body_span (tree_components node) of
             Some span \<Rightarrow> map_option (\<lambda>t. [source_edit_new span t]) (render_body_over source span body)
           | None \<Rightarrow> Some [])
       | Deleted \<Rightarrow> Some [deleted_reference node]))"

definition plan_area ::
  "ustring \<Rightarrow> cell_ref \<Rightarrow> cell_ref \<Rightarrow> node_span_tree \<Rightarrow> node_span_tree \<Rightarrow> node_span_tree \<Rightarrow> grid_change \<Rightarrow> source_edit list option" where
  "plan_area source first lst node start_node end_node change =
    Option.bind (outcome (RefArea first lst) (gc_edit change)) (\<lambda>o'.
      case o' of
        Unchanged \<Rightarrow> Some []
      | Changed (RefArea a b) \<Rightarrow>
          Some (replace_body (body_span (tree_components start_node)) (render_body (RefCell a)) @
            replace_body (body_span (tree_components end_node)) (render_body (RefCell b)))
      | Changed _ \<Rightarrow> None
      | Deleted \<Rightarrow> Some [deleted_node source node start_node])"

definition plan_range ::
  "(uchar \<Rightarrow> ustring) \<Rightarrow> ustring \<Rightarrow> 'n expr \<Rightarrow> 'n expr \<Rightarrow> node_span_tree \<Rightarrow> node_span_tree \<Rightarrow> node_span_tree \<Rightarrow> grid_change
    \<Rightarrow> (node_plan \<times> source_edit list) option" where
  "plan_range lower source start stop node start_node end_node change =
    (let start_ref = targeted_reference lower change start; end_ref = targeted_reference lower change stop
     in case (map_option ref_body_of start_ref, map_option ref_body_of end_ref) of
         (Some (RefCell first), Some (RefCell lst)) \<Rightarrow>
           map_option (\<lambda>edits. (PlanDone, edits)) (plan_area source first lst node start_node end_node change)
       | _ \<Rightarrow>
           Option.bind (operand_deleted change start_ref) (\<lambda>d1.
             if d1 then Some (PlanDone, [deleted_node source node start_node])
             else Option.bind (operand_deleted change end_ref) (\<lambda>d2.
               if d2 then Some (PlanDone, [deleted_node source node end_node]) else Some (PlanDescend, []))))"

definition plan_operand ::
  "(uchar \<Rightarrow> ustring) \<Rightarrow> ustring \<Rightarrow> 'n expr \<Rightarrow> node_span_tree \<Rightarrow> grid_change \<Rightarrow> (node_plan \<times> source_edit list) option" where
  "plan_operand lower source operand node change =
    (case tree_children node of
      [] \<Rightarrow> Some (PlanDescend, [])
    | child # _ \<Rightarrow>
        map_option (\<lambda>d. if d then (PlanDone, [deleted_node source node child]) else (PlanDescend, []))
          (operand_deleted change (targeted_reference lower change operand)))"

definition plan_grid_node ::
  "(uchar \<Rightarrow> ustring) \<Rightarrow> ustring \<Rightarrow> 'n expr \<Rightarrow> node_span_tree \<Rightarrow> grid_change \<Rightarrow> (node_plan \<times> source_edit list) option" where
  "plan_grid_node lower source e node change =
    (case e of
      XRef reference \<Rightarrow> map_option (\<lambda>edits. (PlanDone, edits)) (plan_reference lower source reference node change)
    | XRange start stop \<Rightarrow>
        (case tree_children node of
          a # b # _ \<Rightarrow> plan_range lower source start stop node (unparenthesized start a) (unparenthesized stop b) change
        | _ \<Rightarrow> Some (PlanDescend, []))
    | XSpillRef operand \<Rightarrow> plan_operand lower source operand node change
    | XInvoke callee _ \<Rightarrow> plan_operand lower source callee node change
    | XExternal _ \<Rightarrow> Some (PlanDone, [])
    | _ \<Rightarrow> Some (PlanDescend, []))"

section \<open>Copies\<close>

definition copied_body :: "'n expr \<Rightarrow> ref_body option" where
  "copied_body e =
    (case e of
      XRef reference \<Rightarrow> Some (ref_body_of reference)
    | XExternal reference \<Rightarrow> (case ext_target reference of TargetReference body \<Rightarrow> Some body | _ \<Rightarrow> None)
    | _ \<Rightarrow> None)"

datatype off_grid = OffGrid

definition plan_copy_node ::
  "ustring \<Rightarrow> 'n expr \<Rightarrow> node_span_tree \<Rightarrow> copy_offset \<Rightarrow> (off_grid + node_plan \<times> source_edit list) option" where
  "plan_copy_node source e node d =
    (case copied_body e of
      None \<Rightarrow> Some (Inr (case e of XExternal _ \<Rightarrow> PlanDone | _ \<Rightarrow> PlanDescend, []))
    | Some body \<Rightarrow>
        (case shift_body body d of
          None \<Rightarrow> Some (Inl OffGrid)
        | Some shifted \<Rightarrow>
            (case if shifted \<noteq> body then body_span (tree_components node) else None of
              None \<Rightarrow> Some (Inr (PlanDone, []))
            | Some span \<Rightarrow>
                map_option (\<lambda>t. Inr (PlanDone, [source_edit_new span t])) (render_body_over source span shifted))))"

end
