(* ===== verification/Table_Conversion.thy ===== *)
theory Table_Conversion
  imports Sheet_Changes Structured_Reference
begin

text \<open>
  Structured references to a table that becomes a range (\<open>calculation/table_conversion.rs\<close>): the absolute A1
  references to the cells they name.
\<close>

record table_area =
  ta_display_name :: ustring
  ta_sheet_name :: ustring
  ta_range :: cell_range
  ta_header_rows :: u32
  ta_totals_rows :: u32
  ta_columns :: "ustring list"

definition REFERENCE_ERROR :: ustring where
  "REFERENCE_ERROR = ascii ''#REF!''"

fun index_of :: "('a \<Rightarrow> bool) \<Rightarrow> 'a list \<Rightarrow> nat option" where
  "index_of P [] = None"
| "index_of P (x # xs) = (if P x then Some 0 else map_option Suc (index_of P xs))"

definition area_column :: "(uchar \<Rightarrow> ustring) \<Rightarrow> table_area \<Rightarrow> ustring \<Rightarrow> u32 option" where
  "area_column lower t name =
    Option.bind (index_of (\<lambda>column. case_insensitive_eq lower column name) (ta_columns t)) (\<lambda>index.
      if index < u32_bound then Some (u32_add (addr_column (rng_start (ta_range t))) index) else None)"

definition area_columns :: "(uchar \<Rightarrow> ustring) \<Rightarrow> table_area \<Rightarrow> structured_reference \<Rightarrow> (u32 \<times> u32) option" where
  "area_columns lower t r =
    (case sr_columns r of
      None \<Rightarrow> Some (addr_column (rng_start (ta_range t)), addr_column (rng_end (ta_range t)))
    | Some (SingleColumn name) \<Rightarrow> map_option (\<lambda>column. (column, column)) (area_column lower t name)
    | Some (ColumnRange start stop) \<Rightarrow>
        Option.bind (area_column lower t start) (\<lambda>a. Option.bind (area_column lower t stop) (\<lambda>b. Some (min a b, max a b))))"

definition area_items :: "structured_reference \<Rightarrow> structured_item list" where
  "area_items r = (if sr_items r = [] then [if sr_table r \<noteq> None then ItemData else ItemThisRow] else sr_items r)"

text \<open>The rows of an item; the outer \<open>None\<close> is the early return for the headers of a table without any.\<close>

fun item_band :: "table_area \<Rightarrow> u32 \<Rightarrow> u32 \<Rightarrow> structured_item \<Rightarrow> (u32 \<times> u32) option option" where
  "item_band t data_top data_bottom ItemAll = Some (Some (addr_row (rng_start (ta_range t)), addr_row (rng_end (ta_range t))))"
| "item_band t data_top data_bottom ItemHeaders =
    (if ta_header_rows t = 0 then None else Some (Some (addr_row (rng_start (ta_range t)), u32_sub data_top 1)))"
| "item_band t data_top data_bottom ItemData = Some (if data_top > data_bottom then None else Some (data_top, data_bottom))"
| "item_band t data_top data_bottom ItemTotals =
    Some (if ta_totals_rows t = 0 then None else Some (u32_add data_bottom 1, addr_row (rng_end (ta_range t))))"
| "item_band t data_top data_bottom ItemThisRow = Some None"

fun join_bands :: "(u32 \<times> u32) option \<Rightarrow> (u32 \<times> u32) option \<Rightarrow> (u32 \<times> u32) option" where
  "join_bands rows None = rows"
| "join_bands None (Some band) = Some band"
| "join_bands (Some (first, lst)) (Some (start, stop)) = Some (min first start, max lst stop)"

fun band_loop :: "table_area \<Rightarrow> u32 \<Rightarrow> u32 \<Rightarrow> (u32 \<times> u32) option \<Rightarrow> structured_item list \<Rightarrow> (u32 \<times> u32) option" where
  "band_loop t data_top data_bottom rows [] = rows"
| "band_loop t data_top data_bottom rows (item # items) =
    Option.bind (item_band t data_top data_bottom item) (\<lambda>band.
      band_loop t data_top data_bottom (join_bands rows band) items)"

definition cell_text :: "u32 \<Rightarrow> ustring \<Rightarrow> ustring" where
  "cell_text column row = [36] @ ascii (column_label column) @ row"

definition area_text :: "table_area \<Rightarrow> u32 \<Rightarrow> u32 \<Rightarrow> ustring \<Rightarrow> ustring \<Rightarrow> ustring" where
  "area_text t left right first_row last_row =
    (let start = cell_text left first_row; stop = cell_text right last_row; sheet = double_quotes 39 (ta_sheet_name t)
     in if start = stop then [39] @ sheet @ [39, 33] @ start else [39] @ sheet @ [39, 33] @ start @ [58] @ stop)"

definition row_text :: "u32 \<Rightarrow> ustring" where
  "row_text row = ascii (show_nat row)"

text \<open>\<open>TableArea::area\<close>.\<close>

definition table_area_text :: "(uchar \<Rightarrow> ustring) \<Rightarrow> table_area \<Rightarrow> structured_reference \<Rightarrow> u32 option \<Rightarrow> ustring option" where
  "table_area_text lower t r this_row =
    Option.bind (area_columns lower t r) (\<lambda>(left, right).
      let upper = addr_row (rng_start (ta_range t)); low = addr_row (rng_end (ta_range t));
          data_top = u32_add upper (ta_header_rows t)
      in if low < ta_totals_rows t then None
         else let data_bottom = low - ta_totals_rows t; items = area_items r
           in if ItemThisRow \<in> set items
              then map_option (\<lambda>row. area_text t left right (row_text row) (row_text row)) this_row
              else map_option (\<lambda>(first, lst). area_text t left right ([36] @ row_text first) ([36] @ row_text lst))
                (band_loop t data_top data_bottom None items))"

definition a1_text_of :: "(uchar \<Rightarrow> ustring) \<Rightarrow> table_area \<Rightarrow> structured_reference \<Rightarrow> u32 option \<Rightarrow> ustring" where
  "a1_text_of lower t r this_row =
    (case table_area_text lower t r this_row of Some t \<Rightarrow> t | None \<Rightarrow> REFERENCE_ERROR)"

section \<open>The cells a reference names\<close>

definition wf_table :: "table_area \<Rightarrow> bool" where
  "wf_table t \<longleftrightarrow> valid_range (ta_range t) \<and>
    addr_row (rng_start (ta_range t)) + ta_header_rows t + ta_totals_rows t \<le> Suc (addr_row (rng_end (ta_range t))) \<and>
    addr_column (rng_start (ta_range t)) + length (ta_columns t) = Suc (addr_column (rng_end (ta_range t)))"

fun item_rows :: "table_area \<Rightarrow> structured_item \<Rightarrow> nat set" where
  "item_rows t ItemAll = {addr_row (rng_start (ta_range t))..addr_row (rng_end (ta_range t))}"
| "item_rows t ItemHeaders = {addr_row (rng_start (ta_range t))..<addr_row (rng_start (ta_range t)) + ta_header_rows t}"
| "item_rows t ItemData =
    {addr_row (rng_start (ta_range t)) + ta_header_rows t..addr_row (rng_end (ta_range t)) - ta_totals_rows t}"
| "item_rows t ItemTotals = {addr_row (rng_end (ta_range t)) - ta_totals_rows t<..addr_row (rng_end (ta_range t))}"
| "item_rows t ItemThisRow = {}"

definition named_rows :: "table_area \<Rightarrow> structured_item set \<Rightarrow> nat set" where
  "named_rows t items = (\<Union>item\<in>items. item_rows t item)"

text \<open>The items a reference asks for: by default the data, or this row when it names no table.\<close>

definition asked_items :: "structured_reference \<Rightarrow> structured_item set" where
  "asked_items r =
    (if sr_items r \<noteq> [] then set (sr_items r) else if sr_table r = None then {ItemThisRow} else {ItemData})"

text \<open>The column of a name: the first column of the table with that name.\<close>

definition column_named :: "(uchar \<Rightarrow> ustring) \<Rightarrow> table_area \<Rightarrow> ustring \<Rightarrow> nat \<Rightarrow> bool" where
  "column_named lower t name c \<longleftrightarrow> (\<exists>i < length (ta_columns t). c = addr_column (rng_start (ta_range t)) + i \<and>
    case_insensitive_eq lower (ta_columns t ! i) name \<and> (\<forall>j < i. \<not> case_insensitive_eq lower (ta_columns t ! j) name))"

definition columns_named :: "(uchar \<Rightarrow> ustring) \<Rightarrow> table_area \<Rightarrow> structured_reference \<Rightarrow> nat \<Rightarrow> nat \<Rightarrow> bool" where
  "columns_named lower t r left right \<longleftrightarrow>
    (case sr_columns r of
      None \<Rightarrow> left = addr_column (rng_start (ta_range t)) \<and> right = addr_column (rng_end (ta_range t))
    | Some (SingleColumn name) \<Rightarrow> column_named lower t name left \<and> right = left
    | Some (ColumnRange start stop) \<Rightarrow>
        \<exists>a b. column_named lower t start a \<and> column_named lower t stop b \<and> left = min a b \<and> right = max a b)"

text \<open>The text of a corner: a dollar sign, letters whose value is the column, a dollar sign when the row is fixed,
and digits whose value is the row.\<close>

definition reads_corner :: "bool \<Rightarrow> cell_address \<Rightarrow> ustring \<Rightarrow> bool" where
  "reads_corner fixed a t \<longleftrightarrow> (\<exists>ls ds. t = [36] @ ascii ls @ (if fixed then [36] else []) @ ascii ds \<and>
    a1_text ls ds \<and> letters_value ls = addr_column a \<and> digits_value ds = addr_row a)"

text \<open>The text of a reference to a range: the name of the sheet in quotes, with every quote in it doubled, an
exclamation mark and the corners, with the second one only when it differs from the first.\<close>

definition reads_range :: "bool \<Rightarrow> ustring \<Rightarrow> cell_range \<Rightarrow> ustring \<Rightarrow> bool" where
  "reads_range fixed sheet q t \<longleftrightarrow> (\<exists>start stop. reads_corner fixed (rng_start q) start \<and> reads_corner fixed (rng_end q) stop \<and>
    t = [39] @ concat (map (\<lambda>c. if c = 39 then [39, 39] else [c]) sheet) @ [39, 33] @
      (if rng_start q = rng_end q then start else start @ [58] @ stop))"

section \<open>Rows\<close>

text \<open>The smallest interval that holds a set of rows.\<close>

definition spans :: "(u32 \<times> u32) option \<Rightarrow> nat set \<Rightarrow> bool" where
  "spans rows S = (case rows of None \<Rightarrow> S = {} | Some (a, b) \<Rightarrow> a \<in> S \<and> b \<in> S \<and> (\<forall>x\<in>S. a \<le> x \<and> x \<le> b))"

lemma spans_join:
  "spans rows S \<Longrightarrow> spans band S' \<Longrightarrow> spans (join_bands rows band) (S \<union> S')"
  by (cases rows; cases band) (fastforce simp: spans_def min_def max_def)+

lemma item_band_spans:
  assumes "wf_table t" "item_band t data_top data_bottom item = Some band"
    "data_top = addr_row (rng_start (ta_range t)) + ta_header_rows t" "data_bottom = addr_row (rng_end (ta_range t)) - ta_totals_rows t"
  shows "spans band (item_rows t item)"
  using assms
  by (cases item; auto simp: spans_def wf_table_def valid_range_def valid_address_def excel_max u32_simps split: if_splits; arith)

lemma band_loop_spans:
  assumes "wf_table t" "spans rows S" "data_top = addr_row (rng_start (ta_range t)) + ta_header_rows t"
    "data_bottom = addr_row (rng_end (ta_range t)) - ta_totals_rows t" "\<not> (ItemHeaders \<in> set items \<and> ta_header_rows t = 0)"
  shows "spans (band_loop t data_top data_bottom rows items) (S \<union> named_rows t (set items))"
  using assms
proof (induction items arbitrary: rows S)
  case (Cons item items)
  obtain band where band: "item_band t data_top data_bottom item = Some band" using Cons.prems(5) by (cases item) auto
  have "spans (join_bands rows band) (S \<union> item_rows t item)"
    using spans_join [OF Cons.prems(2) item_band_spans [OF assms(1) band assms(3,4)]] .
  from Cons.IH [OF assms(1) this assms(3,4)] Cons.prems(5) show ?case using band by (auto simp: named_rows_def Un_assoc)
qed (simp add: named_rows_def)

lemma band_loop_headers:
  "ItemHeaders \<in> set items \<Longrightarrow> ta_header_rows t = 0 \<Longrightarrow> band_loop t data_top data_bottom rows items = None"
  by (induction items arbitrary: rows) (auto split: Option.bind_splits)

section \<open>Columns\<close>

lemma index_of_iff: "index_of P xs = Some i \<longleftrightarrow> i < length xs \<and> P (xs ! i) \<and> (\<forall>j < i. \<not> P (xs ! j))"
proof (induction xs arbitrary: i)
  case (Cons x xs)
  then show ?case by (cases i) (auto simp: All_less_Suc2)
qed simp

lemma area_column_iff:
  assumes "wf_table t"
  shows "area_column lower t name = Some c \<longleftrightarrow> column_named lower t name c"
proof -
  have exact: "i < u32_bound \<and> u32_add (addr_column (rng_start (ta_range t))) i = addr_column (rng_start (ta_range t)) + i"
    if "i < length (ta_columns t)" for i
    using that assms by (auto simp: wf_table_def valid_range_def valid_address_def u32_simps excel_max)
  show ?thesis using exact by (auto simp: area_column_def column_named_def bind_eq_Some_conv index_of_iff)
qed

lemma area_columns_iff:
  "wf_table t \<Longrightarrow> area_columns lower t r = Some (left, right) \<longleftrightarrow> columns_named lower t r left right"
  by (auto simp: area_columns_def columns_named_def bind_eq_Some_conv area_column_iff split: option.splits structured_columns.splits)

lemma columns_named_inside:
  assumes "wf_table t" "columns_named lower t r left right"
  shows "addr_column (rng_start (ta_range t)) \<le> left \<and> left \<le> right \<and> right \<le> addr_column (rng_end (ta_range t))"
proof -
  have "addr_column (rng_start (ta_range t)) \<le> c \<and> c \<le> addr_column (rng_end (ta_range t))" if "column_named lower t name c" for name c
    using that assms(1) by (auto simp: column_named_def wf_table_def)
  then show ?thesis using assms
    by (fastforce simp: columns_named_def wf_table_def valid_range_def split: option.splits structured_columns.splits)
qed

lemma named_rows_inside:
  assumes "wf_table t" "x \<in> named_rows t items"
  shows "addr_row (rng_start (ta_range t)) \<le> x \<and> x \<le> addr_row (rng_end (ta_range t))"
proof -
  have "x \<in> item_rows t item \<Longrightarrow> addr_row (rng_start (ta_range t)) \<le> x \<and> x \<le> addr_row (rng_end (ta_range t))" for item
    using assms(1) by (cases item) (auto simp: wf_table_def valid_range_def)
  then show ?thesis using assms(2) by (auto simp: named_rows_def)
qed

section \<open>Texts\<close>

lemma ascii_inject: "ascii s = ascii t \<longleftrightarrow> s = t"
  by (auto simp: ascii_def inj_map_eq_map inj_def)

definition mark :: "bool \<Rightarrow> ustring" where
  "mark fixed = (if fixed then [36] else [])"

lemma cell_text_reads: "0 < c \<Longrightarrow> reads_corner fixed (CellAddress r c) (cell_text c (mark fixed @ row_text r))"
  unfolding reads_corner_def cell_text_def row_text_def mark_def
  by (intro exI [of _ "column_label c"] exI [of _ "show_nat r"]) (simp add: a1_text_display letters_value_column_label)

lemma ascii_without_dollar: "list_all sqref_char s \<Longrightarrow> filter (\<lambda>c. c \<noteq> 36) (ascii s) = ascii s"
  by (auto simp: filter_id_conv list_all_iff ascii_def sqref_char_def is_ascii_alphabetic_def is_ascii_uppercase_def
      is_ascii_lowercase_def is_ascii_digit_def)

lemma cell_text_inject:
  assumes "valid_address (CellAddress r c)" "valid_address (CellAddress r' c')"
  shows "cell_text c (mark fixed @ row_text r) = cell_text c' (mark fixed @ row_text r') \<longleftrightarrow> c = c' \<and> r = r'"
proof
  assume "cell_text c (mark fixed @ row_text r) = cell_text c' (mark fixed @ row_text r')"
  then have "filter (\<lambda>c. c \<noteq> 36) (cell_text c (mark fixed @ row_text r)) = filter (\<lambda>c. c \<noteq> 36) (cell_text c' (mark fixed @ row_text r'))"
    by simp
  then have "ascii (column_label c @ show_nat r) = ascii (column_label c' @ show_nat r')"
    by (simp add: cell_text_def row_text_def mark_def ascii_without_dollar column_label_sqref_chars show_nat_sqref_chars split: if_splits)
  then have "column_label c @ show_nat r = column_label c' @ show_nat r'" by (simp only: ascii_inject)
  then have "CellAddress r c = CellAddress r' c'"
    using from_a1_label_number [OF assms(1)] from_a1_label_number [OF assms(2)] by (metis sum.inject(2))
  then show "c = c' \<and> r = r'" by simp
qed simp

lemma area_text_reads:
  assumes "valid_range q"
  shows "reads_range fixed (ta_sheet_name t) q (area_text t (addr_column (rng_start q)) (addr_column (rng_end q))
    (mark fixed @ row_text (addr_row (rng_start q))) (mark fixed @ row_text (addr_row (rng_end q))))"
proof -
  have valid: "valid_address (rng_start q)" "valid_address (rng_end q)" using assms by (simp_all add: valid_range_def)
  then have "0 < addr_column (rng_start q)" "0 < addr_column (rng_end q)" by (simp_all add: valid_address_def)
  then have corners: "reads_corner fixed (rng_start q) (cell_text (addr_column (rng_start q)) (mark fixed @ row_text (addr_row (rng_start q))))"
    "reads_corner fixed (rng_end q) (cell_text (addr_column (rng_end q)) (mark fixed @ row_text (addr_row (rng_end q))))"
    using cell_text_reads [of "addr_column (rng_start q)" fixed "addr_row (rng_start q)"]
      cell_text_reads [of "addr_column (rng_end q)" fixed "addr_row (rng_end q)"] by simp_all
  have same: "cell_text (addr_column (rng_start q)) (mark fixed @ row_text (addr_row (rng_start q))) =
      cell_text (addr_column (rng_end q)) (mark fixed @ row_text (addr_row (rng_end q))) \<longleftrightarrow> rng_start q = rng_end q"
    using cell_text_inject [of "addr_row (rng_start q)" "addr_column (rng_start q)" "addr_row (rng_end q)" "addr_column (rng_end q)" fixed] valid
    by (auto simp: cell_address.expand)
  show ?thesis unfolding reads_range_def area_text_def Let_def same using corners
    by (intro exI [of _ "cell_text (addr_column (rng_start q)) (mark fixed @ row_text (addr_row (rng_start q)))"]
        exI [of _ "cell_text (addr_column (rng_end q)) (mark fixed @ row_text (addr_row (rng_end q)))"]) (simp add: double_quotes_def)
qed

section \<open>Properties\<close>

lemma asked_area_items: "set (area_items r) = asked_items r"
  by (simp add: area_items_def asked_items_def)

text \<open>The rows that the loop over the items finds.\<close>

lemma rows_found:
  assumes wf: "wf_table t" and c: "columns_named lower t r left right" and items: "ItemThisRow \<notin> asked_items r"
  shows "\<exists>rows. table_area_text lower t r this_row =
      map_option (\<lambda>(first, lst). area_text t left right (mark True @ row_text first) (mark True @ row_text lst)) rows \<and>
    (if ItemHeaders \<in> asked_items r \<and> ta_header_rows t = 0 then rows = None else spans rows (named_rows t (asked_items r)))"
proof -
  let ?up = "addr_row (rng_start (ta_range t))" and ?low = "addr_row (rng_end (ta_range t))"
  have bounds: "?low \<le> EXCEL_MAX_ROWS" "?up + ta_header_rows t + ta_totals_rows t \<le> Suc ?low" "1 \<le> ?up"
    using wf by (auto simp: wf_table_def valid_range_def valid_address_def)
  then have topmost: "u32_add ?up (ta_header_rows t) = ?up + ta_header_rows t" by (simp add: u32_simps excel_max)
  have columns: "area_columns lower t r = Some (left, right)" using area_columns_iff [OF wf] c by blast
  let ?rows = "band_loop t (?up + ta_header_rows t) (?low - ta_totals_rows t) None (area_items r)"
  have "table_area_text lower t r this_row =
      map_option (\<lambda>(first, lst). area_text t left right (mark True @ row_text first) (mark True @ row_text lst)) ?rows"
    using columns items bounds topmost by (simp add: table_area_text_def Let_def mark_def asked_area_items)
  moreover have "?rows = None" if "ItemHeaders \<in> asked_items r" "ta_header_rows t = 0"
    using that band_loop_headers asked_area_items by blast
  moreover have "spans ?rows (named_rows t (asked_items r))" if "\<not> (ItemHeaders \<in> asked_items r \<and> ta_header_rows t = 0)"
    using band_loop_spans [OF wf _ refl refl, of None "{}" "area_items r"] that by (simp add: spans_def asked_area_items)
  ultimately show ?thesis by (intro exI [of _ ?rows]) simp
qed

lemma this_row_text:
  assumes "wf_table t" "columns_named lower t r left right" "ItemThisRow \<in> asked_items r"
  shows "table_area_text lower t r this_row =
    map_option (\<lambda>row. area_text t left right (mark False @ row_text row) (mark False @ row_text row)) this_row"
proof -
  have "\<not> addr_row (rng_end (ta_range t)) < ta_totals_rows t"
    using assms(1) by (auto simp: wf_table_def valid_range_def valid_address_def)
  moreover have "area_columns lower t r = Some (left, right)" using area_columns_iff [OF assms(1)] assms(2) by blast
  ultimately show ?thesis using assms(3) by (simp add: table_area_text_def Let_def mark_def asked_area_items)
qed

text \<open>What a reference is replaced by, and when it is an error.\<close>

definition converts :: "(uchar \<Rightarrow> ustring) \<Rightarrow> table_area \<Rightarrow> structured_reference \<Rightarrow> u32 option \<Rightarrow> ustring option \<Rightarrow> bool" where
  "converts lower t r this_row result =
    (case result of
      None \<Rightarrow> (\<nexists>left right. columns_named lower t r left right) \<or>
        (if ItemThisRow \<in> asked_items r then this_row = None
         else ItemHeaders \<in> asked_items r \<and> ta_header_rows t = 0 \<or> named_rows t (asked_items r) = {})
    | Some text \<Rightarrow> \<exists>q. valid_range q \<and>
        reads_range (ItemThisRow \<notin> asked_items r) (ta_sheet_name t) q text \<and>
        columns_named lower t r (addr_column (rng_start q)) (addr_column (rng_end q)) \<and>
        (if ItemThisRow \<in> asked_items r then this_row = Some (addr_row (rng_start q)) \<and> this_row = Some (addr_row (rng_end q))
         else \<not> (ItemHeaders \<in> asked_items r \<and> ta_header_rows t = 0) \<and> cells_of q \<subseteq> cells_of (ta_range t) \<and>
           spans (Some (addr_row (rng_start q), addr_row (rng_end q))) (named_rows t (asked_items r))))"

lemma converts_this_row:
  assumes wf: "wf_table t" and row: "pred_option (\<lambda>row. 1 \<le> row \<and> row \<le> EXCEL_MAX_ROWS) this_row" and c: "columns_named lower t r left right"
    and items: "ItemThisRow \<in> asked_items r"
  shows "converts lower t r this_row (table_area_text lower t r this_row)"
proof (cases this_row)
  case None
  then show ?thesis using this_row_text [OF wf c items, of this_row] items by (simp add: converts_def)
next
  case (Some row)
  let ?q = "from_ordered (CellAddress row left) (CellAddress row right)"
  have q: "valid_range ?q" using columns_named_inside [OF wf c] assms(1,2) Some
    by (auto simp: wf_table_def valid_range_def valid_address_def from_ordered_def)
  from area_text_reads [OF q, of False t] show ?thesis
    unfolding this_row_text [OF wf c items] converts_def using Some items c q by (auto simp: from_ordered_def intro!: exI [of _ ?q])
qed

lemma converts_rows:
  assumes wf: "wf_table t" and c: "columns_named lower t r left right" and items: "ItemThisRow \<notin> asked_items r"
  shows "converts lower t r this_row (table_area_text lower t r this_row)"
proof -
  obtain rows where rows: "table_area_text lower t r this_row =
      map_option (\<lambda>(first, lst). area_text t left right (mark True @ row_text first) (mark True @ row_text lst)) rows"
    "if ItemHeaders \<in> asked_items r \<and> ta_header_rows t = 0 then rows = None else spans rows (named_rows t (asked_items r))"
    using rows_found [OF assms] by blast
  show ?thesis
  proof (cases rows)
    case None
    then show ?thesis using rows items by (auto simp: converts_def spans_def split: if_splits)
  next
    case (Some p)
    obtain a b where ab: "p = (a, b)" by (cases p)
    let ?q = "from_ordered (CellAddress a left) (CellAddress b right)"
    have sp: "\<not> (ItemHeaders \<in> asked_items r \<and> ta_header_rows t = 0)" "spans (Some (a, b)) (named_rows t (asked_items r))"
      using rows(2) Some ab by (auto split: if_splits)
    then have "a \<in> named_rows t (asked_items r)" "b \<in> named_rows t (asked_items r)" "a \<le> b" by (auto simp: spans_def)
    then have inside: "addr_row (rng_start (ta_range t)) \<le> a" "a \<le> b" "b \<le> addr_row (rng_end (ta_range t))"
      using named_rows_inside [OF wf] by auto
    have q: "valid_range ?q" "cells_of ?q \<subseteq> cells_of (ta_range t)"
      using inside columns_named_inside [OF wf c] wf
      by (auto simp: wf_table_def valid_range_def valid_address_def from_ordered_def cells_of_def contains_def)
    from area_text_reads [OF q(1), of True t] show ?thesis
      unfolding rows(1) converts_def using Some ab items c sp q by (auto simp: from_ordered_def intro!: exI [of _ ?q])
  qed
qed

text \<open>C18: A structured reference to a table that becomes a range is replaced by a reference to the smallest range
that holds the rows of its items and its columns: the quoted name of the sheet, the two corners with fixed columns
and rows, and the second corner only when it differs.  The columns are the first ones with the names it gives, in
either order, or all columns when it gives none.  A reference to this row keeps the row of the formula and leaves it
relative.  It becomes an error exactly when a column is missing, when it names this row and the formula is on
another sheet, when it asks for the headers of a table without headers, or when it names no row.\<close>

theorem table_reference_hull:
  assumes "wf_table t" "pred_option (\<lambda>row. 1 \<le> row \<and> row \<le> EXCEL_MAX_ROWS) this_row"
  shows "converts lower t r this_row (table_area_text lower t r this_row)"
proof (cases "\<exists>left right. columns_named lower t r left right")
  case True
  then show ?thesis using converts_this_row [OF assms] converts_rows [OF assms(1)] by blast
next
  case False
  then have "area_columns lower t r = None" using area_columns_iff [OF assms(1)] by (metis option.exhaust surj_pair)
  then show ?thesis using False by (simp add: table_area_text_def converts_def)
qed

text \<open>The table \<open>T\<close> on \<open>B2:C5\<close> with a header row and the columns \<open>a\<close> and \<open>b\<close>.\<close>

definition sample_table :: table_area where
  "sample_table = \<lparr>ta_display_name = ascii ''T'', ta_sheet_name = ascii ''S'', ta_range = from_ordered (CellAddress 2 2) (CellAddress 5 3),
    ta_header_rows = 1, ta_totals_rows = 0, ta_columns = [ascii ''a'', ascii ''b'']\<rparr>"

definition sample_table_reference :: structured_reference where
  "sample_table_reference = \<lparr>sr_table = Some (ascii ''T''), sr_items = [], sr_columns = Some (SingleColumn (ascii ''b''))\<rparr>"

text \<open>The reference \<open>T[b]\<close> becomes \<open>'S'!$C$3:$C$5\<close>.\<close>

theorem table_reference_hull_witness:
  "table_area_text (\<lambda>c. [c]) sample_table sample_table_reference None = Some ([39, 83, 39, 33] @ ascii ''$C$3:$C$5'') \<and>
    converts (\<lambda>c. [c]) sample_table sample_table_reference None (Some ([39, 83, 39, 33] @ ascii ''$C$3:$C$5''))"
proof -
  have wf: "wf_table sample_table"
    by (simp add: wf_table_def sample_table_def from_ordered_def valid_range_def valid_address_def excel_max)
  have digits: "show_nat 3 = ''3''" "show_nat 5 = ''5''" by (simp_all add: show_nat.simps digit_char_def char_of_def bit_0)
  have label: "column_label 3 = ''C''" by (simp add: column_label_def column_label_rev.simps char_of_def bit_0)
  have "table_area_text (\<lambda>c. [c]) sample_table sample_table_reference None = Some ([39, 83, 39, 33] @ ascii ''$C$3:$C$5'')"
    by (simp add: table_area_text_def area_columns_def area_column_def area_items_def sample_table_reference_def sample_table_def
      case_insensitive_eq_def from_ordered_def u32_simps ascii_def Let_def area_text_def cell_text_def row_text_def digits label)
  then show ?thesis using table_reference_hull [OF wf, of None "\<lambda>c. [c]" sample_table_reference] by simp
qed

end
