(* ===== verification/Rewrite_Budget.thy ===== *)
theory Rewrite_Budget
  imports Grid_Planner Table_Conversion
begin

text \<open>
  The requests, the errors and the budget of formula rewriting (\<open>calculation/formula_rewrite.rs\<close>).  The budget is
  a state that every charged operation takes and returns, also when it fails.  The callback that is polled
  for cancellation is a function of the number of earlier polls, which the budget counts.  A \<open>usize\<close> has 64 bits.
\<close>

section \<open>Limits and errors\<close>

record rewrite_limits =
  rl_max_formulas :: nat
  rl_max_source_bytes :: nat
  rl_max_ast_nodes :: nat
  rl_max_source_edits :: nat

definition UNBOUNDED :: rewrite_limits where
  "UNBOUNDED = \<lparr>rl_max_formulas = u64_max, rl_max_source_bytes = u64_max, rl_max_ast_nodes = u64_max, rl_max_source_edits = u64_max\<rparr>"

datatype rewrite_limit_kind = LimitFormulas | LimitSourceBytes | LimitAstNodes | LimitSourceEdits

fun limit_kind_as_str :: "rewrite_limit_kind \<Rightarrow> string" where
  "limit_kind_as_str LimitFormulas = ''formulas''"
| "limit_kind_as_str LimitSourceBytes = ''source_bytes''"
| "limit_kind_as_str LimitAstNodes = ''ast_nodes''"
| "limit_kind_as_str LimitSourceEdits = ''source_edits''"

datatype formula_rewrite_error =
    RewriteCancelled
  | RewriteLimitExceeded rewrite_limit_kind nat nat
  | RewriteParse parse_error_code source_span "ustring option"
  | RewriteSourceEdit source_edit_error

fun with_owner :: "formula_rewrite_error \<Rightarrow> ustring \<Rightarrow> formula_rewrite_error" where
  "with_owner (RewriteParse code span None) owner = RewriteParse code span (Some owner)"
| "with_owner e owner = e"

section \<open>The budget\<close>

record rewrite_budget =
  rb_limits :: rewrite_limits
  rb_formulas :: nat
  rb_source_bytes :: nat
  rb_ast_nodes :: nat
  rb_source_edits :: nat
  rb_polls :: nat

type_synonym 'a budgeted = "rewrite_budget \<Rightarrow> (formula_rewrite_error failure + 'a) \<times> rewrite_budget"

definition breturn :: "'a \<Rightarrow> 'a budgeted" where
  "breturn a b = (Inr a, b)"

definition bfail :: "formula_rewrite_error \<Rightarrow> 'a budgeted" where
  "bfail e b = (Inl (Fail e), b)"

definition bpanic :: "'a option \<Rightarrow> 'a budgeted" where
  "bpanic r b = (case r of None \<Rightarrow> (Inl Panic, b) | Some a \<Rightarrow> (Inr a, b))"

definition bbind :: "'a budgeted \<Rightarrow> ('a \<Rightarrow> 'c budgeted) \<Rightarrow> 'c budgeted" where
  "bbind m f b = (case m b of (Inl e, b') \<Rightarrow> (Inl e, b') | (Inr a, b') \<Rightarrow> f a b')"

definition budget_new :: "rewrite_limits \<Rightarrow> nat \<Rightarrow> rewrite_budget" where
  "budget_new limits polls =
    \<lparr>rb_limits = limits, rb_formulas = 0, rb_source_bytes = 0, rb_ast_nodes = 0, rb_source_edits = 0, rb_polls = polls\<rparr>"

definition unmetered :: "rewrite_budget \<Rightarrow> rewrite_budget" where
  "unmetered b = budget_new UNBOUNDED (rb_polls b)"

definition check_cancelled :: "(nat \<Rightarrow> bool) \<Rightarrow> unit budgeted" where
  "check_cancelled cancelled b =
    (if cancelled (rb_polls b) then Inl (Fail RewriteCancelled) else Inr (), b\<lparr>rb_polls := rb_polls b + 1\<rparr>)"

definition charge :: "rewrite_limit_kind \<Rightarrow> nat \<Rightarrow> nat \<Rightarrow> nat \<Rightarrow> formula_rewrite_error + nat" where
  "charge kind current amount limit =
    (let actual = saturating_add current amount
     in if actual > limit then Inl (RewriteLimitExceeded kind limit actual) else Inr actual)"

definition charge_to :: "rewrite_limit_kind \<Rightarrow> nat \<Rightarrow> unit budgeted" where
  "charge_to kind amount b =
    (case kind of
      LimitFormulas \<Rightarrow>
        (case charge kind (rb_formulas b) amount (rl_max_formulas (rb_limits b)) of
          Inl e \<Rightarrow> (Inl (Fail e), b) | Inr n \<Rightarrow> (Inr (), b\<lparr>rb_formulas := n\<rparr>))
    | LimitSourceBytes \<Rightarrow>
        (case charge kind (rb_source_bytes b) amount (rl_max_source_bytes (rb_limits b)) of
          Inl e \<Rightarrow> (Inl (Fail e), b) | Inr n \<Rightarrow> (Inr (), b\<lparr>rb_source_bytes := n\<rparr>))
    | LimitAstNodes \<Rightarrow>
        (case charge kind (rb_ast_nodes b) amount (rl_max_ast_nodes (rb_limits b)) of
          Inl e \<Rightarrow> (Inl (Fail e), b) | Inr n \<Rightarrow> (Inr (), b\<lparr>rb_ast_nodes := n\<rparr>))
    | LimitSourceEdits \<Rightarrow>
        (case charge kind (rb_source_edits b) amount (rl_max_source_edits (rb_limits b)) of
          Inl e \<Rightarrow> (Inl (Fail e), b) | Inr n \<Rightarrow> (Inr (), b\<lparr>rb_source_edits := n\<rparr>)))"

definition charge_formula :: "(nat \<Rightarrow> bool) \<Rightarrow> nat \<Rightarrow> unit budgeted" where
  "charge_formula cancelled source_bytes =
    bbind (check_cancelled cancelled) (\<lambda>_. bbind (charge_to LimitFormulas 1) (\<lambda>_. charge_to LimitSourceBytes source_bytes))"

definition charge_node :: "(nat \<Rightarrow> bool) \<Rightarrow> unit budgeted" where
  "charge_node cancelled = bbind (check_cancelled cancelled) (\<lambda>_. charge_to LimitAstNodes 1)"

definition charge_edit :: "(nat \<Rightarrow> bool) \<Rightarrow> unit budgeted" where
  "charge_edit cancelled = bbind (check_cancelled cancelled) (\<lambda>_. charge_to LimitSourceEdits 1)"

text \<open>One charge for each of \<open>n\<close> edits.\<close>

fun charge_edits :: "(nat \<Rightarrow> bool) \<Rightarrow> nat \<Rightarrow> unit budgeted" where
  "charge_edits cancelled 0 b = (Inr (), b)"
| "charge_edits cancelled (Suc n) b = bbind (charge_edit cancelled) (\<lambda>_. charge_edits cancelled n) b"

definition charged :: "(nat \<Rightarrow> bool) \<Rightarrow> source_edit list \<Rightarrow> source_edit list budgeted" where
  "charged cancelled es = bbind (charge_edits cancelled (length es)) (\<lambda>_. breturn es)"

text \<open>\<open>CalculationLimits::default\<close>, the limits that concern formulas.\<close>

definition default_limits :: calculation_limits where
  "default_limits = \<lparr>max_formula_tokens = 8192, max_formula_source_bytes = 1024 * 1024, max_formula_ast_nodes = 8192,
    max_formula_nesting_depth = 256\<rparr>"

definition parser_limits :: "(nat \<Rightarrow> bool) \<Rightarrow> (calculation_limits \<times> bool) budgeted" where
  "parser_limits cancelled =
    bbind (check_cancelled cancelled) (\<lambda>_ b.
      let remaining = rl_max_ast_nodes (rb_limits b) - rb_ast_nodes b
      in if remaining = 0
         then (Inl (Fail (RewriteLimitExceeded LimitAstNodes (rl_max_ast_nodes (rb_limits b)) (saturating_add (rb_ast_nodes b) 1))), b)
         else let parser_limit = min remaining (max_formula_ast_nodes default_limits)
           in (Inr (default_limits\<lparr>max_formula_ast_nodes := parser_limit\<rparr>,
               parser_limit < max_formula_ast_nodes default_limits), b))"

definition parser_limit_error :: "rewrite_budget \<Rightarrow> formula_rewrite_error" where
  "parser_limit_error b =
    RewriteLimitExceeded LimitAstNodes (rl_max_ast_nodes (rb_limits b)) (saturating_add (rl_max_ast_nodes (rb_limits b)) 1)"

section \<open>Requests\<close>

record name_rename =
  nr_old_name :: ustring
  nr_new_name :: ustring
  nr_scope_sheet :: "ustring option"
  nr_shadowing_sheets :: "ustring list"
  nr_owner_sheet :: "ustring option"

datatype rewrite_request =
    RequestSheet ustring ustring
  | RequestSheets sheet_changes
  | RequestTable ustring ustring
  | RequestTableColumn ustring ustring ustring bool
  | RequestDefinedName name_rename
  | RequestTableColumnsRemoved ustring "ustring list" bool
  | RequestTableToRange table_area bool "u32 option"
  | RequestGrid grid_change
  | RequestCopy copy_offset

text \<open>What the rewriter uses of the standard library and of the function registry.\<close>

record 'n rewrite_host =
  rh_parse :: "'n parse_host"
  rh_lower :: "uchar \<Rightarrow> ustring"
  rh_function_evaluator :: "ustring \<Rightarrow> bool"

definition shadowed :: "'n rewrite_host \<Rightarrow> name_rename \<Rightarrow> ustring \<Rightarrow> bool" where
  "shadowed R rename sheet = list_ex (case_insensitive_eq (rh_lower R) sheet) (nr_shadowing_sheets rename)"

definition resolves_unqualified :: "'n rewrite_host \<Rightarrow> name_rename \<Rightarrow> bool" where
  "resolves_unqualified R rename =
    (case nr_scope_sheet rename of
      None \<Rightarrow> (case nr_owner_sheet rename of None \<Rightarrow> True | Some owner \<Rightarrow> \<not> shadowed R rename owner)
    | Some scope \<Rightarrow>
        (case nr_owner_sheet rename of None \<Rightarrow> False | Some owner \<Rightarrow> case_insensitive_eq (rh_lower R) owner scope))"

definition resolves_qualified :: "'n rewrite_host \<Rightarrow> name_rename \<Rightarrow> ustring \<Rightarrow> bool" where
  "resolves_qualified R rename sheet =
    (case nr_scope_sheet rename of
      None \<Rightarrow> \<not> shadowed R rename sheet
    | Some scope \<Rightarrow> case_insensitive_eq (rh_lower R) sheet scope)"

definition single_sheet :: "'n rewrite_host \<Rightarrow> rewrite_request \<Rightarrow> ustring \<Rightarrow> sheet_outcome" where
  "single_sheet R request name =
    (case request of
      RequestSheet old new \<Rightarrow> if case_insensitive_eq (rh_lower R) name old then SheetRenamed new else SheetUnchanged
    | RequestSheets changes \<Rightarrow> single (rh_lower R) changes name
    | _ \<Rightarrow> SheetUnchanged)"

definition sheet_span :: "'n rewrite_host \<Rightarrow> rewrite_request \<Rightarrow> ustring \<Rightarrow> ustring \<Rightarrow> span_outcome option" where
  "sheet_span R request start stop =
    (case request of
      RequestSheet old new \<Rightarrow>
        Some (ends_outcome (if case_insensitive_eq (rh_lower R) start old then Some new else None)
          (if case_insensitive_eq (rh_lower R) stop old then Some new else None))
    | RequestSheets changes \<Rightarrow> span_change (rh_lower R) changes start stop
    | _ \<Rightarrow> Some SpanUnchanged)"

fun sheet_changes_of :: "rewrite_request \<Rightarrow> sheet_changes option" where
  "sheet_changes_of (RequestSheets changes) = Some changes"
| "sheet_changes_of _ = None"

fun strip_paren_expr :: "'n expr \<Rightarrow> 'n expr" where
  "strip_paren_expr (XParen inner) = strip_paren_expr inner"
| "strip_paren_expr e = e"

definition deleted_prefix :: "'n rewrite_host \<Rightarrow> sheet_changes \<Rightarrow> sheet_prefix \<Rightarrow> bool option" where
  "deleted_prefix R changes prefix =
    (case sp_end_name prefix of
      None \<Rightarrow> Some (single (rh_lower R) changes (sp_name prefix) = SheetDeleted)
    | Some stop \<Rightarrow> map_option (\<lambda>o'. o' = SpanDeleted) (span_change (rh_lower R) changes (sp_name prefix) stop))"

definition deletes_reference :: "'n rewrite_host \<Rightarrow> rewrite_request \<Rightarrow> 'n expr \<Rightarrow> bool option" where
  "deletes_reference R request e =
    (case sheet_changes_of request of
      None \<Rightarrow> Some False
    | Some changes \<Rightarrow>
        (case strip_paren_expr e of
          XRef r \<Rightarrow> (case ref_sheet r of Some prefix \<Rightarrow> deleted_prefix R changes prefix | None \<Rightarrow> Some False)
        | XQualifiedName prefix _ \<Rightarrow> deleted_prefix R changes prefix
        | XStructuredRef r \<Rightarrow>
            Some (case sr_table r of Some table \<Rightarrow> is_deleted_table (rh_lower R) changes table | None \<Rightarrow> False)
        | _ \<Rightarrow> Some False))"

definition replaced_by_deletion :: "'n rewrite_host \<Rightarrow> rewrite_request \<Rightarrow> 'n expr \<Rightarrow> bool option" where
  "replaced_by_deletion R request e =
    (case e of
      XRef _ \<Rightarrow> deletes_reference R request e
    | XQualifiedName _ _ \<Rightarrow> deletes_reference R request e
    | XStructuredRef _ \<Rightarrow> deletes_reference R request e
    | XRange start stop \<Rightarrow>
        Option.bind (deletes_reference R request start) (\<lambda>d. if d then Some True else deletes_reference R request stop)
    | XSpillRef operand \<Rightarrow> deletes_reference R request operand
    | XInvoke callee _ \<Rightarrow> deletes_reference R request callee
    | _ \<Rightarrow> Some False)"

section \<open>Charging never exceeds a limit\<close>

text \<open>What has been charged is within the limits.\<close>

definition within_limits :: "rewrite_budget \<Rightarrow> bool" where
  "within_limits b \<longleftrightarrow> rb_formulas b \<le> rl_max_formulas (rb_limits b) \<and> rb_source_bytes b \<le> rl_max_source_bytes (rb_limits b) \<and>
    rb_ast_nodes b \<le> rl_max_ast_nodes (rb_limits b) \<and> rb_source_edits b \<le> rl_max_source_edits (rb_limits b)"

text \<open>The budget \<open>b'\<close> after \<open>b\<close>: the polls are counted on, the limits stay and are kept.\<close>

definition later :: "rewrite_budget \<Rightarrow> rewrite_budget \<Rightarrow> bool" where
  "later b b' \<longleftrightarrow> rb_limits b' = rb_limits b \<and> rb_polls b \<le> rb_polls b' \<and> (within_limits b \<longrightarrow> within_limits b')"

definition keeps_limits :: "'a budgeted \<Rightarrow> bool" where
  "keeps_limits m \<longleftrightarrow> (\<forall>b. later b (snd (m b)))"

lemma later_refl [simp]: "later b b"
  by (simp add: later_def)

lemma later_trans: "later a b \<Longrightarrow> later b c \<Longrightarrow> later a c"
  by (auto simp: later_def)

lemma keeps_bind:
  assumes "keeps_limits m" "\<And>a. keeps_limits (f a)"
  shows "keeps_limits (bbind m f)"
  unfolding keeps_limits_def bbind_def
proof (rule allI)
  fix b
  obtain r b' where m: "m b = (r, b')" by (cases "m b")
  have "later b b'" using assms(1) m by (auto simp: keeps_limits_def dest: spec [of _ b])
  then show "later b (snd (case m b of (Inl e, b') \<Rightarrow> (Inl e, b') | (Inr a, b') \<Rightarrow> f a b'))"
    using assms(2) m later_trans by (cases r) (auto simp: keeps_limits_def)
qed

lemma keeps_basic [simp]: "keeps_limits (breturn a)" "keeps_limits (bfail e)" "keeps_limits (bpanic r)"
  "keeps_limits (check_cancelled cancelled)"
  by (auto simp: keeps_limits_def breturn_def bfail_def bpanic_def check_cancelled_def later_def within_limits_def split: option.splits)

lemma keeps_charge_to [simp]: "keeps_limits (charge_to kind amount)"
  by (cases kind) (auto simp: keeps_limits_def charge_to_def charge_def Let_def later_def within_limits_def split: sum.splits if_splits)

lemma keeps_charges [simp]: "keeps_limits (charge_formula cancelled n)" "keeps_limits (charge_node cancelled)" "keeps_limits (charge_edit cancelled)"
  unfolding charge_formula_def charge_node_def charge_edit_def by (intro keeps_bind; simp)+

lemma keeps_charge_edits [simp]: "keeps_limits (charge_edits cancelled n)"
proof (induction n)
  case (Suc n)
  have "charge_edits cancelled (Suc n) = bbind (charge_edit cancelled) (\<lambda>_. charge_edits cancelled n)" by (rule ext) simp
  then show ?case using Suc by (auto intro: keeps_bind)
qed (simp add: keeps_limits_def)

lemma keeps_charged [simp]: "keeps_limits (charged cancelled es)"
  unfolding charged_def by (intro keeps_bind) simp_all

lemma keeps_parser_limits [simp]: "keeps_limits (parser_limits cancelled)"
  unfolding parser_limits_def by (rule keeps_bind) (simp, simp add: keeps_limits_def Let_def)

end
