(* ===== verification/Formula_Rewrite.thy ===== *)
theory Formula_Rewrite
  imports Rewrite_Budget
begin

text \<open>
  Rewriting one formula (\<open>calculation/formula_rewrite.rs\<close>): the formula is parsed, the nodes of its syntax tree
  are visited in source order, each visit plans edits of the source, and the edited text is parsed again.
  Renames change the names they resolve to, deletions leave \<open>#REF!\<close>, structural edits and copies change
  references.
\<close>

section \<open>Texts\<close>

definition component :: "source_component list \<Rightarrow> source_component_kind \<Rightarrow> source_component option" where
  "component components kind = find (\<lambda>c. sc_kind c = kind) components"

text \<open>Whether the byte at an offset is the given ASCII character: no other character has that byte in its
encoding.\<close>

definition byte_is :: "ustring \<Rightarrow> nat \<Rightarrow> uchar \<Rightarrow> bool" where
  "byte_is source offset c = (case byte_drop offset source of Some (x # _) \<Rightarrow> x = c | _ \<Rightarrow> False)"

definition quote_before :: "ustring \<Rightarrow> nat \<Rightarrow> bool" where
  "quote_before source offset \<longleftrightarrow> offset > 0 \<and> byte_is source (offset - 1) 39"

definition reads_as_a1_cell :: "ustring \<Rightarrow> bool" where
  "reads_as_a1_cell name =
    (let letters = length (takeWhile uchar_alphabetic name); digits = drop letters name
     in 1 \<le> letters \<and> letters \<le> 3 \<and> digits \<noteq> [] \<and> list_all uchar_digit digits \<and>
        (case to_ascii name of Some s \<Rightarrow> ok (from_a1 s) \<noteq> None | None \<Rightarrow> False))"

definition reads_as_r1c1_reference :: "ustring \<Rightarrow> bool" where
  "reads_as_r1c1_reference name =
    (case map uchar_upper name of
      [] \<Rightarrow> False
    | c # rest \<Rightarrow>
        if c = 82
        then (case Parser.split_once 67 rest of
            Some (row, column) \<Rightarrow> list_all uchar_digit row \<and> list_all uchar_digit column
          | None \<Rightarrow> list_all uchar_digit rest)
        else c = 67 \<and> list_all uchar_digit rest)"

definition sheet_name_needs_quotes :: "'n rewrite_host \<Rightarrow> ustring \<Rightarrow> bool" where
  "sheet_name_needs_quotes R name =
    (let L = ph_std (rh_parse R)
     in case name of
         [] \<Rightarrow> True
       | c # rest \<Rightarrow>
           \<not> (std_alphabetic L c \<or> c = 95 \<or> c = 92) \<or>
           list_ex (\<lambda>x. \<not> (is_alphanumeric L x \<or> x = 95 \<or> x = 46)) rest \<or>
           reads_as_a1_cell name \<or> reads_as_r1c1_reference name)"

definition replacement_sheet_name :: "'n rewrite_host \<Rightarrow> ustring \<Rightarrow> source_span \<Rightarrow> ustring \<Rightarrow> ustring" where
  "replacement_sheet_name R source span new_name =
    (let escaped = double_quotes 39 new_name;
         has_quoted_shell = (quote_before source (span_start span) \<or> byte_is source (span_end span) 39)
     in if has_quoted_shell \<or> \<not> sheet_name_needs_quotes R new_name then escaped else [39] @ escaped @ [39])"

text \<open>\<open>replace("''", "'")\<close>.\<close>

fun undouble_quotes :: "ustring \<Rightarrow> ustring" where
  "undouble_quotes (a # b # s) = (if a = 39 \<and> b = 39 then 39 # undouble_quotes s else a # undouble_quotes (b # s))"
| "undouble_quotes s = s"

definition qualified_error_prefix :: "ustring \<Rightarrow> source_component list \<Rightarrow> sheet_prefix option" where
  "qualified_error_prefix source components =
    (let text_of = (\<lambda>span. map_option undouble_quotes (byte_slice source (span_start span) (span_end span)))
     in Option.bind (component components SheetQualifier) (\<lambda>qualifier.
       map_option (\<lambda>name. \<lparr>sp_name = name,
           sp_end_name = Option.bind (component components SheetRangeEnd) (\<lambda>c. text_of (sc_span c)),
           sp_quoted = quote_before source (span_start (sc_span qualifier))\<rparr>)
         (text_of (sc_span qualifier))))"

fun escape_characters :: "bool \<Rightarrow> bool \<Rightarrow> ustring \<Rightarrow> ustring" where
  "escape_characters bare_inner_at inner [] = []"
| "escape_characters bare_inner_at inner (c # s) =
    (if name_special c \<and> \<not> (bare_inner_at \<and> inner \<and> c = 64) then [39, c] else [c]) @ escape_characters bare_inner_at True s"

definition escape_structured_name :: "ustring \<Rightarrow> bool \<Rightarrow> ustring" where
  "escape_structured_name name bare_inner_at = escape_characters bare_inner_at False name"

definition structured_simple_column_needs_grouping :: "ustring \<Rightarrow> bool" where
  "structured_simple_column_needs_grouping column = list_ex simple_column_character_needs_grouping column"

definition column_edit :: "source_component \<Rightarrow> ustring \<Rightarrow> bool \<Rightarrow> source_edit" where
  "column_edit c new_name simple =
    (let grouped = (case sc_kind c of StructuredColumn g \<Rightarrow> g | StructuredColumnStart g \<Rightarrow> g | StructuredColumnEnd g \<Rightarrow> g | _ \<Rightarrow> False);
         needs_grouping = (if simple then structured_simple_column_needs_grouping new_name else column_needs_grouping new_name)
     in source_edit_new (sc_span c)
       (if grouped then escape_structured_name new_name False
        else if needs_grouping then [91] @ escape_structured_name new_name False @ [93]
        else escape_structured_name new_name simple))"

definition render_unqualified_structured_column :: "ustring \<Rightarrow> ustring" where
  "render_unqualified_structured_column name =
    (let escaped = escape_structured_name name False
     in if column_needs_grouping name then [91, 91] @ escaped @ [93, 93] else [91] @ escaped @ [93])"

section \<open>Edits of one node\<close>

text \<open>The edits are charged one by one before they are pushed.\<close>

definition plan_name_edit ::
  "'n rewrite_host \<Rightarrow> (nat \<Rightarrow> bool) \<Rightarrow> ustring \<Rightarrow> 'n expr \<Rightarrow> node_span_tree \<Rightarrow> name_rename \<Rightarrow> source_edit list budgeted" where
  "plan_name_edit R cancelled source e node rename =
    (let eq = case_insensitive_eq (rh_lower R);
         renamed_at = (\<lambda>resolves. if resolves
           then (case component (tree_components node) DefinedName of
               Some c \<Rightarrow> charged cancelled [source_edit_new (sc_span c) (nr_new_name rename)]
             | None \<Rightarrow> breturn [])
           else breturn [])
     in case e of
         XName name \<Rightarrow> renamed_at (eq name (nr_old_name rename) \<and> resolves_unqualified R rename)
       | XQualifiedName sheet name \<Rightarrow>
           renamed_at (sp_end_name sheet = None \<and> eq name (nr_old_name rename) \<and> resolves_qualified R rename (sp_name sheet))
       | XExternal r \<Rightarrow>
           renamed_at (ext_workbook r = ascii ''[0]'' \<and> ext_sheet_end r = None \<and>
             (case ext_target r of TargetDefinedName name \<Rightarrow> eq name (nr_old_name rename) | _ \<Rightarrow> False) \<and>
             (case ext_sheet r of None \<Rightarrow> nr_scope_sheet rename = None | Some sheet \<Rightarrow> resolves_qualified R rename sheet))
       | XCall name _ \<Rightarrow>
           (if eq name (nr_old_name rename) \<and> \<not> rh_function_evaluator R name \<and> resolves_unqualified R rename
            then let start = span_start (tree_span node); stop = start + utf8_len name
              in (case byte_slice source start stop of
                  Some spelled \<Rightarrow>
                    if eq spelled name then charged cancelled [source_edit_new (span_new start stop) (nr_new_name rename)]
                    else breturn []
                | None \<Rightarrow> breturn [])
            else breturn [])
       | _ \<Rightarrow> breturn [])"

text \<open>The new names of the ends of a sheet range.\<close>

definition plan_ends ::
  "'n rewrite_host \<Rightarrow> ustring \<Rightarrow> sheet_prefix \<Rightarrow> ustring \<Rightarrow> source_span \<Rightarrow> source_span \<Rightarrow> ustring option \<Rightarrow> ustring option \<Rightarrow> source_edit list" where
  "plan_ends R source prefix end_name qualifier range_end new_start new_end =
    (let opening = quote_before source (span_start qualifier); closing = byte_is source (span_end range_end) 39;
         prefix_span = span_new (if opening then span_start qualifier - 1 else span_start qualifier)
           (if closing then span_end range_end + 1 else span_end range_end);
         final_start = (case new_start of Some n \<Rightarrow> n | None \<Rightarrow> sp_name prefix);
         final_end = (case new_end of Some n \<Rightarrow> n | None \<Rightarrow> end_name);
         wholly_quoted = (opening \<and> closing \<and> byte_slice source (span_end qualifier) (span_start range_end) = Some [58])
     in if \<not> wholly_quoted \<and> (sheet_name_needs_quotes R final_start \<or> sheet_name_needs_quotes R final_end)
        then [source_edit_new prefix_span ([39] @ double_quotes 39 final_start @ [58] @ double_quotes 39 final_end @ [39])]
        else (case new_start of Some n \<Rightarrow> [source_edit_new qualifier (replacement_sheet_name R source qualifier n)] | None \<Rightarrow> []) @
          (case new_end of Some n \<Rightarrow> [source_edit_new range_end (replacement_sheet_name R source range_end n)] | None \<Rightarrow> []))"

definition plan_collapsed :: "'n rewrite_host \<Rightarrow> ustring \<Rightarrow> source_span \<Rightarrow> source_span \<Rightarrow> ustring \<Rightarrow> source_edit" where
  "plan_collapsed R source qualifier range_end name =
    (let opening = quote_before source (span_start qualifier); closing = byte_is source (span_end range_end) 39;
         prefix_span = span_new (if opening then span_start qualifier - 1 else span_start qualifier)
           (if closing then span_end range_end + 1 else span_end range_end);
         escaped = double_quotes 39 name
     in source_edit_new prefix_span
       (if opening \<or> closing \<or> sheet_name_needs_quotes R name then [39] @ escaped @ [39] else escaped))"

definition plan_sheet_prefix_edits ::
  "'n rewrite_host \<Rightarrow> (nat \<Rightarrow> bool) \<Rightarrow> ustring \<Rightarrow> sheet_prefix \<Rightarrow> source_component list \<Rightarrow> rewrite_request \<Rightarrow> source_edit list budgeted" where
  "plan_sheet_prefix_edits R cancelled source prefix components request =
    (case component components SheetQualifier of
      None \<Rightarrow> breturn []
    | Some qualifier \<Rightarrow>
        (case sp_end_name prefix of
          None \<Rightarrow>
            (case single_sheet R request (sp_name prefix) of
              SheetRenamed new_name \<Rightarrow>
                charged cancelled [source_edit_new (sc_span qualifier) (replacement_sheet_name R source (sc_span qualifier) new_name)]
            | _ \<Rightarrow> breturn [])
        | Some end_name \<Rightarrow>
            (case component components SheetRangeEnd of
              None \<Rightarrow> breturn []
            | Some range_end \<Rightarrow>
                bbind (bpanic (sheet_span R request (sp_name prefix) end_name)) (\<lambda>o'.
                  case o' of
                    SpanUnchanged \<Rightarrow> breturn []
                  | SpanDeleted \<Rightarrow> breturn []
                  | SpanEnds new_start new_end \<Rightarrow>
                      charged cancelled (plan_ends R source prefix end_name (sc_span qualifier) (sc_span range_end) new_start new_end)
                  | SpanCollapsed name \<Rightarrow>
                      charged cancelled [plan_collapsed R source (sc_span qualifier) (sc_span range_end) name]))))"

definition is_column_kind :: "(bool \<Rightarrow> source_component_kind) \<Rightarrow> source_component \<Rightarrow> bool" where
  "is_column_kind kind c \<longleftrightarrow> sc_kind c = kind True \<or> sc_kind c = kind False"

definition plan_column_edits ::
  "'n rewrite_host \<Rightarrow> (nat \<Rightarrow> bool) \<Rightarrow> structured_reference \<Rightarrow> source_component list \<Rightarrow> ustring \<Rightarrow> ustring \<Rightarrow> source_edit list budgeted" where
  "plan_column_edits R cancelled r components old_name new_name =
    (let eq = case_insensitive_eq (rh_lower R);
         edit_at = (\<lambda>kind simple. case find (is_column_kind kind) components of
             Some c \<Rightarrow> charged cancelled [column_edit c new_name simple] | None \<Rightarrow> breturn [])
     in case sr_columns r of
         Some (SingleColumn column) \<Rightarrow>
           if eq column old_name then edit_at StructuredColumn (sr_table r \<noteq> None \<and> sr_items r = []) else breturn []
       | Some (ColumnRange start stop) \<Rightarrow>
           bbind (if eq start old_name then edit_at StructuredColumnStart False else breturn []) (\<lambda>first.
           bbind (if eq stop old_name then edit_at StructuredColumnEnd False else breturn []) (\<lambda>second.
             breturn (first @ second)))
       | None \<Rightarrow> breturn [])"

section \<open>Formulas that do not parse\<close>

definition token_at :: "'n spanned_token list \<Rightarrow> nat \<Rightarrow> 'n token option" where
  "token_at tokens i = map_option st_token (get tokens i)"

definition external_token :: "'n token option \<Rightarrow> bool" where
  "external_token t = (case t of Some (TExternalWorkbook _) \<Rightarrow> True | _ \<Rightarrow> False)"

definition external_sheet_token :: "'n token option \<Rightarrow> bool" where
  "external_sheet_token t = (case t of Some (TQuotedSheet name) \<Rightarrow> 93 \<in> set name | _ \<Rightarrow> False)"

definition sheet_token_is_external :: "'n spanned_token list \<Rightarrow> nat \<Rightarrow> bool" where
  "sheet_token_is_external tokens index \<longleftrightarrow>
    external_token (token_at tokens (index - 1)) \<or> external_sheet_token (token_at tokens index)"

definition structured_token_is_external :: "'n spanned_token list \<Rightarrow> nat \<Rightarrow> bool" where
  "structured_token_is_external tokens index \<longleftrightarrow>
    index > 0 \<and> token_at tokens (index - 1) = Some TBang \<and>
    list_ex (\<lambda>t. external_token (Some (st_token t)) \<or> external_sheet_token (Some (st_token t)))
      (drop (index - 5) (take (index - 1) tokens))"

definition trim_whitespace :: "ustring \<Rightarrow> ustring" where
  "trim_whitespace s = rev (dropWhile is_whitespace (rev (dropWhile is_whitespace s)))"

definition raw_structured_targets_table :: "'n rewrite_host \<Rightarrow> ustring \<Rightarrow> ustring \<Rightarrow> bool \<Rightarrow> bool" where
  "raw_structured_targets_table R raw table_name owner_is_target =
    (case Parser.split_once 91 raw of
      None \<Rightarrow> False
    | Some (prefix, _) \<Rightarrow>
        let prefix = trim_whitespace prefix
        in if prefix = [] then owner_is_target else case_insensitive_eq (rh_lower R) prefix table_name)"

definition structured_reference_has_column :: "'n rewrite_host \<Rightarrow> structured_reference \<Rightarrow> ustring \<Rightarrow> bool" where
  "structured_reference_has_column R r target =
    (case sr_columns r of
      Some (SingleColumn column) \<Rightarrow> case_insensitive_eq (rh_lower R) column target
    | Some (ColumnRange start stop) \<Rightarrow>
        case_insensitive_eq (rh_lower R) start target \<or> case_insensitive_eq (rh_lower R) stop target
    | None \<Rightarrow> False)"

definition name_may_be_reference :: "ustring \<Rightarrow> bool" where
  "name_may_be_reference name =
    (let letters = length (takeWhile uchar_alphabetic name); digits = drop letters name
     in 1 \<le> letters \<and> letters \<le> 3 \<and> digits \<noteq> [] \<and> list_all uchar_digit digits)"

text \<open>\<open>any\<close> with a test that may panic.\<close>

fun any_of :: "('a \<Rightarrow> bool option) \<Rightarrow> 'a list \<Rightarrow> bool option" where
  "any_of f [] = Some False"
| "any_of f (x # xs) = Option.bind (f x) (\<lambda>r. if r then Some True else any_of f xs)"

definition or_else :: "bool option \<Rightarrow> bool option \<Rightarrow> bool option" where
  "or_else a b = Option.bind a (\<lambda>r. if r then Some True else b)"

definition quoted_or_single_sheet_targets :: "ustring \<Rightarrow> (ustring \<Rightarrow> bool option) \<Rightarrow> bool option" where
  "quoted_or_single_sheet_targets name changed =
    (case Parser.split_once 58 name of Some (start, stop) \<Rightarrow> or_else (changed start) (changed stop) | None \<Rightarrow> changed name)"

definition sheet_token_name :: "'n token option \<Rightarrow> ustring option" where
  "sheet_token_name t = (case t of Some (TIdent name) \<Rightarrow> Some name | Some (TQuotedSheet name) \<Rightarrow> Some name | _ \<Rightarrow> None)"

text \<open>The structured references among the tokens that satisfy a test and do not belong to another workbook.\<close>

definition any_structured :: "(ustring \<Rightarrow> bool) \<Rightarrow> 'n spanned_token list \<Rightarrow> bool" where
  "any_structured P tokens =
    list_ex (\<lambda>(index, t). case st_token t of
        TStructuredRef raw \<Rightarrow> P raw \<and> \<not> structured_token_is_external tokens index | _ \<Rightarrow> False)
      (enumerate 0 tokens)"

text \<open>A sheet name before an exclamation mark, as windows of two tokens find it.\<close>

definition any_qualifier :: "(ustring \<Rightarrow> bool option) \<Rightarrow> 'n spanned_token list \<Rightarrow> bool option" where
  "any_qualifier P tokens =
    any_of (\<lambda>index. case (sheet_token_name (token_at tokens index), token_at tokens (index + 1)) of
        (Some name, Some TBang) \<Rightarrow> if sheet_token_is_external tokens index then Some False else P name
      | _ \<Rightarrow> Some False)
      [0..<length tokens - 1]"

text \<open>A range of sheet names before an exclamation mark, as windows of four tokens find it.\<close>

definition any_sheet_range :: "(ustring \<Rightarrow> bool option) \<Rightarrow> 'n spanned_token list \<Rightarrow> bool option" where
  "any_sheet_range P tokens =
    any_of (\<lambda>index. case (sheet_token_name (token_at tokens index), token_at tokens (index + 1),
          sheet_token_name (token_at tokens (index + 2)), token_at tokens (index + 3)) of
        (Some name, Some TColon, Some stop, Some TBang) \<Rightarrow>
          if sheet_token_is_external tokens index then Some False else or_else (P name) (P stop)
      | _ \<Rightarrow> Some False)
      [0..<length tokens - 3]"

definition table_targeted :: "'n rewrite_host \<Rightarrow> ustring \<Rightarrow> ustring \<Rightarrow> bool" where
  "table_targeted R old_name raw =
    (case parse_structured_reference raw of
      Inr p \<Rightarrow> (case sr_table (pst_reference p) of Some table \<Rightarrow> case_insensitive_eq (rh_lower R) table old_name | None \<Rightarrow> False)
    | Inl _ \<Rightarrow> raw_structured_targets_table R raw old_name False)"

definition column_targeted :: "'n rewrite_host \<Rightarrow> ustring \<Rightarrow> ustring \<Rightarrow> bool \<Rightarrow> ustring \<Rightarrow> bool" where
  "column_targeted R table_name old_name owner_is_target raw =
    (case parse_structured_reference raw of
      Inr p \<Rightarrow>
        (case sr_table (pst_reference p) of
          Some table \<Rightarrow> case_insensitive_eq (rh_lower R) table table_name | None \<Rightarrow> owner_is_target) \<and>
        structured_reference_has_column R (pst_reference p) old_name
    | Inl _ \<Rightarrow> raw_structured_targets_table R raw table_name owner_is_target)"

definition deleted_table_targeted :: "'n rewrite_host \<Rightarrow> rewrite_request \<Rightarrow> ustring \<Rightarrow> bool" where
  "deleted_table_targeted R request raw =
    (case sheet_changes_of request of
      None \<Rightarrow> False
    | Some changes \<Rightarrow>
        (case parse_structured_reference raw of
          Inr p \<Rightarrow> (case sr_table (pst_reference p) of Some table \<Rightarrow> is_deleted_table (rh_lower R) changes table | None \<Rightarrow> False)
        | Inl _ \<Rightarrow> list_ex (\<lambda>table. raw_structured_targets_table R raw table False) (shc_deleted_tables changes)))"

definition sheet_targeted :: "'n rewrite_host \<Rightarrow> rewrite_request \<Rightarrow> ustring \<Rightarrow> bool option" where
  "sheet_targeted R request name =
    (case request of
      RequestSheet old _ \<Rightarrow> Some (case_insensitive_eq (rh_lower R) name old)
    | RequestSheets changes \<Rightarrow> changes_target (rh_lower R) changes name
    | _ \<Rightarrow> Some False)"

definition reference_token :: "'n token \<Rightarrow> bool" where
  "reference_token t =
    (case t of TDollar \<Rightarrow> True | TNumber _ \<Rightarrow> True | TColon \<Rightarrow> True | TIdent name \<Rightarrow> name_may_be_reference name | _ \<Rightarrow> False)"

definition tokens_target :: "'n rewrite_host \<Rightarrow> rewrite_request \<Rightarrow> 'n spanned_token list \<Rightarrow> bool option" where
  "tokens_target R request tokens =
    (case request of
      RequestTable old _ \<Rightarrow> Some (any_structured (table_targeted R old) tokens)
    | RequestTableColumn table old _ owner \<Rightarrow> Some (any_structured (column_targeted R table old owner) tokens)
    | RequestTableColumnsRemoved table _ owner \<Rightarrow>
        Some (any_structured (\<lambda>raw. raw_structured_targets_table R raw table owner) tokens)
    | RequestTableToRange area owner _ \<Rightarrow>
        Some (any_structured (\<lambda>raw. raw_structured_targets_table R raw (ta_display_name area) owner) tokens \<or>
          list_ex (\<lambda>t. case st_token t of TIdent name \<Rightarrow> case_insensitive_eq (rh_lower R) name (ta_display_name area) | _ \<Rightarrow> False) tokens)
    | RequestDefinedName rename \<Rightarrow>
        Some (list_ex (\<lambda>t. case st_token t of TIdent name \<Rightarrow> case_insensitive_eq (rh_lower R) name (nr_old_name rename) | _ \<Rightarrow> False) tokens)
    | RequestGrid change \<Rightarrow>
        or_else (Some (gc_host_is_sheet change \<and> list_ex (\<lambda>t. reference_token (st_token t)) tokens))
          (any_qualifier (\<lambda>name. Some (case_insensitive_eq (rh_lower R) name (gc_sheet change))) tokens)
    | RequestCopy _ \<Rightarrow> Some True
    | _ \<Rightarrow>
        or_else (Some (any_structured (deleted_table_targeted R request) tokens))
          (or_else (any_qualifier (\<lambda>name. quoted_or_single_sheet_targets name (sheet_targeted R request)) tokens)
            (any_sheet_range (sheet_targeted R request) tokens)))"

definition formula_may_reference_target ::
  "'n rewrite_host \<Rightarrow> (nat \<Rightarrow> bool) \<Rightarrow> ustring \<Rightarrow> rewrite_request \<Rightarrow> bool budgeted" where
  "formula_may_reference_target R cancelled source request =
    bbind (check_cancelled cancelled) (\<lambda>_.
      if utf8_len source > max_formula_source_bytes default_limits then breturn True
      else case lex_spanned (ph_std (rh_parse R)) source (max_formula_tokens default_limits) of
          Inl Panic \<Rightarrow> bpanic None
        | Inl (Fail _) \<Rightarrow> breturn True
        | Inr lexed \<Rightarrow>
            bbind (bpanic (tokens_target R request (lf_tokens lexed))) (\<lambda>result.
            bbind (check_cancelled cancelled) (\<lambda>_. breturn result)))"

section \<open>Visiting the nodes\<close>

datatype visit = VisitReturn ustring | VisitNode bool "source_edit list"

definition push_children :: "'n expr \<Rightarrow> node_span_tree \<Rightarrow> ('n expr \<times> node_span_tree) list \<Rightarrow> ('n expr \<times> node_span_tree) list" where
  "push_children e node stack = zip (children e) (tree_children node) @ stack"

definition visit_grid ::
  "'n rewrite_host \<Rightarrow> (nat \<Rightarrow> bool) \<Rightarrow> ustring \<Rightarrow> grid_change \<Rightarrow> 'n expr \<Rightarrow> node_span_tree \<Rightarrow> visit budgeted" where
  "visit_grid R cancelled source change e node =
    bbind (bpanic (plan_grid_node (rh_lower R) source e node change)) (\<lambda>(plan, planned).
    bbind (charged cancelled planned) (\<lambda>planned. breturn (VisitNode (plan = PlanDescend) planned)))"

definition visit_copy ::
  "(nat \<Rightarrow> bool) \<Rightarrow> ustring \<Rightarrow> copy_offset \<Rightarrow> 'n expr \<Rightarrow> node_span_tree \<Rightarrow> visit budgeted" where
  "visit_copy cancelled source d e node =
    bbind (bpanic (plan_copy_node source e node d)) (\<lambda>r.
      case r of
        Inl OffGrid \<Rightarrow> bbind (charge_edit cancelled) (\<lambda>_. breturn (VisitReturn DELETED_REFERENCE))
      | Inr (plan, planned) \<Rightarrow>
          bbind (charged cancelled planned) (\<lambda>planned. breturn (VisitNode (plan = PlanDescend) planned)))"

text \<open>A node that becomes another text as a whole.\<close>

definition replace_node :: "(nat \<Rightarrow> bool) \<Rightarrow> node_span_tree \<Rightarrow> ustring \<Rightarrow> visit budgeted" where
  "replace_node cancelled node replacement =
    bbind (charged cancelled [source_edit_new (tree_span node) replacement]) (\<lambda>planned. breturn (VisitNode False planned))"

definition visit_qualified_error ::
  "'n rewrite_host \<Rightarrow> (nat \<Rightarrow> bool) \<Rightarrow> ustring \<Rightarrow> rewrite_request \<Rightarrow> sheet_prefix \<Rightarrow> node_span_tree \<Rightarrow> visit budgeted" where
  "visit_qualified_error R cancelled source request prefix node =
    bbind (bpanic (case sheet_changes_of request of
        None \<Rightarrow> Some False
      | Some changes \<Rightarrow>
          map_option (\<lambda>o'. o' = SpanDeleted) (span_change (rh_lower R) changes (sp_name prefix)
            (case sp_end_name prefix of Some stop \<Rightarrow> stop | None \<Rightarrow> sp_name prefix)))) (\<lambda>deleted.
      if deleted then replace_node cancelled node DELETED_REFERENCE
      else bbind (plan_sheet_prefix_edits R cancelled source prefix (tree_components node) request)
        (\<lambda>planned. breturn (VisitNode False planned)))"

definition targets_table :: "'n rewrite_host \<Rightarrow> structured_reference \<Rightarrow> ustring \<Rightarrow> bool \<Rightarrow> bool" where
  "targets_table R r table_name owner =
    (case sr_table r of Some table \<Rightarrow> case_insensitive_eq (rh_lower R) table table_name | None \<Rightarrow> owner)"

definition names_removed :: "'n rewrite_host \<Rightarrow> structured_reference \<Rightarrow> ustring list \<Rightarrow> bool" where
  "names_removed R r removed =
    (let is_removed = (\<lambda>name. list_ex (case_insensitive_eq (rh_lower R) name) removed)
     in case sr_columns r of
         Some (SingleColumn column) \<Rightarrow> is_removed column
       | Some (ColumnRange start stop) \<Rightarrow> is_removed start \<or> is_removed stop
       | None \<Rightarrow> False)"

text \<open>The reference to the converted table that a node is.\<close>

definition converted_reference :: "'n rewrite_host \<Rightarrow> table_area \<Rightarrow> bool \<Rightarrow> 'n expr \<Rightarrow> structured_reference option" where
  "converted_reference R area owner e =
    (case e of
      XStructuredRef r \<Rightarrow> if targets_table R r (ta_display_name area) owner then Some r else None
    | XName name \<Rightarrow>
        if case_insensitive_eq (rh_lower R) name (ta_display_name area)
        then Some \<lparr>sr_table = Some (ta_display_name area), sr_items = [], sr_columns = None\<rparr> else None
    | _ \<Rightarrow> None)"

definition whole_replacement :: "'n rewrite_host \<Rightarrow> rewrite_request \<Rightarrow> 'n expr \<Rightarrow> ustring option" where
  "whole_replacement R request e =
    (case request of
      RequestTableColumnsRemoved table removed owner \<Rightarrow>
        (case e of
          XStructuredRef r \<Rightarrow> if targets_table R r table owner \<and> names_removed R r removed then Some DELETED_REFERENCE else None
        | _ \<Rightarrow> None)
    | RequestTableToRange area owner this_row \<Rightarrow>
        map_option (\<lambda>r. a1_text_of (rh_lower R) area r this_row) (converted_reference R area owner e)
    | _ \<Rightarrow> None)"

text \<open>The edits inside a node that stays.\<close>

definition inner_edits ::
  "'n rewrite_host \<Rightarrow> (nat \<Rightarrow> bool) \<Rightarrow> ustring \<Rightarrow> rewrite_request \<Rightarrow> 'n expr \<Rightarrow> node_span_tree \<Rightarrow> source_edit list budgeted" where
  "inner_edits R cancelled source request e node =
    (case e of
      XRef r \<Rightarrow>
        (case ref_sheet r of
          Some prefix \<Rightarrow> plan_sheet_prefix_edits R cancelled source prefix (tree_components node) request
        | None \<Rightarrow> breturn [])
    | XQualifiedName sheet _ \<Rightarrow> plan_sheet_prefix_edits R cancelled source sheet (tree_components node) request
    | XStructuredRef r \<Rightarrow>
        (case request of
          RequestTable old new \<Rightarrow>
            (case (sr_table r, component (tree_components node) StructuredTable) of
              (Some table, Some c) \<Rightarrow>
                if case_insensitive_eq (rh_lower R) table old then charged cancelled [source_edit_new (sc_span c) new] else breturn []
            | _ \<Rightarrow> breturn [])
        | RequestTableColumn table old new owner \<Rightarrow>
            if targets_table R r table owner then plan_column_edits R cancelled r (tree_components node) old new else breturn []
        | _ \<Rightarrow> breturn [])
    | _ \<Rightarrow> breturn [])"

definition visit_rename ::
  "'n rewrite_host \<Rightarrow> (nat \<Rightarrow> bool) \<Rightarrow> ustring \<Rightarrow> rewrite_request \<Rightarrow> 'n expr \<Rightarrow> node_span_tree \<Rightarrow> visit budgeted" where
  "visit_rename R cancelled source request e node =
    bbind (bpanic (replaced_by_deletion R request e)) (\<lambda>replaced.
      if replaced then replace_node cancelled node DELETED_REFERENCE
      else bbind (case request of
          RequestDefinedName rename \<Rightarrow> plan_name_edit R cancelled source e node rename
        | _ \<Rightarrow> breturn []) (\<lambda>named.
        case whole_replacement R request e of
          Some replacement \<Rightarrow> replace_node cancelled node replacement
        | None \<Rightarrow>
            bbind (inner_edits R cancelled source request e node) (\<lambda>inner.
              breturn (VisitNode (case e of XExternal _ \<Rightarrow> False | _ \<Rightarrow> True) (named @ inner)))))"

definition visit_node ::
  "'n rewrite_host \<Rightarrow> (nat \<Rightarrow> bool) \<Rightarrow> ustring \<Rightarrow> rewrite_request \<Rightarrow> 'n expr \<Rightarrow> node_span_tree \<Rightarrow> visit budgeted" where
  "visit_node R cancelled source request e node =
    bbind (charge_node cancelled) (\<lambda>_.
      case request of
        RequestGrid change \<Rightarrow> visit_grid R cancelled source change e node
      | RequestCopy d \<Rightarrow> visit_copy cancelled source d e node
      | _ \<Rightarrow>
          (case (case e of XErrorLit _ \<Rightarrow> qualified_error_prefix source (tree_components node) | _ \<Rightarrow> None) of
            Some prefix \<Rightarrow> visit_qualified_error R cancelled source request prefix node
          | None \<Rightarrow> visit_rename R cancelled source request e node))"

definition stack_nodes :: "('n expr \<times> node_span_tree) list \<Rightarrow> nat" where
  "stack_nodes stack = sum_list (map (expr_nodes \<circ> fst) stack)"

lemma stack_nodes_zip: "stack_nodes (zip es ts) \<le> sum_list (map expr_nodes es)"
  by (induction es ts rule: list_induct2') (auto simp: stack_nodes_def)

lemma push_children_less: "stack_nodes (push_children e node stack) < stack_nodes ((e, node) # stack)"
  "stack_nodes stack < stack_nodes ((e, node) # stack)"
  using stack_nodes_zip [of "children e" "tree_children node"] nodes_children(1,3) [of e]
  by (simp_all add: push_children_def stack_nodes_def)

function rewrite_loop ::
  "'n rewrite_host \<Rightarrow> (nat \<Rightarrow> bool) \<Rightarrow> ustring \<Rightarrow> rewrite_request \<Rightarrow> ('n expr \<times> node_span_tree) list \<Rightarrow> source_edit list \<Rightarrow> visit budgeted" where
  "rewrite_loop R cancelled source request [] planned b = (Inr (VisitNode False planned), b)"
| "rewrite_loop R cancelled source request ((e, node) # stack) planned b =
    (case visit_node R cancelled source request e node b of
      (Inl stop, b') \<Rightarrow> (Inl stop, b')
    | (Inr (VisitReturn t), b') \<Rightarrow> (Inr (VisitReturn t), b')
    | (Inr (VisitNode descend new), b') \<Rightarrow>
        rewrite_loop R cancelled source request (if descend then push_children e node stack else stack) (planned @ new) b')"
  by pat_completeness auto
termination
  by (relation "measure (\<lambda>(_, _, _, _, stack, _, _). stack_nodes stack)") (auto simp: push_children_less)

function charge_loop :: "(nat \<Rightarrow> bool) \<Rightarrow> ('n expr \<times> node_span_tree) list \<Rightarrow> unit budgeted" where
  "charge_loop cancelled [] b = (Inr (), b)"
| "charge_loop cancelled ((e, node) # stack) b =
    (case charge_node cancelled b of
      (Inl stop, b') \<Rightarrow> (Inl stop, b')
    | (Inr _, b') \<Rightarrow> charge_loop cancelled (push_children e node stack) b')"
  by pat_completeness auto
termination
  by (relation "measure (\<lambda>(_, stack, _). stack_nodes stack)") (auto simp: push_children_less)

definition charge_parsed_tree :: "(nat \<Rightarrow> bool) \<Rightarrow> 'n parsed_formula \<Rightarrow> unit budgeted" where
  "charge_parsed_tree cancelled f = charge_loop cancelled [(pf_root f, pf_node_tree f)]"

section \<open>The rewriter\<close>

definition ast_limited :: "bool \<Rightarrow> parse_error \<Rightarrow> bool" where
  "ast_limited budget_limited e \<longleftrightarrow> budget_limited \<and> per_limit e = Some FormulaAstNodes"

text \<open>The edited text is parsed again and its nodes are charged.\<close>

definition validate_rewritten :: "'n rewrite_host \<Rightarrow> (nat \<Rightarrow> bool) \<Rightarrow> ustring \<Rightarrow> ustring option budgeted" where
  "validate_rewritten R cancelled rewritten =
    bbind (parser_limits cancelled) (\<lambda>(limits, budget_limited) b.
      case parse_formula_with_limits (rh_parse R) rewritten limits of
        Inl (ParseFail e) \<Rightarrow>
          bfail (if ast_limited budget_limited e then parser_limit_error b else RewriteParse (per_code e) (per_span e) None) b
      | Inl _ \<Rightarrow> bpanic None b
      | Inr reparsed \<Rightarrow> bbind (charge_parsed_tree cancelled reparsed) (\<lambda>_. breturn (Some rewritten)) b)"

definition finish_rewrite :: "'n rewrite_host \<Rightarrow> (nat \<Rightarrow> bool) \<Rightarrow> ustring \<Rightarrow> source_edit list \<Rightarrow> ustring option budgeted" where
  "finish_rewrite R cancelled source planned =
    (if planned = [] then breturn None
     else case apply_source_edits source planned of
         Inl Panic \<Rightarrow> bpanic None
       | Inl (Fail e) \<Rightarrow> bfail (RewriteSourceEdit e)
       | Inr rewritten \<Rightarrow> if rewritten = source then breturn None else validate_rewritten R cancelled rewritten)"

definition rewrite_formula ::
  "'n rewrite_host \<Rightarrow> (nat \<Rightarrow> bool) \<Rightarrow> ustring \<Rightarrow> rewrite_request \<Rightarrow> ustring option budgeted" where
  "rewrite_formula R cancelled source request =
    bbind (charge_formula cancelled (utf8_len source)) (\<lambda>_.
    bbind (parser_limits cancelled) (\<lambda>(limits, budget_limited) b.
      case parse_formula_with_limits (rh_parse R) source limits of
        Inl (ParseFail e) \<Rightarrow>
          if ast_limited budget_limited e then bfail (parser_limit_error b) b
          else bbind (formula_may_reference_target R cancelled source request) (\<lambda>may.
            if may then bfail (RewriteParse (per_code e) (per_span e) None) else breturn None) b
      | Inl _ \<Rightarrow> bpanic None b
      | Inr parsed \<Rightarrow>
          bbind (rewrite_loop R cancelled source request [(pf_root parsed, pf_node_tree parsed)] []) (\<lambda>r.
            case r of VisitReturn t \<Rightarrow> breturn (Some t) | VisitNode _ planned \<Rightarrow> finish_rewrite R cancelled source planned) b))"

end
