(* ===== verification/Reference_Laws.thy ===== *)
theory Reference_Laws
  imports Grid_Rewrite
begin

text \<open>
  What references name after an edit or a copy: a reference follows the lines exactly as the range rule
  of the grid moves its area, a cut takes along the references inside it and the others lose only
  overwritten cells, and a copy moves exactly the relative parts.
\<close>

section \<open>The area of a body\<close>

definition outcome_body :: "ref_body \<Rightarrow> ref_outcome \<Rightarrow> ref_body option" where
  "outcome_body body o' = (case o' of Unchanged \<Rightarrow> Some body | Changed b \<Rightarrow> Some b | Deleted \<Rightarrow> None)"

lemma ordered_minmax: "ordered a b = (min a b, max a b)"
  by (simp add: ordered_def min_def max_def)

definition corners_area :: "u32 \<times> u32 \<times> u32 \<times> u32 \<Rightarrow> cell_range" where
  "corners_area = (\<lambda>(up, left, low, right). from_ordered (CellAddress up left) (CellAddress low right))"

definition corners_ok :: "u32 \<times> u32 \<times> u32 \<times> u32 \<Rightarrow> bool" where
  "corners_ok = (\<lambda>(up, left, low, right). interval_ok Rows up low \<and> interval_ok Columns left right)"

lemma corners_ordered: "body_corners b = (up, left, low, right) \<Longrightarrow> (1 \<le> low \<and> up \<le> EXCEL_MAX_ROWS \<longrightarrow> up \<le> low) \<and> (1 \<le> right \<and> left \<le> EXCEL_MAX_COLUMNS \<longrightarrow> left \<le> right)"
  by (cases b) (auto simp: ordered_minmax excel_max)

lemma body_area_Some: "body_area b = Some area \<longleftrightarrow> corners_ok (body_corners b) \<and> area = corners_area (body_corners b)"
proof -
  obtain up left low right where c: "body_corners b = (up, left, low, right)" by (cases "body_corners b")
  show ?thesis using corners_ordered [OF c]
    by (auto simp: body_area_def c Let_def corners_area_def corners_ok_def interval_ok_def bind_eq_Some_conv from_indices_Inr
      valid_address_def)
qed

lemma corners_area_valid: "corners_ok c \<Longrightarrow> valid_range (corners_area c)"
  by (cases c) (auto simp: corners_ok_def corners_area_def interval_ok_def valid_range_def valid_address_def from_ordered_def)

lemma corners_area_simps [simp]:
  "rng_start (corners_area (up, left, low, right)) = CellAddress up left"
  "rng_end (corners_area (up, left, low, right)) = CellAddress low right"
  by (simp_all add: corners_area_def from_ordered_def)

section \<open>Line edits\<close>

lemma map_interval_line:
  assumes wf: "wf_line_edit axis edit" and v: "line_ok axis v"
  shows "map_interval edit v v Reference = map_option (\<lambda>w. (w, w)) (map_line edit v)"
proof -
  have iv: "interval_ok axis v v" "\<not> whole_axis axis v v"
    using v by (cases axis; auto simp: line_ok_def interval_ok_def whole_axis_def excel_max)+
  show ?thesis using wf
  proof (cases rule: wf_line_edit_cases)
    case (Insert at count)
    then show ?thesis using wf v map_interval_Insert_exact [OF _ iv, of at count Reference] axis_max_bound [of axis]
      by (auto simp: line_ok_def checked_add_def then_some_def)
  next
    case (Delete first lst)
    then show ?thesis using wf v map_interval_Delete_exact [OF _ iv, of first lst Reference] axis_max_bound [of axis]
      by (auto simp: line_ok_def u32_simps)
  next
    case (Move first lst d)
    then show ?thesis using wf map_interval_Move_ends [OF _ iv, of first lst d Reference] map_line_Move_exact [OF _ v, of first lst d] by simp
  qed
qed

lemma outcome_body_line: "outcome_body body (line_outcome body edit axis) = line_changed body edit axis"
  by (auto simp: outcome_body_def line_outcome_def split: option.splits)

definition put_axis :: "grid_axis \<Rightarrow> u32 \<times> u32 \<times> u32 \<times> u32 \<Rightarrow> u32 \<times> u32 \<Rightarrow> u32 \<times> u32 \<times> u32 \<times> u32" where
  "put_axis axis c i = (case (c, i) of ((up, left, low, right), (s, e)) \<Rightarrow>
    (case axis of Rows \<Rightarrow> (s, left, e, right) | Columns \<Rightarrow> (up, s, low, e)))"

lemma line_changed_corners:
  assumes wf: "wf_line_edit axis edit" and c: "corners_ok (body_corners body)"
  shows "map_option body_corners (line_changed body edit axis) =
    map_option (put_axis axis (body_corners body))
      (map_interval edit (axis_of axis (rng_start (corners_area (body_corners body)))) (axis_of axis (rng_end (corners_area (body_corners body)))) Reference)"
proof -
  have ok: "interval_ok axis s e \<Longrightarrow> map_interval edit s e Reference = Some (s', e') \<Longrightarrow> s' \<le> e'" for s e s' e'
    by (drule (1) map_interval_ok [OF wf]) (simp add: interval_ok_def)
  have whole: "map_interval edit 1 (axis_max axis) Reference = Some (1, axis_max axis)"
    by (rule map_interval_whole [OF wf]) (simp add: whole_axis_def)
  have line: "line_ok axis v \<Longrightarrow> map_interval edit v v Reference = map_option (\<lambda>w. (w, w)) (map_line edit v)" for v
    by (rule map_interval_line [OF wf])
  show ?thesis
  proof (cases body)
    case (RefCell cell)
    then show ?thesis using c line
      by (cases axis) (auto simp: line_changed_def put_axis_def corners_ok_def interval_ok_def line_ok_def option.map_comp comp_def)
  next
    case (RefArea a b)
    then show ?thesis using c ok
      by (cases axis; auto simp: line_changed_def put_axis_def corners_ok_def mapped_ordered_def ordered_minmax option.map_comp comp_def
        split_beta min_def max_def intro!: option.map_cong; metis le_antisym)
  next
    case (RefColumns a b)
    then show ?thesis using c ok whole
      by (cases axis; auto simp: line_changed_def put_axis_def corners_ok_def mapped_ordered_def ordered_minmax option.map_comp comp_def
        split_beta min_def max_def intro!: option.map_cong; metis le_antisym)
  next
    case (RefRows a b)
    then show ?thesis using c ok whole
      by (cases axis; auto simp: line_changed_def put_axis_def corners_ok_def mapped_ordered_def ordered_minmax option.map_comp comp_def
        split_beta min_def max_def intro!: option.map_cong; metis le_antisym)
  qed
qed

lemma line_changed_area:
  assumes wf: "wf_line_edit axis edit" and a: "body_area body = Some area"
  shows "Option.bind (line_changed body edit axis) body_area = map_range edit area Reference"
proof -
  let ?c = "body_corners body"
  obtain up left low right where c: "?c = (up, left, low, right)" by (cases ?c)
  have ok: "corners_ok ?c" "area = corners_area ?c" using a by (auto simp: body_area_Some)
  note valid = corners_area_valid [OF ok(1)]
  let ?i = "map_interval edit (axis_of axis (rng_start area)) (axis_of axis (rng_end area)) Reference"
  have changed: "map_option body_corners (line_changed body edit axis) = map_option (put_axis axis ?c) ?i"
    using line_changed_corners [OF wf ok(1)] ok(2) by simp
  show ?thesis
  proof (cases ?i)
    case None
    then have "line_changed body edit axis = None" using changed by simp
    moreover have "map_range edit area Reference = None"
      using None map_range_line [OF wf] by (simp add: map_range_on_axis_def)
    ultimately show ?thesis by simp
  next
    case (Some i)
    obtain s e where i: "i = (s, e)" by (cases i)
    obtain body' where body': "line_changed body edit axis = Some body'" "body_corners body' = put_axis axis ?c (s, e)"
      using changed Some i by auto
    have "interval_ok axis (axis_of axis (rng_start area)) (axis_of axis (rng_end area))"
      using interval_ok_of_range [OF valid] ok(2) by simp
    from map_interval_ok [OF wf this Some [unfolded i]] have "interval_ok axis s e" .
    then have ok': "corners_ok (body_corners body')" using ok(1) unfolding body'(2) c
      by (cases axis) (auto simp: put_axis_def corners_ok_def)
    have "corners_area (body_corners body') = from_ordered (set_axis axis (rng_start area) s) (set_axis axis (rng_end area) e)"
      unfolding body'(2) ok(2) c by (cases axis) (auto simp: put_axis_def corners_area_def from_ordered_def)
    moreover have "map_range edit area Reference = Some (from_ordered (set_axis axis (rng_start area) s) (set_axis axis (rng_end area) e))"
      unfolding map_range_line [OF wf] map_range_on_axis_Some [OF wf valid [folded ok(2)]] using Some i by blast
    ultimately show ?thesis using body'(1) ok' body_area_Some [of body'] by simp
  qed
qed

section \<open>Moved blocks\<close>

lemma shrunk_lines:
  assumes "shrunk s e a b = (s', e')" "1 \<le> s" "s \<le> e" "e \<le> 1048576" "a \<le> b" "b \<le> 1048576" "\<not> (a \<le> s \<and> e \<le> b)"
  shows "s \<le> s' \<and> s' \<le> e' \<and> e' \<le> e \<and> (\<forall>v. s \<le> v \<and> v \<le> e \<and> \<not> (a \<le> v \<and> v \<le> b) \<longrightarrow> s' \<le> v \<and> v \<le> e')"
  using assms by (auto simp: shrunk_def u32_simps split: if_splits)

text \<open>The cells of the area left are cells of the area, and every cell that is not overwritten is left.\<close>

definition shrinks_to :: "u32 \<times> u32 \<times> u32 \<times> u32 \<Rightarrow> cell_address set \<Rightarrow> (u32 \<times> u32 \<times> u32 \<times> u32) option \<Rightarrow> bool" where
  "shrinks_to c lost r \<longleftrightarrow> (case r of
      None \<Rightarrow> cells_of (corners_area c) \<subseteq> lost
    | Some c' \<Rightarrow> corners_ok c' \<and> cells_of (corners_area c') \<subseteq> cells_of (corners_area c) \<and>
        cells_of (corners_area c) - lost \<subseteq> cells_of (corners_area c'))"

lemma contains_corners [simp]:
  "contains (corners_area (up, left, low, right)) a \<longleftrightarrow>
    up \<le> addr_row a \<and> addr_row a \<le> low \<and> left \<le> addr_column a \<and> addr_column a \<le> right"
  by (auto simp: contains_def)

lemma shrinks_to_step:
  assumes "corners_ok c'" "cells_of (corners_area c') \<subseteq> cells_of (corners_area c)"
    "cells_of (corners_area c) - cells_of p \<subseteq> cells_of (corners_area c')" "shrinks_to c' lost r"
  shows "shrinks_to c (cells_of p \<union> lost) r"
  using assms unfolding shrinks_to_def by (cases r) (simp_all only: option.case, blast+)

lemma shrink_loop_cells:
  "corners_ok c \<Longrightarrow> list_all valid_range ps \<Longrightarrow> shrinks_to c (cells_of_all ps) (shrink_loop ps c)"
proof (induction ps c rule: shrink_loop.induct)
  case (1 c)
  then show ?case by (auto simp: shrinks_to_def)
next
  case (2 p ps up left low right)
  let ?c = "(up, left, low, right)"
  let ?pt = "addr_row (rng_start p)" and ?pl = "addr_column (rng_start p)" and ?pb = "addr_row (rng_end p)" and ?pr = "addr_column (rng_end p)"
  have p: "?pt \<le> ?pb" "?pl \<le> ?pr" "?pb \<le> 1048576" "?pr \<le> 1048576"
    using "2.prems"(2) by (auto simp: valid_range_def valid_address_def excel_max)
  have c: "1 \<le> up" "up \<le> low" "low \<le> 1048576" "1 \<le> left" "left \<le> right" "right \<le> 1048576"
    using "2.prems"(1) by (auto simp: corners_ok_def interval_ok_def excel_max)
  have mem: "contains p a \<longleftrightarrow> ?pt \<le> addr_row a \<and> addr_row a \<le> ?pb \<and> ?pl \<le> addr_column a \<and> addr_column a \<le> ?pr" for a
    by (auto simp: contains_def)
  have all: "cells_of_all (p # ps) = cells_of p \<union> cells_of_all ps" by simp
  have valid: "list_all valid_range ps" using "2.prems"(2) by simp
  show ?case
  proof (cases "?pt \<le> up \<and> low \<le> ?pb \<and> ?pl \<le> left \<and> right \<le> ?pr")
    case True
    then have "shrink_loop (p # ps) ?c = None" by (simp add: Let_def)
    then show ?thesis unfolding all using True mem by (auto simp: shrinks_to_def)
  next
    case covered: False
    show ?thesis
    proof (cases "?pl \<le> left \<and> right \<le> ?pr")
      case True
      obtain u l where s: "shrunk up low ?pt ?pb = (u, l)" by (cases "shrunk up low ?pt ?pb")
      have k: "up \<le> u \<and> u \<le> l \<and> l \<le> low \<and> (\<forall>v. up \<le> v \<and> v \<le> low \<and> \<not> (?pt \<le> v \<and> v \<le> ?pb) \<longrightarrow> u \<le> v \<and> v \<le> l)"
        using shrunk_lines [OF s c(1-3) p(1,3)] True covered by blast
      have c': "corners_ok (u, left, l, right)" using k "2.prems"(1) by (auto simp: corners_ok_def interval_ok_def)
      have "shrinks_to (u, left, l, right) (cells_of_all ps) (shrink_loop ps (u, left, l, right))"
        using "2.IH"(1) [OF refl refl refl refl covered True refl] s c' valid by simp
      moreover have "cells_of (corners_area (u, left, l, right)) \<subseteq> cells_of (corners_area ?c)"
        "cells_of (corners_area ?c) - cells_of p \<subseteq> cells_of (corners_area (u, left, l, right))"
        using k True by (auto simp: mem)
      moreover have "shrink_loop (p # ps) ?c = shrink_loop ps (u, left, l, right)" using covered True s by (auto simp: Let_def)
      ultimately show ?thesis unfolding all using shrinks_to_step [OF c'] by simp
    next
      case columns: False
      show ?thesis
      proof (cases "?pt \<le> up \<and> low \<le> ?pb")
        case True
        obtain u l where s: "shrunk left right ?pl ?pr = (u, l)" by (cases "shrunk left right ?pl ?pr")
        have k: "left \<le> u \<and> u \<le> l \<and> l \<le> right \<and> (\<forall>v. left \<le> v \<and> v \<le> right \<and> \<not> (?pl \<le> v \<and> v \<le> ?pr) \<longrightarrow> u \<le> v \<and> v \<le> l)"
          using shrunk_lines [OF s c(4-6) p(2,4)] columns by blast
        have c': "corners_ok (up, u, low, l)" using k "2.prems"(1) by (auto simp: corners_ok_def interval_ok_def)
        have "shrinks_to (up, u, low, l) (cells_of_all ps) (shrink_loop ps (up, u, low, l))"
          using "2.IH"(2) [OF refl refl refl refl covered columns True refl] s c' valid by simp
        moreover have "cells_of (corners_area (up, u, low, l)) \<subseteq> cells_of (corners_area ?c)"
          "cells_of (corners_area ?c) - cells_of p \<subseteq> cells_of (corners_area (up, u, low, l))"
          using k True by (auto simp: mem)
        moreover have "shrink_loop (p # ps) ?c = shrink_loop ps (up, u, low, l)" using columns True s by (auto simp: Let_def)
        ultimately show ?thesis unfolding all using shrinks_to_step [OF c'] by simp
      next
        case False
        have "shrinks_to ?c (cells_of_all ps) (shrink_loop ps ?c)"
          using "2.IH"(3) [OF refl refl refl refl covered columns False] "2.prems"(1) valid by simp
        moreover have "shrink_loop (p # ps) ?c = shrink_loop ps ?c" using columns False by (auto simp: Let_def)
        ultimately show ?thesis unfolding all using shrinks_to_step [OF "2.prems"(1), of ?c p] by simp
      qed
    qed
  qed
qed

lemma shrunk_area_corners:
  assumes "corners_ok (up, left, low, right)"
  shows "body_corners (shrunk_area first lst (up, left, low, right)) = (up, left, low, right)"
  using assms by (auto simp: shrunk_area_def Let_def ordered_minmax corners_ok_def interval_ok_def)

lemma shift_minmax: "s \<le> x \<Longrightarrow> s \<le> y \<Longrightarrow> min (x + d - s) (y + d - s) = min x y + d - s"
  "s \<le> x \<Longrightarrow> s \<le> y \<Longrightarrow> max (x + d - s) (y + d - s) = max x y + d - s" for s x y d :: nat
  by (auto simp: min_def max_def)

lemma follow_corners:
  assumes wf: "wf_edit (MoveRange source d)" and ok: "corners_ok (body_corners body)"
    and inside: "range_contains source (corners_area (body_corners body))"
  shows "\<exists>body'. follow_body (range_offset (MoveRange source d)) body = Some body' \<and> corners_ok (body_corners body') \<and>
    offset_range (corners_area (body_corners body)) (range_offset (MoveRange source d)) = Some (corners_area (body_corners body'))"
proof -
  obtain s1 s2 e1 e2 where s: "source = from_ordered (CellAddress s1 s2) (CellAddress e1 e2)"
    by (metis cell_address.exhaust cell_range.surjective from_ordered_def old.unit.exhaust)
  obtain d1 d2 where d: "d = CellAddress d1 d2" by (cases d)
  have b: "1 \<le> s1" "s1 \<le> e1" "e1 \<le> EXCEL_MAX_ROWS" "1 \<le> s2" "s2 \<le> e2" "e2 \<le> EXCEL_MAX_COLUMNS" "1 \<le> d1" "1 \<le> d2"
    "d1 + (e1 - s1) \<le> EXCEL_MAX_ROWS" "d2 + (e2 - s2) \<le> EXCEL_MAX_COLUMNS"
    using wf by (auto simp: s d from_ordered_def valid_range_def valid_address_def range_height_exact range_width_exact)
  have shift: "u32_try_from (int v + (int d1 - int s1)) = Some (v + d1 - s1)" if "s1 \<le> v" "v \<le> e1" for v
    using that b by (auto simp: u32_try_from_Some excel_max)
  have shift2: "u32_try_from (int v + (int d2 - int s2)) = Some (v + d2 - s2)" if "s2 \<le> v" "v \<le> e2" for v
    using that b by (auto simp: u32_try_from_Some excel_max)
  obtain u l w r where c: "body_corners body = (u, l, w, r)" by (cases "body_corners body")
  have i: "s1 \<le> u" "u \<le> w" "w \<le> e1" "s2 \<le> l" "l \<le> r" "r \<le> e2"
    using inside ok by (auto simp: c s range_contains_def contains_def from_ordered_def corners_ok_def interval_ok_def)
  let ?c = "(u + d1 - s1, l + d2 - s2, w + d1 - s1, r + d2 - s2)"
  have "corners_ok ?c" using b i by (auto simp: corners_ok_def interval_ok_def)
  moreover have "offset_range (corners_area (body_corners body)) (range_offset (MoveRange source d)) = Some (corners_area ?c)"
  proof -
    have "offset_address (CellAddress u l) (int d1 - int s1, int d2 - int s2) = Some (CellAddress (u + d1 - s1) (l + d2 - s2))"
      "offset_address (CellAddress w r) (int d1 - int s1, int d2 - int s2) = Some (CellAddress (w + d1 - s1) (r + d2 - s2))"
      unfolding offset_address_Some using b i by (auto simp: valid_address_def)
    then show ?thesis by (simp add: offset_range_def c s d from_ordered_def corners_area_def)
  qed
  moreover have "\<exists>body'. follow_body (range_offset (MoveRange source d)) body = Some body' \<and> body_corners body' = ?c"
  proof (cases body)
    case (RefCell cell)
    then show ?thesis using c i shift shift2 by (auto simp: follow_body_def shift_cell_def s d from_ordered_def)
  next
    case (RefArea x y)
    have "s1 \<le> cr_row x" "cr_row x \<le> e1" "s1 \<le> cr_row y" "cr_row y \<le> e1" "s2 \<le> cr_column x" "cr_column x \<le> e2" "s2 \<le> cr_column y" "cr_column y \<le> e2"
      using c i RefArea by (auto simp: ordered_minmax)
    then show ?thesis using RefArea c shift shift2
      by (auto simp: follow_body_def shift_cell_def s d from_ordered_def ordered_minmax shift_minmax)
  next
    case (RefColumns x y)
    have "s2 \<le> colr_column x" "colr_column x \<le> e2" "s2 \<le> colr_column y" "colr_column y \<le> e2" "s1 = 1" "d1 = 1" "u = 1" "w = EXCEL_MAX_ROWS"
      using c i b RefColumns by (auto simp: ordered_minmax)
    then show ?thesis using RefColumns c i shift2
      by (simp add: follow_body_def s d from_ordered_def ordered_minmax) (auto simp: min_def max_def)
  next
    case (RefRows x y)
    have "s1 \<le> rowr_row x" "rowr_row x \<le> e1" "s1 \<le> rowr_row y" "rowr_row y \<le> e1" "s2 = 1" "d2 = 1" "l = 1" "r = EXCEL_MAX_COLUMNS"
      using c i b RefRows by (auto simp: ordered_minmax)
    then show ?thesis using RefRows c i shift
      by (simp add: follow_body_def s d from_ordered_def ordered_minmax) (auto simp: min_def max_def)
  qed
  ultimately show ?thesis by auto
qed

lemma overwritten_valid: "wf_edit (MoveRange source d) \<Longrightarrow> list_all valid_range (overwritten (MoveRange source d))"
  using destination_range_exact [of source d] subtract_correct(1) [of "pasted source d" source] by auto

lemma overwritten_body:
  assumes wf: "wf_edit (MoveRange source d)" and a: "body_area body = Some area" and out: "\<not> range_contains source area"
  shows "\<exists>o'. outcome body (MoveRange source d) = Some o' \<and>
    (case Option.bind (outcome_body body o') body_area of
      None \<Rightarrow> cells_of area \<subseteq> cells_of_all (overwritten (MoveRange source d))
    | Some q \<Rightarrow> cells_of q \<subseteq> cells_of area \<and> cells_of area - cells_of_all (overwritten (MoveRange source d)) \<subseteq> cells_of q)"
proof -
  let ?e = "MoveRange source d"
  have ok: "corners_ok (body_corners body)" "area = corners_area (body_corners body)" using a by (auto simp: body_area_Some)
  obtain u l w r where c: "body_corners body = (u, l, w, r)" by (cases "body_corners body")
  have s: "shrinks_to (u, l, w, r) (cells_of_all (overwritten ?e)) (shrink_loop (overwritten ?e) (u, l, w, r))"
    using shrink_loop_cells [OF ok(1) overwritten_valid [OF wf]] c by simp
  have corners: "(addr_row (rng_start area), addr_column (rng_start area), addr_row (rng_end area), addr_column (rng_end area)) = (u, l, w, r)"
    using ok c by simp
  show ?thesis
  proof (cases body)
    case (RefCell cell)
    have one: "cells_of area = {CellAddress u l}" "w = u" "r = l" using RefCell c ok by (auto simp: cell_address.expand)
    show ?thesis using RefCell a out s corners ok c one
      by (cases "shrink_loop (overwritten ?e) (u, l, w, r)")
        (auto simp: outcome_def outcome_body_def shrinks_to_def)
  next
    case (RefArea first lst)
    show ?thesis
    proof (cases "shrink_loop (overwritten ?e) (u, l, w, r)")
      case None
      then show ?thesis using RefArea a out s corners ok c by (simp add: outcome_def outcome_body_def shrinks_to_def)
    next
      case (Some c')
      then have c': "corners_ok c'" "cells_of (corners_area c') \<subseteq> cells_of area"
          "cells_of area - cells_of_all (overwritten ?e) \<subseteq> cells_of (corners_area c')"
        using s ok c by (auto simp: shrinks_to_def)
      have "body_area (shrunk_area first lst c') = Some (corners_area c')"
        using shrunk_area_corners c'(1) by (cases c') (simp add: body_area_Some)
      then show ?thesis using RefArea a out corners Some c' by (auto simp: outcome_def outcome_body_def)
    qed
  qed (use a out in \<open>auto simp: outcome_def outcome_body_def\<close>)
qed

section \<open>Copies\<close>

text \<open>A body whose coordinates are on the sheet.\<close>

fun on_sheet :: "ref_body \<Rightarrow> bool" where
  "on_sheet (RefCell c) = valid_address (CellAddress (cr_row c) (cr_column c))"
| "on_sheet (RefArea a b) = (valid_address (CellAddress (cr_row a) (cr_column a)) \<and> valid_address (CellAddress (cr_row b) (cr_column b)))"
| "on_sheet (RefColumns a b) = (line_ok Columns (colr_column a) \<and> line_ok Columns (colr_column b))"
| "on_sheet (RefRows a b) = (line_ok Rows (rowr_row a) \<and> line_ok Rows (rowr_row b))"

lemma on_sheet_area: "on_sheet body \<longleftrightarrow> body_area body \<noteq> None"
proof -
  have "on_sheet body \<longleftrightarrow> corners_ok (body_corners body)"
    by (cases body) (auto simp: corners_ok_def interval_ok_def ordered_minmax valid_address_def line_ok_def excel_max min_def max_def)
  then show ?thesis by (auto simp: body_area_Some)
qed

text \<open>The coordinates that the text of a reference writes: their axis, whether a dollar sign fixes them, and their
value.\<close>

fun cell_coordinates :: "cell_ref \<Rightarrow> (grid_axis \<times> bool \<times> u32) list" where
  "cell_coordinates c = [(Rows, cr_row_absolute c, cr_row c), (Columns, cr_column_absolute c, cr_column c)]"

fun coordinates :: "ref_body \<Rightarrow> (grid_axis \<times> bool \<times> u32) list" where
  "coordinates (RefCell c) = cell_coordinates c"
| "coordinates (RefArea a b) = cell_coordinates a @ cell_coordinates b"
| "coordinates (RefColumns a b) = [(Columns, colr_absolute a, colr_column a), (Columns, colr_absolute b, colr_column b)]"
| "coordinates (RefRows a b) = [(Rows, rowr_absolute a, rowr_row a), (Rows, rowr_absolute b, rowr_row b)]"

fun offset_on :: "grid_axis \<Rightarrow> copy_offset \<Rightarrow> int" where
  "offset_on Rows d = co_rows d"
| "offset_on Columns d = co_columns d"

text \<open>A coordinate in a copy: a fixed one stays, a relative one moves by the offset of its axis.\<close>

fun in_copy :: "copy_offset \<Rightarrow> grid_axis \<times> bool \<times> u32 \<Rightarrow> grid_axis \<times> bool \<times> int" where
  "in_copy d (axis, absolute, v) = (axis, absolute, if absolute then int v else int v + offset_on axis d)"

fun leaves_sheet :: "copy_offset \<Rightarrow> grid_axis \<times> bool \<times> u32 \<Rightarrow> bool" where
  "leaves_sheet d (axis, absolute, v) \<longleftrightarrow>
    \<not> absolute \<and> (int v + offset_on axis d < 1 \<or> int (axis_max axis) < int v + offset_on axis d)"

fun as_int :: "grid_axis \<times> bool \<times> u32 \<Rightarrow> grid_axis \<times> bool \<times> int" where
  "as_int (axis, absolute, v) = (axis, absolute, int v)"

lemma i64_exact: "\<bar>n\<bar> < 2 ^ 63 \<Longrightarrow> i64 n = n"
  by (simp add: i64_def abs_less_iff)

lemma shift_exact:
  assumes "line_ok axis v" "\<bar>offset_on axis d\<bar> < 2 ^ 62" "maximum = axis_max axis" "delta = offset_on axis d"
  obtains w where "shift_coordinate v delta absolute maximum = Some w" "as_int (axis, absolute, w) = in_copy d (axis, absolute, v)"
    "line_ok axis w" "\<not> leaves_sheet d (axis, absolute, v)"
  | "shift_coordinate v delta absolute maximum = None" "leaves_sheet d (axis, absolute, v)"
proof -
  have "v \<le> 1048576" using assms(1) by (cases axis) (simp_all add: excel_max line_ok_def)
  then have wrap: "i64 (int v + offset_on axis d) = int v + offset_on axis d" using assms(2) by (intro i64_exact) simp
  show thesis
  proof (cases "leaves_sheet d (axis, absolute, v)")
    case True
    show thesis by (rule that(2)) (use True wrap assms in \<open>auto simp: shift_coordinate_def\<close>)
  next
    case False
    show thesis
      by (rule that(1) [of "if absolute then v else nat (int v + offset_on axis d)"])
        (use False wrap assms in \<open>auto simp: shift_coordinate_def line_ok_def nat_le_iff nat_le_eq_zle\<close>)
  qed
qed

definition copied_well :: "copy_offset \<Rightarrow> ref_body \<Rightarrow> ref_body option \<Rightarrow> bool" where
  "copied_well d body r =
    (case r of
      Some body' \<Rightarrow> map as_int (coordinates body') = map (in_copy d) (coordinates body) \<and> on_sheet body'
    | None \<Rightarrow> list_ex (leaves_sheet d) (coordinates body))"

lemma copy_body_well:
  assumes "on_sheet body" "\<bar>co_rows d\<bar> < 2 ^ 62" "\<bar>co_columns d\<bar> < 2 ^ 62"
  shows "copied_well d body (shift_body body d)"
proof -
  have bound: "\<bar>offset_on axis d\<bar> < 2 ^ 62" for axis using assms(2,3) by (cases axis) simp_all
  have cell: "(\<exists>c'. copy_cell d c = Some c' \<and> map as_int (cell_coordinates c') = map (in_copy d) (cell_coordinates c) \<and>
        valid_address (CellAddress (cr_row c') (cr_column c'))) \<or> copy_cell d c = None \<and> list_ex (leaves_sheet d) (cell_coordinates c)"
    if "valid_address (CellAddress (cr_row c) (cr_column c))" for c
  proof -
    have ok: "line_ok Rows (cr_row c)" "line_ok Columns (cr_column c)" using that by (auto simp: valid_address_def line_ok_def)
    show ?thesis
      by (rule shift_exact [OF ok(1) bound, of EXCEL_MAX_ROWS "co_rows d" "cr_row_absolute c"],
          simp, simp, rule shift_exact [OF ok(2) bound, of EXCEL_MAX_COLUMNS "co_columns d" "cr_column_absolute c"])
        (auto simp: copy_cell_def valid_address_def line_ok_def)
  qed
  show ?thesis
  proof (cases body)
    case (RefCell c)
    then show ?thesis using cell [of c] assms(1) by (auto simp: shift_body_def copied_well_def)
  next
    case (RefArea a b)
    then show ?thesis using cell [of a] cell [of b] assms(1) by (auto simp: shift_body_def copied_well_def)
  next
    case (RefColumns a b)
    then have ok: "line_ok Columns (colr_column a)" "line_ok Columns (colr_column b)" using assms(1) by simp_all
    show ?thesis
      by (rule shift_exact [OF ok(1) bound, of EXCEL_MAX_COLUMNS "co_columns d" "colr_absolute a"],
          simp, simp, rule shift_exact [OF ok(2) bound, of EXCEL_MAX_COLUMNS "co_columns d" "colr_absolute b"])
        (auto simp: shift_body_def copy_column_def copied_well_def RefColumns)
  next
    case (RefRows a b)
    then have ok: "line_ok Rows (rowr_row a)" "line_ok Rows (rowr_row b)" using assms(1) by simp_all
    show ?thesis
      by (rule shift_exact [OF ok(1) bound, of EXCEL_MAX_ROWS "co_rows d" "rowr_absolute a"],
          simp, simp, rule shift_exact [OF ok(2) bound, of EXCEL_MAX_ROWS "co_rows d" "rowr_absolute b"])
        (auto simp: shift_body_def copy_row_def copied_well_def RefRows)
  qed
qed

section \<open>Properties\<close>

text \<open>C14: A reference follows the lines: when lines are inserted, deleted or moved, the text of a
reference is changed so that it names exactly the range to which the range rule of the grid maps its
cells, whichever corner is written first, and it becomes an error exactly when no cell is left.\<close>

theorem reference_follows_lines:
  assumes "wf_line_edit axis edit" "body_area body = Some area"
  shows "\<exists>o'. outcome body edit = Some o' \<and> Option.bind (outcome_body body o') body_area = map_range edit area Reference"
  using line_changed_area [OF assms] assms(1) by (simp add: outcome_def wf_line_edit_def outcome_body_line)

text \<open>The reference \<open>A$9:B4\<close>, with the lower corner written first.\<close>

definition sample_body :: ref_body where
  "sample_body = RefArea \<lparr>cr_column = 1, cr_row = 9, cr_column_absolute = False, cr_row_absolute = True\<rparr>
    \<lparr>cr_column = 2, cr_row = 4, cr_column_absolute = False, cr_row_absolute = False\<rparr>"

lemma sample_area: "body_area sample_body = Some (from_ordered (CellAddress 4 1) (CellAddress 9 2))"
  by (simp add: sample_body_def body_area_Some corners_ok_def interval_ok_def corners_area_def ordered_minmax excel_max numeral_2_eq_2)

theorem reference_follows_lines_witness:
  "\<exists>o'. outcome sample_body (Delete Rows 5 6) = Some o' \<and>
    Option.bind (outcome_body sample_body o') body_area = Some (from_ordered (CellAddress 4 1) (CellAddress 7 2))"
  using reference_follows_lines [OF _ sample_area, of Rows "Delete Rows 5 6"]
  by (simp add: wf_line_edit_def excel_max map_range_def map_range_on_axis_def map_interval.simps from_ordered_def u32_simps row_new_def)

text \<open>C15: A cut takes the references along: a reference inside the moved block names exactly the cells
its cells are moved to.  Any other reference keeps every cell that the paste does not overwrite, gains no
cell, and becomes an error only when all its cells are overwritten.\<close>

theorem reference_follows_cut:
  assumes "wf_edit (MoveRange source d)" "body_area body = Some area"
  shows "\<exists>o'. outcome body (MoveRange source d) = Some o' \<and>
    (case Option.bind (outcome_body body o') body_area of
      None \<Rightarrow> \<not> range_contains source area \<and> cells_of area \<subseteq> cells_of_all (overwritten (MoveRange source d))
    | Some q \<Rightarrow>
        if range_contains source area then cells_of q = image_cells (MoveRange source d) (cells_of area)
        else cells_of q \<subseteq> cells_of area \<and> cells_of area - cells_of_all (overwritten (MoveRange source d)) \<subseteq> cells_of q)"
proof (cases "range_contains source area")
  case False
  from overwritten_body [OF assms False] obtain o' where o': "outcome body (MoveRange source d) = Some o'"
    "case Option.bind (outcome_body body o') body_area of
      None \<Rightarrow> cells_of area \<subseteq> cells_of_all (overwritten (MoveRange source d))
    | Some q \<Rightarrow> cells_of q \<subseteq> cells_of area \<and> cells_of area - cells_of_all (overwritten (MoveRange source d)) \<subseteq> cells_of q"
    by blast
  then show ?thesis using False
    by (intro exI [of _ o']) (cases "Option.bind (outcome_body body o') body_area"; simp del: overwritten.simps)
next
  case True
  have ok: "corners_ok (body_corners body)" "area = corners_area (body_corners body)" using assms(2) by (auto simp: body_area_Some)
  note valid = corners_area_valid [OF ok(1), folded ok(2)]
  have sub: "cells_of area \<subseteq> cells_of source" using True range_contains_iff [OF valid] by auto
  obtain body' where b: "follow_body (range_offset (MoveRange source d)) body = Some body'" "corners_ok (body_corners body')"
    "offset_range area (range_offset (MoveRange source d)) = Some (corners_area (body_corners body'))"
    using follow_corners [OF assms(1) ok(1)] True ok(2) by auto
  have "cells_of (corners_area (body_corners body')) = image_cells (MoveRange source d) (cells_of area)"
    using offset_range_inside [OF assms(1) valid sub] b(3) by auto
  moreover have "body_area body' = Some (corners_area (body_corners body'))" using b(2) by (simp add: body_area_Some)
  ultimately show ?thesis using True assms(2) b(1) by (simp add: outcome_def outcome_body_def)
qed

theorem reference_follows_cut_witness:
  "\<exists>o'. outcome sample_body (MoveRange (from_ordered (CellAddress 1 1) (CellAddress 9 3)) (CellAddress 2 4)) = Some o' \<and>
    (\<exists>q. Option.bind (outcome_body sample_body o') body_area = Some q \<and>
      cells_of q = image_cells (MoveRange (from_ordered (CellAddress 1 1) (CellAddress 9 3)) (CellAddress 2 4))
        (cells_of (from_ordered (CellAddress 4 1) (CellAddress 9 2))))"
proof -
  let ?s = "from_ordered (CellAddress 1 1) (CellAddress 9 3)"
  have "wf_edit (MoveRange ?s (CellAddress 2 4))" "range_contains ?s (from_ordered (CellAddress 4 1) (CellAddress 9 2))"
    by (simp_all add: concrete range_contains_def contains_def)
  with reference_follows_cut [OF _ sample_area, of ?s "CellAddress 2 4"] show ?thesis
    by (auto split: option.splits)
qed

text \<open>C22: Copying a formula by an offset moves exactly the relative parts of its references: a reference on the
sheet becomes one of the same form, in which every row and column with a dollar sign is as before and every other
one is moved by the offset of its axis, and the copy is again on the sheet.  The copy is refused exactly when some
relative row or column would leave the sheet.\<close>

theorem copy_exact:
  assumes "body_area body \<noteq> None" "\<bar>co_rows d\<bar> < 2 ^ 62" "\<bar>co_columns d\<bar> < 2 ^ 62"
  shows "case shift_body body d of
      Some body' \<Rightarrow> map as_int (coordinates body') = map (in_copy d) (coordinates body) \<and> body_area body' \<noteq> None
    | None \<Rightarrow> list_ex (leaves_sheet d) (coordinates body)"
  using copy_body_well [of body d] assms by (simp add: on_sheet_area copied_well_def split: option.splits)

text \<open>The copy of \<open>A$9:B4\<close> three rows up and two columns to the right is \<open>C$9:D1\<close>.\<close>

theorem copy_exact_witness:
  "\<exists>body'. shift_body sample_body \<lparr>co_rows = -3, co_columns = 2\<rparr> = Some body' \<and>
    map as_int (coordinates body') = [(Rows, True, 9), (Columns, False, 3), (Rows, False, 1), (Columns, False, 4)]"
proof -
  obtain body' where "shift_body sample_body \<lparr>co_rows = -3, co_columns = 2\<rparr> = Some body'"
    by (simp add: sample_body_def shift_body_def copy_cell_def shift_coordinate_def i64_def excel_max)
  with copy_exact [of sample_body "\<lparr>co_rows = -3, co_columns = 2\<rparr>"] sample_area show ?thesis by (simp add: sample_body_def)
qed

end
