(* ===== verification/Parser_Limits.thy ===== *)
theory Parser_Limits
  imports Parser_Correct
begin

text \<open>
  The limit on the nodes of a formula only decides whether a formula is refused: under a smaller limit a text
  parses to the same formula, or is refused for its number of nodes.  The parser never takes back a refusal for
  the number of nodes, because the attempts it takes back record no nodes.
\<close>

section \<open>Outcomes under two limits\<close>

definition node_limit_failure :: "parse_stop \<Rightarrow> bool" where
  "node_limit_failure stop \<longleftrightarrow> (\<exists>e. stop = ParseFail e \<and> per_limit e = Some FormulaAstNodes)"

definition near :: "parse_stop + 'a \<Rightarrow> parse_stop + 'a \<Rightarrow> bool" where
  "near x y \<longleftrightarrow> x = y \<or> (\<exists>stop. x = Inl stop \<and> node_limit_failure stop)"

lemma near_refl [simp, intro]: "near x x"
  by (simp add: near_def)

lemma near_bind:
  assumes "near (m s) (m' s)" "\<And>a s'. near (f a s') (f' a s')"
  shows "near (pbind m f s) (pbind m' f' s)"
proof (cases "m s = m' s")
  case True
  then show ?thesis using assms(2) by (auto simp: pbind_def split: sum.splits)
next
  case False
  then show ?thesis using assms(1) by (auto simp: near_def pbind_def)
qed

text \<open>An environment with another limit on the nodes.\<close>

abbreviation relaxed :: "nat \<Rightarrow> 'n parse_env \<Rightarrow> 'n parse_env" where
  "relaxed n E \<equiv> E\<lparr>pe_max_ast_nodes := n\<rparr>"

section \<open>Steps that record no nodes\<close>

lemma relaxed_fields: "pe_host (relaxed n E) = pe_host E" "pe_max_ast_depth (relaxed n E) = pe_max_ast_depth E" "pe_max_parse_depth (relaxed n E) = pe_max_parse_depth E" "pe_input (relaxed n E) = pe_input E" "pe_tokens (relaxed n E) = pe_tokens E"
  by simp_all

lemma relaxed_tokens [simp]: "peek (relaxed n E) = peek E" "span_at (relaxed n E) = span_at E" "fuel_of (relaxed n E) = fuel_of E"
  unfolding peek_def span_at_def fuel_of_def fun_eq_iff relaxed_fields by simp_all

lemma relaxed_basic [simp]: "(error_at (relaxed n E) code :: 'a parser) = error_at E code" "advance (relaxed n E) = advance E" "eat (relaxed n E) t = eat E t"
  unfolding error_at_def advance_def eat_def fun_eq_iff relaxed_fields relaxed_tokens by simp_all

lemma relaxed_expect [simp]: "expect (relaxed n E) t = expect E t"
  unfolding expect_def relaxed_basic by (rule refl)

lemma relaxed_host [simp]: "trim_mode_value (relaxed n E) mode = trim_mode_value E mode" "row_of_number (relaxed n E) number = row_of_number E number"
  "storage_builtin_callable (relaxed n E) name = storage_builtin_callable E name" "normalize_arguments (relaxed n E) name args = normalize_arguments E name args"
  unfolding trim_mode_value_def row_of_number_def storage_builtin_callable_def normalize_arguments_def relaxed_fields by (rule refl)+

lemma relaxed_endpoint [simp]: "parse_column_endpoint (relaxed n E) column absolute start ident_span = parse_column_endpoint E column absolute start ident_span"
  unfolding parse_column_endpoint_def relaxed_basic relaxed_tokens relaxed_host by (rule refl)

lemma relaxed_endpoints [simp]: "parse_endpoint (relaxed n E) = parse_endpoint E"
  unfolding parse_endpoint_def relaxed_basic relaxed_tokens relaxed_host relaxed_endpoint by (rule refl)

lemma relaxed_second [simp]:
  "parse_second_endpoint (relaxed n E) first first_span trim colon_cursor = parse_second_endpoint E first first_span trim colon_cursor"
  unfolding parse_second_endpoint_def fun_eq_iff relaxed_endpoints by simp

lemma relaxed_ref_body [simp]: "parse_ref_body (relaxed n E) = parse_ref_body E"
  unfolding parse_ref_body_def fun_eq_iff relaxed_endpoints relaxed_tokens relaxed_second relaxed_basic by simp

lemma relaxed_body [simp]: "try_ref_body (relaxed n E) = try_ref_body E"
  unfolding try_ref_body_def fun_eq_iff relaxed_ref_body by simp

lemma relaxed_prefixes [simp]: "peek_sheet_range_end (relaxed n E) = peek_sheet_range_end E"
  "quoted_sheet_prefix_components (relaxed n E) span = quoted_sheet_prefix_components E span"
  "quoted_external_prefix_components (relaxed n E) span = quoted_external_prefix_components E span"
  "external_sheet (relaxed n E) = external_sheet E" "external_target (relaxed n E) = external_target E"
  unfolding peek_sheet_range_end_def quoted_sheet_prefix_components_def quoted_external_prefix_components_def
    external_sheet_def external_target_def relaxed_fields relaxed_tokens relaxed_basic relaxed_body by (rule refl)+

lemmas relaxed = relaxed_fields relaxed_tokens relaxed_basic relaxed_expect relaxed_host relaxed_ref_body relaxed_body relaxed_prefixes

section \<open>Steps that record nodes\<close>

lemma near_track_node:
  assumes "pe_max_ast_nodes E \<le> n"
  shows "near (track_node E e span cs s) (track_node (relaxed n E) e span cs s)"
proof (cases "pe_max_ast_nodes E \<le> length (pt_node_sources s)")
  case True
  then show ?thesis by (simp add: track_node_def near_def node_limit_failure_def limit_error_def)
next
  case False
  then have "track_node (relaxed n E) e span cs s = track_node E e span cs s"
    using assms unfolding track_node_def relaxed_fields by simp
  then show ?thesis by simp
qed

lemma near_trimmed: "pe_max_ast_nodes E \<le> n \<Longrightarrow> near (trimmed E r mode s) (trimmed (relaxed n E) r mode s)"
  unfolding trimmed_def Let_def relaxed by (auto intro!: near_bind near_track_node)

lemma near_track_with:
  "pe_max_ast_nodes E \<le> n \<Longrightarrow> near (track_with_components E e span cs s) (track_with_components (relaxed n E) e span cs s)"
  unfolding track_with_components_def
  by (intro near_bind near_track_node) (auto split: expr.splits option.splits intro!: near_bind near_trimmed)

lemma near_track:
  assumes "pe_max_ast_nodes E \<le> n"
  shows "near (track E e span s) (track (relaxed n E) e span s)" "near (track_missing E span s) (track_missing (relaxed n E) span s)"
    "near (track_reference E sheet body span cs s) (track_reference (relaxed n E) sheet body span cs s)"
  using near_track_with [OF assms] by (auto simp: track_def track_missing_def track_reference_def intro!: near_bind)

lemma near_if: "(c \<Longrightarrow> near x y) \<Longrightarrow> (\<not> c \<Longrightarrow> near x' y') \<Longrightarrow> near (if c then x else x') (if c then y else y')"
  by simp

lemmas near_intros = near_bind near_track_with near_track near_trimmed

lemma near_qualified: "pe_max_ast_nodes E \<le> n \<Longrightarrow>
    near (parse_qualified_target E sheet start cs s) (parse_qualified_target (relaxed n E) sheet start cs s)"
  unfolding parse_qualified_target_def relaxed
  by (rule near_bind) (auto split: option.splits token.splits intro!: near_intros)

lemma near_external: "pe_max_ast_nodes E \<le> n \<Longrightarrow>
    near (parse_external E w a b c d start s) (parse_external (relaxed n E) w a b c d start s)"
  unfolding parse_external_def relaxed by (auto intro!: near_intros split: prod.splits)

lemma near_quoted_prefix: "pe_max_ast_nodes E \<le> n \<Longrightarrow>
    near (parse_quoted_prefix E name start s) (parse_quoted_prefix (relaxed n E) name start s)"
  unfolding parse_quoted_prefix_def relaxed
  by (auto intro!: near_intros near_external near_qualified split: prod.splits option.splits)

section \<open>Expressions under two limits\<close>

definition near_rec :: "'n parse_rec \<Rightarrow> 'n parse_rec \<Rightarrow> bool" where
  "near_rec p p' \<longleftrightarrow> (\<forall>bp joined s. near (p bp joined s) (p' bp joined s))"

lemma near_recD: "near_rec p p' \<Longrightarrow> near (p bp joined s) (p' bp joined s)"
  by (simp add: near_rec_def)

lemma near_call_args_loop: "pe_max_ast_nodes E \<le> n \<Longrightarrow> near_rec p p' \<Longrightarrow>
    near (call_args_loop E p fuel args s) (call_args_loop (relaxed n E) p' fuel args s)"
proof (induction fuel arbitrary: args s)
  case (Suc fuel)
  then show ?case
    unfolding call_args_loop.simps relaxed by (auto intro!: near_intros near_recD split: option.splits prod.splits)
qed simp

lemma near_call_args: "pe_max_ast_nodes E \<le> n \<Longrightarrow> near_rec p p' \<Longrightarrow>
    near (parse_call_args E p s) (parse_call_args (relaxed n E) p' s)"
  unfolding parse_call_args_def relaxed by (auto intro!: near_intros near_call_args_loop split: option.splits)

lemma near_array_loop: "pe_max_ast_nodes E \<le> n \<Longrightarrow> near_rec p p' \<Longrightarrow>
    near (array_loop E p start fuel rows current s) (array_loop (relaxed n E) p' start fuel rows current s)"
proof (induction fuel arbitrary: rows current s)
  case (Suc fuel)
  then show ?case
    using Suc.IH [OF Suc.prems] unfolding array_loop.simps relaxed near_rec_def
    by (auto intro!: near_intros split: option.splits prod.splits token.splits)
qed simp

lemma near_array: "pe_max_ast_nodes E \<le> n \<Longrightarrow> near_rec p p' \<Longrightarrow>
    near (parse_array_literal E p s) (parse_array_literal (relaxed n E) p' s)"
  unfolding parse_array_literal_def relaxed by (auto intro!: near_bind near_array_loop)

lemma near_call: "pe_max_ast_nodes E \<le> n \<Longrightarrow> near_rec p p' \<Longrightarrow>
    near (parse_call E p ident start s) (parse_call (relaxed n E) p' ident start s)"
  unfolding parse_call_def relaxed Let_def by (auto intro!: near_intros near_call_args split: prod.splits)

lemma near_ident: "pe_max_ast_nodes E \<le> n \<Longrightarrow> near_rec p p' \<Longrightarrow>
    near (parse_ident E p ident start s) (parse_ident (relaxed n E) p' ident start s)"
  unfolding parse_ident_def relaxed
  by (auto intro!: near_intros near_qualified near_call split: option.splits prod.splits)

lemma near_plain: "pe_max_ast_nodes E \<le> n \<Longrightarrow> near (parse_plain_reference E s) (parse_plain_reference (relaxed n E) s)"
  unfolding parse_plain_reference_def relaxed by (auto intro!: near_intros split: prod.splits)

lemma near_primary:
  assumes "pe_max_ast_nodes E \<le> n" "near_rec p p'"
  shows "near (parse_primary E p s) (parse_primary (relaxed n E) p' s)"
proof -
  have rec: "near (p bp joined s) (p' bp joined s)" for bp joined s by (rule near_recD [OF assms(2)])
  show ?thesis
  proof (cases "get (pe_tokens E) (pt_cursor s)")
    case (Some current)
    show ?thesis unfolding parse_primary_def relaxed Let_def Some option.case
      by (cases "st_token current"; simp only: token.case;
        intro near_if near_refl near_bind near_track near_plain near_external near_quoted_prefix near_array near_ident rec assms)
        (auto intro!: assms near_bind near_track near_track_with split: prod.splits)
  qed (simp add: parse_primary_def)
qed

lemma near_prefix:
  assumes "pe_max_ast_nodes E \<le> n" "near_rec p p'"
  shows "near (parse_prefix E p joined s) (parse_prefix (relaxed n E) p' joined s)"
proof -
  have operand: "near (p 61 joined s) (p' 61 joined s)" for s by (rule near_recD [OF assms(2)])
  have "near (pbind (skip_tokens 1) (\<lambda>_. pbind (p 61 joined) (\<lambda>(operand, span). track E (build operand) (merge span))) s)
      (pbind (skip_tokens 1) (\<lambda>_. pbind (p' 61 joined) (\<lambda>(operand, span). track (relaxed n E) (build operand) (merge span))) s)"
    for build merge by (auto intro!: near_bind operand near_track assms(1) split: prod.splits)
  then show ?thesis using near_primary [OF assms] unfolding parse_prefix_def relaxed Let_def
    by (auto split: option.splits token.splits)
qed

lemma near_reference_operator: "pe_max_ast_nodes E \<le> n \<Longrightarrow> near_rec p p' \<Longrightarrow>
    near (reference_operator E p bp joined build lhs s) (reference_operator (relaxed n E) p' bp joined build lhs s)"
  unfolding reference_operator_def relaxed Let_def near_rec_def by (auto intro!: near_intros)

lemma near_operator_step:
  assumes "pe_max_ast_nodes E \<le> n" "near_rec p p'"
  shows "near (operator_step E p min_bp joined lhs s) (operator_step (relaxed n E) p' min_bp joined lhs s)"
proof -
  have rec: "near (p bp joined s) (p' bp joined s)" for bp joined s by (rule near_recD [OF assms(2)])
  show ?thesis
    unfolding operator_step_def relaxed Let_def
    by (intro near_if near_bind near_refl near_track near_call_args near_reference_operator rec assms; clarsimp split: prod.splits)
      (auto intro!: assms near_bind near_track near_trimmed rec split: option.splits prod.splits token.splits)
qed

lemma near_operator_loop: "pe_max_ast_nodes E \<le> n \<Longrightarrow> near_rec p p' \<Longrightarrow>
    near (operator_loop E p fuel min_bp joined lhs s) (operator_loop (relaxed n E) p' fuel min_bp joined lhs s)"
proof (induction fuel arbitrary: lhs s)
  case (Suc fuel)
  then show ?case
    unfolding operator_loop.simps by (auto intro!: near_bind near_operator_step split: option.splits)
qed simp

lemma near_expr: "pe_max_ast_nodes E \<le> n \<Longrightarrow> near_rec (parse_expr E depth) (parse_expr (relaxed n E) depth)"
proof (induction depth)
  case 0
  then show ?case unfolding near_rec_def parse_expr.simps relaxed by simp
next
  case (Suc depth)
  then have "near (parse_expr_inner E (parse_expr E depth) bp joined s)
      (parse_expr_inner (relaxed n E) (parse_expr (relaxed n E) depth) bp joined s)" for bp joined s
    unfolding parse_expr_inner_def relaxed by (intro near_bind near_prefix near_operator_loop) simp_all
  then show ?case by (simp add: near_rec_def)
qed

lemma near_root:
  assumes "pe_max_ast_nodes E \<le> n"
  shows "near (parse_root E s) (parse_root (relaxed n E) s)"
proof -
  have rec: "near (parse_expr E d 0 True s) (parse_expr (relaxed n E) d 0 True s)" for d s by (rule near_recD [OF near_expr [OF assms]])
  show ?thesis unfolding parse_root_def relaxed by (rule near_bind, simp, rule near_bind [OF rec], simp)
qed

section \<open>Formulas under two limits\<close>

lemma validate_near: "n \<le> n' \<Longrightarrow> validate_loop n d span k stack = validate_loop n' d span k stack \<or>
    (\<exists>e. validate_loop n d span k stack = Some e \<and> per_limit e = Some FormulaAstNodes)"
  by (induction n d span k stack rule: validate_loop.induct) (auto simp: limit_error_def Let_def)

lemma near_res_bind: "near x y \<Longrightarrow> (\<And>a. near (f a) (g a)) \<Longrightarrow> near (res_bind x f) (res_bind y g)"
  by (cases x) (fastforce simp: near_def)+

theorem parse_limits_near:
  assumes "n \<le> n'"
  shows "near (parse_formula_with_limits H input (limits\<lparr>max_formula_ast_nodes := n\<rparr>))
    (parse_formula_with_limits H input (limits\<lparr>max_formula_ast_nodes := n'\<rparr>))"
proof (cases "utf8_len input > max_formula_source_bytes limits")
  case True
  then show ?thesis by (simp add: parse_formula_with_limits_def)
next
  case bytes: False
  show ?thesis
  proof (cases "lex_spanned (ph_std H) input (max_formula_tokens limits)")
    case (Inl e)
    then show ?thesis by (simp add: parse_formula_with_limits_def)
  next
    case (Inr lexed)
    let ?E = "\<lambda>n. formula_env H (limits\<lparr>max_formula_ast_nodes := n\<rparr>) input (lf_tokens lexed)"
    have E: "?E n' = relaxed n' (?E n)" "pe_max_ast_nodes (?E n) = n" by (simp_all add: formula_env_def Let_def)
    have root: "near (parse_root (?E n) s) (parse_root (?E n') s)" for s unfolding E(1) by (rule near_root) (use E assms in simp)
    have tokens: "pe_tokens (?E n) = pe_tokens (?E n')" "span_at (?E n) = span_at (?E n')" unfolding E(1) relaxed by (rule refl)+
    have check: "near (case validate_ast_limits n d root span of Some e \<Rightarrow> Inl (ParseFail e) | None \<Rightarrow> m)
        (case validate_ast_limits n' d root span of Some e \<Rightarrow> Inl (ParseFail e) | None \<Rightarrow> m)" for d span m and root :: "'a expr"
      using validate_near [OF assms, of d span 0 "[(root, 1)]"] unfolding validate_ast_limits_def
      by (auto simp: near_def node_limit_failure_def simp del: validate_loop.simps)
    show ?thesis
      using bytes unfolding parse_formula_with_limits_def Let_def Inr tokens
      by (auto intro!: near_res_bind root check simp: Inr tokens)
  qed
qed

end
