(* ===== verification/Rewrite_Laws.thy ===== *)
theory Rewrite_Laws
  imports Formula_Rewrite Reference_Laws Parser_Limits
begin

text \<open>
  What rewriting guarantees: it respects its budget, its result is a formula, and for structural edits and
  copies the planned edits always apply: they are stretches of the source that do not overlap, because the
  nodes of the source map are.
\<close>

section \<open>Planned edits\<close>

text \<open>Edits that apply and stay inside a span.\<close>

definition edits_inside :: "ustring \<Rightarrow> source_span \<Rightarrow> source_edit list \<Rightarrow> bool" where
  "edits_inside source span es \<longleftrightarrow> edits_ok source es \<and> (\<forall>e\<in>set es. within (se_span e) span)"

lemma edits_inside_nil [simp]: "edits_inside source span []"
  by (simp add: edits_inside_def edits_ok_def)

lemma edits_inside_one: "stretch source s \<Longrightarrow> within s span \<Longrightarrow> edits_inside source span [source_edit_new s t]"
  by (simp add: edits_inside_def edits_ok_def edit_ok_def source_edit_new_def)

lemma edits_inside_mono: "edits_inside source a es \<Longrightarrow> within a b \<Longrightarrow> edits_inside source b es"
  using within_trans by (auto simp: edits_inside_def)

lemma edits_inside_append:
  assumes "edits_inside source a es" "edits_inside source b fs" "span_end a \<le> span_start b" "within a c" "within b c"
  shows "edits_inside source c (es @ fs)"
proof -
  have "apart (se_span e) (se_span f)" if "e \<in> set es" "f \<in> set fs" for e f
    using assms(1-3) that by (fastforce simp: edits_inside_def within_def apart_def)
  then show ?thesis using assms within_trans by (auto simp: edits_inside_def edits_ok_def sorted_wrt_append)
qed

lemma edits_inside_concat:
  assumes "list_all2 (\<lambda>span es. edits_inside source span es) parts ess" "in_order parts" "\<forall>s\<in>set parts. within s c"
  shows "edits_inside source c (concat ess)"
  using assms
proof (induction parts arbitrary: ess c)
  case (Cons s parts)
  obtain es rest where ess: "ess = es # rest" "edits_inside source s es" "list_all2 (\<lambda>span es. edits_inside source span es) parts rest"
    using Cons.prems(1) by (auto simp: list_all2_Cons1)
  have order: "in_order parts" "\<And>t. t \<in> set parts \<Longrightarrow> span_end s \<le> span_start t" using Cons.prems(2) by (auto simp: in_order_def)
  show ?case
  proof (cases "parts = []")
    case True
    then show ?thesis using ess Cons.prems(3) by (auto intro: edits_inside_mono)
  next
    case False
    let ?rest = "span_new (span_end s) (span_end c)"
    have s: "within s c" using Cons.prems(3) by simp
    have "within t ?rest" if "t \<in> set parts" for t
      using Cons.prems(3) order(2) [OF that] that by (simp add: within_def)
    from Cons.IH [OF ess(3) order(1)] this have "edits_inside source ?rest (concat rest)" by blast
    moreover have "within ?rest c" using s by (simp add: within_def)
    ultimately show ?thesis using edits_inside_append [OF ess(2) _ _ s] ess(1) by simp
  qed
qed simp

section \<open>Slices\<close>

lemma stretch_slice: "stretch s span \<Longrightarrow> \<exists>m. byte_slice s (span_start span) (span_end span) = Some m"
proof -
  assume "stretch s span"
  then have b: "is_char_boundary s (span_start span)" "is_char_boundary s (span_end span)" "span_start span \<le> span_end span"
    by (simp_all add: stretch_def)
  obtain p q where p: "s = p @ q" "utf8_len p = span_start span" using boundaryE [OF b(1)] .
  obtain p' q' where p': "s = p' @ q'" "utf8_len p' = span_end span" using boundaryE [OF b(2)] .
  obtain m where "p' = p @ m" "q = m @ q'" using utf8_prefix [of p q p' q'] p p' b(3) by auto
  then show ?thesis using byte_slice_mid [of p m q'] p p' by auto
qed

lemma render_over_total: "stretch source span \<Longrightarrow> \<exists>t. render_body_over source span body = Some t"
  using stretch_slice by (force simp: render_body_over_def)

section \<open>Nodes of the source map\<close>

lemma mirrorsE:
  assumes "mirrors source e node"
  obtains "list_all2 (mirrors source) (children e) (tree_children node)" "\<forall>t\<in>set (tree_children node). within (tree_span t) (tree_span node)"
    "in_order (map tree_span (tree_children node))" "node_ok source e (tree_span node) (tree_components node)"
  using assms by (cases rule: mirrors.cases) (auto intro: that)

lemma node_stretch: "mirrors source e node \<Longrightarrow> (\<And>n. e \<noteq> XNumber n) \<Longrightarrow> stretch source (tree_span node)"
  by (erule mirrorsE) (auto simp: node_ok_def)

lemma node_within: "mirrors source e node \<Longrightarrow> within (tree_span node) (tree_span node)"
  by (erule mirrorsE) (auto simp: node_ok_def intro: within_refl)

lemma node_body:
  assumes "mirrors source e node" "has_body e" "body_span (tree_components node) = Some span"
  shows "stretch source span \<and> within span (tree_span node)"
proof -
  obtain c where "c \<in> set (tree_components node)" "sc_kind c = ReferenceBody" "sc_span c = span"
    using assms(3) by (auto simp: body_span_def find_Some_iff in_set_conv_nth)
  moreover have "parts_ok source (tree_span node) (tree_components node)"
    using assms(1,2) by (auto simp: node_ok_def bodies_ok_def elim!: mirrorsE)
  ultimately show ?thesis by (auto simp: parts_ok_def)
qed

lemma whole_node_edit:
  assumes "mirrors source e node" "\<And>n. e \<noteq> XNumber n"
  shows "edits_inside source (tree_span node) [source_edit_new (tree_span node) t]"
  by (rule edits_inside_one [OF node_stretch [OF assms] node_within [OF assms(1)]])

lemma unparenthesized_node:
  fixes e :: "'n expr"
  assumes "mirrors source e node"
  shows "\<exists>e' :: 'n expr. mirrors source e' (unparenthesized e node) \<and> within (tree_span (unparenthesized e node)) (tree_span node) \<and>
    (\<forall>r. targeted_reference lower change e = Some r \<longrightarrow> e' = XRef r)"
  using assms
proof (induction e arbitrary: node)
  case (XParen inner)
  obtain span cs trees where node: "node = NodeSpanTree span cs trees" by (cases node)
  have "list_all2 (mirrors source) [inner] trees" "\<forall>t\<in>set trees. within (tree_span t) span"
    using XParen.prems node by (auto elim: mirrorsE)
  then obtain child where child: "trees = [child]" "mirrors source inner child" "within (tree_span child) span"
    by (auto simp: list_all2_Cons1)
  from XParen.IH [OF child(2)] show ?case using node child within_trans by fastforce
qed (fastforce dest: node_within split: if_splits)+

section \<open>Structural edits\<close>

lemma outcome_total: "wf_edit edit \<Longrightarrow> \<exists>o'. outcome body edit = Some o'"
proof (cases "line_axis edit")
  case None
  assume wf: "wf_edit edit"
  then obtain source d where e: "edit = MoveRange source d" using None by (cases edit) auto
  show ?thesis
  proof (cases "body_area body")
    case area: (Some area)
    show ?thesis
    proof (cases "range_contains source area")
      case True
      have ok: "corners_ok (body_corners body)" "area = corners_area (body_corners body)" using area by (auto simp: body_area_Some)
      obtain body' where "follow_body (range_offset (MoveRange source d)) body = Some body'"
        using follow_corners [of source d body] wf e ok True by auto
      then show ?thesis using e area True by (simp add: outcome_def)
    next
      case False
      then show ?thesis using overwritten_body [of source d body area] wf e area by auto
    qed
  qed (use e in \<open>simp add: outcome_def\<close>)
qed (simp add: outcome_def)

lemma outcome_area_changed: "outcome (RefArea a b) edit = Some (Changed body) \<Longrightarrow> \<exists>c d. body = RefArea c d"
  by (cases edit)
    (auto simp: outcome_def line_outcome_def line_changed_def follow_body_def shrunk_area_def bind_eq_Some_conv Let_def
      split: option.splits if_splits prod.splits)

lemma operand_deleted_total: "wf_edit (gc_edit change) \<Longrightarrow> \<exists>d. operand_deleted change r = Some d"
  using outcome_total by (fastforce simp: operand_deleted_def split: option.splits)

text \<open>What a planner promises: it does not panic, its edits lie inside the node, and it makes none where it
descends.\<close>

definition plans_well :: "ustring \<Rightarrow> node_span_tree \<Rightarrow> (node_plan \<times> source_edit list) option \<Rightarrow> bool" where
  "plans_well source node r \<longleftrightarrow>
    (\<exists>plan es. r = Some (plan, es) \<and> edits_inside source (tree_span node) es \<and> (plan = PlanDescend \<longrightarrow> es = []))"

lemma plans_well_simps [simp]: "plans_well source node (Some (PlanDescend, []))" "plans_well source node (Some (PlanDone, []))"
  "plans_well source node (Some (PlanDone, es)) \<longleftrightarrow> edits_inside source (tree_span node) es"
  by (simp_all add: plans_well_def)

lemma plan_reference_well:
  assumes wf: "wf_edit (gc_edit change)" and m: "mirrors source (XRef r) node"
  shows "\<exists>es. plan_reference lower source r node change = Some es \<and> edits_inside source (tree_span node) es"
proof -
  obtain o' where o': "outcome (ref_body_of r) (gc_edit change) = Some o'" using outcome_total [OF wf] by blast
  have del: "edits_inside source (tree_span node) [deleted_reference node]"
    using whole_node_edit [OF m] node_body [OF m] edits_inside_one by (auto simp: deleted_reference_def split: option.splits)
  have body: "\<exists>t. render_body_over source span b = Some t \<and> edits_inside source (tree_span node) [source_edit_new span t]"
    if "body_span (tree_components node) = Some span" for span b
    using node_body [OF m _ that] render_over_total [of source span b] edits_inside_one by auto
  show ?thesis
    using o' del body by (cases o') (fastforce simp: plan_reference_def split: option.splits)+
qed

lemma plan_range_well:
  fixes start stop :: "'n expr"
  assumes wf: "wf_edit (gc_edit change)" and m: "mirrors source (XRange start stop) node" and kids: "tree_children node = [a, b]"
  shows "plans_well source node (plan_range lower source start stop node (unparenthesized start a) (unparenthesized stop b) change)"
proof -
  have ab: "mirrors source start a" "mirrors source stop b" "within (tree_span a) (tree_span node)" "within (tree_span b) (tree_span node)"
    "span_end (tree_span a) \<le> span_start (tree_span b)"
    using m kids by (auto simp: in_order_def elim!: mirrorsE)
  obtain ea :: "'n expr" where ea: "mirrors source ea (unparenthesized start a)" "within (tree_span (unparenthesized start a)) (tree_span a)"
    "\<And>r. targeted_reference lower change start = Some r \<Longrightarrow> ea = XRef r" using unparenthesized_node [OF ab(1)] by metis
  obtain eb :: "'n expr" where eb: "mirrors source eb (unparenthesized stop b)" "within (tree_span (unparenthesized stop b)) (tree_span b)"
    "\<And>r. targeted_reference lower change stop = Some r \<Longrightarrow> eb = XRef r" using unparenthesized_node [OF ab(2)] by metis
  have del: "edits_inside source (tree_span node) [deleted_node source node c]" for c
    unfolding deleted_node_def by (rule whole_node_edit [OF m]) simp
  have part: "edits_inside source (tree_span x) (replace_body (body_span (tree_components y)) t)"
    if "mirrors source (XRef r) y" "within (tree_span y) (tree_span x)" for x y t r
    using node_body [OF that(1)] within_trans [OF _ that(2)] edits_inside_one by (auto simp: replace_body_def split: option.splits)
  have cells: "plans_well source node (map_option (\<lambda>es. (PlanDone, es))
      (plan_area source first lst node (unparenthesized start a) (unparenthesized stop b) change))"
    if r: "targeted_reference lower change start = Some ra" "targeted_reference lower change stop = Some rb" for first lst ra rb
  proof -
    obtain o' where o': "outcome (RefArea first lst) (gc_edit change) = Some o'" using outcome_total [OF wf] by blast
    have two: "edits_inside source (tree_span node) (replace_body (body_span (tree_components (unparenthesized start a))) t @
        replace_body (body_span (tree_components (unparenthesized stop b))) u)" for t u
      using part [OF _ ea(2)] part [OF _ eb(2)] ea(1,3) eb(1,3) r ab(3,4)
      by (intro edits_inside_append [OF _ _ ab(5)]) auto
    show ?thesis using o' two del outcome_area_changed [of first lst "gc_edit change"]
      by (cases o') (auto simp: plan_area_def)
  qed
  obtain d1 d2 where d: "operand_deleted change (targeted_reference lower change start) = Some d1"
    "operand_deleted change (targeted_reference lower change stop) = Some d2"
    using operand_deleted_total [OF wf] by metis
  show ?thesis unfolding plan_range_def Let_def
    using cells d del by (auto split: option.splits ref_body.splits)
qed

lemma plan_operand_well:
  assumes wf: "wf_edit (gc_edit change)" and m: "mirrors source e node" "\<And>n. e \<noteq> XNumber n"
  shows "plans_well source node (plan_operand lower source operand node change)"
proof -
  obtain d where d: "operand_deleted change (targeted_reference lower change operand) = Some d" using operand_deleted_total [OF wf] by blast
  have "edits_inside source (tree_span node) [deleted_node source node c]" for c
    unfolding deleted_node_def by (rule whole_node_edit [OF m])
  then show ?thesis using d by (auto simp: plan_operand_def split: list.splits)
qed

lemma plan_grid_well:
  assumes wf: "wf_edit (gc_edit change)" and m: "mirrors source e node"
  shows "plans_well source node (plan_grid_node lower source e node change)"
proof (cases e)
  case (XRef r)
  then obtain es where "plan_reference lower source r node change = Some es" "edits_inside source (tree_span node) es"
    using plan_reference_well [OF wf, of source r node lower] m by auto
  then show ?thesis using XRef by (simp add: plan_grid_node_def)
next
  case (XRange start stop)
  then have "list_all2 (mirrors source) [start, stop] (tree_children node)" using m by (auto elim: mirrorsE)
  then obtain a b where "tree_children node = [a, b]" by (auto simp: list_all2_Cons1)
  then show ?thesis using plan_range_well [OF wf, of source start stop node a b lower] m XRange by (simp add: plan_grid_node_def)
next
  case (XSpillRef a)
  then show ?thesis using plan_operand_well [OF wf m] by (simp add: plan_grid_node_def)
next
  case (XInvoke a b)
  then show ?thesis using plan_operand_well [OF wf m] by (simp add: plan_grid_node_def)
qed (simp_all add: plan_grid_node_def)

lemma plan_copy_well:
  assumes m: "mirrors source e node"
  shows "\<exists>r. plan_copy_node source e node d = Some r \<and> (\<forall>p. r = Inr p \<longrightarrow> plans_well source node (Some p))"
proof (cases "copied_body e")
  case None
  then show ?thesis by (auto simp: plan_copy_node_def plans_well_def split: expr.splits)
next
  case (Some body)
  then have "has_body e" by (auto simp: copied_body_def split: expr.splits external_reference_target.splits)
  then have "\<exists>t. render_body_over source span b = Some t \<and> edits_inside source (tree_span node) [source_edit_new span t]"
    if "body_span (tree_components node) = Some span" for span b
    using node_body [OF m _ that] render_over_total [of source span b] edits_inside_one by auto
  then show ?thesis using Some by (fastforce simp: plan_copy_node_def split: option.splits)
qed

section \<open>The edits of a formula\<close>

text \<open>The abstract rewriter: a visit of a node gives its edits and tells whether to go on to its children.\<close>

function tree_edits ::
  "('n expr \<Rightarrow> node_span_tree \<Rightarrow> bool \<times> source_edit list) \<Rightarrow> 'n expr \<Rightarrow> node_span_tree \<Rightarrow> source_edit list" where
  "tree_edits f e node = snd (f e node) @
    (if fst (f e node) then concat (map (\<lambda>(c, t). tree_edits f c t) (zip (children e) (tree_children node))) else [])"
  by pat_completeness auto
termination by (relation "measure (\<lambda>(_, e, _). size e)") (auto dest!: set_zip_leftD subexpression_size)

declare tree_edits.simps [simp del]

definition visits_well :: "ustring \<Rightarrow> ('n expr \<Rightarrow> node_span_tree \<Rightarrow> bool \<times> source_edit list) \<Rightarrow> bool" where
  "visits_well source f \<longleftrightarrow>
    (\<forall>e node. mirrors source e node \<longrightarrow>
      edits_inside source (tree_span node) (snd (f e node)) \<and> (fst (f e node) \<longrightarrow> snd (f e node) = []))"

lemma tree_edits_inside:
  "visits_well source f \<Longrightarrow> mirrors source e node \<Longrightarrow> edits_inside source (tree_span node) (tree_edits f e node)"
proof (induction f e node rule: tree_edits.induct)
  case (1 f e node)
  have own: "edits_inside source (tree_span node) (snd (f e node))" "fst (f e node) \<Longrightarrow> snd (f e node) = []"
    using 1 by (auto simp: visits_well_def)
  show ?case
  proof (cases "fst (f e node)")
    case False
    then show ?thesis using own by (simp add: tree_edits.simps [of f e])
  next
    case True
    obtain kids: "list_all2 (mirrors source) (children e) (tree_children node)"
      "\<forall>t\<in>set (tree_children node). within (tree_span t) (tree_span node)" "in_order (map tree_span (tree_children node))"
      using "1.prems"(2) by (rule mirrorsE)
    have "list_all2 (\<lambda>span es. edits_inside source span es) (map tree_span (tree_children node))
        (map (\<lambda>(c, t). tree_edits f c t) (zip (children e) (tree_children node)))"
      using kids(1) "1.IH" [OF True _ refl "1.prems"(1)] by (fastforce simp: list_all2_conv_all_nth in_set_zip)
    from edits_inside_concat [OF this kids(3)] kids(2) show ?thesis using True own by (simp add: tree_edits.simps [of f e])
  qed
qed

section \<open>Budgeted operations\<close>

text \<open>
  Why a rewrite may stop: some poll of \<open>cancelled\<close> answered yes, a charge exceeded the limit \<open>L\<close> of its kind, or
  a text did not parse, for a reason that \<open>T\<close> allows.  A rewrite never panics and never plans edits that cannot
  be applied.
\<close>

fun limit_of :: "rewrite_limits \<Rightarrow> rewrite_limit_kind \<Rightarrow> nat" where
  "limit_of L LimitFormulas = rl_max_formulas L"
| "limit_of L LimitSourceBytes = rl_max_source_bytes L"
| "limit_of L LimitAstNodes = rl_max_ast_nodes L"
| "limit_of L LimitSourceEdits = rl_max_source_edits L"

fun stops :: "(nat \<Rightarrow> bool) \<Rightarrow> rewrite_limits \<Rightarrow> (parse_error_code \<Rightarrow> source_span \<Rightarrow> bool) \<Rightarrow> formula_rewrite_error failure \<Rightarrow> bool" where
  "stops cancelled L T Panic \<longleftrightarrow> False"
| "stops cancelled L T (Fail RewriteCancelled) \<longleftrightarrow> (\<exists>i. cancelled i)"
| "stops cancelled L T (Fail (RewriteLimitExceeded kind limit actual)) \<longleftrightarrow> limit = limit_of L kind \<and> (limit < actual \<or> u64_max \<le> limit)"
| "stops cancelled L T (Fail (RewriteParse code span owner)) \<longleftrightarrow> owner = None \<and> T code span"
| "stops cancelled L T (Fail (RewriteSourceEdit e)) \<longleftrightarrow> False"

definition yields ::
  "(nat \<Rightarrow> bool) \<Rightarrow> rewrite_limits \<Rightarrow> (parse_error_code \<Rightarrow> source_span \<Rightarrow> bool) \<Rightarrow> 'a budgeted \<Rightarrow> ('a \<Rightarrow> bool) \<Rightarrow> bool" where
  "yields cancelled L T m Q \<longleftrightarrow> (\<forall>b. rb_limits b = L \<longrightarrow> rb_limits (snd (m b)) = L \<and>
    (case fst (m b) of Inl stop \<Rightarrow> stops cancelled L T stop | Inr a \<Rightarrow> Q a))"

lemma yields_bind:
  assumes "yields cancelled L T m P" "\<And>a. P a \<Longrightarrow> yields cancelled L T (f a) Q"
  shows "yields cancelled L T (bbind m f) Q"
  unfolding yields_def
proof (intro allI impI)
  fix b :: rewrite_budget
  assume b: "rb_limits b = L"
  obtain r b' where m: "m b = (r, b')" by (cases "m b")
  have b': "rb_limits b' = L" "case r of Inl stop \<Rightarrow> stops cancelled L T stop | Inr a \<Rightarrow> P a"
    using assms(1) b m unfolding yields_def by (metis snd_conv, metis fst_conv)
  then show "rb_limits (snd (bbind m f b)) = L \<and> (case fst (bbind m f b) of Inl stop \<Rightarrow> stops cancelled L T stop | Inr a \<Rightarrow> Q a)"
    using assms(2) m by (cases r) (auto simp: bbind_def yields_def)
qed

lemma yields_weaken: "yields cancelled L T m P \<Longrightarrow> (\<And>a. P a \<Longrightarrow> Q a) \<Longrightarrow> yields cancelled L T m Q"
  by (fastforce simp: yields_def split: sum.splits)

lemma yields_return [simp]: "yields cancelled L T (breturn a) Q \<longleftrightarrow> Q a" "yields cancelled L T (bpanic (Some a)) Q \<longleftrightarrow> Q a"
proof -
  have "\<exists>b :: rewrite_budget. rb_limits b = L" by (rule exI [of _ "budget_new L 0"]) (simp add: budget_new_def)
  then show "yields cancelled L T (breturn a) Q \<longleftrightarrow> Q a" "yields cancelled L T (bpanic (Some a)) Q \<longleftrightarrow> Q a"
    by (simp_all add: yields_def breturn_def bpanic_def)
qed

lemma yields_parse_fail: "T code span \<Longrightarrow> yields cancelled L T (bfail (RewriteParse code span None)) Q"
  by (simp add: yields_def bfail_def)

lemma yields_basic: "yields cancelled L T (check_cancelled cancelled) (\<lambda>_. True)" "yields cancelled L T (charge_to kind amount) (\<lambda>_. True)"
  by (auto simp: yields_def check_cancelled_def charge_to_def charge_def Let_def split: rewrite_limit_kind.splits sum.splits if_splits)

lemma yields_charges: "yields cancelled L T (charge_formula cancelled n) (\<lambda>_. True)" "yields cancelled L T (charge_node cancelled) (\<lambda>_. True)"
  "yields cancelled L T (charge_edit cancelled) (\<lambda>_. True)"
  unfolding charge_formula_def charge_node_def charge_edit_def
  by (intro yields_bind [where P = "\<lambda>_. True"] yields_basic)+

lemma yields_charged: "yields cancelled L T (charged cancelled es) (\<lambda>r. r = es)"
proof -
  have "yields cancelled L T (charge_edits cancelled n) (\<lambda>_. True)" for n
  proof (induction n)
    case (Suc n)
    have "charge_edits cancelled (Suc n) = bbind (charge_edit cancelled) (\<lambda>_. charge_edits cancelled n)" by (rule ext) simp
    then show ?case using yields_bind [OF yields_charges(3)] Suc by metis
  qed (simp add: yields_def)
  then show ?thesis unfolding charged_def by (rule yields_bind) simp
qed

text \<open>The limits of the parser are the default ones, with fewer nodes when the budget has fewer left.\<close>

definition budget_limits :: "calculation_limits \<times> bool \<Rightarrow> bool" where
  "budget_limits p \<longleftrightarrow> (\<exists>n\<le>8192. p = (default_limits\<lparr>max_formula_ast_nodes := n\<rparr>, n < 8192))"

lemma yields_parser_limits: "yields cancelled L T (parser_limits cancelled) budget_limits"
  unfolding parser_limits_def
  by (rule yields_bind [OF yields_basic(1)]) (auto simp: yields_def Let_def default_limits_def budget_limits_def saturating_add_def)

lemma budget_parse_cases:
  assumes "budget_limits (limits, budget_limited)"
  obtains e where "parse_formula_with_limits H t limits = Inl (ParseFail e)" "ast_limited budget_limited e"
  | e where "parse_formula_with_limits H t limits = Inl (ParseFail e)" "\<not> ast_limited budget_limited e"
      "parse_formula_with_limits H t default_limits = Inl (ParseFail e)"
  | f where "parse_formula_with_limits H t limits = Inr f" "mirrors t (pf_root f) (pf_node_tree f)"
      "parse_formula_with_limits H t default_limits = Inr f"
proof -
  obtain n where n: "n \<le> 8192" "limits = default_limits\<lparr>max_formula_ast_nodes := n\<rparr>" "budget_limited \<longleftrightarrow> n < 8192"
    using assms by (auto simp: budget_limits_def)
  have default: "default_limits\<lparr>max_formula_ast_nodes := 8192\<rparr> = default_limits" by (simp add: default_limits_def)
  have near: "near (parse_formula_with_limits H t limits) (parse_formula_with_limits H t default_limits)"
    using parse_limits_near [OF n(1), of H t default_limits] unfolding default n(2) .
  have small: "max_formula_ast_nodes limits \<le> 8192" using n by simp
  show thesis
  proof (cases "parse_formula_with_limits H t limits")
    case (Inr f)
    then show thesis using that(3) near parsed_mirrors [of limits H t f] small by (simp add: near_def)
  next
    case (Inl stop)
    then obtain e where e: "stop = ParseFail e" using parse_total [of limits H t] small by (cases stop) auto
    show thesis
    proof (cases "ast_limited budget_limited e")
      case False
      have same: "parse_formula_with_limits H t limits = parse_formula_with_limits H t default_limits"
      proof (cases "n < 8192")
        case True
        then have "\<not> node_limit_failure stop" using False n(3) e by (simp add: ast_limited_def node_limit_failure_def)
        then show ?thesis using near Inl by (auto simp: near_def)
      next
        case False
        then have "limits = default_limits" using n(1,2) default by simp
        then show ?thesis by simp
      qed
      show thesis by (rule that(2) [of e, OF _ False]) (use same Inl e in auto)
    next
      case True
      show thesis by (rule that(1) [of e, OF _ True]) (use Inl e in auto)
    qed
  qed
qed

lemma yields_parse:
  assumes limits: "budget_limits (limits, budget_limited)"
    and failing: "\<And>e b. failing e b = (if ast_limited budget_limited e then bfail (parser_limit_error b) b else failed e b)"
    and failed: "\<And>e. parse_formula_with_limits H t default_limits = Inl (ParseFail e) \<Longrightarrow> yields cancelled L T (failed e) Q"
    and parsed: "\<And>f. parse_formula_with_limits H t default_limits = Inr f \<Longrightarrow> mirrors t (pf_root f) (pf_node_tree f) \<Longrightarrow>
      yields cancelled L T (parsed f) Q"
  shows "yields cancelled L T (\<lambda>b. case parse_formula_with_limits H t limits of
      Inl (ParseFail e) \<Rightarrow> failing e b | Inl _ \<Rightarrow> bpanic None b | Inr f \<Rightarrow> parsed f b) Q"
proof (rule budget_parse_cases [OF limits, of H t])
  fix e assume "parse_formula_with_limits H t limits = Inl (ParseFail e)" "ast_limited budget_limited e"
  then show ?thesis by (auto simp: yields_def failing bfail_def parser_limit_error_def saturating_add_def)
next
  fix e assume "parse_formula_with_limits H t limits = Inl (ParseFail e)" "\<not> ast_limited budget_limited e"
    "parse_formula_with_limits H t default_limits = Inl (ParseFail e)"
  then show ?thesis using failed [of e] by (simp add: failing)
next
  fix f assume "parse_formula_with_limits H t limits = Inr f" "mirrors t (pf_root f) (pf_node_tree f)"
    "parse_formula_with_limits H t default_limits = Inr f"
  then show ?thesis using parsed [of f] by simp
qed

section \<open>The loop\<close>

text \<open>Whether the walk meets a node that \<open>off\<close> tells to end it.\<close>

function tree_stops ::
  "('n expr \<Rightarrow> node_span_tree \<Rightarrow> bool) \<Rightarrow> ('n expr \<Rightarrow> node_span_tree \<Rightarrow> bool \<times> source_edit list) \<Rightarrow> 'n expr \<Rightarrow> node_span_tree \<Rightarrow> bool" where
  "tree_stops off f e node \<longleftrightarrow> off e node \<or>
    (fst (f e node) \<and> list_ex (\<lambda>(c, t). tree_stops off f c t) (zip (children e) (tree_children node)))"
  by pat_completeness auto
termination by (relation "measure (\<lambda>(_, _, e, _). size e)") (auto dest!: set_zip_leftD subexpression_size)

declare tree_stops.simps [simp del]

text \<open>A visit of the program that does what \<open>off\<close> and \<open>f\<close> say.\<close>

definition visits ::
  "(nat \<Rightarrow> bool) \<Rightarrow> rewrite_limits \<Rightarrow> (parse_error_code \<Rightarrow> source_span \<Rightarrow> bool) \<Rightarrow> visit budgeted \<Rightarrow> bool \<Rightarrow> bool \<times> source_edit list \<Rightarrow> bool" where
  "visits cancelled L T m off p \<longleftrightarrow> yields cancelled L T m (\<lambda>r. r = (if off then VisitReturn DELETED_REFERENCE else VisitNode (fst p) (snd p)))"

lemma rewrite_loop_edits:
  assumes f: "\<And>e node. mirrors source e node \<Longrightarrow> visits cancelled L T (visit_node R cancelled source request e node) (off e node) (f e node)"
  shows "list_all (\<lambda>(e, node). mirrors source e node) stack \<Longrightarrow>
    visits cancelled L T (rewrite_loop R cancelled source request stack planned) (list_ex (\<lambda>(e, node). tree_stops off f e node) stack)
      (False, planned @ concat (map (\<lambda>(e, node). tree_edits f e node) stack))"
proof (induction "stack_nodes stack" arbitrary: stack planned rule: less_induct)
  case less
  show ?case
  proof (cases stack)
    case Nil
    then show ?thesis by (simp add: visits_def yields_def)
  next
    case (Cons x rest)
    obtain e node where x: "x = (e, node)" by (cases x)
    have m: "mirrors source e node" "list_all (\<lambda>(e, node). mirrors source e node) rest" using less.prems Cons x by auto
    let ?next = "if fst (f e node) then push_children e node rest else rest"
    have "list_all (\<lambda>(e, node). mirrors source e node) (push_children e node rest)"
      using m by (auto simp: push_children_def list_all_iff list_all2_conv_all_nth in_set_zip elim!: mirrorsE)
    then have next_ok: "list_all (\<lambda>(e, node). mirrors source e node) ?next" using m(2) by simp
    have smaller: "stack_nodes ?next < stack_nodes stack" unfolding Cons x by (simp add: push_children_less)
    have step: "rewrite_loop R cancelled source request stack planned =
        bbind (visit_node R cancelled source request e node) (\<lambda>r. case r of
          VisitReturn t \<Rightarrow> breturn (VisitReturn t)
        | VisitNode d new \<Rightarrow> rewrite_loop R cancelled source request (if d then push_children e node rest else rest) (planned @ new))"
      unfolding Cons x by (rule ext) (auto simp: bbind_def breturn_def split: prod.splits sum.splits visit.splits)
    have walk: "concat (map (\<lambda>(e, node). tree_edits f e node) stack) =
          snd (f e node) @ concat (map (\<lambda>(e, node). tree_edits f e node) ?next)"
        "list_ex (\<lambda>(e, node). tree_stops off f e node) stack \<longleftrightarrow>
          off e node \<or> list_ex (\<lambda>(e, node). tree_stops off f e node) ?next"
      unfolding Cons x by (auto simp: tree_edits.simps [of f e] tree_stops.simps [of off f e] push_children_def)
    show ?thesis unfolding step visits_def
      by (rule yields_bind [OF f [OF m(1), unfolded visits_def]]) (cases "off e node"; use less.hyps [OF smaller next_ok, of "planned @ snd (f e node)"] walk in
        \<open>simp add: visits_def cong: if_cong split del: if_split\<close>)
  qed
qed

lemma visits_formula:
  assumes "\<And>e node. mirrors source e node \<Longrightarrow> visits cancelled L T (visit_node R cancelled source request e node) (off e node) (f e node)"
    "mirrors source root tree"
  shows "visits cancelled L T (rewrite_loop R cancelled source request [(root, tree)] []) (tree_stops off f root tree) (False, tree_edits f root tree)"
  using rewrite_loop_edits [OF assms(1), where stack = "[(root, tree)]" and planned = "[]"] assms(2) by simp

section \<open>The rewritten formula\<close>

definition parses :: "'n rewrite_host \<Rightarrow> ustring \<Rightarrow> bool" where
  "parses R t \<longleftrightarrow> (\<exists>f. parse_formula_with_limits (rh_parse R) t default_limits = Inr f)"

text \<open>The text \<open>t\<close> does not parse, for the reason given.\<close>

definition unparsed :: "'n rewrite_host \<Rightarrow> ustring \<Rightarrow> parse_error_code \<Rightarrow> source_span \<Rightarrow> bool" where
  "unparsed R t code span \<longleftrightarrow>
    (\<exists>e. parse_formula_with_limits (rh_parse R) t default_limits = Inl (ParseFail e) \<and> code = per_code e \<and> span = per_span e)"

lemma yields_charge_loop: "yields cancelled L T (charge_loop cancelled stack) (\<lambda>_. True)"
proof (induction "stack_nodes stack" arbitrary: stack rule: less_induct)
  case less
  show ?case
  proof (cases stack)
    case (Cons x rest)
    obtain e node where x: "x = (e, node)" by (cases x)
    have step: "charge_loop cancelled stack = bbind (charge_node cancelled) (\<lambda>_. charge_loop cancelled (push_children e node rest))"
      unfolding Cons x by (rule ext) (auto simp: bbind_def split: prod.splits sum.splits)
    show ?thesis unfolding step
      by (rule yields_bind [OF yields_charges(2)]) (use less.hyps push_children_less(1) Cons x in blast)
  qed (simp add: yields_def)
qed

lemma yields_validate:
  assumes "\<And>code span. unparsed R t code span \<Longrightarrow> T code span"
  shows "yields cancelled L T (validate_rewritten R cancelled t) (\<lambda>r. r = Some t \<and> parses R t)"
  unfolding validate_rewritten_def
proof (rule yields_bind [OF yields_parser_limits], clarify)
  fix limits budget_limited assume "budget_limits (limits, budget_limited)"
  then show "yields cancelled L T (\<lambda>b. case parse_formula_with_limits (rh_parse R) t limits of
      Inl (ParseFail e) \<Rightarrow> bfail (if ast_limited budget_limited e then parser_limit_error b else RewriteParse (per_code e) (per_span e) None) b
    | Inl _ \<Rightarrow> bpanic None b
    | Inr reparsed \<Rightarrow> bbind (charge_parsed_tree cancelled reparsed) (\<lambda>_. breturn (Some t)) b) (\<lambda>r. r = Some t \<and> parses R t)"
  proof (rule yields_parse [where failed = "\<lambda>e. bfail (RewriteParse (per_code e) (per_span e) None)"])
    fix e assume "parse_formula_with_limits (rh_parse R) t default_limits = Inl (ParseFail e)"
    then show "yields cancelled L T (bfail (RewriteParse (per_code e) (per_span e) None)) (\<lambda>r. r = Some t \<and> parses R t)"
      by (intro yields_parse_fail assms) (auto simp: unparsed_def)
  next
    fix f assume "parse_formula_with_limits (rh_parse R) t default_limits = Inr f"
    then show "yields cancelled L T (bbind (charge_parsed_tree cancelled f) (\<lambda>_. breturn (Some t))) (\<lambda>r. r = Some t \<and> parses R t)"
      unfolding charge_parsed_tree_def by (intro yields_bind [OF yields_charge_loop]) (auto simp: parses_def)
  qed simp
qed

text \<open>What a rewriter that plans the edits \<open>es\<close> returns.\<close>

definition rewritten_by :: "'n rewrite_host \<Rightarrow> ustring \<Rightarrow> source_edit list \<Rightarrow> ustring option \<Rightarrow> bool" where
  "rewritten_by R source es r =
    (case r of None \<Rightarrow> replaces source es source | Some t \<Rightarrow> replaces source es t \<and> t \<noteq> source \<and> parses R t)"

lemma replaces_nil: "replaces source [] source"
  unfolding replaces_def by (intro exI [of _ "[]"] exI [of _ source]) simp

lemma yields_finish:
  assumes "edits_ok source es" "\<And>t code span. replaces source es t \<Longrightarrow> unparsed R t code span \<Longrightarrow> T code span"
  shows "yields cancelled L T (finish_rewrite R cancelled source es) (rewritten_by R source es)"
proof (cases "es = []")
  case True
  then show ?thesis by (simp add: finish_rewrite_def rewritten_by_def replaces_nil)
next
  case False
  obtain t where t: "apply_source_edits source es = Inr t" "replaces source es t" using apply_edits_ok [OF assms(1)] by blast
  show ?thesis
  proof (cases "t = source")
    case True
    then show ?thesis using False t by (simp add: finish_rewrite_def rewritten_by_def)
  next
    case changed: False
    have "yields cancelled L T (validate_rewritten R cancelled t) (rewritten_by R source es)"
      by (rule yields_weaken [OF yields_validate [OF assms(2) [OF t(2)]]]) (use t changed in \<open>auto simp: rewritten_by_def\<close>)
    then show ?thesis using False t changed by (simp add: finish_rewrite_def)
  qed
qed

section \<open>Structural edits and copies\<close>

text \<open>The requests that change the cells a reference names, not the names it uses.\<close>

fun on_cells :: "rewrite_request \<Rightarrow> bool" where
  "on_cells (RequestGrid change) \<longleftrightarrow> wf_edit (gc_edit change)"
| "on_cells (RequestCopy d) \<longleftrightarrow> True"
| "on_cells request \<longleftrightarrow> False"

fun cells_visit :: "'n rewrite_host \<Rightarrow> ustring \<Rightarrow> rewrite_request \<Rightarrow> 'n expr \<Rightarrow> node_span_tree \<Rightarrow> bool \<times> source_edit list" where
  "cells_visit R source (RequestGrid change) e node =
    (case plan_grid_node (rh_lower R) source e node change of Some (plan, es) \<Rightarrow> (plan = PlanDescend, es) | None \<Rightarrow> (False, []))"
| "cells_visit R source (RequestCopy d) e node =
    (case plan_copy_node source e node d of Some (Inr (plan, es)) \<Rightarrow> (plan = PlanDescend, es) | _ \<Rightarrow> (False, []))"
| "cells_visit R source request e node = (True, [])"

fun falls_off :: "ustring \<Rightarrow> rewrite_request \<Rightarrow> 'n expr \<Rightarrow> node_span_tree \<Rightarrow> bool" where
  "falls_off source (RequestCopy d) e node \<longleftrightarrow> plan_copy_node source e node d = Some (Inl OffGrid)"
| "falls_off source request e node \<longleftrightarrow> False"

lemma cells_visits_well: "on_cells request \<Longrightarrow> visits_well source (cells_visit R source request)"
proof (cases request)
  case (RequestGrid change)
  assume "on_cells request"
  then have "wf_edit (gc_edit change)" using RequestGrid by simp
  then have "plans_well source node (plan_grid_node (rh_lower R) source e node change)" if "mirrors source e node" for e :: "'a expr" and node
    using plan_grid_well that by blast
  then show ?thesis unfolding visits_well_def RequestGrid
    by (fastforce simp: plans_well_def)
next
  case (RequestCopy d)
  then show ?thesis using plan_copy_well [of source _ _ d]
    by (fastforce simp: visits_well_def plans_well_def split: sum.splits)
qed simp_all

lemma visits_charged: "visits cancelled L T (bbind (charged cancelled es) (\<lambda>es. breturn (VisitNode d es))) False (d, es)"
  unfolding visits_def by (rule yields_bind [OF yields_charged]) simp

lemma visits_cells:
  assumes "on_cells request" "mirrors source e node"
  shows "visits cancelled L T (visit_node R cancelled source request e node) (falls_off source request e node) (cells_visit R source request e node)"
proof (cases request)
  case (RequestGrid change)
  then obtain plan es where p: "plan_grid_node (rh_lower R) source e node change = Some (plan, es)"
    using plan_grid_well [of change source e node "rh_lower R"] assms by (auto simp: plans_well_def)
  have "visit_grid R cancelled source change e node =
      bbind (charged cancelled es) (\<lambda>es. breturn (VisitNode (plan = PlanDescend) es))"
    by (rule ext) (simp add: visit_grid_def p bbind_def bpanic_def)
  then show ?thesis using RequestGrid p visits_charged unfolding visits_def visit_node_def
    by (intro yields_bind [OF yields_charges(2)]) simp
next
  case (RequestCopy d)
  then obtain r where r: "plan_copy_node source e node d = Some r" using plan_copy_well assms(2) by blast
  show ?thesis
  proof (cases r)
    case (Inl off)
    have "yields cancelled L T (bbind (charge_edit cancelled) (\<lambda>_. breturn (VisitReturn DELETED_REFERENCE))) (\<lambda>r. r = VisitReturn DELETED_REFERENCE)"
      by (rule yields_bind [OF yields_charges(3)]) simp
    moreover have "visit_copy cancelled source d e node = bbind (charge_edit cancelled) (\<lambda>_. breturn (VisitReturn DELETED_REFERENCE))"
      by (rule ext) (cases off, simp add: visit_copy_def r Inl bbind_def bpanic_def)
    ultimately show ?thesis using RequestCopy r Inl unfolding visits_def visit_node_def
      by (intro yields_bind [OF yields_charges(2)]) (cases off, simp)
  next
    case (Inr p)
    obtain plan es where p: "p = (plan, es)" by (cases p)
    have "visit_copy cancelled source d e node = bbind (charged cancelled es) (\<lambda>es. breturn (VisitNode (plan = PlanDescend) es))"
      by (rule ext) (simp add: visit_copy_def r Inr p bbind_def bpanic_def)
    then show ?thesis using RequestCopy r Inr p visits_charged unfolding visits_def visit_node_def
      by (intro yields_bind [OF yields_charges(2)]) simp
  qed
qed (use assms in simp_all)

lemma any_of_total: "(\<And>x. \<exists>r. f x = Some r) \<Longrightarrow> \<exists>r. any_of f xs = Some r"
proof (induction xs)
  case (Cons x xs)
  obtain r where "f x = Some r" using Cons.prems by blast
  then show ?case using Cons by auto
qed auto

lemma tokens_target_total: "on_cells request \<Longrightarrow> \<exists>r. tokens_target R request tokens = Some r"
proof (cases request)
  case (RequestGrid change)
  have "\<exists>r. any_qualifier (\<lambda>name. Some (P name)) tokens = Some r" for P
    unfolding any_qualifier_def by (rule any_of_total) (auto split: option.splits token.splits)
  then show ?thesis using RequestGrid by (auto simp: tokens_target_def or_else_def)
qed (auto simp: tokens_target_def)

text \<open>Whether the tokens of a text that does not parse may name the changed cells.\<close>

definition may_name :: "'n rewrite_host \<Rightarrow> ustring \<Rightarrow> rewrite_request \<Rightarrow> bool" where
  "may_name R source request \<longleftrightarrow> utf8_len source > max_formula_source_bytes default_limits \<or>
    (case lex_spanned (ph_std (rh_parse R)) source (max_formula_tokens default_limits) of
      Inl _ \<Rightarrow> True
    | Inr lexed \<Rightarrow> tokens_target R request (lf_tokens lexed) = Some True)"

lemma yields_may_reference:
  assumes "on_cells request"
  shows "yields cancelled L T (formula_may_reference_target R cancelled source request) (\<lambda>may. may = may_name R source request)"
proof -
  have "yields cancelled L T (bbind (bpanic (tokens_target R request ts)) (\<lambda>result. bbind (check_cancelled cancelled) (\<lambda>_. breturn result)))
      (\<lambda>may. may = (tokens_target R request ts = Some True))" for ts
  proof -
    obtain r where r: "tokens_target R request ts = Some r" using tokens_target_total [OF assms] by blast
    show ?thesis unfolding r
      by (rule yields_bind [where P = "\<lambda>a. a = r"]) (simp, rule yields_bind [OF yields_basic(1)], simp)
  qed
  then show ?thesis unfolding formula_may_reference_target_def may_name_def
    by (intro yields_bind [OF yields_basic(1)]) (auto dest: lex_never_panics split: sum.splits failure.splits)
qed

text \<open>The result of a rewrite of the parsed formula \<open>f\<close>.\<close>

definition cells_rewritten :: "'n rewrite_host \<Rightarrow> ustring \<Rightarrow> rewrite_request \<Rightarrow> 'n parsed_formula \<Rightarrow> ustring option \<Rightarrow> bool" where
  "cells_rewritten R source request f r =
    (if tree_stops (falls_off source request) (cells_visit R source request) (pf_root f) (pf_node_tree f)
     then r = Some DELETED_REFERENCE
     else rewritten_by R source (tree_edits (cells_visit R source request) (pf_root f) (pf_node_tree f)) r)"

lemma yields_rewrite_parsed:
  assumes "on_cells request" "mirrors source (pf_root f) (pf_node_tree f)"
    and T: "\<And>t code span. replaces source (tree_edits (cells_visit R source request) (pf_root f) (pf_node_tree f)) t \<Longrightarrow>
      unparsed R t code span \<Longrightarrow> T code span"
  shows "yields cancelled L T (bbind (rewrite_loop R cancelled source request [(pf_root f, pf_node_tree f)] []) (\<lambda>r.
      case r of VisitReturn t \<Rightarrow> breturn (Some t) | VisitNode _ planned \<Rightarrow> finish_rewrite R cancelled source planned))
    (cells_rewritten R source request f)"
proof (rule yields_bind [OF visits_formula [OF visits_cells [OF assms(1)] assms(2), unfolded visits_def]])
  have ok: "edits_ok source (tree_edits (cells_visit R source request) (pf_root f) (pf_node_tree f))"
    using tree_edits_inside [OF cells_visits_well [OF assms(1)] assms(2)] by (simp add: edits_inside_def)
  fix r assume r: "r = (if tree_stops (falls_off source request) (cells_visit R source request) (pf_root f) (pf_node_tree f)
      then VisitReturn DELETED_REFERENCE
      else VisitNode (fst (False, tree_edits (cells_visit R source request) (pf_root f) (pf_node_tree f)))
        (snd (False, tree_edits (cells_visit R source request) (pf_root f) (pf_node_tree f))))"
  then show "yields cancelled L T (case r of VisitReturn t \<Rightarrow> breturn (Some t) | VisitNode _ planned \<Rightarrow> finish_rewrite R cancelled source planned)
      (cells_rewritten R source request f)"
  proof (cases "tree_stops (falls_off source request) (cells_visit R source request) (pf_root f) (pf_node_tree f)")
    case False
    then have "cells_rewritten R source request f = rewritten_by R source (tree_edits (cells_visit R source request) (pf_root f) (pf_node_tree f))"
      by (intro ext) (simp add: cells_rewritten_def)
    then show ?thesis using r False yields_finish [OF ok T] by simp
  qed (use r in \<open>simp add: cells_rewritten_def\<close>)
qed

text \<open>
  The result of a rewrite.  A formula that does not parse is left alone when its tokens do not mention the
  changed cells; for one that parses the planned edits are made.
\<close>

definition cells_result :: "'n rewrite_host \<Rightarrow> ustring \<Rightarrow> rewrite_request \<Rightarrow> ustring option \<Rightarrow> bool" where
  "cells_result R source request r =
    (case parse_formula_with_limits (rh_parse R) source default_limits of
      Inl _ \<Rightarrow> r = None \<and> \<not> may_name R source request
    | Inr f \<Rightarrow> cells_rewritten R source request f r)"

text \<open>The reason why a rewrite refuses a formula: the formula does not parse and may name the changed cells, or
it parses and the text with the planned edits made does not.\<close>

definition cells_refused :: "'n rewrite_host \<Rightarrow> ustring \<Rightarrow> rewrite_request \<Rightarrow> parse_error_code \<Rightarrow> source_span \<Rightarrow> bool" where
  "cells_refused R source request code span =
    (case parse_formula_with_limits (rh_parse R) source default_limits of
      Inl _ \<Rightarrow> unparsed R source code span \<and> may_name R source request
    | Inr f \<Rightarrow> \<exists>t. replaces source (tree_edits (cells_visit R source request) (pf_root f) (pf_node_tree f)) t \<and> unparsed R t code span)"

lemma yields_rewrite_cells:
  assumes "on_cells request" and T: "\<And>code span. cells_refused R source request code span \<Longrightarrow> T code span"
  shows "yields cancelled L T (rewrite_formula R cancelled source request) (cells_result R source request)"
  unfolding rewrite_formula_def
proof (rule yields_bind [OF yields_charges(1)], rule yields_bind [OF yields_parser_limits], clarify)
  fix limits budget_limited
  let ?Q = "cells_result R source request"
  let ?failed = "\<lambda>e. bbind (formula_may_reference_target R cancelled source request) (\<lambda>may.
      if may then bfail (RewriteParse (per_code e) (per_span e) None) else breturn None)"
  assume "budget_limits (limits, budget_limited)"
  then show "yields cancelled L T (\<lambda>b.
      case parse_formula_with_limits (rh_parse R) source limits of
        Inl (ParseFail e) \<Rightarrow> if ast_limited budget_limited e then bfail (parser_limit_error b) b else ?failed e b
      | Inl _ \<Rightarrow> bpanic None b
      | Inr parsed \<Rightarrow>
          bbind (rewrite_loop R cancelled source request [(pf_root parsed, pf_node_tree parsed)] []) (\<lambda>r.
            case r of VisitReturn t \<Rightarrow> breturn (Some t) | VisitNode _ planned \<Rightarrow> finish_rewrite R cancelled source planned) b) ?Q"
  proof (rule yields_parse [where failed = ?failed])
    fix e assume e: "parse_formula_with_limits (rh_parse R) source default_limits = Inl (ParseFail e)"
    show "yields cancelled L T (?failed e) ?Q"
      by (rule yields_bind [OF yields_may_reference [OF assms(1)]])
        (auto simp: cells_result_def cells_refused_def unparsed_def e intro!: yields_parse_fail T)
  next
    fix f assume f: "parse_formula_with_limits (rh_parse R) source default_limits = Inr f" "mirrors source (pf_root f) (pf_node_tree f)"
    have "?Q r" if "cells_rewritten R source request f r" for r using f(1) that by (simp add: cells_result_def)
    moreover have "T code span" if "replaces source (tree_edits (cells_visit R source request) (pf_root f) (pf_node_tree f)) t"
      "unparsed R t code span" for t code span using that f(1) by (intro T) (auto simp: cells_refused_def)
    ultimately show "yields cancelled L T (bbind (rewrite_loop R cancelled source request [(pf_root f, pf_node_tree f)] []) (\<lambda>r.
        case r of VisitReturn t \<Rightarrow> breturn (Some t) | VisitNode _ planned \<Rightarrow> finish_rewrite R cancelled source planned)) ?Q"
      using yields_weaken [OF yields_rewrite_parsed [OF assms(1) f(2), of R T cancelled L]] by blast
  qed simp
qed

section \<open>The budget of a rewrite\<close>

lemma keeps_apply: "keeps_limits m \<Longrightarrow> later b (snd (m b))"
  by (simp add: keeps_limits_def)

lemma keeps_plan_sheet_prefix [simp]: "keeps_limits (plan_sheet_prefix_edits R cancelled source prefix components request)"
  unfolding plan_sheet_prefix_edits_def
  by (auto intro!: keeps_bind split: option.splits sheet_outcome.splits span_outcome.splits)

lemma keeps_plan_column [simp]: "keeps_limits (plan_column_edits R cancelled r components old_name new_name)"
  unfolding plan_column_edits_def Let_def by (auto intro!: keeps_bind split: option.splits structured_columns.splits)

lemma keeps_plan_name [simp]: "keeps_limits (plan_name_edit R cancelled source e node rename)"
  unfolding plan_name_edit_def Let_def by (auto intro!: keeps_bind split: option.splits expr.splits)

lemma keeps_replace_node [simp]: "keeps_limits (replace_node cancelled node replacement)"
  unfolding replace_node_def by (auto intro!: keeps_bind)

lemma keeps_cells [simp]: "keeps_limits (visit_grid R cancelled source change e node)" "keeps_limits (visit_copy cancelled source d e node)"
  unfolding visit_grid_def visit_copy_def by (auto intro!: keeps_bind split: sum.splits off_grid.splits)

lemma keeps_inner [simp]: "keeps_limits (inner_edits R cancelled source request e node)"
  unfolding inner_edits_def by (auto split: option.splits expr.splits rewrite_request.splits)

lemma keeps_names [simp]: "keeps_limits (visit_qualified_error R cancelled source request prefix node)"
  "keeps_limits (visit_rename R cancelled source request e node)"
  unfolding visit_qualified_error_def visit_rename_def
  by (auto intro!: keeps_bind split: option.splits rewrite_request.splits)

lemma keeps_visit [simp]: "keeps_limits (visit_node R cancelled source request e node)"
  unfolding visit_node_def by (rule keeps_bind) (auto split: option.splits rewrite_request.splits)

lemma keeps_rewrite_loop [simp]: "keeps_limits (rewrite_loop R cancelled source request stack planned)"
proof -
  have "later b (snd (rewrite_loop R cancelled source request stack planned b))" for b
  proof (induction R cancelled source request stack planned b rule: rewrite_loop.induct)
    case (2 R cancelled source request e node stack planned b)
    have "later b (snd (visit_node R cancelled source request e node b))" by (rule keeps_apply) simp
    then show ?case using 2 later_trans by (fastforce split: prod.splits sum.splits visit.splits)
  qed simp
  then show ?thesis by (simp add: keeps_limits_def)
qed

lemma keeps_charge_loop [simp]: "keeps_limits (charge_loop cancelled stack)"
proof -
  have "later b (snd (charge_loop cancelled stack b))" for b
  proof (induction cancelled stack b rule: charge_loop.induct)
    case (2 cancelled e node stack b)
    have "later b (snd (charge_node cancelled b))" by (rule keeps_apply) simp
    then show ?case using 2 later_trans by (fastforce split: prod.splits sum.splits)
  qed simp
  then show ?thesis by (simp add: keeps_limits_def)
qed

lemma keeps_case_parse:
  assumes "\<And>e b. later b (snd (failed e b))" "\<And>f. keeps_limits (done f)"
  shows "keeps_limits (\<lambda>b. case p of Inl (ParseFail e) \<Rightarrow> failed e b | Inl _ \<Rightarrow> bpanic None b | Inr f \<Rightarrow> done f b)"
proof (cases p)
  case (Inl stop)
  then show ?thesis using assms(1) by (cases stop) (simp_all add: keeps_limits_def bpanic_def)
next
  case (Inr f)
  then show ?thesis using assms(2) [of f] by (simp add: keeps_limits_def)
qed

lemma keeps_may_reference [simp]: "keeps_limits (formula_may_reference_target R cancelled source request)"
  unfolding formula_may_reference_target_def
  by (auto intro!: keeps_bind split: sum.splits failure.splits)

lemma keeps_finish [simp]: "keeps_limits (finish_rewrite R cancelled source planned)"
proof -
  have "keeps_limits (validate_rewritten R cancelled t)" for t
    unfolding validate_rewritten_def charge_parsed_tree_def case_prod_beta
    by (intro keeps_bind keeps_case_parse keeps_apply) simp_all
  then show ?thesis unfolding finish_rewrite_def by (auto split: sum.splits failure.splits)
qed

lemma keeps_rewrite_formula: "keeps_limits (rewrite_formula R cancelled source request)"
proof -
  have failed: "later b (snd (if limited then bfail x b else bbind m k b))" if "keeps_limits (bbind m k)" for b limited x m k
    using keeps_apply [OF that] by (simp add: bfail_def)
  have visited: "keeps_limits (case r of VisitReturn t \<Rightarrow> breturn (Some t) | VisitNode _ planned \<Rightarrow> finish_rewrite R cancelled source planned)" for r
    by (cases r) simp_all
  show ?thesis unfolding rewrite_formula_def case_prod_beta
    by (intro keeps_bind keeps_case_parse failed visited) simp_all
qed

section \<open>Main results\<close>

text \<open>C10: Rewriting a formula for a structural edit of the grid or for a copy gives exactly the source with the
planned edits of its nodes made.  A formula that parses comes back with every planned edit of every visited node
made and nothing else changed, as a text that parses again and differs from the source; no text is returned only
when the planned edits leave the source as it is; and a copy that moves a reference off the grid gives the deleted
reference.  A formula that does not parse is left alone only when none of its tokens may name the changed cells.
The rewrite never panics, never plans edits that cannot be applied, and stops early only because a poll asked it
to, because a limit of the budget was exceeded, or because the formula or its edited text does not parse.\<close>

theorem cells_rewrite_exact:
  assumes "on_cells request"
  shows "case fst (rewrite_formula R cancelled source request b) of
      Inl stop \<Rightarrow> stops cancelled (rb_limits b) (cells_refused R source request) stop
    | Inr r \<Rightarrow> cells_result R source request r"
  using yields_rewrite_cells [OF assms, of R source "cells_refused R source request" cancelled "rb_limits b"] unfolding yields_def by blast

text \<open>C12: Rewriting a formula keeps the limits of its budget: whatever the request and the outcome, the work
that has been charged stays within them.\<close>

theorem rewrite_within_budget: "later b (snd (rewrite_formula R cancelled source request b))"
  by (rule keeps_apply [OF keeps_rewrite_formula])

definition plain_rewrite_host :: "nat rewrite_host" where
  "plain_rewrite_host = \<lparr>rh_parse = plain_host, rh_lower = (\<lambda>c. [c]), rh_function_evaluator = (\<lambda>_. False)\<rparr>"

theorem cells_rewrite_exact_witness:
  "case fst (rewrite_formula plain_rewrite_host (\<lambda>_. False) (ascii ''A1:B2'')
      (RequestGrid \<lparr>gc_sheet = ascii ''Data'', gc_host_is_sheet = True, gc_edit = Insert Rows 1 1\<rparr>) (budget_new UNBOUNDED 0)) of
      Inl stop \<Rightarrow> stops (\<lambda>_. False) (rb_limits (budget_new UNBOUNDED 0)) (cells_refused plain_rewrite_host (ascii ''A1:B2'')
        (RequestGrid \<lparr>gc_sheet = ascii ''Data'', gc_host_is_sheet = True, gc_edit = Insert Rows 1 1\<rparr>)) stop
    | Inr r \<Rightarrow> cells_result plain_rewrite_host (ascii ''A1:B2'')
        (RequestGrid \<lparr>gc_sheet = ascii ''Data'', gc_host_is_sheet = True, gc_edit = Insert Rows 1 1\<rparr>) r"
  by (rule cells_rewrite_exact) (simp add: excel_max)

end
