(* ===== verification/Anchored.thy ===== *)
theory Anchored
  imports Rewrite_Laws Grid_Laws
begin

text \<open>
  The rest of \<open>calculation/grid_rewrite.rs\<close>: conditional formats and data validations, whose formulas read
  relative to the first cell of their ranges, through a structural edit of their sheet, and the test for spill
  references.
\<close>

section \<open>Definitions\<close>

record anchored_formulas =
  af_ranges :: "cell_range list"
  af_formulas :: "ustring option list"

definition offset_between :: "cell_address \<Rightarrow> cell_address \<Rightarrow> copy_offset" where
  "offset_between from to = \<lparr>co_rows = int (addr_row to) - int (addr_row from),
    co_columns = int (addr_column to) - int (addr_column from)\<rparr>"

definition rebased_formula ::
  "'n rewrite_host \<Rightarrow> (nat \<Rightarrow> bool) \<Rightarrow> copy_offset option \<Rightarrow> rewrite_request \<Rightarrow> ustring \<Rightarrow> ustring option budgeted" where
  "rebased_formula R cancelled rebase request formula =
    bbind (case rebase of
        Some offset \<Rightarrow> rewrite_formula R cancelled formula (RequestCopy offset)
      | None \<Rightarrow> breturn None) (\<lambda>shifted.
    bbind (rewrite_formula R cancelled (case shifted of Some t \<Rightarrow> t | None \<Rightarrow> formula) request) (\<lambda>moved.
      breturn (case moved of Some t \<Rightarrow> Some t | None \<Rightarrow> shifted)))"

primrec rebased_and_moved ::
  "'n rewrite_host \<Rightarrow> (nat \<Rightarrow> bool) \<Rightarrow> ustring list \<Rightarrow> copy_offset option \<Rightarrow> rewrite_request \<Rightarrow> ustring option list budgeted" where
  "rebased_and_moved R cancelled [] rebase request = breturn []"
| "rebased_and_moved R cancelled (formula # formulas) rebase request =
    bbind (rebased_formula R cancelled rebase request formula) (\<lambda>t.
    bbind (rebased_and_moved R cancelled formulas rebase request) (\<lambda>rest. breturn (t # rest)))"

definition subtract_pieces :: "cell_range list \<Rightarrow> cell_range list \<Rightarrow> cell_range list" where
  "subtract_pieces pieces removed = fold (\<lambda>piece left. concat (map (\<lambda>r. subtract r piece) left)) removed pieces"

text \<open>The ranges that stay a rule, and those that a range move cuts away.\<close>

definition anchored_parts :: "grid_edit \<Rightarrow> cell_range list \<Rightarrow> cell_range list \<times> cell_range list" where
  "anchored_parts edit ranges =
    (case edit of
      MoveRange source _ \<Rightarrow>
        (concat (map (\<lambda>range. subtract_pieces (subtract range source) (overwritten edit)) ranges),
         List.map_filter (\<lambda>range. intersect range source) ranges)
    | _ \<Rightarrow> (map_ranges edit ranges Format, []))"

definition kept_origin :: "grid_edit \<Rightarrow> cell_address \<Rightarrow> cell_address \<Rightarrow> cell_address option" where
  "kept_origin edit old_anchor new_anchor =
    (case edit of
      MoveRange _ _ \<Rightarrow> Some new_anchor
    | _ \<Rightarrow> if map_address edit old_anchor \<noteq> Some new_anchor then unmap_address edit new_anchor else None)"

definition rebase_to :: "cell_address \<Rightarrow> cell_address option \<Rightarrow> copy_offset option" where
  "rebase_to old_anchor origin =
    (case origin of Some o' \<Rightarrow> if o' \<noteq> old_anchor then Some (offset_between old_anchor o') else None | None \<Rightarrow> None)"

definition kept_rule ::
  "'n rewrite_host \<Rightarrow> (nat \<Rightarrow> bool) \<Rightarrow> ustring list \<Rightarrow> grid_change \<Rightarrow> cell_address \<Rightarrow> cell_range list \<Rightarrow> anchored_formulas list budgeted" where
  "kept_rule R cancelled formulas change old_anchor kept =
    (case kept of
      [] \<Rightarrow> breturn []
    | first # _ \<Rightarrow>
        bbind (rebased_and_moved R cancelled formulas
          (rebase_to old_anchor (kept_origin (gc_edit change) old_anchor (rng_start first))) (RequestGrid change)) (\<lambda>fs.
        breturn [\<lparr>af_ranges = kept, af_formulas = fs\<rparr>]))"

definition cut_rule ::
  "'n rewrite_host \<Rightarrow> (nat \<Rightarrow> bool) \<Rightarrow> ustring list \<Rightarrow> grid_change \<Rightarrow> cell_address \<Rightarrow> cell_range list \<Rightarrow> anchored_formulas list budgeted" where
  "cut_rule R cancelled formulas change old_anchor parts =
    (case parts of
      [] \<Rightarrow> breturn []
    | first # _ \<Rightarrow>
        bbind (rebased_and_moved R cancelled formulas (rebase_to old_anchor (Some (rng_start first))) (RequestGrid change)) (\<lambda>fs.
        breturn [\<lparr>af_ranges = List.map_filter (\<lambda>range. offset_range range (range_offset (gc_edit change))) parts, af_formulas = fs\<rparr>]))"

definition move_anchored_formulas ::
  "'n rewrite_host \<Rightarrow> (nat \<Rightarrow> bool) \<Rightarrow> cell_range list \<Rightarrow> ustring list \<Rightarrow> grid_change \<Rightarrow> anchored_formulas list budgeted" where
  "move_anchored_formulas R cancelled ranges formulas change =
    (case ranges of
      [] \<Rightarrow> breturn []
    | first # _ \<Rightarrow>
        let old_anchor = rng_start first; change = change\<lparr>gc_host_is_sheet := True\<rparr>; (kept, parts) = anchored_parts (gc_edit change) ranges
        in bbind (kept_rule R cancelled formulas change old_anchor kept) (\<lambda>rules.
           bbind (cut_rule R cancelled formulas change old_anchor parts) (\<lambda>more. breturn (rules @ more))))"

text \<open>The walk for a spill reference.\<close>

fun is_spill_ref :: "'n expr \<Rightarrow> bool" where
  "is_spill_ref (XSpillRef _) \<longleftrightarrow> True"
| "is_spill_ref _ \<longleftrightarrow> False"

function spill_loop :: "('n expr \<times> node_span_tree) list \<Rightarrow> bool" where
  "spill_loop [] = False"
| "spill_loop ((e, node) # stack) =
    (if is_spill_ref e then True else spill_loop (push_children e node stack))"
  by pat_completeness auto
termination by (relation "measure stack_nodes") (auto simp: push_children_less)

definition contains_spill_reference :: "'n rewrite_host \<Rightarrow> ustring \<Rightarrow> bool option" where
  "contains_spill_reference R source =
    (case parse_formula_with_limits (rh_parse R) source default_limits of
      Inl (ParseFail _) \<Rightarrow> Some False
    | Inl _ \<Rightarrow> None
    | Inr parsed \<Rightarrow> Some (spill_loop [(pf_root parsed, pf_node_tree parsed)]))"

section \<open>Laws\<close>

lemma subtract_pieces_cells:
  assumes "list_all valid_range removed"
  shows "list_all valid_range pieces \<Longrightarrow> list_all valid_range (subtract_pieces pieces removed) \<and>
    cells_of_all (subtract_pieces pieces removed) = cells_of_all pieces - cells_of_all removed"
  using assms unfolding subtract_pieces_def
proof (induction removed arbitrary: pieces)
  case (Cons x removed)
  have x: "valid_range x" using Cons.prems by simp
  note s = subtract_all [OF Cons.prems(1) x]
  show ?case using Cons.IH [OF s(1)] Cons.prems s(2) by auto
qed simp

lemma kept_parts_ok:
  assumes wf: "wf_edit (MoveRange source d)" and rs: "list_all valid_range ranges"
  shows kept_valid: "list_all valid_range (fst (anchored_parts (MoveRange source d) ranges))"
    and kept_cells: "cells_of_all (fst (anchored_parts (MoveRange source d) ranges)) =
      image_cells (MoveRange source d) (cells_of_all ranges - cells_of source)"
proof -
  have v: "valid_range source" "valid_range (pasted source d)" using wf destination_range_exact(2) by auto
  have gone: "list_all valid_range (overwritten (MoveRange source d))"
    "cells_of_all (overwritten (MoveRange source d)) = cells_of (pasted source d) - cells_of source"
    using subtract_correct [OF v(2,1)] by (simp_all only: overwritten.simps destination_range_exact(1) [OF wf] option.case)
  have one: "list_all valid_range (subtract_pieces (subtract r source) (overwritten (MoveRange source d)))"
    "cells_of_all (subtract_pieces (subtract r source) (overwritten (MoveRange source d))) =
      cells_of r - cells_of source - cells_of (pasted source d)" if "valid_range r" for r
    using subtract_pieces_cells [OF gone(1) subtract_correct(1) [OF that v(1)]] subtract_correct(2) [OF that v(1)] gone(2) by auto
  have "list_all valid_range (concat (map (\<lambda>r. subtract_pieces (subtract r source) (overwritten (MoveRange source d))) ranges))"
    using rs one(1) by (induction ranges) auto
  then show "list_all valid_range (fst (anchored_parts (MoveRange source d) ranges))" by (simp add: anchored_parts_def)
  have "cells_of_all (concat (map (\<lambda>r. subtract_pieces (subtract r source) (overwritten (MoveRange source d))) ranges)) =
      cells_of_all ranges - cells_of source - cells_of (pasted source d)"
    using rs one(2) by (induction ranges) auto
  then show "cells_of_all (fst (anchored_parts (MoveRange source d) ranges)) =
      image_cells (MoveRange source d) (cells_of_all ranges - cells_of source)"
    using image_outside [OF wf, of "cells_of_all ranges - cells_of source"]
    by (simp add: anchored_parts_def Int_Diff Diff_Int_distrib2 del: overwritten.simps)
qed

text \<open>The two rules that a range move makes of a rule, and the parts that they cover.\<close>

lemma cut_parts:
  "List.map_filter (\<lambda>range. offset_range range (range_offset edit)) (List.map_filter (\<lambda>range. intersect range source) ranges) =
    concat (map (moved_part edit source) ranges)"
  by (induction ranges) (auto simp: moved_part_def List.map_filter_simps split: option.splits)

lemma cut_cells:
  assumes "wf_edit (MoveRange source d)" "list_all valid_range ranges"
  shows "cells_of_all (List.map_filter (\<lambda>range. offset_range range (range_offset (MoveRange source d)))
      (snd (anchored_parts (MoveRange source d) ranges))) =
    image_cells (MoveRange source d) (cells_of_all ranges \<inter> cells_of source)"
  using moved_parts_cells(2) [OF assms] by (simp add: anchored_parts_def cut_parts del: range_offset.simps)

text \<open>A formula shifted to another anchor and then moved by the edit.\<close>

definition shifted_by :: "'n rewrite_host \<Rightarrow> copy_offset option \<Rightarrow> ustring \<Rightarrow> ustring option \<Rightarrow> bool" where
  "shifted_by R rebase formula t =
    (case rebase of None \<Rightarrow> t = None | Some offset \<Rightarrow> cells_result R formula (RequestCopy offset) t)"

definition moved_formula ::
  "'n rewrite_host \<Rightarrow> copy_offset option \<Rightarrow> rewrite_request \<Rightarrow> ustring \<Rightarrow> ustring option \<Rightarrow> bool" where
  "moved_formula R rebase request formula t \<longleftrightarrow> (\<exists>shifted moved. shifted_by R rebase formula shifted \<and>
    cells_result R (case shifted of Some u \<Rightarrow> u | None \<Rightarrow> formula) request moved \<and>
    t = (case moved of Some u \<Rightarrow> Some u | None \<Rightarrow> shifted))"

text \<open>Why a formula cannot be moved: shifting it or moving the shifted one is refused.\<close>

definition move_refused ::
  "'n rewrite_host \<Rightarrow> copy_offset option \<Rightarrow> rewrite_request \<Rightarrow> ustring \<Rightarrow> parse_error_code \<Rightarrow> source_span \<Rightarrow> bool" where
  "move_refused R rebase request formula code span \<longleftrightarrow>
    (\<exists>offset. rebase = Some offset \<and> cells_refused R formula (RequestCopy offset) code span) \<or>
    (\<exists>shifted. shifted_by R rebase formula shifted \<and> cells_refused R (case shifted of Some u \<Rightarrow> u | None \<Rightarrow> formula) request code span)"

lemma yields_rebased_formula:
  assumes "on_cells request" and T: "\<And>code span. move_refused R rebase request formula code span \<Longrightarrow> T code span"
  shows "yields cancelled L T (rebased_formula R cancelled rebase request formula) (moved_formula R rebase request formula)"
proof -
  have "yields cancelled L T (case rebase of Some offset \<Rightarrow> rewrite_formula R cancelled formula (RequestCopy offset) | None \<Rightarrow> breturn None)
      (shifted_by R rebase formula)"
  proof (cases rebase)
    case (Some offset)
    have "shifted_by R (Some offset) formula = cells_result R formula (RequestCopy offset)"
      by (rule ext) (simp add: shifted_by_def)
    moreover have "yields cancelled L T (rewrite_formula R cancelled formula (RequestCopy offset)) (cells_result R formula (RequestCopy offset))"
      by (rule yields_rewrite_cells) (use Some in \<open>auto simp: move_refused_def intro!: T\<close>)
    ultimately show ?thesis using Some by simp
  qed (simp add: shifted_by_def)
  then show ?thesis unfolding rebased_formula_def
  proof (rule yields_bind)
    fix shifted assume shifted: "shifted_by R rebase formula shifted"
    show "yields cancelled L T (bbind (rewrite_formula R cancelled (case shifted of Some u \<Rightarrow> u | None \<Rightarrow> formula) request)
        (\<lambda>moved. breturn (case moved of Some u \<Rightarrow> Some u | None \<Rightarrow> shifted))) (moved_formula R rebase request formula)"
      by (rule yields_bind [OF yields_rewrite_cells [OF assms(1)]])
        (use shifted in \<open>auto simp: moved_formula_def move_refused_def intro!: T\<close>)
  qed
qed

lemma yields_rebased:
  assumes "on_cells request" and "\<And>formula code span. formula \<in> set formulas \<Longrightarrow> move_refused R rebase request formula code span \<Longrightarrow> T code span"
  shows "yields cancelled L T (rebased_and_moved R cancelled formulas rebase request) (list_all2 (moved_formula R rebase request) formulas)"
  using assms(2)
proof (induction formulas)
  case (Cons formula formulas)
  have "yields cancelled L T (rebased_formula R cancelled rebase request formula) (moved_formula R rebase request formula)"
    by (rule yields_rebased_formula [OF assms(1)]) (use Cons.prems [of formula] in simp)
  moreover have "yields cancelled L T (rebased_and_moved R cancelled formulas rebase request) (list_all2 (moved_formula R rebase request) formulas)"
    by (rule Cons.IH) (use Cons.prems in auto)
  ultimately show ?case unfolding rebased_and_moved.simps
    by (intro yields_bind [of cancelled L T _ "moved_formula R rebase request formula"]
        yields_bind [of cancelled L T _ "list_all2 (moved_formula R rebase request) formulas"]) simp_all
qed simp

text \<open>Why the formulas of a rule cannot be moved.\<close>

definition rule_refused ::
  "'n rewrite_host \<Rightarrow> grid_change \<Rightarrow> cell_address \<Rightarrow> ustring list \<Rightarrow> parse_error_code \<Rightarrow> source_span \<Rightarrow> bool" where
  "rule_refused R change old_anchor formulas code span \<longleftrightarrow>
    (\<exists>formula\<in>set formulas. \<exists>origin. move_refused R (rebase_to old_anchor (Some origin)) (RequestGrid change) formula code span)"

lemma rule_refusedI: "formula \<in> set formulas \<Longrightarrow> move_refused R (rebase_to a (Some origin)) (RequestGrid change) formula code span \<Longrightarrow>
    rule_refused R change a formulas code span"
  by (auto simp: rule_refused_def)

text \<open>The formulas of a rule have been shifted to the cell that the edit carries to the first cell of the rule.\<close>

definition rule_reads :: "'n rewrite_host \<Rightarrow> grid_change \<Rightarrow> cell_address \<Rightarrow> ustring list \<Rightarrow> anchored_formulas \<Rightarrow> bool" where
  "rule_reads R change old_anchor formulas rule \<longleftrightarrow> af_ranges rule \<noteq> [] \<and>
    (\<exists>origin. map_address (gc_edit change) origin = Some (rng_start (hd (af_ranges rule))) \<and>
      list_all2 (moved_formula R (rebase_to old_anchor (Some origin)) (RequestGrid change)) formulas (af_formulas rule))"

definition rules_ok ::
  "'n rewrite_host \<Rightarrow> grid_change \<Rightarrow> cell_address \<Rightarrow> ustring list \<Rightarrow> cell_address set \<Rightarrow> anchored_formulas list \<Rightarrow> bool" where
  "rules_ok R change old_anchor formulas cells rules \<longleftrightarrow>
    cells_of_all (concat (map af_ranges rules)) = image_cells (gc_edit change) cells \<and>
    list_all (rule_reads R change old_anchor formulas) rules"

lemma rules_ok_append: "rules_ok R change a fs S rs \<Longrightarrow> rules_ok R change a fs T qs \<Longrightarrow> rules_ok R change a fs (S \<union> T) (rs @ qs)"
  by (simp add: rules_ok_def)

lemma rules_ok_nil: "image_cells (gc_edit change) cells = {} \<Longrightarrow> rules_ok R change a fs cells []"
  by (simp add: rules_ok_def)

lemma rules_ok_one:
  assumes "list_all2 (moved_formula R (rebase_to a (Some origin)) (RequestGrid change)) fs ts" "ranges \<noteq> []"
    "map_address (gc_edit change) origin = Some (rng_start (hd ranges))" "cells_of_all ranges = image_cells (gc_edit change) cells"
  shows "rules_ok R change a fs cells [\<lparr>af_ranges = ranges, af_formulas = ts\<rparr>]"
  using assms by (auto simp: rules_ok_def rule_reads_def)

lemma kept_rule_ok:
  assumes wf: "wf_edit (MoveRange source d)" and e: "gc_edit change = MoveRange source d" and rs: "list_all valid_range ranges"
    and T: "\<And>code span. rule_refused R change a formulas code span \<Longrightarrow> T code span"
  shows "yields cancelled L T (kept_rule R cancelled formulas change a (fst (anchored_parts (MoveRange source d) ranges)))
    (\<lambda>rules. rules_ok R change a formulas (cells_of_all ranges - cells_of source) rules \<and> length rules \<le> 1)"
proof (cases "fst (anchored_parts (MoveRange source d) ranges)")
  case Nil
  then show ?thesis using kept_cells [OF wf rs] e by (simp add: kept_rule_def rules_ok_nil)
next
  case (Cons first rest)
  have kept: "list_all valid_range (first # rest)" "cells_of_all (first # rest) = image_cells (MoveRange source d) (cells_of_all ranges - cells_of source)"
    using kept_valid [OF wf rs] kept_cells [OF wf rs] Cons by simp_all
  have "rng_start first \<in> cells_of_all (first # rest)" using contains_start [of first] kept(1) by simp
  moreover note kept(2)
  moreover have "image_cells (MoveRange source d) (cells_of_all ranges - cells_of source) =
      cells_of_all ranges - cells_of source - cells_of (pasted source d)" by (rule image_outside [OF wf]) blast
  ultimately have "\<not> contains source (rng_start first)" "\<not> contains (pasted source d) (rng_start first)" by (auto simp only: mem_cells_of Diff_iff)
  then have start: "map_address (MoveRange source d) (rng_start first) = Some (rng_start first)"
    unfolding map_address_MoveRange [OF wf] by (simp only: if_False)
  have "yields cancelled L T (rebased_and_moved R cancelled formulas (rebase_to a (Some (rng_start first))) (RequestGrid change))
      (list_all2 (moved_formula R (rebase_to a (Some (rng_start first))) (RequestGrid change)) formulas)"
    by (rule yields_rebased) (use wf e in \<open>auto intro!: T intro: rule_refusedI\<close>)
  then show ?thesis unfolding kept_rule_def Cons list.case e kept_origin_def grid_edit.case
    by (rule yields_bind) (use kept(2) start e in \<open>simp add: rules_ok_one [where origin = "rng_start first"]\<close>)
qed

lemma cut_rule_ok:
  assumes wf: "wf_edit (MoveRange source d)" and e: "gc_edit change = MoveRange source d" and rs: "list_all valid_range ranges"
    and T: "\<And>code span. rule_refused R change a formulas code span \<Longrightarrow> T code span"
  shows "yields cancelled L T (cut_rule R cancelled formulas change a (snd (anchored_parts (MoveRange source d) ranges)))
    (\<lambda>rules. rules_ok R change a formulas (cells_of_all ranges \<inter> cells_of source) rules \<and> length rules \<le> 1)"
proof (cases "snd (anchored_parts (MoveRange source d) ranges)")
  case Nil
  then show ?thesis using cut_cells [OF wf rs] e by (simp add: cut_rule_def rules_ok_nil List.map_filter_simps)
next
  case (Cons first rest)
  have "first \<in> set (snd (anchored_parts (MoveRange source d) ranges))" using Cons by simp
  then obtain r where r: "r \<in> set ranges" "intersect r source = Some first" by (auto simp: anchored_parts_def List.map_filter_def)
  have q: "valid_range first" "cells_of first = cells_of r \<inter> cells_of source"
    using intersect_Some [OF _ _ r(2)] rs r(1) wf by (auto simp: list_all_iff)
  obtain p where p: "offset_range first (range_offset (MoveRange source d)) = Some p"
    by (rule offset_range_inside [OF wf q(1)]) (use q(2) in auto)
  have start: "map_address (MoveRange source d) (rng_start first) = Some (rng_start p)"
    using p contains_start [OF q(1)] q(2)
    by (auto simp: map_address_MoveRange [OF wf] offset_range_def bind_eq_Some_conv from_ordered_def)
  have "yields cancelled L T (rebased_and_moved R cancelled formulas (rebase_to a (Some (rng_start first))) (RequestGrid change))
      (list_all2 (moved_formula R (rebase_to a (Some (rng_start first))) (RequestGrid change)) formulas)"
    by (rule yields_rebased) (use wf e in \<open>auto intro!: T intro: rule_refusedI\<close>)
  then show ?thesis unfolding cut_rule_def Cons list.case e
    by (rule yields_bind) (use cut_cells [OF wf rs] Cons start e p in
      \<open>auto simp: List.map_filter_simps intro!: rules_ok_one [where origin = "rng_start first"]\<close>)
qed

lemma move_anchored_ok:
  assumes wf: "wf_edit (MoveRange source d)" and e: "gc_edit change = MoveRange source d" and rs: "list_all valid_range ranges"
    and T: "\<And>code span. rule_refused R (change\<lparr>gc_host_is_sheet := True\<rparr>) (rng_start (hd ranges)) formulas code span \<Longrightarrow> T code span"
  shows "yields cancelled L T (move_anchored_formulas R cancelled ranges formulas change) (\<lambda>rules.
    rules_ok R (change\<lparr>gc_host_is_sheet := True\<rparr>) (rng_start (hd ranges)) formulas (cells_of_all ranges) rules \<and> length rules \<le> 2)"
proof (cases ranges)
  case Nil
  then show ?thesis by (simp add: move_anchored_formulas_def rules_ok_nil)
next
  case (Cons first rest)
  let ?change = "change\<lparr>gc_host_is_sheet := True\<rparr>" and ?parts = "anchored_parts (MoveRange source d) ranges"
  have e': "gc_edit ?change = MoveRange source d" using e by simp
  have cells: "(cells_of_all ranges - cells_of source) \<union> (cells_of_all ranges \<inter> cells_of source) = cells_of_all ranges" by blast
  have "move_anchored_formulas R cancelled ranges formulas change =
      bbind (kept_rule R cancelled formulas ?change (rng_start (hd ranges)) (fst ?parts)) (\<lambda>rules.
      bbind (cut_rule R cancelled formulas ?change (rng_start (hd ranges)) (snd ?parts)) (\<lambda>more. breturn (rules @ more)))"
    unfolding move_anchored_formulas_def Let_def e' case_prod_beta using Cons by simp
  moreover have "yields cancelled L T (bbind (kept_rule R cancelled formulas ?change (rng_start (hd ranges)) (fst ?parts)) (\<lambda>rules.
      bbind (cut_rule R cancelled formulas ?change (rng_start (hd ranges)) (snd ?parts)) (\<lambda>more. breturn (rules @ more))))
    (\<lambda>rules. rules_ok R ?change (rng_start (hd ranges)) formulas (cells_of_all ranges) rules \<and> length rules \<le> 2)"
  proof (rule yields_bind)
    show "yields cancelled L T (kept_rule R cancelled formulas ?change (rng_start (hd ranges)) (fst ?parts))
        (\<lambda>rules. rules_ok R ?change (rng_start (hd ranges)) formulas (cells_of_all ranges - cells_of source) rules \<and> length rules \<le> 1)"
      by (rule kept_rule_ok [OF wf e' rs T])
    have "yields cancelled L T (cut_rule R cancelled formulas ?change (rng_start (hd ranges)) (snd ?parts))
        (\<lambda>rules. rules_ok R ?change (rng_start (hd ranges)) formulas (cells_of_all ranges \<inter> cells_of source) rules \<and> length rules \<le> 1)"
      by (rule cut_rule_ok [OF wf e' rs T])
    then show "yields cancelled L T (bbind (cut_rule R cancelled formulas ?change (rng_start (hd ranges)) (snd ?parts)) (\<lambda>more. breturn (rules @ more)))
        (\<lambda>rules. rules_ok R ?change (rng_start (hd ranges)) formulas (cells_of_all ranges) rules \<and> length rules \<le> 2)"
      if "rules_ok R ?change (rng_start (hd ranges)) formulas (cells_of_all ranges - cells_of source) rules \<and> length rules \<le> 1" for rules
      by (rule yields_bind) (use that rules_ok_append cells in fastforce)
  qed
  ultimately show ?thesis by simp
qed

section \<open>Spill references\<close>

function has_spill :: "'n expr \<Rightarrow> bool" where
  "has_spill e \<longleftrightarrow> is_spill_ref e \<or> list_ex has_spill (children e)"
  by pat_completeness auto
termination by (relation "measure size") (auto dest: subexpression_size)

declare has_spill.simps [simp del]

lemma list_ex_zip: "length xs = length ys \<Longrightarrow> list_ex (\<lambda>p. P (fst p)) (zip xs ys) \<longleftrightarrow> list_ex P xs"
  by (induction rule: list_induct2) simp_all

lemma spill_loop_iff:
  assumes "list_all (\<lambda>(e, node). mirrors source e node) stack"
  shows "spill_loop stack \<longleftrightarrow> list_ex (\<lambda>p. has_spill (fst p)) stack"
  using assms
proof (induction stack rule: spill_loop.induct)
  case (2 e node stack)
  have m: "list_all2 (mirrors source) (children e) (tree_children node)" using "2.prems" by (auto elim: mirrorsE)
  have "list_all (\<lambda>(e, node). mirrors source e node) (push_children e node stack)"
    using m "2.prems" by (auto simp: push_children_def list_all_iff list_all2_conv_all_nth in_set_zip)
  then show ?case using "2.IH" list_ex_zip [OF list_all2_lengthD [OF m], of has_spill]
    by (simp add: push_children_def has_spill.simps [of e])
qed simp

lemma contains_spill_exact:
  "case parse_formula_with_limits (rh_parse R) source default_limits of
    Inl _ \<Rightarrow> contains_spill_reference R source = Some False
  | Inr f \<Rightarrow> contains_spill_reference R source = Some (has_spill (pf_root f))"
proof -
  have "budget_limits (default_limits, False)" unfolding budget_limits_def by (rule exI [of _ 8192]) (simp add: default_limits_def)
  then show ?thesis
    by (rule budget_parse_cases [of _ _ "rh_parse R" source])
      (simp_all add: contains_spill_reference_def spill_loop_iff [of source] del: spill_loop.simps)
qed

section \<open>Main result\<close>

text \<open>C17: A rule whose formulas read relative to the first of its cells, such as a conditional format, becomes
through the move of a block of cells at most two rules: together they cover exactly the cells that the move
carries the cells of the rule to, and the formulas of each have been shifted to the cell that the move carries
to its first cell and then follow the move, each text with exactly the planned edits made.  Nothing panics, and
the move stops early only because a poll asked it to, because a limit of the budget was exceeded, or because
shifting or moving one of the formulas is refused.\<close>

theorem anchored_rules_exact:
  assumes "wf_edit (MoveRange source d)" "gc_edit change = MoveRange source d" "list_all valid_range ranges"
  shows "case fst (move_anchored_formulas R cancelled ranges formulas change b) of
      Inl stop \<Rightarrow> stops cancelled (rb_limits b) (rule_refused R (change\<lparr>gc_host_is_sheet := True\<rparr>) (rng_start (hd ranges)) formulas) stop
    | Inr rules \<Rightarrow>
        rules_ok R (change\<lparr>gc_host_is_sheet := True\<rparr>) (rng_start (hd ranges)) formulas (cells_of_all ranges) rules \<and> length rules \<le> 2"
  using move_anchored_ok [OF assms, of R formulas "rule_refused R (change\<lparr>gc_host_is_sheet := True\<rparr>) (rng_start (hd ranges)) formulas"
    cancelled "rb_limits b"] unfolding yields_def by blast

definition sample_move :: grid_change where
  "sample_move = \<lparr>gc_sheet = ascii ''Data'', gc_host_is_sheet = False,
    gc_edit = MoveRange (from_ordered (CellAddress 2 1) (CellAddress 3 1)) (CellAddress 2 4)\<rparr>"

text \<open>The rule \<open>A1>B1\<close> on A1:A6 when A2:A3 is cut to D2.\<close>

theorem anchored_rules_exact_witness:
  "case fst (move_anchored_formulas plain_rewrite_host (\<lambda>_. False) [from_ordered (CellAddress 1 1) (CellAddress 6 1)] [ascii ''A1>B1'']
      sample_move (budget_new UNBOUNDED 0)) of
      Inl stop \<Rightarrow> stops (\<lambda>_. False) (rb_limits (budget_new UNBOUNDED 0)) (rule_refused plain_rewrite_host
        (sample_move\<lparr>gc_host_is_sheet := True\<rparr>) (rng_start (hd [from_ordered (CellAddress 1 1) (CellAddress 6 1)])) [ascii ''A1>B1'']) stop
    | Inr rules \<Rightarrow>
        rules_ok plain_rewrite_host (sample_move\<lparr>gc_host_is_sheet := True\<rparr>) (rng_start (hd [from_ordered (CellAddress 1 1) (CellAddress 6 1)]))
          [ascii ''A1>B1''] (cells_of_all [from_ordered (CellAddress 1 1) (CellAddress 6 1)]) rules \<and> length rules \<le> 2"
  by (rule anchored_rules_exact [where source = "from_ordered (CellAddress 2 1) (CellAddress 3 1)" and d = "CellAddress 2 4"])
    (simp_all add: sample_move_def concrete)

end
