(* ===== verification/Spec2Isabelle.thy ===== *)
theory Spec2Isabelle
  imports Grid_Laws Schedule Sheet Csv Xstring Sheet_Name Calendar Anchored
begin

text \<open>
CellRune is a spreadsheet engine written in Rust: a workbook model, a calculation engine for
Excel formulas, and readers and writers for XLSX and CSV, with an interop service and an MCP server
around them.  This development models parts of the core crate, \<open>src/crates/cellrune/src\<close> (the paths
below are relative to it), and proves what makes them correct.

\<^bold>\<open>The parts and how they interact.\<close>  A workbook holds sheets; a sheet keeps its cells in a persistent
radix map keyed by row and column, with indexes over the formulas, the array formulas and the used
range.  Structural edits (inserted, deleted and moved lines, moved blocks) map addresses and ranges.
Formula text is cut into tokens and parsed into an expression, with a tree that gives the span of every
node in the source.  When the workbook changes under a formula (a renamed, moved or deleted sheet, table,
column or name, a structural edit, a copy), its text is rewritten through edits at spans of that tree and
parsed again.  Formulas are recorded in a dependency graph, from which a recalculation takes its order and its
cycles.  Cell text leaves and enters through CSV and through the escapes of XLSX.  Dates are serial
numbers of two date systems.

\<^bold>\<open>Conventions.\<close>  A \<open>u32\<close> is a natural number and the plain operators of the source are \<open>u32_add\<close>,
\<open>u32_sub\<close> and \<open>u32_mul\<close>, which wrap as a release build does; the checked ones return options.  Where signed results may wrap, \<open>i32\<close> and
\<open>i64\<close> do it.  A
\<open>Result\<close> is a sum with the error on the left, \<open>None\<close> is an absent value or, where a theory says so, a
panic.  Text is a list of code points.  A callback is a function argument, and where the code polls
one for cancellation the number of earlier polls is part of the state.  Loops that the code bounds are
total functions with a termination proof; a loop that may run forever is a \<open>partial_function\<close>, and
that it returns is a theorem.  Fuel is used in the parser only: its three loops get the number of
tokens plus one, each turn consumes a token, and \<open>parse_formula_total\<close> shows that this is enough.

\<^bold>\<open>The theories.\<close>

\<^item> \<open>Prelude\<close>: integers, results, options and the list lemmas the components share.  \<open>Ordered_Map\<close>: the
  ordered maps of the standard library, with the locale \<open>ordered_map\<close> as their interface.
  \<open>Traversal\<close>: reachability as a stack and a visited set compute it.  \<open>Unicode\<close>: code points and their
  encoded lengths.
\<^item> \<open>Errors\<close> (\<open>error.rs\<close>): every validation error, its code and the stable text of the code.
\<^item> \<open>Address\<close> (\<open>address.rs\<close>): rows, columns, addresses, ranges, their A1 and sqref texts.  Parsing
  accepts exactly the texts of cells of the sheet, and printing and parsing are inverse.
\<^item> \<open>Grid\<close>, \<open>Grid_Laws\<close> (\<open>grid.rs\<close>): structural edits.  The backward map is the exact inverse of the
  forward map, edited ranges cover exactly the images of their cells, an edit that does not split a
  range moves it rigidly, and the history leads back to the source cell.
\<^item> \<open>Graph\<close>, \<open>Dense_Graph\<close>, \<open>Kahn\<close>, \<open>Cycles\<close>, \<open>Schedule\<close> (\<open>calculation/graph.rs\<close>): the dependency graph,
  its dense form with the transposed edges, the scheduling loop and the search for cycles.
  \<open>Schedule\<close> states the abstract specification, the greedy order of the formulas whose needs are met
  with the cells on cycles and the cells blocked by them, and proves that the code refines it under any
  cancellation callback and never panics, for graphs of fewer than 2 to the 32 nodes (the loops run over the
  number of nodes cast to \<open>u32\<close>).
\<^item> \<open>Radix\<close>, \<open>Radix_Walk\<close> (\<open>calculation/persistent_store.rs\<close>): the persistent radix map, its cursor and
  its double-ended iterator.  The locale of ordered maps is interpreted on it; the tree depends only
  on its entries, not on the edits that led to them.
\<^item> \<open>Cell\<close>, \<open>Cell_Store\<close>, \<open>Sheet\<close> (\<open>cell.rs\<close>, \<open>formula.rs\<close>, \<open>workbook.rs\<close>): cells, the store, and the sheet
  with its indexes.  Every reachable sheet satisfies the invariant \<open>sheet_ok\<close>: the indexes are exact,
  the bounds too unless they are marked dirty.  The walk over a rectangle returns its cells in order,
  although it jumps; the builder is equivalent to inserting the cells one by one.
\<^item> \<open>Sheet_Name\<close> (\<open>workbook.rs\<close>): validation of sheet names and the name of a copy, which is fresh when
  a stem remains to be numbered and is never found for one shape of name.
\<^item> \<open>Csv\<close> (\<open>csv/\<close>): reading respects its limits on any input; reading what was written gives the
  values back.  Number parsing and printing are parameters with the documented round trip of \<open>f64\<close>.
\<^item> \<open>Xstring\<close> (\<open>xlsx/xstring.rs\<close>): the escapes of cell text.  Decoding in chunks equals decoding at once;
  decoding inverts encoding up to one exception, which is exhibited.
\<^item> \<open>Calendar\<close> (\<open>calculation/functions/calendar.rs\<close>, \<open>day_count.rs\<close>): civil dates and serials, which
  convert back and forth on exactly the supported range, and the day counts of bonds.  The day number of a date is
  computed in \<open>i32\<close> and exact for years of at most six digits.
\<^item> \<open>Formula_Tokens\<close>, \<open>Lexer\<close> (\<open>calculation/lexer.rs\<close>, \<open>excel_digits.rs\<close>): the lexer.  The tokens and the
  white space decompose the source exactly; it never panics and its errors point into the source.  The
  tables of Unicode and the parsing of \<open>f64\<close> are the parameter \<open>std_lib\<close>.
\<^item> \<open>Structured_Reference\<close> (\<open>calculation/structured_reference.rs\<close>, \<open>ast.rs\<close>): table references; printing
  and parsing are inverse.
\<^item> \<open>Expression\<close>, \<open>Parser\<close>, \<open>Parser_Laws\<close>, \<open>Parser_Correct\<close>, \<open>Parser_Limits\<close> (\<open>calculation/ast.rs\<close>, \<open>syntax.rs\<close>, \<open>parser.rs\<close>):
  the whole parser, with the nodes it records.  It always ends with a formula or an ordinary error, the
  recorded nodes are the nodes of the expression, their spans are stretches of the source, nested and in the
  order of the subexpressions, and the checks at its end cannot fail.  A smaller limit
  on the nodes gives the same formula or a refusal for the number of nodes.  The function registry and the conversions of \<open>f64\<close> are the parameter \<open>parse_host\<close>.
\<^item> \<open>Source_Edits\<close> (\<open>calculation/syntax.rs\<close>): edits of a formula's text by spans of its source.  They are
  applied exactly, or refused as unordered or out of place.
\<^item> \<open>Grid_Rewrite\<close>, \<open>Reference_Laws\<close> (\<open>calculation/grid_rewrite.rs\<close>): what a reference becomes under a
  structural edit or a copy.  It keeps naming exactly the images of the cells it named, it follows a
  cut, and a copy moves exactly its relative rows and columns.
\<^item> \<open>Sheet_Changes\<close> (\<open>calculation/sheet_changes.rs\<close>): what becomes of a span of sheets when tabs are deleted
  or moved: it spans exactly the worksheets that are left, and an end that goes becomes the nearest worksheet inside.
\<^item> \<open>Table_Conversion\<close> (\<open>calculation/table_conversion.rs\<close>): the text of a table reference when the table becomes a
  range: the quoted sheet and the corners of the smallest range with the rows and columns that the reference names.
\<^item> \<open>Grid_Planner\<close> (\<open>calculation/grid_rewrite.rs\<close>, \<open>ast.rs\<close>): the edits planned for one node of a formula.
  \<open>Rewrite_Budget\<close>, \<open>Formula_Rewrite\<close> (\<open>calculation/formula_rewrite.rs\<close>): the budget, the requests, the tests on
  formulas that do not parse, the edits of names, and the driver.  \<open>Rewrite_Laws\<close> puts them together with the
  parser and the source edits: whatever the request, the charged work stays within the limits; for structural
  edits and copies the planned edits always apply, because the nodes of the source map do not overlap, and the
  result is the source with exactly these edits, a text that parses; it stops early only for a poll, an exceeded
  limit or a text that does not parse.  The lower case of a character and the
  names of the functions are the parameters of \<open>rewrite_host\<close>.
\<^item> \<open>Anchored\<close> (\<open>calculation/grid_rewrite.rs\<close>): rules whose formulas read relative to their first cell, through
  the move of a block of cells: they cover the images of their cells, and each formula is shifted to the new first
  cell and then follows the move.

\<^bold>\<open>Not modelled.\<close>  Formula evaluation and the worksheet functions compute with \<open>f64\<close> over several
hundred functions; XML, ZIP and the servers are input and output through other crates.  Of the sheet,
tables, filters, validations, annotations, styles and fingerprints are opaque.  That the edits of names also
never overlap is not proved: they go by the components of a node, whose places the parser theorem gives for the
bodies of references only.  The workbook's own draft, which calls the rewriter for each formula, is not modelled.
\<close>

end
